(* ===== verification/Prelude.thy ===== *)
theory Prelude
  imports Main "HOL-Library.Word" "HOL-Library.Monad_Syntax"
begin

unbundle bit_operations_syntax

section \<open>Shared types, memory blocks and lemma collections\<close>

text \<open>
  What every component of the model shares.

  Machine integers are words of their C width. A block of memory is the list of its bytes.
  A C expression that has no defined value (an access outside a block, a null pointer that is
  dereferenced, a second lock of a mutex the thread already holds) is \<open>None\<close>, and a model
  function is \<open>Some\<close> of its result and new state; so a theorem that a model function is
  \<open>Some\<close> is a theorem that the C function runs without a fault.

  Allocation is decided by the environment: \<open>None\<close> is a failed allocation, \<open>Some g\<close> one
  whose block initially holds the bytes \<open>g 0, g 1, \<dots>\<close> (indeterminate in C, so arbitrary
  here).
\<close>

type_synonym u8 = "8 word"
type_synonym u16 = "16 word"
type_synonym u32 = "32 word"
type_synonym u64 = "64 word"

type_synonym block = "u8 list"
type_synonym malloc_env = "(nat \<Rightarrow> u8) option"

named_theorems mem_simps \<open>loads and stores inside a block\<close>
named_theorems slot_simps \<open>fixed-width slots of a block\<close>

subsection \<open>Words without wrap-around\<close>

lemma unat_bound: "unat w < 2 ^ LENGTH('a)" for w :: "'a::len word"
  by (rule unsigned_less)

lemma unat_inc: "i < w \<Longrightarrow> unat (i + 1) = unat i + 1" for i w :: "'a::len word"
proof -
  assume "i < w"
  moreover have "unat w < 2 ^ LENGTH('a)" by (rule unsigned_less)
  ultimately have "unat i + 1 < 2 ^ LENGTH('a)"
    by (metis Suc_eq_plus1 Suc_leI le_less_trans word_less_nat_alt)
  then show ?thesis by (simp add: unat_word_ariths)
qed

lemma unat_dec: "w \<noteq> 0 \<Longrightarrow> unat (w - 1) = unat w - 1" for w :: "'a::len word"
  by (simp add: unat_minus_one)

lemma unat_plus_small:
  "unat a + unat b < 2 ^ LENGTH('a) \<Longrightarrow> unat (a + b) = unat a + unat b" for a b :: "'a::len word"
  by (simp add: unat_word_ariths)

lemma unat_minus_le: "b \<le> a \<Longrightarrow> unat (a - b) = unat a - unat b" for a b :: "'a::len word"
  by (simp add: unat_sub)

subsection \<open>Allocation\<close>

definition malloc :: "malloc_env \<Rightarrow> nat \<Rightarrow> block option" where
  "malloc e n = map_option (\<lambda>g. map g [0..<n]) e"

definition realloc :: "malloc_env \<Rightarrow> block \<Rightarrow> nat \<Rightarrow> block option" where
  "realloc e bs n = map_option (\<lambda>g. take n bs @ map g [length bs..<n]) e"

definition memset0 :: "block \<Rightarrow> nat \<Rightarrow> nat \<Rightarrow> block option" where
  "memset0 bs off n =
     (if off + n \<le> length bs then Some (take off bs @ replicate n 0 @ drop (off + n) bs) else None)"

lemma malloc_simps [simp]:
  "malloc None n = None"
  "malloc (Some g) n = Some (map g [0..<n])"
  by (simp_all add: malloc_def)

lemma realloc_simps [simp]:
  "realloc None bs n = None"
  "realloc (Some g) bs n = Some (take n bs @ map g [length bs..<n])"
  by (simp_all add: realloc_def)

lemma malloc_length: "malloc e n = Some b \<Longrightarrow> length b = n"
  by (auto simp: malloc_def)

lemma realloc_length: "realloc e bs n = Some b \<Longrightarrow> length b = n"
  by (auto simp: realloc_def)

subsection \<open>Loads, stores, memmove\<close>

definition load :: "block \<Rightarrow> nat \<Rightarrow> nat \<Rightarrow> block option" where
  "load bs off n = (if off + n \<le> length bs then Some (take n (drop off bs)) else None)"

definition store :: "block \<Rightarrow> nat \<Rightarrow> block \<Rightarrow> block option" where
  "store bs off src =
     (if off + length src \<le> length bs
      then Some (take off bs @ src @ drop (off + length src) bs) else None)"

definition memmove :: "block \<Rightarrow> nat \<Rightarrow> nat \<Rightarrow> nat \<Rightarrow> block option" where
  "memmove bs dst src n = do { x \<leftarrow> load bs src n; store bs dst x }"

lemma load_ok [mem_simps]: "off + n \<le> length bs \<Longrightarrow> load bs off n = Some (take n (drop off bs))"
  by (simp add: load_def)

lemma store_ok [mem_simps]:
  "off + length src \<le> length bs \<Longrightarrow>
     store bs off src = Some (take off bs @ src @ drop (off + length src) bs)"
  by (simp add: store_def)

lemma store_length: "store bs off src = Some bs' \<Longrightarrow> length bs' = length bs"
  by (auto simp: store_def split: if_splits)

lemma load_length: "load bs off n = Some x \<Longrightarrow> length x = n"
  by (auto simp: load_def split: if_splits)

subsection \<open>Blocks as arrays of fixed-width elements\<close>

text \<open>
  \<open>slot es bs i\<close> is the element \<open>i\<close> of a block read as an array of elements of
  \<open>es\<close> bytes; the containers of the program are such arrays.
\<close>

definition slot :: "nat \<Rightarrow> block \<Rightarrow> nat \<Rightarrow> block" where
  "slot es bs i = take es (drop (i * es) bs)"

definition put_slot :: "nat \<Rightarrow> block \<Rightarrow> nat \<Rightarrow> block \<Rightarrow> block" where
  "put_slot es bs i x = take (i * es) bs @ x @ drop (i * es + es) bs"

lemma slot_bound: "i < n \<Longrightarrow> i * es + es \<le> n * es" for n es i :: nat
  by (metis add.commute mult.commute mult_Suc_right mult_le_mono1 Suc_leI)

lemma slot_length [slot_simps]: "i < n \<Longrightarrow> n * es \<le> length bs \<Longrightarrow> length (slot es bs i) = es"
  using slot_bound [of i n es] by (simp add: slot_def)

lemma load_slot [mem_simps]:
  "i < n \<Longrightarrow> n * es \<le> length bs \<Longrightarrow> load bs (i * es) es = Some (slot es bs i)"
  using slot_bound [of i n es] by (simp add: load_def slot_def)

lemma store_slot [mem_simps]:
  "i < n \<Longrightarrow> n * es \<le> length bs \<Longrightarrow> length x = es \<Longrightarrow>
     store bs (i * es) x = Some (put_slot es bs i x)"
  using slot_bound [of i n es] by (simp add: store_def put_slot_def)

lemma slot_append_left [slot_simps]:
  "j < m \<Longrightarrow> m * es \<le> length xs \<Longrightarrow> slot es (xs @ ys) j = slot es xs j"
  using slot_bound [of j m es] by (simp add: slot_def)

lemma slot_append_right [slot_simps]:
  "length xs = m * es \<Longrightarrow> m \<le> j \<Longrightarrow> slot es (xs @ ys) j = slot es ys (j - m)"
  by (simp add: slot_def diff_mult_distrib)

lemma slot_take [slot_simps]: "j < m \<Longrightarrow> slot es (take (m * es) bs) j = slot es bs j"
  using slot_bound [of j m es] by (simp add: slot_def drop_take min_def)

lemma slot_drop [slot_simps]: "slot es (drop (m * es) bs) j = slot es bs (m + j)"
  by (simp add: slot_def add_mult_distrib add.commute)

lemma put_slot_length [slot_simps]:
  "i < n \<Longrightarrow> n * es \<le> length bs \<Longrightarrow> length x = es \<Longrightarrow> length (put_slot es bs i x) = length bs"
  using slot_bound [of i n es] by (simp add: put_slot_def)

lemma slot_put_slot [slot_simps]:
  assumes "i < n" and "n * es \<le> length bs" and "length x = es"
  shows "slot es (put_slot es bs i x) j = (if j = i then x else slot es bs j)"
proof -
  have b: "i * es + es \<le> length bs" using slot_bound [OF assms(1), of es] assms(2) by simp
  consider "j < i" | "j = i" | "i < j" by linarith
  then show ?thesis
  proof cases
    case 1
    then show ?thesis using b
      by (simp add: put_slot_def slot_append_left [where m = i] slot_take)
  next
    case 2
    then show ?thesis using b assms(3) by (simp add: put_slot_def slot_def)
  next
    case 3
    have l: "length (take (i * es) bs @ x) = Suc i * es" using b assms(3) by simp
    have "slot es ((take (i * es) bs @ x) @ drop (Suc i * es) bs) j
        = slot es (drop (Suc i * es) bs) (j - Suc i)"
      using l 3 by (intro slot_append_right) auto
    also have "\<dots> = slot es bs j" using slot_drop [of es "Suc i" bs "j - Suc i"] 3 by simp
    finally show ?thesis using 3 by (simp add: put_slot_def add.commute)
  qed
qed

text \<open>Moving \<open>k\<close> consecutive elements, as \<open>memmove\<close> does with overlapping areas.\<close>

definition move_slots :: "nat \<Rightarrow> block \<Rightarrow> nat \<Rightarrow> nat \<Rightarrow> nat \<Rightarrow> block" where
  "move_slots es bs dst src k =
     take (dst * es) bs @ take (k * es) (drop (src * es) bs) @ drop (dst * es + k * es) bs"

lemma memmove_slots [mem_simps]:
  assumes "src + k \<le> n" and "dst + k \<le> n" and "n * es \<le> length bs"
  shows "memmove bs (dst * es) (src * es) (k * es) = Some (move_slots es bs dst src k)"
proof -
  have "src * es + k * es \<le> length bs" "dst * es + k * es \<le> length bs"
    using assms by (metis add_mult_distrib le_trans mult_le_mono1)+
  then show ?thesis by (simp add: memmove_def load_def store_def move_slots_def)
qed

lemma move_slots_length [slot_simps]:
  assumes "src + k \<le> n" and "dst + k \<le> n" and "n * es \<le> length bs"
  shows "length (move_slots es bs dst src k) = length bs"
  using store_length memmove_slots [OF assms] by (auto simp: memmove_def bind_eq_Some_conv)

lemma slot_move_slots [slot_simps]:
  assumes "src + k \<le> n" and "dst + k \<le> n" and "n * es \<le> length bs"
  shows "slot es (move_slots es bs dst src k) j =
     (if dst \<le> j \<and> j < dst + k then slot es bs (src + (j - dst)) else slot es bs j)"
proof -
  have b: "src * es + k * es \<le> length bs" "dst * es + k * es \<le> length bs"
    using assms by (metis add_mult_distrib le_trans mult_le_mono1)+
  let ?A = "take (dst * es) bs" and ?B = "take (k * es) (drop (src * es) bs)"
    and ?C = "drop ((dst + k) * es) bs"
  have eq: "move_slots es bs dst src k = ?A @ ?B @ ?C"
    by (simp add: move_slots_def add_mult_distrib)
  have la: "length ?A = dst * es" and lb: "length ?B = k * es" using b by auto
  consider "j < dst" | "dst \<le> j" "j < dst + k" | "dst + k \<le> j" by linarith
  then show ?thesis
  proof cases
    case 1
    then have "slot es (?A @ ?B @ ?C) j = slot es ?A j"
      using la by (intro slot_append_left [where m = dst]) auto
    with 1 show ?thesis by (simp add: eq slot_take)
  next
    case 2
    have "slot es (?A @ ?B @ ?C) j = slot es (?B @ ?C) (j - dst)"
      using la 2 by (intro slot_append_right) auto
    also have "\<dots> = slot es ?B (j - dst)"
      using lb 2 by (intro slot_append_left [where m = k]) auto
    also have "\<dots> = slot es bs (src + (j - dst))" using 2 by (simp add: slot_take slot_drop)
    finally show ?thesis using 2 by (simp add: eq)
  next
    case 3
    have "slot es (?A @ ?B @ ?C) j = slot es (?B @ ?C) (j - dst)"
      using la 3 by (intro slot_append_right) auto
    also have "\<dots> = slot es ?C (j - dst - k)"
      using lb 3 by (intro slot_append_right) auto
    also have "\<dots> = slot es bs j" using 3 by (simp add: slot_drop)
    finally show ?thesis using 3 by (simp add: eq)
  qed
qed

subsection \<open>Lists\<close>

definition drop_nth :: "nat \<Rightarrow> 'a list \<Rightarrow> 'a list" where
  "drop_nth k xs = take k xs @ drop (Suc k) xs"

lemma length_drop_nth: "k < length xs \<Longrightarrow> length (drop_nth k xs) = length xs - 1"
  by (simp add: drop_nth_def)

lemma nth_drop_nth:
  "k < length xs \<Longrightarrow> j < length xs - 1 \<Longrightarrow>
     drop_nth k xs ! j = (if j < k then xs ! j else xs ! Suc j)"
  by (simp add: drop_nth_def nth_append min_def)

lemma drop_nth_append [simp]: "drop_nth (length xs) (xs @ y # ys) = xs @ ys"
  by (simp add: drop_nth_def)

end
