(* ===== verification/Fifo.thy ===== *)
theory Fifo
  imports Prelude
begin

section \<open>The contract of a first-in first-out queue\<close>

text \<open>
  What the callers of a queue rely on: an element that is enqueued while there is room is
  appended to the content, and a dequeue that does not wait takes the oldest element. The
  lemmas of the locale are about whole runs of such calls.
\<close>

datatype 'x fifo_op = Enq 'x | Deq

fun fifo_run ::
  "('x \<Rightarrow> 'q \<Rightarrow> 'q option) \<Rightarrow> ('q \<Rightarrow> ('x option \<times> 'q) option) \<Rightarrow> 'x fifo_op list \<Rightarrow> 'q \<Rightarrow>
   ('x option list \<times> 'q) option" where
  "fifo_run enq deq [] q = Some ([], q)"
| "fifo_run enq deq (Enq x # ops) q = do { q' \<leftarrow> enq x q; fifo_run enq deq ops q' }"
| "fifo_run enq deq (Deq # ops) q = do {
     (y, q') \<leftarrow> deq q;
     (ys, q'') \<leftarrow> fifo_run enq deq ops q';
     Some (y # ys, q'') }"

fun list_run :: "'x fifo_op list \<Rightarrow> 'x list \<Rightarrow> 'x option list \<times> 'x list" where
  "list_run [] xs = ([], xs)"
| "list_run (Enq x # ops) xs = list_run ops (xs @ [x])"
| "list_run (Deq # ops) xs =
     (case xs of
        [] \<Rightarrow> apfst (Cons None) (list_run ops [])
      | y # ys \<Rightarrow> apfst (Cons (Some y)) (list_run ops ys))"

fun enq_args :: "'x fifo_op list \<Rightarrow> 'x list" where
  "enq_args [] = []"
| "enq_args (Enq x # ops) = x # enq_args ops"
| "enq_args (Deq # ops) = enq_args ops"

lemma list_run_enqs: "list_run (map Enq ys) xs = ([], xs @ ys)"
  by (induction ys arbitrary: xs) auto

lemma list_run_append:
  "list_run (a @ b) xs
     = (fst (list_run a xs) @ fst (list_run b (snd (list_run a xs))), snd (list_run b (snd (list_run a xs))))"
  by (induction a xs rule: list_run.induct) (auto split: list.split)

lemma list_run_drain:
  "list_run (replicate (length xs) Deq) xs = (map Some xs, [])"
  by (induction xs) auto

lemma enq_args_append: "enq_args (a @ b) = enq_args a @ enq_args b"
  by (induction a rule: enq_args.induct) auto

lemma enq_args_Enq [simp]: "enq_args (map Enq xs) = xs"
  by (induction xs) auto

lemma enq_args_Deq [simp]: "enq_args (replicate n Deq) = []"
  by (induction n) auto

locale fifo =
  fixes inv :: "'q \<Rightarrow> bool"
    and content :: "'q \<Rightarrow> 'x list"
    and fits :: "'q \<Rightarrow> 'x \<Rightarrow> bool"
    and spare :: "'q \<Rightarrow> nat"
    and enq :: "'x \<Rightarrow> 'q \<Rightarrow> 'q option"
    and deq :: "'q \<Rightarrow> ('x option \<times> 'q) option"
  assumes enq_ok: "inv q \<Longrightarrow> fits q x \<Longrightarrow> 0 < spare q \<Longrightarrow>
      \<exists>q'. enq x q = Some q' \<and> inv q' \<and> content q' = content q @ [x] \<and>
        fits q' = fits q \<and> spare q \<le> Suc (spare q')"
    and deq_empty: "inv q \<Longrightarrow> content q = [] \<Longrightarrow> deq q = Some (None, q)"
    and deq_ok: "inv q \<Longrightarrow> content q = x # xs \<Longrightarrow>
      \<exists>q'. deq q = Some (Some x, q') \<and> inv q' \<and> content q' = xs \<and>
        fits q' = fits q \<and> spare q \<le> spare q'"
begin

lemma run_refines:
  assumes "inv q" and "length (enq_args ops) \<le> spare q" and "\<forall>x \<in> set (enq_args ops). fits q x"
  shows "\<exists>q'. fifo_run enq deq ops q = Some (fst (list_run ops (content q)), q') \<and> inv q' \<and>
    content q' = snd (list_run ops (content q))"
  using assms
proof (induction ops arbitrary: q)
  case Nil
  then show ?case by simp
next
  case (Cons p ops)
  show ?case
  proof (cases p)
    case (Enq x)
    then obtain q1 where q1: "enq x q = Some q1" "inv q1" "content q1 = content q @ [x]"
      "fits q1 = fits q" "spare q \<le> Suc (spare q1)" using enq_ok [of q x] Cons.prems by auto
    with Cons.IH [of q1] Cons.prems Enq show ?thesis by auto
  next
    case Deq
    show ?thesis
    proof (cases "content q")
      case Nil
      with Cons.IH [of q] Cons.prems Deq deq_empty show ?thesis by auto
    next
      case (Cons y ys)
      then obtain q1 where q1: "deq q = Some (Some y, q1)" "inv q1" "content q1 = ys"
        "fits q1 = fits q" "spare q \<le> spare q1" using deq_ok [of q y ys] Cons.prems by auto
      with Cons.IH [of q1] Cons.prems Deq \<open>content q = y # ys\<close> show ?thesis by auto
    qed
  qed
qed

lemma fill_and_drain:
  assumes "inv q" and "content q = []" and "length xs \<le> spare q" and "\<forall>x \<in> set xs. fits q x"
  shows "\<exists>q'. fifo_run enq deq (map Enq xs @ replicate (length xs) Deq) q = Some (map Some xs, q') \<and>
    inv q' \<and> content q' = []"
  using run_refines [OF assms(1), of "map Enq xs @ replicate (length xs) Deq"] assms(2-4)
  by (simp add: enq_args_append list_run_append list_run_enqs list_run_drain)

end

end
