(* ===== verification/Cf_Queue.thy ===== *)
theory Cf_Queue
  imports Prelude Fifo
begin

section \<open>The ring-buffer queue (\<open>src/cf_queue.c\<close>, \<open>include/citrusleaf/cf_queue.h\<close>)\<close>

text \<open>
  The queue keeps \<open>allocsz\<close> elements of \<open>elementsz\<close> bytes in one block; \<open>read_offset\<close> and
  \<open>write_offset\<close> count elements ever read and written and are reduced modulo
  \<open>allocsz\<close> at each access. \<open>cf_queue_elems\<close> is the abstract content, oldest first; the
  invariant \<open>cf_queue_inv\<close> bounds the offsets. The lemmas show that every operation refines
  the list operation, without a fault and for the 32-bit offsets of the code.

  Each operation runs under the queue's mutex, so it is one atomic step here. The one place
  where the lock is given up, the wait of \<open>cf_queue_pop\<close>, takes the queue states that the
  other threads leave at the successive wake-ups as an argument.
\<close>

subsection \<open>State and operations\<close>

record cf_queue =
  threadsafe :: bool
  allocsz :: u32
  write_offset :: u32
  read_offset :: u32
  elementsz :: nat
  queue :: "block option"

definition CF_QUEUE_ALLOCSZ :: u32 where "CF_QUEUE_ALLOCSZ = 64"
definition CF_QUEUE_EMPTY :: int where "CF_QUEUE_EMPTY = - 2"
definition CF_QUEUE_ERR :: int where "CF_QUEUE_ERR = - 1"
definition CF_QUEUE_OK :: int where "CF_QUEUE_OK = 0"
definition CF_QUEUE_FOREVER :: int where "CF_QUEUE_FOREVER = - 1"
definition CF_QUEUE_NOWAIT :: int where "CF_QUEUE_NOWAIT = 0"

lemmas cf_queue_codes =
  CF_QUEUE_ALLOCSZ_def CF_QUEUE_EMPTY_def CF_QUEUE_ERR_def CF_QUEUE_OK_def
  CF_QUEUE_FOREVER_def CF_QUEUE_NOWAIT_def

definition CF_Q_SZ :: "cf_queue \<Rightarrow> u32" where
  "CF_Q_SZ q = write_offset q - read_offset q"

definition CF_Q_EMPTY :: "cf_queue \<Rightarrow> bool" where
  "CF_Q_EMPTY q \<longleftrightarrow> write_offset q = read_offset q"

text \<open>The offset of an element in the block; the remainder by zero is undefined.\<close>

definition CF_Q_ELEM_PTR :: "cf_queue \<Rightarrow> u32 \<Rightarrow> nat option" where
  "CF_Q_ELEM_PTR q i =
     (if allocsz q = 0 then None else Some (unat (i mod allocsz q) * elementsz q))"

text \<open>
  \<open>cf_queue_create\<close>: the two allocations and the initialisation of mutex and condition
  variable may fail; the result is then NULL.
\<close>

definition cf_queue_create ::
  "malloc_env \<Rightarrow> malloc_env \<Rightarrow> bool \<Rightarrow> bool \<Rightarrow> nat \<Rightarrow> bool \<Rightarrow> cf_queue option" where
  "cf_queue_create e_struct e_block mutex_ok cond_ok elemsz safe =
     (if e_struct = None then None
      else case malloc e_block (unat CF_QUEUE_ALLOCSZ * elemsz) of
        None \<Rightarrow> None
      | Some b \<Rightarrow>
          let q = \<lparr>threadsafe = safe, allocsz = CF_QUEUE_ALLOCSZ, write_offset = 0,
                   read_offset = 0, elementsz = elemsz, queue = Some b\<rparr>
          in if \<not> safe then Some q
             else if \<not> mutex_ok then None
             else if \<not> cond_ok then None
             else Some q)"

text \<open>\<open>cf_queue_destroy\<close> overwrites the block with zeros before it frees it.\<close>

definition cf_queue_destroy :: "cf_queue \<Rightarrow> unit option" where
  "cf_queue_destroy q = do {
     bs \<leftarrow> queue q;
     _ \<leftarrow> memset0 bs 0 (unat (allocsz q) * elementsz q);
     Some ()
   }"

definition cf_queue_sz :: "cf_queue \<Rightarrow> int" where
  "cf_queue_sz q = sint (CF_Q_SZ q)"

definition cf_queue_resize :: "malloc_env \<Rightarrow> cf_queue \<Rightarrow> u32 \<Rightarrow> (int \<times> cf_queue) option" where
  "cf_queue_resize e q new_sz =
     (if CF_Q_SZ q \<noteq> allocsz q then Some (- 1, q)
      else if allocsz q = 0 then None
      else if read_offset q mod allocsz q = 0 then
        (case (case queue q of None \<Rightarrow> malloc e (unat new_sz * elementsz q)
                 | Some bs \<Rightarrow> realloc e bs (unat new_sz * elementsz q)) of
           None \<Rightarrow> Some (- 1, q\<lparr>queue := None\<rparr>)
         | Some bs' \<Rightarrow> Some (0, q\<lparr>queue := Some bs', read_offset := 0,
                                  write_offset := allocsz q, allocsz := new_sz\<rparr>))
      else
        (case malloc e (unat new_sz * elementsz q) of
           None \<Rightarrow> Some (- 1, q)
         | Some newq \<Rightarrow>
             let endsz = (unat (allocsz q - read_offset q mod allocsz q) * elementsz q) mod 2 ^ 32
             in do {
               bs \<leftarrow> queue q;
               p \<leftarrow> CF_Q_ELEM_PTR q (read_offset q);
               x \<leftarrow> load bs p endsz;
               newq1 \<leftarrow> store newq 0 x;
               y \<leftarrow> load bs 0 (unat (allocsz q) * elementsz q - endsz);
               newq2 \<leftarrow> store newq1 endsz y;
               Some (0, q\<lparr>queue := Some newq2, write_offset := allocsz q,
                           read_offset := 0, allocsz := new_sz\<rparr>)
             }))"

definition cf_queue_unwrap :: "cf_queue \<Rightarrow> cf_queue option" where
  "cf_queue_unwrap q =
     (if allocsz q = 0 then None
      else let sz = CF_Q_SZ q; r = read_offset q mod allocsz q
           in Some (q\<lparr>read_offset := r, write_offset := r + sz\<rparr>))"

text \<open>
  The lines that \<open>cf_queue_push\<close> and \<open>cf_queue_push_limit\<close> share once there is room: copy
  the element in, advance the write offset, and unwrap when it gets near overflow.
\<close>

definition cf_queue_write :: "cf_queue \<Rightarrow> block \<Rightarrow> cf_queue option" where
  "cf_queue_write q ptr = do {
     bs \<leftarrow> queue q;
     p \<leftarrow> CF_Q_ELEM_PTR q (write_offset q);
     x \<leftarrow> load ptr 0 (elementsz q);
     bs' \<leftarrow> store bs p x;
     let q1 = q\<lparr>queue := Some bs', write_offset := write_offset q + 1\<rparr>;
     if write_offset q1 AND 0xC0000000 \<noteq> 0 then cf_queue_unwrap q1 else Some q1
   }"

definition cf_queue_push :: "malloc_env \<Rightarrow> cf_queue \<Rightarrow> block \<Rightarrow> (int \<times> cf_queue) option" where
  "cf_queue_push e q ptr = do {
     (rv, q1) \<leftarrow> (if CF_Q_SZ q = allocsz q
                  then cf_queue_resize e q (allocsz q + CF_QUEUE_ALLOCSZ) else Some (0, q));
     if rv \<noteq> 0 then Some (- 1, q1)
     else do { q2 \<leftarrow> cf_queue_write q1 ptr; Some (0, q2) }
   }"

definition cf_queue_push_limit ::
  "malloc_env \<Rightarrow> cf_queue \<Rightarrow> block \<Rightarrow> u32 \<Rightarrow> (bool \<times> cf_queue) option" where
  "cf_queue_push_limit e q ptr limit =
     (let size = CF_Q_SZ q in
      if size \<ge> limit then Some (False, q)
      else do {
        (rv, q1) \<leftarrow> (if size = allocsz q
                     then cf_queue_resize e q (allocsz q + CF_QUEUE_ALLOCSZ) else Some (0, q));
        if rv \<noteq> 0 then Some (False, q1)
        else do { q2 \<leftarrow> cf_queue_write q1 ptr; Some (True, q2) }
      })"

text \<open>
  \<open>cf_queue_pop\<close>. \<open>PopBlocked\<close> is a wait without a further wake-up. A timed wait
  takes one wake-up (by a signal or by the clock); without one the queue is as it was.
\<close>

datatype pop_result = PopNull | PopEmpty cf_queue | PopBlocked | Popped block cf_queue

datatype wait_result = Ready cf_queue | TimedOut cf_queue | Blocks

fun cf_queue_wait :: "int \<Rightarrow> cf_queue \<Rightarrow> cf_queue list \<Rightarrow> wait_result" where
  "cf_queue_wait ms_wait q [] =
     (if \<not> CF_Q_EMPTY q then Ready q
      else if CF_QUEUE_FOREVER = ms_wait then Blocks
      else TimedOut q)"
| "cf_queue_wait ms_wait q (q' # wakes) =
     (if \<not> CF_Q_EMPTY q then Ready q
      else if CF_QUEUE_FOREVER = ms_wait then cf_queue_wait ms_wait q' wakes
      else if CF_QUEUE_NOWAIT = ms_wait then TimedOut q
      else if CF_Q_EMPTY q' then TimedOut q' else Ready q')"

definition cf_queue_read :: "cf_queue \<Rightarrow> (block \<times> cf_queue) option" where
  "cf_queue_read q = do {
     bs \<leftarrow> queue q;
     p \<leftarrow> CF_Q_ELEM_PTR q (read_offset q);
     x \<leftarrow> load bs p (elementsz q);
     let q1 = q\<lparr>read_offset := read_offset q + 1\<rparr>;
     Some (x, if read_offset q1 = write_offset q1
              then q1\<lparr>read_offset := 0, write_offset := 0\<rparr> else q1)
   }"

definition cf_queue_pop :: "cf_queue option \<Rightarrow> int \<Rightarrow> cf_queue list \<Rightarrow> pop_result option" where
  "cf_queue_pop q_arg ms_wait wakes =
     (case q_arg of
        None \<Rightarrow> Some PopNull
      | Some q \<Rightarrow>
          (case (if threadsafe q then cf_queue_wait ms_wait q wakes
                 else if CF_Q_EMPTY q then TimedOut q else Ready q) of
             TimedOut q1 \<Rightarrow> Some (PopEmpty q1)
           | Blocks \<Rightarrow> Some PopBlocked
           | Ready q1 \<Rightarrow> do { (x, q2) \<leftarrow> cf_queue_read q1; Some (Popped x q2) }))"

fun pop_rv :: "pop_result \<Rightarrow> int option" where
  "pop_rv PopNull = Some (- 1)"
| "pop_rv (PopEmpty _) = Some CF_QUEUE_EMPTY"
| "pop_rv PopBlocked = None"
| "pop_rv (Popped _ _) = Some 0"

text \<open>
  The absolute deadline of a timed wait, as (seconds, nanoseconds) after the clock reading;
  \<open>ms_wait\<close> is positive, so C division and \<open>div\<close> agree.
\<close>

definition cf_queue_deadline :: "int \<Rightarrow> int \<Rightarrow> int \<Rightarrow> int \<times> int" where
  "cf_queue_deadline tv_sec tv_nsec ms_wait =
     (let sec = tv_sec + ms_wait div 1000;
          nsec = tv_nsec + (ms_wait mod 1000) * 1000000
      in if nsec > 1000000000 then (sec + 1, nsec - 1000000000) else (sec, nsec))"

definition cf_queue_delete_offset :: "cf_queue \<Rightarrow> u32 \<Rightarrow> cf_queue option" where
  "cf_queue_delete_offset q index0 =
     (if allocsz q = 0 then None
      else
        let index = index0 mod allocsz q;
            r_index = read_offset q mod allocsz q;
            w_index = write_offset q mod allocsz q
        in if index = r_index then Some (q\<lparr>read_offset := read_offset q + 1\<rparr>)
           else if w_index \<noteq> 0 \<and> index = w_index - 1
             then Some (q\<lparr>write_offset := write_offset q - 1\<rparr>)
           else if index > r_index then do {
             bs \<leftarrow> queue q;
             bs' \<leftarrow> memmove bs (unat (r_index + 1) * elementsz q) (unat r_index * elementsz q)
                     (unat (index - r_index) * elementsz q);
             Some (q\<lparr>queue := Some bs', read_offset := read_offset q + 1\<rparr>)
           }
           else if index < w_index then do {
             bs \<leftarrow> queue q;
             bs' \<leftarrow> memmove bs (unat index * elementsz q) (unat (index + 1) * elementsz q)
                     (unat (w_index - index - 1) * elementsz q);
             Some (q\<lparr>queue := Some bs', write_offset := write_offset q - 1\<rparr>)
           }
           else Some q)"

lemma delete_offset_write_le:
  assumes "cf_queue_delete_offset q i = Some q'"
  shows "write_offset q' \<le> write_offset q"
proof (cases "write_offset q = 0")
  case True
  with assms show ?thesis
    by (auto simp: cf_queue_delete_offset_def Let_def bind_eq_Some_conv split: if_splits)
next
  case False
  then have "write_offset q - 1 \<le> write_offset q" by (simp add: word_le_nat_alt unat_dec)
  with assms show ?thesis
    by (auto simp: cf_queue_delete_offset_def Let_def bind_eq_Some_conv split: if_splits)
qed

text \<open>
  The loops of \<open>cf_queue_delete\<close> and \<open>cf_queue_reduce\<close>; the bound is read again in
  each round, since a deletion moves it.
\<close>

function cf_queue_delete_loop ::
  "cf_queue \<Rightarrow> u32 \<Rightarrow> block \<Rightarrow> bool \<Rightarrow> bool \<Rightarrow> (bool \<times> cf_queue) option" where
  "cf_queue_delete_loop q i buf only_one found =
     (if i < write_offset q then do {
        bs \<leftarrow> queue q;
        p \<leftarrow> CF_Q_ELEM_PTR q i;
        x \<leftarrow> load bs p (elementsz q);
        y \<leftarrow> load buf 0 (elementsz q);
        if x = y then
          (case cf_queue_delete_offset q i of
             None \<Rightarrow> None
           | Some q' \<Rightarrow> if only_one then Some (True, q')
                       else cf_queue_delete_loop q' (i + 1) buf only_one True)
        else cf_queue_delete_loop q (i + 1) buf only_one found
      }
      else Some (found, q))"
  by pat_completeness auto
termination
proof (relation "measure (\<lambda>(q, i, _). unat (write_offset q) - unat i)", goal_cases)
  case 1
  then show ?case by simp
next
  case (2 q i buf only_one found bs p x y q')
  have "unat (i + 1) = unat i + 1"
    using 2(1) by (rule unat_inc)
  moreover have "unat (write_offset q') \<le> unat (write_offset q)"
    using delete_offset_write_le [OF 2(7)] by (simp add: word_le_nat_alt)
  ultimately show ?case using 2(1) by (auto simp: word_less_nat_alt)
next
  case (3 q i buf only_one found bs p x y)
  have "unat (i + 1) = unat i + 1"
    using 3(1) by (rule unat_inc)
  then show ?case using 3(1) by (auto simp: word_less_nat_alt)
qed

definition cf_queue_delete ::
  "cf_queue option \<Rightarrow> block \<Rightarrow> bool \<Rightarrow> (int \<times> cf_queue option) option" where
  "cf_queue_delete q_arg buf only_one =
     (case q_arg of
        None \<Rightarrow> Some (CF_QUEUE_ERR, None)
      | Some q \<Rightarrow> do {
          (found, q') \<leftarrow> (if CF_Q_SZ q \<noteq> 0
                          then cf_queue_delete_loop q (read_offset q) buf only_one False
                          else Some (False, q));
          Some (if found = False then CF_QUEUE_EMPTY else CF_QUEUE_OK, Some q')
        })"

text \<open>
  A reduce callback gets the element in place and its user data; it returns its code, the
  element as it leaves it, and the user data as it leaves them.
\<close>

type_synonym 's cf_queue_reduce_fn = "block \<Rightarrow> 's \<Rightarrow> int \<times> block \<times> 's"

function cf_queue_reduce_loop ::
  "cf_queue \<Rightarrow> u32 \<Rightarrow> 's cf_queue_reduce_fn \<Rightarrow> 's \<Rightarrow> (cf_queue \<times> 's) option" where
  "cf_queue_reduce_loop q i cb udata =
     (if i < write_offset q then do {
        bs \<leftarrow> queue q;
        p \<leftarrow> CF_Q_ELEM_PTR q i;
        x \<leftarrow> load bs p (elementsz q);
        bs' \<leftarrow> store bs p (fst (snd (cb x udata)));
        if fst (cb x udata) = - 1
        then Some (q\<lparr>queue := Some bs'\<rparr>, snd (snd (cb x udata)))
        else if fst (cb x udata) = - 2
        then do { q' \<leftarrow> cf_queue_delete_offset (q\<lparr>queue := Some bs'\<rparr>) i;
                  Some (q', snd (snd (cb x udata))) }
        else cf_queue_reduce_loop (q\<lparr>queue := Some bs'\<rparr>) (i + 1) cb (snd (snd (cb x udata)))
      }
      else Some (q, udata))"
  by pat_completeness auto
termination
proof (relation "measure (\<lambda>(q, i, _). unat (write_offset q) - unat i)", goal_cases)
  case 1
  then show ?case by simp
next
  case (2 q i cb udata bs p x bs')
  have "unat (i + 1) = unat i + 1" using 2(1) by (rule unat_inc)
  then show ?case using 2(1) by (auto simp: word_less_nat_alt)
qed

definition cf_queue_reduce ::
  "cf_queue option \<Rightarrow> 's cf_queue_reduce_fn \<Rightarrow> 's \<Rightarrow> (int \<times> cf_queue option \<times> 's) option" where
  "cf_queue_reduce q_arg cb udata =
     (case q_arg of
        None \<Rightarrow> Some (- 1, None, udata)
      | Some q \<Rightarrow>
          if CF_Q_SZ q \<noteq> 0
          then do { (q', u') \<leftarrow> cf_queue_reduce_loop q (read_offset q) cb udata;
                    Some (0, Some q', u') }
          else Some (0, Some q, udata))"

declare cf_queue_delete_loop.simps [simp del] cf_queue_reduce_loop.simps [simp del]

subsection \<open>Invariant and abstract content\<close>

text \<open>
  The largest number of elements the queue's arithmetic is good for: the block stays below
  4 GiB (the resize computes a size in 32 bits) and twice the capacity below the unwrap mark.
\<close>

definition cf_queue_cap :: "nat \<Rightarrow> nat" where
  "cf_queue_cap es = (if es = 0 then 2 ^ 29 - 1 else min (2 ^ 29 - 1) ((2 ^ 32 - 1) div es))"

definition cf_queue_inv :: "cf_queue \<Rightarrow> bool" where
  "cf_queue_inv q \<longleftrightarrow>
     0 < unat (allocsz q) \<and> unat (allocsz q) \<le> cf_queue_cap (elementsz q) \<and>
     unat (read_offset q) \<le> unat (write_offset q) \<and>
     unat (write_offset q) - unat (read_offset q) \<le> unat (allocsz q) \<and>
     unat (write_offset q) < 2 ^ 30 \<and>
     (case queue q of None \<Rightarrow> False | Some bs \<Rightarrow> length bs = unat (allocsz q) * elementsz q)"

definition cf_queue_elem :: "cf_queue \<Rightarrow> nat \<Rightarrow> block" where
  "cf_queue_elem q i = slot (elementsz q) (the (queue q)) (i mod unat (allocsz q))"

definition cf_queue_elems :: "cf_queue \<Rightarrow> block list" where
  "cf_queue_elems q = map (cf_queue_elem q) [unat (read_offset q)..<unat (write_offset q)]"

definition cf_queue_spare :: "cf_queue \<Rightarrow> nat" where
  "cf_queue_spare q = cf_queue_cap (elementsz q) - 64 - length (cf_queue_elems q)"

lemma cap_bounds:
  assumes "n \<le> cf_queue_cap es"
  shows "n < 2 ^ 29" and "n * es < 2 ^ 32"
proof -
  show "n < 2 ^ 29" using assms by (auto simp: cf_queue_cap_def split: if_splits)
  show "n * es < 2 ^ 32"
  proof (cases "es = 0")
    case False
    then have "n \<le> (2 ^ 32 - 1) div es" using assms by (simp add: cf_queue_cap_def)
    then have "n * es \<le> (2 ^ 32 - 1) div es * es" by (rule mult_le_mono1)
    also have "\<dots> \<le> 2 ^ 32 - 1" by (rule div_times_less_eq_dividend)
    finally show ?thesis by simp
  qed simp
qed

lemma mod_wrap:
  fixes A R k :: nat
  assumes "R \<le> k" "k < R + A"
  shows "k mod A = (if R mod A + (k - R) < A then R mod A + (k - R) else R mod A + (k - R) - A)"
proof -
  have "k = R + (k - R)" using assms by simp
  then have "k mod A = (R mod A + (k - R)) mod A" by (metis mod_add_left_eq)
  moreover have "R mod A < A" and d: "k - R < A" using assms by auto
  moreover have "(R mod A + (k - R)) mod A
      = (if R mod A + (k - R) < A then R mod A + (k - R) else R mod A + (k - R) - A)"
  proof (cases "R mod A + (k - R) < A")
    case False
    moreover have "R mod A + (k - R) - A < A" using \<open>R mod A < A\<close> d by linarith
    ultimately show ?thesis by (simp add: le_mod_geq)
  qed simp
  ultimately show ?thesis by simp
qed

lemma mod_window_inj:
  fixes A R i j :: nat
  assumes "R \<le> i" "i < R + A" "R \<le> j" "j < R + A" "i mod A = j mod A"
  shows "i = j"
  using assms mod_wrap [of R i A] mod_wrap [of R j A] mod_less_divisor [of A R]
  by (auto split: if_splits)

lemma unwrap_mark: "(w AND 0xC0000000 \<noteq> 0) = (2 ^ 30 \<le> unat w)" for w :: u32
proof -
  have "0xC0000000 = NOT (mask 30 :: u32)" by (simp add: mask_eq_exp_minus_1)
  moreover have "(w AND NOT (mask 30) = 0) = (w AND mask 30 = w)"
    by (auto simp: bit_eq_iff bit_simps)
  ultimately have "(w AND 0xC0000000 = 0) = (uint w < 2 ^ 30)" by (simp add: mask_eq_iff)
  also have "\<dots> = (unat w < 2 ^ 30)"
    by (simp add: nat_less_iff flip: nat_uint_eq)
  finally show ?thesis by auto
qed

lemma cf_queue_invE:
  assumes "cf_queue_inv q"
  obtains bs where "queue q = Some bs" "length bs = unat (allocsz q) * elementsz q"
    "0 < unat (allocsz q)" "unat (allocsz q) < 2 ^ 29" "unat (allocsz q) * elementsz q < 2 ^ 32"
    "unat (read_offset q) \<le> unat (write_offset q)"
    "unat (write_offset q) - unat (read_offset q) \<le> unat (allocsz q)"
    "unat (write_offset q) < 2 ^ 30"
  using assms cap_bounds [of "unat (allocsz q)" "elementsz q"]
  by (auto simp: cf_queue_inv_def split: option.splits)

lemma CF_Q_SZ_unat:
  "cf_queue_inv q \<Longrightarrow> unat (CF_Q_SZ q) = length (cf_queue_elems q)"
  by (simp add: CF_Q_SZ_def cf_queue_elems_def unat_minus_le word_le_nat_alt cf_queue_inv_def)

lemma CF_Q_EMPTY_iff: "cf_queue_inv q \<Longrightarrow> CF_Q_EMPTY q \<longleftrightarrow> cf_queue_elems q = []"
  by (auto simp: CF_Q_EMPTY_def cf_queue_elems_def cf_queue_inv_def unat_arith_simps)

lemma elem_ptr:
  "0 < unat (allocsz q) \<Longrightarrow>
    CF_Q_ELEM_PTR q i = Some (unat i mod unat (allocsz q) * elementsz q)"
  by (auto simp: CF_Q_ELEM_PTR_def unat_mod)

lemma cf_queue_elems_eqI:
  assumes "unat (write_offset q) - unat (read_offset q) = length xs"
    and "\<And>j. j < length xs \<Longrightarrow> cf_queue_elem q (unat (read_offset q) + j) = xs ! j"
  shows "cf_queue_elems q = xs"
  using assms by (intro nth_equalityI) (auto simp: cf_queue_elems_def)

lemma length_cf_queue_elems:
  "length (cf_queue_elems q) = unat (write_offset q) - unat (read_offset q)"
  by (simp add: cf_queue_elems_def)

lemma nth_cf_queue_elems:
  "j < length (cf_queue_elems q) \<Longrightarrow>
     cf_queue_elems q ! j = cf_queue_elem q (unat (read_offset q) + j)"
  by (simp add: cf_queue_elems_def)

lemma cf_queue_invI:
  assumes "queue q = Some bs" "length bs = unat (allocsz q) * elementsz q"
    "0 < unat (allocsz q)" "unat (allocsz q) \<le> cf_queue_cap (elementsz q)"
    "unat (read_offset q) \<le> unat (write_offset q)"
    "unat (write_offset q) - unat (read_offset q) \<le> unat (allocsz q)"
    "unat (write_offset q) < 2 ^ 30"
  shows "cf_queue_inv q"
  using assms by (simp add: cf_queue_inv_def)

lemma cf_queue_elem_cong:
  "queue q' = queue q \<Longrightarrow> allocsz q' = allocsz q \<Longrightarrow> elementsz q' = elementsz q \<Longrightarrow>
     cf_queue_elem q' = cf_queue_elem q"
  by (simp add: cf_queue_elem_def fun_eq_iff)

lemma cf_queue_unwrap_ok:
  assumes q: "queue q = Some bs" "length bs = unat (allocsz q) * elementsz q"
    "0 < unat (allocsz q)" "unat (allocsz q) \<le> cf_queue_cap (elementsz q)"
    "unat (read_offset q) \<le> unat (write_offset q)"
    "unat (write_offset q) - unat (read_offset q) \<le> unat (allocsz q)"
  shows "\<exists>q'. cf_queue_unwrap q = Some q' \<and> cf_queue_inv q' \<and>
     cf_queue_elems q' = cf_queue_elems q \<and> elementsz q' = elementsz q \<and>
     allocsz q' = allocsz q \<and> threadsafe q' = threadsafe q"
proof -
  let ?A = "unat (allocsz q)" and ?R = "unat (read_offset q)" and ?W = "unat (write_offset q)"
  define q' where "q' = q\<lparr>read_offset := read_offset q mod allocsz q,
      write_offset := read_offset q mod allocsz q + CF_Q_SZ q\<rparr>"
  have A: "?A < 2 ^ 29" using cap_bounds(1) [OF q(4)] .
  have r: "unat (read_offset q') = ?R mod ?A" by (simp add: q'_def unat_mod)
  have sz: "unat (CF_Q_SZ q) = ?W - ?R" using q(5) by (simp add: CF_Q_SZ_def unat_minus_le word_le_nat_alt)
  have rA: "?R mod ?A < ?A" using q(3) by simp
  have w: "unat (write_offset q') = ?R mod ?A + (?W - ?R)"
    using A rA q(6) sz by (simp add: q'_def unat_plus_small unat_mod)
  have el: "cf_queue_elem q' (?R mod ?A + j) = cf_queue_elem q (?R + j)" for j
    by (simp add: q'_def cf_queue_elem_def mod_simps)
  have "cf_queue_elems q' = cf_queue_elems q"
    by (rule cf_queue_elems_eqI) (simp_all add: r w length_cf_queue_elems nth_cf_queue_elems el)
  moreover have "cf_queue_inv q'"
  proof (rule cf_queue_invI [of q' bs])
    show "unat (write_offset q') < 2 ^ 30" 
      using add_less_le_mono [OF rA q(6)] A unfolding w by simp
  qed (use q r w in \<open>simp_all add: q'_def\<close>)
  moreover have "cf_queue_unwrap q = Some q'"
    using q(3) by (auto simp: cf_queue_unwrap_def q'_def Let_def)
  ultimately show ?thesis by (auto simp: q'_def)
qed

lemma cf_queue_write_ok:
  assumes inv: "cf_queue_inv q" and room: "length (cf_queue_elems q) < unat (allocsz q)"
    and x: "length x = elementsz q"
  shows "\<exists>q'. cf_queue_write q x = Some q' \<and> cf_queue_inv q' \<and>
     cf_queue_elems q' = cf_queue_elems q @ [x] \<and> elementsz q' = elementsz q \<and>
     allocsz q' = allocsz q \<and> threadsafe q' = threadsafe q"
proof -
  let ?A = "unat (allocsz q)" and ?R = "unat (read_offset q)" and ?W = "unat (write_offset q)"
    and ?es = "elementsz q"
  from inv obtain bs where q: "queue q = Some bs" "length bs = ?A * ?es" "0 < ?A"
    "?R \<le> ?W" "?W < 2 ^ 30" by (rule cf_queue_invE)
  have cap: "?A \<le> cf_queue_cap ?es" using inv by (simp add: cf_queue_inv_def)
  have room': "?W < ?R + ?A" using room q(4) by (simp add: length_cf_queue_elems)
  have slot: "?W mod ?A < ?A" using q(3) by simp
  define q1 where "q1 = q\<lparr>queue := Some (put_slot ?es bs (?W mod ?A) x),
      write_offset := write_offset q + 1\<rparr>"
  have w1: "unat (write_offset q1) = ?W + 1"
    using q(5) by (simp add: q1_def unat_plus_small)
  have l1: "length (put_slot ?es bs (?W mod ?A) x) = ?A * ?es"
    using slot x q(2) by (simp add: put_slot_length [where n = ?A])
  have el: "cf_queue_elem q1 (?R + j) = (if ?R + j = ?W then x else cf_queue_elem q (?R + j))"
    if "j \<le> ?W - ?R" for j
    using that slot x q(1,2,4) room' mod_window_inj [of ?R "?R + j" ?A ?W]
    by (auto simp: cf_queue_elem_def q1_def slot_put_slot [where n = ?A])
  have els: "cf_queue_elems q1 = cf_queue_elems q @ [x]"
  proof (rule cf_queue_elems_eqI)
    show "unat (write_offset q1) - unat (read_offset q1) = length (cf_queue_elems q @ [x])"
      using w1 q(4) by (simp add: length_cf_queue_elems q1_def)
  next
    fix j assume "j < length (cf_queue_elems q @ [x])"
    then have j: "j \<le> ?W - ?R" by (simp add: length_cf_queue_elems)
    then show "cf_queue_elem q1 (unat (read_offset q1) + j) = (cf_queue_elems q @ [x]) ! j"
      using el [OF j] q(4) nth_cf_queue_elems [of j q]
      by (auto simp: nth_append length_cf_queue_elems q1_def)
  qed
  have wr: "cf_queue_write q x =
      (if write_offset q1 AND 0xC0000000 \<noteq> 0 then cf_queue_unwrap q1 else Some q1)"
    using q x slot by (simp add: cf_queue_write_def elem_ptr mem_simps store_slot [where n = ?A] q1_def)
  show ?thesis
  proof (cases "write_offset q1 AND 0xC0000000 \<noteq> 0")
    case True
    have "\<exists>q'. cf_queue_unwrap q1 = Some q' \<and> cf_queue_inv q' \<and>
       cf_queue_elems q' = cf_queue_elems q1 \<and> elementsz q' = elementsz q1 \<and>
       allocsz q' = allocsz q1 \<and> threadsafe q' = threadsafe q1"
      using l1 w1 q cap room'
      by (intro cf_queue_unwrap_ok [of q1 "put_slot ?es bs (?W mod ?A) x"]) (simp_all add: q1_def)
    with True wr els show ?thesis by (auto simp: q1_def)
  next
    case False
    then have "unat (write_offset q1) < 2 ^ 30" by (simp add: unwrap_mark)
    then have "cf_queue_inv q1" using l1 w1 q cap room'
      by (intro cf_queue_invI [of q1 "put_slot ?es bs (?W mod ?A) x"]) (simp_all add: q1_def)
    with False wr els show ?thesis by (auto simp: q1_def)
  qed
qed

subsection \<open>Growing the ring\<close>

lemma slot_cat:
  assumes "length xs = m * es" and "length ys = k * es" and "j < m + k"
  shows "slot es (xs @ ys) j = (if j < m then slot es xs j else slot es ys (j - m))"
  using assms by (simp add: slot_append_left [where m = m] slot_append_right [where m = m])

lemma slot_rotated:
  assumes "length bs = A * es" and "r < A" and "j < A"
  shows "slot es (drop (r * es) bs @ take (r * es) bs) j = slot es bs ((r + j) mod A)"
proof -
  have l: "length (drop (r * es) bs) = (A - r) * es"
    using assms by (simp add: diff_mult_distrib)
  have l2: "length (take (r * es) bs) = r * es"
    using assms by (simp add: min_def mult_le_mono1)
  have "slot es (drop (r * es) bs @ take (r * es) bs) j
      = (if j < A - r then slot es (drop (r * es) bs) j else slot es (take (r * es) bs) (j - (A - r)))"
    using l l2 assms by (intro slot_cat) auto
  also have "\<dots> = slot es bs ((r + j) mod A)"
    using assms mod_wrap [of 0 "r + j" A] by (auto simp: slot_drop slot_take mod_if add.commute)
  finally show ?thesis .
qed

lemma length_rotated:
  "length bs = a \<Longrightarrow> r \<le> a \<Longrightarrow> a \<le> n \<Longrightarrow>
     length (drop r bs @ take r bs @ drop a (map g [0..<n])) = n" for n :: nat
  by simp

lemma copy_rotated:
  fixes n :: nat
  assumes "length bs = a" and "r \<le> a" and "a \<le> n"
  shows "do { x \<leftarrow> load bs r (a - r); new1 \<leftarrow> store (map g [0..<n]) 0 x;
              y \<leftarrow> load bs 0 r; new2 \<leftarrow> store new1 (a - r) y; f new2 }
    = f (drop r bs @ take r bs @ drop a (map g [0..<n]))"
proof -
  have "a - r \<le> n" using assms by simp
  then show ?thesis using assms by (simp add: load_def store_def)
qed

lemma cf_queue_resized_ok:
  assumes inv: "cf_queue_inv q" and full: "CF_Q_SZ q = allocsz q"
    and n: "unat (allocsz q) \<le> unat n" "unat n \<le> cf_queue_cap (elementsz q)"
    and bs': "length bs' = unat n * elementsz q"
      "\<And>j. j < unat (allocsz q) \<Longrightarrow> slot (elementsz q) bs' j
        = slot (elementsz q) (the (queue q))
            ((unat (read_offset q) mod unat (allocsz q) + j) mod unat (allocsz q))"
  defines "q' \<equiv> q\<lparr>queue := Some bs', write_offset := allocsz q, read_offset := 0, allocsz := n\<rparr>"
  shows "cf_queue_inv q'" and "cf_queue_elems q' = cf_queue_elems q"
proof -
  from inv have A: "0 < unat (allocsz q)" "unat (allocsz q) < 2 ^ 29" by (auto elim: cf_queue_invE)
  have len: "length (cf_queue_elems q) = unat (allocsz q)" using CF_Q_SZ_unat [OF inv] full by simp
  show "cf_queue_inv q'"
    using A n bs'(1) by (intro cf_queue_invI [of q' bs']) (simp_all add: q'_def)
  show "cf_queue_elems q' = cf_queue_elems q"
  proof (rule cf_queue_elems_eqI)
    show "unat (write_offset q') - unat (read_offset q') = length (cf_queue_elems q)"
      using len by (simp add: q'_def)
  next
    fix j assume "j < length (cf_queue_elems q)"
    then show "cf_queue_elem q' (unat (read_offset q') + j) = cf_queue_elems q ! j"
      using bs'(2) [of j] n(1) len
      by (simp add: nth_cf_queue_elems cf_queue_elem_def q'_def mod_simps)
  qed
qed

lemma cf_queue_resize_ok:
  assumes inv: "cf_queue_inv q" and full: "CF_Q_SZ q = allocsz q"
    and n: "unat (allocsz q) \<le> unat n" "unat n \<le> cf_queue_cap (elementsz q)"
  shows "\<exists>q'. cf_queue_resize (Some g) q n = Some (0, q') \<and> cf_queue_inv q' \<and>
     cf_queue_elems q' = cf_queue_elems q \<and> allocsz q' = n \<and> elementsz q' = elementsz q \<and>
     threadsafe q' = threadsafe q"
proof -
  let ?A = "unat (allocsz q)" and ?R = "unat (read_offset q)" and ?es = "elementsz q"
  let ?r = "?R mod ?A" and ?n = "unat n * elementsz q"
  from inv obtain bs where q: "queue q = Some bs" "length bs = ?A * ?es" "0 < ?A" "?A < 2 ^ 29"
    "?A * ?es < 2 ^ 32" by (rule cf_queue_invE)
  note ok = cf_queue_resized_ok [OF inv full n]
  have n0: "allocsz q \<noteq> 0" and An: "?A * ?es \<le> ?n" using q n by (auto simp: mult_le_mono1)
  show ?thesis
  proof (cases "?r = 0")
    case True
    let ?bs = "bs @ map g [length bs..<?n]"
    have r0: "read_offset q mod allocsz q = 0" using True by (simp add: unat_eq_zero [symmetric] unat_mod)
    have l: "length ?bs = ?n" and tk: "take ?n bs = bs" using An q by auto
    have s: "slot ?es ?bs j = slot ?es (the (queue q)) ((?r + j) mod ?A)" if "j < ?A" for j
      using that q True slot_append_left [of j ?A ?es bs] by simp
    have "cf_queue_resize (Some g) q n = Some (0, q\<lparr>queue := Some ?bs, write_offset := allocsz q,
        read_offset := 0, allocsz := n\<rparr>)"
      using full n0 r0 q tk by (simp add: cf_queue_resize_def)
    with ok [OF l s] show ?thesis by simp
  next
    case False
    let ?x = "drop (?r * ?es) bs" and ?y = "take (?r * ?es) bs"
    let ?bs = "?x @ ?y @ drop (?A * ?es) (map g [0..<?n])"
    have rA: "?r < ?A" using q(3) by simp
    have r: "?r * ?es \<le> ?A * ?es" using rA by (intro mult_le_mono1) simp
    have r0: "read_offset q mod allocsz q \<noteq> 0" using False by (simp add: unat_eq_zero [symmetric] unat_mod)
    have "unat (allocsz q - read_offset q mod allocsz q) = ?A - ?r"
      using rA by (subst unat_minus_le) (auto simp: unat_mod word_le_nat_alt)
    moreover have "(?A - ?r) * ?es < 2 ^ 32" using q(5) by (simp add: diff_mult_distrib)
    ultimately have endsz: "(unat (allocsz q - read_offset q mod allocsz q) * ?es) mod 2 ^ 32
        = ?A * ?es - ?r * ?es" by (simp add: diff_mult_distrib)
    have l: "length ?bs = ?n" using q(2) r An by (rule length_rotated)
    have s: "slot ?es ?bs j = slot ?es (the (queue q)) ((?r + j) mod ?A)" if "j < ?A" for j
    proof -
      have "slot ?es ((?x @ ?y) @ drop (?A * ?es) (map g [0..<?n])) j = slot ?es (?x @ ?y) j"
        using that q r by (intro slot_append_left [where m = ?A]) auto
      with slot_rotated [OF q(2) rA that] q show ?thesis by simp
    qed
    have "cf_queue_resize (Some g) q n = Some (0, q\<lparr>queue := Some ?bs, write_offset := allocsz q,
        read_offset := 0, allocsz := n\<rparr>)"
      using full n0 r0 q(1,3)
      by (simp add: cf_queue_resize_def elem_ptr endsz [simplified] Let_def
          copy_rotated [OF q(2) r An])
    with ok [OF l s] show ?thesis by simp
  qed
qed

subsection \<open>Push, pop, create\<close>

lemma CF_Q_SZ_full:
  "cf_queue_inv q \<Longrightarrow> CF_Q_SZ q = allocsz q \<longleftrightarrow> length (cf_queue_elems q) = unat (allocsz q)"
  using CF_Q_SZ_unat [of q] by (metis word_unat_eq_iff)

lemma cf_queue_length_le: "cf_queue_inv q \<Longrightarrow> length (cf_queue_elems q) \<le> unat (allocsz q)"
  by (auto simp: length_cf_queue_elems cf_queue_inv_def)

lemma spare_pos:
  "0 < cf_queue_spare q \<longleftrightarrow> length (cf_queue_elems q) + 64 < cf_queue_cap (elementsz q)"
  by (auto simp: cf_queue_spare_def)

lemma cf_queue_grow_ok:
  assumes inv: "cf_queue_inv q" and room: "0 < cf_queue_spare q"
  shows "\<exists>q1. (if CF_Q_SZ q = allocsz q
         then cf_queue_resize (Some g) q (allocsz q + CF_QUEUE_ALLOCSZ) else Some (0, q)) = Some (0, q1) \<and>
     cf_queue_inv q1 \<and> cf_queue_elems q1 = cf_queue_elems q \<and>
     length (cf_queue_elems q1) < unat (allocsz q1) \<and> elementsz q1 = elementsz q \<and>
     threadsafe q1 = threadsafe q"
proof (cases "CF_Q_SZ q = allocsz q")
  case True
  then have len: "length (cf_queue_elems q) = unat (allocsz q)" using inv by (simp add: CF_Q_SZ_full)
  have "unat (allocsz q) < 2 ^ 29" using inv by (auto elim: cf_queue_invE)
  then have n: "unat (allocsz q + CF_QUEUE_ALLOCSZ) = unat (allocsz q) + 64"
    by (simp add: unat_plus_small CF_QUEUE_ALLOCSZ_def)
  have "\<exists>q1. cf_queue_resize (Some g) q (allocsz q + CF_QUEUE_ALLOCSZ) = Some (0, q1) \<and>
      cf_queue_inv q1 \<and> cf_queue_elems q1 = cf_queue_elems q \<and>
      allocsz q1 = allocsz q + CF_QUEUE_ALLOCSZ \<and> elementsz q1 = elementsz q \<and>
      threadsafe q1 = threadsafe q"
    using inv True room len by (intro cf_queue_resize_ok) (simp_all add: n spare_pos)
  then show ?thesis using True len n by auto
next
  case False
  then show ?thesis using inv cf_queue_length_le [OF inv] by (auto simp: CF_Q_SZ_full)
qed

lemma cf_queue_push_ok:
  assumes "cf_queue_inv q" and "0 < cf_queue_spare q" and "length x = elementsz q"
  shows "\<exists>q'. cf_queue_push (Some g) q x = Some (0, q') \<and> cf_queue_inv q' \<and>
     cf_queue_elems q' = cf_queue_elems q @ [x] \<and> elementsz q' = elementsz q \<and>
     threadsafe q' = threadsafe q"
proof -
  from cf_queue_grow_ok [OF assms(1,2), of g] obtain q1 where q1:
    "(if CF_Q_SZ q = allocsz q
      then cf_queue_resize (Some g) q (allocsz q + CF_QUEUE_ALLOCSZ) else Some (0, q)) = Some (0, q1)"
    "cf_queue_inv q1" "cf_queue_elems q1 = cf_queue_elems q"
    "length (cf_queue_elems q1) < unat (allocsz q1)" "elementsz q1 = elementsz q"
    "threadsafe q1 = threadsafe q" by blast
  from cf_queue_write_ok [OF q1(2,4)] assms(3) q1 obtain q2 where
    "cf_queue_write q1 x = Some q2" "cf_queue_inv q2"
    "cf_queue_elems q2 = cf_queue_elems q @ [x]" "elementsz q2 = elementsz q"
    "threadsafe q2 = threadsafe q" by auto
  with q1(1) show ?thesis by (simp add: cf_queue_push_def)
qed

lemma cf_queue_push_limit_ok:
  assumes "cf_queue_inv q" and "0 < cf_queue_spare q" and "length x = elementsz q"
  shows "\<exists>q'. cf_queue_push_limit (Some g) q x limit
       = Some (length (cf_queue_elems q) < unat limit, q') \<and> cf_queue_inv q' \<and>
     cf_queue_elems q'
       = (if length (cf_queue_elems q) < unat limit then cf_queue_elems q @ [x] else cf_queue_elems q) \<and>
     elementsz q' = elementsz q \<and> threadsafe q' = threadsafe q"
proof (cases "length (cf_queue_elems q) < unat limit")
  case False
  then have "limit \<le> CF_Q_SZ q" using assms(1) by (simp add: word_le_nat_alt CF_Q_SZ_unat)
  then show ?thesis using False assms(1) by (simp add: cf_queue_push_limit_def)
next
  case True
  then have lim: "\<not> limit \<le> CF_Q_SZ q" using assms(1) by (simp add: word_le_nat_alt CF_Q_SZ_unat)
  from cf_queue_grow_ok [OF assms(1,2), of g] obtain q1 where q1:
    "(if CF_Q_SZ q = allocsz q
      then cf_queue_resize (Some g) q (allocsz q + CF_QUEUE_ALLOCSZ) else Some (0, q)) = Some (0, q1)"
    "cf_queue_inv q1" "cf_queue_elems q1 = cf_queue_elems q"
    "length (cf_queue_elems q1) < unat (allocsz q1)" "elementsz q1 = elementsz q"
    "threadsafe q1 = threadsafe q" by blast
  from cf_queue_write_ok [OF q1(2,4)] assms(3) q1 obtain q2 where
    "cf_queue_write q1 x = Some q2" "cf_queue_inv q2"
    "cf_queue_elems q2 = cf_queue_elems q @ [x]" "elementsz q2 = elementsz q"
    "threadsafe q2 = threadsafe q" by auto
  with q1(1) lim True show ?thesis by (simp add: cf_queue_push_limit_def)
qed

lemma cf_queue_read_ok:
  assumes inv: "cf_queue_inv q" and ne: "cf_queue_elems q = x # xs"
  shows "\<exists>q'. cf_queue_read q = Some (x, q') \<and> cf_queue_inv q' \<and> cf_queue_elems q' = xs \<and>
     elementsz q' = elementsz q \<and> threadsafe q' = threadsafe q"
proof -
  let ?A = "unat (allocsz q)" and ?R = "unat (read_offset q)" and ?W = "unat (write_offset q)"
    and ?es = "elementsz q"
  from inv obtain bs where q: "queue q = Some bs" "length bs = ?A * ?es" "0 < ?A"
    "?R \<le> ?W" "?W - ?R \<le> ?A" "?W < 2 ^ 30" by (rule cf_queue_invE)
  have cap: "?A \<le> cf_queue_cap ?es" using inv by (simp add: cf_queue_inv_def)
  have len: "?W - ?R = Suc (length xs)" using ne length_cf_queue_elems [of q] by simp
  have x: "x = slot ?es bs (?R mod ?A)"
    using ne nth_cf_queue_elems [of 0 q] q(1) by (simp add: cf_queue_elem_def)
  have xs: "xs ! j = cf_queue_elem q (?R + Suc j)" if "j < length xs" for j
    using ne nth_cf_queue_elems [of "Suc j" q] that by simp
  define q1 where "q1 = q\<lparr>read_offset := read_offset q + 1\<rparr>"
  have R1: "unat (read_offset q1) = ?R + 1" using len q by (simp add: q1_def unat_plus_small)
  define q2 where "q2 = (if read_offset q1 = write_offset q1
      then q1\<lparr>read_offset := 0, write_offset := 0\<rparr> else q1)"
  have rd: "cf_queue_read q = Some (x, q2)"
    using q x load_slot [of "?R mod ?A" ?A ?es bs]
    by (simp add: cf_queue_read_def elem_ptr Let_def q1_def q2_def)
  have i2: "cf_queue_inv q2"
  proof (cases "read_offset q1 = write_offset q1")
    case True
    then show ?thesis using q cap
      by (intro cf_queue_invI [of q2 bs]) (simp_all add: q2_def q1_def)
  next
    case False
    then show ?thesis using q cap R1 len
      by (intro cf_queue_invI [of q2 bs]) (simp_all add: q2_def q1_def)
  qed
  have "cf_queue_elems q2 = xs"
  proof (cases "read_offset q1 = write_offset q1")
    case True
    then have "?R + 1 = ?W" using R1 by (simp add: q1_def)
    then have "length xs = 0" using len by linarith
    with True show ?thesis by (simp add: q2_def cf_queue_elems_def)
  next
    case False
    then show ?thesis using R1 len xs q(4)
      by (intro cf_queue_elems_eqI) (simp_all add: q2_def q1_def cf_queue_elem_def)
  qed
  with rd i2 show ?thesis by (simp add: q2_def q1_def)
qed

lemma cf_queue_pop_nowait:
  assumes inv: "cf_queue_inv q"
  shows "cf_queue_elems q = [] \<Longrightarrow>
       cf_queue_pop (Some q) CF_QUEUE_NOWAIT wakes = Some (PopEmpty q)"
    and "cf_queue_elems q = x # xs \<Longrightarrow>
       \<exists>q'. cf_queue_pop (Some q) ms wakes = Some (Popped x q') \<and> cf_queue_inv q' \<and>
         cf_queue_elems q' = xs \<and> elementsz q' = elementsz q \<and> threadsafe q' = threadsafe q"
proof -
  assume "cf_queue_elems q = []"
  then have "CF_Q_EMPTY q" using inv by (simp add: CF_Q_EMPTY_iff)
  then show "cf_queue_pop (Some q) CF_QUEUE_NOWAIT wakes = Some (PopEmpty q)"
    by (cases wakes) (simp_all add: cf_queue_pop_def cf_queue_codes)
next
  assume e: "cf_queue_elems q = x # xs"
  then have "\<not> CF_Q_EMPTY q" using inv by (simp add: CF_Q_EMPTY_iff)
  then have "cf_queue_wait ms q wakes = Ready q" by (cases wakes) simp_all
  with cf_queue_read_ok [OF inv e] \<open>\<not> CF_Q_EMPTY q\<close>
  show "\<exists>q'. cf_queue_pop (Some q) ms wakes = Some (Popped x q') \<and> cf_queue_inv q' \<and>
         cf_queue_elems q' = xs \<and> elementsz q' = elementsz q \<and> threadsafe q' = threadsafe q"
    by (auto simp: cf_queue_pop_def)
qed

lemma cf_queue_create_ok:
  assumes "es * 64 < 2 ^ 32"
  shows "\<exists>q. cf_queue_create (Some g) (Some h) True True es safe = Some q \<and> cf_queue_inv q \<and>
     cf_queue_elems q = [] \<and> elementsz q = es \<and> threadsafe q = safe"
proof -
  have "64 \<le> cf_queue_cap es" using assms
    by (auto simp: cf_queue_cap_def less_eq_div_iff_mult_less_eq)
  then show ?thesis
    by (simp add: cf_queue_create_def Let_def cf_queue_codes cf_queue_inv_def cf_queue_elems_def)
qed

lemma cf_queue_destroy_ok: "cf_queue_inv q \<Longrightarrow> cf_queue_destroy q = Some ()"
  by (auto simp: cf_queue_destroy_def memset0_def elim!: cf_queue_invE)

subsection \<open>Deletion of one element\<close>

lemma delete_elemsI:
  assumes "k < length (cf_queue_elems q)"
    and "unat (write_offset q') - unat (read_offset q') = length (cf_queue_elems q) - 1"
    and "\<And>j. j < k \<Longrightarrow>
      cf_queue_elem q' (unat (read_offset q') + j) = cf_queue_elem q (unat (read_offset q) + j)"
    and "\<And>j. k \<le> j \<Longrightarrow> Suc j < length (cf_queue_elems q) \<Longrightarrow>
      cf_queue_elem q' (unat (read_offset q') + j) = cf_queue_elem q (unat (read_offset q) + Suc j)"
  shows "cf_queue_elems q' = drop_nth k (cf_queue_elems q)"
  using assms
  by (intro cf_queue_elems_eqI)
    (auto simp: length_drop_nth nth_drop_nth nth_cf_queue_elems simp del: add_Suc_right)

lemma ring_position:
  fixes A R W i :: nat
  assumes "R \<le> i" "i < W" "W - R \<le> A"
  shows "R mod A < i mod A \<Longrightarrow> i mod A = R mod A + (i - R)"
    and "i mod A < R mod A \<Longrightarrow> i mod A + A = R mod A + (i - R)"
    and "i mod A < R mod A \<Longrightarrow> W mod A + A = R mod A + (W - R)"
    and "i mod A < R mod A \<Longrightarrow> i mod A < W mod A"
proof -
  have A: "0 < A" and i: "i < R + A" using assms by auto
  have rA: "R mod A < A" using A by simp
  note wi = mod_wrap [OF assms(1) i]
  show "R mod A < i mod A \<Longrightarrow> i mod A = R mod A + (i - R)"
    using wi i rA by (auto split: if_splits)
  show c: "i mod A < R mod A \<Longrightarrow> i mod A + A = R mod A + (i - R)"
    using wi by (auto split: if_splits)
  show w: "i mod A < R mod A \<Longrightarrow> W mod A + A = R mod A + (W - R)"
  proof -
    assume l: "i mod A < R mod A"
    show ?thesis
    proof (cases "W < R + A")
      case True
      then show ?thesis using mod_wrap [of R W A] assms c [OF l] by (auto split: if_splits)
    next
      case False
      then have "W = R + A" using assms by simp
      then show ?thesis by simp
    qed
  qed
  assume l: "i mod A < R mod A"
  show "i mod A < W mod A" using c [OF l] w [OF l] assms by linarith
qed


lemma cf_queue_delete_offset_ok:
  assumes inv: "cf_queue_inv q" and i: "unat (read_offset q) \<le> unat i" "i < write_offset q"
  shows "\<exists>q'. cf_queue_delete_offset q i = Some q' \<and> cf_queue_inv q' \<and>
     cf_queue_elems q' = drop_nth (unat i - unat (read_offset q)) (cf_queue_elems q) \<and>
     elementsz q' = elementsz q \<and> threadsafe q' = threadsafe q \<and>
     (unat (read_offset q) mod unat (allocsz q) \<le> unat i mod unat (allocsz q) \<longrightarrow>
      unat i + 1 < unat (write_offset q) \<longrightarrow>
      read_offset q' = read_offset q + 1 \<and> write_offset q' = write_offset q) \<and>
     allocsz q' = allocsz q"
proof -
  let ?A = "unat (allocsz q)" and ?R = "unat (read_offset q)" and ?W = "unat (write_offset q)"
    and ?es = "elementsz q" and ?i = "unat i"
  let ?r = "?R mod ?A" and ?w = "?W mod ?A" and ?x = "?i mod ?A"
  from inv obtain bs where q: "queue q = Some bs" "length bs = ?A * ?es" "0 < ?A"
    "?R \<le> ?W" "?W - ?R \<le> ?A" "?W < 2 ^ 30" "?A < 2 ^ 29" by (rule cf_queue_invE)
  have cap: "?A \<le> cf_queue_cap ?es" using inv by (simp add: cf_queue_inv_def)
  have iW: "?i < ?W" using i by (simp add: word_less_nat_alt)
  have len: "length (cf_queue_elems q) = ?W - ?R" by (simp add: length_cf_queue_elems)
  note pos = ring_position [OF i(1) iW q(5)]
  have lt: "?r < ?A" "?w < ?A" "?x < ?A" using q(3) by simp_all
  have b: "?r < 2 ^ 29" "?x < 2 ^ 29" using lt(1,3) q(7) by (blast intro: less_trans)+
  have R1: "unat (read_offset q + 1) = ?R + 1" using q iW i by (simp add: unat_plus_small)
  have W1: "unat (write_offset q - 1) = ?W - 1" using iW by (intro unat_dec) auto
  have n0: "allocsz q \<noteq> 0" using q by auto
  have eqs: "(i mod allocsz q = read_offset q mod allocsz q) = (?x = ?r)"
    "(write_offset q mod allocsz q = 0) = (?w = 0)"
    "(read_offset q mod allocsz q < i mod allocsz q) = (?r < ?x)"
    "(i mod allocsz q < write_offset q mod allocsz q) = (?x < ?w)"
    by (simp_all add: word_less_nat_alt unat_mod word_unat_eq_iff)
  have eqw: "?w \<noteq> 0 \<Longrightarrow> (i mod allocsz q = write_offset q mod allocsz q - 1) = (?x = ?w - 1)"
    by (auto simp: word_unat_eq_iff unat_mod unat_dec)
  consider (head) "?x = ?r" | (last) "?x \<noteq> ?r" "?w \<noteq> 0" "?x = ?w - 1"
    | (front) "?x \<noteq> ?r" "\<not> (?w \<noteq> 0 \<and> ?x = ?w - 1)" "?r < ?x"
    | (rear) "?x < ?r" "\<not> (?w \<noteq> 0 \<and> ?x = ?w - 1)" by linarith
  then show ?thesis
  proof cases
    case head
    then have iR: "?i = ?R" using mod_window_inj [of ?R ?i ?A ?R] i iW q by auto
    define q' where "q' = q\<lparr>read_offset := read_offset q + 1\<rparr>"
    have "cf_queue_delete_offset q i = Some q'"
      using n0 head eqs by (simp add: cf_queue_delete_offset_def Let_def q'_def)
    moreover have "cf_queue_inv q'" using q cap R1 iW iR
      by (intro cf_queue_invI [of q' bs]) (simp_all add: q'_def)
    moreover have "cf_queue_elems q' = drop_nth (?i - ?R) (cf_queue_elems q)"
      using iR iW R1 by (intro delete_elemsI) (simp_all add: len q'_def cf_queue_elem_def)
    ultimately show ?thesis by (simp add: q'_def)
  next
    case last
    have SW: "Suc (?W - 1) = ?W" using iW by simp
    then have "(?W - 1) mod ?A = ?w - 1"
      using mod_Suc [of "?W - 1" ?A] last(2) by (auto split: if_splits)
    then have iW1: "?i = ?W - 1"
      using mod_window_inj [of ?R ?i ?A "?W - 1"] last(3) i iW q by auto
    define q' where "q' = q\<lparr>write_offset := write_offset q - 1\<rparr>"
    have "cf_queue_delete_offset q i = Some q'"
      using n0 last eqs eqw by (simp add: cf_queue_delete_offset_def Let_def q'_def)
    moreover have "cf_queue_inv q'" using q cap W1 iW i iW1
      by (intro cf_queue_invI [of q' bs]) (simp_all add: q'_def)
    moreover have "cf_queue_elems q' = drop_nth (?i - ?R) (cf_queue_elems q)"
      using iW1 iW W1 i by (intro delete_elemsI) (auto simp: len q'_def cf_queue_elem_def)
    ultimately show ?thesis using iW1 SW by (simp add: q'_def)
  next
    case front
    note x = pos(1) [OF front(3)]
    have r1: "unat (read_offset q mod allocsz q + 1) = ?r + 1"
      using b by (simp add: unat_plus_small unat_mod)
    have k: "unat (i mod allocsz q - read_offset q mod allocsz q) = ?x - ?r"
      using front(3) by (subst unat_minus_le) (simp_all add: word_le_nat_alt unat_mod)
    let ?bs = "move_slots ?es bs (?r + 1) ?r (?x - ?r)"
    have mv: "?r + (?x - ?r) \<le> ?A" "?r + 1 + (?x - ?r) \<le> ?A" "?A * ?es \<le> length bs"
      using front(3) lt q(2) by (auto simp del: mod_less_divisor)
    have mm: "memmove bs (unat (read_offset q mod allocsz q + 1) * ?es)
        (unat (read_offset q mod allocsz q) * ?es)
        (unat (i mod allocsz q - read_offset q mod allocsz q) * ?es) = Some ?bs"
      using memmove_slots [OF mv] by (simp only: r1 k unat_mod)
    define q' where "q' = q\<lparr>queue := Some ?bs, read_offset := read_offset q + 1\<rparr>"
    have "cf_queue_delete_offset q i = Some q'"
      using n0 front eqs eqw q(1) mm by (auto simp: cf_queue_delete_offset_def Let_def q'_def)
    moreover have "cf_queue_inv q'" using q cap R1 iW move_slots_length [OF mv] i
      by (intro cf_queue_invI [of q' ?bs]) (simp_all add: q'_def)
    moreover have "cf_queue_elems q' = drop_nth (?i - ?R) (cf_queue_elems q)"
    proof (rule delete_elemsI)
      show "?i - ?R < length (cf_queue_elems q)" using iW i by (simp add: len)
      show "unat (write_offset q') - unat (read_offset q') = length (cf_queue_elems q) - 1"
        using R1 by (simp add: len q'_def)
    next
      fix j assume j: "j < ?i - ?R"
      have "(?R + 1 + j) mod ?A = ?r + 1 + j"
        using mod_wrap [of ?R "?R + 1 + j" ?A] j x lt by auto
      moreover have "(?R + j) mod ?A = ?r + j"
        using mod_wrap [of ?R "?R + j" ?A] j x lt by auto
      moreover have c: "?r + 1 \<le> ?r + 1 + j" "?r + 1 + j < ?r + 1 + (?x - ?r)"
        "?r + (?r + 1 + j - (?r + 1)) = ?r + j" using j x by linarith+
      moreover have "slot ?es ?bs (?r + 1 + j) = slot ?es bs (?r + j)"
        by (simp only: slot_move_slots [OF mv] c simp_thms if_True)
      ultimately show "cf_queue_elem q' (unat (read_offset q') + j) = cf_queue_elem q (?R + j)"
        using R1 q(1) by (simp add: q'_def cf_queue_elem_def)
    next
      fix j assume j: "?i - ?R \<le> j" "Suc j < length (cf_queue_elems q)"
      have c: "\<not> (?r + 1 \<le> (?R + Suc j) mod ?A \<and> (?R + Suc j) mod ?A < ?r + 1 + (?x - ?r))"
        using mod_wrap [of ?R "?R + Suc j" ?A] j x lt q by (auto simp: len split: if_splits)
      have "slot ?es ?bs ((?R + Suc j) mod ?A) = slot ?es bs ((?R + Suc j) mod ?A)"
        by (simp only: slot_move_slots [OF mv] c if_False)
      then show "cf_queue_elem q' (unat (read_offset q') + j) = cf_queue_elem q (?R + Suc j)"
        using R1 q(1) by (simp add: q'_def cf_queue_elem_def)
    qed
    ultimately show ?thesis by (simp add: q'_def)
  next
    case rear
    note x = pos(2-4) [OF rear(1)]
    have w0: "?w \<noteq> 0" using x(3) by simp
    have i1: "unat (i mod allocsz q + 1) = ?x + 1"
      using b by (simp add: unat_plus_small unat_mod)
    have k: "unat (write_offset q mod allocsz q - i mod allocsz q - 1) = ?w - ?x - 1"
    proof -
      have d: "unat (write_offset q mod allocsz q - i mod allocsz q) = ?w - ?x"
        using x(3) by (subst unat_minus_le) (simp_all add: word_le_nat_alt unat_mod)
      then have "write_offset q mod allocsz q - i mod allocsz q \<noteq> 0" using x(3) by auto
      then show ?thesis using d by (simp add: unat_dec)
    qed
    let ?bs = "move_slots ?es bs ?x (?x + 1) (?w - ?x - 1)"
    have mv: "?x + 1 + (?w - ?x - 1) \<le> ?A" "?x + (?w - ?x - 1) \<le> ?A" "?A * ?es \<le> length bs"
      using x(3) lt q(2) by (auto simp del: mod_less_divisor)
    have mm: "memmove bs (unat (i mod allocsz q) * ?es) (unat (i mod allocsz q + 1) * ?es)
        (unat (write_offset q mod allocsz q - i mod allocsz q - 1) * ?es) = Some ?bs"
      using memmove_slots [OF mv] by (simp only: i1 k unat_mod)
    define q' where "q' = q\<lparr>queue := Some ?bs, write_offset := write_offset q - 1\<rparr>"
    have "cf_queue_delete_offset q i = Some q'"
      using n0 rear eqs eqw [OF w0] w0 x(3) q(1) mm
      by (auto simp: cf_queue_delete_offset_def Let_def q'_def)
    moreover have "cf_queue_inv q'" using q cap W1 iW move_slots_length [OF mv] i
      by (intro cf_queue_invI [of q' ?bs]) (simp_all add: q'_def)
    moreover have "cf_queue_elems q' = drop_nth (?i - ?R) (cf_queue_elems q)"
    proof (rule delete_elemsI)
      show "?i - ?R < length (cf_queue_elems q)" using iW i by (simp add: len)
      show "unat (write_offset q') - unat (read_offset q') = length (cf_queue_elems q) - 1"
        using W1 by (simp add: len q'_def)
    next
      fix j assume j: "j < ?i - ?R"
      have c: "\<not> (?x \<le> (?R + j) mod ?A \<and> (?R + j) mod ?A < ?x + (?w - ?x - 1))"
        using mod_wrap [of ?R "?R + j" ?A] j x lt q i iW by (auto split: if_splits)
      have "slot ?es ?bs ((?R + j) mod ?A) = slot ?es bs ((?R + j) mod ?A)"
        by (simp only: slot_move_slots [OF mv] c if_False)
      then show "cf_queue_elem q' (unat (read_offset q') + j) = cf_queue_elem q (?R + j)"
        using q(1) by (simp add: q'_def cf_queue_elem_def)
    next
      fix j assume j: "?i - ?R \<le> j" "Suc j < length (cf_queue_elems q)"
      have p: "(?R + j) mod ?A = ?r + j - ?A" "(?R + Suc j) mod ?A = ?r + Suc j - ?A"
        using mod_wrap [of ?R "?R + j" ?A] mod_wrap [of ?R "?R + Suc j" ?A] j x lt q
        by (auto simp: len split: if_splits)
      have c: "?x \<le> ?r + j - ?A" "?r + j - ?A < ?x + (?w - ?x - 1)"
        "?x + 1 + (?r + j - ?A - ?x) = ?r + Suc j - ?A"
        using j x len i iW by linarith+
      have "slot ?es ?bs (?r + j - ?A) = slot ?es bs (?r + Suc j - ?A)"
        by (simp only: slot_move_slots [OF mv] c simp_thms if_True)
      then show "cf_queue_elem q' (unat (read_offset q') + j) = cf_queue_elem q (?R + Suc j)"
        using q(1) p by (simp add: q'_def cf_queue_elem_def)
    qed
    ultimately show ?thesis using rear by (simp add: q'_def)
  qed
qed

subsection \<open>The loops of delete and reduce\<close>

lemma cf_queue_load_elem:
  assumes "cf_queue_inv q" and "queue q = Some bs"
  shows "CF_Q_ELEM_PTR q i = Some (unat i mod unat (allocsz q) * elementsz q)"
    and "load bs (unat i mod unat (allocsz q) * elementsz q) (elementsz q)
      = Some (cf_queue_elem q (unat i))"
  using assms load_slot [of "unat i mod unat (allocsz q)" "unat (allocsz q)" "elementsz q" bs]
  by (auto simp: elem_ptr cf_queue_elem_def elim!: cf_queue_invE)

lemma filter_remove1_neq: "filter (\<lambda>x. x \<noteq> b) (remove1 b xs) = filter (\<lambda>x. x \<noteq> b) xs"
  by (induction xs) auto

text \<open>A round at index \<open>i\<close>: the elements before it are \<open>done\<close>, those from it on \<open>todo\<close>.\<close>

definition at_index :: "cf_queue \<Rightarrow> u32 \<Rightarrow> block list \<Rightarrow> block list \<Rightarrow> bool" where
  "at_index q i ds ts \<longleftrightarrow> cf_queue_inv q \<and> cf_queue_elems q = ds @ ts \<and>
     unat i = unat (read_offset q) + length ds"

lemma at_index_start: "cf_queue_inv q \<Longrightarrow> at_index q (read_offset q) [] (cf_queue_elems q)"
  by (simp add: at_index_def)

lemma at_index_lt: "at_index q i ds ts \<Longrightarrow> i < write_offset q \<longleftrightarrow> ts \<noteq> []"
  using length_cf_queue_elems [of q]
  by (cases ts) (auto simp: at_index_def word_less_nat_alt elim!: cf_queue_invE)

lemma at_index_elem:
  assumes "at_index q i ds (t # ts)"
  shows "cf_queue_elem q (unat i) = t"
  using assms nth_cf_queue_elems [of "length ds" q] by (auto simp: at_index_def)

lemma at_index_next:
  assumes "at_index q i ds (t # ts)"
  shows "at_index q (i + 1) (ds @ [t]) ts"
  using assms unat_inc [of i "write_offset q"] at_index_lt [OF assms] by (simp add: at_index_def)

lemma at_index_delete:
  assumes "at_index q i ds (t # ts)"
  shows "\<exists>q'. cf_queue_delete_offset q i = Some q' \<and> cf_queue_inv q' \<and>
     cf_queue_elems q' = ds @ ts \<and> elementsz q' = elementsz q \<and> threadsafe q' = threadsafe q \<and>
     (unat (read_offset q) mod unat (allocsz q) \<le> unat i mod unat (allocsz q) \<longrightarrow>
      ts \<noteq> [] \<longrightarrow> read_offset q' = read_offset q + 1 \<and> write_offset q' = write_offset q) \<and>
     allocsz q' = allocsz q"
proof -
  have "i < write_offset q" using at_index_lt [OF assms] by simp
  then have "\<exists>q'. cf_queue_delete_offset q i = Some q' \<and> cf_queue_inv q' \<and>
     cf_queue_elems q' = drop_nth (unat i - unat (read_offset q)) (cf_queue_elems q) \<and>
     elementsz q' = elementsz q \<and> threadsafe q' = threadsafe q \<and>
     (unat (read_offset q) mod unat (allocsz q) \<le> unat i mod unat (allocsz q) \<longrightarrow>
      unat i + 1 < unat (write_offset q) \<longrightarrow>
      read_offset q' = read_offset q + 1 \<and> write_offset q' = write_offset q) \<and>
     allocsz q' = allocsz q"
    using assms by (intro cf_queue_delete_offset_ok) (auto simp: at_index_def)
  moreover have "unat (write_offset q) = unat i + 1 + length ts"
    using assms length_cf_queue_elems [of q] by (auto simp: at_index_def elim!: cf_queue_invE)
  ultimately show ?thesis using assms by (auto simp: at_index_def)
qed

lemma cf_queue_delete_loop_Nil:
  "at_index q i ds [] \<Longrightarrow> cf_queue_delete_loop q i buf only_one found = Some (found, q)"
  using at_index_lt [of q i ds "[]"] by (simp add: cf_queue_delete_loop.simps [of q])

lemma cf_queue_delete_loop_Cons:
  assumes "at_index q i ds (t # ts)" and "length buf = elementsz q"
  shows "cf_queue_delete_loop q i buf only_one found =
    (if t = buf
     then (case cf_queue_delete_offset q i of None \<Rightarrow> None
           | Some q' \<Rightarrow> if only_one then Some (True, q')
                       else cf_queue_delete_loop q' (i + 1) buf only_one True)
     else cf_queue_delete_loop q (i + 1) buf only_one found)"
proof -
  have inv: "cf_queue_inv q" using assms(1) by (simp add: at_index_def)
  then obtain bs where bs: "queue q = Some bs" by (auto elim: cf_queue_invE)
  show ?thesis
    using at_index_lt [OF assms(1)] cf_queue_load_elem [OF inv bs] bs at_index_elem [OF assms(1)] assms(2)
    by (simp add: cf_queue_delete_loop.simps [of q] mem_simps)
qed

lemma cf_queue_delete_loop_one:
  assumes "at_index q i ds ts" and "length buf = elementsz q"
  shows "\<exists>q'. cf_queue_delete_loop q i buf True found = Some (buf \<in> set ts \<or> found, q') \<and>
     cf_queue_inv q' \<and> cf_queue_elems q' = ds @ remove1 buf ts \<and>
     elementsz q' = elementsz q \<and> threadsafe q' = threadsafe q"
  using assms
proof (induction ts arbitrary: i ds)
  case Nil
  then show ?case by (auto simp: cf_queue_delete_loop_Nil at_index_def)
next
  case (Cons t ts)
  show ?case
  proof (cases "t = buf")
    case True
    then show ?thesis using at_index_delete [OF Cons.prems(1)]
      by (auto simp: cf_queue_delete_loop_Cons [OF Cons.prems])
  next
    case False
    then show ?thesis using Cons.IH [OF at_index_next [OF Cons.prems(1)] Cons.prems(2)]
      by (auto simp: cf_queue_delete_loop_Cons [OF Cons.prems])
  qed
qed

text \<open>
  Deleting all matches. No element that differs from \<open>buf\<close> is lost or moved past another; but
  all matches go only when the elements do not wrap around the end of the block.
\<close>

definition unwrapped :: "cf_queue \<Rightarrow> bool" where
  "unwrapped q \<longleftrightarrow>
     unat (read_offset q) mod unat (allocsz q) + length (cf_queue_elems q) \<le> unat (allocsz q)"

lemma delete_offset_read:
  "cf_queue_delete_offset q i = Some q' \<Longrightarrow>
     read_offset q' = read_offset q \<or> read_offset q' = read_offset q + 1"
  by (auto simp: cf_queue_delete_offset_def Let_def bind_eq_Some_conv split: if_splits)

lemma unwrapped_index:
  assumes "at_index q i ds (t # ts)" and "unwrapped q"
  shows "unat (read_offset q) mod unat (allocsz q) \<le> unat i mod unat (allocsz q)"
proof -
  have n: "length (cf_queue_elems q) = length ds + 1 + length ts"
    and i: "unat i = unat (read_offset q) + length ds" using assms(1) by (simp_all add: at_index_def)
  have "unat i mod unat (allocsz q) = unat (read_offset q) mod unat (allocsz q) + length ds"
    using mod_wrap [of "unat (read_offset q)" "unat i" "unat (allocsz q)"] n i assms(2)
    by (simp add: unwrapped_def)
  then show ?thesis by simp
qed

lemma unwrapped_step:
  assumes "at_index q i ds (t # ts)" and "unwrapped q"
    and "read_offset q' = read_offset q + 1" and "allocsz q' = allocsz q"
    and "cf_queue_elems q' = ds @ ts"
  shows "unwrapped q'"
proof -
  have "i < write_offset q" using at_index_lt [OF assms(1)] by simp
  then have "read_offset q < write_offset q"
    using assms(1) by (simp add: at_index_def word_less_nat_alt)
  then have R: "unat (read_offset q') = Suc (unat (read_offset q))"
    using assms(3) by (simp add: unat_inc)
  have "length (cf_queue_elems q') + 1 = length (cf_queue_elems q)"
    using assms(1,5) by (simp add: at_index_def)
  with R assms(2,4) show ?thesis by (simp add: unwrapped_def mod_Suc)
qed

lemma at_index_delete_next:
  assumes at: "at_index q i ds (t # ts)"
  shows "\<exists>q'. cf_queue_delete_offset q i = Some q' \<and> cf_queue_inv q' \<and>
     cf_queue_elems q' = ds @ ts \<and> elementsz q' = elementsz q \<and> threadsafe q' = threadsafe q \<and>
     (if ts = [] then \<not> i + 1 < write_offset q'
      else (at_index q' (i + 1) ds ts \<and> (unwrapped q \<longrightarrow> unwrapped q')) \<or>
           (\<not> unwrapped q \<and> at_index q' (i + 1) (ds @ [hd ts]) (tl ts)))"
proof -
  from at_index_delete [OF at] obtain q' where q': "cf_queue_delete_offset q i = Some q'"
    "cf_queue_inv q'" "cf_queue_elems q' = ds @ ts" "elementsz q' = elementsz q"
    "threadsafe q' = threadsafe q" "allocsz q' = allocsz q"
    "unat (read_offset q) mod unat (allocsz q) \<le> unat i mod unat (allocsz q) \<longrightarrow>
      ts \<noteq> [] \<longrightarrow> read_offset q' = read_offset q + 1" by blast
  have iW: "i < write_offset q" using at_index_lt [OF at] by simp
  then have i1: "unat (i + 1) = unat i + 1" by (rule unat_inc)
  have "read_offset q < write_offset q" using at iW by (simp add: at_index_def word_less_nat_alt)
  then have R1: "unat (read_offset q + 1) = unat (read_offset q) + 1" by (rule unat_inc)
  show ?thesis
  proof (cases "ts = []")
    case True
    have "unat (write_offset q) = unat i + 1" using at True length_cf_queue_elems [of q] iW
      by (auto simp: at_index_def word_less_nat_alt)
    then have "\<not> i + 1 < write_offset q'"
      using i1 delete_offset_write_le [OF q'(1)] by (simp add: word_less_nat_alt word_le_nat_alt)
    then show ?thesis using q' True by simp
  next
    case ne: False
    consider (front) "read_offset q' = read_offset q + 1"
      | (rear) "read_offset q' = read_offset q" "read_offset q' \<noteq> read_offset q + 1"
      using delete_offset_read [OF q'(1)] by blast
    then show ?thesis
    proof cases
      case front
      have "at_index q' (i + 1) ds ts" using at i1 R1 q' front by (simp add: at_index_def)
      then show ?thesis using q' ne unwrapped_step [OF at _ front q'(6,3)] by simp
    next
      case rear
      then have "\<not> unwrapped q" using unwrapped_index [OF at] q'(7) ne by blast
      moreover have "at_index q' (i + 1) (ds @ [hd ts]) (tl ts)"
        using at i1 q' rear(1) ne by (simp add: at_index_def)
      ultimately show ?thesis using q' ne by simp
    qed
  qed
qed

lemma cf_queue_delete_loop_all:
  assumes "at_index q i ds ts" and "length buf = elementsz q"
  shows "\<exists>q' ts'. cf_queue_delete_loop q i buf False found = Some (buf \<in> set ts \<or> found, q') \<and>
     cf_queue_inv q' \<and> cf_queue_elems q' = ds @ ts' \<and>
     filter (\<lambda>x. x \<noteq> buf) ts' = filter (\<lambda>x. x \<noteq> buf) ts \<and>
     (unwrapped q \<longrightarrow> ts' = filter (\<lambda>x. x \<noteq> buf) ts) \<and>
     elementsz q' = elementsz q \<and> threadsafe q' = threadsafe q"
  using assms
proof (induction "length ts" arbitrary: q i ds ts found rule: less_induct)
  case less
  note len = less.prems(2)
  show ?case
  proof (cases ts)
    case Nil
    then show ?thesis using less.prems by (auto simp: cf_queue_delete_loop_Nil at_index_def)
  next
    case (Cons t us)
    have at: "at_index q i ds (t # us)" using less.prems Cons by simp
    note loop = cf_queue_delete_loop_Cons [OF at len]
    show ?thesis
    proof (cases "t = buf")
      case False
      then show ?thesis
        using less.hyps [of us q "i + 1" "ds @ [t]" found] at_index_next [OF at] len Cons loop by auto
    next
      case True
      from at_index_delete_next [OF at] obtain q' where q': "cf_queue_delete_offset q i = Some q'"
        "cf_queue_inv q'" "cf_queue_elems q' = ds @ us" "elementsz q' = elementsz q"
        "threadsafe q' = threadsafe q" and
        step: "if us = [] then \<not> i + 1 < write_offset q'
          else (at_index q' (i + 1) ds us \<and> (unwrapped q \<longrightarrow> unwrapped q')) \<or>
            (\<not> unwrapped q \<and> at_index q' (i + 1) (ds @ [hd us]) (tl us))" by blast
      have l: "cf_queue_delete_loop q i buf False found = cf_queue_delete_loop q' (i + 1) buf False True"
        using loop q' True by simp
      consider (nil) "us = []" | (front) "us \<noteq> []" "at_index q' (i + 1) ds us" "unwrapped q \<longrightarrow> unwrapped q'"
        | (rear) "us \<noteq> []" "\<not> unwrapped q" "at_index q' (i + 1) (ds @ [hd us]) (tl us)"
        using step by (auto split: if_splits)
      then show ?thesis
      proof cases
        case nil
        then have "cf_queue_delete_loop q' (i + 1) buf False True = Some (True, q')"
          using step by (simp add: cf_queue_delete_loop.simps [of q'])
        then show ?thesis using l nil q' True Cons by auto
      next
        case front
        then show ?thesis using less.hyps [of us q' "i + 1" ds True] l q' len True Cons by auto
      next
        case rear
        then have "us = hd us # tl us" by simp
        with rear show ?thesis
          using less.hyps [of "tl us" q' "i + 1" "ds @ [hd us]" True] l q' len True Cons
          by (cases us) auto
      qed
    qed
  qed
qed

lemma cf_queue_delete_ok:
  assumes inv: "cf_queue_inv q" and len: "length buf = elementsz q"
  shows "\<exists>q'. cf_queue_delete (Some q) buf only_one =
       Some (if buf \<in> set (cf_queue_elems q) then CF_QUEUE_OK else CF_QUEUE_EMPTY, Some q') \<and>
     cf_queue_inv q' \<and>
     filter (\<lambda>x. x \<noteq> buf) (cf_queue_elems q') = filter (\<lambda>x. x \<noteq> buf) (cf_queue_elems q) \<and>
     (only_one \<longrightarrow> cf_queue_elems q' = remove1 buf (cf_queue_elems q)) \<and>
     (\<not> only_one \<longrightarrow> unwrapped q \<longrightarrow> cf_queue_elems q' = filter (\<lambda>x. x \<noteq> buf) (cf_queue_elems q))"
proof (cases "cf_queue_elems q = []")
  case True
  then have "CF_Q_SZ q = 0" using CF_Q_SZ_unat [OF inv] by (simp add: unat_eq_zero)
  then show ?thesis using inv True by (simp add: cf_queue_delete_def)
next
  case False
  then have ne: "CF_Q_SZ q \<noteq> 0" using CF_Q_SZ_unat [OF inv] by auto
  note at = at_index_start [OF inv]
  show ?thesis
  proof (cases only_one)
    case True
    then show ?thesis using cf_queue_delete_loop_one [OF at len, of False] ne
      by (auto simp: cf_queue_delete_def filter_remove1_neq)
  next
    case False
    then show ?thesis using cf_queue_delete_loop_all [OF at len, of False] ne
      by (auto simp: cf_queue_delete_def)
  qed
qed

text \<open>The reduce loop refines a pass over the abstract list.\<close>

fun reduce_list :: "'s cf_queue_reduce_fn \<Rightarrow> 's \<Rightarrow> block list \<Rightarrow> block list \<times> 's" where
  "reduce_list cb u [] = ([], u)"
| "reduce_list cb u (x # xs) =
     (let (rv, x', u') = cb x u in
      if rv = - 1 then (x' # xs, u')
      else if rv = - 2 then (xs, u')
      else let (ys, u'') = reduce_list cb u' xs in (x' # ys, u''))"

lemma at_index_store:
  assumes at: "at_index q i ds (t # ts)" and x: "length x = elementsz q" and bs: "queue q = Some bs"
  shows "\<exists>bs'. store bs (unat i mod unat (allocsz q) * elementsz q) x = Some bs' \<and>
     at_index (q\<lparr>queue := Some bs'\<rparr>) i ds (x # ts)"
proof -
  let ?A = "unat (allocsz q)" and ?R = "unat (read_offset q)" and ?es = "elementsz q"
  let ?bs = "put_slot ?es bs (unat i mod ?A) x" and ?q = "\<lambda>b. q\<lparr>queue := Some b\<rparr>"
  have inv: "cf_queue_inv q" using at by (simp add: at_index_def)
  then have q: "length bs = ?A * ?es" "0 < ?A" "unat (write_offset q) - ?R \<le> ?A"
    using bs by (auto elim!: cf_queue_invE)
  have slot: "unat i mod ?A < ?A" using q(2) by simp
  have len: "length (cf_queue_elems q) = length ds + Suc (length ts)"
    and i: "unat i = ?R + length ds" using at by (simp_all add: at_index_def)
  have "cf_queue_inv (?q ?bs)"
    using inv bs put_slot_length [OF slot _ x, of bs] q(1) by (simp add: cf_queue_inv_def)
  moreover have "cf_queue_elems (?q ?bs) = ds @ x # ts"
  proof (rule cf_queue_elems_eqI)
    show "unat (write_offset (?q ?bs)) - unat (read_offset (?q ?bs)) = length (ds @ x # ts)"
      using len by (simp add: length_cf_queue_elems)
  next
    fix j assume "j < length (ds @ x # ts)"
    then have j: "j < length (cf_queue_elems q)" using len by simp
    have s: "slot ?es ?bs ((?R + j) mod ?A)
        = (if (?R + j) mod ?A = unat i mod ?A then x else slot ?es bs ((?R + j) mod ?A))"
      using slot_put_slot [OF slot _ x, of bs] q(1) by simp
    have "(?R + j) mod ?A = unat i mod ?A \<longleftrightarrow> j = length ds"
      using mod_window_inj [of ?R "?R + j" ?A "unat i"] j i len q(3)
      by (auto simp: length_cf_queue_elems)
    moreover have "slot ?es bs ((?R + j) mod ?A) = (ds @ t # ts) ! j"
      using nth_cf_queue_elems [OF j] at bs by (simp add: at_index_def cf_queue_elem_def)
    ultimately show "cf_queue_elem (?q ?bs) (unat (read_offset (?q ?bs)) + j) = (ds @ x # ts) ! j"
      using s by (auto simp: cf_queue_elem_def nth_append nth_Cons')
  qed
  ultimately show ?thesis
    using store_slot [OF slot _ x, of bs] q(1) i by (simp add: at_index_def)
qed

lemma cf_queue_reduce_loop_ok:
  assumes "at_index q i ds ts" and "\<And>x u. length x = elementsz q \<Longrightarrow> length (fst (snd (cb x u))) = elementsz q"
    and "\<forall>t \<in> set ts. length t = elementsz q"
  shows "\<exists>q'. cf_queue_reduce_loop q i cb u = Some (q', snd (reduce_list cb u ts)) \<and>
     cf_queue_inv q' \<and> cf_queue_elems q' = ds @ fst (reduce_list cb u ts) \<and>
     elementsz q' = elementsz q \<and> threadsafe q' = threadsafe q"
  using assms
proof (induction ts arbitrary: q i ds u)
  case Nil
  then show ?case using at_index_lt [of q i ds "[]"]
    by (auto simp: cf_queue_reduce_loop.simps [of q] at_index_def)
next
  case (Cons t ts)
  note at = Cons.prems(1) and cb = Cons.prems(2)
  have inv: "cf_queue_inv q" using at by (simp add: at_index_def)
  then obtain bs where bs: "queue q = Some bs" by (auto elim: cf_queue_invE)
  obtain rv x u' where c: "cb t u = (rv, x, u')" by (cases "cb t u")
  have x: "length x = elementsz q" using cb [of t u] Cons.prems(3) c by simp
  from at_index_store [OF at x bs] obtain bs' where
    st: "store bs (unat i mod unat (allocsz q) * elementsz q) x = Some bs'" and
    at': "at_index (q\<lparr>queue := Some bs'\<rparr>) i ds (x # ts)" by blast
  let ?q = "q\<lparr>queue := Some bs'\<rparr>"
  have loop: "cf_queue_reduce_loop q i cb u =
      (if rv = - 1 then Some (?q, u')
       else if rv = - 2 then do { q' \<leftarrow> cf_queue_delete_offset ?q i; Some (q', u') }
       else cf_queue_reduce_loop ?q (i + 1) cb u')"
    using at_index_lt [OF at] cf_queue_load_elem [OF inv bs] bs at_index_elem [OF at] c st
    by (simp add: cf_queue_reduce_loop.simps [of q])
  consider "rv = - 1" | "rv = - 2" | "rv \<noteq> - 1" "rv \<noteq> - 2" by blast
  then show ?case
  proof cases
    case 1
    then show ?thesis using at' c loop by (simp add: at_index_def)
  next
    case 2
    then show ?thesis using at_index_delete [OF at'] c loop by auto
  next
    case 3
    then show ?thesis
      using Cons.IH [OF at_index_next [OF at'], of u'] cb Cons.prems(3) c loop
      by (auto split: prod.split)
  qed
qed

lemma length_cf_queue_elem:
  "cf_queue_inv q \<Longrightarrow> x \<in> set (cf_queue_elems q) \<Longrightarrow> length x = elementsz q"
  by (auto simp: cf_queue_elems_def cf_queue_elem_def slot_length [where n = "unat (allocsz q)"]
      elim!: cf_queue_invE)

lemma cf_queue_reduce_ok:
  assumes inv: "cf_queue_inv q"
    and cb: "\<And>x u. length x = elementsz q \<Longrightarrow> length (fst (snd (cb x u))) = elementsz q"
  shows "\<exists>q'. cf_queue_reduce (Some q) cb u
       = Some (0, Some q', snd (reduce_list cb u (cf_queue_elems q))) \<and>
     cf_queue_inv q' \<and> cf_queue_elems q' = fst (reduce_list cb u (cf_queue_elems q))"
proof (cases "cf_queue_elems q = []")
  case True
  then have "CF_Q_SZ q = 0" using CF_Q_SZ_unat [OF inv] by (simp add: unat_eq_zero)
  then show ?thesis using inv True by (simp add: cf_queue_reduce_def)
next
  case False
  then have ne: "CF_Q_SZ q \<noteq> 0" using CF_Q_SZ_unat [OF inv] by auto
  have "\<exists>q'. cf_queue_reduce_loop q (read_offset q) cb u
        = Some (q', snd (reduce_list cb u (cf_queue_elems q))) \<and>
      cf_queue_inv q' \<and> cf_queue_elems q' = [] @ fst (reduce_list cb u (cf_queue_elems q)) \<and>
      elementsz q' = elementsz q \<and> threadsafe q' = threadsafe q"
    using at_index_start [OF inv] cb length_cf_queue_elem [OF inv]
    by (intro cf_queue_reduce_loop_ok) auto
  with ne show ?thesis by (auto simp: cf_queue_reduce_def)
qed

subsection \<open>The queue as a FIFO\<close>

definition cf_queue_enq :: "(nat \<Rightarrow> u8) \<Rightarrow> block \<Rightarrow> cf_queue \<Rightarrow> cf_queue option" where
  "cf_queue_enq g x q = do { (rv, q') \<leftarrow> cf_queue_push (Some g) q x; if rv = 0 then Some q' else None }"

definition cf_queue_deq :: "cf_queue \<Rightarrow> (block option \<times> cf_queue) option" where
  "cf_queue_deq q = do {
     r \<leftarrow> cf_queue_pop (Some q) CF_QUEUE_NOWAIT [];
     case r of PopEmpty q' \<Rightarrow> Some (None, q') | Popped x q' \<Rightarrow> Some (Some x, q') | _ \<Rightarrow> None }"

definition cf_queue_fits :: "cf_queue \<Rightarrow> block \<Rightarrow> bool" where
  "cf_queue_fits q x \<longleftrightarrow> length x = elementsz q"

interpretation lq: fifo cf_queue_inv cf_queue_elems cf_queue_fits cf_queue_spare
  "cf_queue_enq g" cf_queue_deq for g
proof (unfold_locales, goal_cases)
  case (1 q x)
  then show ?case using cf_queue_push_ok [of q x g]
    by (auto simp: cf_queue_enq_def cf_queue_fits_def cf_queue_spare_def fun_eq_iff)
next
  case (2 q)
  then show ?case by (simp add: cf_queue_deq_def cf_queue_pop_nowait)
next
  case (3 q x xs)
  then show ?case using cf_queue_pop_nowait(2) [of q x xs CF_QUEUE_NOWAIT "[]"]
    by (auto simp: cf_queue_deq_def cf_queue_fits_def cf_queue_spare_def fun_eq_iff)
qed

subsection \<open>Waiting\<close>

lemma cf_queue_wait_ready: "cf_queue_wait ms q wakes = Ready q' \<Longrightarrow>
    \<not> CF_Q_EMPTY q' \<and> q' \<in> set (q # wakes)"
  by (induction ms q wakes rule: cf_queue_wait.induct) (auto split: if_splits)

lemma cf_queue_wait_timed_out: "cf_queue_wait ms q wakes = TimedOut q' \<Longrightarrow>
    CF_Q_EMPTY q' \<and> q' \<in> set (q # wakes) \<and> ms \<noteq> CF_QUEUE_FOREVER"
  by (induction ms q wakes rule: cf_queue_wait.induct) (auto split: if_splits)

lemma cf_queue_wait_blocks: "cf_queue_wait ms q wakes = Blocks \<longleftrightarrow>
    ms = CF_QUEUE_FOREVER \<and> (\<forall>p \<in> set (q # wakes). CF_Q_EMPTY p)"
  by (induction ms q wakes rule: cf_queue_wait.induct) (auto simp: cf_queue_codes split: if_splits)

lemma cf_queue_pop_cases:
  assumes "\<forall>p \<in> set (q # wakes). cf_queue_inv p \<and> threadsafe p"
  shows "case cf_queue_pop (Some q) ms wakes of
      None \<Rightarrow> False
    | Some PopNull \<Rightarrow> False
    | Some PopBlocked \<Rightarrow> ms = CF_QUEUE_FOREVER \<and> (\<forall>p \<in> set (q # wakes). cf_queue_elems p = [])
    | Some (PopEmpty q') \<Rightarrow> ms \<noteq> CF_QUEUE_FOREVER \<and> q' \<in> set (q # wakes) \<and> cf_queue_elems q' = []
    | Some (Popped x q') \<Rightarrow> \<exists>p \<in> set (q # wakes). cf_queue_elems p = x # cf_queue_elems q' \<and> cf_queue_inv q'"
proof -
  have s: "threadsafe q" and i: "\<And>p. p \<in> set (q # wakes) \<Longrightarrow> cf_queue_inv p" using assms by auto
  show ?thesis
  proof (cases "cf_queue_wait ms q wakes")
    case (Ready p)
    from cf_queue_wait_ready [OF this] have p: "\<not> CF_Q_EMPTY p" "p \<in> set (q # wakes)" by auto
    then obtain x xs where e: "cf_queue_elems p = x # xs"
      using i CF_Q_EMPTY_iff by (cases "cf_queue_elems p") auto
    with cf_queue_read_ok [OF i [OF p(2)] e] p(2) Ready s show ?thesis
      by (auto simp: cf_queue_pop_def)
  next
    case (TimedOut p)
    with cf_queue_wait_timed_out [OF this] s i CF_Q_EMPTY_iff show ?thesis
      by (auto simp: cf_queue_pop_def)
  next
    case Blocks
    with cf_queue_wait_blocks [of ms q wakes] s i CF_Q_EMPTY_iff show ?thesis
      by (auto simp: cf_queue_pop_def)
  qed
qed

lemma cf_queue_deadline_ok:
  assumes "0 < ms" and "0 \<le> nsec" and "nsec < 1000000000"
  shows "fst (cf_queue_deadline sec nsec ms) * 1000000000 + snd (cf_queue_deadline sec nsec ms)
      = sec * 1000000000 + nsec + ms * 1000000"
    and "0 \<le> snd (cf_queue_deadline sec nsec ms)"
    and "snd (cf_queue_deadline sec nsec ms) \<le> 1000000000"
proof -
  have "ms div 1000 * 1000000000 + ms mod 1000 * 1000000 = ms * 1000000"
    using div_mult_mod_eq [of ms 1000] by linarith
  moreover have "0 \<le> ms mod 1000" "ms mod 1000 < 1000" by simp_all
  ultimately show "fst (cf_queue_deadline sec nsec ms) * 1000000000 + snd (cf_queue_deadline sec nsec ms)
      = sec * 1000000000 + nsec + ms * 1000000"
    "0 \<le> snd (cf_queue_deadline sec nsec ms)"
    "snd (cf_queue_deadline sec nsec ms) \<le> 1000000000"
    using assms by (auto simp: cf_queue_deadline_def Let_def)
qed

subsection \<open>A failed allocation\<close>

lemma cf_queue_push_fail_rotated:
  assumes "cf_queue_inv q" and "length (cf_queue_elems q) = unat (allocsz q)"
    and "unat (read_offset q) mod unat (allocsz q) \<noteq> 0"
  shows "cf_queue_push None q x = Some (- 1, q)"
proof -
  have "read_offset q mod allocsz q \<noteq> 0" using assms(3) by (simp add: unat_eq_zero [symmetric] unat_mod)
  moreover have "allocsz q \<noteq> 0" using assms(1) by (auto simp: cf_queue_inv_def)
  ultimately show ?thesis using assms(1,2)
    by (simp add: cf_queue_push_def CF_Q_SZ_full cf_queue_resize_def)
qed

lemma cf_queue_push_fail_aligned:
  assumes "cf_queue_inv q" and "length (cf_queue_elems q) = unat (allocsz q)"
    and "unat (read_offset q) mod unat (allocsz q) = 0"
  shows "cf_queue_push None q x = Some (- 1, q\<lparr>queue := None\<rparr>)"
proof -
  have "read_offset q mod allocsz q = 0" using assms(3) by (simp add: unat_eq_zero [symmetric] unat_mod)
  moreover have "allocsz q \<noteq> 0" using assms(1) by (auto simp: cf_queue_inv_def)
  ultimately show ?thesis using assms(1,2)
    by (auto simp: cf_queue_push_def CF_Q_SZ_full cf_queue_resize_def elim!: cf_queue_invE)
qed

lemma cf_queue_push_fail_faults:
  assumes "cf_queue_inv q" and "length (cf_queue_elems q) = unat (allocsz q)"
    and "unat (read_offset q) mod unat (allocsz q) = 0"
  shows "\<exists>q'. cf_queue_push None q x = Some (- 1, q') \<and>
    cf_queue_pop (Some q') CF_QUEUE_NOWAIT [] = None \<and> cf_queue_destroy q' = None"
proof -
  have "\<not> CF_Q_EMPTY q"
    using assms CF_Q_EMPTY_iff [OF assms(1)] by (auto simp: cf_queue_inv_def)
  then have "\<not> CF_Q_EMPTY (q\<lparr>queue := None\<rparr>)" by (simp add: CF_Q_EMPTY_def)
  then show ?thesis using cf_queue_push_fail_aligned [OF assms]
    by (simp add: cf_queue_pop_def cf_queue_read_def cf_queue_destroy_def)
qed

subsection \<open>Properties\<close>

text \<open>Two small queues for the witnesses: one that wraps around, one that is full and aligned.\<close>

definition wrapped_queue :: cf_queue where
  "wrapped_queue = \<lparr>threadsafe = True, allocsz = 64, write_offset = 66, read_offset = 62,
     elementsz = 1, queue = Some ([9, 9] @ replicate 60 0 @ [1, 2])\<rparr>"

definition full_queue :: cf_queue where
  "full_queue = \<lparr>threadsafe = False, allocsz = 2, write_offset = 4, read_offset = 2,
     elementsz = 1, queue = Some [7, 8]\<rparr>"

lemma wrapped_queue_elems: "cf_queue_elems wrapped_queue = [[1], [2], [9], [9]]"
  by code_simp

lemma wrapped_queue_inv: "cf_queue_inv wrapped_queue"
  by (simp add: cf_queue_inv_def wrapped_queue_def cf_queue_cap_def)

lemma full_queue_elems: "cf_queue_elems full_queue = [[7], [8]]"
  by code_simp

lemma full_queue_inv: "cf_queue_inv full_queue"
  by (simp add: cf_queue_inv_def full_queue_def cf_queue_cap_def)

lemma sample_queue_sizes:
  "elementsz wrapped_queue = 1" "threadsafe wrapped_queue" "0 < cf_queue_spare wrapped_queue"
  "allocsz full_queue = 2" "read_offset full_queue = 2" "elementsz full_queue = 1"
  by (simp_all add: wrapped_queue_def full_queue_def cf_queue_spare_def cf_queue_cap_def
      length_cf_queue_elems)

text \<open>
  C6: a queue made by \<open>cf_queue_create\<close> is a FIFO: every sequence of pushes and non-waiting
  pops runs without a fault, whatever the wrap-arounds and resizes of the ring, and gives the
  outputs and the final content of the same calls on a list, as long as no more elements are
  pushed than the 32-bit arithmetic of the ring can hold.
\<close>
theorem queue_run_fifo:
  assumes "es * 64 < 2 ^ 32" and "length (enq_args ops) \<le> cf_queue_cap es - 64"
    and "\<forall>x \<in> set (enq_args ops). length x = es"
  shows "\<exists>q q'. cf_queue_create (Some g) (Some h) True True es safe = Some q \<and>
    fifo_run (cf_queue_enq k) cf_queue_deq ops q = Some (fst (list_run ops []), q') \<and>
    cf_queue_inv q' \<and> cf_queue_elems q' = snd (list_run ops [])"
proof -
  from cf_queue_create_ok [OF assms(1)] obtain q where
    q: "cf_queue_create (Some g) (Some h) True True es safe = Some q"
    "cf_queue_inv q" "cf_queue_elems q = []" "elementsz q = es" by blast
  with lq.run_refines [of q ops k] assms(2,3) show ?thesis
    by (auto simp: cf_queue_spare_def cf_queue_fits_def)
qed

theorem queue_run_fifo_witness:
  "\<exists>q q'. cf_queue_create (Some (\<lambda>_. 0)) (Some (\<lambda>_. 0)) True True 1 True = Some q \<and>
    fifo_run (cf_queue_enq (\<lambda>_. 0)) cf_queue_deq [Enq [5], Enq [6], Deq] q
      = Some (fst (list_run [Enq [5], Enq [6], Deq] []), q') \<and>
    cf_queue_inv q' \<and> cf_queue_elems q' = snd (list_run [Enq [5], Enq [6], Deq] [])"
  by (rule queue_run_fifo) (simp_all add: cf_queue_cap_def)

text \<open>
  C26: \<open>cf_queue_push_limit\<close> succeeds exactly when the queue has fewer elements than the
  limit; then the element is appended, and otherwise the content stays as it was.
\<close>
theorem queue_push_limit_spec:
  assumes "cf_queue_inv q" and "0 < cf_queue_spare q" and "length x = elementsz q"
  shows "\<exists>q'. cf_queue_push_limit (Some g) q x limit
       = Some (length (cf_queue_elems q) < unat limit, q') \<and> cf_queue_inv q' \<and>
     cf_queue_elems q'
       = (if length (cf_queue_elems q) < unat limit then cf_queue_elems q @ [x] else cf_queue_elems q)"
  using cf_queue_push_limit_ok [OF assms] by blast

theorem queue_push_limit_spec_witness:
  "\<exists>q'. cf_queue_push_limit (Some (\<lambda>_. 0)) wrapped_queue [7] 5
       = Some (length (cf_queue_elems wrapped_queue) < unat (5 :: u32), q') \<and> cf_queue_inv q' \<and>
     cf_queue_elems q' = (if length (cf_queue_elems wrapped_queue) < unat (5 :: u32)
       then cf_queue_elems wrapped_queue @ [[7]] else cf_queue_elems wrapped_queue)"
  by (rule queue_push_limit_spec) (simp_all add: wrapped_queue_inv sample_queue_sizes)

text \<open>
  C23: \<open>cf_queue_pop\<close> under every schedule of wake-ups: it returns an element that was the
  oldest of a queue state it saw; it reports an empty queue only for a state that was empty, and
  never when told to wait forever; and it blocks only on waiting forever with every state empty.
\<close>
theorem queue_pop_wait:
  assumes "\<forall>p \<in> set (q # wakes). cf_queue_inv p \<and> threadsafe p"
  shows "case cf_queue_pop (Some q) ms wakes of
      None \<Rightarrow> False
    | Some PopNull \<Rightarrow> False
    | Some PopBlocked \<Rightarrow> ms = CF_QUEUE_FOREVER \<and> (\<forall>p \<in> set (q # wakes). cf_queue_elems p = [])
    | Some (PopEmpty q') \<Rightarrow> ms \<noteq> CF_QUEUE_FOREVER \<and> q' \<in> set (q # wakes) \<and> cf_queue_elems q' = []
    | Some (Popped x q') \<Rightarrow> \<exists>p \<in> set (q # wakes). cf_queue_elems p = x # cf_queue_elems q' \<and> cf_queue_inv q'"
  using assms by (rule cf_queue_pop_cases)

theorem queue_pop_wait_witness:
  "case cf_queue_pop (Some wrapped_queue) CF_QUEUE_FOREVER [] of
      None \<Rightarrow> False
    | Some PopNull \<Rightarrow> False
    | Some PopBlocked \<Rightarrow> CF_QUEUE_FOREVER = CF_QUEUE_FOREVER \<and>
        (\<forall>p \<in> set [wrapped_queue]. cf_queue_elems p = [])
    | Some (PopEmpty q') \<Rightarrow> CF_QUEUE_FOREVER \<noteq> CF_QUEUE_FOREVER \<and>
        q' \<in> set [wrapped_queue] \<and> cf_queue_elems q' = []
    | Some (Popped x q') \<Rightarrow> \<exists>p \<in> set [wrapped_queue].
        cf_queue_elems p = x # cf_queue_elems q' \<and> cf_queue_inv q'"
  by (rule queue_pop_wait) (simp add: wrapped_queue_inv sample_queue_sizes)

text \<open>
  C27: \<open>cf_queue_delete\<close> reports whether the queue holds the element and loses or reorders no
  other element. With \<open>only_one\<close> it removes the oldest match. Without it, it removes every match
  of a queue whose elements do not wrap around the end of the block.
\<close>
theorem queue_delete_spec:
  assumes "cf_queue_inv q" and "length buf = elementsz q"
  shows "\<exists>q'. cf_queue_delete (Some q) buf only_one =
       Some (if buf \<in> set (cf_queue_elems q) then CF_QUEUE_OK else CF_QUEUE_EMPTY, Some q') \<and>
     cf_queue_inv q' \<and>
     filter (\<lambda>x. x \<noteq> buf) (cf_queue_elems q') = filter (\<lambda>x. x \<noteq> buf) (cf_queue_elems q) \<and>
     (only_one \<longrightarrow> cf_queue_elems q' = remove1 buf (cf_queue_elems q)) \<and>
     (\<not> only_one \<longrightarrow> unwrapped q \<longrightarrow>
        cf_queue_elems q' = filter (\<lambda>x. x \<noteq> buf) (cf_queue_elems q))"
  using assms by (rule cf_queue_delete_ok)

theorem queue_delete_spec_witness:
  "\<exists>q'. cf_queue_delete (Some full_queue) [8] False =
       Some (if [8] \<in> set (cf_queue_elems full_queue) then CF_QUEUE_OK else CF_QUEUE_EMPTY, Some q') \<and>
     cf_queue_elems q' = [[7]]"
proof -
  have "unwrapped full_queue" by (simp add: unwrapped_def full_queue_elems sample_queue_sizes)
  then show ?thesis
    using queue_delete_spec [of full_queue "[8]" False] full_queue_inv
    by (auto simp: full_queue_elems sample_queue_sizes)
qed

text \<open>
  C28: in a ring that wraps around, \<open>cf_queue_delete\<close> called to delete all matches skips the
  element that follows a match it has closed up from the tail, and leaves it in the queue.
\<close>
theorem queue_delete_all_skips:
  "cf_queue_inv wrapped_queue \<and> cf_queue_elems wrapped_queue = [[1], [2], [9], [9]] \<and>
   (case cf_queue_delete (Some wrapped_queue) [9] False of
      Some (rv, Some q) \<Rightarrow> rv = CF_QUEUE_OK \<and> cf_queue_elems q = [[1], [2], [9]]
    | _ \<Rightarrow> False)"
  by (rule conjI [OF wrapped_queue_inv conjI [OF wrapped_queue_elems]]) code_simp

text \<open>
  C31: \<open>cf_queue_reduce\<close> hands the elements to the callback from the oldest on, stores what
  the callback leaves in them, stops at the first \<open>-1\<close>, and on \<open>-2\<close> deletes the element it is
  at and stops. The header (\<open>cf_queue.h\<close>) says otherwise: that the reduce runs the entire queue, that \<open>-1\<close> stops it
  and that \<open>-2\<close> triggers a delete; in the code at most one element is deleted, and those behind it are not visited.
\<close>
theorem queue_reduce_spec:
  assumes "cf_queue_inv q"
    and "\<And>x u. length x = elementsz q \<Longrightarrow> length (fst (snd (cb x u))) = elementsz q"
  shows "\<exists>q'. cf_queue_reduce (Some q) cb u
       = Some (0, Some q', snd (reduce_list cb u (cf_queue_elems q))) \<and>
     cf_queue_inv q' \<and> cf_queue_elems q' = fst (reduce_list cb u (cf_queue_elems q))"
  using assms by (rule cf_queue_reduce_ok)

theorem queue_reduce_spec_witness:
  "\<exists>q'. cf_queue_reduce (Some wrapped_queue) (\<lambda>x n. (if x = [9] then - 2 else 0, x, Suc n)) 0
       = Some (0, Some q', Suc (Suc (Suc 0))) \<and> cf_queue_inv q' \<and> cf_queue_elems q' = [[1], [2], [9]]"
  using queue_reduce_spec [of wrapped_queue "\<lambda>x n. (if x = [9] then - 2 else 0, x, Suc n)" 0]
    wrapped_queue_inv
  by (simp add: wrapped_queue_elems)

text \<open>
  C7: when the block of a full queue cannot grow and its oldest element is at the start of the
  block, \<open>cf_queue_push\<close> reports the failure but leaves the queue without its block: the
  elements are lost, and the next pop, or the destruction, uses a null pointer.
\<close>
theorem queue_push_oom_faults:
  assumes "cf_queue_inv q" and "length (cf_queue_elems q) = unat (allocsz q)"
    and "unat (read_offset q) mod unat (allocsz q) = 0"
  shows "\<exists>q'. cf_queue_push None q x = Some (- 1, q') \<and>
    cf_queue_pop (Some q') CF_QUEUE_NOWAIT [] = None \<and> cf_queue_destroy q' = None"
  using assms by (rule cf_queue_push_fail_faults)

theorem queue_push_oom_faults_witness:
  "\<exists>q'. cf_queue_push None full_queue [5] = Some (- 1, q') \<and>
    cf_queue_pop (Some q') CF_QUEUE_NOWAIT [] = None \<and> cf_queue_destroy q' = None"
  by (rule queue_push_oom_faults) (simp_all add: full_queue_inv full_queue_elems sample_queue_sizes)

end
