(* ===== verification/Cf_Queue_Priority.thy ===== *)
theory Cf_Queue_Priority
  imports Cf_Queue
begin

section \<open>The priority queue (\<open>src/cf_queue.c\<close>)\<close>

text \<open>
  Three unlocked queues under one lock. The abstract content is the contents of the three in
  the order high, medium, low; a push goes to the end of its part, a pop takes the first element.
\<close>

subsection \<open>State and operations\<close>

record cf_queue_priority =
  pri_threadsafe :: bool
  low_q :: cf_queue
  medium_q :: cf_queue
  high_q :: cf_queue

definition CF_QUEUE_PRIORITY_HIGH :: int where "CF_QUEUE_PRIORITY_HIGH = 1"
definition CF_QUEUE_PRIORITY_MEDIUM :: int where "CF_QUEUE_PRIORITY_MEDIUM = 2"
definition CF_QUEUE_PRIORITY_LOW :: int where "CF_QUEUE_PRIORITY_LOW = 3"

lemmas pri_codes =
  CF_QUEUE_PRIORITY_HIGH_def CF_QUEUE_PRIORITY_MEDIUM_def CF_QUEUE_PRIORITY_LOW_def

definition CF_Q_PRI_EMPTY :: "cf_queue_priority \<Rightarrow> bool" where
  "CF_Q_PRI_EMPTY q \<longleftrightarrow> CF_Q_EMPTY (low_q q) \<and> CF_Q_EMPTY (medium_q q) \<and> CF_Q_EMPTY (high_q q)"

text \<open>
  The creation destroys what it has made when a later step fails; \<open>None\<close> of the inner option
  is the NULL result, \<open>None\<close> of the outer one a fault.
\<close>

definition cf_queue_priority_create ::
  "malloc_env \<Rightarrow> (malloc_env \<times> malloc_env) \<times> (malloc_env \<times> malloc_env) \<times> (malloc_env \<times> malloc_env) \<Rightarrow>
   bool \<Rightarrow> bool \<Rightarrow> nat \<Rightarrow> bool \<Rightarrow> cf_queue_priority option option" where
  "cf_queue_priority_create e es mutex_ok cond_ok elemsz safe =
     (case (es, e) of
        (_, None) \<Rightarrow> Some None
      | (((l1, l2), (m1, m2), (h1, h2)), Some _) \<Rightarrow>
        (case cf_queue_create l1 l2 True True elemsz False of
           None \<Rightarrow> Some None
         | Some l \<Rightarrow>
           (case cf_queue_create m1 m2 True True elemsz False of
              None \<Rightarrow> do { _ \<leftarrow> cf_queue_destroy l; Some None }
            | Some m \<Rightarrow>
              (case cf_queue_create h1 h2 True True elemsz False of
                 None \<Rightarrow> do { _ \<leftarrow> cf_queue_destroy m; _ \<leftarrow> cf_queue_destroy l; Some None }
               | Some h \<Rightarrow>
                   if safe \<and> \<not> (mutex_ok \<and> cond_ok)
                   then do { _ \<leftarrow> cf_queue_destroy h; _ \<leftarrow> cf_queue_destroy m;
                             _ \<leftarrow> cf_queue_destroy l; Some None }
                   else Some (Some \<lparr>pri_threadsafe = safe, low_q = l, medium_q = m, high_q = h\<rparr>)))))"

definition cf_queue_priority_destroy :: "cf_queue_priority \<Rightarrow> unit option" where
  "cf_queue_priority_destroy q = do {
     _ \<leftarrow> cf_queue_destroy (high_q q);
     _ \<leftarrow> cf_queue_destroy (medium_q q);
     cf_queue_destroy (low_q q)
   }"

definition cf_queue_priority_push ::
  "malloc_env \<Rightarrow> cf_queue_priority \<Rightarrow> block \<Rightarrow> int \<Rightarrow> (int \<times> cf_queue_priority) option" where
  "cf_queue_priority_push e q ptr pri =
     (if pri = CF_QUEUE_PRIORITY_HIGH
      then do { (rv, h) \<leftarrow> cf_queue_push e (high_q q) ptr; Some (rv, q\<lparr>high_q := h\<rparr>) }
      else if pri = CF_QUEUE_PRIORITY_MEDIUM
      then do { (rv, m) \<leftarrow> cf_queue_push e (medium_q q) ptr; Some (rv, q\<lparr>medium_q := m\<rparr>) }
      else if pri = CF_QUEUE_PRIORITY_LOW
      then do { (rv, l) \<leftarrow> cf_queue_push e (low_q q) ptr; Some (rv, q\<lparr>low_q := l\<rparr>) }
      else Some (- 1, q))"

fun cf_queue_priority_wait ::
  "int \<Rightarrow> cf_queue_priority \<Rightarrow> cf_queue_priority list \<Rightarrow> (bool \<times> cf_queue_priority) option" where
  "cf_queue_priority_wait ms_wait q [] =
     (if \<not> CF_Q_PRI_EMPTY q then Some (True, q)
      else if CF_QUEUE_FOREVER = ms_wait then None
      else Some (False, q))"
| "cf_queue_priority_wait ms_wait q (q' # wakes) =
     (if \<not> CF_Q_PRI_EMPTY q then Some (True, q)
      else if CF_QUEUE_FOREVER = ms_wait then cf_queue_priority_wait ms_wait q' wakes
      else if CF_QUEUE_NOWAIT = ms_wait then Some (False, q)
      else Some (\<not> CF_Q_PRI_EMPTY q', q'))"

definition pop_from ::
  "cf_queue \<Rightarrow> (cf_queue \<Rightarrow> cf_queue_priority) \<Rightarrow> (int \<times> block option \<times> cf_queue_priority) option" where
  "pop_from p upd = do {
     r \<leftarrow> cf_queue_pop (Some p) 0 [];
     case r of
       Popped x p' \<Rightarrow> Some (0, Some x, upd p')
     | PopEmpty p' \<Rightarrow> Some (CF_QUEUE_EMPTY, None, upd p')
     | PopNull \<Rightarrow> Some (- 1, None, upd p)
     | PopBlocked \<Rightarrow> None
   }"

text \<open>
  The return code, the element copied to the buffer, and the state. \<open>None\<close> is a fault, or a
  wait that no wake-up ends.
\<close>

definition cf_queue_priority_pop ::
  "cf_queue_priority \<Rightarrow> int \<Rightarrow> cf_queue_priority list \<Rightarrow>
   (int \<times> block option \<times> cf_queue_priority) option" where
  "cf_queue_priority_pop q ms_wait wakes = do {
     (go, q1) \<leftarrow> (if pri_threadsafe q then cf_queue_priority_wait ms_wait q wakes else Some (True, q));
     if \<not> go then Some (CF_QUEUE_EMPTY, None, q1)
     else if CF_Q_SZ (high_q q1) \<noteq> 0 then pop_from (high_q q1) (\<lambda>p. q1\<lparr>high_q := p\<rparr>)
     else if CF_Q_SZ (medium_q q1) \<noteq> 0 then pop_from (medium_q q1) (\<lambda>p. q1\<lparr>medium_q := p\<rparr>)
     else if CF_Q_SZ (low_q q1) \<noteq> 0 then pop_from (low_q q1) (\<lambda>p. q1\<lparr>low_q := p\<rparr>)
     else Some (CF_QUEUE_EMPTY, None, q1)
   }"

definition cf_queue_priority_sz :: "cf_queue_priority \<Rightarrow> int" where
  "cf_queue_priority_sz q = cf_queue_sz (high_q q) + cf_queue_sz (medium_q q) + cf_queue_sz (low_q q)"

subsection \<open>Invariant and behaviour\<close>

definition cf_queue_priority_inv :: "cf_queue_priority \<Rightarrow> bool" where
  "cf_queue_priority_inv q \<longleftrightarrow>
     cf_queue_inv (high_q q) \<and> cf_queue_inv (medium_q q) \<and> cf_queue_inv (low_q q)"

definition pri_content :: "cf_queue_priority \<Rightarrow> block list" where
  "pri_content q = cf_queue_elems (high_q q) @ cf_queue_elems (medium_q q) @ cf_queue_elems (low_q q)"

lemma CF_Q_SZ_zero: "cf_queue_inv q \<Longrightarrow> CF_Q_SZ q = 0 \<longleftrightarrow> cf_queue_elems q = []"
  using CF_Q_SZ_unat [of q] by (metis length_0_conv unat_eq_zero)

lemma pri_empty: "cf_queue_priority_inv q \<Longrightarrow> CF_Q_PRI_EMPTY q \<longleftrightarrow> pri_content q = []"
  by (auto simp: CF_Q_PRI_EMPTY_def cf_queue_priority_inv_def pri_content_def CF_Q_EMPTY_iff)

lemma pop_from_ok:
  assumes "cf_queue_inv p" and "cf_queue_elems p = x # xs"
  shows "\<exists>p'. pop_from p upd = Some (0, Some x, upd p') \<and> cf_queue_inv p' \<and> cf_queue_elems p' = xs"
  using cf_queue_pop_nowait(2) [OF assms, of 0 "[]"] by (auto simp: pop_from_def)

lemma cf_queue_priority_take:
  assumes inv: "cf_queue_priority_inv q" and ne: "pri_content q = x # xs"
    and w: "\<not> pri_threadsafe q \<or> cf_queue_priority_wait ms q wakes = Some (True, q)"
  shows "\<exists>q'. cf_queue_priority_pop q ms wakes = Some (0, Some x, q') \<and> cf_queue_priority_inv q' \<and>
    pri_content q' = xs"
proof -
  have i: "cf_queue_inv (high_q q)" "cf_queue_inv (medium_q q)" "cf_queue_inv (low_q q)"
    using inv by (simp_all add: cf_queue_priority_inv_def)
  note sz = CF_Q_SZ_zero [OF i(1)] CF_Q_SZ_zero [OF i(2)] CF_Q_SZ_zero [OF i(3)]
  show ?thesis
  proof (cases "cf_queue_elems (high_q q)")
    case (Cons y ys)
    with pop_from_ok [OF i(1) Cons, of "\<lambda>p. q\<lparr>high_q := p\<rparr>"] w ne i sz show ?thesis
      by (auto simp: cf_queue_priority_pop_def cf_queue_priority_inv_def pri_content_def)
  next
    case h: Nil
    show ?thesis
    proof (cases "cf_queue_elems (medium_q q)")
      case (Cons y ys)
      with pop_from_ok [OF i(2) Cons, of "\<lambda>p. q\<lparr>medium_q := p\<rparr>"] w ne h i sz show ?thesis
        by (auto simp: cf_queue_priority_pop_def cf_queue_priority_inv_def pri_content_def)
    next
      case Nil
      with h ne have l: "cf_queue_elems (low_q q) = x # xs" by (simp add: pri_content_def)
      with pop_from_ok [OF i(3) l, of "\<lambda>p. q\<lparr>low_q := p\<rparr>"] w h Nil i sz show ?thesis
        by (auto simp: cf_queue_priority_pop_def cf_queue_priority_inv_def pri_content_def)
    qed
  qed
qed

lemma cf_queue_priority_wait_now:
  "\<not> CF_Q_PRI_EMPTY q \<Longrightarrow> cf_queue_priority_wait ms q wakes = Some (True, q)"
  by (cases wakes) simp_all

lemma cf_queue_priority_pop_ok:
  assumes inv: "cf_queue_priority_inv q"
  shows "case pri_content q of
      [] \<Rightarrow> cf_queue_priority_pop q CF_QUEUE_NOWAIT wakes = Some (CF_QUEUE_EMPTY, None, q)
    | x # xs \<Rightarrow> \<exists>q'. cf_queue_priority_pop q ms wakes = Some (0, Some x, q') \<and>
        cf_queue_priority_inv q' \<and> pri_content q' = xs"
proof (cases "pri_content q")
  case Nil
  then have "CF_Q_PRI_EMPTY q" using inv by (simp add: pri_empty)
  moreover have "CF_Q_SZ (high_q q) = 0" "CF_Q_SZ (medium_q q) = 0" "CF_Q_SZ (low_q q) = 0"
    using inv Nil by (simp_all add: cf_queue_priority_inv_def pri_content_def CF_Q_SZ_zero)
  ultimately have "cf_queue_priority_pop q CF_QUEUE_NOWAIT wakes = Some (CF_QUEUE_EMPTY, None, q)"
    by (cases wakes) (simp_all add: cf_queue_priority_pop_def cf_queue_codes)
  then show ?thesis using Nil by simp
next
  case (Cons x xs)
  then have "\<not> CF_Q_PRI_EMPTY q" using inv by (simp add: pri_empty)
  then have "\<not> pri_threadsafe q \<or> cf_queue_priority_wait ms q wakes = Some (True, q)"
    using cf_queue_priority_wait_now by blast
  with cf_queue_priority_take [OF inv Cons] Cons show ?thesis by auto
qed

lemma cf_queue_priority_push_ok:
  assumes "cf_queue_priority_inv q"
    and "cf_queue_fits (high_q q) x" "cf_queue_fits (medium_q q) x" "cf_queue_fits (low_q q) x"
    and "0 < cf_queue_spare (high_q q)" "0 < cf_queue_spare (medium_q q)" "0 < cf_queue_spare (low_q q)"
    and "pri \<in> {CF_QUEUE_PRIORITY_HIGH, CF_QUEUE_PRIORITY_MEDIUM, CF_QUEUE_PRIORITY_LOW}"
  shows "\<exists>q'. cf_queue_priority_push (Some g) q x pri = Some (0, q') \<and> cf_queue_priority_inv q' \<and>
    pri_content q' =
      cf_queue_elems (high_q q) @ (if pri = CF_QUEUE_PRIORITY_HIGH then [x] else []) @
      cf_queue_elems (medium_q q) @ (if pri = CF_QUEUE_PRIORITY_MEDIUM then [x] else []) @
      cf_queue_elems (low_q q) @ (if pri = CF_QUEUE_PRIORITY_LOW then [x] else [])"
  using assms cf_queue_push_ok [of "high_q q" x g] cf_queue_push_ok [of "medium_q q" x g]
    cf_queue_push_ok [of "low_q q" x g]
  by (auto simp: cf_queue_priority_push_def cf_queue_priority_inv_def pri_content_def
      cf_queue_fits_def pri_codes)

subsection \<open>Properties\<close>

text \<open>
  C29: a pop takes the oldest element of the highest priority that has one, at once if there is
  one; on an empty queue a pop that does not wait reports that it is empty and changes nothing.
\<close>
theorem queue_priority_pop_spec:
  assumes "cf_queue_priority_inv q"
  shows "case pri_content q of
      [] \<Rightarrow> cf_queue_priority_pop q CF_QUEUE_NOWAIT wakes = Some (CF_QUEUE_EMPTY, None, q)
    | x # xs \<Rightarrow> \<exists>q'. cf_queue_priority_pop q ms wakes = Some (0, Some x, q') \<and>
        cf_queue_priority_inv q' \<and> pri_content q' = xs"
  using assms by (rule cf_queue_priority_pop_ok)

theorem queue_priority_pop_spec_witness:
  "\<exists>q'. cf_queue_priority_pop
      \<lparr>pri_threadsafe = True, low_q = full_queue, medium_q = wrapped_queue, high_q = full_queue\<rparr> 0 []
      = Some (0, Some [7], q') \<and> cf_queue_priority_inv q' \<and>
    pri_content q' = [[8], [1], [2], [9], [9], [7], [8]]"
  using queue_priority_pop_spec [of "\<lparr>pri_threadsafe = True, low_q = full_queue,
      medium_q = wrapped_queue, high_q = full_queue\<rparr>" "[]" 0]
  by (simp add: cf_queue_priority_inv_def pri_content_def full_queue_inv wrapped_queue_inv
      full_queue_elems wrapped_queue_elems)

end
