(* ===== verification/Array_List.thy ===== *)
theory Array_List
  imports Prelude
begin

section \<open>The contract of a growing array\<close>

text \<open>
  What the users of a vector rely on: an append puts the element at the end and moves no other,
  and a get returns the element at the index.
\<close>

fun append_all :: "('x \<Rightarrow> 'v \<Rightarrow> 'v option) \<Rightarrow> 'x list \<Rightarrow> 'v \<Rightarrow> 'v option" where
  "append_all app [] v = Some v"
| "append_all app (x # xs) v = do { v' \<leftarrow> app x v; append_all app xs v' }"

fun collect :: "(nat \<Rightarrow> 'v \<Rightarrow> 'x option) \<Rightarrow> nat list \<Rightarrow> 'v \<Rightarrow> 'x list option" where
  "collect get [] v = Some []"
| "collect get (i # is) v = do { x \<leftarrow> get i v; xs \<leftarrow> collect get is v; Some (x # xs) }"

locale array_list =
  fixes inv :: "'v \<Rightarrow> bool"
    and elems :: "'v \<Rightarrow> 'x list"
    and fits :: "'v \<Rightarrow> 'x \<Rightarrow> bool"
    and limit :: "'v \<Rightarrow> nat"
    and app :: "'x \<Rightarrow> 'v \<Rightarrow> 'v option"
    and get :: "nat \<Rightarrow> 'v \<Rightarrow> 'x option"
  assumes app_ok: "inv v \<Longrightarrow> fits v x \<Longrightarrow> length (elems v) < limit v \<Longrightarrow>
      \<exists>v'. app x v = Some v' \<and> inv v' \<and> elems v' = elems v @ [x] \<and> fits v' = fits v \<and>
        limit v' = limit v"
    and get_ok: "inv v \<Longrightarrow> i < length (elems v) \<Longrightarrow> get i v = Some (elems v ! i)"
begin

lemma append_all_ok:
  assumes "inv v" and "\<forall>x \<in> set xs. fits v x" and "length (elems v) + length xs \<le> limit v"
  shows "\<exists>v'. append_all app xs v = Some v' \<and> inv v' \<and> elems v' = elems v @ xs"
  using assms
proof (induction xs arbitrary: v)
  case Nil
  then show ?case by simp
next
  case (Cons x xs)
  then obtain v1 where v1: "app x v = Some v1" "inv v1" "elems v1 = elems v @ [x]"
    "fits v1 = fits v" "limit v1 = limit v" using app_ok [of v x] by auto
  with Cons.IH [of v1] Cons.prems show ?case by auto
qed

lemma collect_ok:
  assumes "inv v" and "\<forall>i \<in> set is. i < length (elems v)"
  shows "collect get is v = Some (map ((!) (elems v)) is)"
  using assms by (induction "is") (auto simp: get_ok)

lemma append_all_collect:
  assumes "inv v" and "elems v = []" and "\<forall>x \<in> set xs. fits v x" and "length xs \<le> limit v"
  shows "\<exists>v'. append_all app xs v = Some v' \<and> collect get [0..<length xs] v' = Some xs"
proof -
  from append_all_ok [of v xs] assms obtain v' where
    v': "append_all app xs v = Some v'" "inv v'" "elems v' = xs" by auto
  with collect_ok [of v' "[0..<length xs]"] show ?thesis by (simp add: map_nth)
qed

end

end
