(* ===== verification/Cf_Vector.thy ===== *)
theory Cf_Vector
  imports Array_List
begin

section \<open>The vector (\<open>src/cf_vector.c\<close>, \<open>include/citrusleaf/cf_vector.h\<close>)\<close>

text \<open>
  A growing array of elements of \<open>value_len\<close> bytes in one block, with an optional lock.
  \<open>cf_vector_elems\<close> is the content. Sizes in bytes are computed in 32 bits, as in the code,
  so the invariant keeps the size of the block below 4 GiB.

  The lock is part of the state: \<open>v_locked\<close> says that the calling thread holds it, and to lock it
  again never returns (\<open>None\<close>). The lock of a vector without \<open>VECTOR_FLAG_BIGLOCK\<close> is not
  initialised; to lock it is a fault.
\<close>

subsection \<open>State and operations\<close>

record cf_vector =
  v_value_len :: u32
  v_flags :: u32
  v_alloc_len :: u32
  v_len :: u32
  v_vector :: "block option"
  v_stack_struct :: bool
  v_stack_vector :: bool
  v_locked :: bool

definition VECTOR_FLAG_BIGLOCK :: u32 where "VECTOR_FLAG_BIGLOCK = 1"
definition VECTOR_FLAG_INITZERO :: u32 where "VECTOR_FLAG_INITZERO = 2"
definition VECTOR_FLAG_BIGRESIZE :: u32 where "VECTOR_FLAG_BIGRESIZE = 4"

definition has_flag :: "u32 \<Rightarrow> u32 \<Rightarrow> bool" where
  "has_flag fl m \<longleftrightarrow> fl AND m \<noteq> 0"

definition VECTOR_LOCK :: "cf_vector \<Rightarrow> cf_vector option" where
  "VECTOR_LOCK v =
     (if has_flag (v_flags v) VECTOR_FLAG_BIGLOCK
      then (if v_locked v then None else Some (v\<lparr>v_locked := True\<rparr>)) else Some v)"

definition VECTOR_UNLOCK :: "cf_vector \<Rightarrow> cf_vector" where
  "VECTOR_UNLOCK v =
     (if has_flag (v_flags v) VECTOR_FLAG_BIGLOCK then v\<lparr>v_locked := False\<rparr> else v)"

definition vector_initzero :: "u32 \<Rightarrow> block option \<Rightarrow> nat \<Rightarrow> block option option" where
  "vector_initzero fl vec n =
     (case vec of
        None \<Rightarrow> Some None
      | Some bs \<Rightarrow> if has_flag fl VECTOR_FLAG_INITZERO
                  then map_option Some (memset0 bs 0 n) else Some (Some bs))"

definition cf_vector_create ::
  "malloc_env \<Rightarrow> malloc_env \<Rightarrow> u32 \<Rightarrow> u32 \<Rightarrow> u32 \<Rightarrow> cf_vector option option" where
  "cf_vector_create e_struct e value_len init_sz fl =
     (if e_struct = None then Some None
      else if init_sz \<noteq> 0 \<and> malloc e (unat (init_sz * value_len)) = None then Some None
      else do {
        vec \<leftarrow> vector_initzero fl
                 (if init_sz \<noteq> 0 then malloc e (unat (init_sz * value_len)) else None)
                 (unat (init_sz * value_len));
        Some (Some \<lparr>v_value_len = value_len, v_flags = fl, v_alloc_len = init_sz, v_len = 0,
                    v_vector = vec, v_stack_struct = False, v_stack_vector = False,
                    v_locked = False\<rparr>)
      })"

definition cf_vector_init ::
  "malloc_env \<Rightarrow> u32 \<Rightarrow> u32 \<Rightarrow> u32 \<Rightarrow> (int \<times> cf_vector) option" where
  "cf_vector_init e value_len init_sz fl =
     (let v = \<lparr>v_value_len = value_len, v_flags = fl, v_alloc_len = init_sz, v_len = 0,
               v_vector = None, v_stack_struct = True, v_stack_vector = False, v_locked = False\<rparr>
      in if init_sz \<noteq> 0 \<and> malloc e (unat (init_sz * value_len)) = None then Some (- 1, v)
         else do {
           vec \<leftarrow> vector_initzero fl
                    (if init_sz \<noteq> 0 then malloc e (unat (init_sz * value_len)) else None)
                    (unat (init_sz * value_len));
           Some (0, v\<lparr>v_vector := vec\<rparr>)
         })"

definition cf_vector_init_smalloc :: "u32 \<Rightarrow> block \<Rightarrow> u32 \<Rightarrow> cf_vector option" where
  "cf_vector_init_smalloc value_len sbuf fl =
     (if value_len = 0 then None
      else do {
        vec \<leftarrow> vector_initzero fl (Some sbuf) (length sbuf);
        Some \<lparr>v_value_len = value_len, v_flags = fl,
              v_alloc_len = word_of_nat (length sbuf) div value_len, v_len = 0, v_vector = vec,
              v_stack_struct = True, v_stack_vector = True, v_locked = False\<rparr>
      })"

definition cf_vector_clone_stack :: "cf_vector \<Rightarrow> block \<Rightarrow> (cf_vector \<times> cf_vector) option" where
  "cf_vector_clone_stack v target_buf = do {
     v1 \<leftarrow> VECTOR_LOCK v;
     bs \<leftarrow> v_vector v1;
     x \<leftarrow> load bs 0 (unat (v_value_len v1 * v_len v1));
     buf \<leftarrow> store target_buf 0 x;
     Some (VECTOR_UNLOCK v1,
           \<lparr>v_value_len = v_value_len v1, v_flags = v_flags v1, v_alloc_len = v_len v1,
            v_len = v_len v1, v_vector = Some buf, v_stack_struct = True, v_stack_vector = True,
            v_locked = False\<rparr>)
   }"

text \<open>
  The new block of a resize: a fresh one with the old content copied for a buffer on the stack,
  else the old one reallocated. \<open>Some None\<close> is a failed allocation.
\<close>

definition vector_grow :: "malloc_env \<Rightarrow> cf_vector \<Rightarrow> nat \<Rightarrow> nat \<Rightarrow> block option option" where
  "vector_grow e v bytes old =
     (if v_vector v = None \<or> v_stack_vector v
      then (case malloc e bytes of
              None \<Rightarrow> Some None
            | Some t0 \<Rightarrow>
                if v_stack_vector v
                then do { bs \<leftarrow> v_vector v; x \<leftarrow> load bs 0 old; t1 \<leftarrow> store t0 0 x; Some (Some t1) }
                else Some (Some t0))
      else Some (realloc e (the (v_vector v)) bytes))"

definition cf_vector_resize :: "malloc_env \<Rightarrow> cf_vector \<Rightarrow> u32 \<Rightarrow> (int \<times> cf_vector) option" where
  "cf_vector_resize e v new_sz0 =
     (let new_sz = (if has_flag (v_flags v) VECTOR_FLAG_BIGRESIZE
                    then (if new_sz0 < 50 then 50 else new_sz0)
                    else if new_sz0 = 0 then 2 else new_sz0);
          old = unat (v_alloc_len v * v_value_len v)
      in do {
        t \<leftarrow> vector_grow e v (unat (new_sz * v_value_len v)) old;
        case t of
          None \<Rightarrow> Some (- 1, v)
        | Some t1 \<Rightarrow> do {
            t2 \<leftarrow> (if has_flag (v_flags v) VECTOR_FLAG_INITZERO
                   then memset0 t1 old (unat ((new_sz - v_alloc_len v) * v_value_len v))
                   else Some t1);
            Some (0, v\<lparr>v_vector := Some t2, v_stack_vector := False, v_alloc_len := new_sz\<rparr>)
          }
      })"

definition cf_vector_set :: "cf_vector \<Rightarrow> u32 \<Rightarrow> block \<Rightarrow> (int \<times> cf_vector) option" where
  "cf_vector_set v index value = do {
     v1 \<leftarrow> VECTOR_LOCK v;
     if index \<ge> v_alloc_len v1 then Some (- 1, v1)
     else do {
       bs \<leftarrow> v_vector v1;
       x \<leftarrow> load value 0 (unat (v_value_len v1));
       bs' \<leftarrow> store bs (unat (index * v_value_len v1)) x;
       let v2 = v1\<lparr>v_vector := Some bs', v_len := (if index \<ge> v_len v1 then index + 1 else v_len v1)\<rparr>;
       Some (0, VECTOR_UNLOCK v2)
     }
   }"

definition cf_vector_append_lockfree :: "malloc_env \<Rightarrow> cf_vector \<Rightarrow> block \<Rightarrow> (int \<times> cf_vector) option" where
  "cf_vector_append_lockfree e v value = do {
     (rv, v1) \<leftarrow> (if v_len v \<ge> v_alloc_len v then cf_vector_resize e v (v_len v * 2) else Some (0, v));
     if rv \<noteq> 0 then Some (- 1, v1)
     else do {
       bs \<leftarrow> v_vector v1;
       x \<leftarrow> load value 0 (unat (v_value_len v1));
       bs' \<leftarrow> store bs (unat (v_len v1 * v_value_len v1)) x;
       Some (0, v1\<lparr>v_vector := Some bs', v_len := v_len v1 + 1\<rparr>)
     }
   }"

definition cf_vector_append :: "malloc_env \<Rightarrow> cf_vector \<Rightarrow> block \<Rightarrow> (int \<times> cf_vector) option" where
  "cf_vector_append e v value = do {
     v1 \<leftarrow> VECTOR_LOCK v;
     (rv, v2) \<leftarrow> cf_vector_append_lockfree e v1 value;
     Some (rv, VECTOR_UNLOCK v2)
   }"

text \<open>The search of \<open>cf_vector_append_unique\<close>: \<open>n\<close> elements of \<open>l\<close> bytes from \<open>off\<close> on.\<close>

fun vector_search :: "block option \<Rightarrow> nat \<Rightarrow> block \<Rightarrow> nat \<Rightarrow> nat \<Rightarrow> bool option" where
  "vector_search vec l value off 0 = Some False"
| "vector_search vec l value off (Suc n) = do {
     bs \<leftarrow> vec;
     x \<leftarrow> load bs off l;
     y \<leftarrow> load value 0 l;
     if y = x then Some True else vector_search vec l value (off + l) n
   }"

definition cf_vector_append_unique :: "malloc_env \<Rightarrow> cf_vector \<Rightarrow> block \<Rightarrow> (int \<times> cf_vector) option" where
  "cf_vector_append_unique e v value = do {
     v1 \<leftarrow> VECTOR_LOCK v;
     found \<leftarrow> vector_search (v_vector v1) (unat (v_value_len v1)) value 0 (unat (v_len v1));
     (rv, v2) \<leftarrow> (if found then Some (0, v1) else cf_vector_append_lockfree e v1 value);
     Some (rv, VECTOR_UNLOCK v2)
   }"

text \<open>The getters: the return code (or pointer, an offset in the block), the value, the vector.\<close>

definition cf_vector_get :: "cf_vector \<Rightarrow> u32 \<Rightarrow> (int \<times> block option \<times> cf_vector) option" where
  "cf_vector_get v index = do {
     v1 \<leftarrow> VECTOR_LOCK v;
     if index \<ge> v_alloc_len v1 then Some (- 1, None, v1)
     else do {
       bs \<leftarrow> v_vector v1;
       x \<leftarrow> load bs (unat (index * v_value_len v1)) (unat (v_value_len v1));
       Some (0, Some x, VECTOR_UNLOCK v1)
     }
   }"

definition cf_vector_getp :: "cf_vector \<Rightarrow> u32 \<Rightarrow> (nat option \<times> cf_vector) option" where
  "cf_vector_getp v index = do {
     v1 \<leftarrow> VECTOR_LOCK v;
     if index \<ge> v_alloc_len v1 then Some (None, v1)
     else Some (Some (unat (index * v_value_len v1)), VECTOR_UNLOCK v1)
   }"

text \<open>\<open>!v->flags & VECTOR_FLAG_BIGLOCK\<close> negates first: it holds only when no flag is set at all.\<close>

definition cf_vector_getp_vlock :: "cf_vector \<Rightarrow> u32 \<Rightarrow> (nat option \<times> cf_vector) option" where
  "cf_vector_getp_vlock v index =
     (if (if v_flags v = 0 then 1 else 0) AND VECTOR_FLAG_BIGLOCK \<noteq> 0 then Some (None, v)
      else if index \<ge> v_alloc_len v then Some (None, v)
      else if \<not> has_flag (v_flags v) VECTOR_FLAG_BIGLOCK \<or> v_locked v then None
      else Some (Some (unat (index * v_value_len v)), v\<lparr>v_locked := True\<rparr>))"

definition cf_vector_delete :: "cf_vector \<Rightarrow> u32 \<Rightarrow> (int \<times> cf_vector) option" where
  "cf_vector_delete v index = do {
     v1 \<leftarrow> VECTOR_LOCK v;
     if index \<ge> v_len v1 then Some (- 1, v1)
     else do {
       v2 \<leftarrow> (if index \<noteq> v_len v1 - 1
              then do {
                bs \<leftarrow> v_vector v1;
                bs' \<leftarrow> memmove bs (unat (index * v_value_len v1)) (unat ((index + 1) * v_value_len v1))
                        (unat ((v_len v1 - (index + 1)) * v_value_len v1));
                Some (v1\<lparr>v_vector := Some bs'\<rparr>)
              }
              else Some v1);
       Some (0, VECTOR_UNLOCK (v2\<lparr>v_len := v_len v2 - 1\<rparr>))
     }
   }"

definition cf_vector_delete_range :: "cf_vector \<Rightarrow> u32 \<Rightarrow> u32 \<Rightarrow> (int \<times> cf_vector) option" where
  "cf_vector_delete_range v idx_start idx_end = do {
     v1 \<leftarrow> VECTOR_LOCK v;
     if idx_start \<ge> idx_end then Some (- 1, v1)
     else if idx_start \<ge> v_len v1 then Some (- 1, v1)
     else if idx_end \<ge> v_len v1 then Some (- 1, v1)
     else do {
       v2 \<leftarrow> (if idx_end \<noteq> v_len v1 - 1
              then do {
                bs \<leftarrow> v_vector v1;
                bs' \<leftarrow> memmove bs (unat (idx_start * v_value_len v1))
                        (unat ((idx_end + 1) * v_value_len v1))
                        (unat ((v_len v1 - (idx_end + 1)) * v_value_len v1));
                Some (v1\<lparr>v_vector := Some bs'\<rparr>)
              }
              else Some v1);
       Some (0, VECTOR_UNLOCK (v2\<lparr>v_len := v_len v2 - ((idx_end - idx_start) + 1)\<rparr>))
     }
   }"

text \<open>
  \<open>cf_vector_compact\<close> computes the new size from \<open>alloc_len\<close> instead of \<open>value_len\<close>; to
  reallocate a buffer that is not from malloc is a fault.
\<close>

definition cf_vector_compact :: "malloc_env \<Rightarrow> cf_vector \<Rightarrow> cf_vector option" where
  "cf_vector_compact e v = do {
     v1 \<leftarrow> VECTOR_LOCK v;
     if v_alloc_len v1 \<noteq> 0 \<and> v_len v1 \<noteq> v_alloc_len v1
     then if v_stack_vector v1 then None
          else Some (VECTOR_UNLOCK (v1\<lparr>
                 v_vector := (case v_vector v1 of
                     None \<Rightarrow> malloc e (unat (v_len v1 * v_alloc_len v1))
                   | Some bs \<Rightarrow> realloc e bs (unat (v_len v1 * v_alloc_len v1))),
                 v_alloc_len := v_len v1\<rparr>))
     else Some (VECTOR_UNLOCK v1)
   }"

text \<open>Which memory \<open>cf_vector_destroy\<close> frees: the block, the structure.\<close>

definition cf_vector_destroy :: "cf_vector \<Rightarrow> bool \<times> bool" where
  "cf_vector_destroy v = (v_vector v \<noteq> None \<and> \<not> v_stack_vector v, \<not> v_stack_struct v)"

definition cf_vector_size :: "cf_vector \<Rightarrow> u32" where
  "cf_vector_size v = v_len v"

definition cf_vector_reset :: "cf_vector \<Rightarrow> cf_vector option" where
  "cf_vector_reset v =
     (if has_flag (v_flags v) VECTOR_FLAG_INITZERO
      then do { bs \<leftarrow> v_vector v; bs' \<leftarrow> memset0 bs 0 (unat (v_alloc_len v * v_value_len v));
                Some (v\<lparr>v_len := 0, v_vector := Some bs'\<rparr>) }
      else Some (v\<lparr>v_len := 0\<rparr>))"

subsection \<open>Invariant and content\<close>

text \<open>
  \<open>cf_vector_held\<close> is the invariant inside a critical section: the lock is taken if there is
  one. \<open>cf_vector_inv\<close> is the invariant between the operations.
\<close>

definition cf_vector_ok :: "cf_vector \<Rightarrow> bool" where
  "cf_vector_ok v \<longleftrightarrow> unat (v_len v) \<le> unat (v_alloc_len v) \<and>
     unat (v_alloc_len v) * unat (v_value_len v) < 2 ^ 32 \<and>
     (case v_vector v of
        None \<Rightarrow> v_alloc_len v = 0 \<and> \<not> v_stack_vector v
      | Some bs \<Rightarrow> unat (v_alloc_len v) * unat (v_value_len v) \<le> length bs)"

definition cf_vector_held :: "cf_vector \<Rightarrow> bool" where
  "cf_vector_held v \<longleftrightarrow> cf_vector_ok v \<and> v_locked v = has_flag (v_flags v) VECTOR_FLAG_BIGLOCK"

definition cf_vector_inv :: "cf_vector \<Rightarrow> bool" where
  "cf_vector_inv v \<longleftrightarrow> cf_vector_ok v \<and> \<not> v_locked v"

definition cf_vector_elem :: "cf_vector \<Rightarrow> nat \<Rightarrow> block" where
  "cf_vector_elem v i = slot (unat (v_value_len v)) (the (v_vector v)) i"

definition cf_vector_elems :: "cf_vector \<Rightarrow> block list" where
  "cf_vector_elems v = map (cf_vector_elem v) [0..<unat (v_len v)]"

definition cf_vector_fits :: "cf_vector \<Rightarrow> block \<Rightarrow> bool" where
  "cf_vector_fits v x \<longleftrightarrow> length x = unat (v_value_len v)"

text \<open>The number of elements up to which the doubling of the block stays below 4 GiB.\<close>

definition cf_vector_limit :: "cf_vector \<Rightarrow> nat" where
  "cf_vector_limit v = (if v_value_len v = 0 then 2 ^ 31
     else if 50 * unat (v_value_len v) < 2 ^ 32 then (2 ^ 32 - 1) div (2 * unat (v_value_len v)) else 0)"

lemma length_cf_vector_elems [simp]: "length (cf_vector_elems v) = unat (v_len v)"
  by (simp add: cf_vector_elems_def)

lemma nth_cf_vector_elems: "i < unat (v_len v) \<Longrightarrow> cf_vector_elems v ! i = cf_vector_elem v i"
  by (simp add: cf_vector_elems_def)

lemma cf_vector_elems_eqI:
  assumes "unat (v_len v) = length xs" and "\<And>i. i < length xs \<Longrightarrow> cf_vector_elem v i = xs ! i"
  shows "cf_vector_elems v = xs"
  using assms by (intro nth_equalityI) (auto simp: nth_cf_vector_elems)

lemma cf_vector_okE:
  assumes "cf_vector_ok v" and "v_alloc_len v \<noteq> 0"
  obtains bs where "v_vector v = Some bs" "unat (v_alloc_len v) * unat (v_value_len v) \<le> length bs"
    "unat (v_len v) \<le> unat (v_alloc_len v)"
    "unat (v_alloc_len v) * unat (v_value_len v) < 2 ^ 32"
  using assms by (auto simp: cf_vector_ok_def split: option.splits)

lemma vector_offset:
  fixes i n l :: u32
  assumes "unat i \<le> unat n" and "unat n * unat l < 2 ^ 32"
  shows "unat (i * l) = unat i * unat l"
proof -
  have "unat i * unat l \<le> unat n * unat l" using assms(1) by (rule mult_le_mono1)
  then have "unat i * unat l < 2 ^ 32" using assms(2) by (rule le_less_trans)
  then show ?thesis by (simp add: unat_word_ariths)
qed

lemma VECTOR_LOCK_ok:
  assumes "cf_vector_inv v"
  shows "\<exists>v1. VECTOR_LOCK v = Some v1 \<and> cf_vector_held v1 \<and> cf_vector_elems v1 = cf_vector_elems v \<and>
    v_value_len v1 = v_value_len v \<and> v_flags v1 = v_flags v \<and> v_len v1 = v_len v \<and>
    v_alloc_len v1 = v_alloc_len v \<and> v_vector v1 = v_vector v \<and> v_stack_vector v1 = v_stack_vector v"
  using assms
  by (auto simp: VECTOR_LOCK_def cf_vector_inv_def cf_vector_held_def cf_vector_ok_def
      cf_vector_elems_def cf_vector_elem_def split: option.splits)

lemma VECTOR_UNLOCK_ok:
  assumes "cf_vector_held v"
  shows "cf_vector_inv (VECTOR_UNLOCK v)" and "cf_vector_elems (VECTOR_UNLOCK v) = cf_vector_elems v"
    and "v_value_len (VECTOR_UNLOCK v) = v_value_len v" and "v_len (VECTOR_UNLOCK v) = v_len v"
    and "v_alloc_len (VECTOR_UNLOCK v) = v_alloc_len v"
    and "v_flags (VECTOR_UNLOCK v) = v_flags v"
  using assms
  by (auto simp: VECTOR_UNLOCK_def cf_vector_inv_def cf_vector_held_def cf_vector_ok_def
      cf_vector_elems_def cf_vector_elem_def split: option.splits)

text \<open>An operation that changes the block and the length inside its critical section.\<close>

lemma cf_vector_update:
  assumes "cf_vector_held v" and "v_vector v = Some bs"
    and "length bs' = length bs" and "unat n \<le> unat (v_alloc_len v)"
  shows "cf_vector_held (v\<lparr>v_vector := Some bs', v_len := n\<rparr>)"
    and "cf_vector_elems (v\<lparr>v_vector := Some bs', v_len := n\<rparr>)
      = map (slot (unat (v_value_len v)) bs') [0..<unat n]"
  using assms
  by (simp_all add: cf_vector_held_def cf_vector_ok_def cf_vector_elems_def cf_vector_elem_def)

subsection \<open>Get and set\<close>

lemma cf_vector_get_ok:
  assumes inv: "cf_vector_inv v" and i: "unat i < unat (v_len v)"
  shows "\<exists>v'. cf_vector_get v i = Some (0, Some (cf_vector_elems v ! unat i), v') \<and>
    cf_vector_inv v' \<and> cf_vector_elems v' = cf_vector_elems v"
proof -
  from VECTOR_LOCK_ok [OF inv] obtain v1 where v1: "VECTOR_LOCK v = Some v1" "cf_vector_held v1"
    "cf_vector_elems v1 = cf_vector_elems v" "v_value_len v1 = v_value_len v" "v_len v1 = v_len v"
    "v_alloc_len v1 = v_alloc_len v" "v_vector v1 = v_vector v" by blast
  have ok: "cf_vector_ok v" and ne: "v_alloc_len v \<noteq> 0"
    using inv i by (auto simp: cf_vector_inv_def cf_vector_ok_def)
  from cf_vector_okE [OF ok ne] obtain bs where bs: "v_vector v = Some bs"
    "unat (v_alloc_len v) * unat (v_value_len v) \<le> length bs" "unat (v_len v) \<le> unat (v_alloc_len v)"
    "unat (v_alloc_len v) * unat (v_value_len v) < 2 ^ 32" by blast
  have ia: "unat i < unat (v_alloc_len v)" using i bs(3) by simp
  have "unat (i * v_value_len v) = unat i * unat (v_value_len v)"
    using ia bs(4) by (intro vector_offset [of i "v_alloc_len v"]) simp_all
  then show ?thesis
    using v1 bs ia i VECTOR_UNLOCK_ok [OF v1(2)] load_slot [OF ia bs(2)]
    by (simp add: cf_vector_get_def word_le_nat_alt nth_cf_vector_elems cf_vector_elem_def)
qed

lemma cf_vector_set_ok:
  assumes inv: "cf_vector_inv v" and i: "unat i \<le> unat (v_len v)" "i < v_alloc_len v"
    and x: "cf_vector_fits v x"
  shows "\<exists>v'. cf_vector_set v i x = Some (0, v') \<and> cf_vector_inv v' \<and>
    v_value_len v' = v_value_len v \<and>
    cf_vector_elems v' = (if unat i < unat (v_len v) then (cf_vector_elems v)[unat i := x]
                          else cf_vector_elems v @ [x])"
proof -
  let ?l = "unat (v_value_len v)"
  from VECTOR_LOCK_ok [OF inv] obtain v1 where v1: "VECTOR_LOCK v = Some v1" "cf_vector_held v1"
    "cf_vector_elems v1 = cf_vector_elems v" "v_value_len v1 = v_value_len v" "v_len v1 = v_len v"
    "v_alloc_len v1 = v_alloc_len v" "v_vector v1 = v_vector v" by blast
  have ok: "cf_vector_ok v" and ne: "v_alloc_len v \<noteq> 0"
    using inv i by (auto simp: cf_vector_inv_def)
  from cf_vector_okE [OF ok ne] obtain bs where bs: "v_vector v = Some bs"
    "unat (v_alloc_len v) * ?l \<le> length bs" "unat (v_len v) \<le> unat (v_alloc_len v)"
    "unat (v_alloc_len v) * ?l < 2 ^ 32" by blast
  have ia: "unat i < unat (v_alloc_len v)" using i(2) by (simp add: word_less_nat_alt)
  have off: "unat (i * v_value_len v) = unat i * ?l"
    using ia bs(4) by (intro vector_offset [of i "v_alloc_len v"]) simp_all
  have lx: "length x = ?l" using x by (simp add: cf_vector_fits_def)
  define n where "n = (if i \<ge> v_len v then i + 1 else v_len v)"
  have n: "unat n = (if unat i < unat (v_len v) then unat (v_len v) else unat i + 1)"
    using unat_inc [OF i(2)] by (auto simp: n_def word_le_nat_alt)
  define bs' where "bs' = put_slot ?l bs (unat i) x"
  have lb: "length bs' = length bs" using put_slot_length [OF ia bs(2) lx] by (simp add: bs'_def)
  have nA: "unat n \<le> unat (v_alloc_len v1)" using n bs(3) ia v1(6) by (simp split: if_splits)
  note up = cf_vector_update [OF v1(2) _ lb nA]
  have set_eq: "cf_vector_set v i x = Some (0, VECTOR_UNLOCK (v1\<lparr>v_vector := Some bs', v_len := n\<rparr>))"
    using v1 bs ia lx store_slot [OF ia bs(2) lx]
    by (simp add: cf_vector_set_def word_le_nat_alt off n_def bs'_def mem_simps Let_def)
  have sl: "slot ?l bs' j = (if j = unat i then x else slot ?l bs j)" for j
    using slot_put_slot [OF ia bs(2) lx] by (simp add: bs'_def)
  have el: "map (slot ?l bs') [0..<unat n] = (if unat i < unat (v_len v)
      then (cf_vector_elems v)[unat i := x] else cf_vector_elems v @ [x])"
    using i(1) n sl bs(1)
    by (intro nth_equalityI) (auto simp: nth_cf_vector_elems cf_vector_elem_def nth_append nth_list_update)
  show ?thesis
    using set_eq up [OF v1(7) [unfolded bs(1)]] VECTOR_UNLOCK_ok v1(4) el by auto
qed

subsection \<open>Append\<close>

definition grown :: "cf_vector \<Rightarrow> u32 \<Rightarrow> u32" where
  "grown v n = (if has_flag (v_flags v) VECTOR_FLAG_BIGRESIZE
     then (if n < 50 then 50 else n) else if n = 0 then 2 else n)"

lemma grown_bounds:
  assumes "unat (v_len v) < cf_vector_limit v"
  shows "unat (v_len v) < unat (grown v (v_len v * 2))"
    and "unat (grown v (v_len v * 2)) * unat (v_value_len v) < 2 ^ 32"
proof -
  let ?l = "unat (v_value_len v)" and ?n = "unat (v_len v)"
  have b: "?n * 2 < 2 ^ 32 \<and> ?n * 2 * ?l < 2 ^ 32 \<and> 50 * ?l < 2 ^ 32"
  proof (cases "v_value_len v = 0")
    case True
    then show ?thesis using assms by (simp add: cf_vector_limit_def)
  next
    case False
    then have l: "0 < ?l" by (simp add: unat_gt_0)
    have lim: "50 * ?l < 2 ^ 32" "?n < (2 ^ 32 - 1) div (2 * ?l)"
      using assms False by (auto simp: cf_vector_limit_def split: if_splits)
    have "?n * (2 * ?l) \<le> (2 ^ 32 - 1) div (2 * ?l) * (2 * ?l)"
      using lim(2) by (intro mult_le_mono1) simp
    also have "\<dots> \<le> 2 ^ 32 - 1" by (rule div_times_less_eq_dividend)
    finally have m: "?n * (2 * ?l) \<le> 2 ^ 32 - 1" .
    have "?n * 2 \<le> ?n * (2 * ?l)" using l by simp
    then have "?n * 2 \<le> 2 ^ 32 - 1" using m by (rule le_trans)
    moreover have "?n * 2 * ?l = ?n * (2 * ?l)" by (simp only: mult.assoc)
    ultimately show ?thesis using m lim(1) by simp
  qed
  then have u: "unat (v_len v * 2) = ?n * 2" by (simp add: unat_word_ariths)
  have z: "v_len v * 2 = 0 \<longleftrightarrow> ?n = 0" using u by (metis mult_eq_0_iff unat_eq_zero zero_neq_numeral)
  show "?n < unat (grown v (v_len v * 2))"
    using u z by (auto simp: grown_def word_less_nat_alt)
  show "unat (grown v (v_len v * 2)) * ?l < 2 ^ 32"
    using b u z by (auto simp: grown_def word_less_nat_alt)
qed

lemma memset0_length: "memset0 bs off n = Some bs' \<Longrightarrow> length bs' = length bs"
  by (auto simp: memset0_def split: if_splits)

lemma memset0_slot:
  assumes "memset0 bs (m * es) n = Some bs'" and "j < m"
  shows "slot es bs' j = slot es bs j"
proof -
  have b: "m * es + n \<le> length bs" and e: "bs' = take (m * es) bs @ replicate n 0 @ drop (m * es + n) bs"
    using assms(1) by (auto simp: memset0_def split: if_splits)
  show ?thesis unfolding e using b assms(2)
    by (subst slot_append_left [where m = m]) (auto simp: slot_take)
qed

lemma vector_grow_ok:
  assumes ok: "cf_vector_ok v" and n: "unat (v_alloc_len v) \<le> n"
  defines "l \<equiv> unat (v_value_len v)" and "A \<equiv> unat (v_alloc_len v)"
  shows "\<exists>t. vector_grow (Some g) v (n * l) (A * l) = Some (Some t) \<and> length t = n * l \<and>
    (\<forall>j < A. slot l t j = slot l (the (v_vector v)) j)"
proof -
  have Al: "A * l \<le> n * l" using n by (simp add: A_def mult_le_mono1)
  show ?thesis
  proof (cases "v_vector v")
    case None
    then have "A = 0" using ok by (simp add: cf_vector_ok_def A_def)
    then show ?thesis using None ok by (simp add: vector_grow_def cf_vector_ok_def)
  next
    case (Some bs)
    then have b: "A * l \<le> length bs" using ok by (simp add: cf_vector_ok_def A_def l_def)
    show ?thesis
    proof (cases "v_stack_vector v")
      case True
      let ?t = "take (A * l) bs @ drop (A * l) (map g [0..<n * l])"
      have "store (map g [0..<n * l]) 0 (take (A * l) bs) = Some ?t"
        using store_ok [of 0 "take (A * l) bs" "map g [0..<n * l]"] b Al by (simp add: min_def)
      then have "vector_grow (Some g) v (n * l) (A * l) = Some (Some ?t)"
        using True Some b by (simp add: vector_grow_def load_def)
      moreover have "slot l ?t j = slot l bs j" if "j < A" for j
        using that b slot_append_left [of j A l "take (A * l) bs"] by (simp add: slot_take)
      moreover have "length ?t = n * l" using b Al le_add_diff_inverse [OF Al] by (simp add: min_def)
      ultimately show ?thesis using Some by auto
    next
      case False
      let ?t = "take (n * l) bs @ map g [length bs..<n * l]"
      have "vector_grow (Some g) v (n * l) (A * l) = Some (Some ?t)"
        using False Some by (simp add: vector_grow_def)
      moreover have "slot l ?t j = slot l bs j" if "j < A" for j
      proof -
        have "slot l ?t j = slot l (take (n * l) bs) j"
          using that b Al by (intro slot_append_left [of j A]) (simp_all add: min_def)
        then show ?thesis using that n by (simp add: slot_take A_def)
      qed
      moreover have "length ?t = n * l" by simp
      ultimately show ?thesis using Some by auto
    qed
  qed
qed

lemma cf_vector_resize_ok:
  assumes held: "cf_vector_held v" and full: "v_len v = v_alloc_len v"
    and lim: "unat (v_len v) < cf_vector_limit v"
  shows "\<exists>v'. cf_vector_resize (Some g) v (v_len v * 2) = Some (0, v') \<and> cf_vector_held v' \<and>
    cf_vector_elems v' = cf_vector_elems v \<and> unat (v_len v') < unat (v_alloc_len v') \<and>
    v_len v' = v_len v \<and> v_value_len v' = v_value_len v \<and> v_flags v' = v_flags v"
proof -
  let ?l = "unat (v_value_len v)" and ?A = "unat (v_alloc_len v)"
  let ?n = "grown v (v_len v * 2)"
  let ?t = "take (?A * ?l) (the (v_vector v)) @ map g [?A * ?l..<unat ?n * ?l]"
  note g = grown_bounds [OF lim]
  have ok: "cf_vector_ok v" using held by (simp add: cf_vector_held_def)
  have An: "?A \<le> unat ?n" using g(1) full by simp
  have AL: "?A * ?l \<le> unat ?n * ?l" using An by (rule mult_le_mono1)
  have A32: "?A * ?l < 2 ^ 32" using AL g(2) by (rule le_less_trans)
  have un: "unat (?n * v_value_len v) = unat ?n * ?l"
    by (rule vector_offset [of ?n ?n, OF order_refl g(2)])
  have ua: "unat (v_alloc_len v * v_value_len v) = ?A * ?l"
    by (rule vector_offset [of "v_alloc_len v" "v_alloc_len v", OF order_refl A32])
  have ud: "unat ((?n - v_alloc_len v) * v_value_len v) = unat ?n * ?l - ?A * ?l"
  proof -
    have d: "unat (?n - v_alloc_len v) = unat ?n - ?A"
      using An by (simp add: unat_minus_le word_le_nat_alt)
    have "unat ((?n - v_alloc_len v) * v_value_len v) = unat (?n - v_alloc_len v) * ?l"
      using d by (intro vector_offset [of _ ?n, OF _ g(2)]) simp
    then show ?thesis using d by (simp add: diff_mult_distrib)
  qed
  from vector_grow_ok [OF ok An, of g] obtain t1 where
    t1: "vector_grow (Some g) v (unat ?n * ?l) (?A * ?l) = Some (Some t1)" "length t1 = unat ?n * ?l"
    "\<And>j. j < ?A \<Longrightarrow> slot ?l t1 j = slot ?l (the (v_vector v)) j" by blast
  have "?A * ?l + (unat ?n * ?l - ?A * ?l) = unat ?n * ?l" using AL by (rule le_add_diff_inverse)
  then have "\<exists>t2. memset0 t1 (?A * ?l) (unat ?n * ?l - ?A * ?l) = Some t2"
    using t1(2) by (simp add: memset0_def)
  then obtain t2 where t2: "memset0 t1 (?A * ?l) (unat ?n * ?l - ?A * ?l) = Some t2" by blast
  define t where "t = (if has_flag (v_flags v) VECTOR_FLAG_INITZERO then t2 else t1)"
  have lt: "length t = unat ?n * ?l" using t1(2) memset0_length [OF t2] by (simp add: t_def)
  have st: "slot ?l t j = slot ?l (the (v_vector v)) j" if "j < ?A" for j
    using that t1(3) memset0_slot [OF t2 that] by (simp add: t_def)
  let ?v = "v\<lparr>v_vector := Some t, v_stack_vector := False, v_alloc_len := ?n\<rparr>"
  have "cf_vector_resize (Some g) v (v_len v * 2) = Some (0, ?v)"
    using t1(1) t2 un ua ud unfolding cf_vector_resize_def Let_def grown_def [symmetric]
    by (simp add: t_def)
  moreover have "cf_vector_held ?v" using held lt g by (simp add: cf_vector_held_def cf_vector_ok_def)
  moreover have "cf_vector_elems ?v = cf_vector_elems v"
    using st full by (simp add: cf_vector_elems_def cf_vector_elem_def)
  ultimately show ?thesis using g(1) by simp
qed

lemma cf_vector_append_lockfree_ok:
  assumes held: "cf_vector_held v" and lim: "unat (v_len v) < cf_vector_limit v"
    and x: "cf_vector_fits v x"
  shows "\<exists>v'. cf_vector_append_lockfree (Some g) v x = Some (0, v') \<and> cf_vector_held v' \<and>
    cf_vector_elems v' = cf_vector_elems v @ [x] \<and> v_value_len v' = v_value_len v \<and>
    v_flags v' = v_flags v"
proof -
  have le: "unat (v_len v) \<le> unat (v_alloc_len v)"
    using held by (simp add: cf_vector_held_def cf_vector_ok_def)
  have "\<exists>v1. (if v_len v \<ge> v_alloc_len v then cf_vector_resize (Some g) v (v_len v * 2) else Some (0, v))
      = Some (0, v1) \<and> cf_vector_held v1 \<and> cf_vector_elems v1 = cf_vector_elems v \<and>
      unat (v_len v1) < unat (v_alloc_len v1) \<and> v_len v1 = v_len v \<and>
      v_value_len v1 = v_value_len v \<and> v_flags v1 = v_flags v"
  proof (cases "v_alloc_len v \<le> v_len v")
    case True
    then have "v_len v = v_alloc_len v" using le by (simp add: word_le_nat_alt word_unat_eq_iff)
    from cf_vector_resize_ok [OF held this lim, of g] True show ?thesis by simp
  next
    case False
    then show ?thesis using held by (simp add: word_le_nat_alt)
  qed
  then obtain v1 where v1: "(if v_len v \<ge> v_alloc_len v then cf_vector_resize (Some g) v (v_len v * 2)
      else Some (0, v)) = Some (0, v1)" "cf_vector_held v1" "cf_vector_elems v1 = cf_vector_elems v"
    "unat (v_len v1) < unat (v_alloc_len v1)" "v_len v1 = v_len v" "v_value_len v1 = v_value_len v"
    "v_flags v1 = v_flags v" by blast
  let ?l = "unat (v_value_len v1)" and ?n = "unat (v_len v1)"
  have ok: "cf_vector_ok v1" and ne: "v_alloc_len v1 \<noteq> 0"
    using v1 by (auto simp: cf_vector_held_def)
  from cf_vector_okE [OF ok ne] obtain bs where bs: "v_vector v1 = Some bs"
    "unat (v_alloc_len v1) * ?l \<le> length bs" "unat (v_alloc_len v1) * ?l < 2 ^ 32" by blast
  have lx: "length x = ?l" using x v1(6) by (simp add: cf_vector_fits_def)
  have off: "unat (v_len v1 * v_value_len v1) = ?n * ?l"
    using v1(4) bs(3) by (intro vector_offset [of _ "v_alloc_len v1"]) simp_all
  have n: "unat (v_len v1 + 1) = ?n + 1"
    using v1(4) by (intro unat_inc [of _ "v_alloc_len v1"]) (simp add: word_less_nat_alt)
  let ?bs = "put_slot ?l bs ?n x"
  have lb: "length ?bs = length bs" by (rule put_slot_length [OF v1(4) bs(2) lx])
  have nA: "unat (v_len v1 + 1) \<le> unat (v_alloc_len v1)" using n v1(4) by simp
  note up = cf_vector_update [OF v1(2) bs(1) lb nA]
  have "cf_vector_append_lockfree (Some g) v x
      = Some (0, v1\<lparr>v_vector := Some ?bs, v_len := v_len v1 + 1\<rparr>)"
    using v1(1) bs lx store_slot [OF v1(4) bs(2) lx]
    by (simp add: cf_vector_append_lockfree_def off mem_simps)
  moreover have "map (slot ?l ?bs) [0..<unat (v_len v1 + 1)] = cf_vector_elems v1 @ [x]"
    using n slot_put_slot [OF v1(4) bs(2) lx] bs(1)
    by (simp add: cf_vector_elems_def cf_vector_elem_def)
  ultimately show ?thesis using up v1 by auto
qed

lemma vector_limit_cong:
  "v_value_len v' = v_value_len v \<Longrightarrow>
     cf_vector_limit v' = cf_vector_limit v \<and> cf_vector_fits v' = cf_vector_fits v"
  by (simp add: cf_vector_limit_def cf_vector_fits_def fun_eq_iff)

lemma cf_vector_append_ok:
  assumes inv: "cf_vector_inv v" and lim: "unat (v_len v) < cf_vector_limit v"
    and x: "cf_vector_fits v x"
  shows "\<exists>v'. cf_vector_append (Some g) v x = Some (0, v') \<and> cf_vector_inv v' \<and>
    cf_vector_elems v' = cf_vector_elems v @ [x] \<and> v_value_len v' = v_value_len v"
proof -
  from VECTOR_LOCK_ok [OF inv] obtain v1 where v1: "VECTOR_LOCK v = Some v1" "cf_vector_held v1"
    "cf_vector_elems v1 = cf_vector_elems v" "v_value_len v1 = v_value_len v" "v_len v1 = v_len v"
    by blast
  have "unat (v_len v1) < cf_vector_limit v1" "cf_vector_fits v1 x"
    using lim x v1 vector_limit_cong [OF v1(4)] by simp_all
  from cf_vector_append_lockfree_ok [OF v1(2) this, of g] v1 obtain v2 where
    "cf_vector_append_lockfree (Some g) v1 x = Some (0, v2)" "cf_vector_held v2"
    "cf_vector_elems v2 = cf_vector_elems v @ [x]" "v_value_len v2 = v_value_len v" by auto
  with v1(1) VECTOR_UNLOCK_ok show ?thesis by (simp add: cf_vector_append_def)
qed

lemma vector_search_ok:
  assumes "(m + n) * l \<le> length bs" and "length x = l"
  shows "vector_search (Some bs) l x (m * l) n = Some (x \<in> slot l bs ` {m..<m + n})"
  using assms(1)
proof (induction n arbitrary: m)
  case 0
  then show ?case by simp
next
  case (Suc n)
  have "load bs (m * l) l = Some (slot l bs m)" using Suc.prems by (intro load_slot [of m "m + Suc n"]) auto
  moreover have "load x 0 l = Some x" using assms(2) by (simp add: load_def)
  moreover have "vector_search (Some bs) l x (m * l + l) n = Some (x \<in> slot l bs ` {m + 1..<m + 1 + n})"
    using Suc.IH [of "m + 1"] Suc.prems by (simp add: algebra_simps)
  moreover have "{m..<m + Suc n} = insert m {m + 1..<m + 1 + n}" by auto
  ultimately show ?case by auto
qed

lemma cf_vector_search_elems:
  assumes "cf_vector_ok v" and "cf_vector_fits v x"
  shows "vector_search (v_vector v) (unat (v_value_len v)) x 0 (unat (v_len v))
    = Some (x \<in> set (cf_vector_elems v))"
proof (cases "v_vector v")
  case None
  then have "unat (v_len v) = 0" using assms(1) None by (auto simp: cf_vector_ok_def)
  then show ?thesis using None by (simp add: cf_vector_elems_def)
next
  case (Some bs)
  let ?l = "unat (v_value_len v)"
  have "unat (v_len v) * ?l \<le> unat (v_alloc_len v) * ?l"
    using assms(1) by (intro mult_le_mono1) (simp add: cf_vector_ok_def)
  also have "\<dots> \<le> length bs" using assms(1) Some by (simp add: cf_vector_ok_def)
  finally have "vector_search (Some bs) ?l x (0 * ?l) (unat (v_len v))
      = Some (x \<in> slot ?l bs ` {0..<0 + unat (v_len v)})"
    using assms(2) by (intro vector_search_ok) (simp_all add: cf_vector_fits_def)
  then show ?thesis using Some by (simp add: cf_vector_elems_def cf_vector_elem_def)
qed

lemma cf_vector_append_unique_ok:
  assumes inv: "cf_vector_inv v" and lim: "unat (v_len v) < cf_vector_limit v"
    and x: "cf_vector_fits v x"
  shows "\<exists>v'. cf_vector_append_unique (Some g) v x = Some (0, v') \<and> cf_vector_inv v' \<and>
    cf_vector_elems v' = (if x \<in> set (cf_vector_elems v) then cf_vector_elems v
                          else cf_vector_elems v @ [x])"
proof -
  from VECTOR_LOCK_ok [OF inv] obtain v1 where v1: "VECTOR_LOCK v = Some v1" "cf_vector_held v1"
    "cf_vector_elems v1 = cf_vector_elems v" "v_value_len v1 = v_value_len v" "v_len v1 = v_len v"
    by blast
  have f: "unat (v_len v1) < cf_vector_limit v1" "cf_vector_fits v1 x" "cf_vector_ok v1"
    using lim x v1 vector_limit_cong [OF v1(4)] by (simp_all add: cf_vector_held_def)
  note s = cf_vector_search_elems [OF f(3,2)]
  show ?thesis
  proof (cases "x \<in> set (cf_vector_elems v)")
    case True
    then show ?thesis using v1 s VECTOR_UNLOCK_ok by (simp add: cf_vector_append_unique_def)
  next
    case False
    from cf_vector_append_lockfree_ok [OF v1(2) f(1,2), of g] v1 obtain v2 where
      "cf_vector_append_lockfree (Some g) v1 x = Some (0, v2)" "cf_vector_held v2"
      "cf_vector_elems v2 = cf_vector_elems v @ [x]" by auto
    with v1 s False VECTOR_UNLOCK_ok show ?thesis by (simp add: cf_vector_append_unique_def)
  qed
qed

subsection \<open>Deletion\<close>

text \<open>Both deletions close the gap \<open>s..<t\<close> by moving the elements from \<open>t\<close> on to \<open>s\<close>.\<close>

lemma closed_gap:
  assumes "s \<le> t" and "t \<le> n" and "n \<le> m" and "m * l \<le> length bs"
  shows "map (slot l (move_slots l bs s t (n - t))) [0..<n - (t - s)]
    = take s (map (slot l bs) [0..<n]) @ drop t (map (slot l bs) [0..<n])"
proof -
  have mv: "t + (n - t) \<le> m" "s + (n - t) \<le> m" using assms by simp_all
  show ?thesis
    using assms by (intro nth_equalityI) (auto simp: slot_move_slots [OF mv assms(4)] nth_append)
qed

lemma vector_close_gap:
  fixes s t :: u32
  assumes held: "cf_vector_held v" and st: "unat s \<le> unat t" "unat t < unat (v_len v)"
  defines "l \<equiv> unat (v_value_len v)" and "n \<equiv> unat (v_len v)"
  shows "\<exists>bs. v_vector v = Some bs \<and>
    memmove bs (unat (s * v_value_len v)) (unat (t * v_value_len v))
      (unat ((v_len v - t) * v_value_len v)) = Some (move_slots l bs (unat s) (unat t) (n - unat t)) \<and>
    length (move_slots l bs (unat s) (unat t) (n - unat t)) = length bs \<and>
    map (slot l (move_slots l bs (unat s) (unat t) (n - unat t))) [0..<n - (unat t - unat s)]
      = take (unat s) (cf_vector_elems v) @ drop (unat t) (cf_vector_elems v)"
proof -
  have ok: "cf_vector_ok v" using held by (simp add: cf_vector_held_def)
  then have ne: "v_alloc_len v \<noteq> 0" using st by (auto simp: cf_vector_ok_def)
  from cf_vector_okE [OF ok ne] obtain bs where bs: "v_vector v = Some bs"
    "unat (v_alloc_len v) * l \<le> length bs" "n \<le> unat (v_alloc_len v)"
    "unat (v_alloc_len v) * l < 2 ^ 32" unfolding l_def n_def by blast
  have off: "unat (i * v_value_len v) = unat i * l" if "unat i \<le> unat (v_alloc_len v)" for i
    using that bs(4) unfolding l_def by (rule vector_offset)
  have d: "unat (v_len v - t) = n - unat t"
    using st by (simp add: unat_minus_le word_le_nat_alt n_def)
  have mv: "unat t + (n - unat t) \<le> unat (v_alloc_len v)" "unat s + (n - unat t) \<le> unat (v_alloc_len v)"
    using st bs(3) by (simp_all add: n_def)
  have "memmove bs (unat (s * v_value_len v)) (unat (t * v_value_len v))
      (unat ((v_len v - t) * v_value_len v)) = Some (move_slots l bs (unat s) (unat t) (n - unat t))"
    using memmove_slots [OF mv bs(2)] off st bs(3) d by (simp add: n_def)
  moreover have "map (slot l (move_slots l bs (unat s) (unat t) (n - unat t))) [0..<n - (unat t - unat s)]
      = take (unat s) (map (slot l bs) [0..<n]) @ drop (unat t) (map (slot l bs) [0..<n])"
    using st bs(2,3) by (intro closed_gap [of _ _ _ "unat (v_alloc_len v)"]) (simp_all add: n_def)
  moreover have "cf_vector_elems v = map (slot l bs) [0..<n]"
    using bs(1) by (simp add: cf_vector_elems_def cf_vector_elem_def l_def n_def)
  ultimately show ?thesis using bs(1) move_slots_length [OF mv bs(2)] by simp
qed

lemma cf_vector_shrink:
  assumes "cf_vector_held v" and "unat n \<le> unat (v_len v)"
  shows "cf_vector_held (v\<lparr>v_len := n\<rparr>)"
    and "cf_vector_elems (v\<lparr>v_len := n\<rparr>) = take (unat n) (cf_vector_elems v)"
  using assms
  by (simp_all add: cf_vector_held_def cf_vector_ok_def cf_vector_elems_def cf_vector_elem_def
      take_map split: option.splits)

lemma cf_vector_delete_ok:
  assumes inv: "cf_vector_inv v" and i: "i < v_len v"
  shows "\<exists>v'. cf_vector_delete v i = Some (0, v') \<and> cf_vector_inv v' \<and>
    cf_vector_elems v' = drop_nth (unat i) (cf_vector_elems v)"
proof -
  from VECTOR_LOCK_ok [OF inv] obtain v1 where v1: "VECTOR_LOCK v = Some v1" "cf_vector_held v1"
    "cf_vector_elems v1 = cf_vector_elems v" "v_len v1 = v_len v" by blast
  let ?n = "unat (v_len v)"
  have iu: "unat i < ?n" using i by (simp add: word_less_nat_alt)
  have i1: "unat (i + 1) = unat i + 1" using i by (rule unat_inc)
  have n1: "unat (v_len v - 1) = ?n - 1" using iu by (intro unat_dec) auto
  have eq: "i = v_len v - 1 \<longleftrightarrow> Suc (unat i) = ?n" using n1 iu by (auto simp: word_unat_eq_iff)
  show ?thesis
  proof (cases "i = v_len v - 1")
    case True
    note sh = cf_vector_shrink [OF v1(2), of "v_len v - 1"]
    have "cf_vector_delete v i = Some (0, VECTOR_UNLOCK (v1\<lparr>v_len := v_len v - 1\<rparr>))"
      using v1(1,4) i True by (simp add: cf_vector_delete_def linorder_not_le)
    moreover have "drop_nth (unat i) (cf_vector_elems v) = take (unat i) (cf_vector_elems v)"
      using True eq by (simp add: drop_nth_def)
    ultimately show ?thesis using sh VECTOR_UNLOCK_ok n1 v1(3,4) True by simp
  next
    case False
    then have lt: "unat (i + 1) < unat (v_len v1)" using eq iu i1 v1(4) by simp
    from vector_close_gap [OF v1(2) _ lt, of i] i1 obtain bs where bs: "v_vector v1 = Some bs"
      "memmove bs (unat (i * v_value_len v1)) (unat ((i + 1) * v_value_len v1))
         (unat ((v_len v1 - (i + 1)) * v_value_len v1))
         = Some (move_slots (unat (v_value_len v1)) bs (unat i) (unat (i + 1)) (?n - unat (i + 1)))"
      "length (move_slots (unat (v_value_len v1)) bs (unat i) (unat (i + 1)) (?n - unat (i + 1))) = length bs"
      "map (slot (unat (v_value_len v1)) (move_slots (unat (v_value_len v1)) bs (unat i) (unat (i + 1))
          (?n - unat (i + 1)))) [0..<?n - (unat (i + 1) - unat i)]
         = take (unat i) (cf_vector_elems v) @ drop (unat (i + 1)) (cf_vector_elems v)"
      by (auto simp: v1(3,4))
    let ?bs = "move_slots (unat (v_value_len v1)) bs (unat i) (unat (i + 1)) (?n - unat (i + 1))"
    have nA: "unat (v_len v - 1) \<le> unat (v_alloc_len v1)"
      using v1(2,4) n1 by (auto simp: cf_vector_held_def cf_vector_ok_def)
    note up = cf_vector_update [OF v1(2) bs(1,3) nA]
    have "cf_vector_delete v i = Some (0, VECTOR_UNLOCK (v1\<lparr>v_vector := Some ?bs, v_len := v_len v - 1\<rparr>))"
      using v1(1,4) i False bs(1,2) by (simp add: cf_vector_delete_def linorder_not_le)
    then show ?thesis using up VECTOR_UNLOCK_ok bs(4) n1 i1 by (simp add: drop_nth_def)
  qed
qed

lemma cf_vector_delete_range_ok:
  assumes inv: "cf_vector_inv v" and st: "s < t" "t < v_len v"
  shows "\<exists>v'. cf_vector_delete_range v s t = Some (0, v') \<and> cf_vector_inv v' \<and>
    cf_vector_elems v' = take (unat s) (cf_vector_elems v) @ drop (unat t + 1) (cf_vector_elems v)"
proof -
  from VECTOR_LOCK_ok [OF inv] obtain v1 where v1: "VECTOR_LOCK v = Some v1" "cf_vector_held v1"
    "cf_vector_elems v1 = cf_vector_elems v" "v_len v1 = v_len v" by blast
  let ?n = "unat (v_len v)"
  have u: "unat s < unat t" "unat t < ?n" using st by (simp_all add: word_less_nat_alt)
  have t1: "unat (t + 1) = unat t + 1" using st(2) by (rule unat_inc)
  have n1: "unat (v_len v - 1) = ?n - 1" using u by (intro unat_dec) auto
  have eq: "t = v_len v - 1 \<longleftrightarrow> Suc (unat t) = ?n" using n1 u by (auto simp: word_unat_eq_iff)
  have d: "unat (t - s) = unat t - unat s" using u by (simp add: unat_minus_le word_le_nat_alt)
  then have d1: "unat (t - s + 1) = unat t - unat s + 1"
    using u unat_bound [of "v_len v"] by (subst unat_plus_small) simp_all
  have n': "unat (v_len v - (t - s + 1)) = ?n - (unat t - unat s + 1)"
    using u d1 by (subst unat_minus_le) (simp_all add: word_le_nat_alt)
  have g: "\<not> t \<le> s" "\<not> v_len v \<le> s" "\<not> v_len v \<le> t" using st by auto
  show ?thesis
  proof (cases "t = v_len v - 1")
    case True
    note sh = cf_vector_shrink [OF v1(2), of "v_len v - (t - s + 1)"]
    have "cf_vector_delete_range v s t = Some (0, VECTOR_UNLOCK (v1\<lparr>v_len := v_len v - (t - s + 1)\<rparr>))"
      using v1(1,4) g True by (simp add: cf_vector_delete_range_def)
    moreover have "?n - (unat t - unat s + 1) = unat s" using True eq u by simp
    ultimately show ?thesis using sh VECTOR_UNLOCK_ok n' v1(3,4) True eq by simp
  next
    case False
    then have lt: "unat (t + 1) < unat (v_len v1)" using eq u t1 v1(4) by simp
    from vector_close_gap [OF v1(2) _ lt, of s] t1 u obtain bs where bs: "v_vector v1 = Some bs"
      "memmove bs (unat (s * v_value_len v1)) (unat ((t + 1) * v_value_len v1))
         (unat ((v_len v1 - (t + 1)) * v_value_len v1))
         = Some (move_slots (unat (v_value_len v1)) bs (unat s) (unat (t + 1)) (?n - unat (t + 1)))"
      "length (move_slots (unat (v_value_len v1)) bs (unat s) (unat (t + 1)) (?n - unat (t + 1))) = length bs"
      "map (slot (unat (v_value_len v1)) (move_slots (unat (v_value_len v1)) bs (unat s) (unat (t + 1))
          (?n - unat (t + 1)))) [0..<?n - (unat (t + 1) - unat s)]
         = take (unat s) (cf_vector_elems v) @ drop (unat (t + 1)) (cf_vector_elems v)"
      by (auto simp: v1(3,4))
    let ?bs = "move_slots (unat (v_value_len v1)) bs (unat s) (unat (t + 1)) (?n - unat (t + 1))"
    have nA: "unat (v_len v - (t - s + 1)) \<le> unat (v_alloc_len v1)"
      using v1(2,4) n' by (auto simp: cf_vector_held_def cf_vector_ok_def)
    note up = cf_vector_update [OF v1(2) bs(1,3) nA]
    have "cf_vector_delete_range v s t
        = Some (0, VECTOR_UNLOCK (v1\<lparr>v_vector := Some ?bs, v_len := v_len v - (t - s + 1)\<rparr>))"
      using v1(1,4) g False bs(1,2) by (simp add: cf_vector_delete_range_def)
    moreover have "?n - (unat t - unat s + 1) = ?n - (unat (t + 1) - unat s)" using t1 u by simp
    ultimately show ?thesis using up VECTOR_UNLOCK_ok bs(4) n' t1 by simp
  qed
qed

subsection \<open>The vector as a growing array\<close>

definition vector_app :: "(nat \<Rightarrow> u8) \<Rightarrow> block \<Rightarrow> cf_vector \<Rightarrow> cf_vector option" where
  "vector_app g x v = do { (rv, v') \<leftarrow> cf_vector_append (Some g) v x; if rv = 0 then Some v' else None }"

definition vector_get :: "nat \<Rightarrow> cf_vector \<Rightarrow> block option" where
  "vector_get i v = do { (rv, x, v') \<leftarrow> cf_vector_get v (word_of_nat i); x }"

interpretation vec: array_list cf_vector_inv cf_vector_elems cf_vector_fits cf_vector_limit
  "vector_app g" vector_get for g
proof (unfold_locales, goal_cases)
  case (1 v x)
  then have "unat (v_len v) < cf_vector_limit v" by simp
  from cf_vector_append_ok [OF 1(1) this 1(2), of g] obtain v' where v':
    "cf_vector_append (Some g) v x = Some (0, v')" "cf_vector_inv v'"
    "cf_vector_elems v' = cf_vector_elems v @ [x]" "v_value_len v' = v_value_len v" by blast
  with vector_limit_cong [OF v'(4)] show ?case by (simp add: vector_app_def)
next
  case (2 v i)
  then have i: "i < unat (v_len v)" by simp
  then have "i < 2 ^ 32" using unat_bound [of "v_len v"] by simp
  then have "unat (word_of_nat i :: u32) = i" by (simp add: unat_of_nat)
  with cf_vector_get_ok [OF 2(1), of "word_of_nat i"] i show ?case by (auto simp: vector_get_def)
qed

lemma cf_vector_create_ok:
  assumes "unat init_sz * unat value_len < 2 ^ 32"
  shows "\<exists>v. cf_vector_create (Some g) (Some h) value_len init_sz fl = Some (Some v) \<and>
    cf_vector_inv v \<and> cf_vector_elems v = [] \<and> v_value_len v = value_len \<and> v_flags v = fl"
proof -
  have u: "unat (init_sz * value_len) = unat init_sz * unat value_len"
    using assms by (intro vector_offset [of _ init_sz]) simp_all
  show ?thesis
  proof (cases "init_sz = 0")
    case True
    then show ?thesis
      by (simp add: cf_vector_create_def vector_initzero_def cf_vector_inv_def cf_vector_ok_def
          cf_vector_elems_def)
  next
    case False
    then show ?thesis using u assms
      by (simp add: cf_vector_create_def vector_initzero_def cf_vector_inv_def cf_vector_ok_def
          cf_vector_elems_def memset0_def)
  qed
qed

subsection \<open>An index out of range, and compaction\<close>

lemma cf_vector_leak:
  assumes "cf_vector_inv v" and "has_flag (v_flags v) VECTOR_FLAG_BIGLOCK"
  shows "v_alloc_len v \<le> i \<Longrightarrow> cf_vector_get v i = Some (- 1, None, v\<lparr>v_locked := True\<rparr>)"
    and "v_alloc_len v \<le> i \<Longrightarrow> cf_vector_set v i x = Some (- 1, v\<lparr>v_locked := True\<rparr>)"
    and "v_alloc_len v \<le> i \<Longrightarrow> cf_vector_getp v i = Some (None, v\<lparr>v_locked := True\<rparr>)"
    and "v_len v \<le> i \<Longrightarrow> cf_vector_delete v i = Some (- 1, v\<lparr>v_locked := True\<rparr>)"
    and "v_len v \<le> j \<Longrightarrow> cf_vector_delete_range v i j = Some (- 1, v\<lparr>v_locked := True\<rparr>)"
    and "cf_vector_append e (v\<lparr>v_locked := True\<rparr>) x = None"
    and "cf_vector_get (v\<lparr>v_locked := True\<rparr>) i = None"
  using assms
  by (auto simp: cf_vector_inv_def cf_vector_get_def cf_vector_set_def cf_vector_getp_def
      cf_vector_delete_def cf_vector_delete_range_def cf_vector_append_def VECTOR_LOCK_def)

lemma cf_vector_compact_faults:
  assumes inv: "cf_vector_inv v" and st: "\<not> v_stack_vector v"
    and len: "0 < unat (v_len v)" "unat (v_len v) < unat (v_alloc_len v)"
    and short: "unat (v_alloc_len v) < unat (v_value_len v)"
  shows "\<exists>v'. cf_vector_compact (Some g) v = Some v' \<and> v_len v' = v_len v \<and>
    cf_vector_get v' (v_len v - 1) = None"
proof -
  let ?l = "unat (v_value_len v)" and ?n = "unat (v_len v)" and ?A = "unat (v_alloc_len v)"
  from VECTOR_LOCK_ok [OF inv] obtain v1 where v1: "VECTOR_LOCK v = Some v1" "cf_vector_held v1"
    "v_value_len v1 = v_value_len v" "v_len v1 = v_len v"
    "v_alloc_len v1 = v_alloc_len v" "v_vector v1 = v_vector v" "v_stack_vector v1 = v_stack_vector v"
    by blast
  have ok: "cf_vector_ok v" and ne: "v_alloc_len v \<noteq> 0"
    using inv len by (auto simp: cf_vector_inv_def)
  from cf_vector_okE [OF ok ne] obtain bs where bs: "v_vector v = Some bs"
    "?A * ?l \<le> length bs" "?A * ?l < 2 ^ 32" by blast
  have "?n * ?A \<le> ?A * ?l" using len short by (simp add: mult.commute mult_le_mono)
  then have nA: "unat (v_len v * v_alloc_len v) = ?n * ?A"
    using le_less_trans [OF _ bs(3)] by (simp add: unat_word_ariths)
  let ?v = "v1\<lparr>v_vector := realloc (Some g) bs (?n * ?A), v_alloc_len := v_len v\<rparr>"
  have ne2: "v_len v \<noteq> v_alloc_len v" using len by auto
  have c: "cf_vector_compact (Some g) v = Some (VECTOR_UNLOCK ?v)"
    using v1 ne ne2 st nA bs(1) by (simp add: cf_vector_compact_def)
  have n1: "unat (v_len v - 1) = ?n - 1" using len by (intro unat_dec) auto
  have off: "unat ((v_len v - 1) * v_value_len v) = (?n - 1) * ?l"
    using n1 len bs(3) by (subst vector_offset [of _ "v_alloc_len v"]) simp_all
  have "?n * ?A < ?n * ?l" using len(1) short by simp
  also have "?n * ?l = (?n - 1) * ?l + ?l" using len(1) by (cases ?n) simp_all
  finally have "load (the (realloc (Some g) bs (?n * ?A))) ((?n - 1) * ?l) ?l = None"
    by (simp add: load_def)
  moreover have "\<not> v_len v \<le> v_len v - 1" using n1 len by (simp add: word_le_nat_alt)
  ultimately have "cf_vector_get (VECTOR_UNLOCK ?v) (v_len v - 1) = None"
    using v1 off by (simp add: cf_vector_get_def VECTOR_LOCK_def VECTOR_UNLOCK_def)
  with c v1 show ?thesis by (auto simp: VECTOR_UNLOCK_def)
qed

subsection \<open>Properties\<close>

definition sample_vector :: "u32 \<Rightarrow> cf_vector" where
  "sample_vector fl = \<lparr>v_value_len = 4, v_flags = fl, v_alloc_len = 3, v_len = 2,
     v_vector = Some [1, 1, 1, 1, 2, 2, 2, 2, 0, 0, 0, 0], v_stack_struct = False,
     v_stack_vector = False, v_locked = False\<rparr>"

lemma sample_vector_inv: "cf_vector_inv (sample_vector fl)"
  by (simp add: cf_vector_inv_def cf_vector_ok_def sample_vector_def)

lemma sample_vector_elems: "cf_vector_elems (sample_vector 1) = [[1, 1, 1, 1], [2, 2, 2, 2]]"
  by code_simp

text \<open>
  C36: the elements appended to a created vector, whatever the initial size and the flags, are
  read back by their index, through all the reallocations that the appends cause.
\<close>
theorem vector_append_get:
  assumes "unat init_sz * unat value_len < 2 ^ 32" and "50 * unat value_len < 2 ^ 32"
    and "2 * unat value_len * length xs < 2 ^ 32" and "length xs < 2 ^ 31"
    and "\<forall>x \<in> set xs. length x = unat value_len"
  shows "\<exists>v v'. cf_vector_create (Some g) (Some h) value_len init_sz fl = Some (Some v) \<and>
    append_all (vector_app k) xs v = Some v' \<and> collect vector_get [0..<length xs] v' = Some xs"
proof -
  from cf_vector_create_ok [OF assms(1), of g h fl] obtain v where
    v: "cf_vector_create (Some g) (Some h) value_len init_sz fl = Some (Some v)"
    "cf_vector_inv v" "cf_vector_elems v = []" "v_value_len v = value_len" by blast
  have "length xs \<le> cf_vector_limit v"
    using assms(2-4) v(4) by (auto simp: cf_vector_limit_def less_eq_div_iff_mult_less_eq unat_gt_0 mult.commute)
  with vec.append_all_collect [OF v(2,3), of xs k] assms(5) v show ?thesis
    by (auto simp: cf_vector_fits_def)
qed

theorem vector_append_get_witness:
  "\<exists>v v'. cf_vector_create (Some (\<lambda>_. 0)) (Some (\<lambda>_. 7)) 2 1 3 = Some (Some v) \<and>
    append_all (vector_app (\<lambda>_. 9)) [[1, 2], [3, 4], [5, 6]] v = Some v' \<and>
    collect vector_get [0..<length [[1, 2], [3, 4], [5, 6 :: u8]]] v' = Some [[1, 2], [3, 4], [5, 6]]"
  by (rule vector_append_get) simp_all

text \<open>
  C30: \<open>cf_vector_delete_range\<close> removes exactly the elements from the first to the last index
  given, the last one included, and keeps the others in order.
\<close>
theorem vector_delete_range_spec:
  assumes "cf_vector_inv v" and "s < t" and "t < v_len v"
  shows "\<exists>v'. cf_vector_delete_range v s t = Some (0, v') \<and> cf_vector_inv v' \<and>
    cf_vector_elems v' = take (unat s) (cf_vector_elems v) @ drop (unat t + 1) (cf_vector_elems v)"
  using assms by (rule cf_vector_delete_range_ok)

theorem vector_delete_range_spec_witness:
  "\<exists>v'. cf_vector_delete_range (sample_vector 1) 0 1 = Some (0, v') \<and> cf_vector_inv v' \<and>
    cf_vector_elems v' = take (unat (0 :: u32)) (cf_vector_elems (sample_vector 1))
      @ drop (unat (1 :: u32) + 1) (cf_vector_elems (sample_vector 1))"
  by (rule vector_delete_range_spec) (simp_all add: sample_vector_inv, simp add: sample_vector_def)

text \<open>
  C11: \<open>cf_vector_append_unique\<close> adds the element only when the vector does not hold it.
\<close>
theorem vector_append_unique_spec:
  assumes "cf_vector_inv v" and "unat (v_len v) < cf_vector_limit v" and "cf_vector_fits v x"
  shows "\<exists>v'. cf_vector_append_unique (Some g) v x = Some (0, v') \<and> cf_vector_inv v' \<and>
    cf_vector_elems v' = (if x \<in> set (cf_vector_elems v) then cf_vector_elems v
                          else cf_vector_elems v @ [x])"
  using assms by (rule cf_vector_append_unique_ok)

theorem vector_append_unique_spec_witness:
  "\<exists>v'. cf_vector_append_unique (Some (\<lambda>_. 0)) (sample_vector 1) [2, 2, 2, 2] = Some (0, v') \<and>
    cf_vector_inv v' \<and> cf_vector_elems v' = [[1, 1, 1, 1], [2, 2, 2, 2]]"
  using vector_append_unique_spec [of "sample_vector 1" "[2, 2, 2, 2]" "\<lambda>_. 0"]
  by (simp add: sample_vector_inv sample_vector_elems)
    (simp add: sample_vector_def cf_vector_limit_def cf_vector_fits_def)

text \<open>
  C31: on a vector with a lock, \<open>cf_vector_get\<close> and \<open>cf_vector_delete\<close> return their error for an
  index out of range with the lock held, so that the thread's next append never returns.
\<close>
theorem vector_error_keeps_lock:
  assumes "cf_vector_inv v" and "has_flag (v_flags v) VECTOR_FLAG_BIGLOCK" and "v_alloc_len v \<le> i"
  shows "\<exists>v'. cf_vector_get v i = Some (- 1, None, v') \<and> cf_vector_delete v i = Some (- 1, v') \<and>
    cf_vector_append e v' x = None"
proof -
  have "v_len v \<le> i"
    using assms(1,3) by (auto simp: cf_vector_inv_def cf_vector_ok_def word_le_nat_alt)
  with cf_vector_leak [OF assms(1,2)] assms(3) show ?thesis by blast
qed

theorem vector_error_keeps_lock_witness:
  "\<exists>v'. cf_vector_get (sample_vector 1) 3 = Some (- 1, None, v') \<and>
    cf_vector_delete (sample_vector 1) 3 = Some (- 1, v') \<and>
    cf_vector_append None v' [0, 0, 0, 0] = None"
  by (rule vector_error_keeps_lock)
    (simp_all add: sample_vector_inv has_flag_def VECTOR_FLAG_BIGLOCK_def, simp_all add: sample_vector_def)

text \<open>
  C13: \<open>cf_vector_compact\<close> sizes the new block by \<open>len * alloc_len\<close> bytes. When the allocated
  length is smaller than the size of an element, the last element is outside of the block
  afterwards, and the next \<open>cf_vector_get\<close> of it reads out of bounds.
\<close>
theorem vector_compact_truncates:
  assumes "cf_vector_inv v" and "\<not> v_stack_vector v"
    and "0 < unat (v_len v)" and "unat (v_len v) < unat (v_alloc_len v)"
    and "unat (v_alloc_len v) < unat (v_value_len v)"
  shows "\<exists>v'. cf_vector_compact (Some g) v = Some v' \<and> v_len v' = v_len v \<and>
    cf_vector_get v' (v_len v - 1) = None"
  using assms by (rule cf_vector_compact_faults)

theorem vector_compact_truncates_witness:
  "\<exists>v'. cf_vector_compact (Some (\<lambda>_. 0)) (sample_vector 0) = Some v' \<and>
    v_len v' = v_len (sample_vector 0) \<and> cf_vector_get v' (v_len (sample_vector 0) - 1) = None"
  by (rule vector_compact_truncates) (simp_all add: sample_vector_inv, simp_all add: sample_vector_def)

end
