(* ===== verification/Cf_Ll.thy ===== *)
theory Cf_Ll
  imports Prelude
begin

section \<open>The doubly linked list (\<open>src/cf_ll.c\<close>, \<open>include/citrusleaf/cf_ll.h\<close>)\<close>

text \<open>
  An intrusive list: the caller owns the elements and the list links them through their
  \<open>next\<close> and \<open>prev\<close> fields. Elements live in a heap of their addresses; the null pointer is
  \<open>None\<close>, and to use it, or an element that is not allocated, is a fault. The destructor, when
  one is set, releases the element.

  \<open>cf_ll_list s xs\<close> says that the links of the heap represent the list of addresses \<open>xs\<close>.
  Every operation holds the lock of the list throughout, so it is one step here.
\<close>

subsection \<open>State and operations\<close>

type_synonym addr = nat

record cf_ll_element =
  ll_next :: "addr option"
  ll_prev :: "addr option"

type_synonym ll_heap = "addr \<rightharpoonup> cf_ll_element"

record cf_ll =
  ll_head :: "addr option"
  ll_tail :: "addr option"
  ll_destroy_fn :: bool
  ll_sz :: u32
  ll_uselock :: bool
  ll_heap :: ll_heap

definition CF_LL_REDUCE_DELETE :: int where "CF_LL_REDUCE_DELETE = 1"
definition CF_LL_REDUCE_INSERT :: int where "CF_LL_REDUCE_INSERT = 2"

definition deref :: "ll_heap \<Rightarrow> addr option \<Rightarrow> cf_ll_element option" where
  "deref h p = (case p of None \<Rightarrow> None | Some a \<Rightarrow> h a)"

definition set_next :: "addr option \<Rightarrow> addr option \<Rightarrow> cf_ll \<Rightarrow> cf_ll option" where
  "set_next p v ll = do {
     a \<leftarrow> p; e \<leftarrow> ll_heap ll a;
     Some (ll\<lparr>ll_heap := (ll_heap ll)(a \<mapsto> e\<lparr>ll_next := v\<rparr>)\<rparr>) }"

definition set_prev :: "addr option \<Rightarrow> addr option \<Rightarrow> cf_ll \<Rightarrow> cf_ll option" where
  "set_prev p v ll = do {
     a \<leftarrow> p; e \<leftarrow> ll_heap ll a;
     Some (ll\<lparr>ll_heap := (ll_heap ll)(a \<mapsto> e\<lparr>ll_prev := v\<rparr>)\<rparr>) }"

definition cf_ll_prepend_lockfree :: "cf_ll \<Rightarrow> addr \<Rightarrow> cf_ll option" where
  "cf_ll_prepend_lockfree ll e =
     (if ll_head ll = None then do {
        ll \<leftarrow> set_next (Some e) None (ll\<lparr>ll_head := Some e, ll_tail := Some e\<rparr>);
        ll \<leftarrow> set_prev (Some e) None ll;
        Some (ll\<lparr>ll_sz := ll_sz ll + 1\<rparr>) }
      else do {
        ll \<leftarrow> set_next (Some e) (ll_head ll) ll;
        ll \<leftarrow> set_prev (Some e) None ll;
        ll \<leftarrow> set_prev (ll_head ll) (Some e) ll;
        Some (ll\<lparr>ll_head := Some e, ll_sz := ll_sz ll + 1\<rparr>) })"

definition cf_ll_append_lockfree :: "cf_ll \<Rightarrow> addr \<Rightarrow> cf_ll option" where
  "cf_ll_append_lockfree ll e =
     (if ll_head ll = None then do {
        ll \<leftarrow> set_next (Some e) None (ll\<lparr>ll_head := Some e, ll_tail := Some e\<rparr>);
        ll \<leftarrow> set_prev (Some e) None ll;
        Some (ll\<lparr>ll_sz := ll_sz ll + 1\<rparr>) }
      else do {
        ll \<leftarrow> set_next (Some e) None ll;
        ll \<leftarrow> set_prev (Some e) (ll_tail ll) ll;
        ll \<leftarrow> set_next (ll_tail ll) (Some e) ll;
        Some (ll\<lparr>ll_tail := Some e, ll_sz := ll_sz ll + 1\<rparr>) })"

definition cf_ll_insert_after_lockfree :: "cf_ll \<Rightarrow> addr \<Rightarrow> addr \<Rightarrow> cf_ll option" where
  "cf_ll_insert_after_lockfree ll cur ins = do {
     c \<leftarrow> ll_heap ll cur;
     ll \<leftarrow> set_next (Some ins) (ll_next c) ll;
     ll \<leftarrow> set_prev (Some ins) (Some cur) ll;
     c \<leftarrow> ll_heap ll cur;
     ll \<leftarrow> (if ll_next c = None then Some (ll\<lparr>ll_tail := Some ins\<rparr>)
            else set_prev (ll_next c) (Some ins) ll);
     ll \<leftarrow> set_next (Some cur) (Some ins) ll;
     Some (ll\<lparr>ll_sz := ll_sz ll + 1\<rparr>)
   }"

definition cf_ll_insert_before_lockfree :: "cf_ll \<Rightarrow> addr \<Rightarrow> addr \<Rightarrow> cf_ll option" where
  "cf_ll_insert_before_lockfree ll cur ins = do {
     ll \<leftarrow> set_next (Some ins) (Some cur) ll;
     c \<leftarrow> ll_heap ll cur;
     ll \<leftarrow> set_prev (Some ins) (ll_prev c) ll;
     c \<leftarrow> ll_heap ll cur;
     ll \<leftarrow> (if ll_prev c = None then Some (ll\<lparr>ll_head := Some ins\<rparr>)
            else set_next (ll_prev c) (Some ins) ll);
     ll \<leftarrow> set_prev (Some cur) (Some ins) ll;
     Some (ll\<lparr>ll_sz := ll_sz ll + 1\<rparr>)
   }"

text \<open>The destructor of the list, called with the element at the end of a deletion.\<close>

definition ll_destroy :: "addr \<Rightarrow> cf_ll \<Rightarrow> cf_ll" where
  "ll_destroy e ll = (if ll_destroy_fn ll then ll\<lparr>ll_heap := (ll_heap ll)(e := None)\<rparr> else ll)"

definition cf_ll_delete_lockfree :: "cf_ll \<Rightarrow> addr \<Rightarrow> cf_ll option" where
  "cf_ll_delete_lockfree ll e = do {
     ll \<leftarrow> (if ll_sz ll = 1 then Some (ll\<lparr>ll_head := None, ll_tail := None\<rparr>)
            else do {
              c \<leftarrow> ll_heap ll e;
              if ll_head ll = Some e
              then set_prev (ll_next c) None (ll\<lparr>ll_head := ll_next c\<rparr>)
              else if ll_tail ll = Some e
              then set_next (ll_prev c) None (ll\<lparr>ll_tail := ll_prev c\<rparr>)
              else do {
                ll \<leftarrow> set_next (ll_prev c) (ll_next c) ll;
                c \<leftarrow> ll_heap ll e;
                set_prev (ll_next c) (ll_prev c) ll
              }
            });
     Some (ll_destroy e (ll\<lparr>ll_sz := ll_sz ll - 1\<rparr>))
   }"

definition cf_ll_prepend :: "cf_ll \<Rightarrow> addr \<Rightarrow> cf_ll option" where
  "cf_ll_prepend ll e = cf_ll_prepend_lockfree ll e"

definition cf_ll_append :: "cf_ll \<Rightarrow> addr \<Rightarrow> cf_ll option" where
  "cf_ll_append ll e = cf_ll_append_lockfree ll e"

definition cf_ll_insert_after :: "cf_ll \<Rightarrow> addr \<Rightarrow> addr \<Rightarrow> cf_ll option" where
  "cf_ll_insert_after ll cur ins = cf_ll_insert_after_lockfree ll cur ins"

definition cf_ll_insert_before :: "cf_ll \<Rightarrow> addr \<Rightarrow> addr \<Rightarrow> cf_ll option" where
  "cf_ll_insert_before ll cur ins = cf_ll_insert_before_lockfree ll cur ins"

definition cf_ll_delete :: "cf_ll \<Rightarrow> addr \<Rightarrow> cf_ll option" where
  "cf_ll_delete ll e = (if ll_sz ll = 0 then Some ll else cf_ll_delete_lockfree ll e)"

text \<open>
  The loops over the list follow the links of the heap, which need not end; a run that does not
  end is \<open>None\<close>, as a fault is. A callback gets the element and its user data.
\<close>

type_synonym 's ll_reduce_fn = "addr option \<Rightarrow> 's \<Rightarrow> int \<times> 's"

definition ll_step :: "bool \<Rightarrow> cf_ll_element \<Rightarrow> addr option" where
  "ll_step forward c = (if forward then ll_next c else ll_prev c)"

partial_function (option) cf_ll_reduce_loop ::
  "bool \<Rightarrow> 's ll_reduce_fn \<Rightarrow> cf_ll \<Rightarrow> addr option \<Rightarrow> int \<Rightarrow> 's \<Rightarrow> (int \<times> cf_ll \<times> 's) option" where
  "cf_ll_reduce_loop forward fn ll cur rv udata =
     (case cur of
        None \<Rightarrow> Some (rv, ll, udata)
      | Some a \<Rightarrow>
          if fst (fn cur udata) \<noteq> 0
          then if fst (fn cur udata) = CF_LL_REDUCE_DELETE
               then do {
                 c \<leftarrow> ll_heap ll a;
                 ll' \<leftarrow> cf_ll_delete_lockfree ll a;
                 cf_ll_reduce_loop forward fn ll' (ll_step forward c) (fst (fn cur udata)) (snd (fn cur udata))
               }
               else Some (fst (fn cur udata), ll, snd (fn cur udata))
          else do {
            c \<leftarrow> ll_heap ll a;
            cf_ll_reduce_loop forward fn ll (ll_step forward c) 0 (snd (fn cur udata))
          })"

definition cf_ll_reduce ::
  "cf_ll \<Rightarrow> bool \<Rightarrow> 's ll_reduce_fn \<Rightarrow> 's \<Rightarrow> (int \<times> cf_ll \<times> 's) option" where
  "cf_ll_reduce ll forward fn udata =
     cf_ll_reduce_loop forward fn ll (if forward then ll_head ll else ll_tail ll) 0 udata"

text \<open>The loop of \<open>cf_ll_insert_reduce\<close>, with the call for the end of the list.\<close>

partial_function (option) cf_ll_insert_reduce_loop ::
  "bool \<Rightarrow> 's ll_reduce_fn \<Rightarrow> cf_ll \<Rightarrow> addr \<Rightarrow> addr option \<Rightarrow> 's \<Rightarrow> (int \<times> cf_ll \<times> 's) option" where
  "cf_ll_insert_reduce_loop forward fn ll e cur udata =
     (case cur of
        None \<Rightarrow>
          if fst (fn None udata) = CF_LL_REDUCE_INSERT
          then do {
            ll' \<leftarrow> (if forward then cf_ll_append_lockfree ll e else cf_ll_prepend_lockfree ll e);
            Some (0, ll', snd (fn None udata)) }
          else Some (fst (fn None udata), ll, snd (fn None udata))
      | Some a \<Rightarrow>
          if fst (fn cur udata) \<noteq> 0
          then if fst (fn cur udata) = CF_LL_REDUCE_INSERT
               then do {
                 ll' \<leftarrow> (if forward then cf_ll_insert_before_lockfree ll a e
                         else cf_ll_insert_after_lockfree ll a e);
                 Some (0, ll', snd (fn cur udata)) }
               else Some (fst (fn cur udata), ll, snd (fn cur udata))
          else do {
            c \<leftarrow> ll_heap ll a;
            cf_ll_insert_reduce_loop forward fn ll e (ll_step forward c) (snd (fn cur udata))
          })"

definition cf_ll_insert_reduce ::
  "cf_ll \<Rightarrow> addr \<Rightarrow> bool \<Rightarrow> 's ll_reduce_fn \<Rightarrow> 's \<Rightarrow> (int \<times> cf_ll \<times> 's) option" where
  "cf_ll_insert_reduce ll e forward fn udata =
     cf_ll_insert_reduce_loop forward fn ll e (if forward then ll_head ll else ll_tail ll) udata"

definition cf_ll_size :: "cf_ll \<Rightarrow> u32" where
  "cf_ll_size ll = ll_sz ll"

definition cf_ll_get_head :: "cf_ll \<Rightarrow> addr option" where
  "cf_ll_get_head ll = ll_head ll"

definition cf_ll_get_tail :: "cf_ll \<Rightarrow> addr option" where
  "cf_ll_get_tail ll = ll_tail ll"

definition cf_ll_get_next :: "cf_ll \<Rightarrow> addr option \<Rightarrow> addr option option" where
  "cf_ll_get_next ll p = map_option ll_next (deref (ll_heap ll) p)"

definition cf_ll_get_prev :: "cf_ll \<Rightarrow> addr option \<Rightarrow> addr option option" where
  "cf_ll_get_prev ll p = map_option ll_prev (deref (ll_heap ll) p)"

definition cf_ll_init :: "ll_heap \<Rightarrow> bool \<Rightarrow> bool \<Rightarrow> int \<times> cf_ll" where
  "cf_ll_init h has_destroy_fn uselock =
     (0, \<lparr>ll_head = None, ll_tail = None, ll_destroy_fn = has_destroy_fn, ll_sz = 0,
          ll_uselock = uselock, ll_heap = h\<rparr>)"

subsection \<open>The list that the links represent\<close>

definition first_of :: "addr list \<Rightarrow> addr option \<Rightarrow> addr option" where
  "first_of xs n = (case xs of [] \<Rightarrow> n | x # _ \<Rightarrow> Some x)"

definition last_of :: "addr option \<Rightarrow> addr list \<Rightarrow> addr option" where
  "last_of p xs = (if xs = [] then p else Some (last xs))"

fun links :: "ll_heap \<Rightarrow> addr option \<Rightarrow> addr list \<Rightarrow> addr option \<Rightarrow> bool" where
  "links h p [] n = True"
| "links h p (x # xs) n =
     (h x = Some \<lparr>ll_next = first_of xs n, ll_prev = p\<rparr> \<and> links h (Some x) xs n)"

definition cf_ll_list :: "cf_ll \<Rightarrow> addr list \<Rightarrow> bool" where
  "cf_ll_list ll xs \<longleftrightarrow> distinct xs \<and> ll_head ll = first_of xs None \<and> ll_tail ll = last_of None xs \<and>
     links (ll_heap ll) None xs None \<and> ll_sz ll = word_of_nat (length xs) \<and> length xs < 2 ^ 32"

lemma first_of_simps [simp]:
  "first_of [] n = n" "first_of (x # xs) n = Some x"
  "first_of (xs @ ys) n = first_of xs (first_of ys n)"
  by (simp_all add: first_of_def split: list.split)

lemma last_of_simps [simp]:
  "last_of p [] = p" "last_of p (xs @ [x]) = Some x" "last_of p (x # xs) = last_of (Some x) xs"
  "last_of p (xs @ ys) = last_of (last_of p xs) ys"
  by (simp_all add: last_of_def)

lemma links_append [simp]:
  "links h p (xs @ ys) n \<longleftrightarrow> links h p xs (first_of ys n) \<and> links h (last_of p xs) ys n"
  by (induction xs arbitrary: p) auto

lemma links_frame [simp]: "a \<notin> set xs \<Longrightarrow> links (h(a := v)) p xs n = links h p xs n"
  by (induction xs arbitrary: p) auto

lemmas ll_defs = cf_ll_list_def set_next_def set_prev_def

lemma word_of_Suc: "(word_of_nat n :: u32) + 1 = word_of_nat (Suc n)"
  by simp

lemma first_of_None [simp]:
  "first_of xs None = None \<longleftrightarrow> xs = []" "first_of xs (Some y) \<noteq> None"
  by (cases xs; auto)+

lemma last_of_None [simp]:
  "last_of None xs = None \<longleftrightarrow> xs = []" "last_of (Some y) xs \<noteq> None"
  by (auto simp: last_of_def)

lemma cf_ll_append_lockfree_ok:
  assumes "cf_ll_list ll xs" and "e \<notin> set xs" and "ll_heap ll e \<noteq> None" and "length xs + 1 < 2 ^ 32"
  shows "\<exists>ll'. cf_ll_append_lockfree ll e = Some ll' \<and> cf_ll_list ll' (xs @ [e]) \<and>
    dom (ll_heap ll') = dom (ll_heap ll) \<and> ll_destroy_fn ll' = ll_destroy_fn ll"
proof (cases xs rule: rev_cases)
  case Nil
  then show ?thesis using assms by (auto simp: ll_defs cf_ll_append_lockfree_def)
next
  case (snoc ys y)
  then show ?thesis using assms
    by (auto simp: ll_defs cf_ll_append_lockfree_def first_of_None fun_upd_twist)
qed

lemma cf_ll_prepend_lockfree_ok:
  assumes "cf_ll_list ll xs" and "e \<notin> set xs" and "ll_heap ll e \<noteq> None" and "length xs + 1 < 2 ^ 32"
  shows "\<exists>ll'. cf_ll_prepend_lockfree ll e = Some ll' \<and> cf_ll_list ll' (e # xs) \<and>
    dom (ll_heap ll') = dom (ll_heap ll) \<and> ll_destroy_fn ll' = ll_destroy_fn ll"
proof (cases xs)
  case Nil
  then show ?thesis using assms by (auto simp: ll_defs cf_ll_prepend_lockfree_def)
next
  case (Cons y ys)
  then show ?thesis using assms
    by (auto simp: ll_defs cf_ll_prepend_lockfree_def)
qed

lemma cf_ll_insert_before_lockfree_ok:
  assumes "cf_ll_list ll (us @ c # ws)" and "e \<notin> set (us @ c # ws)" and "ll_heap ll e \<noteq> None"
    and "length (us @ c # ws) + 1 < 2 ^ 32"
  shows "\<exists>ll'. cf_ll_insert_before_lockfree ll c e = Some ll' \<and> cf_ll_list ll' (us @ e # c # ws) \<and>
    dom (ll_heap ll') = dom (ll_heap ll) \<and> ll_destroy_fn ll' = ll_destroy_fn ll"
proof (cases us rule: rev_cases)
  case Nil
  then show ?thesis using assms by (auto simp: ll_defs cf_ll_insert_before_lockfree_def)
next
  case (snoc ys y)
  then show ?thesis using assms
    by (auto simp: ll_defs cf_ll_insert_before_lockfree_def)
qed

lemma cf_ll_insert_after_lockfree_ok:
  assumes "cf_ll_list ll (us @ c # ws)" and "e \<notin> set (us @ c # ws)" and "ll_heap ll e \<noteq> None"
    and "length (us @ c # ws) + 1 < 2 ^ 32"
  shows "\<exists>ll'. cf_ll_insert_after_lockfree ll c e = Some ll' \<and> cf_ll_list ll' (us @ c # e # ws) \<and>
    dom (ll_heap ll') = dom (ll_heap ll) \<and> ll_destroy_fn ll' = ll_destroy_fn ll"
proof (cases ws)
  case Nil
  then show ?thesis using assms by (auto simp: ll_defs cf_ll_insert_after_lockfree_def)
next
  case (Cons y ys)
  then show ?thesis using assms
    by (auto simp: ll_defs cf_ll_insert_after_lockfree_def)
qed


text \<open>What the destructor, if there is one, does to the set of allocated elements.\<close>

definition released :: "cf_ll \<Rightarrow> addr set \<Rightarrow> addr set" where
  "released ll A = (if ll_destroy_fn ll then dom (ll_heap ll) - A else dom (ll_heap ll))"

lemma length_one_word:
  "length xs < 2 ^ 32 \<Longrightarrow> (word_of_nat (length xs) :: u32) = 1 \<longleftrightarrow> length xs = 1"
  by (auto simp: word_unat_eq_iff unat_of_nat)

lemma length_zero_word:
  "length xs < 2 ^ 32 \<Longrightarrow> (word_of_nat (length xs) :: u32) = 0 \<longleftrightarrow> xs = []"
  by (auto simp: word_unat_eq_iff unat_of_nat)

lemma first_of_in: "first_of xs (Some y) = Some e \<Longrightarrow> e = y \<or> e \<in> set xs"
  by (cases xs) auto

lemma last_of_in: "last_of (Some y) xs = Some e \<Longrightarrow> e = y \<or> e \<in> set xs"
  by (cases xs rule: rev_cases) auto

lemma ll_destroy_ok:
  assumes "cf_ll_list ll xs" and "e \<notin> set xs"
  shows "cf_ll_list (ll_destroy e ll) xs" and "dom (ll_heap (ll_destroy e ll)) = released ll {e}"
    and "ll_destroy_fn (ll_destroy e ll) = ll_destroy_fn ll"
  using assms by (auto simp: ll_destroy_def cf_ll_list_def released_def)

lemma cf_ll_unlink_ok:
  assumes ll: "cf_ll_list ll (us @ e # ws)"
  shows "\<exists>ll'. (if ll_sz ll = 1 then Some (ll\<lparr>ll_head := None, ll_tail := None\<rparr>)
            else do {
              c \<leftarrow> ll_heap ll e;
              if ll_head ll = Some e
              then set_prev (ll_next c) None (ll\<lparr>ll_head := ll_next c\<rparr>)
              else if ll_tail ll = Some e
              then set_next (ll_prev c) None (ll\<lparr>ll_tail := ll_prev c\<rparr>)
              else do {
                ll \<leftarrow> set_next (ll_prev c) (ll_next c) ll;
                c \<leftarrow> ll_heap ll e;
                set_prev (ll_next c) (ll_prev c) ll
              }
            }) = Some ll' \<and> cf_ll_list (ll'\<lparr>ll_sz := ll_sz ll' - 1\<rparr>) (us @ ws) \<and>
     dom (ll_heap ll') = dom (ll_heap ll) \<and> ll_destroy_fn ll' = ll_destroy_fn ll"
proof (cases "us = [] \<and> ws = []")
  case True
  then show ?thesis using ll by (simp add: cf_ll_list_def)
next
  case False
  have one: "ll_sz ll \<noteq> 1"
    using ll False length_one_word [of "us @ e # ws"] by (auto simp: cf_ll_list_def)
  consider (front) y ys where "us = []" "ws = y # ys"
    | (rear) y ys where "us = ys @ [y]" "ws = []"
    | (middle) x xs y ys where "us = xs @ [x]" "ws = y # ys"
    using False by (cases us rule: rev_cases; cases ws) auto
  then show ?thesis
  proof cases
    case front
    then show ?thesis using ll one by (auto simp: ll_defs dest: first_of_in last_of_in)
  next
    case rear
    then show ?thesis using ll one by (auto simp: ll_defs dest: first_of_in last_of_in)
  next
    case middle
    then show ?thesis using ll one by (auto simp: ll_defs dest: first_of_in last_of_in)
  qed
qed

lemma cf_ll_delete_lockfree_ok:
  assumes "cf_ll_list ll (us @ e # ws)"
  shows "\<exists>ll'. cf_ll_delete_lockfree ll e = Some ll' \<and> cf_ll_list ll' (us @ ws) \<and>
    dom (ll_heap ll') = released ll {e} \<and> ll_destroy_fn ll' = ll_destroy_fn ll"
proof -
  from cf_ll_unlink_ok [OF assms] obtain ll1 where
    "cf_ll_delete_lockfree ll e = Some (ll_destroy e (ll1\<lparr>ll_sz := ll_sz ll1 - 1\<rparr>))" and
    ll1: "cf_ll_list (ll1\<lparr>ll_sz := ll_sz ll1 - 1\<rparr>) (us @ ws)" "dom (ll_heap ll1) = dom (ll_heap ll)"
    "ll_destroy_fn ll1 = ll_destroy_fn ll"
    unfolding cf_ll_delete_lockfree_def by auto
  moreover have "e \<notin> set (us @ ws)" using assms by (auto simp: cf_ll_list_def)
  ultimately show ?thesis using ll_destroy_ok [OF ll1(1)] by (auto simp: released_def)
qed

lemma cf_ll_delete_ok:
  assumes "cf_ll_list ll (us @ e # ws)"
  shows "\<exists>ll'. cf_ll_delete ll e = Some ll' \<and> cf_ll_list ll' (us @ ws) \<and>
    dom (ll_heap ll') = released ll {e}"
proof -
  have "ll_sz ll \<noteq> 0" 
    using assms length_zero_word [of "us @ e # ws"] by (simp add: cf_ll_list_def del: length_append)
  then show ?thesis using cf_ll_delete_lockfree_ok [OF assms] by (auto simp: cf_ll_delete_def)
qed

subsection \<open>The loops\<close>

text \<open>
  \<open>xs\<close> in the order of the traversal is \<open>along forward xs\<close> in the order of the links.
\<close>

definition along :: "bool \<Rightarrow> 'a list \<Rightarrow> 'a list" where
  "along forward xs = (if forward then xs else rev xs)"

lemma along_split:
  "along forward (ds @ t # ts)
    = (if forward then ds @ t # ts else rev ts @ t # rev ds)"
  by (simp add: along_def)

lemma along_start:
  "cf_ll_list ll (along forward xs) \<Longrightarrow>
     (if forward then ll_head ll else ll_tail ll) = first_of xs None"
  by (cases xs) (auto simp: cf_ll_list_def along_def)

lemma along_step:
  assumes "cf_ll_list ll (along forward (ds @ t # ts))"
  shows "\<exists>c. ll_heap ll t = Some c \<and> ll_step forward c = first_of ts None"
  using assms by (cases ts) (auto simp: cf_ll_list_def along_split ll_step_def split: if_splits)

lemma along_delete:
  assumes "cf_ll_list ll (along forward (ds @ t # ts))"
  shows "\<exists>ll'. cf_ll_delete_lockfree ll t = Some ll' \<and> cf_ll_list ll' (along forward (ds @ ts)) \<and>
    dom (ll_heap ll') = released ll {t} \<and> ll_destroy_fn ll' = ll_destroy_fn ll"
proof (cases forward)
  case True
  then show ?thesis using assms cf_ll_delete_lockfree_ok [of ll ds t ts] by (simp add: along_def)
next
  case False
  then show ?thesis using assms cf_ll_delete_lockfree_ok [of ll "rev ts" t "rev ds"]
    by (simp add: along_def)
qed

text \<open>The pass of \<open>cf_ll_reduce\<close> on a list: the code, the elements kept and deleted, the data.\<close>

fun ll_reduce_list ::
  "'s ll_reduce_fn \<Rightarrow> int \<Rightarrow> 's \<Rightarrow> addr list \<Rightarrow> int \<times> addr list \<times> addr list \<times> 's" where
  "ll_reduce_list fn rv u [] = (rv, [], [], u)"
| "ll_reduce_list fn rv u (x # xs) =
     (let (r, u') = fn (Some x) u in
      if r = 0 then let (rv', ks, ds, u'') = ll_reduce_list fn 0 u' xs in (rv', x # ks, ds, u'')
      else if r = CF_LL_REDUCE_DELETE
      then let (rv', ks, ds, u'') = ll_reduce_list fn r u' xs in (rv', ks, x # ds, u'')
      else (r, x # xs, [], u'))"

lemma cf_ll_reduce_loop_ok:
  assumes "cf_ll_list ll (along forward (ds @ ts))"
    and "ll_reduce_list fn rv u ts = (rv', ks, rs, u')"
  shows "\<exists>ll'. cf_ll_reduce_loop forward fn ll (first_of ts None) rv u = Some (rv', ll', u') \<and>
    cf_ll_list ll' (along forward (ds @ ks)) \<and> dom (ll_heap ll') = released ll (set rs) \<and>
    ll_destroy_fn ll' = ll_destroy_fn ll"
  using assms
proof (induction ts arbitrary: ll ds rv u ks rs)
  case Nil
  then show ?case by (auto simp: cf_ll_reduce_loop.simps released_def)
next
  case (Cons t ts)
  obtain r v where f: "fn (Some t) u = (r, v)" by (cases "fn (Some t) u")
  from along_step [OF Cons.prems(1)] obtain c where
    c: "ll_heap ll t = Some c" "ll_step forward c = first_of ts None" by blast
  consider "r = 0" | "r = CF_LL_REDUCE_DELETE" "r \<noteq> 0" | "r \<noteq> 0" "r \<noteq> CF_LL_REDUCE_DELETE" by blast
  then show ?case
  proof cases
    case 1
    then show ?thesis
      using Cons.IH [of ll "ds @ [t]" 0 v "tl ks" rs] Cons.prems c f
      by (auto simp: cf_ll_reduce_loop.simps [of _ _ _ "Some t"] split: prod.splits)
  next
    case 2
    from along_delete [OF Cons.prems(1)] obtain ll1 where ll1: "cf_ll_delete_lockfree ll t = Some ll1"
      "cf_ll_list ll1 (along forward (ds @ ts))" "dom (ll_heap ll1) = released ll {t}"
      "ll_destroy_fn ll1 = ll_destroy_fn ll" by blast
    from 2 Cons.prems(2) f have rs: "ll_reduce_list fn r v ts = (rv', ks, tl rs, u')" "rs = t # tl rs"
      by (auto split: prod.splits)
    from Cons.IH [OF ll1(2) rs(1)] obtain ll' where
      ll': "cf_ll_reduce_loop forward fn ll1 (first_of ts None) r v = Some (rv', ll', u')"
      "cf_ll_list ll' (along forward (ds @ ks))" "dom (ll_heap ll') = released ll1 (set (tl rs))"
      "ll_destroy_fn ll' = ll_destroy_fn ll1" by blast
    have "released ll1 (set (tl rs)) = released ll (set rs)"
      using ll1(3,4) arg_cong [OF rs(2), of set] by (auto simp: released_def)
    then show ?thesis
      using ll' ll1 c f 2 by (simp add: cf_ll_reduce_loop.simps [of _ _ _ "Some t"])
  next
    case 3
    then show ?thesis using Cons.prems f
      by (auto simp: cf_ll_reduce_loop.simps [of _ _ _ "Some t"] released_def)
  qed
qed

lemma cf_ll_reduce_ok:
  assumes "cf_ll_list ll (along forward xs)"
    and "ll_reduce_list fn 0 u xs = (rv, ks, ds, u')"
  shows "\<exists>ll'. cf_ll_reduce ll forward fn u = Some (rv, ll', u') \<and>
    cf_ll_list ll' (along forward ks) \<and> dom (ll_heap ll') = released ll (set ds)"
  using cf_ll_reduce_loop_ok [of ll forward "[]" xs fn 0 u rv ks ds u'] assms along_start [OF assms(1)]
  by (auto simp: cf_ll_reduce_def)

text \<open>The insertion of \<open>cf_ll_insert_reduce\<close> on a list.\<close>

fun ll_insert_list :: "'s ll_reduce_fn \<Rightarrow> addr \<Rightarrow> 's \<Rightarrow> addr list \<Rightarrow> int \<times> addr list \<times> 's" where
  "ll_insert_list fn e u [] =
     (let (r, u') = fn None u in if r = CF_LL_REDUCE_INSERT then (0, [e], u') else (r, [], u'))"
| "ll_insert_list fn e u (x # xs) =
     (let (r, u') = fn (Some x) u in
      if r = 0 then let (rv, ys, u'') = ll_insert_list fn e u' xs in (rv, x # ys, u'')
      else if r = CF_LL_REDUCE_INSERT then (0, e # x # xs, u')
      else (r, x # xs, u'))"

lemma along_insert:
  assumes "cf_ll_list ll (along forward (ds @ t # ts))" and "e \<notin> set (ds @ t # ts)"
    and "ll_heap ll e \<noteq> None" and "length (ds @ t # ts) + 1 < 2 ^ 32"
  shows "\<exists>ll'. (if forward then cf_ll_insert_before_lockfree ll t e
      else cf_ll_insert_after_lockfree ll t e) = Some ll' \<and>
    cf_ll_list ll' (along forward (ds @ e # t # ts)) \<and> dom (ll_heap ll') = dom (ll_heap ll)"
proof (cases forward)
  case True
  then show ?thesis using assms cf_ll_insert_before_lockfree_ok [of ll ds t ts e]
    by (auto simp: along_def)
next
  case False
  then show ?thesis using assms cf_ll_insert_after_lockfree_ok [of ll "rev ts" t "rev ds" e]
    by (auto simp: along_def)
qed

lemma along_insert_end:
  assumes "cf_ll_list ll (along forward ds)" and "e \<notin> set ds"
    and "ll_heap ll e \<noteq> None" and "length ds + 1 < 2 ^ 32"
  shows "\<exists>ll'. (if forward then cf_ll_append_lockfree ll e else cf_ll_prepend_lockfree ll e) = Some ll' \<and>
    cf_ll_list ll' (along forward (ds @ [e])) \<and> dom (ll_heap ll') = dom (ll_heap ll)"
proof (cases forward)
  case True
  then show ?thesis using assms cf_ll_append_lockfree_ok [of ll ds e] by (auto simp: along_def)
next
  case False
  then show ?thesis using assms cf_ll_prepend_lockfree_ok [of ll "rev ds" e] by (auto simp: along_def)
qed

lemma cf_ll_insert_reduce_loop_ok:
  assumes "cf_ll_list ll (along forward (ds @ ts))" and "e \<notin> set (ds @ ts)"
    and "ll_heap ll e \<noteq> None" and "length (ds @ ts) + 1 < 2 ^ 32"
    and "ll_insert_list fn e u ts = (rv, ys, u')"
  shows "\<exists>ll'. cf_ll_insert_reduce_loop forward fn ll e (first_of ts None) u = Some (rv, ll', u') \<and>
    cf_ll_list ll' (along forward (ds @ ys)) \<and> dom (ll_heap ll') = dom (ll_heap ll)"
  using assms
proof (induction ts arbitrary: ds u ys)
  case Nil
  obtain r v where f: "fn None u = (r, v)" by (cases "fn None u")
  show ?case
    using along_insert_end [of ll forward ds e] Nil.prems f
    by (auto simp: cf_ll_insert_reduce_loop.simps split: if_splits)
next
  case (Cons t ts)
  obtain r v where f: "fn (Some t) u = (r, v)" by (cases "fn (Some t) u")
  from along_step [OF Cons.prems(1)] obtain c where
    c: "ll_heap ll t = Some c" "ll_step forward c = first_of ts None" by blast
  consider "r = 0" | "r = CF_LL_REDUCE_INSERT" "r \<noteq> 0" | "r \<noteq> 0" "r \<noteq> CF_LL_REDUCE_INSERT" by blast
  then show ?case
  proof cases
    case 1
    then show ?thesis
      using Cons.IH [of "ds @ [t]" v "tl ys"] Cons.prems c f
      by (auto simp: cf_ll_insert_reduce_loop.simps [of _ _ _ _ "Some t"] split: prod.splits)
  next
    case 2
    from along_insert [OF Cons.prems(1-4)] obtain ll1 where ll1:
      "(if forward then cf_ll_insert_before_lockfree ll t e else cf_ll_insert_after_lockfree ll t e) = Some ll1"
      "cf_ll_list ll1 (along forward (ds @ e # t # ts))" "dom (ll_heap ll1) = dom (ll_heap ll)" by blast
    then show ?thesis using Cons.prems(5) f 2
      by (auto simp: cf_ll_insert_reduce_loop.simps [of _ _ _ _ "Some t"])
  next
    case 3
    then show ?thesis using Cons.prems f
      by (auto simp: cf_ll_insert_reduce_loop.simps [of _ _ _ _ "Some t"])
  qed
qed

lemma cf_ll_insert_reduce_ok:
  assumes "cf_ll_list ll (along forward xs)" and "e \<notin> set xs" and "ll_heap ll e \<noteq> None"
    and "length xs + 1 < 2 ^ 32" and "ll_insert_list fn e u xs = (rv, ys, u')"
  shows "\<exists>ll'. cf_ll_insert_reduce ll e forward fn u = Some (rv, ll', u') \<and>
    cf_ll_list ll' (along forward ys) \<and> dom (ll_heap ll') = dom (ll_heap ll)"
  using cf_ll_insert_reduce_loop_ok [of ll forward "[]" xs e fn u rv ys u'] assms along_start [OF assms(1)]
  by (auto simp: cf_ll_insert_reduce_def)

lemma ll_insert_list_sorted:
  "ll_insert_list (\<lambda>p u. (case p of None \<Rightarrow> CF_LL_REDUCE_INSERT
      | Some a \<Rightarrow> if key e \<le> key a then CF_LL_REDUCE_INSERT else 0, u)) e u xs
    = (0, insort_key key e xs, u)"
  by (induction xs) (simp_all add: CF_LL_REDUCE_INSERT_def)

subsection \<open>Properties\<close>

text \<open>A list of the elements 1 and 2, with a third element that is not linked.\<close>

definition sample_list :: cf_ll where
  "sample_list = \<lparr>ll_head = Some 1, ll_tail = Some 2, ll_destroy_fn = True, ll_sz = 2,
     ll_uselock = False,
     ll_heap = [1 \<mapsto> \<lparr>ll_next = Some 2, ll_prev = None\<rparr>, 2 \<mapsto> \<lparr>ll_next = None, ll_prev = Some 1\<rparr>,
                3 \<mapsto> \<lparr>ll_next = None, ll_prev = None\<rparr>]\<rparr>"

lemma sample_list_list: "cf_ll_list sample_list (along True [1, 2])"
  by (simp add: cf_ll_list_def along_def sample_list_def first_of_def last_of_def)

text \<open>
  C21: \<open>cf_ll_reduce\<close> ends and follows no link of a released element, in both directions and for
  every callback. The elements for which the callback asks for the deletion are unlinked and
  handed to the destructor, the others stay linked in their order, and the pass stops at the
  first other non-zero code, which it returns. (The code is that of the last call, so it is 1 and
  not 0 when the last element was deleted.)
\<close>
theorem ll_reduce_spec:
  assumes "cf_ll_list ll (along forward xs)"
    and "ll_reduce_list fn 0 u xs = (rv, ks, ds, u')"
  shows "\<exists>ll'. cf_ll_reduce ll forward fn u = Some (rv, ll', u') \<and>
    cf_ll_list ll' (along forward ks) \<and> dom (ll_heap ll') = released ll (set ds)"
  using assms by (rule cf_ll_reduce_ok)

theorem ll_reduce_spec_witness:
  "\<exists>ll'. cf_ll_reduce sample_list True (\<lambda>p n. (if p = Some 1 then 1 else 0, n + 1)) (0 :: nat)
     = Some (0, ll', 2) \<and>
    cf_ll_list ll' (along True [2]) \<and> dom (ll_heap ll') = released sample_list (set [1])"
  by (rule ll_reduce_spec [OF sample_list_list]) (simp add: CF_LL_REDUCE_DELETE_def)

text \<open>
  C32: with a callback that asks for the insertion at the first element that is not smaller,
  and at the end, \<open>cf_ll_insert_reduce\<close> keeps a list sorted: it links the new element in its
  place and loses none.
\<close>
theorem ll_insert_reduce_sorted:
  fixes key :: "addr \<Rightarrow> nat"
  assumes "cf_ll_list ll xs" and "e \<notin> set xs" and "ll_heap ll e \<noteq> None"
    and "length xs + 1 < 2 ^ 32" and "sorted (map key xs)"
  shows "\<exists>ll' ys. cf_ll_insert_reduce ll e True
      (\<lambda>p u. (case p of None \<Rightarrow> CF_LL_REDUCE_INSERT
         | Some a \<Rightarrow> if key e \<le> key a then CF_LL_REDUCE_INSERT else 0, u)) () = Some (0, ll', ()) \<and>
    cf_ll_list ll' ys \<and> sorted (map key ys) \<and> distinct ys \<and> set ys = insert e (set xs)"
proof -
  from cf_ll_insert_reduce_ok [of ll True xs e, OF _ assms(2-4) ll_insert_list_sorted [of key e "()"]]
    assms(1)
  obtain ll' where "cf_ll_insert_reduce ll e True (\<lambda>p u. (case p of None \<Rightarrow> CF_LL_REDUCE_INSERT
      | Some a \<Rightarrow> if key e \<le> key a then CF_LL_REDUCE_INSERT else 0, u)) () = Some (0, ll', ())"
    "cf_ll_list ll' (insort_key key e xs)" by (auto simp: along_def)
  moreover from this have "distinct (insort_key key e xs)" by (simp add: cf_ll_list_def)
  ultimately show ?thesis using assms(5) by (auto simp: sorted_insort_key set_insort_key)
qed

theorem ll_insert_reduce_sorted_witness:
  "\<exists>ll' ys. cf_ll_insert_reduce sample_list 3 True
      (\<lambda>p u. (case p of None \<Rightarrow> CF_LL_REDUCE_INSERT
         | Some a \<Rightarrow> if id 3 \<le> id a then CF_LL_REDUCE_INSERT else 0, u)) () = Some (0, ll', ()) \<and>
    cf_ll_list ll' ys \<and> sorted (map id ys) \<and> distinct ys \<and> set ys = insert 3 (set [1, 2])"
  by (rule ll_insert_reduce_sorted)
    (use sample_list_list in \<open>simp_all add: along_def sample_list_def\<close>)

end
