(* ===== verification/Dict.thy ===== *)
theory Dict
  imports Prelude
begin

section \<open>The contract of a dictionary\<close>

text \<open>
  What the users of a hash table rely on. A run of calls on the table must agree with the same
  calls on a finite map.
\<close>

datatype ('k, 'v) dict_op = Put 'k 'v | Del 'k | Get 'k

fun dict_run ::
  "('k \<Rightarrow> 'v \<Rightarrow> 'h \<Rightarrow> 'h option) \<Rightarrow> ('k \<Rightarrow> 'h \<Rightarrow> (bool \<times> 'h) option) \<Rightarrow>
   ('k \<Rightarrow> 'h \<Rightarrow> ('v option \<times> 'h) option) \<Rightarrow> ('k, 'v) dict_op list \<Rightarrow> 'h \<Rightarrow>
   ('v option list \<times> 'h) option" where
  "dict_run put del get [] h = Some ([], h)"
| "dict_run put del get (Put k v # ops) h = do { h' \<leftarrow> put k v h; dict_run put del get ops h' }"
| "dict_run put del get (Del k # ops) h = do { (b, h') \<leftarrow> del k h; dict_run put del get ops h' }"
| "dict_run put del get (Get k # ops) h = do {
     (r, h') \<leftarrow> get k h; (rs, h'') \<leftarrow> dict_run put del get ops h'; Some (r # rs, h'') }"

fun map_run :: "('k, 'v) dict_op list \<Rightarrow> ('k \<rightharpoonup> 'v) \<Rightarrow> 'v option list \<times> ('k \<rightharpoonup> 'v)" where
  "map_run [] m = ([], m)"
| "map_run (Put k v # ops) m = map_run ops (m(k \<mapsto> v))"
| "map_run (Del k # ops) m = map_run ops (m(k := None))"
| "map_run (Get k # ops) m = apfst (Cons (m k)) (map_run ops m)"

fun op_ok :: "('k \<Rightarrow> bool) \<Rightarrow> ('v \<Rightarrow> bool) \<Rightarrow> ('k, 'v) dict_op \<Rightarrow> bool" where
  "op_ok fk fv (Put k v) = (fk k \<and> fv v)"
| "op_ok fk fv (Del k) = fk k"
| "op_ok fk fv (Get k) = fk k"

locale dict =
  fixes inv :: "'h \<Rightarrow> bool"
    and lookup :: "'h \<Rightarrow> 'k \<rightharpoonup> 'v"
    and fits_key :: "'h \<Rightarrow> 'k \<Rightarrow> bool"
    and fits_value :: "'h \<Rightarrow> 'v \<Rightarrow> bool"
    and put :: "'k \<Rightarrow> 'v \<Rightarrow> 'h \<Rightarrow> 'h option"
    and del :: "'k \<Rightarrow> 'h \<Rightarrow> (bool \<times> 'h) option"
    and get :: "'k \<Rightarrow> 'h \<Rightarrow> ('v option \<times> 'h) option"
  assumes put_ok: "inv h \<Longrightarrow> fits_key h k \<Longrightarrow> fits_value h v \<Longrightarrow>
      \<exists>h'. put k v h = Some h' \<and> inv h' \<and> lookup h' = (lookup h)(k \<mapsto> v) \<and>
        fits_key h' = fits_key h \<and> fits_value h' = fits_value h"
    and del_ok: "inv h \<Longrightarrow> fits_key h k \<Longrightarrow>
      \<exists>h'. del k h = Some (lookup h k \<noteq> None, h') \<and> inv h' \<and> lookup h' = (lookup h)(k := None) \<and>
        fits_key h' = fits_key h \<and> fits_value h' = fits_value h"
    and get_ok: "inv h \<Longrightarrow> fits_key h k \<Longrightarrow> get k h = Some (lookup h k, h)"
begin

lemma run_refines:
  assumes "inv h" and "\<forall>p \<in> set ops. op_ok (fits_key h) (fits_value h) p"
  shows "\<exists>h'. dict_run put del get ops h = Some (fst (map_run ops (lookup h)), h') \<and> inv h' \<and>
    lookup h' = snd (map_run ops (lookup h))"
  using assms
proof (induction ops arbitrary: h)
  case Nil
  then show ?case by simp
next
  case (Cons p ops)
  show ?case
  proof (cases p)
    case (Put k v)
    then obtain h1 where h1: "put k v h = Some h1" "inv h1" "lookup h1 = (lookup h)(k \<mapsto> v)"
      "fits_key h1 = fits_key h" "fits_value h1 = fits_value h"
      using put_ok [of h k v] Cons.prems by auto
    with Cons.IH [of h1] Cons.prems Put show ?thesis by (auto simp del: fun_upd_apply)
  next
    case (Del k)
    then obtain h1 where h1: "del k h = Some (lookup h k \<noteq> None, h1)" "inv h1"
      "lookup h1 = (lookup h)(k := None)" "fits_key h1 = fits_key h" "fits_value h1 = fits_value h"
      using del_ok [of h k] Cons.prems by auto
    with Cons.IH [of h1] Cons.prems Del show ?thesis by (auto simp del: fun_upd_apply)
  next
    case (Get k)
    then have "get k h = Some (lookup h k, h)" using get_ok [of h k] Cons.prems by auto
    with Cons.IH [of h] Cons.prems Get show ?thesis by auto
  qed
qed

end

end
