(* ===== verification/Cf_Shash.thy ===== *)
theory Cf_Shash
  imports Dict
begin

section \<open>The hash table (\<open>src/cf_shash.c\<close>, \<open>include/citrusleaf/cf_shash.h\<close>)\<close>

text \<open>
  A table of \<open>table_len\<close> buckets. The first element of a bucket lies in the table itself and
  its \<open>in_use\<close> bit says whether the bucket holds anything; further elements are chained behind
  it. A bucket is the list of its elements, first the one in the table. Elements have a key of
  \<open>key_len\<close> and a value of \<open>value_len\<close> bytes, and the hash function is a parameter.

  Locks are part of the state: the big lock, or one lock for each bucket. They are \<open>True\<close> while
  the calling thread holds them; to lock one of these again never returns (\<open>None\<close>).
\<close>

subsection \<open>State\<close>

record shash_elem =
  se_in_use :: bool
  se_key :: block
  se_value :: block

record shash =
  sh_elements :: u32
  sh_key_len :: u32
  sh_value_len :: u32
  sh_flags :: u32
  sh_h_fn :: "block \<Rightarrow> u32"
  sh_table_len :: u32
  sh_table :: "shash_elem list list"
  sh_biglock :: bool
  sh_lock_table :: "bool list"

definition SHASH_ERR_FOUND :: int where "SHASH_ERR_FOUND = - 4"
definition SHASH_ERR_NOTFOUND :: int where "SHASH_ERR_NOTFOUND = - 3"
definition SHASH_ERR :: int where "SHASH_ERR = - 1"
definition SHASH_OK :: int where "SHASH_OK = 0"
definition SHASH_CR_MT_BIGLOCK :: u32 where "SHASH_CR_MT_BIGLOCK = 4"
definition SHASH_CR_MT_MANYLOCK :: u32 where "SHASH_CR_MT_MANYLOCK = 8"
definition SHASH_REDUCE_DELETE :: int where "SHASH_REDUCE_DELETE = 1"

lemmas shash_codes = SHASH_ERR_FOUND_def SHASH_ERR_NOTFOUND_def SHASH_ERR_def SHASH_OK_def
  SHASH_REDUCE_DELETE_def

definition big :: "shash \<Rightarrow> bool" where
  "big h \<longleftrightarrow> sh_flags h AND SHASH_CR_MT_BIGLOCK \<noteq> 0"

definition many :: "shash \<Rightarrow> bool" where
  "many h \<longleftrightarrow> sh_flags h AND SHASH_CR_MT_MANYLOCK \<noteq> 0"

text \<open>The size of an element: a pointer, a flag, the data, with the padding of the header.\<close>

definition SHASH_ELEM_SZ :: "u32 \<Rightarrow> u32 \<Rightarrow> nat" where
  "SHASH_ELEM_SZ kl vl = 16 + unat kl + unat vl"

subsection \<open>Operations\<close>

text \<open>
  \<open>shash_create\<close>: the return code and the table. A fresh element has arbitrary bytes. The code
  leaves the result pointer alone when the first allocation or the initialisation of the big lock
  fails; that is \<open>None\<close> here, as NULL is.
\<close>

definition shash_create ::
  "malloc_env \<Rightarrow> malloc_env \<Rightarrow> bool \<Rightarrow> malloc_env \<Rightarrow> (block \<Rightarrow> u32) \<Rightarrow> u32 \<Rightarrow> u32 \<Rightarrow> u32 \<Rightarrow> u32 \<Rightarrow>
   int \<times> shash option" where
  "shash_create e_struct e_table mutex_ok e_locks h_fn key_len value_len sz flags =
     (let isbig = flags AND SHASH_CR_MT_BIGLOCK \<noteq> 0; ismany = flags AND SHASH_CR_MT_MANYLOCK \<noteq> 0;
          esz = SHASH_ELEM_SZ key_len value_len
      in if e_struct = None then (SHASH_ERR, None)
         else if isbig \<and> ismany then (SHASH_ERR, None)
         else case malloc e_table (unat sz * esz) of
           None \<Rightarrow> (SHASH_ERR, None)
         | Some bs \<Rightarrow>
             if isbig \<and> \<not> mutex_ok then (SHASH_ERR, None)
             else if ismany \<and> e_locks = None then (SHASH_ERR, None)
             else (SHASH_OK, Some \<lparr>sh_elements = 0, sh_key_len = key_len, sh_value_len = value_len,
                     sh_flags = flags, sh_h_fn = h_fn, sh_table_len = sz,
                     sh_table = map (\<lambda>i. [\<lparr>se_in_use = False,
                        se_key = take (unat key_len) (drop (i * esz + 9) bs),
                        se_value = take (unat value_len) (drop (i * esz + 9 + unat key_len) bs)\<rparr>])
                        [0..<unat sz],
                     sh_biglock = False,
                     sh_lock_table = (if ismany then replicate (unat sz) False else [])\<rparr>))"

text \<open>The lock of a bucket, or the big lock, or none.\<close>

definition shash_lock :: "shash \<Rightarrow> nat \<Rightarrow> shash option" where
  "shash_lock h i =
     (if big h then (if sh_biglock h then None else Some (h\<lparr>sh_biglock := True\<rparr>))
      else if many h
      then (if i < length (sh_lock_table h) \<and> \<not> sh_lock_table h ! i
            then Some (h\<lparr>sh_lock_table := (sh_lock_table h)[i := True]\<rparr>) else None)
      else Some h)"

definition shash_unlock :: "shash \<Rightarrow> nat \<Rightarrow> shash" where
  "shash_unlock h i =
     (if big h then h\<lparr>sh_biglock := False\<rparr>
      else if many h then h\<lparr>sh_lock_table := (sh_lock_table h)[i := False]\<rparr>
      else h)"

definition shash_bucket :: "shash \<Rightarrow> block \<Rightarrow> nat option" where
  "shash_bucket h key =
     (if sh_table_len h = 0 then None else Some (unat (sh_h_fn h key mod sh_table_len h)))"

text \<open>The start of every operation: the hash, the lock, the bucket.\<close>

definition shash_enter :: "shash \<Rightarrow> block \<Rightarrow> (nat \<times> shash \<times> shash_elem \<times> shash_elem list) option" where
  "shash_enter h key = do {
     i \<leftarrow> shash_bucket h key;
     h1 \<leftarrow> shash_lock h i;
     if i < length (sh_table h1)
     then (case sh_table h1 ! i of [] \<Rightarrow> None | e # es \<Rightarrow> Some (i, h1, e, es)) else None
   }"

fun chain_find :: "block \<Rightarrow> shash_elem list \<Rightarrow> shash_elem option" where
  "chain_find key [] = None"
| "chain_find key (e # es) = (if se_key e = key then Some e else chain_find key es)"

fun chain_update :: "block \<Rightarrow> block \<Rightarrow> shash_elem list \<Rightarrow> shash_elem list" where
  "chain_update key value [] = []"
| "chain_update key value (e # es) =
     (if se_key e = key then e\<lparr>se_value := value\<rparr> # es else e # chain_update key value es)"

fun chain_remove :: "block \<Rightarrow> shash_elem list \<Rightarrow> shash_elem list" where
  "chain_remove key [] = []"
| "chain_remove key (e # es) = (if se_key e = key then es else e # chain_remove key es)"

definition shash_put :: "malloc_env \<Rightarrow> shash \<Rightarrow> block \<Rightarrow> block \<Rightarrow> (int \<times> shash) option" where
  "shash_put env h key value = do {
     (i, h1, e, es) \<leftarrow> shash_enter h key;
     k \<leftarrow> load key 0 (unat (sh_key_len h));
     v \<leftarrow> load value 0 (unat (sh_value_len h));
     if \<not> se_in_use e
     then Some (SHASH_OK, shash_unlock (h1\<lparr>
            sh_table := (sh_table h1)[i := \<lparr>se_in_use = True, se_key = k, se_value = v\<rparr> # es],
            sh_elements := sh_elements h1 + 1\<rparr>) i)
     else if chain_find k (e # es) \<noteq> None
     then let h2 = h1\<lparr>sh_table := (sh_table h1)[i := chain_update k v (e # es)]\<rparr>
          in Some (SHASH_OK, if big h2 then h2\<lparr>sh_biglock := False\<rparr> else h2)
     else if env = None then Some (SHASH_ERR, h1)
     else Some (SHASH_OK, shash_unlock (h1\<lparr>
            sh_table := (sh_table h1)[i := e # \<lparr>se_in_use = True, se_key = k, se_value = v\<rparr> # es],
            sh_elements := sh_elements h1 + 1\<rparr>) i)
   }"

definition shash_put_unique :: "malloc_env \<Rightarrow> shash \<Rightarrow> block \<Rightarrow> block \<Rightarrow> (int \<times> shash) option" where
  "shash_put_unique env h key value = do {
     (i, h1, e, es) \<leftarrow> shash_enter h key;
     k \<leftarrow> load key 0 (unat (sh_key_len h));
     v \<leftarrow> load value 0 (unat (sh_value_len h));
     if \<not> se_in_use e
     then Some (SHASH_OK, shash_unlock (h1\<lparr>
            sh_table := (sh_table h1)[i := \<lparr>se_in_use = True, se_key = k, se_value = v\<rparr> # es],
            sh_elements := sh_elements h1 + 1\<rparr>) i)
     else if chain_find k (e # es) \<noteq> None
     then Some (SHASH_ERR_FOUND, shash_unlock h1 i)
     else if env = None then Some (SHASH_ERR, h1)
     else Some (SHASH_OK, shash_unlock (h1\<lparr>
            sh_table := (sh_table h1)[i := e # \<lparr>se_in_use = True, se_key = k, se_value = v\<rparr> # es],
            sh_elements := sh_elements h1 + 1\<rparr>) i)
   }"

text \<open>The code, the value copied out (if the caller gave a buffer), the table.\<close>

definition shash_get :: "shash \<Rightarrow> block \<Rightarrow> bool \<Rightarrow> (int \<times> block option \<times> shash) option" where
  "shash_get h key has_buf = do {
     (i, h1, e, es) \<leftarrow> shash_enter h key;
     k \<leftarrow> load key 0 (unat (sh_key_len h));
     if \<not> se_in_use e then Some (SHASH_ERR_NOTFOUND, None, shash_unlock h1 i)
     else (case chain_find k (e # es) of
             Some f \<Rightarrow> Some (SHASH_OK, if has_buf then Some (se_value f) else None, shash_unlock h1 i)
           | None \<Rightarrow> Some (SHASH_ERR_NOTFOUND, None, shash_unlock h1 i))
   }"

text \<open>
  \<open>shash_get_vlock\<close> hands out the value in place, here its bucket, with the lock still held;
  the last component says whether \<open>vlock\<close> is set.
\<close>

definition shash_get_vlock :: "shash \<Rightarrow> block \<Rightarrow> (int \<times> (nat \<times> block) option \<times> shash \<times> bool) option" where
  "shash_get_vlock h key = do {
     (i, h1, e, es) \<leftarrow> shash_enter h key;
     k \<leftarrow> load key 0 (unat (sh_key_len h));
     if \<not> se_in_use e then Some (SHASH_ERR_NOTFOUND, None, shash_unlock h1 i, False)
     else (case chain_find k (e # es) of
             Some f \<Rightarrow> Some (SHASH_OK, Some (i, se_value f), h1, big h1 \<or> many h1)
           | None \<Rightarrow> Some (SHASH_ERR_NOTFOUND, None, shash_unlock h1 i, False))
   }"

text \<open>
  The part that the three deletions share. At the head of the bucket the element in the table
  takes the place of its successor, or is marked as not in use when it has none.
\<close>

definition bucket_delete :: "block \<Rightarrow> shash_elem \<Rightarrow> shash_elem list \<Rightarrow> shash_elem list" where
  "bucket_delete key e es =
     (if se_key e = key
      then (if es = [] then [e\<lparr>se_in_use := False\<rparr>] else es)
      else e # chain_remove key es)"

definition shash_delete :: "shash \<Rightarrow> block \<Rightarrow> (int \<times> shash) option" where
  "shash_delete h key = do {
     (i, h1, e, es) \<leftarrow> shash_enter h key;
     k \<leftarrow> load key 0 (unat (sh_key_len h));
     if \<not> se_in_use e \<or> chain_find k (e # es) = None
     then Some (SHASH_ERR_NOTFOUND, shash_unlock h1 i)
     else Some (SHASH_OK, shash_unlock (h1\<lparr>
            sh_table := (sh_table h1)[i := bucket_delete k e es],
            sh_elements := sh_elements h1 - 1\<rparr>) i)
   }"

definition shash_delete_lockfree :: "shash \<Rightarrow> block \<Rightarrow> (int \<times> shash) option" where
  "shash_delete_lockfree h key = do {
     i \<leftarrow> shash_bucket h key;
     k \<leftarrow> load key 0 (unat (sh_key_len h));
     if i < length (sh_table h)
     then (case sh_table h ! i of
             [] \<Rightarrow> None
           | e # es \<Rightarrow>
               if \<not> se_in_use e \<or> chain_find k (e # es) = None then Some (SHASH_ERR_NOTFOUND, h)
               else Some (SHASH_OK, h\<lparr>sh_table := (sh_table h)[i := bucket_delete k e es],
                                      sh_elements := sh_elements h - 1\<rparr>))
     else None
   }"

definition shash_get_and_delete :: "shash \<Rightarrow> block \<Rightarrow> (int \<times> block option \<times> shash) option" where
  "shash_get_and_delete h key = do {
     (i, h1, e, es) \<leftarrow> shash_enter h key;
     k \<leftarrow> load key 0 (unat (sh_key_len h));
     if \<not> se_in_use e then Some (SHASH_ERR_NOTFOUND, None, shash_unlock h1 i)
     else (case chain_find k (e # es) of
             None \<Rightarrow> Some (SHASH_ERR_NOTFOUND, None, shash_unlock h1 i)
           | Some f \<Rightarrow> Some (SHASH_OK, Some (se_value f), shash_unlock (h1\<lparr>
               sh_table := (sh_table h1)[i := bucket_delete k e es],
               sh_elements := sh_elements h1 - 1\<rparr>) i))
   }"

text \<open>
  \<open>shash_get_size\<close>: with a lock for each bucket the elements are counted, bucket by bucket.
\<close>

fun chain_count :: "shash_elem list \<Rightarrow> u32" where
  "chain_count [] = 0"
| "chain_count (e # es) = (if \<not> se_in_use e then 0 else 1 + chain_count es)"

fun count_buckets :: "(nat \<Rightarrow> bool) \<Rightarrow> nat \<Rightarrow> shash_elem list list \<Rightarrow> u32 \<Rightarrow> u32 option" where
  "count_buckets held i [] n = Some n"
| "count_buckets held i (b # bs) n =
     (if held i then None else count_buckets held (Suc i) bs (n + chain_count b))"

definition shash_get_size :: "shash \<Rightarrow> u32 option" where
  "shash_get_size h =
     (if many h then count_buckets (\<lambda>i. sh_lock_table h ! i) 0 (sh_table h) 0
      else if big h then (if sh_biglock h then None else Some (sh_elements h))
      else Some (sh_elements h))"

text \<open>
  The passes over all the elements. The callback gets key, value and user data, and returns
  its code, the value as it leaves it, and the user data. It does not call back into the table.
\<close>

type_synonym 's shash_reduce_fn = "block \<Rightarrow> block \<Rightarrow> 's \<Rightarrow> int \<times> block \<times> 's"

fun chain_reduce :: "'s shash_reduce_fn \<Rightarrow> 's \<Rightarrow> shash_elem list \<Rightarrow> int \<times> shash_elem list \<times> 's" where
  "chain_reduce f u [] = (0, [], u)"
| "chain_reduce f u (e # es) =
     (if \<not> se_in_use e then (0, e # es, u)
      else let (rv, v, u') = f (se_key e) (se_value e) u in
           if rv \<noteq> 0 then (rv, e\<lparr>se_value := v\<rparr> # es, u')
           else let (rv', es', u'') = chain_reduce f u' es in (rv', e\<lparr>se_value := v\<rparr> # es', u''))"

fun buckets_reduce ::
  "(nat \<Rightarrow> bool) \<Rightarrow> 's shash_reduce_fn \<Rightarrow> nat \<Rightarrow> 's \<Rightarrow> shash_elem list list \<Rightarrow>
   (int \<times> shash_elem list list \<times> 's) option" where
  "buckets_reduce held f i u [] = Some (0, [], u)"
| "buckets_reduce held f i u (b # bs) =
     (if held i then None
      else let (rv, b', u') = chain_reduce f u b in
           if rv \<noteq> 0 then Some (rv, b' # bs, u')
           else do { (rv', bs', u'') \<leftarrow> buckets_reduce held f (Suc i) u' bs;
                     Some (rv', b' # bs', u'') })"

definition shash_reduce :: "shash \<Rightarrow> 's shash_reduce_fn \<Rightarrow> 's \<Rightarrow> (int \<times> shash \<times> 's) option" where
  "shash_reduce h f u =
     (if big h \<and> sh_biglock h then None
      else do {
        (rv, t, u') \<leftarrow> buckets_reduce (\<lambda>i. many h \<and> sh_lock_table h ! i) f 0 u (sh_table h);
        Some (rv, h\<lparr>sh_table := t\<rparr>, u')
      })"

text \<open>
  The deleting pass over a bucket. While \<open>at_head\<close>, the element is the one in the table. The
  third component of the result is the number of deletions.
\<close>

fun chain_reduce_delete ::
  "'s shash_reduce_fn \<Rightarrow> bool \<Rightarrow> 's \<Rightarrow> shash_elem list \<Rightarrow> int \<times> shash_elem list \<times> nat \<times> 's" where
  "chain_reduce_delete f at_head u [] = (0, [], 0, u)"
| "chain_reduce_delete f at_head u (e # es) =
     (if \<not> se_in_use e then (0, e # es, 0, u)
      else let (rv, v, u') = f (se_key e) (se_value e) u in
           if rv = SHASH_REDUCE_DELETE
           then if at_head \<and> es = [] then (0, [e\<lparr>se_in_use := False, se_value := v\<rparr>], 1, u')
                else let (rv', es', n, u'') = chain_reduce_delete f at_head u' es
                     in (rv', es', Suc n, u'')
           else if rv \<noteq> 0 then (rv, e\<lparr>se_value := v\<rparr> # es, 0, u')
           else let (rv', es', n, u'') = chain_reduce_delete f False u' es
                in (rv', e\<lparr>se_value := v\<rparr> # es', n, u''))"

fun buckets_reduce_delete ::
  "(nat \<Rightarrow> bool) \<Rightarrow> 's shash_reduce_fn \<Rightarrow> nat \<Rightarrow> 's \<Rightarrow> shash_elem list list \<Rightarrow>
   (int \<times> shash_elem list list \<times> nat \<times> 's) option" where
  "buckets_reduce_delete held f i u [] = Some (0, [], 0, u)"
| "buckets_reduce_delete held f i u (b # bs) =
     (if held i then None
      else let (rv, b', n, u') = chain_reduce_delete f True u b in
           if rv \<noteq> 0 then Some (rv, b' # bs, n, u')
           else do { (rv', bs', m, u'') \<leftarrow> buckets_reduce_delete held f (Suc i) u' bs;
                     Some (rv', b' # bs', n + m, u'') })"

definition shash_reduce_delete :: "shash \<Rightarrow> 's shash_reduce_fn \<Rightarrow> 's \<Rightarrow> (int \<times> shash \<times> 's) option" where
  "shash_reduce_delete h f u =
     (if big h \<and> sh_biglock h then None
      else do {
        (rv, t, n, u') \<leftarrow> buckets_reduce_delete (\<lambda>i. many h \<and> sh_lock_table h ! i) f 0 u (sh_table h);
        Some (rv, h\<lparr>sh_table := t, sh_elements := sh_elements h - word_of_nat n\<rparr>, u')
      })"

text \<open>The number of chained elements that \<open>shash_destroy\<close> frees beside the table.\<close>

definition shash_destroy :: "shash \<Rightarrow> nat" where
  "shash_destroy h = sum_list (map (\<lambda>b. length (tl b)) (sh_table h))"

text \<open>The hash function for 32-bit FNV-style tables of the library header.\<close>

fun cf_hash_fnv_loop :: "u64 \<Rightarrow> block \<Rightarrow> u64" where
  "cf_hash_fnv_loop hash [] = hash"
| "cf_hash_fnv_loop hash (b # bs) = cf_hash_fnv_loop ((hash XOR ucast b) * 0x100000001b3) bs"

definition cf_hash_fnv :: "block \<Rightarrow> nat \<Rightarrow> u64 option" where
  "cf_hash_fnv buf bufsz = do { x \<leftarrow> load buf 0 bufsz; Some (cf_hash_fnv_loop 0xcbf29ce484222325 x) }"

subsection \<open>Invariant and abstract map\<close>

definition bucket_entries :: "shash_elem list \<Rightarrow> (block \<times> block) list" where
  "bucket_entries b = (if b \<noteq> [] \<and> se_in_use (hd b) then map (\<lambda>e. (se_key e, se_value e)) b else [])"

definition bucket_wf :: "nat \<Rightarrow> nat \<Rightarrow> (block \<Rightarrow> nat) \<Rightarrow> nat \<Rightarrow> shash_elem list \<Rightarrow> bool" where
  "bucket_wf kl vl hash i b \<longleftrightarrow> b \<noteq> [] \<and> (se_in_use (hd b) \<or> tl b = []) \<and>
     (\<forall>e \<in> set (tl b). se_in_use e) \<and> distinct (map fst (bucket_entries b)) \<and>
     (\<forall>(k, v) \<in> set (bucket_entries b). length k = kl \<and> length v = vl \<and> hash k = i)"

definition shash_hash :: "shash \<Rightarrow> block \<Rightarrow> nat" where
  "shash_hash h key = unat (sh_h_fn h key mod sh_table_len h)"

definition shash_map :: "shash \<Rightarrow> block \<rightharpoonup> block" where
  "shash_map h key =
     (if length key = unat (sh_key_len h)
      then map_of (bucket_entries (sh_table h ! shash_hash h key)) key else None)"

definition shash_count :: "shash_elem list list \<Rightarrow> nat" where
  "shash_count t = sum_list (map (\<lambda>b. length (bucket_entries b)) t)"

definition shash_wf :: "shash \<Rightarrow> bool" where
  "shash_wf h \<longleftrightarrow> sh_table_len h \<noteq> 0 \<and> length (sh_table h) = unat (sh_table_len h) \<and>
     (\<forall>i < length (sh_table h).
        bucket_wf (unat (sh_key_len h)) (unat (sh_value_len h)) (shash_hash h) i (sh_table h ! i)) \<and>
     sh_elements h = word_of_nat (shash_count (sh_table h))"

definition shash_free :: "shash \<Rightarrow> bool" where
  "shash_free h \<longleftrightarrow> \<not> sh_biglock h \<and> True \<notin> set (sh_lock_table h) \<and> \<not> (big h \<and> many h) \<and>
     (many h \<longrightarrow> length (sh_lock_table h) = length (sh_table h))"

definition shash_inv :: "shash \<Rightarrow> bool" where
  "shash_inv h \<longleftrightarrow> shash_wf h \<and> shash_free h"

lemma shash_hash_less: "sh_table_len h \<noteq> 0 \<Longrightarrow> shash_hash h k < unat (sh_table_len h)"
  by (simp add: shash_hash_def unat_mod unat_gt_0)

text \<open>A pass through lock and unlock leaves the locks as they were.\<close>

definition locked_as :: "shash \<Rightarrow> nat \<Rightarrow> shash \<Rightarrow> bool" where
  "locked_as h i h1 \<longleftrightarrow> sh_elements h1 = sh_elements h \<and> sh_table h1 = sh_table h \<and>
     sh_flags h1 = sh_flags h \<and> shash_unlock h1 i = h \<and>
     (\<forall>t n. shash_unlock (h1\<lparr>sh_table := t, sh_elements := n\<rparr>) i = h\<lparr>sh_table := t, sh_elements := n\<rparr>)"

lemma shash_lock_ok:
  assumes "shash_free h" and "i < length (sh_table h)"
  shows "\<exists>h1. shash_lock h i = Some h1 \<and> locked_as h i h1 \<and> sh_key_len h1 = sh_key_len h"
proof -
  have f: "many h \<Longrightarrow> \<not> sh_lock_table h ! i" "many h \<Longrightarrow> i < length (sh_lock_table h)"
    using assms by (auto simp: shash_free_def) (metis nth_mem)
  then have "many h \<Longrightarrow> (sh_lock_table h)[i := False] = sh_lock_table h"
    by (metis list_update_id)
  then show ?thesis
    using assms f by (auto simp: shash_free_def shash_lock_def shash_unlock_def locked_as_def big_def many_def)
qed

lemma shash_enter_ok:
  assumes "shash_inv h"
  shows "\<exists>h1 e es. shash_enter h key = Some (shash_hash h key, h1, e, es) \<and>
    sh_table h ! shash_hash h key = e # es \<and> locked_as h (shash_hash h key) h1"
proof -
  let ?i = "shash_hash h key"
  have wf: "shash_wf h" and fr: "shash_free h" using assms by (simp_all add: shash_inv_def)
  have i: "?i < length (sh_table h)" using wf shash_hash_less by (simp add: shash_wf_def)
  have "sh_table h ! ?i \<noteq> []" using wf i by (auto simp: shash_wf_def bucket_wf_def)
  moreover have "shash_bucket h key = Some ?i"
    using wf by (simp add: shash_bucket_def shash_hash_def shash_wf_def)
  ultimately show ?thesis using shash_lock_ok [OF fr i] i
    by (auto simp: shash_enter_def locked_as_def neq_Nil_conv)
qed

text \<open>The three changes of a bucket, on its entries.\<close>

lemma chain_find_entries:
  "chain_find k es = None \<longleftrightarrow> k \<notin> se_key ` set es"
  "chain_find k es = Some f \<Longrightarrow> map_of (map (\<lambda>e. (se_key e, se_value e)) es) k = Some (se_value f)"
  by (induction es) auto

lemma chain_update_map:
  assumes "k \<in> se_key ` set es"
  shows "map_of (map (\<lambda>e. (se_key e, se_value e)) (chain_update k v es))
      = (map_of (map (\<lambda>e. (se_key e, se_value e)) es))(k \<mapsto> v)"
    and "map se_key (chain_update k v es) = map se_key es"
    and "map se_in_use (chain_update k v es) = map se_in_use es"
    and "se_value ` set (chain_update k v es) \<subseteq> insert v (se_value ` set es)"
  using assms by (induction es) auto

lemma bucket_put_empty:
  assumes "bucket_wf kl vl hash i (e # es)" and "\<not> se_in_use e"
    and "length k = kl" and "length v = vl" and "hash k = i"
  defines "b' \<equiv> \<lparr>se_in_use = True, se_key = k, se_value = v\<rparr> # es"
  shows "bucket_wf kl vl hash i b'"
    and "map_of (bucket_entries b') = (map_of (bucket_entries (e # es)))(k \<mapsto> v)"
    and "length (bucket_entries b') = Suc (length (bucket_entries (e # es)))"
    and "map_of (bucket_entries (e # es)) k = None"
  using assms by (auto simp: bucket_wf_def bucket_entries_def)

lemma bucket_put_chain:
  assumes "bucket_wf kl vl hash i (e # es)" and "se_in_use e" and "chain_find k (e # es) = None"
    and "length k = kl" and "length v = vl" and "hash k = i"
  defines "b' \<equiv> e # \<lparr>se_in_use = True, se_key = k, se_value = v\<rparr> # es"
  shows "bucket_wf kl vl hash i b'"
    and "map_of (bucket_entries b') = (map_of (bucket_entries (e # es)))(k \<mapsto> v)"
    and "length (bucket_entries b') = Suc (length (bucket_entries (e # es)))"
    and "map_of (bucket_entries (e # es)) k = None"
proof -
  let ?p = "\<lambda>e. (se_key e, se_value e)"
  have k: "k \<notin> se_key ` set (e # es)" using assms(3) by (simp only: chain_find_entries(1) simp_thms)
  have be: "bucket_entries b' = ?p e # (k, v) # map ?p es" "bucket_entries (e # es) = ?p e # map ?p es"
    using assms(2) by (simp_all add: bucket_entries_def b'_def)
  show "bucket_wf kl vl hash i b'"
    using assms(1,4-6) k unfolding bucket_wf_def be by (auto simp: b'_def assms(2) o_def)
  show "map_of (bucket_entries b') = (map_of (bucket_entries (e # es)))(k \<mapsto> v)"
    using k unfolding be by (intro ext) auto
  show "length (bucket_entries b') = Suc (length (bucket_entries (e # es)))" by (simp add: be)
  show "map_of (bucket_entries (e # es)) k = None"
    using k unfolding be by (auto simp: map_of_eq_None_iff)
qed

lemma bucket_put_update:
  assumes wf: "bucket_wf kl vl hash i (e # es)" and u: "se_in_use e" and f: "chain_find k (e # es) \<noteq> None"
    and v: "length v = vl"
  defines "b' \<equiv> chain_update k v (e # es)"
  shows "bucket_wf kl vl hash i b'"
    and "map_of (bucket_entries b') = (map_of (bucket_entries (e # es)))(k \<mapsto> v)"
    and "length (bucket_entries b') = length (bucket_entries (e # es))"
proof -
  have k: "k \<in> se_key ` set (e # es)" using f by (simp only: chain_find_entries(1) simp_thms)
  note c = chain_update_map [OF k, of v]
  have ne: "b' \<noteq> []" unfolding b'_def by simp
  have "map se_in_use b' = se_in_use e # map se_in_use es" using c(3) unfolding b'_def by simp
  then have hu: "se_in_use (hd b')" and tu: "map se_in_use (tl b') = map se_in_use es"
    using u ne by (cases b'; auto)+
  have keys: "map se_key b' = map se_key (e # es)" using c(2) unfolding b'_def .
  have be: "bucket_entries b' = map (\<lambda>e. (se_key e, se_value e)) b'"
    "bucket_entries (e # es) = map (\<lambda>e. (se_key e, se_value e)) (e # es)"
    using hu u ne by (simp_all add: bucket_entries_def)
  show "map_of (bucket_entries b') = (map_of (bucket_entries (e # es)))(k \<mapsto> v)"
    using c(1) [folded b'_def] by (simp only: be)
  show "length (bucket_entries b') = length (bucket_entries (e # es))"
    using arg_cong [OF keys, of length] by (simp add: be)
  have fs: "map fst (bucket_entries b') = map fst (bucket_entries (e # es))"
    using keys by (simp add: be o_def)
  have tin: "\<forall>x \<in> set (tl b'). se_in_use x"
  proof -
    have "se_in_use ` set (tl b') = se_in_use ` set es" using arg_cong [OF tu, of set] by simp
    moreover have "se_in_use ` set es \<subseteq> {True}" using wf by (auto simp: bucket_wf_def)
    ultimately have "se_in_use ` set (tl b') \<subseteq> {True}" by simp
    then show ?thesis by auto
  qed
  have vals: "\<forall>(k', v') \<in> set (bucket_entries b'). length v' = vl"
  proof clarify
    fix k' v' assume "(k', v') \<in> set (bucket_entries b')"
    then have "v' \<in> se_value ` set b'" by (auto simp: be)
    then have "v' \<in> insert v (se_value ` set (e # es))" using c(4) [folded b'_def] by blast
    moreover have "length (se_value x) = vl" if "x \<in> set (e # es)" for x
    proof -
      have "(se_key x, se_value x) \<in> set (bucket_entries (e # es))" using that unfolding be by auto
      moreover have "\<forall>(k, v) \<in> set (bucket_entries (e # es)). length k = kl \<and> length v = vl \<and> hash k = i"
        using wf unfolding bucket_wf_def by (elim conjE)
      ultimately show ?thesis by (auto dest!: bspec)
    qed
    ultimately show "length v' = vl" using v by auto
  qed
  have "\<forall>(k', v') \<in> set (bucket_entries b'). length k' = kl \<and> hash k' = i"
  proof clarify
    fix k' v' assume "(k', v') \<in> set (bucket_entries b')"
    then have "k' \<in> set (map fst (bucket_entries b'))" by force
    then have "k' \<in> set (map fst (bucket_entries (e # es)))" by (simp only: fs)
    then show "length k' = kl \<and> hash k' = i" using wf by (auto simp: bucket_wf_def)
  qed
  with vals have "\<forall>(k', v') \<in> set (bucket_entries b'). length k' = kl \<and> length v' = vl \<and> hash k' = i"
    by (auto dest!: bspec)
  moreover have "distinct (map fst (bucket_entries b'))"
    using wf unfolding bucket_wf_def fs by (elim conjE)
  ultimately show "bucket_wf kl vl hash i b'"
    using tin hu ne unfolding bucket_wf_def by (intro conjI disjI1)
qed

lemma chain_remove_entries:
  "k \<in> se_key ` set es \<Longrightarrow> Suc (length (chain_remove k es)) = length es"
  "set (chain_remove k es) \<subseteq> set es"
  "distinct (map se_key es) \<Longrightarrow> distinct (map se_key (chain_remove k es))"
  "distinct (map se_key es) \<Longrightarrow> map_of (map (\<lambda>e. (se_key e, se_value e)) (chain_remove k es))
      = (map_of (map (\<lambda>e. (se_key e, se_value e)) es))(k := None)"
proof -
  show s: "set (chain_remove k es) \<subseteq> set es" for es by (induction es) auto
  show "k \<in> se_key ` set es \<Longrightarrow> Suc (length (chain_remove k es)) = length es"
    by (induction es) auto
  show "distinct (map se_key es) \<Longrightarrow> distinct (map se_key (chain_remove k es))"
    using s by (induction es) (auto dest: subsetD)
  show "distinct (map se_key es) \<Longrightarrow> map_of (map (\<lambda>e. (se_key e, se_value e)) (chain_remove k es))
      = (map_of (map (\<lambda>e. (se_key e, se_value e)) es))(k := None)"
  proof (induction es)
    case (Cons a es)
    show ?case
    proof (cases "se_key a = k")
      case True
      then have "map_of (map (\<lambda>e. (se_key e, se_value e)) es) k = None"
        using Cons.prems by (auto simp: map_of_eq_None_iff)
      then show ?thesis using True by (auto simp: fun_eq_iff)
    next
      case False
      then show ?thesis using Cons by (auto simp: fun_eq_iff)
    qed
  qed simp
qed

lemma bucket_delete_ok:
  assumes wf: "bucket_wf kl vl hash i (e # es)" and u: "se_in_use e" and f: "chain_find k (e # es) \<noteq> None"
  defines "b' \<equiv> bucket_delete k e es"
  shows "bucket_wf kl vl hash i b'"
    and "map_of (bucket_entries b') = (map_of (bucket_entries (e # es)))(k := None)"
    and "Suc (length (bucket_entries b')) = length (bucket_entries (e # es))"
proof -
  have k: "k \<in> se_key ` set (e # es)" using f by (simp only: chain_find_entries(1) simp_thms)
  have be: "bucket_entries (e # es) = map (\<lambda>e. (se_key e, se_value e)) (e # es)"
    using u by (simp add: bucket_entries_def)
  have d: "distinct (map se_key (e # es))" using wf unfolding bucket_wf_def be by (simp add: o_def)
  have es: "\<forall>x \<in> set es. se_in_use x" using wf by (simp add: bucket_wf_def)
  consider (only) "se_key e = k" "es = []" | (head) e2 es2 where "se_key e = k" "es = e2 # es2"
    | (chain) "se_key e \<noteq> k" by (cases es) auto
  then have "bucket_wf kl vl hash i b' \<and>
    map_of (bucket_entries b') = (map_of (bucket_entries (e # es)))(k := None) \<and>
    Suc (length (bucket_entries b')) = length (bucket_entries (e # es))"
  proof cases
    case only
    then show ?thesis using be by (simp add: b'_def bucket_delete_def bucket_wf_def bucket_entries_def)
  next
    case head
    then have "bucket_entries b' = map (\<lambda>e. (se_key e, se_value e)) es"
      using es by (simp add: b'_def bucket_delete_def bucket_entries_def)
    moreover have "map_of (map (\<lambda>e. (se_key e, se_value e)) es) k = None"
      using d head by (auto simp: map_of_eq_None_iff)
    ultimately have "map_of (bucket_entries b') = (map_of (bucket_entries (e # es)))(k := None)"
      "Suc (length (bucket_entries b')) = length (bucket_entries (e # es))"
      using head(1) unfolding be by (auto simp: fun_eq_iff)
    moreover have "bucket_wf kl vl hash i b'"
      using wf d es head \<open>bucket_entries b' = map (\<lambda>e. (se_key e, se_value e)) es\<close>
      unfolding bucket_wf_def be by (simp add: b'_def bucket_delete_def o_def)
    ultimately show ?thesis by blast
  next
    case chain
    then have b: "b' = e # chain_remove k es" by (simp add: b'_def bucket_delete_def)
    have b2: "bucket_entries b' = map (\<lambda>e. (se_key e, se_value e)) b'"
      using u b by (simp add: bucket_entries_def)
    have k2: "k \<in> se_key ` set es" using k chain by auto
    note r = chain_remove_entries(1) [OF k2] chain_remove_entries(2) [of k es]
      chain_remove_entries(3,4) [of es k]
    have dd: "distinct (map se_key b')" using d r(2,3) b by (auto dest: subsetD)
    show ?thesis
    proof (intro conjI)
      show "bucket_wf kl vl hash i b'"
        using wf dd r(2) u b unfolding bucket_wf_def b2 be by (auto simp: o_def)
      show "map_of (bucket_entries b') = (map_of (bucket_entries (e # es)))(k := None)"
      proof -
        have "map_of (map (\<lambda>e. (se_key e, se_value e)) b')
            = (map_of (map (\<lambda>e. (se_key e, se_value e)) (e # es)))(k := None)"
          using r(4) d chain by (auto simp: fun_eq_iff b)
        then show ?thesis by (simp only: b2 be)
      qed
      show "Suc (length (bucket_entries b')) = length (bucket_entries (e # es))"
      proof -
        have "Suc (length b') = length (e # es)" using r(1) by (simp add: b)
        then show ?thesis by (simp only: b2 be length_map)
      qed
    qed
  qed
  then show "bucket_wf kl vl hash i b'"
    "map_of (bucket_entries b') = (map_of (bucket_entries (e # es)))(k := None)"
    "Suc (length (bucket_entries b')) = length (bucket_entries (e # es))" by blast+
qed

lemma shash_count_update:
  "i < length t \<Longrightarrow> shash_count (t[i := b']) + length (bucket_entries (t ! i))
     = shash_count t + length (bucket_entries b')"
proof (induction t arbitrary: i)
  case (Cons a t)
  then show ?case by (cases i) (auto simp: shash_count_def)
qed simp

lemma shash_replace:
  assumes inv: "shash_inv h" and k: "length k = unat (sh_key_len h)"
    and wf': "bucket_wf (unat (sh_key_len h)) (unat (sh_value_len h)) (shash_hash h) (shash_hash h k) b'"
    and m: "map_of (bucket_entries b') = (map_of (bucket_entries (sh_table h ! shash_hash h k)))(k := r)"
    and n: "n = word_of_nat (shash_count ((sh_table h)[shash_hash h k := b']))"
  defines "h' \<equiv> h\<lparr>sh_table := (sh_table h)[shash_hash h k := b'], sh_elements := n\<rparr>"
  shows "shash_inv h'" and "shash_map h' = (shash_map h)(k := r)"
    and "sh_key_len h' = sh_key_len h" and "sh_value_len h' = sh_value_len h"
proof -
  have hash: "shash_hash h' = shash_hash h" by (simp add: shash_hash_def h'_def fun_eq_iff)
  have i: "shash_hash h k < length (sh_table h)"
    using inv shash_hash_less by (simp add: shash_inv_def shash_wf_def)
  show "shash_inv h'"
    using inv wf' hash n i
    by (auto simp: shash_inv_def shash_wf_def shash_free_def h'_def big_def many_def nth_list_update)
  show "shash_map h' = (shash_map h)(k := r)"
  proof
    fix x
    show "shash_map h' x = ((shash_map h)(k := r)) x"
    proof (cases "shash_hash h x = shash_hash h k")
      case True
      then show ?thesis using m i k hash by (auto simp: shash_map_def h'_def)
    next
      case False
      then have "x \<noteq> k" by auto
      then show ?thesis using False hash by (simp add: shash_map_def h'_def)
    qed
  qed
qed (simp_all add: h'_def)

definition shash_fits_key :: "shash \<Rightarrow> block \<Rightarrow> bool" where
  "shash_fits_key h k \<longleftrightarrow> length k = unat (sh_key_len h)"

definition shash_fits_value :: "shash \<Rightarrow> block \<Rightarrow> bool" where
  "shash_fits_value h v \<longleftrightarrow> length v = unat (sh_value_len h)"

lemma shash_bucket_wf:
  assumes "shash_inv h"
  shows "bucket_wf (unat (sh_key_len h)) (unat (sh_value_len h)) (shash_hash h) (shash_hash h k)
    (sh_table h ! shash_hash h k)"
  using assms shash_hash_less [of h k] by (simp add: shash_inv_def shash_wf_def)

lemma shash_put_ok:
  assumes inv: "shash_inv h" and k: "shash_fits_key h k" and v: "shash_fits_value h v"
    and lk: "\<not> many h \<or> shash_map h k = None"
  shows "\<exists>h'. shash_put (Some g) h k v = Some (SHASH_OK, h') \<and> shash_inv h' \<and>
    shash_map h' = (shash_map h)(k \<mapsto> v) \<and> sh_key_len h' = sh_key_len h \<and>
    sh_value_len h' = sh_value_len h \<and> sh_flags h' = sh_flags h"
proof -
  let ?i = "shash_hash h k"
  from shash_enter_ok [OF inv, of k] obtain h1 e es where en:
    "shash_enter h k = Some (?i, h1, e, es)" "sh_table h ! ?i = e # es" "locked_as h ?i h1" by blast
  have kl: "length k = unat (sh_key_len h)" and vl: "length v = unat (sh_value_len h)"
    using k v by (simp_all add: shash_fits_key_def shash_fits_value_def)
  have ld: "load k 0 (unat (sh_key_len h)) = Some k" "load v 0 (unat (sh_value_len h)) = Some v"
    using kl vl by (simp_all add: load_def)
  have l: "sh_elements h1 = sh_elements h" "sh_table h1 = sh_table h" "sh_flags h1 = sh_flags h"
    "\<And>t n. shash_unlock (h1\<lparr>sh_table := t, sh_elements := n\<rparr>) ?i = h\<lparr>sh_table := t, sh_elements := n\<rparr>"
    using en(3) by (simp_all add: locked_as_def)
  have i: "?i < length (sh_table h)" and el: "sh_elements h = word_of_nat (shash_count (sh_table h))"
    using inv shash_hash_less by (simp_all add: shash_inv_def shash_wf_def)
  note wf = shash_bucket_wf [OF inv, of k, unfolded en(2)]
  have count: "shash_count ((sh_table h)[?i := b']) + length (bucket_entries (e # es))
      = shash_count (sh_table h) + length (bucket_entries b')" for b'
    using shash_count_update [OF i, of b'] en(2) by simp
  show ?thesis
  proof (cases "se_in_use e")
    case False
    note b = bucket_put_empty [OF wf False kl vl refl]
    let ?b = "\<lparr>se_in_use = True, se_key = k, se_value = v\<rparr> # es"
    have c: "sh_elements h + 1 = word_of_nat (shash_count ((sh_table h)[?i := ?b]))"
      using count [of ?b] b(3) el by simp
    note r = shash_replace [OF inv kl b(1) b(2) [folded en(2)] c]
    show ?thesis using r en(1) ld False l by (simp add: shash_put_def)
  next
    case u: True
    show ?thesis
    proof (cases "chain_find k (e # es) = None")
      case True
      note b = bucket_put_chain [OF wf u True kl vl refl]
      let ?b = "e # \<lparr>se_in_use = True, se_key = k, se_value = v\<rparr> # es"
      have c: "sh_elements h + 1 = word_of_nat (shash_count ((sh_table h)[?i := ?b]))"
        using count [of ?b] b(3) el by simp
      note r = shash_replace [OF inv kl b(1) b(2) [folded en(2)] c]
      show ?thesis using r en(1) ld u l True by (simp add: shash_put_def del: chain_find.simps)
    next
      case f: False
      note b = bucket_put_update [OF wf u f vl]
      let ?b = "chain_update k v (e # es)"
      have c: "sh_elements h = word_of_nat (shash_count ((sh_table h)[?i := ?b]))"
        using count [of ?b] b(3) el by simp
      have "map_of (bucket_entries ?b) = (map_of (bucket_entries (sh_table h ! ?i)))(k \<mapsto> v)"
        using b(2) by (simp only: en(2))
      note r = shash_replace [OF inv kl b(1) this c]
      have "map_of (bucket_entries (e # es)) k \<noteq> None"
        using f u chain_find_entries(2) [of k "e # es"] by (auto simp: bucket_entries_def split: if_splits)
      then have m: "\<not> many h" using lk kl en(2) by (auto simp: shash_map_def)
      have "(if big (h1\<lparr>sh_table := t\<rparr>) then h1\<lparr>sh_table := t, sh_biglock := False\<rparr>
          else h1\<lparr>sh_table := t\<rparr>) = h\<lparr>sh_table := t, sh_elements := sh_elements h\<rparr>" for t
      proof -
        have "h1\<lparr>sh_table := t\<rparr> = h1\<lparr>sh_table := t, sh_elements := sh_elements h\<rparr>"
          using l(1) by (cases h1) simp
        moreover have "h1\<lparr>sh_table := t, sh_biglock := False\<rparr>
            = h1\<lparr>sh_table := t, sh_elements := sh_elements h, sh_biglock := False\<rparr>"
          using l(1) by (cases h1) simp
        ultimately show ?thesis using l(4) [of "sh_elements h" t] l(3) m
          by (simp add: shash_unlock_def big_def many_def split: if_splits)
      qed
      then show ?thesis using r en(1) ld u l f
        by (simp add: shash_put_def Let_def del: chain_find.simps chain_update.simps)
    qed
  qed
qed

text \<open>What an operation finds in the bucket, in terms of the map.\<close>

lemma shash_enter_lookup:
  assumes inv: "shash_inv h" and k: "shash_fits_key h k"
  shows "\<exists>h1 e es. shash_enter h k = Some (shash_hash h k, h1, e, es) \<and>
    sh_table h ! shash_hash h k = e # es \<and> locked_as h (shash_hash h k) h1 \<and>
    load k 0 (unat (sh_key_len h)) = Some k \<and>
    (shash_map h k = None \<longleftrightarrow> \<not> se_in_use e \<or> chain_find k (e # es) = None) \<and>
    (\<forall>f. se_in_use e \<longrightarrow> chain_find k (e # es) = Some f \<longrightarrow> shash_map h k = Some (se_value f))"
proof -
  from shash_enter_ok [OF inv, of k] obtain h1 e es where en:
    "shash_enter h k = Some (shash_hash h k, h1, e, es)" "sh_table h ! shash_hash h k = e # es"
    "locked_as h (shash_hash h k) h1" by blast
  have kl: "length k = unat (sh_key_len h)" using k by (simp add: shash_fits_key_def)
  have m: "shash_map h k = (if se_in_use e
      then map_of (map (\<lambda>e. (se_key e, se_value e)) (e # es)) k else None)"
    using kl en(2) by (simp add: shash_map_def bucket_entries_def)
  have "map_of (map (\<lambda>e. (se_key e, se_value e)) (e # es)) k = None \<longleftrightarrow> k \<notin> se_key ` set (e # es)"
    by (simp add: map_of_eq_None_iff image_image)
  then have "shash_map h k = None \<longleftrightarrow> \<not> se_in_use e \<or> chain_find k (e # es) = None"
    unfolding m chain_find_entries(1) by (cases "se_in_use e") (simp_all del: list.set list.map)
  moreover have "shash_map h k = Some (se_value f)" if "se_in_use e" "chain_find k (e # es) = Some f" for f
    using chain_find_entries(2) [OF that(2)] that(1) unfolding m by simp
  ultimately show ?thesis using en kl by (auto simp: load_def simp del: chain_find.simps)
qed

lemma shash_get_ok:
  assumes inv: "shash_inv h" and k: "shash_fits_key h k"
  shows "shash_get h k True
    = Some (if shash_map h k = None then SHASH_ERR_NOTFOUND else SHASH_OK, shash_map h k, h)"
proof -
  from shash_enter_lookup [OF assms] obtain h1 e es where en:
    "shash_enter h k = Some (shash_hash h k, h1, e, es)" "locked_as h (shash_hash h k) h1"
    "load k 0 (unat (sh_key_len h)) = Some k"
    "shash_map h k = None \<longleftrightarrow> \<not> se_in_use e \<or> chain_find k (e # es) = None"
    "\<forall>f. se_in_use e \<longrightarrow> chain_find k (e # es) = Some f \<longrightarrow> shash_map h k = Some (se_value f)"
    by (elim exE conjE) (rule that; assumption)
  have ul: "shash_unlock h1 (shash_hash h k) = h" using en(2) by (simp add: locked_as_def)
  show ?thesis
  proof (cases "se_in_use e \<and> chain_find k (e # es) \<noteq> None")
    case True
    then show ?thesis using en ul by (auto simp: shash_get_def simp del: chain_find.simps)
  next
    case False
    then have "shash_map h k = None" using en(4) by blast
    then show ?thesis using False en(1,3) ul
      by (auto simp: shash_get_def simp del: chain_find.simps split: option.split)
  qed
qed

lemma shash_put_unique_ok:
  assumes inv: "shash_inv h" and k: "shash_fits_key h k" and v: "shash_fits_value h v"
  shows "shash_put_unique env h k v =
    (if shash_map h k = None then shash_put env h k v else Some (SHASH_ERR_FOUND, h))"
proof -
  from shash_enter_lookup [OF inv k] obtain h1 e es where en:
    "shash_enter h k = Some (shash_hash h k, h1, e, es)" "locked_as h (shash_hash h k) h1"
    "load k 0 (unat (sh_key_len h)) = Some k"
    "shash_map h k = None \<longleftrightarrow> \<not> se_in_use e \<or> chain_find k (e # es) = None"
    by (elim exE conjE) (rule that; assumption)
  have ld: "load v 0 (unat (sh_value_len h)) = Some v" using v by (simp add: load_def shash_fits_value_def)
  have ul: "shash_unlock h1 (shash_hash h k) = h" using en(2) by (simp add: locked_as_def)
  show ?thesis
    using en ld ul by (auto simp: shash_put_unique_def shash_put_def simp del: chain_find.simps)
qed

lemma shash_delete_ok:
  assumes inv: "shash_inv h" and k: "shash_fits_key h k"
  shows "\<exists>h'. shash_delete h k = Some (if shash_map h k = None then SHASH_ERR_NOTFOUND else SHASH_OK, h') \<and>
    shash_get_and_delete h k
      = Some (if shash_map h k = None then SHASH_ERR_NOTFOUND else SHASH_OK, shash_map h k, h') \<and>
    shash_delete_lockfree h k = Some (if shash_map h k = None then SHASH_ERR_NOTFOUND else SHASH_OK, h') \<and>
    shash_inv h' \<and> shash_map h' = (shash_map h)(k := None) \<and> sh_key_len h' = sh_key_len h \<and>
    sh_value_len h' = sh_value_len h \<and> sh_flags h' = sh_flags h"
proof -
  let ?i = "shash_hash h k"
  from shash_enter_lookup [OF assms] obtain h1 e es where en:
    "shash_enter h k = Some (?i, h1, e, es)" "locked_as h ?i h1"
    "load k 0 (unat (sh_key_len h)) = Some k"
    "shash_map h k = None \<longleftrightarrow> \<not> se_in_use e \<or> chain_find k (e # es) = None"
    "\<forall>f. se_in_use e \<longrightarrow> chain_find k (e # es) = Some f \<longrightarrow> shash_map h k = Some (se_value f)"
    "sh_table h ! ?i = e # es"
    by (elim exE conjE) (rule that; assumption)
  have l: "sh_elements h1 = sh_elements h" "sh_table h1 = sh_table h"
    "\<And>t n. shash_unlock (h1\<lparr>sh_table := t, sh_elements := n\<rparr>) ?i = h\<lparr>sh_table := t, sh_elements := n\<rparr>"
    "shash_unlock h1 ?i = h"
    using en(2) by (simp_all add: locked_as_def)
  have i: "?i < length (sh_table h)" and el: "sh_elements h = word_of_nat (shash_count (sh_table h))"
    and bk: "shash_bucket h k = Some ?i"
    using inv shash_hash_less by (simp_all add: shash_inv_def shash_wf_def shash_bucket_def shash_hash_def)
  have kl: "length k = unat (sh_key_len h)" using k by (simp add: shash_fits_key_def)
  show ?thesis
  proof (cases "se_in_use e \<and> chain_find k (e # es) \<noteq> None")
    case False
    then have n: "shash_map h k = None" using en(4) by blast
    then have "(shash_map h)(k := None) = shash_map h" by (simp add: fun_upd_idem)
    moreover have "shash_get_and_delete h k = Some (SHASH_ERR_NOTFOUND, None, h)"
      using False en(1,3) l(4) by (auto simp: shash_get_and_delete_def simp del: chain_find.simps split: option.split)
    moreover have "\<not> se_in_use e \<or> chain_find k (e # es) = None" using False by blast
    ultimately show ?thesis using en(1,3,6) l(4) n inv i bk
      by (simp add: shash_delete_def shash_delete_lockfree_def del: chain_find.simps)
  next
    case True
    note wf = shash_bucket_wf [OF inv, of k, unfolded en(6)]
    from True obtain f where u: "se_in_use e" and f: "chain_find k (e # es) = Some f" by blast
    have sm: "shash_map h k = Some (se_value f)" using en(5) u f by blast
    have fn: "chain_find k (e # es) \<noteq> None" using f by simp
    note b = bucket_delete_ok [OF wf u fn]
    let ?b = "bucket_delete k e es"
    have "shash_count ((sh_table h)[?i := ?b]) + 1 = shash_count (sh_table h)"
      using shash_count_update [OF i, of ?b] b(3) en(6) by simp
    then have c: "sh_elements h - 1 = word_of_nat (shash_count ((sh_table h)[?i := ?b]))"
      using el by (metis add_diff_cancel_right' of_nat_1 of_nat_add)
    have m: "map_of (bucket_entries ?b) = (map_of (bucket_entries (sh_table h ! ?i)))(k := None)"
      using b(2) by (simp only: en(6))
    note r = shash_replace [OF inv kl b(1) m c]
    have "\<not> (\<not> se_in_use e \<or> chain_find k (e # es) = None)" using True by blast
    then show ?thesis using r en(1,3,6) u f l sm i bk
      by (simp add: shash_delete_def shash_delete_lockfree_def shash_get_and_delete_def del: chain_find.simps)
  qed
qed

subsection \<open>The table as a dictionary\<close>

definition dict_put :: "(nat \<Rightarrow> u8) \<Rightarrow> block \<Rightarrow> block \<Rightarrow> shash \<Rightarrow> shash option" where
  "dict_put g k v h = do { (rv, h') \<leftarrow> shash_put (Some g) h k v; if rv = SHASH_OK then Some h' else None }"

definition dict_del :: "block \<Rightarrow> shash \<Rightarrow> (bool \<times> shash) option" where
  "dict_del k h = do { (rv, h') \<leftarrow> shash_delete h k; Some (rv = SHASH_OK, h') }"

definition dict_get :: "block \<Rightarrow> shash \<Rightarrow> (block option \<times> shash) option" where
  "dict_get k h = do { (rv, v, h') \<leftarrow> shash_get h k True; Some (v, h') }"

definition shash_dict_inv :: "shash \<Rightarrow> bool" where
  "shash_dict_inv h \<longleftrightarrow> shash_inv h \<and> \<not> many h"

interpretation hash: dict shash_dict_inv shash_map shash_fits_key shash_fits_value
  "dict_put g" dict_del dict_get for g
proof (unfold_locales, goal_cases)
  case (1 h k v)
  then have "shash_inv h" "\<not> many h \<or> shash_map h k = None" by (simp_all add: shash_dict_inv_def)
  from shash_put_ok [OF this(1) 1(2,3) this(2), of g] obtain h' where h':
    "shash_put (Some g) h k v = Some (SHASH_OK, h')" "shash_inv h'"
    "shash_map h' = (shash_map h)(k \<mapsto> v)" "sh_key_len h' = sh_key_len h"
    "sh_value_len h' = sh_value_len h" "sh_flags h' = sh_flags h" by blast
  then show ?case using 1(1)
    by (auto simp: dict_put_def shash_dict_inv_def many_def shash_fits_key_def shash_fits_value_def)
next
  case (2 h k)
  then have "shash_inv h" by (simp add: shash_dict_inv_def)
  from shash_delete_ok [OF this 2(2)] obtain h' where h':
    "shash_delete h k = Some (if shash_map h k = None then SHASH_ERR_NOTFOUND else SHASH_OK, h')"
    "shash_inv h'" "shash_map h' = (shash_map h)(k := None)" "sh_key_len h' = sh_key_len h"
    "sh_value_len h' = sh_value_len h" "sh_flags h' = sh_flags h" by blast
  then show ?case using 2(1)
    by (auto simp: dict_del_def shash_dict_inv_def many_def shash_fits_key_def shash_fits_value_def
        shash_codes)
next
  case (3 h k)
  then have "shash_inv h" by (simp add: shash_dict_inv_def)
  from shash_get_ok [OF this 3(2)] show ?case by (simp add: dict_get_def)
qed

lemma shash_create_ok:
  assumes "sz \<noteq> 0" and "\<not> (flags AND SHASH_CR_MT_BIGLOCK \<noteq> 0 \<and> flags AND SHASH_CR_MT_MANYLOCK \<noteq> 0)"
  shows "\<exists>h. shash_create (Some g1) (Some g2) True (Some g3) h_fn kl vl sz flags = (SHASH_OK, Some h) \<and>
    shash_inv h \<and> shash_map h = Map.empty \<and> sh_key_len h = kl \<and> sh_value_len h = vl \<and>
    sh_flags h = flags"
proof -
  obtain h where c: "shash_create (Some g1) (Some g2) True (Some g3) h_fn kl vl sz flags = (SHASH_OK, Some h)"
    and s: "sh_key_len h = kl" "sh_value_len h = vl" "sh_flags h = flags" "sh_table_len h = sz"
    "length (sh_table h) = unat sz" "sh_elements h = 0" "\<not> sh_biglock h"
    "sh_lock_table h = (if many h then replicate (unat sz) False else [])"
    and t: "\<And>i. i < unat sz \<Longrightarrow> \<exists>e. sh_table h ! i = [e] \<and> \<not> se_in_use e"
    using assms by (auto simp: shash_create_def Let_def many_def)
  have be: "bucket_entries (sh_table h ! i) = []" if "i < unat sz" for i
    using t [OF that] by (auto simp: bucket_entries_def)
  have "bucket_wf (unat kl) (unat vl) (shash_hash h) i (sh_table h ! i)" if "i < unat sz" for i
    using t [OF that] by (auto simp: bucket_wf_def bucket_entries_def)
  moreover have "shash_count (sh_table h) = 0"
    unfolding shash_count_def using be s(5) by (auto simp: sum_list_eq_0_iff in_set_conv_nth)
  ultimately have "shash_inv h"
    using s assms by (auto simp: shash_inv_def shash_wf_def shash_free_def big_def many_def)
  moreover have "shash_map h = Map.empty"
    using be shash_hash_less [of h] s(4) assms(1) by (auto simp: shash_map_def fun_eq_iff)
  ultimately show ?thesis using c s by blast
qed

subsection \<open>Locks that stay held\<close>

lemma shash_put_leak:
  assumes inv: "shash_inv h" and k: "shash_fits_key h k" and v: "shash_fits_value h v"
    and m: "many h" and f: "shash_map h k \<noteq> None"
  shows "\<exists>h'. shash_put env h k v = Some (SHASH_OK, h') \<and> shash_get h' k True = None"
proof -
  let ?i = "shash_hash h k"
  from shash_enter_lookup [OF inv k] obtain h1 e es where en:
    "shash_enter h k = Some (?i, h1, e, es)" "sh_table h ! ?i = e # es"
    "load k 0 (unat (sh_key_len h)) = Some k"
    "shash_map h k = None \<longleftrightarrow> \<not> se_in_use e \<or> chain_find k (e # es) = None"
    by (elim exE conjE) (rule that; assumption)
  have ld: "load v 0 (unat (sh_value_len h)) = Some v" using v by (simp add: load_def shash_fits_value_def)
  have nb: "\<not> big h" using inv m by (simp add: shash_inv_def shash_free_def)
  have c: "se_in_use e" "chain_find k (e # es) \<noteq> None" using en(4) f by blast+
  have i: "?i < length (sh_lock_table h)"
    using inv m shash_hash_less by (simp add: shash_inv_def shash_wf_def shash_free_def)
  have bk: "shash_bucket h k = Some ?i"
    using inv by (simp add: shash_inv_def shash_wf_def shash_bucket_def shash_hash_def)
  have h1: "h1 = h\<lparr>sh_lock_table := (sh_lock_table h)[?i := True]\<rparr>"
    using en(1,2) nb m bk
    by (auto simp: shash_enter_def shash_lock_def bind_eq_Some_conv split: if_splits list.splits)
  define h' where "h' = h1\<lparr>sh_table := (sh_table h1)[?i := chain_update k v (e # es)]\<rparr>"
  have "shash_put env h k v = Some (SHASH_OK, h')"
    using en(1,3) ld c nb h1
    by (simp add: shash_put_def Let_def h'_def big_def del: chain_find.simps chain_update.simps)
  moreover have "shash_bucket h' k = Some ?i" using bk h1 by (simp add: shash_bucket_def h'_def split: if_splits)
  moreover have "shash_lock h' ?i = None"
    using nb m h1 i by (simp add: shash_lock_def h'_def big_def many_def)
  ultimately show ?thesis by (auto simp: shash_get_def shash_enter_def)
qed

subsection \<open>The deleting pass\<close>

text \<open>The callbacks of the program ask for the deletion of the entries that meet a condition.\<close>

definition delete_if :: "(block \<Rightarrow> block \<Rightarrow> bool) \<Rightarrow> 's shash_reduce_fn" where
  "delete_if P k v u = (if P k v then SHASH_REDUCE_DELETE else 0, v, u)"

definition elem_sat :: "(block \<Rightarrow> block \<Rightarrow> bool) \<Rightarrow> shash_elem \<Rightarrow> bool" where
  "elem_sat P e \<longleftrightarrow> P (se_key e) (se_value e)"

lemma chain_reduce_delete_tail:
  "\<forall>e \<in> set es. se_in_use e \<Longrightarrow> chain_reduce_delete (delete_if P) False u es
    = (0, filter (\<lambda>e. \<not> elem_sat P e) es, length (filter (elem_sat P) es), u)"
  by (induction es) (auto simp: delete_if_def elem_sat_def SHASH_REDUCE_DELETE_def)

lemma chain_reduce_delete_head:
  "es \<noteq> [] \<Longrightarrow> \<forall>e \<in> set es. se_in_use e \<Longrightarrow> chain_reduce_delete (delete_if P) True u es
    = (0, if \<forall>e \<in> set es. elem_sat P e then [(last es)\<lparr>se_in_use := False\<rparr>]
          else filter (\<lambda>e. \<not> elem_sat P e) es, length (filter (elem_sat P) es), u)"
proof (induction es)
  case (Cons e es)
  have f: "delete_if P (se_key e) (se_value e) u
      = (if elem_sat P e then SHASH_REDUCE_DELETE else 0, se_value e, u)"
    by (simp add: delete_if_def elem_sat_def)
  have use: "se_in_use e" "\<forall>x \<in> set es. se_in_use x" using Cons.prems(2) by simp_all
  show ?case
  proof (cases "elem_sat P e")
    case True
    then show ?thesis using Cons.IH use f by (cases "es = []") auto
  next
    case False
    then show ?thesis using use f chain_reduce_delete_tail [OF use(2), of P u]
      by (simp add: SHASH_REDUCE_DELETE_def)
  qed
qed simp

lemma bucket_reduce_delete:
  assumes wf: "bucket_wf kl vl hash i b"
  shows "\<exists>b'. chain_reduce_delete (delete_if P) True u b
      = (0, b', length (bucket_entries b) - length (bucket_entries b'), u) \<and> bucket_wf kl vl hash i b' \<and>
    bucket_entries b' = filter (\<lambda>(k, v). \<not> P k v) (bucket_entries b)"
proof -
  from wf obtain e es where b: "b = e # es" by (cases b) (auto simp: bucket_wf_def)
  show ?thesis
  proof (cases "se_in_use e")
    case False
    then show ?thesis using wf b by (auto simp: bucket_entries_def)
  next
    case True
    then have use: "\<forall>x \<in> set b. se_in_use x" using wf b by (auto simp: bucket_wf_def)
    have be: "bucket_entries b = map (\<lambda>e. (se_key e, se_value e)) b"
      using True b by (simp add: bucket_entries_def)
    let ?f = "filter (\<lambda>e. \<not> elem_sat P e) b"
    have fe: "map (\<lambda>e. (se_key e, se_value e)) ?f = filter (\<lambda>(k, v). \<not> P k v) (bucket_entries b)"
      unfolding be by (simp add: filter_map o_def elem_sat_def)
    have cnt: "length (filter (elem_sat P) b) = length b - length ?f"
      using sum_length_filter_compl [of "elem_sat P" b] by simp
    have d: "distinct (map fst (filter (\<lambda>(k, v). \<not> P k v) (bucket_entries b)))"
      using wf by (auto simp: bucket_wf_def intro: distinct_map_filter)
    note h = chain_reduce_delete_head [of b P u, OF _ use]
    show ?thesis
    proof (cases "\<forall>x \<in> set b. elem_sat P x")
      case all: True
      then have f0: "?f = []" by simp
      then have "filter (\<lambda>(k, v). \<not> P k v) (bucket_entries b) = []" using fe by simp
      moreover have "length (filter (elem_sat P) b) = length (bucket_entries b)"
        using cnt f0 be by simp
      moreover have "bucket_entries [(last b)\<lparr>se_in_use := False\<rparr>] = []" by (simp add: bucket_entries_def)
      moreover from this have "bucket_wf kl vl hash i [(last b)\<lparr>se_in_use := False\<rparr>]"
        by (simp add: bucket_wf_def)
      moreover have "chain_reduce_delete (delete_if P) True u b
          = (0, [(last b)\<lparr>se_in_use := False\<rparr>], length (filter (elem_sat P) b), u)"
        using h all b by (simp del: chain_reduce_delete.simps)
      ultimately show ?thesis by (intro exI [of _ "[(last b)\<lparr>se_in_use := False\<rparr>]"]) simp
    next
      case False
      then have ne: "?f \<noteq> []" by (auto simp: filter_empty_conv)
      have fu: "\<forall>x \<in> set ?f. se_in_use x" using use by simp
      then have "se_in_use (hd ?f)" using ne by (meson hd_in_set)
      then have be': "bucket_entries ?f = filter (\<lambda>(k, v). \<not> P k v) (bucket_entries b)"
        using ne fe by (simp add: bucket_entries_def)
      moreover have "bucket_wf kl vl hash i ?f"
        using ne fu \<open>se_in_use (hd ?f)\<close> d be' wf
        by (auto simp: bucket_wf_def dest: list.set_sel(2) [rotated])
      moreover have "length (filter (elem_sat P) b) = length (bucket_entries b) - length (bucket_entries ?f)"
        using cnt arg_cong [OF fe, of length] by (simp add: be be' del: filter.simps)
      ultimately show ?thesis using h False b by auto
    qed
  qed
qed

lemma buckets_reduce_delete_ok:
  assumes "\<forall>j < length bs. bucket_wf kl vl hash (i + j) (bs ! j)"
  shows "\<exists>bs' n. buckets_reduce_delete (\<lambda>_. False) (delete_if P) i u bs = Some (0, bs', n, u) \<and>
    length bs' = length bs \<and> shash_count bs' + n = shash_count bs \<and>
    (\<forall>j < length bs. bucket_wf kl vl hash (i + j) (bs' ! j) \<and>
      bucket_entries (bs' ! j) = filter (\<lambda>(k, v). \<not> P k v) (bucket_entries (bs ! j)))"
  using assms
proof (induction bs arbitrary: i)
  case Nil
  then show ?case by simp
next
  case (Cons b bs)
  have wf: "bucket_wf kl vl hash i b" using Cons.prems by force
  from bucket_reduce_delete [OF wf, of P u] obtain b' where b':
    "chain_reduce_delete (delete_if P) True u b = (0, b', length (bucket_entries b) - length (bucket_entries b'), u)"
    "bucket_wf kl vl hash i b'" "bucket_entries b' = filter (\<lambda>(k, v). \<not> P k v) (bucket_entries b)" by blast
  have "\<forall>j < length bs. bucket_wf kl vl hash (Suc i + j) (bs ! j)" using Cons.prems by force
  from Cons.IH [OF this] obtain bs' n where bs': "buckets_reduce_delete (\<lambda>_. False) (delete_if P) (Suc i) u bs
      = Some (0, bs', n, u)" "length bs' = length bs" "shash_count bs' + n = shash_count bs"
    "\<forall>j < length bs. bucket_wf kl vl hash (Suc i + j) (bs' ! j) \<and>
      bucket_entries (bs' ! j) = filter (\<lambda>(k, v). \<not> P k v) (bucket_entries (bs ! j))" by blast
  let ?m = "length (bucket_entries b) - length (bucket_entries b')"
  have "length (bucket_entries b') \<le> length (bucket_entries b)" using b'(3) by simp
  then have "shash_count (b' # bs') + (?m + n) = shash_count (b # bs)"
    using bs'(3) by (simp add: shash_count_def)
  moreover have "\<forall>j < length (b # bs). bucket_wf kl vl hash (i + j) ((b' # bs') ! j) \<and>
      bucket_entries ((b' # bs') ! j) = filter (\<lambda>(k, v). \<not> P k v) (bucket_entries ((b # bs) ! j))"
    using b' bs'(4) by (auto simp: nth_Cons split: nat.split)
  moreover have "buckets_reduce_delete (\<lambda>_. False) (delete_if P) i u (b # bs) = Some (0, b' # bs', ?m + n, u)"
    using b'(1) bs'(1) by simp
  moreover have "length (b' # bs') = length (b # bs)" using bs'(2) by simp
  ultimately show ?case by blast
qed

lemma map_of_filter_distinct:
  "distinct (map fst xs) \<Longrightarrow> map_of (filter (\<lambda>(k, v). Q k v) xs) k
     = (case map_of xs k of None \<Rightarrow> None | Some v \<Rightarrow> if Q k v then Some v else None)"
proof (induction xs)
  case (Cons x xs)
  obtain a b where x: "x = (a, b)" by (cases x)
  show ?case
  proof (cases "a = k")
    case True
    then have "map_of xs k = None" using Cons.prems x by (auto simp: map_of_eq_None_iff image_iff)
    then have "map_of (filter (\<lambda>(k, v). Q k v) xs) k = None" using Cons by simp
    then show ?thesis using True x by simp
  next
    case False
    then show ?thesis using Cons x by simp
  qed
qed simp

lemma buckets_reduce_delete_free:
  "(\<And>j. j < length bs \<Longrightarrow> \<not> g (i + j)) \<Longrightarrow>
     buckets_reduce_delete g f i u bs = buckets_reduce_delete (\<lambda>_. False) f i u bs"
proof (induction bs arbitrary: i u)
  case (Cons b bs)
  have "\<not> g i" using Cons.prems [of 0] by simp
  moreover have "buckets_reduce_delete g f (Suc i) u' bs = buckets_reduce_delete (\<lambda>_. False) f (Suc i) u' bs"
    for u' using Cons.prems [of "Suc _"] by (intro Cons.IH) fastforce
  ultimately show ?case by (auto split: prod.splits)
qed simp

lemma shash_reduce_delete_ok:
  assumes inv: "shash_inv h"
  shows "\<exists>h'. shash_reduce_delete h (delete_if P) u = Some (0, h', u) \<and> shash_inv h' \<and>
    (\<forall>k. shash_map h' k
      = (case shash_map h k of None \<Rightarrow> None | Some v \<Rightarrow> if P k v then None else Some v))"
proof -
  have wf: "shash_wf h" and fr: "shash_free h" using inv by (simp_all add: shash_inv_def)
  let ?t = "sh_table h"
  have held: "\<not> (many h \<and> sh_lock_table h ! j)" if "j < length ?t" for j
    using fr that by (auto simp: shash_free_def) (metis nth_mem)
  have "\<forall>j < length ?t. bucket_wf (unat (sh_key_len h)) (unat (sh_value_len h)) (shash_hash h) (0 + j) (?t ! j)"
    using wf by (simp add: shash_wf_def)
  from buckets_reduce_delete_ok [OF this, of P u] obtain t n where t:
    "buckets_reduce_delete (\<lambda>_. False) (delete_if P) 0 u ?t = Some (0, t, n, u)" "length t = length ?t"
    "shash_count t + n = shash_count ?t"
    "\<forall>j < length ?t. bucket_wf (unat (sh_key_len h)) (unat (sh_value_len h)) (shash_hash h) (0 + j) (t ! j) \<and>
      bucket_entries (t ! j) = filter (\<lambda>(k, v). \<not> P k v) (bucket_entries (?t ! j))" by blast
  let ?h = "h\<lparr>sh_table := t, sh_elements := sh_elements h - word_of_nat n\<rparr>"
  have hash: "shash_hash ?h = shash_hash h" by (simp add: shash_hash_def fun_eq_iff)
  have "sh_elements h = word_of_nat (shash_count t) + word_of_nat n"
    using wf t(3) by (metis of_nat_add shash_wf_def)
  then have "sh_elements h - word_of_nat n = word_of_nat (shash_count t)" by simp
  then have "shash_inv ?h"
    using wf fr t(2,4) hash by (simp add: shash_inv_def shash_wf_def shash_free_def big_def many_def)
  moreover have "shash_reduce_delete h (delete_if P) u = Some (0, ?h, u)"
    using fr buckets_reduce_delete_free [of ?t "\<lambda>i. many h \<and> sh_lock_table h ! i" 0 "delete_if P" u] held t(1)
    by (simp add: shash_reduce_delete_def shash_free_def)
  moreover have "shash_map ?h k
      = (case shash_map h k of None \<Rightarrow> None | Some v \<Rightarrow> if P k v then None else Some v)" for k
  proof -
    have i: "shash_hash h k < length ?t" using wf shash_hash_less by (simp add: shash_wf_def)
    then have "distinct (map fst (bucket_entries (?t ! shash_hash h k)))"
      using wf by (auto simp: shash_wf_def bucket_wf_def)
    then show ?thesis using t(4) i map_of_filter_distinct [of _ "\<lambda>k v. \<not> P k v" k] hash
      by (auto simp: shash_map_def split: option.split)
  qed
  ultimately show ?thesis by blast
qed

subsection \<open>Passes over all entries\<close>

definition shash_entries :: "shash \<Rightarrow> (block \<times> block) list" where
  "shash_entries h = concat (map bucket_entries (sh_table h))"

lemma length_shash_entries: "length (shash_entries h) = shash_count (sh_table h)"
  by (simp add: shash_entries_def shash_count_def length_concat comp_def)

lemma shash_wf_bucket:
  "shash_wf h \<Longrightarrow> i < length (sh_table h) \<Longrightarrow>
     bucket_wf (unat (sh_key_len h)) (unat (sh_value_len h)) (shash_hash h) i (sh_table h ! i)"
  by (simp add: shash_wf_def)

lemma shash_entries_map: "shash_wf h \<Longrightarrow> (k, v) \<in> set (shash_entries h) \<longleftrightarrow> shash_map h k = Some v"
proof
  assume wf: "shash_wf h" and "(k, v) \<in> set (shash_entries h)"
  then obtain b where "b \<in> set (sh_table h)" "(k, v) \<in> set (bucket_entries b)" by (auto simp: shash_entries_def)
  then obtain i where i: "i < length (sh_table h)" "(k, v) \<in> set (bucket_entries (sh_table h ! i))" by (metis in_set_conv_nth)
  then have b: "length k = unat (sh_key_len h)" "shash_hash h k = i" "distinct (map fst (bucket_entries (sh_table h ! i)))"
    using shash_wf_bucket [OF wf i(1)] unfolding bucket_wf_def by auto
  then show "shash_map h k = Some v" using i(2) by (simp add: shash_map_def map_of_eq_Some_iff)
next
  assume wf: "shash_wf h" and m: "shash_map h k = Some v"
  then have "shash_hash h k < length (sh_table h)" using shash_hash_less by (simp add: shash_wf_def)
  moreover have "(k, v) \<in> set (bucket_entries (sh_table h ! shash_hash h k))"
    using m by (auto simp: shash_map_def split: if_splits dest: map_of_SomeD)
  ultimately show "(k, v) \<in> set (shash_entries h)" unfolding shash_entries_def by (force intro: nth_mem)
qed

lemma distinct_buckets:
  assumes "\<forall>j < length bs. bucket_wf kl vl hash (i + j) (bs ! j)"
  shows "distinct (map fst (concat (map bucket_entries bs))) \<and> (\<forall>k \<in> fst ` set (concat (map bucket_entries bs)). i \<le> hash k)"
  using assms
proof (induction bs arbitrary: i)
  case (Cons b bs)
  have b: "bucket_wf kl vl hash i b" using Cons.prems by force
  have "\<forall>j < length bs. bucket_wf kl vl hash (Suc i + j) (bs ! j)" using Cons.prems by force
  note IH = Cons.IH [OF this]
  have "hash k = i" if "k \<in> fst ` set (bucket_entries b)" for k using b that by (auto simp: bucket_wf_def)
  moreover have "distinct (map fst (bucket_entries b))" using b by (simp add: bucket_wf_def)
  ultimately show ?case using IH by fastforce
qed simp

lemma distinct_shash_entries: "shash_wf h \<Longrightarrow> distinct (map fst (shash_entries h))"
  using distinct_buckets [of "sh_table h" "unat (sh_key_len h)" "unat (sh_value_len h)" "shash_hash h" 0]
  by (simp add: shash_wf_def shash_entries_def)

lemma shash_size_card:
  assumes "shash_wf h"
  shows "sh_elements h = of_nat (card (dom (shash_map h)))"
proof -
  have "dom (shash_map h) = fst ` set (shash_entries h)"
    using shash_entries_map [OF assms] by (force simp: dom_def image_iff)
  also have "card \<dots> = length (shash_entries h)"
    using distinct_card [OF distinct_shash_entries [OF assms]] by simp
  finally show ?thesis using assms by (simp add: length_shash_entries shash_wf_def)
qed

text \<open>A pass that only reads visits every entry once.\<close>

lemma chain_reduce_reads:
  assumes "\<And>k v u. f k v u = (0, v, F (k, v) u)" and "\<forall>e \<in> set es. se_in_use e"
  shows "chain_reduce f u es = (0, es, fold F (map (\<lambda>e. (se_key e, se_value e)) es) u)"
  using assms(2) by (induction es arbitrary: u) (auto simp: assms(1))

lemma bucket_reduce_reads:
  assumes "\<And>k v u. f k v u = (0, v, F (k, v) u)" and "bucket_wf kl vl hash i b"
  shows "chain_reduce f u b = (0, b, fold F (bucket_entries b) u)"
proof (cases b)
  case (Cons e es)
  then show ?thesis using chain_reduce_reads [of f F b u] assms
    by (cases "se_in_use e") (auto simp: bucket_entries_def bucket_wf_def)
qed (use assms(2) in \<open>simp add: bucket_wf_def\<close>)

lemma buckets_reduce_reads:
  assumes "\<And>k v u. f k v u = (0, v, F (k, v) u)" and "\<forall>j < length bs. bucket_wf kl vl hash (i + j) (bs ! j)"
    and "\<forall>j < length bs. \<not> held (i + j)"
  shows "buckets_reduce held f i u bs = Some (0, bs, fold F (concat (map bucket_entries bs)) u)"
  using assms(2,3)
proof (induction bs arbitrary: i u)
  case (Cons b bs)
  have b: "bucket_wf kl vl hash i b" "\<not> held i" using Cons.prems by force+
  have "\<forall>j < length bs. bucket_wf kl vl hash (Suc i + j) (bs ! j)" "\<forall>j < length bs. \<not> held (Suc i + j)" using Cons.prems by force+
  from Cons.IH [OF this] show ?case using bucket_reduce_reads [where f = f and F = F, OF assms(1) b(1)] b(2) by simp
qed simp

lemma shash_reduce_reads:
  assumes "shash_inv h" and "\<And>k v u. f k v u = (0, v, F (k, v) u)"
  shows "shash_reduce h f u = Some (0, h, fold F (shash_entries h) u)"
proof -
  have wf: "shash_wf h" and fr: "shash_free h" using assms(1) by (simp_all add: shash_inv_def)
  have "\<forall>j < length (sh_table h). \<not> (many h \<and> sh_lock_table h ! (0 + j))"
    using fr by (auto simp: shash_free_def) (metis nth_mem)
  from buckets_reduce_reads [where f = f and F = F, OF assms(2) _ this, of "unat (sh_key_len h)" "unat (sh_value_len h)" "shash_hash h"] wf fr show ?thesis
    by (simp add: shash_reduce_def shash_entries_def shash_wf_def shash_free_def)
qed

subsection \<open>Properties\<close>

text \<open>A table with one bucket, one-byte keys and values, and two entries.\<close>

definition sample_shash :: "u32 \<Rightarrow> shash" where
  "sample_shash flags = \<lparr>sh_elements = 2, sh_key_len = 1, sh_value_len = 1, sh_flags = flags,
     sh_h_fn = (\<lambda>_. 0), sh_table_len = 1,
     sh_table = [[\<lparr>se_in_use = True, se_key = [1], se_value = [10]\<rparr>,
                  \<lparr>se_in_use = True, se_key = [2], se_value = [20]\<rparr>]],
     sh_biglock = False, sh_lock_table = [False]\<rparr>"

definition sample_ops :: "(block, block) dict_op list" where
  "sample_ops = [Put [1] [5], Put [2] [6], Del [1], Get [2]]"

lemma sample_shash_inv: "shash_inv (sample_shash 4)" "shash_inv (sample_shash 8)"
  by (simp_all add: shash_inv_def shash_wf_def shash_free_def sample_shash_def bucket_wf_def
      bucket_entries_def shash_count_def shash_hash_def big_def many_def
      SHASH_CR_MT_BIGLOCK_def SHASH_CR_MT_MANYLOCK_def)

lemma sample_shash_fields:
  "shash_fits_key (sample_shash f) k \<longleftrightarrow> length k = 1" "shash_fits_value (sample_shash f) k \<longleftrightarrow> length k = 1"
  "shash_map (sample_shash f) = [[1] \<mapsto> [10], [2] \<mapsto> [20]]" "many (sample_shash 8)"
  by (auto simp: shash_fits_key_def shash_fits_value_def sample_shash_def shash_map_def
      bucket_entries_def shash_hash_def many_def SHASH_CR_MT_MANYLOCK_def fun_eq_iff)

text \<open>
  C16: a created table is a dictionary, with the big lock or without locks, for every hash
  function: every run of \<open>shash_put\<close>, \<open>shash_delete\<close> and \<open>shash_get\<close> answers as a finite map
  does, without a fault and without a lock that is left held.
\<close>
theorem shash_run_dict:
  assumes "sz \<noteq> 0" and "flags AND SHASH_CR_MT_MANYLOCK = 0"
    and "\<forall>p \<in> set ops. op_ok (\<lambda>k. length k = unat kl) (\<lambda>v. length v = unat vl) p"
  shows "\<exists>h h'. shash_create (Some g1) (Some g2) True (Some g3) h_fn kl vl sz flags = (SHASH_OK, Some h) \<and>
    dict_run (dict_put g) dict_del dict_get ops h = Some (fst (map_run ops Map.empty), h') \<and>
    shash_inv h' \<and> shash_map h' = snd (map_run ops Map.empty)"
proof -
  from shash_create_ok [OF assms(1), of flags g1 g2 g3 h_fn kl vl] assms(2) obtain h where
    h: "shash_create (Some g1) (Some g2) True (Some g3) h_fn kl vl sz flags = (SHASH_OK, Some h)"
    "shash_inv h" "shash_map h = Map.empty" "sh_key_len h = kl" "sh_value_len h = vl"
    "sh_flags h = flags" by blast
  then have "shash_dict_inv h" using assms(2) by (simp add: shash_dict_inv_def many_def)
  moreover have "shash_fits_key h = (\<lambda>k. length k = unat kl)" "shash_fits_value h = (\<lambda>v. length v = unat vl)"
    using h by (simp_all add: shash_fits_key_def shash_fits_value_def fun_eq_iff)
  ultimately show ?thesis using hash.run_refines [of h ops g] h assms(3)
    by (auto simp: shash_dict_inv_def)
qed

theorem shash_run_dict_witness:
  "\<exists>h h'. shash_create (Some (\<lambda>_. 0)) (Some (\<lambda>_. 0)) True (Some (\<lambda>_. 0)) (\<lambda>_. 7) 1 1 3 4 = (SHASH_OK, Some h) \<and>
    dict_run (dict_put (\<lambda>_. 0)) dict_del dict_get sample_ops h
      = Some (fst (map_run sample_ops Map.empty), h') \<and>
    shash_inv h' \<and> shash_map h' = snd (map_run sample_ops Map.empty)"
  by (rule shash_run_dict) (simp_all add: SHASH_CR_MT_MANYLOCK_def sample_ops_def)

text \<open>
  C17: \<open>shash_put_unique\<close> stores a new key and refuses one that is there, under every locking
  flag, and leaves no lock held.
\<close>
theorem shash_put_unique_spec:
  assumes "shash_inv h" and "shash_fits_key h k" and "shash_fits_value h v"
  shows "\<exists>h'. shash_put_unique (Some g) h k v
      = Some (if shash_map h k = None then SHASH_OK else SHASH_ERR_FOUND, h') \<and> shash_inv h' \<and>
    shash_map h' = (if shash_map h k = None then (shash_map h)(k \<mapsto> v) else shash_map h)"
  using shash_put_unique_ok [OF assms, of "Some g"] shash_put_ok [OF assms, of g] assms(1) by auto

theorem shash_put_unique_spec_witness:
  "\<exists>h'. shash_put_unique (Some (\<lambda>_. 0)) (sample_shash 8) [2] [9] = Some (SHASH_ERR_FOUND, h') \<and>
    shash_inv h' \<and> shash_map h' = [[1] \<mapsto> [10], [2] \<mapsto> [20]]"
  using shash_put_unique_spec [of "sample_shash 8" "[2]" "[9]" "\<lambda>_. 0"]
  by (simp add: sample_shash_inv sample_shash_fields)

text \<open>
  C35: \<open>shash_reduce_delete\<close> with a callback that deletes the entries of a condition removes
  exactly these, keeps the buckets and the element count right (at the head of a bucket as well
  as behind it), and leaves no lock held.
\<close>
theorem shash_reduce_delete_spec:
  assumes "shash_inv h"
  shows "\<exists>h'. shash_reduce_delete h (delete_if P) u = Some (0, h', u) \<and> shash_inv h' \<and>
    (\<forall>k. shash_map h' k
      = (case shash_map h k of None \<Rightarrow> None | Some v \<Rightarrow> if P k v then None else Some v))"
  using assms by (rule shash_reduce_delete_ok)

theorem shash_reduce_delete_spec_witness:
  "\<exists>h'. shash_reduce_delete (sample_shash 4) (delete_if (\<lambda>k v. v = [10])) () = Some (0, h', ()) \<and>
    shash_inv h' \<and> (\<forall>k. shash_map h' k = (case shash_map (sample_shash 4) k of None \<Rightarrow> None
      | Some v \<Rightarrow> if v = [10] then None else Some v))"
  by (rule shash_reduce_delete_spec [of _ "\<lambda>k v. v = [10]"]) (rule sample_shash_inv)

text \<open>
  C33: in a table with a lock for each bucket, \<open>shash_put\<close> of a key that is there returns with
  the lock of the bucket held; the next \<open>shash_get\<close> of the thread in this bucket never returns.
\<close>
theorem shash_put_keeps_bucket_lock:
  assumes "shash_inv h" and "shash_fits_key h k" and "shash_fits_value h v"
    and "many h" and "shash_map h k \<noteq> None"
  shows "\<exists>h'. shash_put env h k v = Some (SHASH_OK, h') \<and> shash_get h' k True = None"
  using assms by (rule shash_put_leak)

theorem shash_put_keeps_bucket_lock_witness:
  "\<exists>h'. shash_put None (sample_shash 8) [1] [9] = Some (SHASH_OK, h') \<and> shash_get h' [1] True = None"
  by (rule shash_put_keeps_bucket_lock) (simp_all add: sample_shash_inv sample_shash_fields)

end
