(* ===== verification/Cl_Proto.thy ===== *)
theory Cl_Proto
  imports Prelude
begin

section \<open>The wire protocol (\<open>src/cf_proto.c\<close>, \<open>include/citrusleaf/proto.h\<close>)\<close>

text \<open>
  Messages are built and read in place: an integer field of a packed structure is stored in the
  byte order of the host and then swapped, or swapped and then loaded. The host is
  little-endian, as the code assumes. Here a structure is its bytes at an offset of a buffer,
  \<open>word_le\<close> and \<open>le_word\<close> are the stores and loads of the host, and a swap reverses the bytes in
  place. Accesses outside of the buffer are faults.
\<close>

subsection \<open>Integers in memory\<close>

definition word_le :: "nat \<Rightarrow> 'a::len word \<Rightarrow> block" where
  "word_le n w = map (\<lambda>i. ucast (drop_bit (8 * i) w)) [0..<n]"

fun le_word :: "block \<Rightarrow> 'a::len word" where
  "le_word [] = 0"
| "le_word (b # bs) = ucast b OR push_bit 8 (le_word bs)"

definition word_be :: "nat \<Rightarrow> 'a::len word \<Rightarrow> block" where
  "word_be n w = rev (word_le n w)"

lemma length_word_le [simp]: "length (word_le n w) = n" "length (word_be n w) = n"
  by (simp_all add: word_le_def word_be_def)

lemma bit_le_word:
  "bit (le_word bs :: 'a::len word) i
     \<longleftrightarrow> i < LENGTH('a) \<and> i div 8 < length bs \<and> bit (bs ! (i div 8)) (i mod 8)"
proof (induction bs arbitrary: i)
  case (Cons b bs)
  show ?case
  proof (cases "i < 8")
    case True
    then show ?thesis by (auto simp: bit_simps)
  next
    case False
    then have d: "i div 8 = Suc ((i - 8) div 8)" "i mod 8 = (i - 8) mod 8"
      by (simp_all add: le_div_geq le_mod_geq)
    have "\<not> bit b i" using False by (auto dest: bit_imp_le_length)
    then show ?thesis using False Cons [of "i - 8"] d by (auto simp: bit_simps)
  qed
qed simp

lemma bit_word_le:
  "j < n \<Longrightarrow> bit (word_le n w ! j) k \<longleftrightarrow> k < 8 \<and> bit w (8 * j + k)" for w :: "'a::len word"
  by (auto simp: word_le_def bit_simps dest: bit_imp_le_length)

lemma le_word_word_le: "LENGTH('a) \<le> 8 * n \<Longrightarrow> le_word (word_le n w) = w" for w :: "'a::len word"
proof (rule bit_word_eqI)
  fix i assume "LENGTH('a) \<le> 8 * n" "i < LENGTH('a)"
  then have "i div 8 < n" by simp
  then show "bit (le_word (word_le n w) :: 'a word) i = bit w i"
    using \<open>i < LENGTH('a)\<close> by (simp add: bit_le_word bit_word_le)
qed

lemma word_le_le_word:
  assumes "8 * length bs \<le> LENGTH('a)"
  shows "word_le (length bs) (le_word bs :: 'a::len word) = bs"
proof (rule nth_equalityI)
  fix j assume "j < length (word_le (length bs) (le_word bs :: 'a word))"
  then have j: "j < length bs" by simp
  show "word_le (length bs) (le_word bs :: 'a word) ! j = bs ! j"
  proof (rule bit_word_eqI)
    fix k assume "k < LENGTH(8)"
    then have k: "k < 8" by simp
    have "8 * j + k < LENGTH('a)" "(8 * j + k) div 8 = j" "(8 * j + k) mod 8 = k"
      using j k assms by auto
    then show "bit (word_le (length bs) (le_word bs :: 'a word) ! j) k = bit (bs ! j) k"
      using j k by (simp add: bit_word_le bit_le_word)
  qed
qed simp

subsection \<open>Swapping in place\<close>

definition swap_bytes :: "block \<Rightarrow> nat \<Rightarrow> nat \<Rightarrow> block option" where
  "swap_bytes buf off n = do { x \<leftarrow> load buf off n; store buf off (rev x) }"

text \<open>
  \<open>cl_proto_swap\<close>: version and type are cleared, the eight bytes swapped, the low 48 bits of the
  result stored as the size, and version and type restored.
\<close>

definition cl_proto_swap :: "block \<Rightarrow> nat \<Rightarrow> block option" where
  "cl_proto_swap buf off = do {
     vt \<leftarrow> load buf off 2;
     buf \<leftarrow> store buf off [0, 0];
     w \<leftarrow> load buf off 8;
     buf \<leftarrow> store buf (off + 2) (take 6 (rev w));
     store buf off vt
   }"

text \<open>The header \<open>cl_msg\<close>: the integers at the offsets 6, 10, 14, 18 and 20.\<close>

definition cl_msg_swap_header :: "block \<Rightarrow> nat \<Rightarrow> block option" where
  "cl_msg_swap_header buf off = do {
     buf \<leftarrow> swap_bytes buf (off + 6) 4;
     buf \<leftarrow> swap_bytes buf (off + 10) 4;
     buf \<leftarrow> swap_bytes buf (off + 14) 4;
     buf \<leftarrow> swap_bytes buf (off + 18) 2;
     swap_bytes buf (off + 20) 2
   }"

definition cl_msg_swap_op :: "block \<Rightarrow> nat \<Rightarrow> block option" where
  "cl_msg_swap_op buf off = swap_bytes buf off 4"

definition cl_msg_swap_field :: "block \<Rightarrow> nat \<Rightarrow> block option" where
  "cl_msg_swap_field buf off = swap_bytes buf off 4"

definition load_u32 :: "block \<Rightarrow> nat \<Rightarrow> u32 option" where
  "load_u32 buf off = map_option le_word (load buf off 4)"

definition load_u8 :: "block \<Rightarrow> nat \<Rightarrow> u8 option" where
  "load_u8 buf off = map_option hd (load buf off 1)"

text \<open>
  The accessors of a field (size 4 bytes, type, data) and of an operation (size 4 bytes, op,
  particle type, version, name size, name, value). A pointer is an offset, and to form one
  beyond the buffer is allowed; sizes are 32-bit.
\<close>

definition cl_msg_field_get_next :: "block \<Rightarrow> nat \<Rightarrow> nat option" where
  "cl_msg_field_get_next buf mf = do { sz \<leftarrow> load_u32 buf mf; Some (mf + 4 + unat sz) }"

definition cl_msg_op_get_next :: "block \<Rightarrow> nat \<Rightarrow> nat option" where
  "cl_msg_op_get_next buf op = do { sz \<leftarrow> load_u32 buf op; Some (op + 4 + unat sz) }"

definition cl_msg_op_get_value_p :: "block \<Rightarrow> nat \<Rightarrow> nat option" where
  "cl_msg_op_get_value_p buf op = do { n \<leftarrow> load_u8 buf (op + 7); Some (op + 8 + unat n) }"

definition cl_msg_op_get_value_sz :: "block \<Rightarrow> nat \<Rightarrow> u32 option" where
  "cl_msg_op_get_value_sz buf op = do {
     sz \<leftarrow> load_u32 buf op; n \<leftarrow> load_u8 buf (op + 7); Some (sz - (4 + ucast n)) }"

definition cl_msg_field_get_value_sz :: "block \<Rightarrow> nat \<Rightarrow> u32 option" where
  "cl_msg_field_get_value_sz buf mf = do { sz \<leftarrow> load_u32 buf mf; Some (sz - 1) }"

text \<open>\<open>cl_msg_field_get\<close>: the first field of a type among \<open>n\<close> swapped fields.\<close>

fun cl_msg_field_get :: "block \<Rightarrow> nat \<Rightarrow> nat \<Rightarrow> u8 \<Rightarrow> nat option option" where
  "cl_msg_field_get buf fp 0 type = Some None"
| "cl_msg_field_get buf fp (Suc n) type = do {
     t \<leftarrow> load_u8 buf (fp + 4);
     if t = type then Some (Some fp)
     else do { fp' \<leftarrow> cl_msg_field_get_next buf fp; cl_msg_field_get buf fp' n type }
   }"

text \<open>The loops over all fields, or fields and operations, from an offset on.\<close>

fun swap_fields :: "block \<Rightarrow> nat \<Rightarrow> nat \<Rightarrow> (block \<times> nat) option" where
  "swap_fields buf mf 0 = Some (buf, mf)"
| "swap_fields buf mf (Suc n) = do {
     buf \<leftarrow> cl_msg_swap_field buf mf;
     mf' \<leftarrow> cl_msg_field_get_next buf mf;
     swap_fields buf mf' n
   }"

fun swap_ops :: "block \<Rightarrow> nat \<Rightarrow> nat \<Rightarrow> (block \<times> nat) option" where
  "swap_ops buf op 0 = Some (buf, op)"
| "swap_ops buf op (Suc n) = do {
     buf \<leftarrow> cl_msg_swap_op buf op;
     op' \<leftarrow> cl_msg_op_get_next buf op;
     swap_ops buf op' n
   }"

definition cl_msg_swap_fields :: "block \<Rightarrow> nat \<Rightarrow> nat \<Rightarrow> block option" where
  "cl_msg_swap_fields buf data n_fields = map_option fst (swap_fields buf data n_fields)"

definition cl_msg_swap_fields_and_ops :: "block \<Rightarrow> nat \<Rightarrow> nat \<Rightarrow> nat \<Rightarrow> block option" where
  "cl_msg_swap_fields_and_ops buf data n_fields n_ops = do {
     (buf, op) \<leftarrow> swap_fields buf data n_fields;
     map_option fst (swap_ops buf op n_ops)
   }"

definition cl_proto_size_get :: "u64 \<Rightarrow> nat" where
  "cl_proto_size_get sz = 8 + unat sz"

subsection \<open>Writing into the middle of a buffer\<close>

lemma load_at [mem_simps]: "length a = off \<Longrightarrow> length b = n \<Longrightarrow> load (a @ b @ c) off n = Some b"
  by (simp add: load_def)

lemma store_at [mem_simps]:
  "length a = off \<Longrightarrow> length b = length x \<Longrightarrow> store (a @ b @ c) off x = Some (a @ x @ c)"
  by (simp add: store_def)

lemma swap_at [mem_simps]:
  "length a = off \<Longrightarrow> length b = n \<Longrightarrow> swap_bytes (a @ b @ c) off n = Some (a @ rev b @ c)"
  by (simp add: swap_bytes_def mem_simps)

lemma swap_bytes_twice:
  assumes "swap_bytes buf off n = Some buf'"
  shows "swap_bytes buf' off n = Some buf"
proof -
  have b: "off + n \<le> length buf" using assms by (auto simp: swap_bytes_def load_def split: if_splits)
  have s: "buf = take off buf @ take n (drop off buf) @ drop (off + n) buf"
    by (metis append.assoc append_take_drop_id drop_drop add.commute)
  then have "swap_bytes buf off n = Some (take off buf @ rev (take n (drop off buf)) @ drop (off + n) buf)"
    using b swap_at [of "take off buf" off "take n (drop off buf)" n "drop (off + n) buf"] by simp
  then have "buf' = take off buf @ rev (take n (drop off buf)) @ drop (off + n) buf" using assms by simp
  then show ?thesis using b s
    swap_at [of "take off buf" off "rev (take n (drop off buf))" n "drop (off + n) buf"] by simp
qed

end
