(* ===== verification/Refcount.thy ===== *)
theory Refcount
  imports Main
begin

section \<open>An interface: objects with reference counts\<close>

text \<open>
  What the holders of reference-counted objects rely on. \<open>ok m c\<close> says that in the memory \<open>m\<close>
  the object \<open>p\<close> is alive with the count \<open>c p\<close>, or is not there and \<open>c p = 0\<close>. To reserve and to
  release an object that is held succeeds and changes its count by one; \<open>top\<close> bounds the
  counter. The lemmas are those of a client that moves, drops and exchanges references.
\<close>

fun release_many :: "('m \<Rightarrow> nat \<Rightarrow> 'm option) \<Rightarrow> 'm \<Rightarrow> nat list \<Rightarrow> 'm option" where
  "release_many rel m [] = Some m"
| "release_many rel m (p # ps) = (case rel m p of None \<Rightarrow> None | Some m' \<Rightarrow> release_many rel m' ps)"

lemma release_many_append:
  "release_many rel m (ps @ qs) = (case release_many rel m ps of None \<Rightarrow> None | Some m' \<Rightarrow> release_many rel m' qs)"
  by (induction ps arbitrary: m) (auto split: option.splits)

definition held :: "nat list \<Rightarrow> nat \<Rightarrow> nat" where
  "held ps q = length (filter (\<lambda>p. p = q) ps)"

lemma held_simps [simp]:
  "held [] q = 0" "held (p # ps) q = (if p = q then 1 else 0) + held ps q"
  "held (ps @ qs) q = held ps q + held qs q"
  by (simp_all add: held_def)

locale refcounted =
  fixes ok :: "'m \<Rightarrow> (nat \<Rightarrow> nat) \<Rightarrow> bool" and reserve release :: "'m \<Rightarrow> nat \<Rightarrow> 'm option" and top :: nat
  assumes reserve_law: "ok m c \<Longrightarrow> 0 < c p \<Longrightarrow> c p + 1 < top \<Longrightarrow> \<exists>m'. reserve m p = Some m' \<and> ok m' (c(p := c p + 1))"
    and release_law: "ok m c \<Longrightarrow> 0 < c p \<Longrightarrow> \<exists>m'. release m p = Some m' \<and> ok m' (c(p := c p - 1))"
begin

lemma release_one:
  assumes "ok m (\<lambda>q. held [p] q + r q)"
  shows "\<exists>m'. release m p = Some m' \<and> ok m' r"
proof -
  let ?c = "\<lambda>q. held [p] q + r q"
  have "0 < ?c p" by simp
  from release_law [OF assms this] obtain m' where "release m p = Some m'" "ok m' (?c(p := ?c p - 1))" by auto
  moreover have "?c(p := ?c p - 1) = r" by auto
  ultimately show ?thesis by auto
qed

lemma reserve_one:
  assumes "ok m r" and "0 < r p" and "r p + 1 < top"
  shows "\<exists>m'. reserve m p = Some m' \<and> ok m' (\<lambda>q. held [p] q + r q)"
proof -
  obtain m' where "reserve m p = Some m'" "ok m' (r(p := r p + 1))" using reserve_law [OF assms] by blast
  moreover have "r(p := r p + 1) = (\<lambda>q. held [p] q + r q)" by auto
  ultimately show ?thesis by auto
qed

lemma release_all:
  assumes "ok m (\<lambda>q. held ps q + r q)"
  shows "\<exists>m'. release_many release m ps = Some m' \<and> ok m' r"
  using assms
proof (induction ps arbitrary: m)
  case (Cons p ps)
  have "ok m (\<lambda>q. held [p] q + (held ps q + r q))" using Cons.prems by (simp add: add.assoc)
  from release_one [OF this] obtain m' where "release m p = Some m'" "ok m' (\<lambda>q. held ps q + r q)" by blast
  then show ?case using Cons.IH by simp
qed simp

text \<open>A reference to \<open>old\<close> is given up for one to \<open>new\<close>, which someone else holds as well.\<close>

lemma exchange:
  assumes "ok m (\<lambda>q. held [old] q + r q)" and "0 < r new" and "r new + 1 < top"
  shows "\<exists>m1 m2. release m old = Some m1 \<and> reserve m1 new = Some m2 \<and> ok m2 (\<lambda>q. held [new] q + r q)"
proof -
  obtain m1 where m1: "release m old = Some m1" "ok m1 r" using release_one [OF assms(1)] by blast
  show ?thesis using m1(1) reserve_one [where r = r, OF m1(2) assms(2,3)] by blast
qed

end

end
