(* ===== verification/Cl_Partition.thy ===== *)
theory Cl_Partition
  imports Cf_Queue Cl_Proto Refcount
begin

section \<open>Nodes and the partition table (\<open>src/cl_partition.c\<close>, \<open>src/cf_alloc.c\<close>)\<close>

text \<open>
  A node of the cluster is a reference-counted object that the node list, the partition tables
  and the running transactions share. The memory maps pointers to live nodes; to use a pointer
  that is not in it is a fault. Descriptors that the code closes are recorded in order. Every
  operation on a partition runs under the lock of that partition, so it is one step. The
  asynchronous client is not running (\<open>g_cl_async_hashtab\<close> is null).
\<close>

type_synonym node_ptr = nat
type_synonym sockaddr = block

record cl_cluster_node =
  cn_name :: block
  cn_intervals_absent :: u32
  cn_intervals_unreachable :: u32
  cn_sockaddr_in_v :: "sockaddr list"
  cn_partition_generation :: u32
  cn_conn_q :: cf_queue
  cn_conn_q_asyncfd :: cf_queue
  cn_asyncwork_q :: cf_queue
  cn_info_fd :: int
  cn_rc :: u32

record mem =
  m_nodes :: "node_ptr \<Rightarrow> cl_cluster_node option"
  m_closed :: "int list"
  m_randomizer :: u32

record cl_partition =
  p_master :: "node_ptr option"
  p_prole :: "node_ptr option"

record cl_partition_table =
  pt_ns :: block
  pt_partitions :: "cl_partition list"

subsection \<open>Reference counts\<close>

definition put_node :: "mem \<Rightarrow> node_ptr \<Rightarrow> cl_cluster_node \<Rightarrow> mem" where
  "put_node m p n = m\<lparr>m_nodes := (m_nodes m)(p \<mapsto> n)\<rparr>"

definition cf_client_rc_reserve :: "mem \<Rightarrow> node_ptr \<Rightarrow> mem option" where
  "cf_client_rc_reserve m p = do { n \<leftarrow> m_nodes m p; Some (put_node m p (n\<lparr>cn_rc := cn_rc n + 1\<rparr>)) }"

definition cf_client_rc_release :: "mem \<Rightarrow> node_ptr \<Rightarrow> (u32 \<times> mem) option" where
  "cf_client_rc_release m p = do {
     n \<leftarrow> m_nodes m p;
     Some (cn_rc n - 1, put_node m p (n\<lparr>cn_rc := cn_rc n - 1\<rparr>)) }"

definition cf_client_rc_free :: "mem \<Rightarrow> node_ptr \<Rightarrow> mem option" where
  "cf_client_rc_free m p =
     (if m_nodes m p = None then None else Some (m\<lparr>m_nodes := (m_nodes m)(p := None)\<rparr>))"

text \<open>The descriptors of a pool are 4-byte integers.\<close>

definition fd_bytes :: "int \<Rightarrow> block" where
  "fd_bytes fd = word_le 4 (word_of_int fd :: u32)"

definition fd_of :: "block \<Rightarrow> int" where
  "fd_of b = sint (le_word b :: u32)"

text \<open>Draining a queue: pop until it is empty; the popped elements in order.\<close>

partial_function (option) drain_queue :: "cf_queue \<Rightarrow> block list \<Rightarrow> block list option" where
  "drain_queue q acc = do {
     r \<leftarrow> cf_queue_pop (Some q) CF_QUEUE_NOWAIT [];
     case r of Popped x q' \<Rightarrow> drain_queue q' (acc @ [x])
     | _ \<Rightarrow> Some acc }"

definition close_all :: "mem \<Rightarrow> int list \<Rightarrow> mem" where
  "close_all m fds = m\<lparr>m_closed := m_closed m @ fds\<rparr>"

definition cl_cluster_node_release :: "mem \<Rightarrow> node_ptr \<Rightarrow> mem option" where
  "cl_cluster_node_release m p = do {
     (c, m) \<leftarrow> cf_client_rc_release m p;
     if c = 0 then do {
       n \<leftarrow> m_nodes m p;
       fds \<leftarrow> drain_queue (cn_conn_q n) [];
       let m = close_all m (map fd_of fds);
       afds \<leftarrow> drain_queue (cn_conn_q_asyncfd n) [];
       let m = close_all m (map fd_of afds);
       works \<leftarrow> drain_queue (cn_asyncwork_q n) [];
       let m = (if cn_info_fd n \<noteq> - 1 then close_all m [cn_info_fd n] else m);
       cf_client_rc_free m p }
     else Some m }"

definition cl_cluster_node_reserve :: "mem \<Rightarrow> node_ptr \<Rightarrow> mem option" where
  "cl_cluster_node_reserve m p = cf_client_rc_reserve m p"

definition cl_cluster_node_put :: "mem \<Rightarrow> node_ptr \<Rightarrow> mem option" where
  "cl_cluster_node_put m p = cl_cluster_node_release m p"

subsection \<open>The partition tables\<close>

definition empty_partition :: cl_partition where
  "empty_partition = \<lparr>p_master = None, p_prole = None\<rparr>"

text \<open>
  A new table goes to the head of the list; \<open>Some None\<close> is the null pointer when the allocation fails. The name
  is copied with \<open>strcpy\<close> into an array of 33 bytes: one that does not fit with its zero is a fault.
\<close>

definition NS_SIZE :: nat where "NS_SIZE = 33"

definition cl_partition_table_create ::
  "bool \<Rightarrow> nat \<Rightarrow> cl_partition_table list \<Rightarrow> block \<Rightarrow> cl_partition_table list option option" where
  "cl_partition_table_create alloc_ok n_partitions tables ns =
     (if \<not> alloc_ok then Some None
      else if length ns < NS_SIZE
      then Some (Some (\<lparr>pt_ns = ns, pt_partitions = replicate n_partitions empty_partition\<rparr> # tables))
      else None)"

text \<open>The table of a namespace, as its position in the list.\<close>

fun cl_partition_table_get_by_ns :: "cl_partition_table list \<Rightarrow> block \<Rightarrow> nat option" where
  "cl_partition_table_get_by_ns [] ns = None"
| "cl_partition_table_get_by_ns (t # ts) ns =
     (if pt_ns t = ns then Some 0 else map_option Suc (cl_partition_table_get_by_ns ts ns))"

definition opt_release :: "mem \<Rightarrow> node_ptr option \<Rightarrow> mem option" where
  "opt_release m p = (case p of None \<Rightarrow> Some m | Some q \<Rightarrow> cl_cluster_node_release m q)"

fun destroy_partitions :: "mem \<Rightarrow> cl_partition list \<Rightarrow> mem option" where
  "destroy_partitions m [] = Some m"
| "destroy_partitions m (p # ps) = do {
     m \<leftarrow> opt_release m (p_master p);
     m \<leftarrow> opt_release m (p_prole p);
     destroy_partitions m ps }"

fun cl_partition_table_destroy_all :: "mem \<Rightarrow> cl_partition_table list \<Rightarrow> mem option" where
  "cl_partition_table_destroy_all m [] = Some m"
| "cl_partition_table_destroy_all m (t # ts) = do {
     m \<leftarrow> destroy_partitions m (pt_partitions t);
     cl_partition_table_destroy_all m ts }"

text \<open>\<open>cl_partition_table_is_node_present\<close>: master anywhere, else removed as prole everywhere.\<close>

definition is_master :: "node_ptr \<Rightarrow> cl_partition_table list \<Rightarrow> bool" where
  "is_master node tables \<longleftrightarrow> (\<exists>t \<in> set tables. \<exists>p \<in> set (pt_partitions t). p_master p = Some node)"

definition unprole :: "mem \<Rightarrow> node_ptr \<Rightarrow> cl_partition \<Rightarrow> (mem \<times> cl_partition) option" where
  "unprole m node p =
     (if p_prole p = Some node
      then do { m \<leftarrow> cl_cluster_node_release m node; Some (m, p\<lparr>p_prole := None\<rparr>) }
      else Some (m, p))"

fun unprole_partitions :: "mem \<Rightarrow> node_ptr \<Rightarrow> cl_partition list \<Rightarrow> (mem \<times> cl_partition list) option" where
  "unprole_partitions m node [] = Some (m, [])"
| "unprole_partitions m node (p # ps) = do {
     (m, p) \<leftarrow> unprole m node p;
     (m, ps) \<leftarrow> unprole_partitions m node ps;
     Some (m, p # ps) }"

fun unprole_tables :: "mem \<Rightarrow> node_ptr \<Rightarrow> cl_partition_table list \<Rightarrow> (mem \<times> cl_partition_table list) option" where
  "unprole_tables m node [] = Some (m, [])"
| "unprole_tables m node (t # ts) = do {
     (m, ps) \<leftarrow> unprole_partitions m node (pt_partitions t);
     (m, ts) \<leftarrow> unprole_tables m node ts;
     Some (m, t\<lparr>pt_partitions := ps\<rparr> # ts) }"

definition cl_partition_table_is_node_present ::
  "mem \<Rightarrow> cl_partition_table list \<Rightarrow> node_ptr \<Rightarrow> (bool \<times> mem \<times> cl_partition_table list) option" where
  "cl_partition_table_is_node_present m tables node =
     (if is_master node tables then Some (True, m, tables)
      else do { (m, tables) \<leftarrow> unprole_tables m node tables; Some (False, m, tables) })"

definition force_replicas_refresh :: "mem \<Rightarrow> node_ptr \<Rightarrow> mem option" where
  "force_replicas_refresh m p = do { n \<leftarrow> m_nodes m p; Some (put_node m p (n\<lparr>cn_partition_generation := - 1\<rparr>)) }"

definition opt_replace :: "mem \<Rightarrow> node_ptr option \<Rightarrow> mem option" where
  "opt_replace m p = (case p of None \<Rightarrow> Some m
     | Some q \<Rightarrow> do { m \<leftarrow> force_replicas_refresh m q; cl_cluster_node_release m q })"

text \<open>One partition of an update.\<close>

definition update_partition :: "mem \<Rightarrow> node_ptr \<Rightarrow> bool \<Rightarrow> bool \<Rightarrow> cl_partition \<Rightarrow> (mem \<times> cl_partition) option" where
  "update_partition m node master prole p = do {
     (m, p) \<leftarrow> (if p_master p = Some node
        then do { m \<leftarrow> cl_cluster_node_release m node; Some (m, p\<lparr>p_master := None\<rparr>) } else Some (m, p));
     (m, p) \<leftarrow> (if p_prole p = Some node
        then do { m \<leftarrow> cl_cluster_node_release m node; Some (m, p\<lparr>p_prole := None\<rparr>) } else Some (m, p));
     if master then do {
       m \<leftarrow> opt_replace m (p_master p);
       m \<leftarrow> cl_cluster_node_reserve m node;
       Some (m, p\<lparr>p_master := Some node\<rparr>) }
     else if prole then do {
       m \<leftarrow> opt_replace m (p_prole p);
       m \<leftarrow> cl_cluster_node_reserve m node;
       Some (m, p\<lparr>p_prole := Some node\<rparr>) }
     else Some (m, p) }"

fun update_partitions :: "mem \<Rightarrow> node_ptr \<Rightarrow> bool list \<Rightarrow> bool list \<Rightarrow> cl_partition list \<Rightarrow>
    (mem \<times> cl_partition list) option" where
  "update_partitions m node masters proles [] = Some (m, [])"
| "update_partitions m node (a # masters) (b # proles) (p # ps) = do {
     (m, p) \<leftarrow> update_partition m node a b p;
     (m, ps) \<leftarrow> update_partitions m node masters proles ps;
     Some (m, p # ps) }"
| "update_partitions m node _ _ (p # ps) = None"

definition cl_partition_table_update ::
  "bool \<Rightarrow> nat \<Rightarrow> mem \<Rightarrow> cl_partition_table list \<Rightarrow> node_ptr \<Rightarrow> block \<Rightarrow> bool list \<Rightarrow> bool list \<Rightarrow>
   (mem \<times> cl_partition_table list) option" where
  "cl_partition_table_update alloc_ok n_partitions m tables node ns masters proles =
     (case (case cl_partition_table_get_by_ns tables ns of
              Some i \<Rightarrow> Some (Some (i, tables))
            | None \<Rightarrow> map_option (map_option (Pair 0)) (cl_partition_table_create alloc_ok n_partitions tables ns)) of
        None \<Rightarrow> None
      | Some None \<Rightarrow> Some (m, tables)
      | Some (Some (i, tables)) \<Rightarrow>
          (if length (pt_partitions (tables ! i)) < n_partitions then None
           else do {
             (m, ps) \<leftarrow> update_partitions m node masters proles (take n_partitions (pt_partitions (tables ! i)));
             Some (m, tables[i := (tables ! i)\<lparr>pt_partitions := ps @ drop n_partitions (pt_partitions (tables ! i))\<rparr>]) }))"

text \<open>\<open>cl_partition_table_get\<close>: the node of a partition for a read or a write, reserved.\<close>

definition pick_node :: "u32 \<Rightarrow> bool \<Rightarrow> cl_partition \<Rightarrow> node_ptr option \<times> u32" where
  "pick_node randomizer wr p =
     (if wr \<or> p_prole p = None then (p_master p, randomizer)
      else if p_master p = None then (p_prole p, randomizer)
      else let r = randomizer + 1 in (if r AND 1 \<noteq> 0 then p_master p else p_prole p, r))"

definition cl_partition_table_get ::
  "mem \<Rightarrow> cl_partition_table list \<Rightarrow> block \<Rightarrow> nat \<Rightarrow> bool \<Rightarrow> (node_ptr option \<times> mem) option" where
  "cl_partition_table_get m tables ns pid wr =
     (case cl_partition_table_get_by_ns tables ns of
        None \<Rightarrow> Some (None, m)
      | Some i \<Rightarrow>
          (if pid < length (pt_partitions (tables ! i))
           then (case pick_node (m_randomizer m) wr (pt_partitions (tables ! i) ! pid) of
               (None, r) \<Rightarrow> Some (None, m\<lparr>m_randomizer := r\<rparr>)
             | (Some q, r) \<Rightarrow> do {
                 m \<leftarrow> cl_cluster_node_reserve (m\<lparr>m_randomizer := r\<rparr>) q;
                 Some (Some q, m) })
           else None))"

definition cl_partition_getid :: "u32 \<Rightarrow> block \<Rightarrow> nat option" where
  "cl_partition_getid n_partitions d = do {
     x \<leftarrow> load d 0 2;
     Some (unat (ucast ((le_word x :: u32) AND (n_partitions - 1)) :: u16)) }"

subsection \<open>Counts are exact\<close>

text \<open>
  A node in order: its three queues are, the pools hold descriptors, and the pool of the
  synchronous client holds at most 300 of them.
\<close>

definition node_ok :: "cl_cluster_node \<Rightarrow> bool" where
  "node_ok n \<longleftrightarrow> cf_queue_inv (cn_conn_q n) \<and> cf_queue_inv (cn_conn_q_asyncfd n) \<and> cf_queue_inv (cn_asyncwork_q n) \<and>
     elementsz (cn_conn_q n) = 4 \<and> elementsz (cn_conn_q_asyncfd n) = 4 \<and> length (cf_queue_elems (cn_conn_q n)) \<le> 300"

definition mem_ok :: "mem \<Rightarrow> (node_ptr \<Rightarrow> nat) \<Rightarrow> bool" where
  "mem_ok m c \<longleftrightarrow> (\<forall>p. case m_nodes m p of None \<Rightarrow> c p = 0
     | Some n \<Rightarrow> node_ok n \<and> unat (cn_rc n) = c p \<and> 0 < c p)"

lemma drain_queue_ok: "cf_queue_inv q \<Longrightarrow> drain_queue q acc = Some (acc @ cf_queue_elems q)"
proof (induction "length (cf_queue_elems q)" arbitrary: q acc)
  case 0
  then have "cf_queue_elems q = []" by simp
  then show ?case using cf_queue_pop_nowait(1) [OF 0(2), of "[]"] by (subst drain_queue.simps) simp
next
  case (Suc n)
  then obtain x xs where e: "cf_queue_elems q = x # xs" by (cases "cf_queue_elems q") auto
  from cf_queue_pop_nowait(2) [OF Suc.prems e, of CF_QUEUE_NOWAIT "[]"] obtain q' where q':
    "cf_queue_pop (Some q) CF_QUEUE_NOWAIT [] = Some (Popped x q')" "cf_queue_inv q'" "cf_queue_elems q' = xs" by blast
  have "drain_queue q' (acc @ [x]) = Some ((acc @ [x]) @ cf_queue_elems q')"
    by (rule Suc.hyps(1)) (use q' Suc.hyps(2) e in auto)
  then show ?case using q' e by (subst drain_queue.simps) simp
qed

lemma mem_okD: "mem_ok m c \<Longrightarrow> 0 < c p \<Longrightarrow> \<exists>n. m_nodes m p = Some n \<and> node_ok n \<and> unat (cn_rc n) = c p"
  by (auto simp: mem_ok_def split: option.splits dest!: spec [of _ p])

lemma mem_ok_put:
  assumes "mem_ok m c" and "node_ok n" and "unat (cn_rc n) = k" and "0 < k" and "m_nodes m' = (m_nodes m)(p \<mapsto> n)"
  shows "mem_ok m' (c(p := k))"
  unfolding mem_ok_def
proof
  fix q
  show "case m_nodes m' q of None \<Rightarrow> (c(p := k)) q = 0
     | Some n \<Rightarrow> node_ok n \<and> unat (cn_rc n) = (c(p := k)) q \<and> 0 < (c(p := k)) q"
    using assms(2-) spec [OF assms(1) [unfolded mem_ok_def], of q]
    by (cases "q = p"; cases "m_nodes m q") simp_all
qed

lemma mem_ok_free:
  assumes "mem_ok m c" and "m_nodes m' = (m_nodes m)(p := None)"
  shows "mem_ok m' (c(p := 0))"
  unfolding mem_ok_def
proof
  fix q
  show "case m_nodes m' q of None \<Rightarrow> (c(p := 0)) q = 0
     | Some n \<Rightarrow> node_ok n \<and> unat (cn_rc n) = (c(p := 0)) q \<and> 0 < (c(p := 0)) q"
    using assms(2-) spec [OF assms(1) [unfolded mem_ok_def], of q]
    by (cases "q = p"; cases "m_nodes m q") simp_all
qed

lemma mem_ok_cong: "m_nodes m' = m_nodes m \<Longrightarrow> mem_ok m' c \<longleftrightarrow> mem_ok m c"
  by (simp add: mem_ok_def)

text \<open>What becomes of the memory when a reference is given up.\<close>

definition node_fds :: "cl_cluster_node \<Rightarrow> int list" where
  "node_fds n = map fd_of (cf_queue_elems (cn_conn_q n)) @ map fd_of (cf_queue_elems (cn_conn_q_asyncfd n)) @
     (if cn_info_fd n = - 1 then [] else [cn_info_fd n])"

lemma cl_cluster_node_release_eq:
  assumes "mem_ok m c" and "0 < c p"
  shows "cl_cluster_node_release m p = Some (case m_nodes m p of
     Some n \<Rightarrow> if c p = 1 then m\<lparr>m_nodes := (m_nodes m)(p := None), m_closed := m_closed m @ node_fds n\<rparr>
       else put_node m p (n\<lparr>cn_rc := cn_rc n - 1\<rparr>))"
proof -
  obtain n where n: "m_nodes m p = Some n" "node_ok n" "unat (cn_rc n) = c p" using mem_okD [OF assms] by blast
  have nz: "cn_rc n \<noteq> 0" using n(3) assms(2) by auto
  have u: "unat (cn_rc n - 1) = c p - 1" using unat_dec [OF nz] n(3) by simp
  have z: "cn_rc n - 1 = 0 \<longleftrightarrow> c p = 1" unfolding unat_eq_0 [symmetric] u using assms(2) by auto
  show ?thesis
  proof (cases "c p = 1")
    case True
    then show ?thesis using n z
      by (simp add: cl_cluster_node_release_def cf_client_rc_release_def put_node_def drain_queue_ok node_ok_def
        close_all_def cf_client_rc_free_def node_fds_def)
  next
    case False
    then show ?thesis using n z
      by (simp add: cl_cluster_node_release_def cf_client_rc_release_def)
  qed
qed

lemma cl_cluster_node_release_ok:
  assumes "mem_ok m c" and "0 < c p"
  shows "\<exists>m'. cl_cluster_node_release m p = Some m' \<and> mem_ok m' (c(p := c p - 1))"
proof -
  obtain n where n: "m_nodes m p = Some n" "node_ok n" "unat (cn_rc n) = c p" using mem_okD [OF assms] by blast
  have nz: "cn_rc n \<noteq> 0" using n(3) assms(2) by auto
  have u: "unat (cn_rc n - 1) = c p - 1" using unat_dec [OF nz] n(3) by simp
  show ?thesis
  proof (cases "c p = 1")
    case True
    have "mem_ok (m\<lparr>m_nodes := (m_nodes m)(p := None), m_closed := m_closed m @ node_fds n\<rparr>) (c(p := 0))"
      by (rule mem_ok_free [OF assms(1)]) simp
    then show ?thesis unfolding cl_cluster_node_release_eq [OF assms] using n True by simp
  next
    case False
    have "mem_ok (put_node m p (n\<lparr>cn_rc := cn_rc n - 1\<rparr>)) (c(p := c p - 1))"
      by (rule mem_ok_put [OF assms(1)]) (use n u False assms(2) in \<open>auto simp: put_node_def node_ok_def\<close>)
    then show ?thesis unfolding cl_cluster_node_release_eq [OF assms] using n False by simp
  qed
qed

lemma cl_cluster_node_reserve_ok:
  assumes "mem_ok m c" and "0 < c p" and "c p + 1 < 2 ^ 32"
  shows "\<exists>m'. cl_cluster_node_reserve m p = Some m' \<and> mem_ok m' (c(p := c p + 1))"
proof -
  obtain n where n: "m_nodes m p = Some n" "node_ok n" "unat (cn_rc n) = c p" using mem_okD [OF assms(1,2)] by blast
  have "unat (cn_rc n + 1) = c p + 1" using n(3) assms(3) by (subst unat_plus_small) auto
  then have "mem_ok (put_node m p (n\<lparr>cn_rc := cn_rc n + 1\<rparr>)) (c(p := c p + 1))"
    by (intro mem_ok_put [OF assms(1)]) (use n in \<open>auto simp: put_node_def node_ok_def\<close>)
  then show ?thesis using n by (simp add: cl_cluster_node_reserve_def cf_client_rc_reserve_def)
qed

interpretation rc: refcounted mem_ok cl_cluster_node_reserve cl_cluster_node_release "2 ^ 32"
  by unfold_locales (use cl_cluster_node_reserve_ok cl_cluster_node_release_ok in blast)+

lemma force_replicas_refresh_ok:
  assumes "mem_ok m c" and "0 < c p"
  shows "\<exists>m'. force_replicas_refresh m p = Some m' \<and> mem_ok m' c"
proof -
  obtain n where n: "m_nodes m p = Some n" "node_ok n" "unat (cn_rc n) = c p" using mem_okD [OF assms] by blast
  then have "mem_ok (put_node m p (n\<lparr>cn_partition_generation := - 1\<rparr>)) (c(p := c p))"
    by (intro mem_ok_put [OF assms(1)]) (use assms(2) in \<open>auto simp: put_node_def node_ok_def\<close>)
  then show ?thesis using n by (simp add: force_replicas_refresh_def)
qed

subsection \<open>Updates keep the counts\<close>

definition opt_list :: "'a option \<Rightarrow> 'a list" where
  "opt_list x = (case x of None \<Rightarrow> [] | Some y \<Rightarrow> [y])"

lemma opt_list_simps [simp]: "opt_list None = []" "opt_list (Some x) = [x]"
  by (simp_all add: opt_list_def)

text \<open>The references that the partitions and the tables hold.\<close>

definition part_ptrs :: "cl_partition \<Rightarrow> node_ptr list" where
  "part_ptrs p = opt_list (p_master p) @ opt_list (p_prole p)"

definition parts_ptrs :: "cl_partition list \<Rightarrow> node_ptr list" where
  "parts_ptrs ps = concat (map part_ptrs ps)"

definition table_ptrs :: "cl_partition_table list \<Rightarrow> node_ptr list" where
  "table_ptrs ts = concat (map (\<lambda>t. parts_ptrs (pt_partitions t)) ts)"

lemma parts_ptrs_simps [simp]:
  "parts_ptrs [] = []" "parts_ptrs (p # ps) = part_ptrs p @ parts_ptrs ps"
  "parts_ptrs (ps @ qs) = parts_ptrs ps @ parts_ptrs qs"
  by (simp_all add: parts_ptrs_def)

lemma table_ptrs_simps [simp]:
  "table_ptrs [] = []" "table_ptrs (t # ts) = parts_ptrs (pt_partitions t) @ table_ptrs ts"
  by (simp_all add: table_ptrs_def)

lemma opt_release_eq: "opt_release m x = release_many cl_cluster_node_release m (opt_list x)"
  by (cases x) (auto simp: opt_release_def split: option.splits)

lemma destroy_partitions_eq: "destroy_partitions m ps = release_many cl_cluster_node_release m (parts_ptrs ps)"
proof (induction ps arbitrary: m)
  case (Cons p ps)
  show ?case
    by (auto simp: release_many_append opt_release_eq part_ptrs_def Cons bind_eq_None_conv split: option.splits)
qed simp

lemma cl_partition_table_destroy_all_eq:
  "cl_partition_table_destroy_all m ts = release_many cl_cluster_node_release m (table_ptrs ts)"
  by (induction ts arbitrary: m) (auto simp: release_many_append destroy_partitions_eq split: option.splits)

definition without :: "node_ptr \<Rightarrow> node_ptr option \<Rightarrow> node_ptr option" where
  "without node x = (if x = Some node then None else x)"

definition updated_partition :: "node_ptr \<Rightarrow> bool \<Rightarrow> bool \<Rightarrow> cl_partition \<Rightarrow> cl_partition" where
  "updated_partition node master prole p =
     \<lparr>p_master = (if master then Some node else without node (p_master p)),
      p_prole = (if \<not> master \<and> prole then Some node else without node (p_prole p))\<rparr>"

lemma opt_replace_ok:
  assumes "mem_ok m (\<lambda>q. held (opt_list x) q + r q)"
  shows "\<exists>m'. opt_replace m x = Some m' \<and> mem_ok m' r"
proof (cases x)
  case None
  then show ?thesis using assms by (simp add: opt_replace_def)
next
  case (Some p)
  let ?c = "\<lambda>q. held [p] q + r q"
  have "0 < ?c p" by simp
  then obtain m1 where m1: "force_replicas_refresh m p = Some m1" "mem_ok m1 ?c"
    using force_replicas_refresh_ok [of m ?c p] assms Some by auto
  from rc.release_one [OF m1(2)] show ?thesis using Some m1(1) by (auto simp: opt_replace_def)
qed

lemma drop_ref:
  assumes "mem_ok m (\<lambda>q. held (opt_list x) q + r q)"
  shows "\<exists>m'. (if x = Some node then cl_cluster_node_release m node else Some m) = Some m' \<and>
    mem_ok m' (\<lambda>q. held (opt_list (without node x)) q + r q)"
proof (cases "x = Some node")
  case True
  then have "mem_ok m (\<lambda>q. held [node] q + r q)" using assms by simp
  from rc.release_one [OF this] show ?thesis using True by (auto simp: without_def)
qed (use assms in \<open>simp add: without_def\<close>)

lemma update_partition_ok:
  assumes ok: "mem_ok m (\<lambda>q. held (part_ptrs p) q + r q)" and node: "0 < r node" "r node + 2 < 2 ^ 32"
  shows "\<exists>m'. update_partition m node a b p = Some (m', updated_partition node a b p) \<and>
    mem_ok m' (\<lambda>q. held (part_ptrs (updated_partition node a b p)) q + r q)"
proof -
  obtain x y where p: "p = \<lparr>p_master = x, p_prole = y\<rparr>" by (cases p) auto
  let ?x = "without node x" and ?y = "without node y"
  have "mem_ok m (\<lambda>q. held (opt_list x) q + (held (opt_list y) q + r q))"
    using ok by (simp add: p part_ptrs_def add.assoc)
  from drop_ref [OF this, of node] obtain m1 where m1:
    "(if x = Some node then cl_cluster_node_release m node else Some m) = Some m1"
    "mem_ok m1 (\<lambda>q. held (opt_list y) q + (held (opt_list ?x) q + r q))"
    by (auto simp: add.left_commute)
  from drop_ref [OF m1(2), of node] obtain m2 where m2:
    "(if y = Some node then cl_cluster_node_release m1 node else Some m1) = Some m2"
    "mem_ok m2 (\<lambda>q. held (opt_list ?x) q + (held (opt_list ?y) q + r q))"
    by (auto simp: add.left_commute)
  have s1: "(if p_master p = Some node
        then do { m \<leftarrow> cl_cluster_node_release m node; Some (m, p\<lparr>p_master := None\<rparr>) } else Some (m, p)) =
      Some (m1, \<lparr>p_master = ?x, p_prole = y\<rparr>)"
    using m1(1) by (simp add: p without_def split: if_splits)
  have s2: "(if p_prole \<lparr>p_master = ?x, p_prole = y\<rparr> = Some node
        then do { m \<leftarrow> cl_cluster_node_release m1 node; Some (m, \<lparr>p_master = ?x, p_prole = y\<rparr>\<lparr>p_prole := None\<rparr>) }
        else Some (m1, \<lparr>p_master = ?x, p_prole = y\<rparr>)) = Some (m2, \<lparr>p_master = ?x, p_prole = ?y\<rparr>)"
    using m2(1) by (simp add: without_def split: if_splits)
  have nx: "held (opt_list ?x) node = 0" "held (opt_list ?y) node = 0"
    by (cases x; cases y; simp add: without_def)+
  consider (master) a | (prole) "\<not> a" b | (neither) "\<not> a" "\<not> b" by blast
  then show ?thesis
  proof cases
    case master
    from opt_replace_ok [OF m2(2)] obtain m3 where m3: "opt_replace m2 ?x = Some m3"
      "mem_ok m3 (\<lambda>q. held (opt_list ?y) q + r q)" by blast
    from rc.reserve_one [where p = node, OF m3(2)] nx node obtain m4 where "cl_cluster_node_reserve m3 node = Some m4"
      "mem_ok m4 (\<lambda>q. held [node] q + (held (opt_list ?y) q + r q))" by auto
    then show ?thesis using master m3(1) unfolding update_partition_def s1 bind.bind_lunit prod.case s2
      by (simp add: updated_partition_def part_ptrs_def p add.assoc)
  next
    case prole
    have "mem_ok m2 (\<lambda>q. held (opt_list ?y) q + (held (opt_list ?x) q + r q))" using m2(2) by (simp add: add.left_commute)
    from opt_replace_ok [OF this] obtain m3 where m3: "opt_replace m2 ?y = Some m3"
      "mem_ok m3 (\<lambda>q. held (opt_list ?x) q + r q)" by blast
    from rc.reserve_one [where p = node, OF m3(2)] nx node obtain m4 where "cl_cluster_node_reserve m3 node = Some m4"
      "mem_ok m4 (\<lambda>q. held [node] q + (held (opt_list ?x) q + r q))" by auto
    then show ?thesis using prole m3(1) unfolding update_partition_def s1 bind.bind_lunit prod.case s2
      by (simp add: updated_partition_def part_ptrs_def p add.assoc add.left_commute)
  next
    case neither
    then show ?thesis using m2(2) unfolding update_partition_def s1 bind.bind_lunit prod.case s2
      by (simp add: updated_partition_def part_ptrs_def p add.assoc)
  qed
qed

text \<open>All partitions of a table.\<close>

fun updated_partitions :: "node_ptr \<Rightarrow> bool list \<Rightarrow> bool list \<Rightarrow> cl_partition list \<Rightarrow> cl_partition list" where
  "updated_partitions node (a # as) (b # bs) (p # ps) = updated_partition node a b p # updated_partitions node as bs ps"
| "updated_partitions node _ _ _ = []"

lemma held_part_ptrs_le: "held (part_ptrs p) q \<le> 2"
  by (cases "p_master p"; cases "p_prole p") (auto simp: part_ptrs_def)

lemma length_updated_partitions:
  "length as = length ps \<Longrightarrow> length bs = length ps \<Longrightarrow> length (updated_partitions node as bs ps) = length ps"
  by (induction node as bs ps rule: updated_partitions.induct) auto

lemma nth_updated_partitions:
  "length as = length ps \<Longrightarrow> length bs = length ps \<Longrightarrow> i < length ps \<Longrightarrow>
     updated_partitions node as bs ps ! i = updated_partition node (as ! i) (bs ! i) (ps ! i)"
proof (induction node as bs ps arbitrary: i rule: updated_partitions.induct)
  case (1 node a as b bs p ps)
  then show ?case by (cases i) auto
qed auto

lemma update_partitions_ok:
  assumes "mem_ok m (\<lambda>q. held (parts_ptrs ps) q + r q)" and "0 < r node" and "r node + 2 * length ps + 2 < 2 ^ 32"
    and "length as = length ps" and "length bs = length ps"
  shows "\<exists>m'. update_partitions m node as bs ps = Some (m', updated_partitions node as bs ps) \<and>
    mem_ok m' (\<lambda>q. held (parts_ptrs (updated_partitions node as bs ps)) q + r q)"
  using assms
proof (induction node as bs ps arbitrary: m r rule: updated_partitions.induct)
  case (1 node a as b bs p ps)
  let ?p = "updated_partition node a b p"
  have h: "held (parts_ptrs ps) node \<le> 2 * length ps" for ps
  proof (induction ps)
    case (Cons p ps)
    then show ?case using held_part_ptrs_le [of p node] by simp
  qed simp
  have "mem_ok m (\<lambda>q. held (part_ptrs p) q + (held (parts_ptrs ps) q + r q))" using 1(2) by (simp add: add.assoc)
  from update_partition_ok [OF this, of node a b] h [of ps] 1(3,4) obtain m1 where
    m1: "update_partition m node a b p = Some (m1, ?p)"
    "mem_ok m1 (\<lambda>q. held (part_ptrs ?p) q + (held (parts_ptrs ps) q + r q))" by auto
  have "mem_ok m1 (\<lambda>q. held (parts_ptrs ps) q + (held (part_ptrs ?p) q + r q))" using m1(2) by (simp add: add.left_commute)
  from 1(1) [OF this] 1(3-6) held_part_ptrs_le [of ?p node] obtain m2 where
    "update_partitions m1 node as bs ps = Some (m2, updated_partitions node as bs ps)"
    "mem_ok m2 (\<lambda>q. held (parts_ptrs (updated_partitions node as bs ps)) q + (held (part_ptrs ?p) q + r q))" by auto
  then show ?case using m1(1) by (simp add: add.left_commute add.assoc)
qed simp_all

text \<open>The tables as a map from namespaces to partitions.\<close>

definition table_of :: "cl_partition_table list \<Rightarrow> block \<Rightarrow> cl_partition list option" where
  "table_of ts ns = map_option (\<lambda>i. pt_partitions (ts ! i)) (cl_partition_table_get_by_ns ts ns)"

lemma get_by_ns_Some:
  "cl_partition_table_get_by_ns ts ns = Some i \<Longrightarrow> i < length ts \<and> pt_ns (ts ! i) = ns \<and> (\<forall>j < i. pt_ns (ts ! j) \<noteq> ns)"
proof (induction ts arbitrary: i)
  case (Cons t ts)
  then show ?case by (cases i) (auto split: if_splits simp: nth_Cons less_Suc_eq_0_disj)
qed simp

lemma get_by_ns_update:
  "pt_ns t = pt_ns (ts ! i) \<Longrightarrow> i < length ts \<Longrightarrow>
     cl_partition_table_get_by_ns (ts[i := t]) ns = cl_partition_table_get_by_ns ts ns"
proof (induction ts arbitrary: i)
  case (Cons s ts)
  then show ?case by (cases i) auto
qed simp

lemma table_of_update:
  assumes "cl_partition_table_get_by_ns ts ns = Some i" and "pt_ns t = ns"
  shows "table_of (ts[i := t]) = (table_of ts)(ns \<mapsto> pt_partitions t)"
proof
  fix ns'
  note g = get_by_ns_Some [OF assms(1)]
  have e: "cl_partition_table_get_by_ns (ts[i := t]) ns' = cl_partition_table_get_by_ns ts ns'"
    using get_by_ns_update [of t ts i ns'] g assms(2) by simp
  show "table_of (ts[i := t]) ns' = ((table_of ts)(ns \<mapsto> pt_partitions t)) ns'"
  proof (cases "ns' = ns")
    case True
    then show ?thesis using e assms(1) g by (simp add: table_of_def)
  next
    case False
    have "ts[i := t] ! j = ts ! j" if "cl_partition_table_get_by_ns ts ns' = Some j" for j
      using get_by_ns_Some [OF that] g False by (metis nth_list_update_neq)
    then show ?thesis using e False by (cases "cl_partition_table_get_by_ns ts ns'") (simp_all add: table_of_def)
  qed
qed

lemma table_of_Cons: "table_of (t # ts) = (table_of ts)(pt_ns t \<mapsto> pt_partitions t)"
  by (auto simp: table_of_def option.map_comp comp_def)

lemma held_table_ptrs_split:
  "i < length ts \<Longrightarrow> held (table_ptrs ts) q =
     held (parts_ptrs (pt_partitions (ts ! i))) q + held (table_ptrs (take i ts @ drop (Suc i) ts)) q"
proof (induction ts arbitrary: i)
  case (Cons t ts)
  show ?case
  proof (cases i)
    case (Suc k)
    then show ?thesis using Cons.IH [of k] Cons.prems by (simp add: add.left_commute)
  qed simp
qed simp

lemma parts_ptrs_empty: "parts_ptrs (replicate n empty_partition) = []"
  by (induction n) (simp_all add: part_ptrs_def empty_partition_def)

definition tables_wf :: "nat \<Rightarrow> cl_partition_table list \<Rightarrow> bool" where
  "tables_wf n ts \<longleftrightarrow> (\<forall>t \<in> set ts. length (pt_partitions t) = n)"

definition update_result :: "nat \<Rightarrow> node_ptr \<Rightarrow> bool list \<Rightarrow> bool list \<Rightarrow> cl_partition list option \<Rightarrow> cl_partition list" where
  "update_result n node masters proles old =
     updated_partitions node masters proles (case old of None \<Rightarrow> replicate n empty_partition | Some ps \<Rightarrow> ps)"

lemma update_table_ok:
  assumes ok: "mem_ok m (\<lambda>q. held (table_ptrs ts) q + r q)" and wf: "tables_wf n ts"
    and i: "cl_partition_table_get_by_ns ts ns = Some i" and node: "0 < r node"
    and b: "r node + held (table_ptrs ts) node + 2 * n + 2 < 2 ^ 32"
    and l: "length masters = n" "length proles = n"
  shows "\<exists>m' ts'. (do {
             (m, ps) \<leftarrow> update_partitions m node masters proles (take n (pt_partitions (ts ! i)));
             Some (m, ts[i := (ts ! i)\<lparr>pt_partitions := ps @ drop n (pt_partitions (ts ! i))\<rparr>]) }) = Some (m', ts') \<and>
    mem_ok m' (\<lambda>q. held (table_ptrs ts') q + r q) \<and> tables_wf n ts' \<and>
    table_of ts' = (table_of ts)(ns \<mapsto> updated_partitions node masters proles (pt_partitions (ts ! i)))"
proof -
  note g = get_by_ns_Some [OF i]
  let ?ps = "pt_partitions (ts ! i)" and ?rest = "take i ts @ drop (Suc i) ts"
  have n: "length ?ps = n" using wf g by (simp add: tables_wf_def)
  have sp: "held (table_ptrs ts) q = held (parts_ptrs ?ps) q + held (table_ptrs ?rest) q" for q
    using held_table_ptrs_split g by blast
  have "mem_ok m (\<lambda>q. held (parts_ptrs ?ps) q + (held (table_ptrs ?rest) q + r q))"
    using ok unfolding sp by (simp add: add.assoc)
  from update_partitions_ok [OF this, of node masters proles] node b sp [of node] n l obtain m' where m':
    "update_partitions m node masters proles ?ps = Some (m', updated_partitions node masters proles ?ps)"
    "mem_ok m' (\<lambda>q. held (parts_ptrs (updated_partitions node masters proles ?ps)) q + (held (table_ptrs ?rest) q + r q))"
    by auto
  let ?t = "(ts ! i)\<lparr>pt_partitions := updated_partitions node masters proles ?ps\<rparr>"
  have "held (table_ptrs (ts[i := ?t])) q = held (parts_ptrs (pt_partitions ?t)) q + held (table_ptrs ?rest) q" for q
    using held_table_ptrs_split [of i "ts[i := ?t]" q] g by simp
  moreover have "table_of (ts[i := ?t]) = (table_of ts)(ns \<mapsto> pt_partitions ?t)"
    by (rule table_of_update [OF i]) (use g in simp)
  moreover have "tables_wf n (ts[i := ?t])"
    unfolding tables_wf_def
  proof
    fix t assume "t \<in> set (ts[i := ?t])"
    then have "t = ?t \<or> t \<in> set ts" using set_update_subset_insert [of ts i ?t] by blast
    then show "length (pt_partitions t) = n"
      using wf l n length_updated_partitions [of masters ?ps proles node] by (auto simp: tables_wf_def)
  qed
  ultimately show ?thesis using m' n by (simp add: add.assoc)
qed

lemma cl_partition_table_update_ok:
  assumes ok: "mem_ok m (\<lambda>q. held (table_ptrs ts) q + r q)" and wf: "tables_wf n ts" and node: "0 < r node"
    and b: "r node + held (table_ptrs ts) node + 2 * n + 2 < 2 ^ 32"
    and l: "length masters = n" "length proles = n" and name: "table_of ts ns = None \<Longrightarrow> length ns < NS_SIZE"
  shows "\<exists>m' ts'. cl_partition_table_update True n m ts node ns masters proles = Some (m', ts') \<and>
    mem_ok m' (\<lambda>q. held (table_ptrs ts') q + r q) \<and> tables_wf n ts' \<and>
    table_of ts' = (table_of ts)(ns \<mapsto> update_result n node masters proles (table_of ts ns))"
proof (cases "cl_partition_table_get_by_ns ts ns")
  case (Some i)
  have n: "\<not> length (pt_partitions (ts ! i)) < n" using get_by_ns_Some [OF Some] wf by (simp add: tables_wf_def)
  show ?thesis using update_table_ok [OF ok wf Some node b l] n Some
    by (simp add: cl_partition_table_update_def update_result_def table_of_def [of ts ns])
next
  case None
  let ?t = "\<lparr>pt_ns = ns, pt_partitions = replicate n empty_partition\<rparr>"
  have i: "cl_partition_table_get_by_ns (?t # ts) ns = Some 0" by simp
  have ok': "mem_ok m (\<lambda>q. held (table_ptrs (?t # ts)) q + r q)" using ok by (simp add: parts_ptrs_empty)
  have wf': "tables_wf n (?t # ts)" using wf by (simp add: tables_wf_def)
  have b': "r node + held (table_ptrs (?t # ts)) node + 2 * n + 2 < 2 ^ 32" using b by (simp add: parts_ptrs_empty)
  show ?thesis using update_table_ok [OF ok' wf' i node b' l] None name
    by (simp add: cl_partition_table_update_def update_result_def cl_partition_table_create_def table_of_def [of ts ns] table_of_Cons)
qed

lemma cl_partition_table_update_long:
  "table_of ts ns = None \<Longrightarrow> NS_SIZE \<le> length ns \<Longrightarrow> cl_partition_table_update True n m ts node ns masters proles = None"
  by (simp add: cl_partition_table_update_def cl_partition_table_create_def table_of_def)

lemma mem_ok_randomizer [simp]: "mem_ok (m\<lparr>m_randomizer := rnd\<rparr>) c = mem_ok m c"
  by (rule mem_ok_cong) simp

text \<open>The choice of a node, and the reservation that comes with it.\<close>

lemma set_opt_list [simp]: "set (opt_list x) = set_option x"
  by (cases x) simp_all

lemma pick_node_in: "pick_node rnd wr p = (x, r) \<Longrightarrow> x = p_master p \<or> x = p_prole p"
  by (auto simp: pick_node_def Let_def split: if_splits)

lemma part_ptrs_in_table:
  assumes "t \<in> set ts" and "p \<in> set (pt_partitions t)" and "q \<in> set (part_ptrs p)"
  shows "0 < held (table_ptrs ts) q"
proof -
  have "q \<in> set (table_ptrs ts)" using assms by (auto simp: table_ptrs_def parts_ptrs_def)
  then have "filter (\<lambda>p. p = q) (table_ptrs ts) \<noteq> []" unfolding filter_empty_conv by blast
  then show ?thesis by (simp add: held_def)
qed

lemma cl_partition_table_get_ok:
  assumes ok: "mem_ok m (\<lambda>q. held (table_ptrs ts) q + r q)" and wf: "tables_wf n ts" and pid: "pid < n"
    and b: "\<And>q. held (table_ptrs ts) q + r q + 1 < 2 ^ 32"
  shows "\<exists>x m'. cl_partition_table_get m ts ns pid wr = Some (x, m') \<and>
    mem_ok m' (\<lambda>q. held (opt_list x) q + (held (table_ptrs ts) q + r q)) \<and>
    x = (case table_of ts ns of None \<Rightarrow> None | Some ps \<Rightarrow> fst (pick_node (m_randomizer m) wr (ps ! pid)))"
proof (cases "cl_partition_table_get_by_ns ts ns")
  case None
  then show ?thesis using ok by (simp add: cl_partition_table_get_def table_of_def)
next
  case (Some i)
  note g = get_by_ns_Some [OF Some]
  let ?p = "pt_partitions (ts ! i) ! pid"
  have n: "pid < length (pt_partitions (ts ! i))" using wf g pid by (simp add: tables_wf_def)
  obtain x rnd where pk: "pick_node (m_randomizer m) wr ?p = (x, rnd)" by fastforce
  show ?thesis
  proof (cases x)
    case None
    then show ?thesis using ok Some n pk by (simp add: cl_partition_table_get_def table_of_def)
  next
    case (Some q)
    have "q \<in> set (part_ptrs ?p)" using pick_node_in [OF pk] unfolding Some part_ptrs_def
      by (metis UnCI elem_set set_append set_opt_list)
    moreover have "ts ! i \<in> set ts" "?p \<in> set (pt_partitions (ts ! i))" using g n by auto
    ultimately have "0 < held (table_ptrs ts) q" using part_ptrs_in_table by blast
    then have pos: "0 < (\<lambda>q. held (table_ptrs ts) q + r q) q" by simp
    have ok': "mem_ok (m\<lparr>m_randomizer := rnd\<rparr>) (\<lambda>q. held (table_ptrs ts) q + r q)"
      using ok by simp
    from rc.reserve_one [OF ok' pos b] show ?thesis
      using \<open>cl_partition_table_get_by_ns ts ns = Some i\<close> n pk Some
      by (auto simp: cl_partition_table_get_def table_of_def)
  qed
qed

text \<open>The removal of a node that is master nowhere.\<close>

definition unproled :: "node_ptr \<Rightarrow> cl_partition \<Rightarrow> cl_partition" where
  "unproled node p = p\<lparr>p_prole := without node (p_prole p)\<rparr>"

definition unproled_table :: "node_ptr \<Rightarrow> cl_partition_table \<Rightarrow> cl_partition_table" where
  "unproled_table node t = t\<lparr>pt_partitions := map (unproled node) (pt_partitions t)\<rparr>"

lemma unprole_ok:
  assumes "mem_ok m (\<lambda>q. held (part_ptrs p) q + r q)"
  shows "\<exists>m'. unprole m node p = Some (m', unproled node p) \<and>
    mem_ok m' (\<lambda>q. held (part_ptrs (unproled node p)) q + r q)"
proof -
  have "mem_ok m (\<lambda>q. held (opt_list (p_prole p)) q + (held (opt_list (p_master p)) q + r q))"
    using assms by (simp add: part_ptrs_def ac_simps)
  from drop_ref [OF this, of node] obtain m' where
    "(if p_prole p = Some node then cl_cluster_node_release m node else Some m) = Some m'"
    "mem_ok m' (\<lambda>q. held (opt_list (without node (p_prole p))) q + (held (opt_list (p_master p)) q + r q))" by blast
  then show ?thesis
    by (auto simp: unprole_def unproled_def part_ptrs_def without_def ac_simps split: if_splits)
qed

lemma unprole_partitions_ok:
  assumes "mem_ok m (\<lambda>q. held (parts_ptrs ps) q + r q)"
  shows "\<exists>m'. unprole_partitions m node ps = Some (m', map (unproled node) ps) \<and>
    mem_ok m' (\<lambda>q. held (parts_ptrs (map (unproled node) ps)) q + r q)"
  using assms
proof (induction ps arbitrary: m r)
  case (Cons p ps)
  have "mem_ok m (\<lambda>q. held (part_ptrs p) q + (held (parts_ptrs ps) q + r q))" using Cons.prems by (simp add: ac_simps)
  from unprole_ok [OF this] obtain m1 where m1: "unprole m node p = Some (m1, unproled node p)"
    "mem_ok m1 (\<lambda>q. held (part_ptrs (unproled node p)) q + (held (parts_ptrs ps) q + r q))" by blast
  have "mem_ok m1 (\<lambda>q. held (parts_ptrs ps) q + (held (part_ptrs (unproled node p)) q + r q))"
    using m1(2) by (simp add: ac_simps)
  from Cons.IH [OF this] m1(1) show ?case by (auto simp: ac_simps)
qed simp

lemma unprole_tables_ok:
  assumes "mem_ok m (\<lambda>q. held (table_ptrs ts) q + r q)"
  shows "\<exists>m'. unprole_tables m node ts = Some (m', map (unproled_table node) ts) \<and>
    mem_ok m' (\<lambda>q. held (table_ptrs (map (unproled_table node) ts)) q + r q)"
  using assms
proof (induction ts arbitrary: m r)
  case (Cons t ts)
  have "mem_ok m (\<lambda>q. held (parts_ptrs (pt_partitions t)) q + (held (table_ptrs ts) q + r q))"
    using Cons.prems by (simp add: ac_simps)
  from unprole_partitions_ok [OF this] obtain m1 where m1:
    "unprole_partitions m node (pt_partitions t) = Some (m1, map (unproled node) (pt_partitions t))"
    "mem_ok m1 (\<lambda>q. held (parts_ptrs (map (unproled node) (pt_partitions t))) q + (held (table_ptrs ts) q + r q))" by blast
  have "mem_ok m1 (\<lambda>q. held (table_ptrs ts) q + (held (parts_ptrs (map (unproled node) (pt_partitions t))) q + r q))"
    using m1(2) by (simp add: ac_simps)
  from Cons.IH [OF this] m1(1) show ?case by (auto simp: unproled_table_def ac_simps)
qed simp

text \<open>Afterwards no table refers to the node.\<close>

lemma unproled_tables_clean:
  assumes "\<not> is_master node ts"
  shows "held (table_ptrs (map (unproled_table node) ts)) node = 0"
proof -
  have "node \<notin> set (table_ptrs (map (unproled_table node) ts))"
    using assms by (auto simp: is_master_def table_ptrs_def unproled_table_def parts_ptrs_def part_ptrs_def unproled_def without_def)
  then show ?thesis by (auto simp: held_def filter_empty_conv)
qed

lemma cl_partition_table_is_node_present_ok:
  assumes "mem_ok m (\<lambda>q. held (table_ptrs ts) q + r q)"
  shows "\<exists>m' ts'. cl_partition_table_is_node_present m ts node = Some (is_master node ts, m', ts') \<and>
    mem_ok m' (\<lambda>q. held (table_ptrs ts') q + r q) \<and>
    ts' = (if is_master node ts then ts else map (unproled_table node) ts)"
  using assms unprole_tables_ok [OF assms, of node] by (auto simp: cl_partition_table_is_node_present_def)

lemma cl_partition_table_destroy_all_ok:
  assumes "mem_ok m (\<lambda>q. held (table_ptrs ts) q + r q)"
  shows "\<exists>m'. cl_partition_table_destroy_all m ts = Some m' \<and> mem_ok m' r"
  using rc.release_all [OF assms] by (simp add: cl_partition_table_destroy_all_eq)

lemma partition_id_less:
  assumes "0 < n" and "n \<le> 2 ^ 16" and "2 \<le> length d"
  shows "\<exists>pid. cl_partition_getid (of_nat n) d = Some pid \<and> pid < n"
proof -
  let ?x = "le_word (take 2 d) :: u32" and ?k = "of_nat n - 1 :: u32"
  have k: "?k = of_nat (n - 1)" using assms(1) by (simp add: of_nat_diff)
  have "unat ?k = n - 1" unfolding k unat_of_nat using assms(2) by (intro mod_less) simp
  moreover have "unat (?x AND ?k) \<le> unat ?k" by (simp add: word_and_le1 word_le_nat_alt [symmetric])
  moreover have "unat (ucast (?x AND ?k) :: u16) \<le> unat (?x AND ?k)" by (simp add: unsigned_ucast_eq take_bit_nat_less_eq_self)
  ultimately have "unat (ucast (?x AND ?k) :: u16) < n" using assms(1) by linarith
  then show ?thesis using assms(3) by (simp add: cl_partition_getid_def load_def)
qed

subsection \<open>Properties\<close>

definition fd_queue :: "int list \<Rightarrow> cf_queue" where
  "fd_queue fds = \<lparr>threadsafe = True, allocsz = 64, write_offset = of_nat (length fds), read_offset = 0, elementsz = 4,
     queue = Some (concat (map fd_bytes fds) @ replicate (4 * (64 - length fds)) 0)\<rparr>"

definition sample_node :: "u32 \<Rightarrow> cl_cluster_node" where
  "sample_node k = \<lparr>cn_name = [66], cn_intervals_absent = 0, cn_intervals_unreachable = 0, cn_sockaddr_in_v = [],
     cn_partition_generation = 1, cn_conn_q = fd_queue [5, 9], cn_conn_q_asyncfd = fd_queue [], cn_asyncwork_q = fd_queue [],
     cn_info_fd = - 1, cn_rc = k\<rparr>"

definition sample_mem :: mem where
  "sample_mem = \<lparr>m_nodes = (\<lambda>_. None)(1 \<mapsto> sample_node 2, 2 \<mapsto> sample_node 1), m_closed = [], m_randomizer = 0\<rparr>"

definition sample_tables :: "cl_partition_table list" where
  "sample_tables = [\<lparr>pt_ns = [97], pt_partitions = [\<lparr>p_master = Some 1, p_prole = None\<rparr>, empty_partition]\<rparr>]"

lemma fd_queue_inv: "cf_queue_inv (fd_queue [5, 9])" "cf_queue_inv (fd_queue [])"
  by (simp_all add: cf_queue_inv_def fd_queue_def cf_queue_cap_def fd_bytes_def)

lemma fd_queue_elems: "length (cf_queue_elems (fd_queue [5, 9])) = 2" "elementsz (fd_queue fds) = 4"
  by (simp_all add: length_cf_queue_elems fd_queue_def)

lemma sample_mem_ok: "mem_ok sample_mem (\<lambda>q. held (table_ptrs sample_tables) q + (if q = 1 \<or> q = 2 then 1 else 0))"
  by (simp add: mem_ok_def sample_mem_def sample_node_def node_ok_def fd_queue_inv fd_queue_elems sample_tables_def parts_ptrs_def
    part_ptrs_def empty_partition_def)

text \<open>C17: An update with the bitmaps of a node gives the node exactly the partitions it claims (master
  before prole), takes it off all others, and leaves every other owner and every other namespace as
  it was; the table is made when there is none. No pointer is used after it was freed, and
  every reference count is again the number of references. A table is not made for a name of 33 bytes or more:
  copying it runs over the array of the name, a fault.\<close>

theorem partition_update_spec:
  assumes "mem_ok m (\<lambda>q. held (table_ptrs ts) q + r q)" and "tables_wf n ts" and "0 < r node"
    and "r node + held (table_ptrs ts) node + 2 * n + 2 < 2 ^ 32"
    and "length masters = n" and "length proles = n"
  shows "if table_of ts ns = None \<and> 33 \<le> length ns then cl_partition_table_update True n m ts node ns masters proles = None
    else \<exists>m' ts'. cl_partition_table_update True n m ts node ns masters proles = Some (m', ts') \<and>
      mem_ok m' (\<lambda>q. held (table_ptrs ts') q + r q) \<and> tables_wf n ts' \<and>
      (\<forall>ns'. ns' \<noteq> ns \<longrightarrow> table_of ts' ns' = table_of ts ns') \<and>
      (\<exists>ps. table_of ts' ns = Some ps \<and> length ps = n \<and>
        (\<forall>i < n. ps ! i = updated_partition node (masters ! i) (proles ! i)
           (case table_of ts ns of None \<Rightarrow> empty_partition | Some old \<Rightarrow> old ! i)))"
proof (cases "table_of ts ns = None \<and> 33 \<le> length ns")
  case True
  then show ?thesis by (simp add: cl_partition_table_update_long NS_SIZE_def)
next
  case False
  then have "table_of ts ns = None \<Longrightarrow> length ns < NS_SIZE" by (simp add: NS_SIZE_def)
  from cl_partition_table_update_ok [OF assms this] obtain m' ts' where u:
    "cl_partition_table_update True n m ts node ns masters proles = Some (m', ts')"
    "mem_ok m' (\<lambda>q. held (table_ptrs ts') q + r q)" "tables_wf n ts'"
    "table_of ts' = (table_of ts)(ns \<mapsto> update_result n node masters proles (table_of ts ns))" by blast
  let ?old = "case table_of ts ns of None \<Rightarrow> replicate n empty_partition | Some ps \<Rightarrow> ps"
  have l: "length ?old = n" using assms(2) get_by_ns_Some [of ts ns]
    by (auto simp: table_of_def tables_wf_def split: option.splits)
  have "?old ! i = (case table_of ts ns of None \<Rightarrow> empty_partition | Some old \<Rightarrow> old ! i)" if "i < n" for i
    using that by (simp split: option.splits)
  then show ?thesis unfolding if_not_P [OF False] using u assms(5,6) l
    by (simp add: update_result_def length_updated_partitions nth_updated_partitions)
qed

theorem partition_update_spec_witness:
  "\<exists>m' ts'. cl_partition_table_update True 2 sample_mem sample_tables 2 [98] [True, False] [False, True] = Some (m', ts') \<and>
    mem_ok m' (\<lambda>q. held (table_ptrs ts') q + (if q = 1 \<or> q = 2 then 1 else 0)) \<and> tables_wf 2 ts' \<and>
    (\<forall>ns'. ns' \<noteq> [98] \<longrightarrow> table_of ts' ns' = table_of sample_tables ns') \<and>
    (\<exists>ps. table_of ts' [98] = Some ps \<and> length ps = 2 \<and>
      (\<forall>i < 2. ps ! i = updated_partition 2 ([True, False] ! i) ([False, True] ! i)
         (case table_of sample_tables [98] of None \<Rightarrow> empty_partition | Some old \<Rightarrow> old ! i)))"
proof -
  have w: "if table_of sample_tables [98] = None \<and> 33 \<le> length [98 :: u8]
    then cl_partition_table_update True 2 sample_mem sample_tables 2 [98] [True, False] [False, True] = None
    else \<exists>m' ts'. cl_partition_table_update True 2 sample_mem sample_tables 2 [98] [True, False] [False, True] = Some (m', ts') \<and>
      mem_ok m' (\<lambda>q. held (table_ptrs ts') q + (if q = 1 \<or> q = 2 then 1 else 0)) \<and> tables_wf 2 ts' \<and>
      (\<forall>ns'. ns' \<noteq> [98] \<longrightarrow> table_of ts' ns' = table_of sample_tables ns') \<and>
      (\<exists>ps. table_of ts' [98] = Some ps \<and> length ps = 2 \<and>
        (\<forall>i < 2. ps ! i = updated_partition 2 ([True, False] ! i) ([False, True] ! i)
           (case table_of sample_tables [98] of None \<Rightarrow> empty_partition | Some old \<Rightarrow> old ! i)))"
    by (rule partition_update_spec [OF sample_mem_ok])
      (simp_all add: sample_tables_def tables_wf_def parts_ptrs_def part_ptrs_def empty_partition_def)
  have "\<not> (table_of sample_tables [98] = None \<and> 33 \<le> length [98 :: u8])" by simp
  then show ?thesis by (rule iffD1 [OF if_not_P w])
qed

text \<open>The partition of a digest is always inside a table of \<open>n\<close> partitions, whatever \<open>n\<close> is.\<close>

theorem partition_getid_bound:
  assumes "0 < n" and "n \<le> 2 ^ 16" and "2 \<le> length d"
  shows "\<exists>pid. cl_partition_getid (of_nat n) d = Some pid \<and> pid < n"
  by (rule partition_id_less [OF assms])

theorem partition_getid_bound_witness:
  "\<exists>pid. cl_partition_getid (of_nat 4096) [255, 255, 1] = Some pid \<and> pid < 4096"
  by (rule partition_getid_bound) simp_all

end
