(* ===== verification/Cl_Replicas.thy ===== *)
theory Cl_Replicas
  imports Cl_Partition
begin

section \<open>The replicas that a node reports (\<open>src/cl_cluster.c\<close>)\<close>

text \<open>
  A node answers an info request with lines of text, \<open>name\<close> tab \<open>value\<close>; the value of
  \<open>replicas-master\<close> and \<open>replicas-prole\<close> is, per namespace, a bitmap of its partitions in base 64.
  The code walks on the string in place and puts zeros behind the pieces; here a string is the
  list of its characters before the zero and a piece is a list of its own.
\<close>

subsection \<open>Strings\<close>

text \<open>\<open>str_split\<close>: \<open>acc\<close> is the piece between \<open>prev\<close> and \<open>str\<close>; an empty last piece is dropped.\<close>

fun str_split :: "u8 \<Rightarrow> block \<Rightarrow> block \<Rightarrow> block list" where
  "str_split c acc [] = (if acc = [] then [] else [acc])"
| "str_split c acc (x # xs) = (if x = c then acc # str_split c [] xs else str_split c (acc @ [x]) xs)"

definition isspace :: "u8 \<Rightarrow> bool" where
  "isspace c \<longleftrightarrow> c = 32 \<or> (9 \<le> c \<and> c \<le> 13)"

definition isdigit :: "u8 \<Rightarrow> bool" where
  "isdigit c \<longleftrightarrow> 48 \<le> c \<and> c \<le> 57"

definition trim :: "block \<Rightarrow> block" where
  "trim str = rev (dropWhile isspace (rev (dropWhile isspace str)))"

definition atoi :: "block \<Rightarrow> int" where
  "atoi s = (let s1 = dropWhile isspace s;
                 neg = (s1 \<noteq> [] \<and> hd s1 = 45);
                 s2 = (if s1 \<noteq> [] \<and> (hd s1 = 45 \<or> hd s1 = 43) then tl s1 else s1);
                 v = foldl (\<lambda>a c. a * 10 + (int (unat c) - 48)) 0 (takeWhile isdigit s2)
             in if neg then - v else v)"

subsection \<open>Base 64\<close>

definition CF_BASE64_DECODE_ARRAY :: block where
  "CF_BASE64_DECODE_ARRAY = replicate 43 0 @ [62, 0, 0, 0, 63] @ map of_nat [52..<62] @ replicate 7 0 @
     map of_nat [0..<26] @ replicate 6 0 @ map of_nat [26..<52] @ replicate 133 0"

definition B64DA :: "u8 \<Rightarrow> u8" where
  "B64DA c = CF_BASE64_DECODE_ARRAY ! unat c"

function b64_decode :: "block \<Rightarrow> nat \<Rightarrow> nat \<Rightarrow> nat \<Rightarrow> block \<Rightarrow> block option" where
  "b64_decode inp len i j out =
     (if i < len then do {
        x \<leftarrow> load inp i 4;
        out \<leftarrow> store out j [push_bit 2 (B64DA (x ! 0)) OR drop_bit 4 (B64DA (x ! 1)),
                          push_bit 4 (B64DA (x ! 1)) OR drop_bit 2 (B64DA (x ! 2)),
                          push_bit 6 (B64DA (x ! 2)) OR B64DA (x ! 3)];
        b64_decode inp len (i + 4) (j + 3) out }
      else Some out)"
  by pat_completeness auto
termination by (relation "measure (\<lambda>(inp, len, i, j, out). len - i)") auto

declare b64_decode.simps [simp del]

subsection \<open>Partition maps\<close>

record ns_partition_map =
  pmap_ns :: block
  pmap_owns :: "bool list"

fun find_map :: "ns_partition_map list \<Rightarrow> block \<Rightarrow> nat option" where
  "find_map [] ns = None"
| "find_map (p # ps) ns = (if pmap_ns p = ns then Some 0 else map_option Suc (find_map ps ns))"

text \<open>
  The map of a namespace, made when there is none: its position and the vector, or the null pointer (\<open>Some None\<close>). The
  name goes into an array of 32 bytes; one that does not fit is a fault, which the tests of the callers exclude.
\<close>

definition ns_partition_map_get ::
  "bool \<Rightarrow> ns_partition_map list \<Rightarrow> block \<Rightarrow> nat \<Rightarrow> (nat \<times> ns_partition_map list) option option" where
  "ns_partition_map_get alloc_ok maps ns n_partitions =
     (case find_map maps ns of Some i \<Rightarrow> Some (Some (i, maps))
      | None \<Rightarrow> if \<not> alloc_ok then Some None
                else if length ns < 32
                then Some (Some (length maps, maps @ [\<lparr>pmap_ns = ns, pmap_owns = replicate n_partitions False\<rparr>]))
                else None)"

definition bitmap_bit :: "block \<Rightarrow> nat \<Rightarrow> bool" where
  "bitmap_bit bitmap i \<longleftrightarrow> bitmap ! (i div 8) AND drop_bit (i mod 8) 0x80 \<noteq> 0"

fun expand_bitmap :: "block \<Rightarrow> nat \<Rightarrow> nat \<Rightarrow> bool list \<Rightarrow> bool list option" where
  "expand_bitmap bitmap i 0 owns = Some owns"
| "expand_bitmap bitmap i (Suc n) owns =
     (if i div 8 < length bitmap
      then (if bitmap_bit bitmap i
            then if i < length owns then expand_bitmap bitmap (Suc i) n (owns[i := True]) else None
            else expand_bitmap bitmap (Suc i) n owns)
      else None)"

text \<open>The array on the stack has indeterminate bytes \<open>g\<close>.\<close>

definition ns_partition_map_set ::
  "(nat \<Rightarrow> u8) \<Rightarrow> ns_partition_map \<Rightarrow> block \<Rightarrow> nat \<Rightarrow> nat \<Rightarrow> ns_partition_map option" where
  "ns_partition_map_set g p_map encoded len n_partitions = do {
     bitmap \<leftarrow> b64_decode encoded len 0 0 (map g [0..<len div 4 * 3]);
     owns \<leftarrow> expand_bitmap bitmap 0 n_partitions (pmap_owns p_map);
     Some (p_map\<lparr>pmap_owns := owns\<rparr>) }"

definition expected_encoded_len :: "nat \<Rightarrow> nat" where
  "expected_encoded_len n_partitions = ((n_partitions + 7) div 8 + 2) div 3 * 4"

lemma next_shorter:
  "p \<noteq> [] \<Longrightarrow> length (dropWhile Q (tl (dropWhile P p))) - Suc 0 < length p" for p :: "'a list"
proof -
  assume "p \<noteq> []"
  have "length (dropWhile Q (tl (dropWhile P p))) \<le> length (tl (dropWhile P p))" by (rule length_dropWhile_le)
  also have "\<dots> \<le> length p - 1" using length_dropWhile_le [of P p] by simp
  finally show ?thesis using \<open>p \<noteq> []\<close> by (cases p) auto
qed

function parse_replicas_map :: "(nat \<Rightarrow> u8) \<Rightarrow> bool \<Rightarrow> block \<Rightarrow> nat \<Rightarrow> ns_partition_map list \<Rightarrow>
    ns_partition_map list option" where
  "parse_replicas_map g alloc_ok p n maps =
     (if p = [] then Some maps
      else
        let list_ns = takeWhile (\<lambda>c. c \<noteq> 58) p; rest = dropWhile (\<lambda>c. c \<noteq> 58) p in
        if rest = [] then Some maps
        else
          let encoded = takeWhile (\<lambda>c. c \<noteq> 59) (tl rest); next = drop 1 (dropWhile (\<lambda>c. c \<noteq> 59) (tl rest));
              ns = trim list_ns in
          if length ns = 0 \<or> length ns > 31 then parse_replicas_map g alloc_ok next n maps
          else if expected_encoded_len n \<noteq> length encoded then parse_replicas_map g alloc_ok next n maps
          else (case ns_partition_map_get alloc_ok maps ns n of
              None \<Rightarrow> None
            | Some None \<Rightarrow> parse_replicas_map g alloc_ok next n maps
            | Some (Some (i, maps)) \<Rightarrow> do {
                m \<leftarrow> ns_partition_map_set g (maps ! i) encoded (length encoded) n;
                parse_replicas_map g alloc_ok next n (maps[i := m]) }))"
  by pat_completeness auto
termination
  by (relation "measure (\<lambda>(g, alloc_ok, p, n, maps). length p)") (use next_shorter in auto)

declare parse_replicas_map.simps [simp del]

subsection \<open>What the bitmaps mean\<close>

text \<open>The reference encoder: base 64 with the usual padding, and the bits of a byte from the highest down.\<close>

definition b64_char :: "u8 \<Rightarrow> u8" where
  "b64_char x = (if x < 26 then x + 65 else if x < 52 then x + 71 else if x < 62 then x - 4
     else if x = 62 then 43 else 47)"

fun b64_encode :: "block \<Rightarrow> block" where
  "b64_encode (a # b # c # xs) =
     b64_char (drop_bit 2 a) # b64_char (push_bit 4 (take_bit 2 a) OR drop_bit 4 b) #
     b64_char (push_bit 2 (take_bit 4 b) OR drop_bit 6 c) # b64_char (take_bit 6 c) # b64_encode xs"
| "b64_encode [a, b] =
     [b64_char (drop_bit 2 a), b64_char (push_bit 4 (take_bit 2 a) OR drop_bit 4 b), b64_char (push_bit 2 (take_bit 4 b)), 61]"
| "b64_encode [a] = [b64_char (drop_bit 2 a), b64_char (push_bit 4 (take_bit 2 a)), 61, 61]"
| "b64_encode [] = []"

definition b64_padded :: "block \<Rightarrow> block" where
  "b64_padded bs = bs @ replicate (2 - (length bs + 2) mod 3) 0"

definition pack_byte :: "bool list \<Rightarrow> nat \<Rightarrow> u8" where
  "pack_byte owns k = horner_sum of_bool 2 (map (\<lambda>i. 8 * k + (7 - i) < length owns \<and> owns ! (8 * k + (7 - i))) [0..<8])"

definition pack :: "bool list \<Rightarrow> block" where
  "pack owns = map (pack_byte owns) [0..<(length owns + 7) div 8]"

lemma b64_table: "\<forall>k \<in> set [0..<64]. B64DA (b64_char (of_nat k)) = of_nat k"
  by code_simp

lemma B64DA_char: "x < 64 \<Longrightarrow> B64DA (b64_char x) = x"
proof -
  assume "x < 64"
  then have "unat x \<in> set [0..<64]" by (simp add: word_less_nat_alt)
  then have "B64DA (b64_char (of_nat (unat x))) = of_nat (unat x)" using b64_table by blast
  then show ?thesis by simp
qed

lemma B64DA_pad: "B64DA 61 = 0"
  by code_simp

lemma bound64: "(\<And>n. 6 \<le> n \<Longrightarrow> \<not> bit x n) \<Longrightarrow> x < 64" for x :: u8
proof -
  assume a: "\<And>n. 6 \<le> n \<Longrightarrow> \<not> bit x n"
  have "x = take_bit 6 x" by (rule bit_eqI) (use a not_less in \<open>auto simp: bit_take_bit_iff\<close>)
  also have "\<dots> = x AND 63" by (simp add: take_bit_eq_mask mask_eq_exp_minus_1)
  also have "\<dots> \<le> 63" by (rule word_and_le1)
  finally show ?thesis by (simp add: word_less_nat_alt word_le_nat_alt)
qed

lemma sextets:
  "drop_bit 2 a < 64" "push_bit 4 (take_bit 2 a) OR drop_bit 4 b < 64"
  "push_bit 2 (take_bit 4 b) OR drop_bit 6 c < 64" "take_bit 6 c < 64" for a b c :: u8
  by (rule bound64, auto simp: bit_simps dest: bit_imp_le_length)+

lemma add_back: "\<not> n < 2 \<Longrightarrow> Suc (Suc (n - 2)) = n" "\<not> n < 4 \<Longrightarrow> 4 + (n - 4) = n" "2 \<le> n \<Longrightarrow> Suc (Suc (n - 2)) = n"
  by auto

lemma octet_1: "push_bit 2 (drop_bit 2 a) OR drop_bit 4 (push_bit 4 (take_bit 2 a) OR drop_bit 4 b) = a" for a b :: u8
proof (rule bit_eqI)
  fix n
  show "bit (push_bit 2 (drop_bit 2 a) OR drop_bit 4 (push_bit 4 (take_bit 2 a) OR drop_bit 4 b)) n = bit a n"
    by (cases "n < 2") (auto simp: bit_simps add_back dest: bit_imp_le_length)
qed

lemma octet_2: "push_bit 4 (push_bit 4 (take_bit 2 a) OR drop_bit 4 b) OR drop_bit 2 (push_bit 2 (take_bit 4 b) OR drop_bit 6 c) = b"
  for a b c :: u8
proof (rule bit_eqI)
  fix n
  show "bit (push_bit 4 (push_bit 4 (take_bit 2 a) OR drop_bit 4 b) OR drop_bit 2 (push_bit 2 (take_bit 4 b) OR drop_bit 6 c)) n = bit b n"
    by (cases "n < 4") (auto simp: bit_simps add_back dest: bit_imp_le_length)
qed

lemma octet_3: "push_bit 6 (push_bit 2 (take_bit 4 b) OR drop_bit 6 c) OR (take_bit 6 c) = c" for b c :: u8
  by (rule bit_eqI) (auto simp: bit_simps not_less add_back dest: bit_imp_le_length)


lemmas octets = octet_1 [simplified] octet_2 [simplified] octet_3 [simplified]

lemma b64_decode_step:
  assumes "length pre = i" and "length opre = j" and "length rest = 3 + k"
  shows "b64_decode (pre @ [p, q, r, s] @ post) (i + (4 + length post)) i j (opre @ rest) =
    b64_decode ((pre @ [p, q, r, s]) @ post) ((i + 4) + length post) (i + 4) (j + 3)
      ((opre @ [push_bit 2 (B64DA p) OR drop_bit 4 (B64DA q), push_bit 4 (B64DA q) OR drop_bit 2 (B64DA r),
                push_bit 6 (B64DA r) OR B64DA s]) @ drop 3 rest)"
  using assms by (subst b64_decode.simps) (simp add: load_def store_def add.commute add.left_commute)

lemma b64_decode_last:
  assumes "length rest = 3"
  shows "b64_decode (pre @ [p, q, r, s]) (length pre + 4) (length pre) (length opre) (opre @ rest) =
    Some (opre @ [push_bit 2 (B64DA p) OR drop_bit 4 (B64DA q), push_bit 4 (B64DA q) OR drop_bit 2 (B64DA r),
                  push_bit 6 (B64DA r) OR B64DA s])"
  using b64_decode_step [of pre "length pre" opre "length opre" rest 0 p q r s "[]"] assms
  by (simp add: b64_decode.simps [of _ "length pre + 4" "length pre + 4"])

lemma add4: "n + 4 = Suc (Suc (Suc (Suc n)))"
  by simp

lemma groups: "(5 + n) div 3 = Suc ((2 + n) div 3)" for n :: nat
  using div_add_self1 [of 3 "2 + n"] by simp

lemma length_b64_encode: "length (b64_encode bs) = (2 + length bs) div 3 * 4"
  by (induction bs rule: b64_encode.induct) (simp_all add: groups)

theorem b64_decode_encode_at:
  assumes "length rest = (2 + length bs) div 3 * 3"
  shows "b64_decode (pre @ b64_encode bs) (length pre + length (b64_encode bs)) (length pre) (length opre) (opre @ rest) =
    Some (opre @ b64_padded bs)"
  using assms
proof (induction bs arbitrary: pre opre rest rule: b64_encode.induct)
  case (1 a b c xs)
  have l: "length (drop 3 rest) = (2 + length xs) div 3 * 3" using 1(2) by (simp add: groups)
  let ?p = "b64_char (drop_bit 2 a)" and ?q = "b64_char (push_bit 4 (take_bit 2 a) OR drop_bit 4 b)"
    and ?r = "b64_char (push_bit 2 (take_bit 4 b) OR drop_bit 6 c)" and ?s = "b64_char (take_bit 6 c)"
  have "b64_decode (pre @ [?p, ?q, ?r, ?s] @ b64_encode xs) (length pre + (4 + length (b64_encode xs))) (length pre) (length opre) (opre @ rest) =
    b64_decode ((pre @ [?p, ?q, ?r, ?s]) @ b64_encode xs) ((length pre + 4) + length (b64_encode xs)) (length pre + 4) (length opre + 3)
      ((opre @ [a, b, c]) @ drop 3 rest)"
    by (subst b64_decode_step [where k = "(2 + length xs) div 3 * 3"])
      (use 1(2) in \<open>simp_all add: groups B64DA_char sextets octets\<close>)
  also have "\<dots> = Some ((opre @ [a, b, c]) @ b64_padded xs)"
    using 1(1) [OF l, of "pre @ [?p, ?q, ?r, ?s]" "opre @ [a, b, c]"] by (simp add: eval_nat_numeral)
  moreover have "length pre + (4 + k) = Suc (Suc (Suc (Suc (length pre + k))))" for k by simp
  ultimately show ?case by (simp add: b64_padded_def mod_add_self1 [of 3 "2 + length xs", simplified])
next
  case (2 a b)
  let ?p = "b64_char (drop_bit 2 a)" and ?q = "b64_char (push_bit 4 (take_bit 2 a) OR drop_bit 4 b)"
    and ?r = "b64_char (push_bit 2 (take_bit 4 b))"
  have "b64_decode (pre @ [?p, ?q, ?r, 61]) (length pre + 4) (length pre) (length opre) (opre @ rest) = Some (opre @ [a, b, 0])"
    by (subst b64_decode_last) (use 2 sextets(3) [of b 0] octet_2 [of a b 0] in
      \<open>simp_all add: B64DA_char B64DA_pad sextets octets\<close>)
  then show ?case by (simp only: b64_encode.simps) (simp add: b64_padded_def add4)
next
  case (3 a)
  let ?p = "b64_char (drop_bit 2 a)" and ?q = "b64_char (push_bit 4 (take_bit 2 a))"
  have "b64_decode (pre @ [?p, ?q, 61, 61]) (length pre + 4) (length pre) (length opre) (opre @ rest) = Some (opre @ [a, 0, 0])"
    by (subst b64_decode_last) (use 3 sextets(2) [of a 0] octet_1 [of a 0] octet_2 [of a 0 0] in
      \<open>simp_all add: B64DA_char B64DA_pad sextets octets\<close>)
  then show ?case by (simp only: b64_encode.simps) (simp add: b64_padded_def numeral_2_eq_2 add4)
qed (simp add: b64_padded_def b64_decode.simps)

lemma b64_decode_encode:
  "b64_decode (b64_encode bs) (length (b64_encode bs)) 0 0 (map g [0..<length (b64_encode bs) div 4 * 3]) = Some (b64_padded bs)"
  using b64_decode_encode_at [of "map g [0..<length (b64_encode bs) div 4 * 3]" bs "[]" "[]"]
  by (simp add: length_b64_encode)

lemma high_bit: "drop_bit k 0x80 = (2 ^ (7 - k) :: u8)" if "k < 8"
proof -
  have "(0x80 :: u8) = push_bit k (2 ^ (7 - k))" using that by (simp add: push_bit_eq_mult flip: power_add)
  moreover have "drop_bit k (push_bit k (2 ^ (7 - k) :: u8)) = 2 ^ (7 - k)"
    by (rule bit_eqI) (use that in \<open>auto simp: bit_simps bit_exp_iff\<close>)
  ultimately show ?thesis by simp
qed

lemma bitmap_bit_iff: "bitmap_bit bitmap i \<longleftrightarrow> bit (bitmap ! (i div 8)) (7 - i mod 8)"
  unfolding bitmap_bit_def by (simp add: high_bit and_exp_eq_0_iff_not_bit)

lemma expand_bitmap_ok:
  assumes "i + n \<le> 8 * length bitmap" and "i + n \<le> length owns"
  shows "\<exists>owns'. expand_bitmap bitmap i n owns = Some owns' \<and> length owns' = length owns \<and>
    (\<forall>k < length owns. owns' ! k = (owns ! k \<or> (i \<le> k \<and> k < i + n \<and> bitmap_bit bitmap k)))"
  using assms
proof (induction n arbitrary: i owns)
  case (Suc n)
  let ?owns = "if bitmap_bit bitmap i then owns[i := True] else owns"
  have l: "length ?owns = length owns" by simp
  from Suc.IH [of "Suc i" ?owns, unfolded l Suc_le_eq] Suc.prems obtain owns' where
    "expand_bitmap bitmap (Suc i) n ?owns = Some owns'" "length owns' = length owns"
    "\<forall>k < length owns. owns' ! k = (?owns ! k \<or> (i < k \<and> k < Suc i + n \<and> bitmap_bit bitmap k))" by auto
  moreover have "i div 8 < length bitmap" "i < length owns" using Suc.prems by auto
  ultimately show ?case by (intro exI [of _ owns']) (auto simp: nth_list_update Suc_le_eq dest: le_imp_less_or_eq split: if_splits)
qed (auto simp del: nth_list_update)

lemma pack_bit: "i < length owns \<Longrightarrow> i div 8 < length bs \<Longrightarrow> take (length (pack owns)) bs = pack owns \<Longrightarrow>
    bitmap_bit bs i = owns ! i"
proof -
  assume i: "i < length owns" "i div 8 < length bs" "take (length (pack owns)) bs = pack owns"
  have l: "i div 8 < (length owns + 7) div 8" using i(1) by linarith
  have "bs ! (i div 8) = take (length (pack owns)) bs ! (i div 8)" using l by (simp add: pack_def)
  also have "\<dots> = pack_byte owns (i div 8)" unfolding i(3) using l by (simp add: pack_def)
  finally have "bitmap_bit bs i = bit (pack_byte owns (i div 8)) (7 - i mod 8)" by (simp add: bitmap_bit_iff)
  moreover have "7 - (7 - i mod 8) = i mod 8" "7 - i mod 8 < 8" by simp_all
  ultimately show ?thesis using i(1) by (simp add: pack_byte_def bit_horner_sum_bit_iff less_Suc_eq_le)
qed

text \<open>Setting the map of a namespace from the encoded bitmap adds exactly the encoded partitions.\<close>

lemma ns_partition_map_set_ok:
  assumes "length (pmap_owns p) = length owns"
  shows "ns_partition_map_set g p (b64_encode (pack owns)) (length (b64_encode (pack owns))) (length owns) =
    Some (p\<lparr>pmap_owns := map2 (\<or>) (pmap_owns p) owns\<rparr>)"
proof -
  let ?b = "b64_padded (pack owns)"
  have l: "length owns \<le> 8 * length ?b" by (simp add: b64_padded_def pack_def)
  from expand_bitmap_ok [of 0 "length owns" ?b "pmap_owns p"] l assms obtain owns' where o:
    "expand_bitmap ?b 0 (length owns) (pmap_owns p) = Some owns'" "length owns' = length owns"
    "\<forall>k < length owns. owns' ! k = (pmap_owns p ! k \<or> bitmap_bit ?b k)" by auto
  have "bitmap_bit ?b k = owns ! k" if "k < length owns" for k
    by (rule pack_bit) (use that l in \<open>auto simp: b64_padded_def\<close>)
  then have "owns' = map2 (\<or>) (pmap_owns p) owns" using o assms by (intro nth_equalityI) auto
  then show ?thesis using o by (simp add: ns_partition_map_set_def b64_decode_encode)
qed

lemma expected_encoded_len_ok: "expected_encoded_len (length owns) = length (b64_encode (pack owns))"
  by (simp add: expected_encoded_len_def length_b64_encode pack_def add.commute)

subsection \<open>What the texts mean\<close>

text \<open>Names of namespaces as a server gives them, and a list of encoded bitmaps.\<close>

definition ns_name :: "block \<Rightarrow> bool" where
  "ns_name ns \<longleftrightarrow> 0 < length ns \<and> length ns \<le> 31 \<and> (\<forall>c \<in> set ns. \<not> isspace c \<and> c \<noteq> 58 \<and> c \<noteq> 59)"

fun render_map :: "(block \<times> bool list) list \<Rightarrow> block" where
  "render_map [] = []"
| "render_map [(ns, owns)] = ns @ 58 # b64_encode (pack owns)"
| "render_map ((ns, owns) # x # xs) = ns @ 58 # b64_encode (pack owns) @ 59 # render_map (x # xs)"

definition pmap_of :: "block \<times> bool list \<Rightarrow> ns_partition_map" where
  "pmap_of x = \<lparr>pmap_ns = fst x, pmap_owns = snd x\<rparr>"

lemma b64_char_ascii: "b64_char x \<noteq> 58" "b64_char x \<noteq> 59" "b64_char x \<noteq> 9" "b64_char x \<noteq> 10"
proof -
  have "b64_char (of_nat (unat x)) \<notin> {58, 59, 9, 10}" if "unat x \<in> set [0..<256]"
  proof -
    have "\<forall>k \<in> set [0..<256]. b64_char (of_nat k) \<notin> {58, 59, 9, 10}" by code_simp
    then show ?thesis using that by blast
  qed
  moreover have "unat x \<in> set [0..<256]" using unat_bound [of x] by simp
  ultimately show "b64_char x \<noteq> 58" "b64_char x \<noteq> 59" "b64_char x \<noteq> 9" "b64_char x \<noteq> 10" by auto
qed

lemma b64_encode_ascii: "c \<in> set (b64_encode bs) \<Longrightarrow> c \<noteq> 58 \<and> c \<noteq> 59 \<and> c \<noteq> 9 \<and> c \<noteq> 10"
  by (induction bs rule: b64_encode.induct) (auto simp: b64_char_ascii)

lemma trim_id: "(\<And>c. c \<in> set s \<Longrightarrow> \<not> isspace c) \<Longrightarrow> trim s = s"
proof -
  assume a: "\<And>c. c \<in> set s \<Longrightarrow> \<not> isspace c"
  have d: "dropWhile isspace xs = xs" if "set xs \<subseteq> set s" for xs
    using that a by (cases xs) auto
  show ?thesis by (simp add: trim_def d)
qed

lemma find_map_None: "find_map ms ns = None \<longleftrightarrow> ns \<notin> pmap_ns ` set ms"
  by (induction ms) auto

lemma find_map_Some: "find_map ms ns = Some i \<Longrightarrow> i < length ms \<and> pmap_ns (ms ! i) = ns"
  by (induction ms arbitrary: i) (auto split: if_splits)

lemma map2_or_False: "map2 (\<or>) (replicate (length bs) False) bs = bs"
  by (induction bs) simp_all

text \<open>One entry of the list, followed by \<open>rest\<close>.\<close>

lemma parse_replicas_map_entry:
  assumes ns: "ns_name ns" and new: "ns \<notin> pmap_ns ` set maps"
    and tail: "tail = [] \<and> rest = [] \<or> tail = 59 # rest"
  shows "parse_replicas_map g True (ns @ 58 # b64_encode (pack owns) @ tail) (length owns) maps =
    parse_replicas_map g True rest (length owns) (maps @ [pmap_of (ns, owns)])"
proof -
  let ?e = "b64_encode (pack owns)"
  have n: "\<forall>c \<in> set ns. c \<noteq> 58" "trim ns = ns" "ns \<noteq> []" "\<not> (length ns = 0 \<or> length ns > 31)"
    using ns trim_id [of ns] by (auto simp: ns_name_def)
  have e: "\<forall>c \<in> set ?e. c \<noteq> 59" using b64_encode_ascii by blast
  have t: "takeWhile (\<lambda>c. c \<noteq> 58) (ns @ 58 # ?e @ tail) = ns" "dropWhile (\<lambda>c. c \<noteq> 58) (ns @ 58 # ?e @ tail) = 58 # ?e @ tail"
    using n(1) by (simp_all add: takeWhile_append2 dropWhile_append2)
  have u: "takeWhile (\<lambda>c. c \<noteq> 59) (?e @ tail) = ?e" "drop 1 (dropWhile (\<lambda>c. c \<noteq> 59) (?e @ tail)) = rest"
    using e tail by (auto simp: takeWhile_append2 dropWhile_append2)
  have m: "ns_partition_map_get True maps ns (length owns) =
      Some (Some (length maps, maps @ [\<lparr>pmap_ns = ns, pmap_owns = replicate (length owns) False\<rparr>]))"
    using new n(4) by (simp add: ns_partition_map_get_def find_map_None [THEN iffD2])
  have s: "ns_partition_map_set g \<lparr>pmap_ns = ns, pmap_owns = replicate (length owns) False\<rparr> ?e (length ?e) (length owns) =
      Some (pmap_of (ns, owns))"
    by (subst ns_partition_map_set_ok) (simp_all add: pmap_of_def map2_or_False)
  show ?thesis
    by (subst parse_replicas_map.simps) (use n t u m s in \<open>simp add: Let_def expected_encoded_len_ok\<close>)
qed

lemma parse_replicas_map_render:
  assumes "\<And>ns owns. (ns, owns) \<in> set xs \<Longrightarrow> ns_name ns \<and> length owns = n"
    and "distinct (map pmap_ns maps @ map fst xs)"
  shows "parse_replicas_map g True (render_map xs) n maps = Some (maps @ map pmap_of xs)"
  using assms
proof (induction xs arbitrary: maps rule: render_map.induct)
  case 1
  then show ?case by (simp add: parse_replicas_map.simps)
next
  case (2 ns owns)
  then have "ns_name ns" "length owns = n" "ns \<notin> pmap_ns ` set maps" by auto
  then show ?case using parse_replicas_map_entry [of ns maps "[]" "[]" g owns]
    by (simp add: parse_replicas_map.simps [of g True "[]"])
next
  case (3 ns owns x xs)
  have o: "ns_name ns" "length owns = n" "ns \<notin> pmap_ns ` set maps" using 3(2) [of ns owns] 3(3) by auto
  have "distinct (map pmap_ns (maps @ [pmap_of (ns, owns)]) @ map fst (x # xs))"
    using 3(3) by (auto simp: pmap_of_def)
  moreover have "ns_name a \<and> length b = n" if "(a, b) \<in> set (x # xs)" for a b using 3(2) [of a b] that by simp
  ultimately have "parse_replicas_map g True (render_map (x # xs)) n (maps @ [pmap_of (ns, owns)]) =
      Some ((maps @ [pmap_of (ns, owns)]) @ map pmap_of (x # xs))" by (intro 3(1)) blast+
  then show ?case using parse_replicas_map_entry [OF o(1,3), of "59 # render_map (x # xs)" "render_map (x # xs)" g owns] o(2)
    by simp
qed

subsection \<open>The answer as a whole\<close>

definition str_lit :: "string \<Rightarrow> block" where
  "str_lit = map of_char"

text \<open>
  One line. The generation is stored in the node at once; the maps collect the owned
  partitions. \<open>atoi\<close> of a number outside the range of an int is not specified by C; with the
  usual C library the value wraps, as here, up to \<open>2 ^ 63\<close>, from where on that library would stay at the largest
  \<open>long\<close>. No server counts that far.
\<close>

definition replicas_line :: "(nat \<Rightarrow> u8) \<Rightarrow> bool \<Rightarrow> nat \<Rightarrow> node_ptr \<Rightarrow>
    mem \<times> ns_partition_map list \<times> ns_partition_map list \<Rightarrow> block \<Rightarrow>
    (mem \<times> ns_partition_map list \<times> ns_partition_map list) option" where
  "replicas_line g alloc_ok n_partitions cn st line =
     (let (m, masters, proles) = st; nv = str_split 9 [] line in
      if length nv \<noteq> 2 then Some st
      else let name = nv ! 0; v = nv ! 1 in
        if name = str_lit ''partition-generation'' then do {
          c \<leftarrow> m_nodes m cn;
          Some (put_node m cn (c\<lparr>cn_partition_generation := word_of_int (atoi v)\<rparr>), masters, proles) }
        else if name = str_lit ''replicas-master'' then do {
          masters \<leftarrow> parse_replicas_map g alloc_ok v n_partitions masters;
          Some (m, masters, proles) }
        else if name = str_lit ''replicas-prole'' then do {
          proles \<leftarrow> parse_replicas_map g alloc_ok v n_partitions proles;
          Some (m, masters, proles) }
        else Some st)"

fun replicas_lines :: "(nat \<Rightarrow> u8) \<Rightarrow> bool \<Rightarrow> nat \<Rightarrow> node_ptr \<Rightarrow>
    mem \<times> ns_partition_map list \<times> ns_partition_map list \<Rightarrow> block list \<Rightarrow>
    (mem \<times> ns_partition_map list \<times> ns_partition_map list) option" where
  "replicas_lines g alloc_ok n_partitions cn st [] = Some st"
| "replicas_lines g alloc_ok n_partitions cn st (line # ls) = do {
     st \<leftarrow> replicas_line g alloc_ok n_partitions cn st line;
     replicas_lines g alloc_ok n_partitions cn st ls }"

text \<open>
  The updates. A prole map that cannot be allocated is a null pointer, which the update reads.
\<close>

fun replicas_update :: "bool \<Rightarrow> nat \<Rightarrow> node_ptr \<Rightarrow> mem \<Rightarrow> cl_partition_table list \<Rightarrow>
    ns_partition_map list \<Rightarrow> ns_partition_map list \<Rightarrow> (mem \<times> cl_partition_table list) option" where
  "replicas_update alloc_ok n_partitions cn m tables [] proles = Some (m, tables)"
| "replicas_update alloc_ok n_partitions cn m tables (p_master_map # masters) proles =
     do {
       p_prole_map \<leftarrow> ns_partition_map_get alloc_ok proles (pmap_ns p_master_map) n_partitions;
       (i, proles) \<leftarrow> p_prole_map;
       (m, tables) \<leftarrow> cl_partition_table_update alloc_ok n_partitions m tables cn (pmap_ns p_master_map)
         (pmap_owns p_master_map) (pmap_owns (proles ! i));
       replicas_update alloc_ok n_partitions cn m tables masters proles }"

definition cl_cluster_node_parse_replicas :: "(nat \<Rightarrow> u8) \<Rightarrow> bool \<Rightarrow> nat \<Rightarrow> mem \<Rightarrow> cl_partition_table list \<Rightarrow>
    node_ptr \<Rightarrow> block \<Rightarrow> (mem \<times> cl_partition_table list) option" where
  "cl_cluster_node_parse_replicas g alloc_ok n_partitions m tables cn rbuf = do {
     (m, masters, proles) \<leftarrow> replicas_lines g alloc_ok n_partitions cn (m, [], []) (str_split 10 [] rbuf);
     replicas_update alloc_ok n_partitions cn m tables masters proles }"

subsection \<open>What the answer means\<close>

function dec :: "nat \<Rightarrow> block" where
  "dec k = (if k < 10 then [of_nat (48 + k)] else dec (k div 10) @ [of_nat (48 + k mod 10)])"
  by pat_completeness auto
termination by (relation "measure id") auto

declare dec.simps [simp del]

definition render_replicas :: "nat \<Rightarrow> (block \<times> bool list) list \<Rightarrow> (block \<times> bool list) list \<Rightarrow> block" where
  "render_replicas gen masters proles =
     str_lit ''partition-generation'' @ 9 # dec gen @ 10 #
     str_lit ''replicas-master'' @ 9 # render_map masters @ 10 #
     str_lit ''replicas-prole'' @ 9 # render_map proles @ [10]"

lemma str_split_step: "c \<notin> set xs \<Longrightarrow> str_split c acc (xs @ c # ys) = (acc @ xs) # str_split c [] ys"
  by (induction xs arbitrary: acc) auto

lemma str_split_last: "c \<notin> set xs \<Longrightarrow> str_split c acc xs = (if acc @ xs = [] then [] else [acc @ xs])"
  by (induction xs arbitrary: acc) auto

lemma digit_value: "j < 10 \<Longrightarrow> unat (of_nat (48 + j) :: u8) = 48 + j"
  unfolding unat_of_nat by (intro mod_less) simp

lemma digit_isdigit: "j < 10 \<Longrightarrow> isdigit (of_nat (48 + j))"
  unfolding isdigit_def word_le_nat_alt digit_value by simp

lemma dec_digits: "c \<in> set (dec k) \<Longrightarrow> isdigit c"
proof (induction k rule: dec.induct)
  case (1 k)
  show ?case using 1 digit_isdigit [of k] digit_isdigit [of "k mod 10"]
    by (subst (asm) dec.simps) (auto split: if_splits)
qed

lemma digit_int: "j < 10 \<Longrightarrow> int (unat (of_nat (48 + j) :: u8)) - 48 = int j"
  unfolding digit_value by simp

lemma dec_value: "foldl (\<lambda>a c. a * 10 + (int (unat c) - 48)) 0 (dec k) = int k"
proof (induction k rule: dec.induct)
  case (1 k)
  show ?case
  proof (cases "k < 10")
    case True
    then show ?thesis using digit_int [of k] by (subst dec.simps) simp
  next
    case False
    then have "foldl (\<lambda>a c. a * 10 + (int (unat c) - 48)) 0 (dec k) = int (k div 10) * 10 + int (k mod 10)"
      using 1 digit_int [of "k mod 10"] by (subst dec.simps) simp
    then show ?thesis by presburger
  qed
qed

lemma atoi_dec: "atoi (dec k) = int k"
proof -
  have ne: "dec k \<noteq> []" by (subst dec.simps) simp
  then have "isdigit (hd (dec k))" by (rule dec_digits [OF hd_in_set])
  then have h: "\<not> isspace (hd (dec k))" "hd (dec k) \<noteq> 45" "hd (dec k) \<noteq> 43"
    by (auto simp: isdigit_def isspace_def word_le_nat_alt)
  then have "dropWhile isspace (dec k) = dec k" using ne by (cases "dec k") auto
  moreover have "takeWhile isdigit (dec k) = dec k" using dec_digits by (simp add: takeWhile_eq_all_conv)
  ultimately show ?thesis unfolding atoi_def Let_def using h ne dec_value [of k] by (simp only: simp_thms if_False)
qed

lemma str_lit_partition_generation: "str_lit ''partition-generation'' = [112, 97, 114, 116, 105, 116, 105, 111, 110, 45, 103, 101, 110, 101, 114, 97, 116, 105, 111, 110]"
  by (simp add: str_lit_def)

lemma str_lit_replicas_master: "str_lit ''replicas-master'' = [114, 101, 112, 108, 105, 99, 97, 115, 45, 109, 97, 115, 116, 101, 114]"
  by (simp add: str_lit_def)

lemma str_lit_replicas_prole: "str_lit ''replicas-prole'' = [114, 101, 112, 108, 105, 99, 97, 115, 45, 112, 114, 111, 108, 101]"
  by (simp add: str_lit_def)

lemma str_lit_tokens:
  "9 \<notin> set (str_lit ''partition-generation'')" "9 \<notin> set (str_lit ''replicas-master'')" "9 \<notin> set (str_lit ''replicas-prole'')"
  "10 \<notin> set (str_lit ''partition-generation'')" "10 \<notin> set (str_lit ''replicas-master'')" "10 \<notin> set (str_lit ''replicas-prole'')"
  "str_lit ''replicas-master'' \<noteq> str_lit ''partition-generation''" "str_lit ''replicas-prole'' \<noteq> str_lit ''partition-generation''"
  "str_lit ''replicas-prole'' \<noteq> str_lit ''replicas-master''" "str_lit ''partition-generation'' \<noteq> []" "str_lit ''replicas-master'' \<noteq> []"
  "str_lit ''replicas-prole'' \<noteq> []"
  by (simp_all add: str_lit_partition_generation str_lit_replicas_master str_lit_replicas_prole)

lemma ns_name_chars: "ns_name ns \<Longrightarrow> 9 \<notin> set ns" "ns_name ns \<Longrightarrow> 10 \<notin> set ns"
proof -
  have "isspace 9" "isspace 10" by (simp_all add: isspace_def)
  then show "ns_name ns \<Longrightarrow> 9 \<notin> set ns" "ns_name ns \<Longrightarrow> 10 \<notin> set ns" unfolding ns_name_def by blast+
qed

lemma b64_encode_chars: "9 \<notin> set (b64_encode bs)" "10 \<notin> set (b64_encode bs)"
  using b64_encode_ascii [of 9 bs] b64_encode_ascii [of 10 bs] by blast+

lemma render_map_chars:
  assumes "\<And>ns owns. (ns, owns) \<in> set xs \<Longrightarrow> ns_name ns"
  shows "9 \<notin> set (render_map xs) \<and> 10 \<notin> set (render_map xs)"
  using assms
proof (induction xs rule: render_map.induct)
  case (2 ns owns)
  then show ?case using ns_name_chars [of ns] b64_encode_chars [of "pack owns"] by simp
next
  case (3 ns owns x xs)
  have "ns_name ns" by (rule 3(2) [of ns owns]) simp
  then have "9 \<notin> set ns" "10 \<notin> set ns" by (rule ns_name_chars)+
  moreover have "9 \<notin> set (render_map (x # xs)) \<and> 10 \<notin> set (render_map (x # xs))" by (rule 3(1)) (use 3(2) in auto)
  ultimately show ?case using b64_encode_chars [of "pack owns"] by simp
qed simp

lemma replicas_line_pair:
  assumes "9 \<notin> set name" and "9 \<notin> set v"
  shows "str_split 9 [] (name @ 9 # v) = (if v = [] then [name] else [name, v])"
  using str_split_step [OF assms(1), of "[]" v] str_split_last [OF assms(2), of "[]"] by simp

text \<open>The update leaves the generation that the node has: it is removed before owners are refreshed.\<close>

definition keeps_gen :: "node_ptr \<Rightarrow> mem \<Rightarrow> mem \<Rightarrow> bool" where
  "keeps_gen p m m' \<longleftrightarrow> (\<forall>n'. m_nodes m' p = Some n' \<longrightarrow>
     (\<exists>n. m_nodes m p = Some n \<and> cn_partition_generation n = cn_partition_generation n'))"

lemma keeps_gen_refl [simp]: "keeps_gen p m m"
  by (simp add: keeps_gen_def)

lemma keeps_gen_trans: "keeps_gen p m m1 \<Longrightarrow> keeps_gen p m1 m2 \<Longrightarrow> keeps_gen p m m2"
  unfolding keeps_gen_def by metis

lemma cl_cluster_node_release_frame:
  assumes "cl_cluster_node_release m q = Some m'"
  shows "\<exists>n. m_nodes m q = Some n \<and>
    (m_nodes m' = (m_nodes m)(q \<mapsto> n\<lparr>cn_rc := cn_rc n - 1\<rparr>) \<or> m_nodes m' = (m_nodes m)(q := None))"
proof (cases "m_nodes m q")
  case None
  then show ?thesis using assms by (simp add: cl_cluster_node_release_def cf_client_rc_release_def)
next
  case (Some n)
  show ?thesis
  proof (cases "cn_rc n - 1 = 0")
    case True
    then show ?thesis using assms Some
      unfolding cl_cluster_node_release_def cf_client_rc_release_def put_node_def bind_eq_Some_conv
      by (auto simp: bind_eq_Some_conv Let_def cf_client_rc_free_def close_all_def split: if_splits)
  next
    case False
    then show ?thesis using assms Some
      by (auto simp: cl_cluster_node_release_def cf_client_rc_release_def put_node_def)
  qed
qed

lemma keeps_gen_release: "cl_cluster_node_release m q = Some m' \<Longrightarrow> keeps_gen p m m'"
  using cl_cluster_node_release_frame [of m q m'] by (auto simp: keeps_gen_def split: if_splits)

lemma keeps_gen_reserve: "cl_cluster_node_reserve m q = Some m' \<Longrightarrow> keeps_gen p m m'"
  by (auto simp: cl_cluster_node_reserve_def cf_client_rc_reserve_def put_node_def keeps_gen_def split: if_splits bind_splits)

lemma keeps_gen_replace: "opt_replace m x = Some m' \<Longrightarrow> x \<noteq> Some p \<Longrightarrow> keeps_gen p m m'"
proof (cases x)
  case (Some q)
  assume a: "opt_replace m x = Some m'" "x \<noteq> Some p"
  then obtain m1 where m1: "force_replicas_refresh m q = Some m1" "cl_cluster_node_release m1 q = Some m'"
    using Some by (auto simp: opt_replace_def split: bind_splits)
  have "keeps_gen p m m1" using m1(1) a(2) Some
    by (auto simp: force_replicas_refresh_def put_node_def keeps_gen_def split: bind_splits)
  then show ?thesis using keeps_gen_release [OF m1(2)] keeps_gen_trans by blast
qed (simp add: opt_replace_def)

lemma keeps_gen_update: "update_partition m node a b p = Some (m', p') \<Longrightarrow> keeps_gen node m m'"
  by (cases "p_master p = Some node"; cases "p_prole p = Some node"; cases a; cases b)
    (clarsimp simp: update_partition_def bind_eq_Some_conv;
     blast dest: keeps_gen_release [where p = node] keeps_gen_reserve [where p = node] keeps_gen_replace [where p = node]
       intro: keeps_gen_trans)+

lemma keeps_gen_updates: "update_partitions m node as bs ps = Some (m', ps') \<Longrightarrow> keeps_gen node m m'"
proof (induction m node as bs ps arbitrary: m' ps' rule: update_partitions.induct)
  case (2 m node a as b bs p ps)
  from 2(2) obtain m1 p1 ps1 where "update_partition m node a b p = Some (m1, p1)"
    "update_partitions m1 node as bs ps = Some (m', ps1)" by (auto split: bind_splits)
  then show ?case using keeps_gen_update 2(1) keeps_gen_trans by blast
qed simp_all

lemma table_update_frame:
  assumes "cl_partition_table_update alloc_ok n m ts node ns as bs = Some (m', ts')"
  shows "keeps_gen node m m'" "length ts' \<le> Suc (length ts)"
  using assms keeps_gen_updates
  by (fastforce simp: cl_partition_table_update_def cl_partition_table_create_def
    split: option.splits if_splits bind_splits)+

definition pm_lookup :: "nat \<Rightarrow> ns_partition_map list \<Rightarrow> block \<Rightarrow> bool list" where
  "pm_lookup n maps ns = (case find_map maps ns of None \<Rightarrow> replicate n False | Some i \<Rightarrow> pmap_owns (maps ! i))"

lemma find_map_append: "find_map (maps @ [x]) ns =
    (case find_map maps ns of Some i \<Rightarrow> Some i | None \<Rightarrow> if pmap_ns x = ns then Some (length maps) else None)"
  by (induction maps) (auto split: option.splits)

lemma ns_partition_map_get_ok:
  assumes "length ns < 32"
  shows "\<exists>i maps'. ns_partition_map_get True maps ns n = Some (Some (i, maps')) \<and> pmap_owns (maps' ! i) = pm_lookup n maps ns \<and>
    pm_lookup n maps' = pm_lookup n maps"
proof (cases "find_map maps ns")
  case None
  have "pm_lookup n (maps @ [\<lparr>pmap_ns = ns, pmap_owns = replicate n False\<rparr>]) ns' = pm_lookup n maps ns'" for ns'
    using None find_map_Some [of maps ns'] by (auto simp: pm_lookup_def find_map_append nth_append split: option.splits)
  then show ?thesis using None assms by (auto simp: ns_partition_map_get_def pm_lookup_def)
next
  case (Some i)
  then show ?thesis by (simp add: ns_partition_map_get_def pm_lookup_def)
qed

lemma pm_lookup_of: "pm_lookup n (map pmap_of xs) ns = (case map_of xs ns of None \<Rightarrow> replicate n False | Some owns \<Rightarrow> owns)"
  by (induction xs) (auto simp: pm_lookup_def pmap_of_def split: option.splits)

lemma held_tables_le: "tables_wf n ts \<Longrightarrow> held (table_ptrs ts) q \<le> 2 * n * length ts"
proof (induction ts)
  case (Cons t ts)
  have h: "held (parts_ptrs ps) q \<le> 2 * length ps" for ps
  proof (induction ps)
    case (Cons p ps)
    then show ?case using held_part_ptrs_le [of p q] by simp
  qed simp
  show ?case using Cons h [of "pt_partitions t"] by (simp add: tables_wf_def algebra_simps)
qed simp

lemma replicas_update_ok:
  assumes "mem_ok m (\<lambda>q. held (table_ptrs ts) q + r q)" and "tables_wf n ts" and "0 < r node"
    and "r node + 2 * n * (length ts + length masters) + 2 * n + 2 < 2 ^ 32"
    and "\<forall>x \<in> set masters. length (snd x) = n" and "\<And>ns. length (pm_lookup n proles ns) = n"
    and "distinct (map fst masters)" and "\<forall>x \<in> set masters. length (fst x) < 32"
  shows "\<exists>m' ts'. replicas_update True n node m ts (map pmap_of masters) proles = Some (m', ts') \<and>
    mem_ok m' (\<lambda>q. held (table_ptrs ts') q + r q) \<and> tables_wf n ts' \<and> keeps_gen node m m' \<and>
    (\<forall>ns. table_of ts' ns = (case map_of masters ns of None \<Rightarrow> table_of ts ns
       | Some owns \<Rightarrow> Some (update_result n node owns (pm_lookup n proles ns) (table_of ts ns))))"
  using assms
proof (induction masters arbitrary: m ts proles)
  case (Cons x masters)
  obtain ns owns where x: "x = (ns, owns)" by (cases x)
  have nl: "length ns < 32" and nl': "table_of ts ns = None \<Longrightarrow> length ns < NS_SIZE" using Cons.prems(8) x by (simp_all add: NS_SIZE_def)
  obtain i proles' where g: "ns_partition_map_get True proles ns n = Some (Some (i, proles'))"
    "pmap_owns (proles' ! i) = pm_lookup n proles ns" "pm_lookup n proles' = pm_lookup n proles"
    using ns_partition_map_get_ok [OF nl] by blast
  have b: "r node + held (table_ptrs ts) node + 2 * n + 2 < 2 ^ 32"
    using Cons.prems(4) held_tables_le [OF Cons.prems(2), of node] by (simp add: algebra_simps)
  have l: "length owns = n" using Cons.prems(5) by (simp add: x)
  from cl_partition_table_update_ok [OF Cons.prems(1-3) b l Cons.prems(6) nl'] obtain m1 ts1 where u:
    "cl_partition_table_update True n m ts node ns owns (pm_lookup n proles ns) = Some (m1, ts1)"
    "mem_ok m1 (\<lambda>q. held (table_ptrs ts1) q + r q)" "tables_wf n ts1"
    "table_of ts1 = (table_of ts)(ns \<mapsto> update_result n node owns (pm_lookup n proles ns) (table_of ts ns))" by blast
  note f = table_update_frame [OF u(1)]
  have "2 * n * (length ts1 + length masters) \<le> 2 * n * (length ts + length (x # masters))"
    using f(2) by (intro mult_le_mono2) simp
  then have b1: "r node + 2 * n * (length ts1 + length masters) + 2 * n + 2 < 2 ^ 32" using Cons.prems(4) by linarith
  have d: "ns \<notin> fst ` set masters" "distinct (map fst masters)" using Cons.prems(7) x by auto
  then have no: "map_of masters ns = None" by (simp add: map_of_eq_None_iff)
  have "\<And>ns. length (pm_lookup n proles' ns) = n" using Cons.prems(6) g(3) by simp
  moreover have "\<forall>x \<in> set masters. length (snd x) = n" "\<forall>x \<in> set masters. length (fst x) < 32" using Cons.prems(5,8) by simp_all
  ultimately obtain m2 ts2 where i:
    "replicas_update True n node m1 ts1 (map pmap_of masters) proles' = Some (m2, ts2)"
    "mem_ok m2 (\<lambda>q. held (table_ptrs ts2) q + r q)" "tables_wf n ts2" "keeps_gen node m1 m2"
    "\<forall>ns. table_of ts2 ns = (case map_of masters ns of None \<Rightarrow> table_of ts1 ns
       | Some owns \<Rightarrow> Some (update_result n node owns (pm_lookup n proles' ns) (table_of ts1 ns)))"
    using Cons.IH [OF u(2,3) Cons.prems(3) b1 _ _ d(2)] by blast
  have t: "\<forall>ns'. table_of ts2 ns' = (case map_of (x # masters) ns' of None \<Rightarrow> table_of ts ns'
       | Some owns \<Rightarrow> Some (update_result n node owns (pm_lookup n proles ns') (table_of ts ns')))"
    using i(5) no u(4) g(3) x by (auto split: option.splits)
  have "replicas_update True n node m ts (map pmap_of (x # masters)) proles = Some (m2, ts2)"
    using g(1,2) u(1) i(1) x by (simp add: pmap_of_def)
  then show ?case using i(2,3) t keeps_gen_trans [OF f(1) i(4)] by blast
qed simp

lemma str_split_lines:
  assumes "10 \<notin> set a" and "10 \<notin> set b" and "10 \<notin> set c"
  shows "str_split 10 [] (a @ 10 # b @ 10 # c @ [10]) = [a, b, c]"
  using str_split_step [OF assms(1), of "[]" "b @ 10 # c @ [10]"] str_split_step [OF assms(2), of "[]" "c @ [10]"]
    str_split_step [OF assms(3), of "[]" "[]"] by simp

lemma replicas_lines_render:
  assumes xs: "\<And>ns owns. (ns, owns) \<in> set masters \<union> set proles \<Longrightarrow> ns_name ns \<and> length owns = n"
    and d: "distinct (map fst masters)" "distinct (map fst proles)"
    and c: "m_nodes m cn = Some c"
  shows "replicas_lines g True n cn (m, [], []) (str_split 10 [] (render_replicas gen masters proles)) =
    Some (put_node m cn (c\<lparr>cn_partition_generation := word_of_int (int gen)\<rparr>), map pmap_of masters, map pmap_of proles)"
proof -
  let ?g = "str_lit ''partition-generation'' @ 9 # dec gen" and ?m = "str_lit ''replicas-master'' @ 9 # render_map masters"
    and ?p = "str_lit ''replicas-prole'' @ 9 # render_map proles"
  have r: "9 \<notin> set (render_map masters)" "10 \<notin> set (render_map masters)" "9 \<notin> set (render_map proles)" "10 \<notin> set (render_map proles)"
    using render_map_chars [of masters] render_map_chars [of proles] xs by blast+
  have dg: "9 \<notin> set (dec gen)" "10 \<notin> set (dec gen)" "dec gen \<noteq> []"
    using dec_digits [of 9 gen] dec_digits [of 10 gen] by (auto simp: isdigit_def dec.simps [of gen])
  have lines: "str_split 10 [] (render_replicas gen masters proles) = [?g, ?m, ?p]"
    using str_split_lines [of ?g ?m ?p] r dg str_lit_tokens by (simp add: render_replicas_def)
  have pm: "parse_replicas_map g True (render_map masters) n [] = Some (map pmap_of masters)"
    "parse_replicas_map g True (render_map proles) n [] = Some (map pmap_of proles)"
    using parse_replicas_map_render [of masters n "[]" g] parse_replicas_map_render [of proles n "[]" g] xs d by auto
  have e: "render_map ys = [] \<Longrightarrow> ys = []" for ys by (cases ys rule: render_map.cases) auto
  have l1: "replicas_line g True n cn (m, [], []) ?g =
      Some (put_node m cn (c\<lparr>cn_partition_generation := word_of_int (int gen)\<rparr>), [], [])"
    by (simp add: replicas_line_def replicas_line_pair [OF str_lit_tokens(1) dg(1)] dg(3) atoi_dec c)
  have l2: "replicas_line g True n cn (m', [], []) ?m = Some (m', map pmap_of masters, [])" for m'
    using pm(1) e [of masters] by (simp add: replicas_line_def replicas_line_pair [OF str_lit_tokens(2) r(1)] str_lit_tokens)
  have l3: "replicas_line g True n cn (m', ms, []) ?p = Some (m', ms, map pmap_of proles)" for m' ms
    using pm(2) e [of proles] by (simp add: replicas_line_def replicas_line_pair [OF str_lit_tokens(3) r(3)] str_lit_tokens)
  show ?thesis unfolding lines by (simp add: l1 l2 l3)
qed

subsection \<open>Properties\<close>

text \<open>The base-64 decoder undoes the encoder, with zeros for the padding, and stays inside the
  buffer that the caller makes.\<close>

theorem b64_round_trip:
  "b64_decode (b64_encode bs) (length (b64_encode bs)) 0 0 (map g [0..<length (b64_encode bs) div 4 * 3]) =
    Some (bs @ replicate (2 - (length bs + 2) mod 3) 0)"
  using b64_decode_encode [of bs g] by (simp add: b64_padded_def)

text \<open>C15: The answer of a node about its replicas sets its generation and gives it, in the tables of all
  namespaces that it is a master of, the partitions of the bitmaps; other namespaces keep theirs.
  No pointer is used after it was freed and the reference counts stay exact.\<close>

theorem replicas_answer_spec:
  assumes "mem_ok m (\<lambda>q. held (table_ptrs ts) q + r q)" and "tables_wf n ts" and "0 < r node"
    and "r node + 2 * n * (length ts + length masters) + 2 * n + 2 < 2 ^ 32"
    and "\<And>ns owns. (ns, owns) \<in> set masters \<union> set proles \<Longrightarrow> ns_name ns \<and> length owns = n"
    and "distinct (map fst masters)" and "distinct (map fst proles)"
  shows "\<exists>m' ts' c'. cl_cluster_node_parse_replicas g True n m ts node (render_replicas gen masters proles) = Some (m', ts') \<and>
    mem_ok m' (\<lambda>q. held (table_ptrs ts') q + r q) \<and> tables_wf n ts' \<and>
    m_nodes m' node = Some c' \<and> cn_partition_generation c' = word_of_int (int gen) \<and>
    (\<forall>ns. table_of ts' ns = (case map_of masters ns of None \<Rightarrow> table_of ts ns
       | Some owns \<Rightarrow> Some (update_result n node owns
           (case map_of proles ns of None \<Rightarrow> replicate n False | Some owns \<Rightarrow> owns) (table_of ts ns))))"
proof -
  let ?h = "\<lambda>q. held (table_ptrs ts) q + r q"
  have pos: "0 < ?h node" using assms(3) by simp
  from mem_okD [OF assms(1) pos] obtain c where c: "m_nodes m node = Some c" "node_ok c" "unat (cn_rc c) = ?h node" by blast
  let ?m = "put_node m node (c\<lparr>cn_partition_generation := word_of_int (int gen)\<rparr>)"
  have "mem_ok ?m (?h(node := ?h node))"
    by (rule mem_ok_put [OF assms(1)]) (use c pos in \<open>auto simp: put_node_def node_ok_def\<close>)
  moreover have "?h(node := ?h node) = ?h" by (rule fun_upd_triv)
  ultimately have ok: "mem_ok ?m ?h" by (rule back_subst [of "mem_ok _"])
  have wl: "length (pm_lookup n (map pmap_of proles) ns) = n" for ns
    using assms(5) by (auto simp: pm_lookup_of dest: map_of_SomeD split: option.splits)
  have ol: "\<forall>x \<in> set masters. length (snd x) = n" using assms(5) by fastforce
  have nl: "\<forall>x \<in> set masters. length (fst x) < 32" using assms(5) by (fastforce simp: ns_name_def)
  obtain m' ts' where u:
    "replicas_update True n node ?m ts (map pmap_of masters) (map pmap_of proles) = Some (m', ts')"
    "mem_ok m' (\<lambda>q. held (table_ptrs ts') q + r q)" "tables_wf n ts'" "keeps_gen node ?m m'"
    "\<forall>ns. table_of ts' ns = (case map_of masters ns of None \<Rightarrow> table_of ts ns
       | Some owns \<Rightarrow> Some (update_result n node owns (pm_lookup n (map pmap_of proles) ns) (table_of ts ns)))"
    using replicas_update_ok [OF ok assms(2-4) ol wl assms(6) nl] by blast
  have "0 < held (table_ptrs ts') node + r node" using assms(3) by simp
  from mem_okD [OF u(2) this] obtain c' where c': "m_nodes m' node = Some c'" by blast
  then have "cn_partition_generation c' = word_of_int (int gen)" using u(4) by (auto simp: keeps_gen_def put_node_def)
  moreover have "cl_cluster_node_parse_replicas g True n m ts node (render_replicas gen masters proles) = Some (m', ts')"
    using replicas_lines_render [OF assms(5-7) c(1), of g gen] u(1) by (simp add: cl_cluster_node_parse_replicas_def)
  ultimately show ?thesis using u(2,3) u(5) [unfolded pm_lookup_of] c' by blast
qed

theorem replicas_answer_spec_witness:
  "\<exists>m' ts' c'. cl_cluster_node_parse_replicas (\<lambda>_. 7) True 2 sample_mem sample_tables 2
      (render_replicas 12 [([97], [True, False]), ([98], [False, False])] [([97], [False, True])]) = Some (m', ts') \<and>
    mem_ok m' (\<lambda>q. held (table_ptrs ts') q + (if q = 1 \<or> q = 2 then 1 else 0)) \<and> tables_wf 2 ts' \<and>
    m_nodes m' 2 = Some c' \<and> cn_partition_generation c' = word_of_int (int 12) \<and>
    (\<forall>ns. table_of ts' ns = (case map_of [([97], [True, False]), ([98], [False, False])] ns of None \<Rightarrow> table_of sample_tables ns
       | Some owns \<Rightarrow> Some (update_result 2 2 owns
           (case map_of [([97], [False, True])] ns of None \<Rightarrow> replicate 2 False | Some owns \<Rightarrow> owns) (table_of sample_tables ns))))"
  by (rule replicas_answer_spec [OF sample_mem_ok])
    (auto simp: sample_tables_def tables_wf_def ns_name_def isspace_def)

end
