(* ===== verification/Cf_Socket.thy ===== *)
theory Cf_Socket
  imports Prelude
begin

section \<open>Sockets (\<open>src/cf_socket.c\<close>)\<close>

text \<open>
  The kernel is the environment. A call that waits is given a script of the answers of the
  kernel, one entry for each pass of its loop: the time on the clock, what \<open>epoll_wait\<close> reports,
  and what a \<open>read\<close> finds (bytes) or for how many bytes a \<open>write\<close> has room, or an error. As
  documented, neither call moves more bytes than it is asked to. A call
  that uses up its script without an end is still \<open>Waiting\<close>. The descriptor of \<open>epoll\<close> is
  private to the call and left out. \<open>None\<close> is a fault, as in the rest of the model.
\<close>

definition ENOENT :: int where "ENOENT = 2"
definition EINTR :: int where "EINTR = 4"
definition EBADF :: int where "EBADF = 9"
definition EAGAIN :: int where "EAGAIN = 11"
definition EWOULDBLOCK :: int where "EWOULDBLOCK = EAGAIN"
definition EFAULT :: int where "EFAULT = 14"
definition ETIMEDOUT :: int where "ETIMEDOUT = 110"
definition EINPROGRESS :: int where "EINPROGRESS = 115"

lemmas errno_defs = ENOENT_def EINTR_def EBADF_def EAGAIN_def EWOULDBLOCK_def EFAULT_def ETIMEDOUT_def EINPROGRESS_def

datatype epoll_answer =
    Wait_Error int
  | No_Event
  | Other_Descriptor
  | Event bool \<comment> \<open>whether the awaited bit is set\<close>

record 'a tick =
  t_now :: u64
  t_epoll :: epoll_answer
  t_io :: "'a + int"

datatype preparation = Prepared | Fcntl_Error | Epoll_Error int

record 'a io_script =
  s_prep :: preparation
  s_start :: u64
  s_ticks :: "'a tick list"

datatype 'a outcome = Returned 'a | Waiting

definition transient :: "int \<Rightarrow> bool" where
  "transient e \<longleftrightarrow> e = ETIMEDOUT \<or> e = EWOULDBLOCK \<or> e = EINPROGRESS \<or> e = EAGAIN"

text \<open>The earlier one of the end of the transaction, if it has one, and the end of this attempt.\<close>

definition attempt_deadline :: "u64 \<Rightarrow> int \<Rightarrow> u64 \<Rightarrow> u64" where
  "attempt_deadline trans_deadline attempt_ms start =
     (let deadline = word_of_int attempt_ms + start in
      if trans_deadline \<noteq> 0 \<and> trans_deadline < deadline then trans_deadline else deadline)"

text \<open>
  The loop of \<open>cf_socket_read_timeout\<close>. The buffer may be a null pointer: then the kernel
  answers \<open>EFAULT\<close> in place of data.
\<close>

fun read_loop :: "u64 \<Rightarrow> nat \<Rightarrow> block option \<Rightarrow> nat \<Rightarrow> block tick list \<Rightarrow> (int \<times> block option) outcome option" where
  "read_loop deadline buf_len buf pos [] = Some Waiting"
| "read_loop deadline buf_len buf pos (t # ts) =
     (if t_now t > deadline then Some (Returned (ETIMEDOUT, buf))
      else case t_epoll t of
        Wait_Error e \<Rightarrow> if e = EINTR then read_loop deadline buf_len buf pos ts else Some (Returned (e, buf))
      | No_Event \<Rightarrow> read_loop deadline buf_len buf pos ts
      | Other_Descriptor \<Rightarrow> read_loop deadline buf_len buf pos ts
      | Event ready \<Rightarrow>
          if \<not> ready then Some (Returned (EBADF, buf))
          else (case t_io t of
            Inl avail \<Rightarrow>
              let bytes = take (buf_len - pos) avail in
              if bytes = [] then Some (Returned (EBADF, buf))
              else (case buf of
                None \<Rightarrow> Some (Returned (EFAULT, None))
              | Some b \<Rightarrow> do {
                  b \<leftarrow> store b pos bytes;
                  if pos + length bytes \<ge> buf_len then Some (Returned (0, Some b))
                  else read_loop deadline buf_len (Some b) (pos + length bytes) ts })
          | Inr e \<Rightarrow> if transient e then read_loop deadline buf_len buf pos ts else Some (Returned (e, buf))))"

definition cf_socket_read_timeout ::
  "block io_script \<Rightarrow> block option \<Rightarrow> nat \<Rightarrow> u64 \<Rightarrow> int \<Rightarrow> (int \<times> block option) outcome option" where
  "cf_socket_read_timeout s buf buf_len trans_deadline attempt_ms =
     (if buf_len = 0 then Some (Returned (0, buf))
      else case s_prep s of
        Fcntl_Error \<Rightarrow> Some (Returned (ENOENT, buf))
      | Epoll_Error e \<Rightarrow> Some (Returned (e, buf))
      | Prepared \<Rightarrow> read_loop (attempt_deadline trans_deadline attempt_ms (s_start s)) buf_len buf 0 (s_ticks s))"

text \<open>The loop of \<open>cf_socket_write_timeout\<close>; \<open>pos\<close> bytes have gone out.\<close>

fun write_loop :: "u64 \<Rightarrow> nat \<Rightarrow> nat \<Rightarrow> nat tick list \<Rightarrow> (int \<times> nat) outcome" where
  "write_loop deadline buf_len pos [] = Waiting"
| "write_loop deadline buf_len pos (t # ts) =
     (if t_now t > deadline then Returned (ETIMEDOUT, pos)
      else case t_epoll t of
        Wait_Error e \<Rightarrow> if e = EINTR then write_loop deadline buf_len pos ts else Returned (e, pos)
      | No_Event \<Rightarrow> write_loop deadline buf_len pos ts
      | Other_Descriptor \<Rightarrow> write_loop deadline buf_len pos ts
      | Event ready \<Rightarrow>
          if \<not> ready then Returned (EBADF, pos)
          else (case t_io t of
            Inl room \<Rightarrow>
              let n = min room (buf_len - pos) in
              if n = 0 then Returned (EBADF, pos)
              else if pos + n \<ge> buf_len then Returned (0, pos + n)
              else write_loop deadline buf_len (pos + n) ts
          | Inr e \<Rightarrow> if transient e then write_loop deadline buf_len pos ts else Returned (e, pos)))"

definition cf_socket_write_timeout :: "nat io_script \<Rightarrow> nat \<Rightarrow> u64 \<Rightarrow> int \<Rightarrow> (int \<times> nat) outcome" where
  "cf_socket_write_timeout s buf_len trans_deadline attempt_ms =
     (if buf_len = 0 then Returned (0, 0)
      else case s_prep s of
        Fcntl_Error \<Rightarrow> Returned (ENOENT, 0)
      | Epoll_Error e \<Rightarrow> Returned (e, 0)
      | Prepared \<Rightarrow> write_loop (attempt_deadline trans_deadline attempt_ms (s_start s)) buf_len 0 (s_ticks s))"

text \<open>The calls that block; their script is that of the answers of \<open>read\<close> and \<open>write\<close> only.\<close>

fun read_forever_loop :: "nat \<Rightarrow> block \<Rightarrow> nat \<Rightarrow> (block + int) list \<Rightarrow> (int \<times> block) outcome option" where
  "read_forever_loop buf_len buf pos [] = Some Waiting"
| "read_forever_loop buf_len buf pos (Inr e # ios) =
     (if e \<noteq> ETIMEDOUT then Some (Returned (e, buf))
      else if pos < buf_len then read_forever_loop buf_len buf pos ios else Some (Returned (0, buf)))"
| "read_forever_loop buf_len buf pos (Inl avail # ios) =
     (let bytes = take (buf_len - pos) avail in
      if bytes = [] then Some (Returned (EBADF, buf))
      else do {
        buf \<leftarrow> store buf pos bytes;
        if pos + length bytes < buf_len then read_forever_loop buf_len buf (pos + length bytes) ios
        else Some (Returned (0, buf)) })"

definition cf_socket_read_forever :: "bool \<Rightarrow> (block + int) list \<Rightarrow> block \<Rightarrow> nat \<Rightarrow> (int \<times> block) outcome option" where
  "cf_socket_read_forever fcntl_ok ios buf buf_len =
     (if \<not> fcntl_ok then Some (Returned (ENOENT, buf)) else read_forever_loop buf_len buf 0 ios)"

fun write_forever_loop :: "nat \<Rightarrow> nat \<Rightarrow> (nat + int) list \<Rightarrow> (int \<times> nat) outcome" where
  "write_forever_loop buf_len pos [] = Waiting"
| "write_forever_loop buf_len pos (Inr e # ios) =
     (if e \<noteq> ETIMEDOUT then Returned (e, pos)
      else if pos < buf_len then write_forever_loop buf_len pos ios else Returned (0, pos))"
| "write_forever_loop buf_len pos (Inl room # ios) =
     (let n = min room (buf_len - pos) in
      if pos + n < buf_len then write_forever_loop buf_len (pos + n) ios else Returned (0, pos + n))"

definition cf_socket_write_forever :: "bool \<Rightarrow> bool \<Rightarrow> (nat + int) list \<Rightarrow> nat \<Rightarrow> (int \<times> nat) outcome" where
  "cf_socket_write_forever fcntl_ok restore_ok ios buf_len =
     (if \<not> fcntl_ok then Returned (ENOENT, 0)
      else case write_forever_loop buf_len 0 ios of
        Returned (rv, n) \<Rightarrow> if rv = 0 \<and> \<not> restore_ok then Returned (ENOENT, n) else Returned (rv, n)
      | Waiting \<Rightarrow> Waiting)"


text \<open>
  Making a connection. The kernel answers \<open>socket\<close> with a descriptor or - 1; the last part of the
  result is the descriptors that were closed.
\<close>

definition cf_socket_create_nb :: "int \<Rightarrow> bool \<Rightarrow> bool \<Rightarrow> int \<times> int list" where
  "cf_socket_create_nb fd getfl_ok setfl_ok =
     (if fd = - 1 then (- 1, [])
      else if \<not> getfl_ok then (- 1, [fd])
      else if \<not> setfl_ok then (- 1, [fd])
      else (fd, []))"

definition IS_CONNECTING :: "int \<Rightarrow> bool" where
  "IS_CONNECTING errno \<longleftrightarrow> errno = EINPROGRESS"

definition cf_socket_start_connect_nb :: "(int \<Rightarrow> int option) \<Rightarrow> int \<Rightarrow> int" where
  "cf_socket_start_connect_nb connect fd =
     (case connect fd of None \<Rightarrow> 0 | Some errno \<Rightarrow> if \<not> IS_CONNECTING errno then - 1 else 0)"

definition cf_socket_create_and_connect_nb :: "int \<Rightarrow> bool \<Rightarrow> bool \<Rightarrow> (int \<Rightarrow> int option) \<Rightarrow> int \<times> int list" where
  "cf_socket_create_and_connect_nb socket_fd getfl_ok setfl_ok connect =
     (let (fd, closed) = cf_socket_create_nb socket_fd getfl_ok setfl_ok in
      if cf_socket_start_connect_nb connect fd \<noteq> 0 then (- 1, closed @ [fd]) else (fd, closed))"

subsection \<open>What the calls promise\<close>

text \<open>The bytes that a script delivers, the number it takes, and the documented rule that an error is not 0.\<close>

fun delivered :: "block tick list \<Rightarrow> block" where
  "delivered [] = []"
| "delivered (t # ts) = (case (t_epoll t, t_io t) of (Event True, Inl bytes) \<Rightarrow> bytes @ delivered ts | _ \<Rightarrow> delivered ts)"

fun taken :: "nat tick list \<Rightarrow> nat" where
  "taken [] = 0"
| "taken (t # ts) = (case (t_epoll t, t_io t) of (Event True, Inl n) \<Rightarrow> n + taken ts | _ \<Rightarrow> taken ts)"

definition errno_ok :: "'a tick list \<Rightarrow> bool" where
  "errno_ok ts \<longleftrightarrow> (\<forall>t \<in> set ts. t_epoll t \<noteq> Wait_Error 0 \<and> t_io t \<noteq> Inr 0)"

lemma errno_ok_Cons [simp]: "errno_ok (t # ts) \<longleftrightarrow> t_epoll t \<noteq> Wait_Error 0 \<and> t_io t \<noteq> Inr 0 \<and> errno_ok ts"
  by (auto simp: errno_ok_def)

definition read_result :: "u64 \<Rightarrow> nat \<Rightarrow> block \<Rightarrow> nat \<Rightarrow> block tick list \<Rightarrow> (int \<times> block option) outcome \<Rightarrow> bool" where
  "read_result deadline buf_len b pos ts r \<longleftrightarrow> (case r of
     Waiting \<Rightarrow> (\<forall>t \<in> set ts. t_now t \<le> deadline) \<and> pos + length (delivered ts) < buf_len
   | Returned (rv, b') \<Rightarrow> \<exists>k. k \<le> length ts \<and> (let d = take (buf_len - pos) (delivered (take k ts)) in
       b' = Some (take pos b @ d @ drop (pos + length d) b) \<and> (rv = 0 \<longleftrightarrow> buf_len \<le> pos + length d)))"

lemma read_result_stop:
  "rv \<noteq> 0 \<Longrightarrow> pos < buf_len \<Longrightarrow> read_result deadline buf_len b pos ts (Returned (rv, Some b))"
  by (auto simp: read_result_def intro!: exI [of _ 0])

lemma read_result_skip:
  "read_result deadline buf_len b pos ts r \<Longrightarrow> t_now t \<le> deadline \<Longrightarrow>
     (\<And>xs. delivered (t # xs) = delivered xs) \<Longrightarrow> read_result deadline buf_len b pos (t # ts) r"
  by (auto simp: read_result_def Let_def split: outcome.splits intro!: exI [of _ "Suc _"])

lemma read_result_data:
  assumes "read_result deadline buf_len (take pos b @ d @ drop (pos + length d) b) (pos + length d) ts r"
    and "t_now t \<le> deadline" and "t_epoll t = Event True" and "t_io t = Inl d" and "pos + length d \<le> length b"
    and "pos + length d \<le> buf_len"
  shows "read_result deadline buf_len b pos (t # ts) r"
  using assms by (auto simp: read_result_def Let_def ac_simps split: outcome.splits intro!: exI [of _ "Suc _"])

lemma read_loop_ok:
  assumes "errno_ok ts" and "pos < buf_len" and "buf_len \<le> length b"
  shows "\<exists>r. read_loop deadline buf_len (Some b) pos ts = Some r \<and> read_result deadline buf_len b pos ts r"
  using assms
proof (induction ts arbitrary: pos b)
  case Nil
  then show ?case by (simp add: read_result_def)
next
  case (Cons t ts)
  note stop = read_result_stop [OF _ Cons.prems(2)]
  show ?case
  proof (cases "t_now t \<le> deadline")
    case False
    then show ?thesis using stop [of ETIMEDOUT] by (simp add: errno_defs not_le)
  next
    case now: True
    then have n: "\<not> t_now t > deadline" by simp
    have skip: ?thesis if "\<And>xs. delivered (t # xs) = delivered xs"
      and "read_loop deadline buf_len (Some b) pos (t # ts) = read_loop deadline buf_len (Some b) pos ts"
      using Cons.IH [of pos b] Cons.prems that read_result_skip [OF _ now that(1)] by auto
    show ?thesis
    proof (cases "t_epoll t")
      case (Wait_Error e)
      then show ?thesis using n skip stop [of e] Cons.prems(1) by (cases "e = EINTR") auto
    next
      case No_Event
      then show ?thesis using n skip by simp
    next
      case Other_Descriptor
      then show ?thesis using n skip by simp
    next
      case (Event ready)
      show ?thesis
      proof (cases "t_io t")
        case (Inr e)
        then show ?thesis using Event n skip stop [of e] stop [of EBADF] Cons.prems(1)
          by (cases ready; cases "transient e") (auto simp: errno_defs)
      next
        case (Inl d)
        show ?thesis
        proof (cases "ready \<and> d \<noteq> []")
          case False
          then show ?thesis using Event Inl n stop [of EBADF] by (auto simp: errno_defs)
        next
          case True
          then have ev: "t_epoll t = Event True" "d \<noteq> []" using Event by auto
          let ?d = "take (buf_len - pos) d"
          let ?b = "take pos b @ ?d @ drop (pos + length ?d) b"
          have ne: "?d \<noteq> []" using ev(2) Cons.prems(2) by simp
          have l: "pos + length ?d \<le> length b" "length ?b = length b" using Cons.prems(2,3) by auto
          have st: "store b pos ?d = Some ?b" using l(1) by (simp add: store_def)
          show ?thesis
          proof (cases "buf_len \<le> pos + length ?d")
            case True
            have "read_result deadline buf_len b pos (t # ts) (Returned (0, Some ?b))"
              unfolding read_result_def using True ev Inl by (auto simp: Let_def intro!: exI [of _ "Suc 0"])
            then show ?thesis using True ev ne Inl n st by (simp add: Let_def)
          next
            case False
            then have d: "?d = d" by simp
            have "errno_ok ts" "pos + length d < buf_len" "buf_len \<le> length ?b"
              using Cons.prems(1,3) False l(2) d by auto
            from Cons.IH [OF this] obtain r where
              "read_loop deadline buf_len (Some ?b) (pos + length d) ts = Some r"
              "read_result deadline buf_len ?b (pos + length d) ts r" by blast
            then show ?thesis using read_result_data [OF _ now ev(1) Inl, of buf_len pos b ts r] False ev Inl n st d l(1)
              by (simp add: Let_def)
          qed
        qed
      qed
    qed
  qed
qed

definition write_result :: "u64 \<Rightarrow> nat \<Rightarrow> nat \<Rightarrow> nat tick list \<Rightarrow> (int \<times> nat) outcome \<Rightarrow> bool" where
  "write_result deadline buf_len pos ts r \<longleftrightarrow> (case r of
     Waiting \<Rightarrow> (\<forall>t \<in> set ts. t_now t \<le> deadline) \<and> pos + taken ts < buf_len
   | Returned (rv, p) \<Rightarrow> \<exists>k. k \<le> length ts \<and> p = min buf_len (pos + taken (take k ts)) \<and> (rv = 0 \<longleftrightarrow> p = buf_len))"

lemma write_result_stop:
  "rv \<noteq> 0 \<Longrightarrow> pos < buf_len \<Longrightarrow> write_result deadline buf_len pos ts (Returned (rv, pos))"
  by (auto simp: write_result_def intro!: exI [of _ 0])

lemma write_result_skip:
  "write_result deadline buf_len pos ts r \<Longrightarrow> t_now t \<le> deadline \<Longrightarrow>
     (\<And>xs. taken (t # xs) = taken xs) \<Longrightarrow> write_result deadline buf_len pos (t # ts) r"
  by (auto simp: write_result_def split: outcome.splits intro!: exI [of _ "Suc _"])

lemma write_result_data:
  assumes "write_result deadline buf_len (pos + n) ts r"
    and "t_now t \<le> deadline" and "t_epoll t = Event True" and "t_io t = Inl n"
  shows "write_result deadline buf_len pos (t # ts) r"
  using assms by (auto simp: write_result_def ac_simps split: outcome.splits intro!: exI [of _ "Suc _"])

lemma write_loop_ok:
  assumes "errno_ok ts" and "pos < buf_len"
  shows "write_result deadline buf_len pos ts (write_loop deadline buf_len pos ts)"
  using assms
proof (induction ts arbitrary: pos)
  case Nil
  then show ?case by (simp add: write_result_def)
next
  case (Cons t ts)
  note stop = write_result_stop [OF _ Cons.prems(2)]
  show ?case
  proof (cases "t_now t \<le> deadline")
    case False
    then show ?thesis using stop [of ETIMEDOUT] by (simp add: errno_defs not_le)
  next
    case now: True
    then have n: "\<not> t_now t > deadline" by simp
    have skip: ?thesis if "\<And>xs. taken (t # xs) = taken xs"
      and "write_loop deadline buf_len pos (t # ts) = write_loop deadline buf_len pos ts"
      using Cons.IH [of pos] Cons.prems that write_result_skip [OF _ now that(1)] by auto
    show ?thesis
    proof (cases "t_epoll t")
      case (Wait_Error e)
      then show ?thesis using n skip stop [of e] Cons.prems(1) by (cases "e = EINTR") auto
    next
      case No_Event
      then show ?thesis using n skip by simp
    next
      case Other_Descriptor
      then show ?thesis using n skip by simp
    next
      case (Event ready)
      show ?thesis
      proof (cases "t_io t")
        case (Inr e)
        then show ?thesis using Event n skip stop [of e] stop [of EBADF] Cons.prems(1)
          by (cases ready; cases "transient e") (auto simp: errno_defs)
      next
        case (Inl m)
        show ?thesis
        proof (cases "ready \<and> m \<noteq> 0")
          case False
          then show ?thesis using Event Inl n stop [of EBADF] by (auto simp: errno_defs Let_def)
        next
          case True
          then have ev: "t_epoll t = Event True" "m \<noteq> 0" using Event by auto
          show ?thesis
          proof (cases "buf_len \<le> pos + m")
            case True
            have "write_result deadline buf_len pos (t # ts) (Returned (0, buf_len))"
              using True ev Inl by (auto simp: write_result_def intro!: exI [of _ "Suc 0"])
            moreover have "min m (buf_len - pos) = buf_len - pos" using True by simp
            ultimately show ?thesis using ev Inl n Cons.prems(2) by (simp add: Let_def)
          next
            case False
            then have "min m (buf_len - pos) = m" by simp
            then show ?thesis using False Cons.IH [of "pos + m"] Cons.prems(1) write_result_data [OF _ now ev(1) Inl] ev Inl n
              by (simp add: Let_def)
          qed
        qed
      qed
    qed
  qed
qed

subsection \<open>Properties\<close>

text \<open>C37: A read with a time limit never stores outside of the first \<open>n\<close> bytes of its buffer; it answers 0
  exactly when these are the bytes that arrived, in order; and it is still waiting only if no
  answer of the kernel came after the limit, so it ends when the clock passes the limit.\<close>

theorem socket_read_spec:
  assumes "s_prep s = Prepared" and "errno_ok (s_ticks s)" and "0 < n" and "n \<le> length b"
  shows "case cf_socket_read_timeout s (Some b) n trans_deadline attempt_ms of
      None \<Rightarrow> False
    | Some Waiting \<Rightarrow> \<forall>t \<in> set (s_ticks s). t_now t \<le> attempt_deadline trans_deadline attempt_ms (s_start s)
    | Some (Returned (rv, b')) \<Rightarrow> \<exists>d k. b' = Some (d @ drop (length d) b) \<and> d = take n (delivered (take k (s_ticks s))) \<and>
        (rv = 0 \<longleftrightarrow> length d = n)"
proof -
  from read_loop_ok [OF assms(2-4), of "attempt_deadline trans_deadline attempt_ms (s_start s)"] obtain r where r:
    "read_loop (attempt_deadline trans_deadline attempt_ms (s_start s)) n (Some b) 0 (s_ticks s) = Some r"
    "read_result (attempt_deadline trans_deadline attempt_ms (s_start s)) n b 0 (s_ticks s) r" by blast
  have c: "cf_socket_read_timeout s (Some b) n trans_deadline attempt_ms = Some r"
    using r(1) assms(1,3) by (simp add: cf_socket_read_timeout_def)
  show ?thesis
  proof (cases r)
    case Waiting
    then show ?thesis using r(2) c by (simp add: read_result_def)
  next
    case (Returned x)
    obtain rv b' where x: "x = (rv, b')" by (cases x)
    from r(2) obtain k where k: "b' = Some (take n (delivered (take k (s_ticks s))) @
        drop (length (take n (delivered (take k (s_ticks s))))) b)"
      "rv = 0 \<longleftrightarrow> n \<le> length (take n (delivered (take k (s_ticks s))))"
      unfolding Returned x read_result_def by (auto simp: Let_def)
    have "rv = 0 \<longleftrightarrow> length (take n (delivered (take k (s_ticks s)))) = n" unfolding k(2) by auto
    then show ?thesis unfolding c Returned x option.case outcome.case prod.case using k(1) by blast
  qed
qed

definition sample_read :: "block io_script" where
  "sample_read = \<lparr>s_prep = Prepared, s_start = 10, s_ticks =
     [\<lparr>t_now = 10, t_epoll = No_Event, t_io = Inr EAGAIN\<rparr>,
      \<lparr>t_now = 11, t_epoll = Event True, t_io = Inl [1, 2]\<rparr>,
      \<lparr>t_now = 12, t_epoll = Wait_Error EINTR, t_io = Inr EAGAIN\<rparr>,
      \<lparr>t_now = 13, t_epoll = Event True, t_io = Inl [3]\<rparr>]\<rparr>"

definition sample_write :: "nat io_script" where
  "sample_write = \<lparr>s_prep = Prepared, s_start = 5, s_ticks =
     [\<lparr>t_now = 6, t_epoll = Event True, t_io = Inl 2\<rparr>, \<lparr>t_now = 7, t_epoll = Event True, t_io = Inl 1\<rparr>]\<rparr>"

theorem socket_read_spec_witness:
  "case cf_socket_read_timeout sample_read (Some [0, 0, 0, 9]) 3 0 50 of
      None \<Rightarrow> False
    | Some Waiting \<Rightarrow> \<forall>t \<in> set (s_ticks sample_read). t_now t \<le> attempt_deadline 0 50 (s_start sample_read)
    | Some (Returned (rv, b')) \<Rightarrow> \<exists>d k. b' = Some (d @ drop (length d) [0, 0, 0, 9]) \<and>
        d = take 3 (delivered (take k (s_ticks sample_read))) \<and> (rv = 0 \<longleftrightarrow> length d = 3)"
  by (rule socket_read_spec) (simp_all add: sample_read_def errno_ok_def errno_defs)

text \<open>A write with a time limit answers 0 exactly when the kernel took all bytes, and it ends when the clock
  passes the limit.\<close>

theorem socket_write_spec:
  assumes "s_prep s = Prepared" and "errno_ok (s_ticks s)" and "0 < n"
  shows "case cf_socket_write_timeout s n trans_deadline attempt_ms of
      Waiting \<Rightarrow> \<forall>t \<in> set (s_ticks s). t_now t \<le> attempt_deadline trans_deadline attempt_ms (s_start s)
    | Returned (rv, p) \<Rightarrow> (\<exists>k. p = min n (taken (take k (s_ticks s)))) \<and> (rv = 0 \<longleftrightarrow> p = n)"
  using write_loop_ok [OF assms(2,3), of "attempt_deadline trans_deadline attempt_ms (s_start s)"] assms(1,3)
  by (auto simp: cf_socket_write_timeout_def write_result_def split: outcome.splits)

theorem socket_write_spec_witness:
  "case cf_socket_write_timeout sample_write 3 6 50 of
      Waiting \<Rightarrow> \<forall>t \<in> set (s_ticks sample_write). t_now t \<le> attempt_deadline 6 50 (s_start sample_write)
    | Returned (rv, p) \<Rightarrow> (\<exists>k. p = min 3 (taken (take k (s_ticks sample_write)))) \<and> (rv = 0 \<longleftrightarrow> p = 3)"
  by (rule socket_write_spec) (simp_all add: sample_write_def errno_ok_def errno_defs)

end
