(* ===== verification/Cl_Cluster.thy ===== *)
theory Cl_Cluster
  imports Cl_Replicas Cf_Socket
begin

section \<open>The cluster and its nodes (\<open>src/cl_cluster.c\<close>)\<close>

text \<open>
  The state of a cluster. Its vectors are the lists of their elements (\<open>Cf_Vector\<close> proves that
  they behave so), the linked list of partition tables is a list, and the nodes are pointers into
  the memory of \<open>Cl_Partition\<close>. An operation that runs under the lock of the cluster is one step.
\<close>

record cl_addrmap =
  am_orig :: block
  am_alt :: block

record cl_cluster =
  cs_state :: u32
  cs_follow :: bool
  cs_nbconnect :: bool
  cs_found_all :: bool
  cs_host_str_v :: "block list"
  cs_host_port_v :: "int list"
  cs_host_addr_map_v :: "cl_addrmap list"
  cs_last_node :: u32
  cs_node_v :: "node_ptr list"
  cs_n_partitions :: u16
  cs_partition_table_head :: "cl_partition_table list"
  cs_compression_threshold :: int
  cs_actual_sz :: u64
  cs_compressed_sz :: u64
  cs_ref_count :: u32
  cs_tend_speed :: u32
  cs_info_timeout :: int

definition INFO_TIMEOUT_MS :: int where "INFO_TIMEOUT_MS = 500"
definition NODE_NAME_SIZE :: nat where "NODE_NAME_SIZE = 20"
definition DISABLE_COMPRESSION :: int where "DISABLE_COMPRESSION = 0"

definition citrusleaf_cluster_create :: "bool \<Rightarrow> bool \<Rightarrow> cl_cluster option" where
  "citrusleaf_cluster_create g_clust_initialized alloc_ok =
     (if \<not> g_clust_initialized then None
      else if \<not> alloc_ok then None
      else Some \<lparr>cs_state = 0, cs_follow = True, cs_nbconnect = False, cs_found_all = False,
        cs_host_str_v = [], cs_host_port_v = [], cs_host_addr_map_v = [], cs_last_node = 0, cs_node_v = [],
        cs_n_partitions = 0, cs_partition_table_head = [], cs_compression_threshold = DISABLE_COMPRESSION,
        cs_actual_sz = 0, cs_compressed_sz = 0, cs_ref_count = 1, cs_tend_speed = 0,
        cs_info_timeout = INFO_TIMEOUT_MS\<rparr>)"

subsection \<open>Finding nodes\<close>

definition has_addr :: "mem \<Rightarrow> sockaddr \<Rightarrow> node_ptr \<Rightarrow> bool option" where
  "has_addr m sa_in p = do { cn \<leftarrow> m_nodes m p; Some (sa_in \<in> set (cn_sockaddr_in_v cn)) }"

fun cl_cluster_node_get_byaddr :: "mem \<Rightarrow> node_ptr list \<Rightarrow> sockaddr \<Rightarrow> node_ptr option option" where
  "cl_cluster_node_get_byaddr m [] sa_in = Some None"
| "cl_cluster_node_get_byaddr m (p # ps) sa_in = do {
     b \<leftarrow> has_addr m sa_in p;
     if b then Some (Some p) else cl_cluster_node_get_byaddr m ps sa_in }"

fun cl_cluster_node_get_byname :: "mem \<Rightarrow> node_ptr list \<Rightarrow> block \<Rightarrow> node_ptr option option" where
  "cl_cluster_node_get_byname m [] name = Some None"
| "cl_cluster_node_get_byname m (p # ps) name = do {
     cn \<leftarrow> m_nodes m p;
     if cn_name cn = name then Some (Some p) else cl_cluster_node_get_byname m ps name }"

text \<open>
  A new node. \<open>p\<close> is the pointer that the allocator gives, which points to no live node, and
  \<open>g\<close> the initial bytes of the blocks. The allocations of the queues succeed.
\<close>

definition cl_cluster_node_create :: "(nat \<Rightarrow> u8) \<Rightarrow> mem \<Rightarrow> node_ptr \<Rightarrow> block \<Rightarrow> sockaddr \<Rightarrow> mem option" where
  "cl_cluster_node_create g m p name sa_in =
     (if length name < NODE_NAME_SIZE then do {
        conn_q \<leftarrow> cf_queue_create (Some g) (Some g) True True 4 True;
        conn_q_asyncfd \<leftarrow> cf_queue_create (Some g) (Some g) True True 4 True;
        asyncwork_q \<leftarrow> cf_queue_create (Some g) (Some g) True True 8 True;
        Some (put_node m p \<lparr>cn_name = name, cn_intervals_absent = 0, cn_intervals_unreachable = 0,
          cn_sockaddr_in_v = [sa_in], cn_partition_generation = 0xFFFFFFFF, cn_conn_q = conn_q,
          cn_conn_q_asyncfd = conn_q_asyncfd, cn_asyncwork_q = asyncwork_q, cn_info_fd = - 1, cn_rc = 1\<rparr>) }
      else None)"

text \<open>Round robin. The node list holds no null pointers, so the loop of the code runs once.\<close>

definition cl_cluster_node_get_random :: "mem \<Rightarrow> cl_cluster \<Rightarrow> (node_ptr option \<times> mem \<times> cl_cluster) option" where
  "cl_cluster_node_get_random m asc =
     (let node_v_sz = length (cs_node_v asc) in
      if node_v_sz = 0 then Some (None, m, asc)
      else
        let n = cs_last_node asc + 1;
            asc' = asc\<lparr>cs_last_node := (if unat n \<ge> node_v_sz then 0 else n)\<rparr>;
            cn = cs_node_v asc ! unat (cs_last_node asc')
        in do { m \<leftarrow> cl_cluster_node_reserve m cn; Some (Some cn, m, asc') })"

definition cl_cluster_node_get ::
  "mem \<Rightarrow> cl_cluster \<Rightarrow> block \<Rightarrow> block \<Rightarrow> bool \<Rightarrow> (node_ptr option \<times> mem \<times> cl_cluster) option" where
  "cl_cluster_node_get m asc ns d wr = do {
     pid \<leftarrow> cl_partition_getid (ucast (cs_n_partitions asc)) d;
     (cn, m) \<leftarrow> cl_partition_table_get m (cs_partition_table_head asc) ns pid wr;
     case cn of Some p \<Rightarrow> Some (Some p, m, asc) | None \<Rightarrow> cl_cluster_node_get_random m asc }"

subsection \<open>The pools of descriptors\<close>

text \<open>What the kernel answers while a connection is made; \<open>ce_connect\<close> gives the error of \<open>connect\<close>.\<close>

record conn_env =
  ce_socket :: int
  ce_nonblock_first :: bool
  ce_nonblock_then :: bool
  ce_connect :: "sockaddr \<Rightarrow> int option"

text \<open>The loop over the addresses; the result is the descriptor and those that were closed.\<close>

fun connect_addrs :: "conn_env \<Rightarrow> bool \<Rightarrow> sockaddr list \<Rightarrow> int \<Rightarrow> int \<times> int list" where
  "connect_addrs env nonblocking [] fd = (- 1, [fd])"
| "connect_addrs env nonblocking (sa # sas) fd =
     (case ce_connect env sa of
        None \<Rightarrow> if ce_nonblock_then env then (fd, []) else (- 1, [fd])
      | Some errno \<Rightarrow>
          if nonblocking \<and> errno = EINPROGRESS then (fd, [])
          else connect_addrs env nonblocking sas fd)"

definition cl_cluster_node_fd_create :: "conn_env \<Rightarrow> cl_cluster_node \<Rightarrow> bool \<Rightarrow> int \<times> int list" where
  "cl_cluster_node_fd_create env cn nonblocking =
     (if ce_socket env = - 1 then (- 1, [])
      else if nonblocking \<and> \<not> ce_nonblock_first env then (- 1, [ce_socket env])
      else connect_addrs env nonblocking (cn_sockaddr_in_v cn) (ce_socket env))"

definition cl_cluster_node_fd_get ::
  "conn_env \<Rightarrow> mem \<Rightarrow> node_ptr \<Rightarrow> bool \<Rightarrow> bool \<Rightarrow> (int \<times> mem) option" where
  "cl_cluster_node_fd_get env m p asyncfd nbconnect = do {
     cn \<leftarrow> m_nodes m p;
     rv \<leftarrow> cf_queue_pop (Some (if asyncfd then cn_conn_q_asyncfd cn else cn_conn_q cn)) CF_QUEUE_NOWAIT [];
     case rv of
       Popped x q \<Rightarrow>
         Some (fd_of x, put_node m p (if asyncfd then cn\<lparr>cn_conn_q_asyncfd := q\<rparr> else cn\<lparr>cn_conn_q := q\<rparr>))
     | PopEmpty q \<Rightarrow>
         let (fd, closed) = cl_cluster_node_fd_create env cn (asyncfd \<or> nbconnect) in Some (fd, close_all m closed)
     | PopNull \<Rightarrow> Some (- 1, m)
     | PopBlocked \<Rightarrow> None }"

definition cl_cluster_node_fd_put :: "malloc_env \<Rightarrow> mem \<Rightarrow> node_ptr \<Rightarrow> int \<Rightarrow> bool \<Rightarrow> mem option" where
  "cl_cluster_node_fd_put e m p fd asyncfd = do {
     cn \<leftarrow> m_nodes m p;
     if asyncfd then do {
       (rv, q) \<leftarrow> cf_queue_push e (cn_conn_q_asyncfd cn) (fd_bytes fd);
       Some (put_node m p (cn\<lparr>cn_conn_q_asyncfd := q\<rparr>)) }
     else do {
       (ok, q) \<leftarrow> cf_queue_push_limit e (cn_conn_q cn) (fd_bytes fd) 300;
       let m = put_node m p (cn\<lparr>cn_conn_q := q\<rparr>);
       Some (if ok then m else close_all m [fd]) } }"

subsection \<open>Settings and statistics\<close>

definition citrusleaf_cluster_settled :: "cl_cluster \<Rightarrow> bool" where
  "citrusleaf_cluster_settled asc = cs_found_all asc"

definition citrusleaf_cluster_get_nodecount :: "cl_cluster \<Rightarrow> nat" where
  "citrusleaf_cluster_get_nodecount asc = length (cs_node_v asc)"

definition citrusleaf_cluster_follow :: "cl_cluster \<Rightarrow> bool \<Rightarrow> cl_cluster" where
  "citrusleaf_cluster_follow asc flag = asc\<lparr>cs_follow := flag\<rparr>"

definition citrusleaf_cluster_use_nbconnect :: "cl_cluster \<Rightarrow> cl_cluster" where
  "citrusleaf_cluster_use_nbconnect asc = asc\<lparr>cs_nbconnect := True\<rparr>"

definition citrusleaf_cluster_change_info_timeout :: "cl_cluster \<Rightarrow> int \<Rightarrow> cl_cluster" where
  "citrusleaf_cluster_change_info_timeout asc msecs =
     (if msecs \<le> 0 then asc else asc\<lparr>cs_info_timeout := msecs\<rparr>)"

definition citrusleaf_cluster_change_tend_speed :: "cl_cluster \<Rightarrow> int \<Rightarrow> cl_cluster" where
  "citrusleaf_cluster_change_tend_speed asc secs = asc\<lparr>cs_tend_speed := word_of_int secs\<rparr>"

definition citrusleaf_cluster_put_compression_stat :: "cl_cluster \<Rightarrow> u64 \<Rightarrow> u64 \<Rightarrow> cl_cluster" where
  "citrusleaf_cluster_put_compression_stat asc actual_sz compressed_sz =
     asc\<lparr>cs_actual_sz := cs_actual_sz asc + actual_sz, cs_compressed_sz := cs_compressed_sz asc + compressed_sz\<rparr>"

definition citrusleaf_cluster_get_compression_stat :: "cl_cluster option \<Rightarrow> u64 \<times> u64" where
  "citrusleaf_cluster_get_compression_stat asc =
     (case asc of None \<Rightarrow> (0, 0) | Some c \<Rightarrow> (cs_actual_sz c, cs_compressed_sz c))"

text \<open>
  The address map: a host and the host to use in its place; the first entry of a host is replaced.
\<close>

fun set_addr_map :: "cl_addrmap list \<Rightarrow> block \<Rightarrow> block \<Rightarrow> cl_addrmap list option" where
  "set_addr_map [] orig alt = None"
| "set_addr_map (a # as) orig alt =
     (if am_orig a = orig then Some (a\<lparr>am_alt := alt\<rparr> # as) else map_option (Cons a) (set_addr_map as orig alt))"

definition citrusleaf_cluster_add_addr_map :: "bool \<Rightarrow> cl_cluster \<Rightarrow> block \<Rightarrow> block \<Rightarrow> cl_cluster" where
  "citrusleaf_cluster_add_addr_map alloc_ok asc orig alt =
     (case set_addr_map (cs_host_addr_map_v asc) orig alt of
        Some v \<Rightarrow> asc\<lparr>cs_host_addr_map_v := v\<rparr>
      | None \<Rightarrow> if \<not> alloc_ok then asc
                else asc\<lparr>cs_host_addr_map_v := cs_host_addr_map_v asc @ [\<lparr>am_orig = orig, am_alt = alt\<rparr>]\<rparr>)"

subsection \<open>What the operations promise\<close>

lemma mem_ok_update:
  assumes "mem_ok m c" and "m_nodes m p = Some n" and "node_ok n'" and "cn_rc n' = cn_rc n"
  shows "mem_ok (put_node m p n') c"
proof -
  have "unat (cn_rc n) = c p" "0 < c p"
    using spec [OF assms(1) [unfolded mem_ok_def], of p] assms(2) by auto
  then have "mem_ok (put_node m p n') (c(p := c p))"
    by (intro mem_ok_put [OF assms(1,3)]) (simp_all add: assms(4) put_node_def)
  then show ?thesis by simp
qed

lemma mem_ok_close_all [simp]: "mem_ok (close_all m fds) c = mem_ok m c"
  by (rule mem_ok_cong) (simp add: close_all_def)

lemma mem_ok_closed [simp]: "mem_ok (m\<lparr>m_closed := fds\<rparr>) c = mem_ok m c"
  by (rule mem_ok_cong) simp

lemma mem_ok_live: "mem_ok m c \<Longrightarrow> m_nodes m p \<noteq> None \<longleftrightarrow> 0 < c p"
  unfolding mem_ok_def by (drule spec [of _ p]) (auto split: option.splits)

lemma fd_of_fd_bytes: "- (2 ^ 31) \<le> fd \<Longrightarrow> fd < 2 ^ 31 \<Longrightarrow> fd_of (fd_bytes fd) = fd"
  by (simp add: fd_of_def fd_bytes_def le_word_word_le sint_uint unsigned_of_int signed_take_bit_take_bit signed_take_bit_int_eq_self)

lemma length_fd_bytes [simp]: "length (fd_bytes fd) = 4"
  by (simp add: fd_bytes_def)

text \<open>The pool of the synchronous client, as descriptors.\<close>

definition pool :: "mem \<Rightarrow> node_ptr \<Rightarrow> int list" where
  "pool m p = (case m_nodes m p of None \<Rightarrow> [] | Some n \<Rightarrow> map fd_of (cf_queue_elems (cn_conn_q n)))"

lemma pool_room: "node_ok n \<Longrightarrow> 0 < cf_queue_spare (cn_conn_q n)"
  by (simp add: node_ok_def spare_pos cf_queue_cap_def)

lemma cl_cluster_node_fd_put_ok:
  assumes "mem_ok m c" and "0 < c p" and "- (2 ^ 31) \<le> fd" and "fd < 2 ^ 31"
  shows "\<exists>m'. cl_cluster_node_fd_put (Some g) m p fd False = Some m' \<and> mem_ok m' c \<and>
    (if length (pool m p) < 300 then pool m' p = pool m p @ [fd] \<and> m_closed m' = m_closed m
     else pool m' p = pool m p \<and> m_closed m' = m_closed m @ [fd]) \<and>
    (\<forall>q. q \<noteq> p \<longrightarrow> m_nodes m' q = m_nodes m q)"
proof -
  obtain n where n: "m_nodes m p = Some n" "node_ok n" using mem_okD [OF assms(1,2)] by blast
  have q: "cf_queue_inv (cn_conn_q n)" "elementsz (cn_conn_q n) = 4" using n(2) by (simp_all add: node_ok_def)
  from cf_queue_push_limit_ok [OF q(1) pool_room [OF n(2)], of "fd_bytes fd" g 300] q(2) obtain q' where q':
    "cf_queue_push_limit (Some g) (cn_conn_q n) (fd_bytes fd) 300 = Some (length (cf_queue_elems (cn_conn_q n)) < 300, q')"
    "cf_queue_inv q'" "elementsz q' = 4" "cf_queue_elems q' =
       (if length (cf_queue_elems (cn_conn_q n)) < 300 then cf_queue_elems (cn_conn_q n) @ [fd_bytes fd] else cf_queue_elems (cn_conn_q n))"
    by auto
  have "mem_ok (put_node m p (n\<lparr>cn_conn_q := q'\<rparr>)) c"
    by (rule mem_ok_update [OF assms(1) n(1)]) (use n(2) q' in \<open>auto simp: node_ok_def\<close>)
  then show ?thesis using n(1) q' fd_of_fd_bytes [OF assms(3,4)]
    by (auto simp: cl_cluster_node_fd_put_def put_node_def pool_def close_all_def Let_def
      intro: mem_ok_cong [THEN iffD2, rotated])
qed

lemma connect_addrs_fd:
  "connect_addrs env nb sas fd = (fd', closed) \<Longrightarrow> fd' = fd \<and> closed = [] \<or> fd' = - 1 \<and> closed = [fd]"
  by (induction sas) (auto split: option.splits if_splits)

text \<open>A descriptor comes from the pool, oldest first, or is the new one, or there is none and nothing stays open.\<close>

lemma cl_cluster_node_fd_get_ok:
  assumes "mem_ok m c" and "0 < c p"
  shows "\<exists>fd m'. cl_cluster_node_fd_get env m p False nb = Some (fd, m') \<and> mem_ok m' c \<and>
    (case pool m p of
       x # xs \<Rightarrow> fd = x \<and> pool m' p = xs \<and> m_closed m' = m_closed m
     | [] \<Rightarrow> pool m' p = [] \<and> (fd = ce_socket env \<and> m_closed m' = m_closed m \<or>
          fd = - 1 \<and> m_closed m' = m_closed m @ [ce_socket env])) \<and>
    (\<forall>q. q \<noteq> p \<longrightarrow> m_nodes m' q = m_nodes m q)"
proof -
  obtain n where n: "m_nodes m p = Some n" "node_ok n" using mem_okD [OF assms] by blast
  have q: "cf_queue_inv (cn_conn_q n)" "elementsz (cn_conn_q n) = 4" using n(2) by (simp_all add: node_ok_def)
  show ?thesis
  proof (cases "cf_queue_elems (cn_conn_q n)")
    case Nil
    obtain fd closed where c: "cl_cluster_node_fd_create env n nb = (fd, closed)" by fastforce
    have "fd = ce_socket env \<and> closed = [] \<or> fd = - 1 \<and> closed = [ce_socket env]"
      using c connect_addrs_fd [of env nb "cn_sockaddr_in_v n" "ce_socket env" fd closed]
      by (auto simp: cl_cluster_node_fd_create_def split: if_splits)
    then show ?thesis using Nil n(1) c assms(1) cf_queue_pop_nowait(1) [OF q(1) Nil, of "[]"]
      by (auto simp: cl_cluster_node_fd_get_def pool_def close_all_def)
  next
    case (Cons x xs)
    from cf_queue_pop_nowait(2) [OF q(1) Cons, of CF_QUEUE_NOWAIT "[]"] obtain q' where q':
      "cf_queue_pop (Some (cn_conn_q n)) CF_QUEUE_NOWAIT [] = Some (Popped x q')" "cf_queue_inv q'"
      "cf_queue_elems q' = xs" "elementsz q' = 4" using q(2) by auto
    have "mem_ok (put_node m p (n\<lparr>cn_conn_q := q'\<rparr>)) c"
      by (rule mem_ok_update [OF assms(1) n(1)]) (use n(2) q' Cons in \<open>auto simp: node_ok_def\<close>)
    then show ?thesis using Cons n(1) q'
      by (simp add: cl_cluster_node_fd_get_def pool_def put_node_def)
  qed
qed

text \<open>Finding a node needs the nodes of the list to be alive.\<close>

definition alive :: "mem \<Rightarrow> node_ptr list \<Rightarrow> bool" where
  "alive m ps \<longleftrightarrow> (\<forall>p \<in> set ps. m_nodes m p \<noteq> None)"

lemma held_pos: "p \<in> set ps \<Longrightarrow> 0 < held ps p"
  by (induction ps) auto

lemma aliveI: "mem_ok m c \<Longrightarrow> (\<And>p. p \<in> set ps \<Longrightarrow> 0 < c p) \<Longrightarrow> alive m ps"
  unfolding alive_def using mem_ok_live by blast

lemma get_byaddr_ok:
  "alive m ps \<Longrightarrow> \<exists>r. cl_cluster_node_get_byaddr m ps sa = Some r \<and>
     (case r of None \<Rightarrow> \<forall>p \<in> set ps. \<forall>n. m_nodes m p = Some n \<longrightarrow> sa \<notin> set (cn_sockaddr_in_v n)
      | Some p \<Rightarrow> p \<in> set ps \<and> (\<exists>n. m_nodes m p = Some n \<and> sa \<in> set (cn_sockaddr_in_v n)))"
  by (induction ps) (fastforce simp: alive_def has_addr_def split: option.splits)+

lemma get_byname_ok:
  "alive m ps \<Longrightarrow> \<exists>r. cl_cluster_node_get_byname m ps name = Some r \<and>
     (case r of None \<Rightarrow> \<forall>p \<in> set ps. \<forall>n. m_nodes m p = Some n \<longrightarrow> cn_name n \<noteq> name
      | Some p \<Rightarrow> p \<in> set ps \<and> (\<exists>n. m_nodes m p = Some n \<and> cn_name n = name))"
  by (induction ps) (fastforce simp: alive_def split: option.splits)+

lemma cl_cluster_node_create_ok:
  assumes "mem_ok m c" and "c p = 0" and "length name < NODE_NAME_SIZE"
  shows "\<exists>m' n. cl_cluster_node_create g m p name sa = Some m' \<and> mem_ok m' (c(p := 1)) \<and>
    m_nodes m' = (m_nodes m)(p \<mapsto> n) \<and> cn_name n = name \<and> cn_sockaddr_in_v n = [sa] \<and> cn_intervals_absent n = 0"
proof -
  obtain q1 where q1: "cf_queue_create (Some g) (Some g) True True 4 True = Some q1" "cf_queue_inv q1"
    "cf_queue_elems q1 = []" "elementsz q1 = 4" using cf_queue_create_ok [of 4 g g True] by auto
  obtain q2 where q2: "cf_queue_create (Some g) (Some g) True True 8 True = Some q2" "cf_queue_inv q2"
    using cf_queue_create_ok [of 8 g g True] by auto
  let ?n = "\<lparr>cn_name = name, cn_intervals_absent = 0, cn_intervals_unreachable = 0,
          cn_sockaddr_in_v = [sa], cn_partition_generation = 0xFFFFFFFF, cn_conn_q = q1,
          cn_conn_q_asyncfd = q1, cn_asyncwork_q = q2, cn_info_fd = - 1, cn_rc = 1\<rparr>"
  have "mem_ok (put_node m p ?n) (c(p := 1))"
    by (rule mem_ok_put [OF assms(1), of ?n]) (simp_all add: node_ok_def q1 q2 put_node_def)
  then show ?thesis using q1 q2 assms(3)
    by (intro exI [of _ "put_node m p ?n"] exI [of _ ?n]) (simp add: cl_cluster_node_create_def put_node_def)
qed

text \<open>The next position of the round robin.\<close>

definition next_pos :: "cl_cluster \<Rightarrow> nat" where
  "next_pos asc = (if unat (cs_last_node asc + 1) \<ge> length (cs_node_v asc) then 0 else unat (cs_last_node asc + 1))"

lemma next_pos_less: "cs_node_v asc \<noteq> [] \<Longrightarrow> next_pos asc < length (cs_node_v asc)"
  by (simp add: next_pos_def)

lemma get_random_ok:
  assumes ok: "mem_ok m (\<lambda>q. held (cs_node_v asc) q + r q)" and b: "\<And>q. held (cs_node_v asc) q + r q + 1 < 2 ^ 32"
  shows "\<exists>x m' asc'. cl_cluster_node_get_random m asc = Some (x, m', asc') \<and>
    mem_ok m' (\<lambda>q. held (opt_list x) q + (held (cs_node_v asc) q + r q)) \<and>
    (if cs_node_v asc = [] then x = None \<and> asc' = asc
     else x = Some (cs_node_v asc ! next_pos asc) \<and> asc' = asc\<lparr>cs_last_node := of_nat (next_pos asc)\<rparr>)"
proof (cases "cs_node_v asc = []")
  case True
  then show ?thesis using ok by (simp add: cl_cluster_node_get_random_def)
next
  case False
  let ?p = "cs_node_v asc ! next_pos asc"
  have "?p \<in> set (cs_node_v asc)" using next_pos_less [OF False] by simp
  then have pos: "0 < (\<lambda>q. held (cs_node_v asc) q + r q) ?p" using held_pos by simp
  have l: "(if unat (cs_last_node asc + 1) \<ge> length (cs_node_v asc) then 0 else cs_last_node asc + 1) = (of_nat (next_pos asc) :: u32)"
    by (simp add: next_pos_def)
  have u: "unat (of_nat (next_pos asc) :: u32) = next_pos asc"
    unfolding l [symmetric] by (simp add: next_pos_def)
  from rc.reserve_one [OF ok pos b] obtain m' where "cl_cluster_node_reserve m ?p = Some m'"
    "mem_ok m' (\<lambda>q. held [?p] q + (held (cs_node_v asc) q + r q))" by blast
  then show ?thesis using False by (simp add: cl_cluster_node_get_random_def Let_def l u)
qed

text \<open>The node of a request: that of the partition, or else the next of the round robin.\<close>

definition cluster_refs :: "cl_cluster \<Rightarrow> node_ptr \<Rightarrow> nat" where
  "cluster_refs asc q = held (cs_node_v asc) q + held (table_ptrs (cs_partition_table_head asc)) q"

definition cluster_wf :: "cl_cluster \<Rightarrow> bool" where
  "cluster_wf asc \<longleftrightarrow> tables_wf (unat (cs_n_partitions asc)) (cs_partition_table_head asc) \<and>
     (cs_n_partitions asc = 0 \<longrightarrow> cs_partition_table_head asc = [])"

lemma node_get_ok:
  assumes ok: "mem_ok m (\<lambda>q. cluster_refs asc q + r q)" and wf: "cluster_wf asc" and d: "2 \<le> length d"
    and b: "\<And>q. cluster_refs asc q + r q + 1 < 2 ^ 32"
  shows "\<exists>x m' asc'. cl_cluster_node_get m asc ns d wr = Some (x, m', asc') \<and>
    mem_ok m' (\<lambda>q. held (opt_list x) q + (cluster_refs asc q + r q)) \<and>
    (x = None \<longrightarrow> cs_node_v asc = []) \<and> (\<exists>l. asc' = asc\<lparr>cs_last_node := l\<rparr>)"
proof -
  let ?n = "unat (cs_n_partitions asc)" and ?ts = "cs_partition_table_head asc"
  let ?r = "\<lambda>q. held (cs_node_v asc) q + r q"
  obtain pid where pid: "cl_partition_getid (ucast (cs_n_partitions asc)) d = Some pid"
    using d by (auto simp: cl_partition_getid_def load_def)
  have ok': "mem_ok m (\<lambda>q. held (table_ptrs ?ts) q + ?r q)" using ok by (simp add: cluster_refs_def ac_simps)
  have b': "\<And>q. held (table_ptrs ?ts) q + ?r q + 1 < 2 ^ 32" using b by (simp add: cluster_refs_def ac_simps)
  have "\<exists>x m1. cl_partition_table_get m ?ts ns pid wr = Some (x, m1) \<and>
    mem_ok m1 (\<lambda>q. held (opt_list x) q + (held (table_ptrs ?ts) q + ?r q))"
  proof (cases "cs_n_partitions asc = 0")
    case True
    then show ?thesis using wf ok' by (simp add: cluster_wf_def cl_partition_table_get_def)
  next
    case False
    have u: "ucast (cs_n_partitions asc) = (of_nat ?n :: u32)" by (simp add: of_nat_unat)
    have "?n \<le> 2 ^ 16" using unat_bound [of "cs_n_partitions asc"] by simp
    then have "pid < ?n" using partition_id_less [of ?n d] pid False d unfolding u by (simp add: unat_gt_0)
    from cl_partition_table_get_ok [OF ok' _ this b'] wf show ?thesis unfolding cluster_wf_def by blast
  qed
  then obtain x m1 where x: "cl_partition_table_get m ?ts ns pid wr = Some (x, m1)"
    "mem_ok m1 (\<lambda>q. held (opt_list x) q + (held (table_ptrs ?ts) q + ?r q))" by blast
  show ?thesis
  proof (cases x)
    case (Some p)
    then show ?thesis using x Some pid by (auto simp: cl_cluster_node_get_def cluster_refs_def ac_simps intro: exI [of _ "cs_last_node asc"])
  next
    case None
    have ok1: "mem_ok m1 (\<lambda>q. held (cs_node_v asc) q + (held (table_ptrs ?ts) q + r q))"
      using x(2) None by (simp add: ac_simps)
    have b1: "\<And>q. held (cs_node_v asc) q + (held (table_ptrs ?ts) q + r q) + 1 < 2 ^ 32"
      using b by (simp add: cluster_refs_def ac_simps)
    from get_random_ok [OF ok1 b1] obtain y m2 asc2 where y: "cl_cluster_node_get_random m1 asc = Some (y, m2, asc2)"
      "mem_ok m2 (\<lambda>q. held (opt_list y) q + (held (cs_node_v asc) q + (held (table_ptrs ?ts) q + r q)))"
      "if cs_node_v asc = [] then y = None \<and> asc2 = asc
       else y = Some (cs_node_v asc ! next_pos asc) \<and> asc2 = asc\<lparr>cs_last_node := of_nat (next_pos asc)\<rparr>" by blast
    have "\<exists>l. asc2 = asc\<lparr>cs_last_node := l\<rparr>"
    proof (cases "cs_node_v asc = []")
      case True
      then show ?thesis using y(3) by (intro exI [of _ "cs_last_node asc"]) simp
    qed (use y(3) in auto)
    moreover have "y = None \<longrightarrow> cs_node_v asc = []" using y(3) by (auto split: if_splits)
    moreover have "cl_cluster_node_get m asc ns d wr = Some (y, m2, asc2)"
      using x(1) None pid y(1) by (simp add: cl_cluster_node_get_def)
    moreover have "mem_ok m2 (\<lambda>q. held (opt_list y) q + (cluster_refs asc q + r q))"
      using y(2) by (simp add: cluster_refs_def ac_simps)
    ultimately show ?thesis by blast
  qed
qed

subsection \<open>Properties\<close>

text \<open>Repeated calls of the round robin.\<close>

fun random_nodes :: "nat \<Rightarrow> mem \<Rightarrow> cl_cluster \<Rightarrow> (node_ptr option list \<times> mem \<times> cl_cluster) option" where
  "random_nodes 0 m asc = Some ([], m, asc)"
| "random_nodes (Suc k) m asc = do {
     (x, m, asc) \<leftarrow> cl_cluster_node_get_random m asc;
     (xs, m, asc) \<leftarrow> random_nodes k m asc;
     Some (x # xs, m, asc) }"

lemma next_pos_next:
  assumes "cs_node_v asc \<noteq> []" and "length (cs_node_v asc) < 2 ^ 32"
  shows "next_pos (asc\<lparr>cs_last_node := of_nat (next_pos asc)\<rparr>) = (next_pos asc + 1) mod length (cs_node_v asc)"
proof -
  let ?k = "next_pos asc" and ?n = "length (cs_node_v asc)"
  have k: "?k < ?n" using next_pos_less [OF assms(1)] .
  have "unat (of_nat ?k :: u32) = ?k" unfolding unat_of_nat using k assms(2) by (intro mod_less) simp
  show ?thesis
  proof (cases "?k + 1 < 2 ^ 32")
    case True
    have u: "unat (of_nat (?k + 1) :: u32) = ?k + 1" unfolding unat_of_nat using True by (intro mod_less) simp
    have p: "next_pos (asc\<lparr>cs_last_node := of_nat ?k\<rparr>) = (if ?n \<le> ?k + 1 then 0 else ?k + 1)"
      using u by (simp add: next_pos_def add.commute)
    show ?thesis
    proof (cases "?n \<le> ?k + 1")
      case True
      then have "?k + 1 = ?n" using k by simp
      then show ?thesis using p by simp
    qed (use p in simp)
  qed (use k assms(2) in simp)
qed

lemma random_nodes_ok:
  assumes "mem_ok m (\<lambda>q. held (cs_node_v asc) q + r q)" and "cs_node_v asc \<noteq> []" and "length (cs_node_v asc) < 2 ^ 32"
    and "\<And>q. held (cs_node_v asc) q + r q + k < 2 ^ 32"
  shows "\<exists>ps m' asc'. random_nodes k m asc = Some (map Some ps, m', asc') \<and>
    ps = map (\<lambda>i. cs_node_v asc ! ((next_pos asc + i) mod length (cs_node_v asc))) [0..<k] \<and>
    mem_ok m' (\<lambda>q. held ps q + (held (cs_node_v asc) q + r q))"
  using assms
proof (induction k arbitrary: m asc r)
  case (Suc k)
  let ?n = "length (cs_node_v asc)"
  have b: "held (cs_node_v asc) q + r q + 1 < 2 ^ 32" for q
    using Suc.prems(4) [of q] by simp
  from get_random_ok [OF Suc.prems(1) b] Suc.prems(2) obtain m1 where m1:
    "cl_cluster_node_get_random m asc = Some (Some (cs_node_v asc ! next_pos asc), m1, asc\<lparr>cs_last_node := of_nat (next_pos asc)\<rparr>)"
    "mem_ok m1 (\<lambda>q. held [cs_node_v asc ! next_pos asc] q + (held (cs_node_v asc) q + r q))" by auto
  let ?asc = "asc\<lparr>cs_last_node := of_nat (next_pos asc) :: u32\<rparr>" and ?p = "cs_node_v asc ! next_pos asc"
  have ok1: "mem_ok m1 (\<lambda>q. held (cs_node_v ?asc) q + (held [?p] q + r q))" using m1(2) by (simp add: ac_simps)
  have b1: "held (cs_node_v ?asc) q + (held [?p] q + r q) + k < 2 ^ 32" for q using Suc.prems(4) [of q] by simp
  have "cs_node_v ?asc \<noteq> []" "length (cs_node_v ?asc) < 2 ^ 32" using Suc.prems(2,3) by simp_all
  from Suc.IH [OF ok1 this b1] obtain ps m2 asc2 where m2: "random_nodes k m1 ?asc = Some (map Some ps, m2, asc2)"
    "ps = map (\<lambda>i. cs_node_v ?asc ! ((next_pos ?asc + i) mod length (cs_node_v ?asc))) [0..<k]"
    "mem_ok m2 (\<lambda>q. held ps q + (held (cs_node_v ?asc) q + (held [?p] q + r q)))" by blast
  have "ps = map (\<lambda>i. cs_node_v asc ! ((next_pos asc + Suc i) mod ?n)) [0..<k]"
    unfolding m2(2) next_pos_next [OF Suc.prems(2,3)] by (simp add: mod_simps)
  moreover have "map (\<lambda>i. cs_node_v asc ! ((next_pos asc + i) mod ?n)) [0..<Suc k] =
      ?p # map (\<lambda>i. cs_node_v asc ! ((next_pos asc + Suc i) mod ?n)) [0..<k]"
    using next_pos_less [OF Suc.prems(2)] by (subst map_upt_Suc) (simp add: comp_def)
  ultimately have "map (\<lambda>i. cs_node_v asc ! ((next_pos asc + i) mod ?n)) [0..<Suc k] = ?p # ps" by simp
  moreover have "random_nodes (Suc k) m asc = Some (map Some (?p # ps), m2, asc2)" using m1(1) m2(1) by simp
  moreover have "mem_ok m2 (\<lambda>q. held (?p # ps) q + (held (cs_node_v asc) q + r q))" using m2(3) by (simp add: ac_simps)
  ultimately show ?case by (intro exI [of _ "?p # ps"] exI [of _ m2] exI [of _ asc2]) simp
qed simp

text \<open>C24: As many calls as there are nodes give every node exactly once, in the order of the list from the
  next position on, each with a reference of its own.\<close>

theorem round_robin_fair:
  assumes "mem_ok m (\<lambda>q. held (cs_node_v asc) q + r q)" and "cs_node_v asc \<noteq> []"
    and "\<And>q. held (cs_node_v asc) q + r q + length (cs_node_v asc) < 2 ^ 32"
  shows "\<exists>ps m' asc' k. random_nodes (length (cs_node_v asc)) m asc = Some (map Some ps, m', asc') \<and>
    ps = rotate k (cs_node_v asc) \<and> mem_ok m' (\<lambda>q. held ps q + (held (cs_node_v asc) q + r q))"
proof -
  let ?n = "length (cs_node_v asc)"
  have "?n < 2 ^ 32" using assms(3) [of 0] by linarith
  from random_nodes_ok [OF assms(1,2) this assms(3)] obtain ps m' asc' where ps:
    "random_nodes ?n m asc = Some (map Some ps, m', asc')"
    "ps = map (\<lambda>i. cs_node_v asc ! ((next_pos asc + i) mod ?n)) [0..<?n]"
    "mem_ok m' (\<lambda>q. held ps q + (held (cs_node_v asc) q + r q))" by blast
  have "ps = rotate (next_pos asc) (cs_node_v asc)"
    unfolding ps(2) by (rule nth_equalityI) (simp_all add: nth_rotate)
  then show ?thesis using ps(1,3) by blast
qed

definition sample_cluster :: cl_cluster where
  "sample_cluster = \<lparr>cs_state = 0, cs_follow = True, cs_nbconnect = False, cs_found_all = True,
     cs_host_str_v = [[104]], cs_host_port_v = [3000], cs_host_addr_map_v = [], cs_last_node = 7, cs_node_v = [1, 2],
     cs_n_partitions = 2, cs_partition_table_head = sample_tables, cs_compression_threshold = 0,
     cs_actual_sz = 0, cs_compressed_sz = 0, cs_ref_count = 1, cs_tend_speed = 0, cs_info_timeout = 500\<rparr>"

text \<open>The nodes 1 and 2 of the sample: 1 is in the list and in the table, 2 in the list only.\<close>

lemma sample_cluster_refs: "cluster_refs sample_cluster q = (if q = 1 then 2 else if q = 2 then 1 else 0)"
  by (simp add: cluster_refs_def sample_cluster_def sample_tables_def parts_ptrs_def part_ptrs_def empty_partition_def)

lemma sample_cluster_ok: "mem_ok sample_mem (\<lambda>q. cluster_refs sample_cluster q + 0)"
  by (simp add: sample_cluster_refs mem_ok_def sample_mem_def sample_node_def node_ok_def fd_queue_inv fd_queue_elems)

lemma sample_cluster_wf: "cluster_wf sample_cluster"
  by (simp add: cluster_wf_def sample_cluster_def sample_tables_def tables_wf_def)

theorem round_robin_fair_witness:
  "\<exists>ps m' asc' k. random_nodes (length (cs_node_v sample_cluster)) sample_mem sample_cluster = Some (map Some ps, m', asc') \<and>
    ps = rotate k (cs_node_v sample_cluster) \<and>
    mem_ok m' (\<lambda>q. held ps q + (held (cs_node_v sample_cluster) q + (if q = 1 then 1 else 0)))"
  by (rule round_robin_fair)
    (simp_all add: sample_cluster_def mem_ok_def sample_mem_def sample_node_def node_ok_def fd_queue_inv fd_queue_elems)

text \<open>A descriptor that is put back goes to the end of the pool of the node, or is closed when the pool
  holds 300; so the pool never holds more. The other nodes are not touched.\<close>

theorem fd_put_spec:
  assumes "mem_ok m c" and "0 < c p" and "- (2 ^ 31) \<le> fd" and "fd < 2 ^ 31"
  shows "\<exists>m'. cl_cluster_node_fd_put (Some g) m p fd False = Some m' \<and> mem_ok m' c \<and>
    pool m' p = (if length (pool m p) < 300 then pool m p @ [fd] else pool m p) \<and>
    m_closed m' = (if length (pool m p) < 300 then m_closed m else m_closed m @ [fd]) \<and>
    length (pool m' p) \<le> 300 \<and> (\<forall>q. q \<noteq> p \<longrightarrow> m_nodes m' q = m_nodes m q)"
proof -
  from cl_cluster_node_fd_put_ok [OF assms, of g] obtain m' where m':
    "cl_cluster_node_fd_put (Some g) m p fd False = Some m'" "mem_ok m' c"
    "if length (pool m p) < 300 then pool m' p = pool m p @ [fd] \<and> m_closed m' = m_closed m
     else pool m' p = pool m p \<and> m_closed m' = m_closed m @ [fd]"
    "\<forall>q. q \<noteq> p \<longrightarrow> m_nodes m' q = m_nodes m q" by blast
  have "length (pool m' p) \<le> 300" using mem_okD [OF m'(2) assms(2)] by (auto simp: pool_def node_ok_def)
  then show ?thesis using m' by (auto split: if_splits)
qed

theorem fd_put_spec_witness:
  "\<exists>m'. cl_cluster_node_fd_put (Some (\<lambda>_. 0)) sample_mem 1 17 False = Some m' \<and>
    mem_ok m' (\<lambda>q. cluster_refs sample_cluster q + 0) \<and>
    pool m' 1 = (if length (pool sample_mem 1) < 300 then pool sample_mem 1 @ [17] else pool sample_mem 1) \<and>
    m_closed m' = (if length (pool sample_mem 1) < 300 then m_closed sample_mem else m_closed sample_mem @ [17]) \<and>
    length (pool m' 1) \<le> 300 \<and> (\<forall>q. q \<noteq> 1 \<longrightarrow> m_nodes m' q = m_nodes sample_mem q)"
  by (rule fd_put_spec [OF sample_cluster_ok]) (simp_all add: sample_cluster_refs)

end
