(* ===== verification/Cl_Object.thy ===== *)
theory Cl_Object
  imports Prelude
begin

section \<open>Objects and bins (\<open>src/citrusleaf.c\<close>, \<open>include/citrusleaf/citrusleaf.h\<close>)\<close>

text \<open>
  A \<open>cl_object\<close> is a typed value. Its type tag and its union are independent in C, so they are
  here: reading the member that was not stored is a fault. Pointers of the union are the bytes
  they point to; \<open>o_free\<close> says that the object owns them.
\<close>

definition CL_NULL :: u32 where "CL_NULL = 0"
definition CL_INT :: u32 where "CL_INT = 1"
definition CL_STR :: u32 where "CL_STR = 3"
definition CL_BLOB :: u32 where "CL_BLOB = 4"
definition CL_DIGEST :: u32 where "CL_DIGEST = 6"
definition CL_JAVA_BLOB :: u32 where "CL_JAVA_BLOB = 7"
definition CL_CSHARP_BLOB :: u32 where "CL_CSHARP_BLOB = 8"
definition CL_PYTHON_BLOB :: u32 where "CL_PYTHON_BLOB = 9"
definition CL_RUBY_BLOB :: u32 where "CL_RUBY_BLOB = 10"
definition CL_PHP_BLOB :: u32 where "CL_PHP_BLOB = 11"

lemmas cl_types = CL_NULL_def CL_INT_def CL_STR_def CL_BLOB_def CL_DIGEST_def CL_JAVA_BLOB_def
  CL_CSHARP_BLOB_def CL_PYTHON_BLOB_def CL_RUBY_BLOB_def CL_PHP_BLOB_def

text \<open>The blob types that the messages carry; a digest can be copied but not sent.\<close>

definition is_blob :: "u32 \<Rightarrow> bool" where
  "is_blob t \<longleftrightarrow> t \<in> {CL_BLOB, CL_JAVA_BLOB, CL_CSHARP_BLOB, CL_PYTHON_BLOB, CL_RUBY_BLOB, CL_PHP_BLOB}"

datatype cl_union = U_none | U_i64 u64 | U_ptr block

record cl_object =
  o_type :: u32
  o_sz :: nat
  o_u :: cl_union
  o_free :: bool

record cl_bin =
  bin_name :: block
  bin_object :: cl_object

fun u_i64 :: "cl_union \<Rightarrow> u64 option" where
  "u_i64 (U_i64 i) = Some i"
| "u_i64 _ = None"

fun u_ptr :: "cl_union \<Rightarrow> block option" where
  "u_ptr (U_ptr b) = Some b"
| "u_ptr _ = None"

text \<open>C strings: the bytes up to the first zero; without one in the block, a fault.\<close>

fun strlen :: "block \<Rightarrow> nat option" where
  "strlen [] = None"
| "strlen (b # bs) = (if b = 0 then Some 0 else map_option Suc (strlen bs))"

definition c_str :: "block \<Rightarrow> block option" where
  "c_str s = do { n \<leftarrow> strlen s; load s 0 n }"

lemma strlen_append [simp]: "0 \<notin> set s \<Longrightarrow> strlen (s @ 0 # r) = Some (length s)"
  by (induction s) auto

lemma c_str_append [simp]: "0 \<notin> set s \<Longrightarrow> c_str (s @ 0 # r) = Some s"
  by (simp add: c_str_def load_def)

lemma strlen_Some: "strlen s = Some n \<Longrightarrow> n < length s \<and> s = take n s @ 0 # drop (Suc n) s \<and> 0 \<notin> set (take n s)"
  by (induction s arbitrary: n) (auto split: if_splits)

subsection \<open>Construction\<close>

definition citrusleaf_object_init :: "cl_object \<Rightarrow> cl_object" where
  "citrusleaf_object_init ob = ob\<lparr>o_type := CL_NULL, o_sz := 0, o_free := False\<rparr>"

definition citrusleaf_object_init_str :: "block \<Rightarrow> cl_object option" where
  "citrusleaf_object_init_str str = do {
     n \<leftarrow> strlen str;
     Some \<lparr>o_type = CL_STR, o_sz = n, o_u = U_ptr str, o_free = False\<rparr> }"

definition citrusleaf_object_init_str2 :: "block \<Rightarrow> nat \<Rightarrow> cl_object" where
  "citrusleaf_object_init_str2 str len =
     \<lparr>o_type = CL_STR, o_sz = len, o_u = U_ptr str, o_free = False\<rparr>"

definition citrusleaf_object_init_int :: "u64 \<Rightarrow> cl_object" where
  "citrusleaf_object_init_int i = \<lparr>o_type = CL_INT, o_sz = 8, o_u = U_i64 i, o_free = False\<rparr>"

definition citrusleaf_object_init_blob :: "block \<Rightarrow> nat \<Rightarrow> cl_object" where
  "citrusleaf_object_init_blob blob len =
     \<lparr>o_type = CL_BLOB, o_sz = len, o_u = U_ptr blob, o_free = False\<rparr>"

definition citrusleaf_object_init_blob2 :: "block \<Rightarrow> nat \<Rightarrow> u32 \<Rightarrow> cl_object" where
  "citrusleaf_object_init_blob2 blob len t =
     \<lparr>o_type = t, o_sz = len, o_u = U_ptr blob, o_free = False\<rparr>"

definition citrusleaf_object_init_blob_type :: "u32 \<Rightarrow> block \<Rightarrow> nat \<Rightarrow> cl_object" where
  "citrusleaf_object_init_blob_type blob_type blob len =
     \<lparr>o_type = blob_type, o_sz = len, o_u = U_ptr blob, o_free = False\<rparr>"

definition citrusleaf_object_init_null :: "cl_object \<Rightarrow> cl_object" where
  "citrusleaf_object_init_null ob = ob\<lparr>o_type := CL_NULL, o_sz := 0, o_free := False\<rparr>"

definition citrusleaf_object_free :: "cl_object \<Rightarrow> cl_object" where
  "citrusleaf_object_free ob = ob\<lparr>o_free := False\<rparr>"

subsection \<open>Copies\<close>

text \<open>
  \<open>citrusleaf_copy_object\<close>: the code and the destination. When the allocation fails, the
  destination holds a null pointer and owns nothing.
\<close>

definition citrusleaf_copy_object ::
  "malloc_env \<Rightarrow> cl_object \<Rightarrow> cl_object \<Rightarrow> (int \<times> cl_object) option" where
  "citrusleaf_copy_object env dest src =
     (let d = dest\<lparr>o_type := o_type src, o_sz := o_sz src, o_free := False\<rparr> in
      if o_type src = CL_NULL then Some (0, d)
      else if o_type src = CL_INT then do { i \<leftarrow> u_i64 (o_u src); Some (0, d\<lparr>o_u := U_i64 i\<rparr>) }
      else if o_type src = CL_STR then
        (case malloc env (o_sz d + 1) of
           None \<Rightarrow> Some (- 1, d\<lparr>o_u := U_none\<rparr>)
         | Some b \<Rightarrow> do {
             s \<leftarrow> u_ptr (o_u src);
             x \<leftarrow> load s 0 (o_sz d);
             b \<leftarrow> store b 0 x;
             b \<leftarrow> store b (o_sz d) [0];
             Some (0, d\<lparr>o_u := U_ptr b, o_free := True\<rparr>) })
      else if is_blob (o_type src) \<or> o_type src = CL_DIGEST then
        (case malloc env (o_sz d) of
           None \<Rightarrow> Some (- 1, d\<lparr>o_u := U_none\<rparr>)
         | Some b \<Rightarrow> do {
             s \<leftarrow> u_ptr (o_u src);
             x \<leftarrow> load s 0 (o_sz d);
             b \<leftarrow> store b 0 x;
             Some (0, d\<lparr>o_u := U_ptr b, o_free := True\<rparr>) })
      else Some (- 1, d))"

definition citrusleaf_copy_bin :: "malloc_env \<Rightarrow> cl_bin \<Rightarrow> cl_bin \<Rightarrow> (int \<times> cl_bin) option" where
  "citrusleaf_copy_bin env dest src = do {
     s \<leftarrow> c_str (bin_name src);
     nm \<leftarrow> store (bin_name dest) 0 (s @ [0]);
     (rv, ob) \<leftarrow> citrusleaf_copy_object env (bin_object dest) (bin_object src);
     Some (rv, dest\<lparr>bin_name := nm, bin_object := ob\<rparr>) }"

text \<open>The bins of a calloc: all bytes zero.\<close>

definition zero_bin :: cl_bin where
  "zero_bin = \<lparr>bin_name = replicate 32 0,
     bin_object = \<lparr>o_type = 0, o_sz = 0, o_u = U_i64 0, o_free = False\<rparr>\<rparr>"

text \<open>
  The loop of \<open>citrusleaf_copy_bins\<close>, one environment for the allocation of each bin; on a
  failure the bins made before are freed, and the array with them.
\<close>

fun copy_bins_loop :: "malloc_env list \<Rightarrow> cl_bin list \<Rightarrow> cl_bin list \<Rightarrow> cl_bin list option option" where
  "copy_bins_loop envs [] acc = Some (Some acc)"
| "copy_bins_loop envs (b # bs) acc = do {
     (rv, b') \<leftarrow> citrusleaf_copy_bin (case envs of [] \<Rightarrow> None | e # _ \<Rightarrow> e) zero_bin b;
     if rv = - 1 then Some None else copy_bins_loop (tl envs) bs (acc @ [b']) }"

definition citrusleaf_copy_bins ::
  "malloc_env \<Rightarrow> malloc_env list \<Rightarrow> cl_bin list \<Rightarrow> (int \<times> cl_bin list option) option" where
  "citrusleaf_copy_bins e envs srcbins =
     (if e = None then Some (- 1, None)
      else do {
        r \<leftarrow> copy_bins_loop envs srcbins [];
        Some (case r of None \<Rightarrow> (- 1, None) | Some bs \<Rightarrow> (0, Some bs)) })"

definition citrusleaf_bins_free :: "cl_bin list \<Rightarrow> nat \<Rightarrow> nat" where
  "citrusleaf_bins_free bins n = length (filter (\<lambda>b. o_free (bin_object b)) (take n bins))"

subsection \<open>The value that an object denotes\<close>

text \<open>Its bytes on the wire; an integer is eight bytes, most significant first.\<close>

definition object_wf :: "cl_object \<Rightarrow> bool" where
  "object_wf ob \<longleftrightarrow>
     (o_type ob = CL_NULL \<or> (o_type ob = CL_INT \<and> o_sz ob = 8 \<and> (\<exists>i. o_u ob = U_i64 i)) \<or>
      ((o_type ob = CL_STR \<or> is_blob (o_type ob)) \<and> (\<exists>b. o_u ob = U_ptr b \<and> o_sz ob \<le> length b)))"

definition object_data :: "cl_object \<Rightarrow> block" where
  "object_data ob = (case o_u ob of U_ptr b \<Rightarrow> take (o_sz ob) b | _ \<Rightarrow> [])"

lemma type_neq [simp]:
  "CL_NULL \<noteq> CL_INT" "CL_INT \<noteq> CL_NULL" "CL_STR \<noteq> CL_NULL" "CL_STR \<noteq> CL_INT" "CL_NULL \<noteq> CL_STR"
  "CL_INT \<noteq> CL_STR" "\<not> is_blob CL_NULL" "\<not> is_blob CL_INT" "\<not> is_blob CL_STR"
  by (simp_all add: cl_types is_blob_def)

lemma is_blob_neq [simp]: "is_blob t \<Longrightarrow> t \<noteq> CL_NULL" "is_blob t \<Longrightarrow> t \<noteq> CL_INT" "is_blob t \<Longrightarrow> t \<noteq> CL_STR"
  by (auto simp: cl_types is_blob_def)

text \<open>What a copy keeps of an object.\<close>

definition same_object :: "cl_object \<Rightarrow> cl_object \<Rightarrow> bool" where
  "same_object a b \<longleftrightarrow> o_type a = o_type b \<and> o_sz a = o_sz b \<and>
     (o_type b = CL_INT \<longrightarrow> o_u a = o_u b) \<and>
     (o_type b \<noteq> CL_NULL \<longrightarrow> o_type b \<noteq> CL_INT \<longrightarrow> object_data a = object_data b)"

lemma citrusleaf_copy_object_ok:
  assumes "object_wf src"
  shows "\<exists>d. citrusleaf_copy_object (Some g) dest src = Some (0, d) \<and> same_object d src \<and> object_wf d \<and>
    (o_free d \<longleftrightarrow> o_type src \<noteq> CL_NULL \<and> o_type src \<noteq> CL_INT)"
proof -
  from assms consider (null) "o_type src = CL_NULL" | (int) i where "o_type src = CL_INT" "o_sz src = 8" "o_u src = U_i64 i"
    | (str) b where "o_type src = CL_STR" "o_u src = U_ptr b" "o_sz src \<le> length b"
    | (blob) b where "is_blob (o_type src)" "o_u src = U_ptr b" "o_sz src \<le> length b"
    by (auto simp: object_wf_def)
  then show ?thesis
  proof cases
    case str
    have "store (map g [0..<o_sz src + 1]) 0 (take (o_sz src) b) = Some (take (o_sz src) b @ [g (o_sz src)])"
      using str(3) by (simp add: store_def)
    moreover have "store (take (o_sz src) b @ [g (o_sz src)]) (o_sz src) [0] = Some (take (o_sz src) b @ [0])"
      using str(3) by (simp add: store_def)
    ultimately show ?thesis using str
      by (simp add: citrusleaf_copy_object_def Let_def load_def same_object_def object_data_def object_wf_def)
  next
    case blob
    have "store (map g [0..<o_sz src]) 0 (take (o_sz src) b) = Some (take (o_sz src) b)"
      using blob(3) by (simp add: store_def)
    then show ?thesis using blob
      by (simp add: citrusleaf_copy_object_def Let_def load_def same_object_def object_data_def object_wf_def)
  qed (simp_all add: citrusleaf_copy_object_def Let_def same_object_def object_wf_def)
qed

definition bin_wf :: "cl_bin \<Rightarrow> bool" where
  "bin_wf b \<longleftrightarrow> length (bin_name b) = 32 \<and> 0 \<in> set (bin_name b) \<and> object_wf (bin_object b)"

definition bin_str :: "cl_bin \<Rightarrow> block" where
  "bin_str b = takeWhile (\<lambda>x. x \<noteq> 0) (bin_name b)"

lemma c_str_takeWhile: "0 \<in> set s \<Longrightarrow> c_str s = Some (takeWhile (\<lambda>x. x \<noteq> 0) s)"
proof -
  assume "0 \<in> set s"
  then have "\<exists>r. s = takeWhile (\<lambda>x. x \<noteq> 0) s @ 0 # r" by (induction s) auto
  then obtain r where r: "s = takeWhile (\<lambda>x. x \<noteq> 0) s @ 0 # r" by blast
  moreover have "0 \<notin> set (takeWhile (\<lambda>x. x \<noteq> 0) s)" by (auto dest: set_takeWhileD)
  ultimately show ?thesis using c_str_append by metis
qed

lemma bin_str_props:
  assumes "bin_wf b"
  shows "strlen (bin_name b) = Some (length (bin_str b))" and "c_str (bin_name b) = Some (bin_str b)"
    and "length (bin_str b) < 32" and "0 \<notin> set (bin_str b)"
    and "load (bin_name b) 0 (length (bin_str b)) = Some (bin_str b)"
proof -
  have z: "0 \<in> set (bin_name b)" using assms by (simp add: bin_wf_def)
  show c: "c_str (bin_name b) = Some (bin_str b)" using c_str_takeWhile [OF z] by (simp add: bin_str_def)
  show n: "0 \<notin> set (bin_str b)" by (auto simp: bin_str_def dest: set_takeWhileD)
  from c obtain m where m: "strlen (bin_name b) = Some m" "load (bin_name b) 0 m = Some (bin_str b)"
    by (auto simp: c_str_def bind_eq_Some_conv)
  then have l: "length (bin_str b) = m" using load_length by blast
  then show "strlen (bin_name b) = Some (length (bin_str b))"
    "load (bin_name b) 0 (length (bin_str b)) = Some (bin_str b)" using m by simp_all
  show "length (bin_str b) < 32" using strlen_Some [OF m(1)] l assms by (simp add: bin_wf_def)
qed

lemma citrusleaf_copy_bin_ok:
  assumes "bin_wf b"
  shows "\<exists>b'. citrusleaf_copy_bin (Some g) zero_bin b = Some (0, b') \<and> bin_wf b' \<and>
    bin_str b' = bin_str b \<and> same_object (bin_object b') (bin_object b)"
proof -
  note s = bin_str_props [OF assms]
  have wf: "object_wf (bin_object b)" using assms by (simp add: bin_wf_def)
  from citrusleaf_copy_object_ok [OF wf, of g "bin_object zero_bin"] obtain d where
    d: "citrusleaf_copy_object (Some g) (bin_object zero_bin) (bin_object b) = Some (0, d)"
    "same_object d (bin_object b)" "object_wf d" by blast
  let ?n = "bin_str b @ 0 # replicate (31 - length (bin_str b)) 0"
  have st: "store (replicate 32 0) 0 (bin_str b @ [0]) = Some ?n"
    using s(3) by (simp add: store_def)
  have "bin_str (\<lparr>bin_name = ?n, bin_object = d\<rparr>) = bin_str b"
    using s(4) by (simp add: bin_str_def takeWhile_append2 takeWhile_tail)
  moreover have "bin_wf \<lparr>bin_name = ?n, bin_object = d\<rparr>" using d(3) s(3) by (simp add: bin_wf_def)
  ultimately show ?thesis using s(2) st d by (simp add: citrusleaf_copy_bin_def zero_bin_def)
qed

text \<open>Copies of all bins: one environment per bin, all allocations granted.\<close>

lemma copy_bins_loop_ok:
  assumes "\<forall>b \<in> set bs. bin_wf b" and "length bs \<le> length gs"
  shows "\<exists>bs'. copy_bins_loop (map Some gs) bs acc = Some (Some (acc @ bs')) \<and>
    list_all2 (\<lambda>b' b. bin_wf b' \<and> bin_str b' = bin_str b \<and> same_object (bin_object b') (bin_object b)) bs' bs"
  using assms
proof (induction bs arbitrary: acc gs)
  case Nil
  then show ?case by simp
next
  case (Cons b bs)
  then obtain g gs' where gs: "gs = g # gs'" by (cases gs) auto
  from citrusleaf_copy_bin_ok [of b g] Cons.prems obtain b' where b':
    "citrusleaf_copy_bin (Some g) zero_bin b = Some (0, b')" "bin_wf b'" "bin_str b' = bin_str b"
    "same_object (bin_object b') (bin_object b)" by auto
  from Cons.IH [of gs' "acc @ [b']"] Cons.prems obtain bs' where
    "copy_bins_loop (map Some gs') bs (acc @ [b']) = Some (Some ((acc @ [b']) @ bs'))"
    "list_all2 (\<lambda>b' b. bin_wf b' \<and> bin_str b' = bin_str b \<and> same_object (bin_object b') (bin_object b)) bs' bs"
    unfolding gs by auto
  then show ?case using b' by (intro exI [of _ "b' # bs'"]) (simp add: gs)
qed

end
