(* ===== verification/Cl_Msg.thy ===== *)
theory Cl_Msg
  imports Cl_Proto Cl_Object
begin

section \<open>Requests and responses (\<open>src/citrusleaf.c\<close>)\<close>

text \<open>
  The request is built in a buffer: \<open>cl_compile\<close> sizes it, clears it and writes header, fields and
  operations one after the other; \<open>cl_parse\<close> reads a response in place. A pointer into the buffer
  is an offset, so that every store out of the buffer is a fault of the model. The hash
  RIPEMD-160 is code of OpenSSL: it is the argument \<open>rmd\<close>, a function of the bytes it is fed.
\<close>

subsection \<open>Constants\<close>

definition CL_PROTO_VERSION :: u8 where "CL_PROTO_VERSION = 2"
definition CL_PROTO_TYPE_CL_MSG :: u8 where "CL_PROTO_TYPE_CL_MSG = 3"
definition CL_MSG_FIELD_TYPE_NAMESPACE :: u8 where "CL_MSG_FIELD_TYPE_NAMESPACE = 0"
definition CL_MSG_FIELD_TYPE_SET :: u8 where "CL_MSG_FIELD_TYPE_SET = 1"
definition CL_MSG_FIELD_TYPE_KEY :: u8 where "CL_MSG_FIELD_TYPE_KEY = 2"
definition CL_MSG_FIELD_TYPE_DIGEST_RIPE :: u8 where "CL_MSG_FIELD_TYPE_DIGEST_RIPE = 4"
definition CL_MSG_FIELD_TYPE_DIGEST_RIPE_ARRAY :: u8 where "CL_MSG_FIELD_TYPE_DIGEST_RIPE_ARRAY = 6"
definition CL_MSG_FIELD_TYPE_TRID :: u8 where "CL_MSG_FIELD_TYPE_TRID = 7"
definition CL_MSG_FIELD_TYPE_SCAN_OPTIONS :: u8 where "CL_MSG_FIELD_TYPE_SCAN_OPTIONS = 8"

definition CL_MSG_OP_READ :: u8 where "CL_MSG_OP_READ = 1"
definition CL_MSG_OP_WRITE :: u8 where "CL_MSG_OP_WRITE = 2"
definition CL_MSG_OP_INCR :: u8 where "CL_MSG_OP_INCR = 5"
definition CL_MSG_OP_APPEND :: u8 where "CL_MSG_OP_APPEND = 9"
definition CL_MSG_OP_PREPEND :: u8 where "CL_MSG_OP_PREPEND = 10"
definition CL_MSG_OP_TOUCH :: u8 where "CL_MSG_OP_TOUCH = 11"
definition CL_MSG_OP_MC_INCR :: u8 where "CL_MSG_OP_MC_INCR = 129"
definition CL_MSG_OP_MC_APPEND :: u8 where "CL_MSG_OP_MC_APPEND = 130"
definition CL_MSG_OP_MC_PREPEND :: u8 where "CL_MSG_OP_MC_PREPEND = 131"
definition CL_MSG_OP_MC_TOUCH :: u8 where "CL_MSG_OP_MC_TOUCH = 132"

lemmas msg_ops = CL_MSG_OP_READ_def CL_MSG_OP_WRITE_def CL_MSG_OP_INCR_def CL_MSG_OP_APPEND_def
  CL_MSG_OP_PREPEND_def CL_MSG_OP_TOUCH_def CL_MSG_OP_MC_INCR_def CL_MSG_OP_MC_APPEND_def
  CL_MSG_OP_MC_PREPEND_def CL_MSG_OP_MC_TOUCH_def

definition CL_MSG_INFO2_WRITE :: u32 where "CL_MSG_INFO2_WRITE = 1"
definition CL_MSG_INFO2_DELETE :: u32 where "CL_MSG_INFO2_DELETE = 2"
definition CL_MSG_INFO2_GENERATION :: u32 where "CL_MSG_INFO2_GENERATION = 4"
definition CL_MSG_INFO2_GENERATION_GT :: u32 where "CL_MSG_INFO2_GENERATION_GT = 8"
definition CL_MSG_INFO2_GENERATION_DUP :: u32 where "CL_MSG_INFO2_GENERATION_DUP = 16"
definition CL_MSG_INFO2_WRITE_UNIQUE :: u32 where "CL_MSG_INFO2_WRITE_UNIQUE = 32"
definition CL_MSG_INFO2_WRITE_BINUNIQUE :: u32 where "CL_MSG_INFO2_WRITE_BINUNIQUE = 64"

text \<open>\<open>cl_operator\<close>; a C enumeration, so that any other value is possible too.\<close>

datatype cl_operator = CL_OP_WRITE | CL_OP_READ | CL_OP_INCR | CL_OP_MC_INCR | CL_OP_PREPEND
  | CL_OP_APPEND | CL_OP_MC_PREPEND | CL_OP_MC_APPEND | CL_OP_TOUCH | CL_OP_MC_TOUCH | CL_OP_other u32

record cl_operation =
  op_bin :: cl_bin
  op_op :: cl_operator

record cl_write_parameters =
  w_unique :: bool
  w_unique_bin :: bool
  w_use_generation :: bool
  w_use_generation_gt :: bool
  w_use_generation_dup :: bool
  w_generation :: u32
  w_timeout_ms :: u32
  w_record_ttl :: u32
  w_retry :: bool

subsection \<open>The header\<close>

definition cl_write_header ::
  "block \<Rightarrow> nat \<Rightarrow> u32 \<Rightarrow> u32 \<Rightarrow> u32 \<Rightarrow> u32 \<Rightarrow> u32 \<Rightarrow> u32 \<Rightarrow> u32 \<Rightarrow> u32 \<Rightarrow> (block \<times> nat) option" where
  "cl_write_header buf msg_sz info1 info2 info3 generation record_ttl transaction_ttl n_fields n_ops = do {
     buf \<leftarrow> store buf 0 [CL_PROTO_VERSION];
     buf \<leftarrow> store buf 1 [CL_PROTO_TYPE_CL_MSG];
     buf \<leftarrow> store buf 2 (word_le 6 ((of_nat msg_sz :: u64) - 8));
     buf \<leftarrow> cl_proto_swap buf 0;
     buf \<leftarrow> store buf 8 [22];
     buf \<leftarrow> store buf 9 [ucast info1];
     buf \<leftarrow> store buf 10 [ucast info2];
     buf \<leftarrow> store buf 11 [ucast info3];
     buf \<leftarrow> store buf 12 [0];
     buf \<leftarrow> store buf 13 [0];
     buf \<leftarrow> store buf 14 (word_le 4 generation);
     buf \<leftarrow> store buf 18 (word_le 4 record_ttl);
     buf \<leftarrow> store buf 22 (word_le 4 transaction_ttl);
     buf \<leftarrow> store buf 26 (word_le 2 n_fields);
     buf \<leftarrow> store buf 28 (word_le 2 n_ops);
     buf \<leftarrow> cl_msg_swap_header buf 8;
     Some (buf, 30) }"

text \<open>The 30 bytes of a header.\<close>

definition header_bytes ::
  "nat \<Rightarrow> u32 \<Rightarrow> u32 \<Rightarrow> u32 \<Rightarrow> u32 \<Rightarrow> u32 \<Rightarrow> u32 \<Rightarrow> u32 \<Rightarrow> u32 \<Rightarrow> block" where
  "header_bytes msg_sz info1 info2 info3 generation record_ttl transaction_ttl n_fields n_ops =
     [2, 3] @ word_be 6 ((of_nat msg_sz :: u64) - 8) @ [22, ucast info1, ucast info2, ucast info3, 0, 0] @
     word_be 4 generation @ word_be 4 record_ttl @ word_be 4 transaction_ttl @
     word_be 2 n_fields @ word_be 2 n_ops"

lemma length_header_bytes [simp]: "length (header_bytes msg_sz i1 i2 i3 g r t f n) = 30"
  by (simp add: header_bytes_def)

lemma list_30: "length h = 30 \<Longrightarrow> \<exists>a b c d e f g h0 i j k l m n o' p q r s t u v w x y z a' b' c' d'.
   h = [a, b, c, d, e, f, g, h0, i, j, k, l, m, n, o', p, q, r, s, t, u, v, w, x, y, z, a', b', c', d']"
  by (auto simp: eval_nat_numeral length_Suc_conv)

lemma cl_write_header_at:
  assumes "length h = 30"
  shows "cl_write_header (h @ c) msg_sz i1 i2 i3 g r t f n = Some (header_bytes msg_sz i1 i2 i3 g r t f n @ c, 30)"
proof -
  have u: "[0..<2] = [0, 1]" "[0..<4] = [0, 1, 2, 3]" "[0..<6] = [0, 1, 2, 3, 4, 5]" "[0..<(6::nat)] = [0, 1, 2, 3, 4, 5]"
    by (simp_all add: upt_rec)
  show ?thesis using list_30 [OF assms]
    by (elim exE) (simp add: cl_write_header_def cl_proto_swap_def cl_msg_swap_header_def swap_bytes_def
      load_def store_def header_bytes_def word_be_def word_le_def u CL_PROTO_VERSION_def CL_PROTO_TYPE_CL_MSG_def)
qed

subsection \<open>The fields\<close>

definition cf_digest_compute2 :: "(block \<Rightarrow> block) \<Rightarrow> block \<Rightarrow> block \<Rightarrow> block" where
  "cf_digest_compute2 rmd data1 data2 = (if data1 = [] then rmd data2 else rmd (data1 @ data2))"

text \<open>
  The end of every field: the next one is found from the size, then the size is swapped. All
  fields but the key are written by the same lines: type, size, data.
\<close>

definition end_field :: "block \<Rightarrow> nat \<Rightarrow> (block \<times> nat) option" where
  "end_field buf mf = do {
     next \<leftarrow> cl_msg_field_get_next buf mf;
     buf \<leftarrow> cl_msg_swap_field buf mf;
     Some (buf, next) }"

definition write_field :: "block \<Rightarrow> nat \<Rightarrow> u8 \<Rightarrow> u32 \<Rightarrow> block \<Rightarrow> (block \<times> nat) option" where
  "write_field buf mf type field_sz data = do {
     buf \<leftarrow> store buf (mf + 4) [type];
     buf \<leftarrow> store buf mf (word_le 4 field_sz);
     buf \<leftarrow> store buf (mf + 5) data;
     end_field buf mf }"

definition value_to_op_int :: "u64 \<Rightarrow> block \<Rightarrow> nat \<Rightarrow> (nat \<times> block) option" where
  "value_to_op_int value buf data = do { buf \<leftarrow> store buf data (word_be 8 value); Some (8, buf) }"

text \<open>The key field; an unknown type is the null result of \<open>write_fields\<close> (here \<open>Inl\<close>).\<close>

definition write_key :: "(block \<Rightarrow> block) \<Rightarrow> block \<Rightarrow> nat \<Rightarrow> block \<Rightarrow> cl_object \<Rightarrow>
    (unit + (block \<times> nat \<times> block)) option" where
  "write_key rmd buf mf setn key = do {
     buf \<leftarrow> store buf (mf + 4) [CL_MSG_FIELD_TYPE_KEY];
     r \<leftarrow> (if o_type key = CL_STR \<or> is_blob (o_type key) then do {
            buf \<leftarrow> store buf (mf + 5) [ucast (o_type key)];
            buf \<leftarrow> store buf mf (word_le 4 (of_nat (o_sz key) + 2 :: u32));
            p \<leftarrow> u_ptr (o_u key);
            x \<leftarrow> load p 0 (o_sz key);
            buf \<leftarrow> store buf (mf + 6) x;
            Some (Some buf) }
          else if o_type key = CL_INT then do {
            buf \<leftarrow> store buf (mf + 5) [ucast (o_type key)];
            i \<leftarrow> u_i64 (o_u key);
            (n, buf) \<leftarrow> value_to_op_int i buf (mf + 6);
            buf \<leftarrow> store buf mf (word_le 4 (of_nat n + 2 :: u32));
            buf \<leftarrow> store buf (mf + 6) (word_be 8 i);
            Some (Some buf) }
          else Some None);
     case r of None \<Rightarrow> Some (Inl ())
     | Some buf \<Rightarrow> do {
         (buf, next) \<leftarrow> end_field buf mf;
         k \<leftarrow> load buf (mf + 5) (o_sz key + 1);
         Some (Inr (buf, next, cf_digest_compute2 rmd setn k)) } }"

text \<open>
  \<open>write_fields\<close>: the buffer, the offset behind the fields, and \<open>d_ret\<close> (\<open>None\<close> as long as
  nothing was stored in it; the callers that pass a null \<open>d_ret\<close> ignore it).
\<close>

definition write_fields :: "(block \<Rightarrow> block) \<Rightarrow> block \<Rightarrow> nat \<Rightarrow> block option \<Rightarrow> block option \<Rightarrow>
    cl_object option \<Rightarrow> block option \<Rightarrow> u64 \<Rightarrow> block option \<Rightarrow>
    (unit + (block \<times> nat \<times> block option)) option" where
  "write_fields rmd buf mf ns setn key d trid scan = do {
     (buf, mf) \<leftarrow> (case ns of None \<Rightarrow> Some (buf, mf)
        | Some s \<Rightarrow> write_field buf mf CL_MSG_FIELD_TYPE_NAMESPACE (of_nat (length s) + 1) s);
     (buf, mf) \<leftarrow> (case setn of None \<Rightarrow> Some (buf, mf)
        | Some s \<Rightarrow> write_field buf mf CL_MSG_FIELD_TYPE_SET (of_nat (length s) + 1) s);
     (buf, mf) \<leftarrow> (if trid = 0 then Some (buf, mf)
        else write_field buf mf CL_MSG_FIELD_TYPE_TRID (8 + 1) (word_be 8 trid));
     (buf, mf) \<leftarrow> (case scan of None \<Rightarrow> Some (buf, mf)
        | Some s \<Rightarrow> write_field buf mf CL_MSG_FIELD_TYPE_SCAN_OPTIONS (of_nat (length s) + 1) s);
     r \<leftarrow> (case key of None \<Rightarrow> Some (Inr (buf, mf, None))
        | Some k \<Rightarrow> map_option (map_sum id (\<lambda>(buf, mf, dg). (buf, mf, Some dg)))
            (write_key rmd buf mf (case setn of None \<Rightarrow> [] | Some s \<Rightarrow> s) k));
     case r of Inl _ \<Rightarrow> Some (Inl ())
     | Inr (buf, mf, dr) \<Rightarrow>
       (case d of None \<Rightarrow> Some (Inr (buf, mf, dr))
        | Some d' \<Rightarrow> do {
            (buf, mf) \<leftarrow> write_field buf mf CL_MSG_FIELD_TYPE_DIGEST_RIPE (of_nat (length d') + 1) d';
            Some (Inr (buf, mf, Some d')) }) }"

definition write_fields_digests :: "block \<Rightarrow> nat \<Rightarrow> block option \<Rightarrow> block list \<Rightarrow> (block \<times> nat) option" where
  "write_fields_digests buf mf ns digests = do {
     (buf, mf) \<leftarrow> (case ns of None \<Rightarrow> Some (buf, mf)
        | Some s \<Rightarrow> write_field buf mf CL_MSG_FIELD_TYPE_NAMESPACE (of_nat (length s) + 1) s);
     write_field buf mf CL_MSG_FIELD_TYPE_DIGEST_RIPE_ARRAY (of_nat (20 * length digests) + 1) (concat digests) }"

text \<open>A field as bytes, and the fields of a request in the order of the code.\<close>

definition field_bytes :: "u8 \<Rightarrow> block \<Rightarrow> block" where
  "field_bytes type data = word_be 4 (of_nat (length data + 1) :: u32) @ type # data"

lemma length_field_bytes [simp]: "length (field_bytes t d) = 5 + length d"
  by (simp add: field_bytes_def)

lemma end_field_at:
  assumes "length a = mf" and "8 * length sz = 32"
  shows "end_field (a @ sz @ r) mf = Some (a @ rev sz @ r, mf + 4 + unat (le_word sz :: u32))"
  using assms by (simp add: end_field_def cl_msg_field_get_next_def load_u32_def cl_msg_swap_field_def mem_simps)

lemma le_word_word_le4 [simp]: "le_word (word_le 4 w) = (w :: u32)"
  by (rule le_word_word_le) simp

lemma split_field:
  assumes "length r = 5 + n"
  obtains s t d where "r = s @ [t] @ d" and "length s = 4" and "length d = n"
proof
  show "r = take 4 r @ [r ! 4] @ drop 5 r" using assms id_take_nth_drop [of 4 r] by simp
qed (use assms in simp_all)

lemma write_field_at:
  assumes "length a = mf" and "length r = 5 + length data" and "length data + 1 < 2 ^ 32"
    and "fsz = of_nat (length data + 1)"
  shows "write_field (a @ r @ c) mf type fsz data = Some (a @ field_bytes type data @ c, mf + 5 + length data)"
proof -
  obtain s t d where r: "r = s @ [t] @ d" "length s = 4" "length d = length data"
    using split_field [OF assms(2)] .
  have 1: "store (a @ (s @ [t] @ d) @ c) (mf + 4) [type] = Some (a @ s @ [type] @ d @ c)"
    using store_at [of "a @ s" "mf + 4" "[t]" "[type]" "d @ c"] assms(1) r by simp
  have 2: "store (a @ s @ [type] @ d @ c) mf (word_le 4 fsz) = Some (a @ word_le 4 fsz @ [type] @ d @ c)"
    using store_at [of a mf s "word_le 4 fsz" "[type] @ d @ c"] assms(1) r by simp
  have 3: "store (a @ word_le 4 fsz @ [type] @ d @ c) (mf + 5) data = Some (a @ word_le 4 fsz @ [type] @ data @ c)"
    using store_at [of "a @ word_le 4 fsz @ [type]" "mf + 5" d data c] assms(1) r by simp
  have "unat fsz = length data + 1" unfolding assms(4) unat_of_nat using assms(3) by (intro mod_less) simp
  then have "end_field (a @ word_le 4 fsz @ [type] @ data @ c) mf = Some (a @ field_bytes type data @ c, mf + 5 + length data)"
    using end_field_at [of a mf "word_le 4 fsz" "[type] @ data @ c"] assms(1,4)
    by (simp add: field_bytes_def word_be_def)
  then show ?thesis unfolding write_field_def r 1 by (simp only: bind.bind_lunit 2 3)
qed

text \<open>
  A run of stores that follow each other is one store; \<open>ov\<close> is its result when it fits.
\<close>

definition ov :: "block \<Rightarrow> nat \<Rightarrow> block \<Rightarrow> block" where
  "ov buf off x = take off buf @ x @ drop (off + length x) buf"

lemma length_ov [simp]: "off + length x \<le> length buf \<Longrightarrow> length (ov buf off x) = length buf"
  by (simp add: ov_def)

lemma store_ov: "off + length x \<le> length buf \<Longrightarrow> store buf off x = Some (ov buf off x)"
  by (simp add: store_def ov_def)

lemma ov_ov:
  assumes "off + length x + length y \<le> length buf" and "p = off + length x"
  shows "ov (ov buf off x) p y = ov buf off (x @ y)"
  using assms by (simp add: ov_def add.assoc add.commute add.left_commute)

lemma ov_nil [simp]: "off \<le> length buf \<Longrightarrow> ov buf off [] = buf"
  by (simp add: ov_def)

lemma load_ov: "off + length x \<le> length buf \<Longrightarrow> load (ov buf off x) off (length x) = Some x"
  by (simp add: ov_def load_def)

lemma split_at:
  assumes "off + n \<le> length buf"
  obtains a r c where "buf = a @ r @ c" and "length a = off" and "length r = n"
proof
  show "buf = take off buf @ take n (drop off buf) @ drop (off + n) buf"
    by (metis append_take_drop_id drop_drop add.commute)
qed (use assms in simp_all)

lemma ov_at [simp]: "length a = off \<Longrightarrow> length r = length x \<Longrightarrow> ov (a @ r @ c) off x = a @ x @ c"
  by (simp add: ov_def)

lemma write_field_ok:
  assumes "mf + 5 + length data \<le> length buf" and "length data + 1 < 2 ^ 32"
    and "fsz = of_nat (length data + 1)"
  shows "write_field buf mf type fsz data = Some (ov buf mf (field_bytes type data), mf + length (field_bytes type data))"
proof -
  obtain a r c where b: "buf = a @ r @ c" "length a = mf" "length r = 5 + length data"
    using split_at [of mf "5 + length data" buf] assms(1) by (auto simp: add.assoc)
  then show ?thesis using write_field_at [of a mf r data fsz c type] assms(2,3) by simp
qed

definition opt_field :: "u8 \<Rightarrow> block option \<Rightarrow> block" where
  "opt_field type s = (case s of None \<Rightarrow> [] | Some data \<Rightarrow> field_bytes type data)"

lemma opt_field_ok:
  assumes "mf + length (opt_field type s) \<le> length buf" and "length (opt_field type s) < 2 ^ 32"
  shows "(case s of None \<Rightarrow> Some (buf, mf)
           | Some data \<Rightarrow> write_field buf mf type (of_nat (length data) + 1) data)
         = Some (ov buf mf (opt_field type s), mf + length (opt_field type s))"
proof (cases s)
  case None
  then show ?thesis using assms by (simp add: opt_field_def)
next
  case (Some data)
  then show ?thesis using assms write_field_ok [of mf data buf "of_nat (length data) + 1" type]
    by (simp add: opt_field_def)
qed

definition key_ok :: "cl_object \<Rightarrow> bool" where
  "key_ok k \<longleftrightarrow> object_wf k \<and> o_type k \<noteq> CL_NULL"

definition key_bytes :: "cl_object \<Rightarrow> block" where
  "key_bytes k = ucast (o_type k) # (case o_u k of U_i64 i \<Rightarrow> word_be 8 i | _ \<Rightarrow> object_data k)"

lemma length_key_bytes: "key_ok k \<Longrightarrow> length (key_bytes k) = Suc (o_sz k)"
  by (auto simp: key_ok_def object_wf_def key_bytes_def object_data_def)

lemma write_key_at:
  assumes k: "key_ok key" and l: "length a = mf" "length r = 6 + o_sz key" "o_sz key + 2 < 2 ^ 32"
  shows "write_key rmd (a @ r @ c) mf setn key =
    Some (Inr (a @ field_bytes CL_MSG_FIELD_TYPE_KEY (key_bytes key) @ c, mf + 6 + o_sz key,
      cf_digest_compute2 rmd setn (key_bytes key)))"
proof -
  obtain s t d where r: "r = s @ [t] @ d" "length s = 4" "length d = Suc (o_sz key)"
    using split_field [of r "Suc (o_sz key)"] l(2) by auto
  then obtain t2 e where d: "d = t2 # e" "length e = o_sz key" by (cases d) auto
  let ?T = "CL_MSG_FIELD_TYPE_KEY"
  let ?kt = "ucast (o_type key) :: u8"
  obtain data where data: "key_bytes key = ?kt # data" "length data = o_sz key"
    using length_key_bytes [OF k] by (cases "key_bytes key") (auto simp: key_bytes_def)
  have s1: "store (a @ r @ c) (mf + 4) [?T] = Some (a @ s @ [?T] @ t2 # e @ c)"
    using store_at [of "a @ s" "mf + 4" "[t]" "[?T]" "d @ c"] l(1) r d by simp
  have s2: "store (a @ s @ [?T] @ t2 # e @ c) (mf + 5) [?kt] = Some (a @ s @ [?T] @ ?kt # e @ c)"
    using store_at [of "a @ s @ [?T]" "mf + 5" "[t2]" "[?kt]" "e @ c"] l(1) r by simp
  have s3: "store (a @ w @ [?T] @ ?kt # y @ c) mf (word_le 4 fsz) =
      Some (a @ word_le 4 fsz @ [?T] @ ?kt # y @ c)" if "length w = 4" for w y :: block and fsz :: u32
    using store_at [of a mf w "word_le 4 fsz" "[?T] @ ?kt # y @ c"] l(1) that by simp
  have s4: "store (a @ w @ [?T] @ ?kt # y @ c) (mf + 6) data = Some (a @ w @ [?T] @ ?kt # data @ c)"
    if "length w = 4" "length y = o_sz key" for w y :: block
    using store_at [of "a @ w @ [?T] @ [?kt]" "mf + 6" y data c] l(1) that data by simp
  have f: "unat (of_nat (o_sz key) + 2 :: u32) = o_sz key + 2"
  proof -
    have "(of_nat (o_sz key) + 2 :: u32) = of_nat (o_sz key + 2)" by simp
    then show ?thesis unfolding unat_of_nat using l(3) by (simp only: unat_of_nat) (simp add: mod_less)
  qed
  have en: "end_field (a @ word_le 4 (of_nat (o_sz key) + 2 :: u32) @ [?T] @ ?kt # data @ c) mf =
      Some (a @ field_bytes ?T (key_bytes key) @ c, mf + 6 + o_sz key)"
    using end_field_at [of a mf "word_le 4 (of_nat (o_sz key) + 2 :: u32)" "[?T] @ ?kt # data @ c"] l(1) f
    by (simp add: field_bytes_def word_be_def data add.commute)
  have ld: "load (a @ field_bytes ?T (key_bytes key) @ c) (mf + 5) (o_sz key + 1) = Some (key_bytes key)"
    using load_at [of "a @ word_be 4 (of_nat (length (key_bytes key) + 1) :: u32) @ [?T]" "mf + 5" "key_bytes key" "o_sz key + 1" c]
      l(1) length_key_bytes [OF k] by (simp add: field_bytes_def)
  from k consider (int) i where "o_type key = CL_INT" "o_sz key = 8" "o_u key = U_i64 i"
    | (ptr) b where "o_type key = CL_STR \<or> is_blob (o_type key)" "o_u key = U_ptr b" "o_sz key \<le> length b"
    by (auto simp: key_ok_def object_wf_def)
  then show ?thesis
  proof cases
    case int
    then have dd: "data = word_be 8 i" using data by (simp add: key_bytes_def)
    let ?f = "of_nat (o_sz key) + 2 :: u32"
    have "write_key rmd (a @ r @ c) mf setn key =
      do { (buf, next) \<leftarrow> end_field (a @ word_le 4 ?f @ [?T] @ ?kt # data @ c) mf;
           k \<leftarrow> load buf (mf + 5) (o_sz key + 1);
           Some (Inr (buf, next, cf_digest_compute2 rmd setn k)) }"
      using int s2 s3 [OF r(2), of data ?f] s4 [OF r(2) d(2)] s4 [of "word_le 4 ?f" data] data dd
      by (simp add: write_key_def s1 value_to_op_int_def)
    then show ?thesis using en ld by simp
  next
    case ptr
    then have dd: "data = take (o_sz key) b" using data by (simp add: key_bytes_def object_data_def)
    let ?f = "of_nat (o_sz key) + 2 :: u32"
    have "write_key rmd (a @ r @ c) mf setn key =
      do { (buf, next) \<leftarrow> end_field (a @ word_le 4 ?f @ [?T] @ ?kt # data @ c) mf;
           k \<leftarrow> load buf (mf + 5) (o_sz key + 1);
           Some (Inr (buf, next, cf_digest_compute2 rmd setn k)) }"
      using ptr s2 s3 [OF r(2), of e ?f] s4 [of "word_le 4 ?f" e] d dd
      by (simp add: write_key_def s1 load_def)
    then show ?thesis using en ld by simp
  qed
qed

lemma opt_field_simps: "opt_field t None = []" "opt_field t (Some d) = field_bytes t d"
  by (simp_all add: opt_field_def)

lemma write_key_ok:
  assumes k: "key_ok key" and b: "mf + 6 + o_sz key \<le> length buf" and l: "o_sz key + 2 < 2 ^ 32"
  shows "write_key rmd buf mf setn key =
    Some (Inr (ov buf mf (field_bytes CL_MSG_FIELD_TYPE_KEY (key_bytes key)), mf + 6 + o_sz key,
      cf_digest_compute2 rmd setn (key_bytes key)))"
proof -
  obtain a r c where s: "buf = a @ r @ c" "length a = mf" "length r = 6 + o_sz key"
    using split_at [of mf "6 + o_sz key" buf] b by (auto simp: add.assoc)
  then show ?thesis using write_key_at [OF k s(2,3) l, of rmd c setn] length_key_bytes [OF k] by simp
qed

definition fields_bytes :: "block option \<Rightarrow> block option \<Rightarrow> cl_object option \<Rightarrow> block option \<Rightarrow> u64 \<Rightarrow>
    block option \<Rightarrow> block" where
  "fields_bytes ns setn key d trid scan =
     opt_field CL_MSG_FIELD_TYPE_NAMESPACE ns @ opt_field CL_MSG_FIELD_TYPE_SET setn @
     opt_field CL_MSG_FIELD_TYPE_TRID (if trid = 0 then None else Some (word_be 8 trid)) @
     opt_field CL_MSG_FIELD_TYPE_SCAN_OPTIONS scan @
     opt_field CL_MSG_FIELD_TYPE_KEY (map_option key_bytes key) @
     opt_field CL_MSG_FIELD_TYPE_DIGEST_RIPE d"

text \<open>What \<open>d_ret\<close> gets: the digest that was passed, else that of the key.\<close>

definition d_ret_of :: "(block \<Rightarrow> block) \<Rightarrow> block option \<Rightarrow> cl_object option \<Rightarrow> block option \<Rightarrow> block option" where
  "d_ret_of rmd setn key d = (case d of Some d' \<Rightarrow> Some d'
     | None \<Rightarrow> map_option (\<lambda>k. cf_digest_compute2 rmd (case setn of None \<Rightarrow> [] | Some s \<Rightarrow> s) (key_bytes k)) key)"

lemma write_fields_ok:
  assumes k: "\<forall>k. key = Some k \<longrightarrow> key_ok k"
    and b: "mf + length (fields_bytes ns setn key d trid scan) \<le> length buf" and n: "length buf < 2 ^ 32"
  shows "write_fields rmd buf mf ns setn key d trid scan =
    Some (Inr (ov buf mf (fields_bytes ns setn key d trid scan),
      mf + length (fields_bytes ns setn key d trid scan), d_ret_of rmd setn key d))"
proof -
  let ?N = "opt_field CL_MSG_FIELD_TYPE_NAMESPACE ns" and ?S = "opt_field CL_MSG_FIELD_TYPE_SET setn"
  let ?tr = "if trid = 0 then None else Some (word_be 8 trid)"
  let ?T = "opt_field CL_MSG_FIELD_TYPE_TRID ?tr" and ?C = "opt_field CL_MSG_FIELD_TYPE_SCAN_OPTIONS scan"
  let ?K = "opt_field CL_MSG_FIELD_TYPE_KEY (map_option key_bytes key)"
  let ?D = "opt_field CL_MSG_FIELD_TYPE_DIGEST_RIPE d"
  have L: "mf + length ?N + length ?S + length ?T + length ?C + length ?K + length ?D \<le> length buf"
    using b by (simp add: fields_bytes_def)
  have s1: "(case ns of None \<Rightarrow> Some (buf, mf)
        | Some s \<Rightarrow> write_field buf mf CL_MSG_FIELD_TYPE_NAMESPACE (of_nat (length s) + 1) s) =
      Some (ov buf mf ?N, mf + length ?N)" using opt_field_ok [of mf _ ns buf] L n by simp
  have s2: "(case setn of None \<Rightarrow> Some (ov buf mf ?N, mf + length ?N)
        | Some s \<Rightarrow> write_field (ov buf mf ?N) (mf + length ?N) CL_MSG_FIELD_TYPE_SET (of_nat (length s) + 1) s) =
      Some (ov buf mf (?N @ ?S), mf + length (?N @ ?S))"
    using opt_field_ok [of "mf + length ?N" _ setn "ov buf mf ?N"] L n by (simp add: ov_ov add.assoc)
  have s3: "(if trid = 0 then Some (ov buf mf (?N @ ?S), mf + length (?N @ ?S))
        else write_field (ov buf mf (?N @ ?S)) (mf + length (?N @ ?S)) CL_MSG_FIELD_TYPE_TRID (8 + 1) (word_be 8 trid)) =
      Some (ov buf mf (?N @ ?S @ ?T), mf + length (?N @ ?S @ ?T))"
  proof (cases "trid = 0")
    case False
    then show ?thesis
      using write_field_ok [of "mf + length (?N @ ?S)" "word_be 8 trid" "ov buf mf (?N @ ?S)" "8 + 1" CL_MSG_FIELD_TYPE_TRID] L n
      by (simp add: ov_ov add.assoc opt_field_simps)
  qed (simp add: opt_field_simps)
  have s4: "(case scan of None \<Rightarrow> Some (ov buf mf (?N @ ?S @ ?T), mf + length (?N @ ?S @ ?T))
        | Some s \<Rightarrow> write_field (ov buf mf (?N @ ?S @ ?T)) (mf + length (?N @ ?S @ ?T))
            CL_MSG_FIELD_TYPE_SCAN_OPTIONS (of_nat (length s) + 1) s) =
      Some (ov buf mf (?N @ ?S @ ?T @ ?C), mf + length (?N @ ?S @ ?T @ ?C))"
    using opt_field_ok [of "mf + length (?N @ ?S @ ?T)" _ scan "ov buf mf (?N @ ?S @ ?T)"] L n
    by (simp add: ov_ov add.assoc)
  let ?B = "ov buf mf (?N @ ?S @ ?T @ ?C)" and ?m = "mf + length (?N @ ?S @ ?T @ ?C)"
  let ?dk = "map_option (\<lambda>k. cf_digest_compute2 rmd (case setn of None \<Rightarrow> [] | Some s \<Rightarrow> s) (key_bytes k)) key"
  have s5: "(case key of None \<Rightarrow> Some (Inr (?B, ?m, None))
        | Some k \<Rightarrow> map_option (map_sum id (\<lambda>(buf, mf, dg). (buf, mf, Some dg)))
            (write_key rmd ?B ?m (case setn of None \<Rightarrow> [] | Some s \<Rightarrow> s) k)) =
      Some (Inr (ov buf mf (?N @ ?S @ ?T @ ?C @ ?K), mf + length (?N @ ?S @ ?T @ ?C @ ?K), ?dk))"
  proof (cases key)
    case None
    then show ?thesis by (simp add: opt_field_def)
  next
    case (Some k)
    have kl: "length ?K = 6 + o_sz k" using Some k length_key_bytes [of k] by (simp add: opt_field_def)
    have "?m + 6 + o_sz k \<le> length ?B" "o_sz k + 2 < 2 ^ 32" using L kl n by auto
    note w = write_key_ok [OF k [rule_format, OF Some] this, of rmd "case setn of None \<Rightarrow> [] | Some s \<Rightarrow> s"]
    have K: "?K = field_bytes CL_MSG_FIELD_TYPE_KEY (key_bytes k)" by (simp add: Some opt_field_def)
    show ?thesis using w L kl unfolding Some option.case by (simp add: K [unfolded Some, symmetric] ov_ov add.assoc)
  qed
  have s6: "(case d of None \<Rightarrow> Some (ov buf mf (?N @ ?S @ ?T @ ?C @ ?K), mf + length (?N @ ?S @ ?T @ ?C @ ?K))
        | Some s \<Rightarrow> write_field (ov buf mf (?N @ ?S @ ?T @ ?C @ ?K)) (mf + length (?N @ ?S @ ?T @ ?C @ ?K))
            CL_MSG_FIELD_TYPE_DIGEST_RIPE (of_nat (length s) + 1) s) =
      Some (ov buf mf (?N @ ?S @ ?T @ ?C @ ?K @ ?D), mf + length (?N @ ?S @ ?T @ ?C @ ?K @ ?D))"
    using opt_field_ok [of "mf + length (?N @ ?S @ ?T @ ?C @ ?K)" _ d "ov buf mf (?N @ ?S @ ?T @ ?C @ ?K)"] L n
    by (simp add: ov_ov add.assoc)
  show ?thesis unfolding write_fields_def s1 bind.bind_lunit prod.case s2 s3 s4 s5 sum.case
    using s6 by (cases d) (simp_all add: fields_bytes_def d_ret_of_def opt_field_def)
qed

lemma write_fields_digests_ok:
  assumes "mf + length (opt_field CL_MSG_FIELD_TYPE_NAMESPACE ns @ field_bytes CL_MSG_FIELD_TYPE_DIGEST_RIPE_ARRAY (concat ds))
      \<le> length buf" and "length buf < 2 ^ 32" and "\<forall>d \<in> set ds. length d = 20"
  shows "write_fields_digests buf mf ns ds =
    Some (ov buf mf (opt_field CL_MSG_FIELD_TYPE_NAMESPACE ns @ field_bytes CL_MSG_FIELD_TYPE_DIGEST_RIPE_ARRAY (concat ds)),
      mf + length (opt_field CL_MSG_FIELD_TYPE_NAMESPACE ns @ field_bytes CL_MSG_FIELD_TYPE_DIGEST_RIPE_ARRAY (concat ds)))"
proof -
  let ?N = "opt_field CL_MSG_FIELD_TYPE_NAMESPACE ns"
  have c: "length (concat ds) = 20 * length ds" using assms(3) by (induction ds) auto
  have s1: "(case ns of None \<Rightarrow> Some (buf, mf)
        | Some s \<Rightarrow> write_field buf mf CL_MSG_FIELD_TYPE_NAMESPACE (of_nat (length s) + 1) s) =
      Some (ov buf mf ?N, mf + length ?N)" using opt_field_ok [of mf _ ns buf] assms by simp
  have "write_field (ov buf mf ?N) (mf + length ?N) CL_MSG_FIELD_TYPE_DIGEST_RIPE_ARRAY (of_nat (20 * length ds) + 1) (concat ds) =
     Some (ov (ov buf mf ?N) (mf + length ?N) (field_bytes CL_MSG_FIELD_TYPE_DIGEST_RIPE_ARRAY (concat ds)),
       mf + length ?N + length (field_bytes CL_MSG_FIELD_TYPE_DIGEST_RIPE_ARRAY (concat ds)))"
    by (rule write_field_ok) (use assms c in auto)
  then show ?thesis unfolding write_fields_digests_def s1 bind.bind_lunit prod.case using assms(1,2)
    by (simp add: ov_ov add.assoc)
qed

subsection \<open>The operations\<close>

text \<open>The two integers of a memcache increment, in the byte order of the host.\<close>

definition value_to_op_two_ints :: "block \<Rightarrow> block \<Rightarrow> nat \<Rightarrow> (nat \<times> block) option" where
  "value_to_op_two_ints value buf data = do {
     v1 \<leftarrow> load value 0 8;
     v2 \<leftarrow> load value 8 8;
     buf \<leftarrow> store buf data (rev v1);
     buf \<leftarrow> store buf (data + 8) (rev v2);
     Some (16, buf) }"

text \<open>\<open>cl_value_to_op_get_size\<close>: the code and the new total.\<close>

definition cl_value_to_op_get_size :: "cl_bin \<Rightarrow> nat \<Rightarrow> int \<times> nat" where
  "cl_value_to_op_get_size v sz =
     (let ob = bin_object v in
      if o_type ob = CL_NULL then (0, sz)
      else if o_type ob = CL_INT then (0, sz + 8)
      else if o_type ob = CL_STR then (0, sz + o_sz ob)
      else if is_blob (o_type ob) then (0, sz + o_sz ob)
      else (- 1, sz))"

fun msg_op :: "cl_operator \<Rightarrow> u8 option" where
  "msg_op CL_OP_WRITE = Some CL_MSG_OP_WRITE"
| "msg_op CL_OP_READ = Some CL_MSG_OP_READ"
| "msg_op CL_OP_INCR = Some CL_MSG_OP_INCR"
| "msg_op CL_OP_MC_INCR = Some CL_MSG_OP_MC_INCR"
| "msg_op CL_OP_APPEND = Some CL_MSG_OP_APPEND"
| "msg_op CL_OP_PREPEND = Some CL_MSG_OP_PREPEND"
| "msg_op CL_OP_MC_APPEND = Some CL_MSG_OP_MC_APPEND"
| "msg_op CL_OP_MC_PREPEND = Some CL_MSG_OP_MC_PREPEND"
| "msg_op CL_OP_TOUCH = Some CL_MSG_OP_TOUCH"
| "msg_op CL_OP_MC_TOUCH = Some CL_MSG_OP_MC_TOUCH"
| "msg_op (CL_OP_other n) = None"

text \<open>\<open>op->op_sz += n\<close>.\<close>

definition add_op_sz :: "block \<Rightarrow> nat \<Rightarrow> u32 \<Rightarrow> block option" where
  "add_op_sz buf op n = do { sz \<leftarrow> load_u32 buf op; store buf op (word_le 4 (sz + n)) }"

definition cl_value_to_op ::
  "cl_bin option \<Rightarrow> cl_operator \<Rightarrow> cl_operation option \<Rightarrow> block \<Rightarrow> nat \<Rightarrow> (int \<times> block) option" where
  "cl_value_to_op v operator operation buf op = do {
     bin \<leftarrow> (case v of Some b \<Rightarrow> Some b | None \<Rightarrow> map_option op_bin operation);
     bin_len \<leftarrow> strlen (bin_name bin);
     buf \<leftarrow> store buf op (word_le 4 (8 + of_nat bin_len - 4 :: u32));
     buf \<leftarrow> store buf (op + 7) [of_nat bin_len];
     buf \<leftarrow> store buf (op + 6) [0];
     nm \<leftarrow> load (bin_name bin) 0 bin_len;
     buf \<leftarrow> store buf (op + 8) nm;
     let tmpOp = (case v of Some _ \<Rightarrow> operator
                  | None \<Rightarrow> (case operation of Some o1 \<Rightarrow> op_op o1 | None \<Rightarrow> CL_OP_WRITE));
     case msg_op tmpOp of None \<Rightarrow> Some (- 1, buf)
     | Some code \<Rightarrow> do {
         buf \<leftarrow> store buf (op + 4) [code];
         data \<leftarrow> cl_msg_op_get_value_p buf op;
         let ob = bin_object bin;
         buf \<leftarrow> store buf (op + 5) [ucast (o_type ob)];
         if o_type ob = CL_NULL then Some (0, buf)
         else if o_type ob = CL_INT then do {
           i \<leftarrow> u_i64 (o_u ob);
           (n, buf) \<leftarrow> value_to_op_int i buf data;
           buf \<leftarrow> add_op_sz buf op (of_nat n);
           Some (0, buf) }
         else if o_type ob = CL_STR then do {
           buf \<leftarrow> add_op_sz buf op (of_nat (o_sz ob));
           p \<leftarrow> u_ptr (o_u ob);
           x \<leftarrow> load p 0 (o_sz ob);
           buf \<leftarrow> store buf data x;
           Some (0, buf) }
         else if is_blob (o_type ob) then do {
           c \<leftarrow> load_u8 buf (op + 4);
           p \<leftarrow> u_ptr (o_u ob);
           if c = CL_MSG_OP_MC_INCR then do {
             (n, buf) \<leftarrow> value_to_op_two_ints p buf data;
             buf \<leftarrow> add_op_sz buf op (of_nat n);
             Some (0, buf) }
           else do {
             buf \<leftarrow> add_op_sz buf op (of_nat (o_sz ob));
             x \<leftarrow> load p 0 (o_sz ob);
             buf \<leftarrow> store buf data x;
             Some (0, buf) } }
         else Some (- 1, buf) } }"

text \<open>
  The argument \<open>i\<close> of a call: \<open>values[i]\<close>, or \<open>operations[i]\<close> when \<open>values\<close> is null; the loop
  that writes the operations.
\<close>

definition arg_bin :: "cl_bin list option \<Rightarrow> cl_operation list option \<Rightarrow> nat \<Rightarrow> cl_bin option" where
  "arg_bin values operations i = (case values of
       Some vs \<Rightarrow> if i < length vs then Some (vs ! i) else None
     | None \<Rightarrow> (case operations of
         Some os \<Rightarrow> if i < length os then Some (op_bin (os ! i)) else None
       | None \<Rightarrow> None))"

definition write_op :: "cl_bin list option \<Rightarrow> cl_operator \<Rightarrow> cl_operation list option \<Rightarrow> nat \<Rightarrow>
    block \<Rightarrow> nat \<Rightarrow> (block \<times> nat) option" where
  "write_op values operator operations i buf op = do {
     (rv, buf) \<leftarrow> (case values of
         Some vs \<Rightarrow> if i < length vs then cl_value_to_op (Some (vs ! i)) operator None buf op else None
       | None \<Rightarrow> (case operations of
           Some os \<Rightarrow> if i < length os then cl_value_to_op None CL_OP_WRITE (Some (os ! i)) buf op else None
         | None \<Rightarrow> Some (0, buf)));
     next \<leftarrow> cl_msg_op_get_next buf op;
     buf \<leftarrow> cl_msg_swap_op buf op;
     Some (buf, next) }"

fun write_ops :: "cl_bin list option \<Rightarrow> cl_operator \<Rightarrow> cl_operation list option \<Rightarrow> nat \<Rightarrow> nat \<Rightarrow>
    block \<Rightarrow> nat \<Rightarrow> block option" where
  "write_ops values operator operations i 0 buf op = Some buf"
| "write_ops values operator operations i (Suc n) buf op = do {
     (buf, op) \<leftarrow> write_op values operator operations i buf op;
     write_ops values operator operations (Suc i) n buf op }"

text \<open>The sizing loop; \<open>Inl\<close> is the return with an unknown type.\<close>

fun ops_size :: "cl_bin list option \<Rightarrow> cl_operation list option \<Rightarrow> nat \<Rightarrow> nat \<Rightarrow> nat \<Rightarrow> (unit + nat) option" where
  "ops_size values operations i 0 msg_sz = Some (Inr msg_sz)"
| "ops_size values operations i (Suc n) msg_sz = do {
     v \<leftarrow> arg_bin values operations i;
     l \<leftarrow> strlen (bin_name v);
     case cl_value_to_op_get_size v (msg_sz + (8 + l)) of (rv, sz) \<Rightarrow>
       if rv \<noteq> 0 then Some (Inl ()) else ops_size values operations (Suc i) n sz }"

subsection \<open>The bytes of an operation\<close>

definition value_bytes :: "u8 \<Rightarrow> cl_object \<Rightarrow> block" where
  "value_bytes code ob =
     (if o_type ob = CL_NULL then []
      else if o_type ob = CL_INT then (case o_u ob of U_i64 i \<Rightarrow> word_be 8 i | _ \<Rightarrow> [])
      else if is_blob (o_type ob) \<and> code = CL_MSG_OP_MC_INCR
        then rev (take 8 (object_data ob)) @ rev (drop 8 (object_data ob))
      else object_data ob)"

definition object_len :: "cl_object \<Rightarrow> nat" where
  "object_len ob = (if o_type ob = CL_NULL then 0 else o_sz ob)"

definition op_bytes_of :: "block \<Rightarrow> u8 \<Rightarrow> cl_bin \<Rightarrow> block" where
  "op_bytes_of sz code b = sz @ [code, ucast (o_type (bin_object b)), 0, of_nat (length (bin_str b))] @
     bin_str b @ value_bytes code (bin_object b)"

definition op_size :: "cl_bin \<Rightarrow> u32" where
  "op_size b = of_nat (4 + length (bin_str b) + object_len (bin_object b))"

definition op_bytes :: "u8 \<Rightarrow> cl_bin \<Rightarrow> block" where
  "op_bytes code b = op_bytes_of (word_be 4 (op_size b)) code b"

text \<open>A bin that an operation can carry: a memcache increment carries exactly two integers.\<close>

definition op_ok :: "u8 \<Rightarrow> cl_bin \<Rightarrow> bool" where
  "op_ok code b \<longleftrightarrow> bin_wf b \<and>
     (code = CL_MSG_OP_MC_INCR \<longrightarrow> is_blob (o_type (bin_object b)) \<longrightarrow> o_sz (bin_object b) = 16)"

lemma length_value_bytes: "op_ok code b \<Longrightarrow> length (value_bytes code (bin_object b)) = object_len (bin_object b)"
  by (auto simp: op_ok_def bin_wf_def object_wf_def value_bytes_def object_len_def object_data_def)

lemma length_op_bytes: "op_ok code b \<Longrightarrow> length (op_bytes code b) = 8 + length (bin_str b) + object_len (bin_object b)"
  by (simp add: op_bytes_def op_bytes_of_def length_value_bytes)

lemma split_op:
  assumes "length r = 8 + m + n"
  obtains s x4 x5 x6 x7 nm v where "r = s @ [x4, x5, x6, x7] @ nm @ v" and "length s = 4"
    and "length nm = m" and "length v = n"
proof
  have "drop 4 r = r ! 4 # r ! 5 # r ! 6 # r ! 7 # drop 8 r"
    using assms Cons_nth_drop_Suc [of 4 r] Cons_nth_drop_Suc [of 5 r] Cons_nth_drop_Suc [of 6 r] Cons_nth_drop_Suc [of 7 r]
    by simp
  then show "r = take 4 r @ [r ! 4, r ! 5, r ! 6, r ! 7] @ take m (drop 8 r) @ drop (8 + m) r"
    by (metis append_Cons append_Nil append_take_drop_id drop_drop add.commute)
qed (use assms in simp_all)

text \<open>Stores and loads in the eight bytes of an operation.\<close>

lemma op_head_stores:
  assumes "length a = op" and "length s = 4"
  shows "length y = 4 \<Longrightarrow> store (a @ s @ R) op y = Some (a @ y @ R)"
    and "store (a @ s @ [x4, x5, x6, x7] @ R) (op + 4) [b] = Some (a @ s @ [b, x5, x6, x7] @ R)"
    and "store (a @ s @ [x4, x5, x6, x7] @ R) (op + 5) [b] = Some (a @ s @ [x4, b, x6, x7] @ R)"
    and "store (a @ s @ [x4, x5, x6, x7] @ R) (op + 6) [b] = Some (a @ s @ [x4, x5, b, x7] @ R)"
    and "store (a @ s @ [x4, x5, x6, x7] @ R) (op + 7) [b] = Some (a @ s @ [x4, x5, x6, b] @ R)"
    and "load_u8 (a @ s @ [x4, x5, x6, x7] @ R) (op + 4) = Some x4"
    and "load_u8 (a @ s @ [x4, x5, x6, x7] @ R) (op + 7) = Some x7"
    and "load_u32 (a @ s @ R) op = Some (le_word s)"
  using assms store_at [of a op s y R] store_at [of "a @ s" "op + 4" "[x4]" "[b]" "[x5, x6, x7] @ R"]
    store_at [of "a @ s @ [x4]" "op + 5" "[x5]" "[b]" "[x6, x7] @ R"]
    store_at [of "a @ s @ [x4, x5]" "op + 6" "[x6]" "[b]" "[x7] @ R"]
    store_at [of "a @ s @ [x4, x5, x6]" "op + 7" "[x7]" "[b]" R]
    load_at [of "a @ s" "op + 4" "[x4]" 1 "[x5, x6, x7] @ R"]
    load_at [of "a @ s @ [x4, x5, x6]" "op + 7" "[x7]" 1 R] load_at [of a op s 4 R]
  by (simp_all add: load_u8_def load_u32_def)

lemma op_body_stores:
  assumes "length a = op" and "length s = 4"
  shows "length nm = length y \<Longrightarrow>
      store (a @ s @ [x4, x5, x6, x7] @ nm @ R) (op + 8) y = Some (a @ s @ [x4, x5, x6, x7] @ y @ R)"
    and "length v = length y \<Longrightarrow>
      store (a @ s @ [x4, x5, x6, x7] @ nm @ v @ R) (op + 8 + length nm) y =
      Some (a @ s @ [x4, x5, x6, x7] @ nm @ y @ R)"
  using assms store_at [of "a @ s @ [x4, x5, x6, x7]" "op + 8" nm y R]
    store_at [of "a @ s @ [x4, x5, x6, x7] @ nm" "op + 8 + length nm" v y R]
  by simp_all

lemma add_op_sz_at:
  "length a = op \<Longrightarrow> add_op_sz (a @ word_le 4 w @ R) op n = Some (a @ word_le 4 (w + n) @ R)"
  using op_head_stores(1) [of a op "word_le 4 w" "word_le 4 (w + n)" R] op_head_stores(8) [of a op "word_le 4 w" R]
  by (simp add: add_op_sz_def)

lemma cl_value_to_op_at:
  assumes ok: "op_ok code b" and code: "msg_op opr = Some code"
    and l: "length a = op" "length r = length (op_bytes code b)"
    and v: "v = Some b \<and> operator = opr \<or> v = None \<and> operation = Some o1 \<and> op_bin o1 = b \<and> op_op o1 = opr"
  shows "cl_value_to_op v operator operation (a @ r @ c) op = Some (0, a @ op_bytes_of (word_le 4 (op_size b)) code b @ c)"
proof -
  have wf: "bin_wf b" and ob: "object_wf (bin_object b)" using ok by (simp_all add: op_ok_def bin_wf_def)
  note bs = bin_str_props [OF wf]
  let ?n = "length (bin_str b)" and ?ob = "bin_object b"
  let ?t = "ucast (o_type ?ob) :: u8" and ?N = "of_nat ?n :: u8"
  let ?V = "value_bytes code ?ob"
  obtain s x4 x5 x6 x7 nm vo where r: "r = s @ [x4, x5, x6, x7] @ nm @ vo" "length s = 4" "length nm = ?n"
    "length vo = object_len ?ob" using split_op [of r ?n "object_len ?ob" thesis] l(2) length_op_bytes [OF ok] by metis
  have N: "unat ?N = ?n" using bs(3) by (simp add: unat_of_nat)
  let ?s0 = "word_le 4 (8 + of_nat ?n - 4 :: u32)"
  let ?S = "\<lambda>s v. a @ s @ [code, ?t, 0, ?N] @ bin_str b @ v @ c"
  have pre: "cl_value_to_op v operator operation (a @ r @ c) op =
    (let ob = ?ob; buf = ?S ?s0 vo; data = op + 8 + ?n in
      if o_type ob = CL_NULL then Some (0, buf)
      else if o_type ob = CL_INT then do {
        i \<leftarrow> u_i64 (o_u ob);
        (n, buf) \<leftarrow> value_to_op_int i buf data;
        buf \<leftarrow> add_op_sz buf op (of_nat n);
        Some (0, buf) }
      else if o_type ob = CL_STR then do {
        buf \<leftarrow> add_op_sz buf op (of_nat (o_sz ob));
        p \<leftarrow> u_ptr (o_u ob);
        x \<leftarrow> load p 0 (o_sz ob);
        buf \<leftarrow> store buf data x;
        Some (0, buf) }
      else if is_blob (o_type ob) then do {
        c \<leftarrow> load_u8 buf (op + 4);
        p \<leftarrow> u_ptr (o_u ob);
        if c = CL_MSG_OP_MC_INCR then do {
          (n, buf) \<leftarrow> value_to_op_two_ints p buf data;
          buf \<leftarrow> add_op_sz buf op (of_nat n);
          Some (0, buf) }
        else do {
          buf \<leftarrow> add_op_sz buf op (of_nat (o_sz ob));
          x \<leftarrow> load p 0 (o_sz ob);
          buf \<leftarrow> store buf data x;
          Some (0, buf) } }
      else Some (- 1, buf))"
  proof -
    have b: "(case v of Some b \<Rightarrow> Some b | None \<Rightarrow> map_option op_bin operation) = Some b"
      and o: "(case v of Some _ \<Rightarrow> operator | None \<Rightarrow> (case operation of Some o1 \<Rightarrow> op_op o1 | None \<Rightarrow> CL_OP_WRITE)) = opr"
      using v by auto
    have W: "length ?s0 = 4" by simp
    note h = op_head_stores [OF l(1) W] and g = op_body_stores [OF l(1) W]
    have f: "store (a @ (s @ [x4, x5, x6, x7] @ nm @ vo) @ c) op ?s0 = Some (a @ ?s0 @ [x4, x5, x6, x7] @ nm @ vo @ c)"
      using op_head_stores(1) [OF l(1) r(2) W] by simp
    have vp: "cl_msg_op_get_value_p (a @ ?s0 @ [code, x5, 0, ?N] @ R) op = Some (op + 8 + ?n)" for R
      unfolding cl_msg_op_get_value_p_def h(7) by (simp add: N)
    show ?thesis
      unfolding cl_value_to_op_def b o r bind.bind_lunit bs(1) f h(5) h(4) bs(5) Let_def code option.case
        g(1) [OF r(3)] h(2) vp h(3) by (simp only: append_assoc)
  qed
  have st: "store (?S (word_le 4 w) v) (op + 8 + ?n) y = Some (?S (word_le 4 w) y)"
    if "length v = length y" for w :: u32 and v y
    using that op_body_stores(2) [OF l(1), of "word_le 4 w" v y code ?t 0 ?N "bin_str b" c] by simp
  note ad = add_op_sz_at [OF l(1)]
  have sz: "8 + of_nat ?n - 4 + of_nat (object_len ?ob) = op_size b" by (simp add: op_size_def)
  have goal: "a @ op_bytes_of (word_le 4 (op_size b)) code b @ c = ?S (word_le 4 (op_size b)) ?V"
    by (simp add: op_bytes_of_def)
  have lV: "length ?V = object_len ?ob" using length_value_bytes [OF ok] .
  have c4: "load_u8 (?S (word_le 4 w) v) (op + 4) = Some code" for w :: u32 and v
    by (rule op_head_stores(6)) (simp_all add: l(1))
  from ob consider (null) "o_type ?ob = CL_NULL"
    | (int) i where "o_type ?ob = CL_INT" "o_sz ?ob = 8" "o_u ?ob = U_i64 i"
    | (str) p where "o_type ?ob = CL_STR" "o_u ?ob = U_ptr p" "o_sz ?ob \<le> length p"
    | (blob) p where "is_blob (o_type ?ob)" "o_u ?ob = U_ptr p" "o_sz ?ob \<le> length p"
    by (auto simp: object_wf_def)
  then show ?thesis
  proof cases
    case null
    then have "vo = ?V" using r(4) lV by (simp add: object_len_def)
    then show ?thesis unfolding pre goal Let_def using null sz by (simp add: object_len_def)
  next
    case int
    then have "?V = word_be 8 i" "object_len ?ob = 8" by (simp_all add: value_bytes_def object_len_def)
    then show ?thesis unfolding pre goal Let_def using int sz st [of vo ?V] r(4) lV
      by (simp add: value_to_op_int_def ad)
  next
    case str
    then have "?V = take (o_sz ?ob) p" "object_len ?ob = o_sz ?ob"
      by (simp_all add: value_bytes_def object_len_def object_data_def)
    then show ?thesis unfolding pre goal Let_def using str sz st [of vo ?V] r(4) lV
      by (simp add: ad load_def)
  next
    case blob
    have ol: "object_len ?ob = o_sz ?ob" using blob by (simp add: object_len_def)
    show ?thesis
    proof (cases "code = CL_MSG_OP_MC_INCR")
      case False
      then have "?V = take (o_sz ?ob) p" using blob by (simp add: value_bytes_def object_data_def)
      then show ?thesis unfolding pre goal Let_def c4 using blob sz st [of vo ?V] r(4) lV False ol
        by (simp add: ad load_def)
    next
      case True
      then have o16: "o_sz ?ob = 16" using ok blob by (simp add: op_ok_def)
      let ?x = "rev (take 8 p)" and ?y = "rev (take 8 (drop 8 p))"
      have V: "?V = ?x @ ?y" using blob True o16 by (simp add: value_bytes_def object_data_def drop_take)
      have v16: "length vo = 16" using r(4) ol o16 by simp
      then obtain v1 v2 where vo: "vo = v1 @ v2" "length v1 = 8" "length v2 = 8"
        by (intro that [of "take 8 vo" "drop 8 vo"]) simp_all
      have two: "value_to_op_two_ints p (?S ?s0 vo) (op + 8 + ?n) = Some (16, ?S ?s0 ?V)"
      proof -
        have "load p 0 8 = Some (take 8 p)" "load p 8 8 = Some (take 8 (drop 8 p))"
          using blob o16 by (simp_all add: load_def)
        moreover have "store (?S ?s0 vo) (op + 8 + ?n) ?x = Some (?S ?s0 (?x @ v2))"
          using store_at [of "a @ ?s0 @ [code, ?t, 0, ?N] @ bin_str b" "op + 8 + ?n" v1 ?x "v2 @ c"]
            l(1) vo blob(3) o16 by simp
        moreover have "store (?S ?s0 (?x @ v2)) (op + 8 + ?n + 8) ?y = Some (?S ?s0 (?x @ ?y))"
          using store_at [of "a @ ?s0 @ [code, ?t, 0, ?N] @ bin_str b @ ?x" "op + 8 + ?n + 8" v2 ?y c]
            l(1) vo blob(3) o16 by simp
        ultimately show ?thesis by (simp add: value_to_op_two_ints_def V)
      qed
      show ?thesis unfolding pre goal Let_def c4 using blob sz True ol o16 two by (simp add: ad)
    qed
  qed
qed

text \<open>The operations that a call describes, and the conditions under which they can be sent.\<close>

definition op_args :: "cl_bin list option \<Rightarrow> cl_operator \<Rightarrow> cl_operation list option \<Rightarrow> (cl_operator \<times> cl_bin) list" where
  "op_args values operator operations = (case values of
       Some vs \<Rightarrow> map (\<lambda>b. (operator, b)) vs
     | None \<Rightarrow> (case operations of Some os \<Rightarrow> map (\<lambda>q. (op_op q, op_bin q)) os | None \<Rightarrow> []))"

definition arg_ok :: "cl_operator \<times> cl_bin \<Rightarrow> bool" where
  "arg_ok a \<longleftrightarrow> (case msg_op (fst a) of None \<Rightarrow> False | Some code \<Rightarrow> op_ok code (snd a))"

definition arg_bytes :: "cl_operator \<times> cl_bin \<Rightarrow> block" where
  "arg_bytes a = (case msg_op (fst a) of None \<Rightarrow> [] | Some code \<Rightarrow> op_bytes code (snd a))"

definition ops_bytes :: "(cl_operator \<times> cl_bin) list \<Rightarrow> block" where
  "ops_bytes l = concat (map arg_bytes l)"

lemma write_op_ok:
  assumes i: "i < length (op_args values operator operations)"
    and ok: "arg_ok (op_args values operator operations ! i)"
    and b: "op + length (arg_bytes (op_args values operator operations ! i)) \<le> length buf" "length buf < 2 ^ 32"
  shows "write_op values operator operations i buf op =
    Some (ov buf op (arg_bytes (op_args values operator operations ! i)),
      op + length (arg_bytes (op_args values operator operations ! i)))"
proof -
  obtain opr bn where arg: "op_args values operator operations ! i = (opr, bn)" by fastforce
  obtain code where code: "msg_op opr = Some code" "op_ok code bn"
    using ok by (auto simp: arg arg_ok_def split: option.splits)
  have ab: "arg_bytes (op_args values operator operations ! i) = op_bytes code bn" by (simp add: arg_bytes_def arg code)
  let ?X = "op_bytes code bn"
  obtain a r c where s: "buf = a @ r @ c" "length a = op" "length r = length ?X"
    using split_at [of "op" "length ?X" buf] b(1) ab by auto
  let ?sz = "word_le 4 (op_size bn)"
  let ?R = "[code, ucast (o_type (bin_object bn)), 0, of_nat (length (bin_str bn))] @ bin_str bn @ value_bytes code (bin_object bn)"
  have call: "(case values of
         Some vs \<Rightarrow> if i < length vs then cl_value_to_op (Some (vs ! i)) operator None buf op else None
       | None \<Rightarrow> (case operations of
           Some os \<Rightarrow> if i < length os then cl_value_to_op None CL_OP_WRITE (Some (os ! i)) buf op else None
         | None \<Rightarrow> Some (0, buf))) = Some (0, a @ ?sz @ ?R @ c)"
  proof (cases "values")
    case (Some vs)
    then have "i < length vs" "vs ! i = bn" "operator = opr" using i arg by (auto simp: op_args_def)
    then show ?thesis using Some cl_value_to_op_at [OF code(2,1) s(2,3), of "Some bn" operator None _ c] s(1)
      by (simp add: op_bytes_of_def)
  next
    case None
    then obtain os where os: "operations = Some os" using i by (auto simp: op_args_def split: option.splits)
    then have o1: "i < length os" "op_bin (os ! i) = bn" "op_op (os ! i) = opr" using i arg None by (auto simp: op_args_def)
    then show ?thesis using None os cl_value_to_op_at [OF code(2,1) s(2,3), of None CL_OP_WRITE "Some (os ! i)" "os ! i" c] s(1)
      by (simp add: op_bytes_of_def)
  qed
  have lx: "length ?X = 8 + length (bin_str bn) + object_len (bin_object bn)" using length_op_bytes [OF code(2)] .
  have sz: "unat (op_size bn) = 4 + length (bin_str bn) + object_len (bin_object bn)"
    unfolding op_size_def unat_of_nat using b lx ab by (intro mod_less) simp
  have nx: "cl_msg_op_get_next (a @ ?sz @ ?R @ c) op = Some (op + length ?X)"
    unfolding cl_msg_op_get_next_def op_head_stores(8) [OF s(2) length_word_le(1)] by (simp add: sz lx)
  have sw: "cl_msg_swap_op (a @ ?sz @ ?R @ c) op = Some (a @ ?X @ c)"
    unfolding cl_msg_swap_op_def swap_at [OF s(2) length_word_le(1)]
    by (simp add: op_bytes_def op_bytes_of_def word_be_def)
  have "ov buf op ?X = a @ ?X @ c" using s by simp
  then show ?thesis unfolding write_op_def call ab using nx sw by simp
qed

lemma write_ops_ok:
  assumes "i + n \<le> length (op_args values operator operations)"
    and "\<forall>a \<in> set (take n (drop i (op_args values operator operations))). arg_ok a"
    and "op + length (ops_bytes (take n (drop i (op_args values operator operations)))) \<le> length buf"
    and "length buf < 2 ^ 32"
  shows "write_ops values operator operations i n buf op =
    Some (ov buf op (ops_bytes (take n (drop i (op_args values operator operations)))))"
  using assms
proof (induction n arbitrary: i buf op)
  case 0
  then show ?case by (simp add: ops_bytes_def)
next
  case (Suc n)
  let ?l = "op_args values operator operations"
  have e: "take (Suc n) (drop i ?l) = ?l ! i # take n (drop (Suc i) ?l)"
    using Suc.prems(1) by (simp add: Cons_nth_drop_Suc [symmetric])
  let ?x = "arg_bytes (?l ! i)"
  have w: "write_op values operator operations i buf op = Some (ov buf op ?x, op + length ?x)"
    by (rule write_op_ok) (use Suc.prems e in \<open>auto simp: ops_bytes_def\<close>)
  have "write_ops values operator operations (Suc i) n (ov buf op ?x) (op + length ?x) =
      Some (ov (ov buf op ?x) (op + length ?x) (ops_bytes (take n (drop (Suc i) ?l))))"
    by (rule Suc.IH) (use Suc.prems e in \<open>auto simp: ops_bytes_def\<close>)
  also have "ov (ov buf op ?x) (op + length ?x) (ops_bytes (take n (drop (Suc i) ?l))) =
      ov buf op (ops_bytes (take (Suc n) (drop i ?l)))"
    using Suc.prems(3) e by (subst ov_ov) (simp_all add: ops_bytes_def)
  finally show ?case using w by simp
qed

lemma ops_size_ok:
  assumes "i + n \<le> length (op_args values operator operations)"
    and "\<forall>a \<in> set (take n (drop i (op_args values operator operations))). arg_ok a"
  shows "ops_size values operations i n msg_sz =
    Some (Inr (msg_sz + length (ops_bytes (take n (drop i (op_args values operator operations))))))"
  using assms
proof (induction n arbitrary: i msg_sz)
  case 0
  then show ?case by (simp add: ops_bytes_def)
next
  case (Suc n)
  let ?l = "op_args values operator operations"
  have e: "take (Suc n) (drop i ?l) = ?l ! i # take n (drop (Suc i) ?l)"
    using Suc.prems(1) by (simp add: Cons_nth_drop_Suc [symmetric])
  obtain opr bn where arg: "?l ! i = (opr, bn)" by fastforce
  obtain code where code: "msg_op opr = Some code" "op_ok code bn"
    using Suc.prems(2) e by (auto simp: arg arg_ok_def split: option.splits)
  have ab: "arg_bytes (?l ! i) = op_bytes code bn" by (simp add: arg_bytes_def arg code)
  have v: "arg_bin values operations i = Some bn" using Suc.prems(1) arg
    by (auto simp: arg_bin_def op_args_def split: option.splits)
  have wf: "bin_wf bn" using code by (simp add: op_ok_def)
  then have g: "cl_value_to_op_get_size bn m = (0, m + object_len (bin_object bn))" for m
    by (auto simp: cl_value_to_op_get_size_def Let_def object_len_def bin_wf_def object_wf_def)
  have "ops_size values operations (Suc i) n (msg_sz + length (arg_bytes (?l ! i))) =
      Some (Inr (msg_sz + length (arg_bytes (?l ! i)) + length (ops_bytes (take n (drop (Suc i) ?l)))))"
    by (rule Suc.IH) (use Suc.prems e in auto)
  then show ?case using v bin_str_props(1) [OF wf] g e length_op_bytes [OF code(2)]
    by (simp add: ab ops_bytes_def add.assoc)
qed

subsection \<open>Compiling a request\<close>

text \<open>The bits of the write policy, and the generation that goes with them.\<close>

definition write_policy :: "cl_write_parameters option \<Rightarrow> u32 \<Rightarrow> u32 \<times> u32" where
  "write_policy w info2 = (case w of None \<Rightarrow> (info2, 0)
     | Some w \<Rightarrow>
         if w_unique w then (info2 OR CL_MSG_INFO2_WRITE_UNIQUE, 0)
         else if w_unique_bin w then (info2 OR CL_MSG_INFO2_WRITE_BINUNIQUE, 0)
         else if w_use_generation w then (info2 OR CL_MSG_INFO2_GENERATION, w_generation w)
         else if w_use_generation_gt w then (info2 OR CL_MSG_INFO2_GENERATION_GT, w_generation w)
         else if w_use_generation_dup w then (info2 OR CL_MSG_INFO2_GENERATION_DUP, w_generation w)
         else (info2, 0))"

definition opt_c_str :: "block option \<Rightarrow> block option option" where
  "opt_c_str s = (case s of None \<Rightarrow> Some None | Some b \<Rightarrow> map_option Some (c_str b))"

text \<open>
  The size of the fields as \<open>cl_compile\<close> adds it up: one byte too many for a digest and for the
  scan options, whose type byte is counted twice.
\<close>

definition fields_size :: "block option \<Rightarrow> block option \<Rightarrow> cl_object option \<Rightarrow> block option \<Rightarrow> u64 \<Rightarrow>
    block option \<Rightarrow> nat" where
  "fields_size ns setn key digest trid scan =
     (case ns of None \<Rightarrow> 0 | Some s \<Rightarrow> 5 + length s) + (case setn of None \<Rightarrow> 0 | Some s \<Rightarrow> 5 + length s) +
     (case key of None \<Rightarrow> 0 | Some k \<Rightarrow> 5 + 1 + o_sz k) + (case digest of None \<Rightarrow> 0 | Some _ \<Rightarrow> 5 + 1 + 20) +
     (if trid = 0 then 0 else 5 + 8) + (case scan of None \<Rightarrow> 0 | Some _ \<Rightarrow> 5 + 1 + 2)"

definition opt_count :: "'a option \<Rightarrow> u32" where
  "opt_count x = (case x of None \<Rightarrow> 0 | Some _ \<Rightarrow> 1)"

definition n_fields_of :: "block option \<Rightarrow> block option \<Rightarrow> cl_object option \<Rightarrow> block option \<Rightarrow> u64 \<Rightarrow>
    block option \<Rightarrow> u32" where
  "n_fields_of ns setn key digest trid scan =
     opt_count ns + opt_count setn + opt_count key + opt_count digest + (if trid = 0 then 0 else 1) + opt_count scan"

text \<open>
  The buffer that a compile uses: the caller's, or a new one when that one is too small. A null
  caller's buffer is used as it is, so that the clearing faults. The flag says that it is new.
\<close>

definition pick_buf :: "malloc_env \<Rightarrow> block option \<Rightarrow> nat \<Rightarrow> nat \<Rightarrow> (block option \<times> bool) option" where
  "pick_buf env buf_r buf_sz_r msg_sz =
     (if buf_r \<noteq> None \<and> msg_sz > buf_sz_r
      then (case malloc env msg_sz of None \<Rightarrow> None | Some b \<Rightarrow> Some (Some b, True))
      else Some (buf_r, False))"

text \<open>
  \<open>cl_compile\<close>: the code, the buffer behind \<open>*buf_r\<close>, \<open>*buf_sz_r\<close> and what is stored in
  \<open>*d_ret\<close>. After a failure that frees the new buffer the pointer dangles: no buffer then.
\<close>

definition cl_compile :: "(block \<Rightarrow> block) \<Rightarrow> malloc_env \<Rightarrow> u32 \<Rightarrow> u32 \<Rightarrow> u32 \<Rightarrow> block option \<Rightarrow> block option \<Rightarrow>
    cl_object option \<Rightarrow> block option \<Rightarrow> cl_bin list option \<Rightarrow> cl_operator \<Rightarrow> cl_operation list option \<Rightarrow> nat \<Rightarrow>
    block option \<Rightarrow> nat \<Rightarrow> cl_write_parameters option \<Rightarrow> u64 \<Rightarrow> block option \<Rightarrow>
    (int \<times> block option \<times> nat \<times> block option) option" where
  "cl_compile rmd env info1 info2 info3 ns0 set0 key digest values operator operations n_values
      buf_r buf_sz_r w trid scan = do {
     ns \<leftarrow> opt_c_str ns0;
     setn \<leftarrow> opt_c_str set0;
     r \<leftarrow> ops_size values operations 0 n_values (30 + fields_size ns setn key digest trid scan);
     case r of Inl _ \<Rightarrow> Some (- 1, buf_r, buf_sz_r, None)
     | Inr msg_sz \<Rightarrow>
       (case pick_buf env buf_r buf_sz_r msg_sz of None \<Rightarrow> Some (- 1, buf_r, buf_sz_r, None)
        | Some (p, new) \<Rightarrow> do {
            buf \<leftarrow> p;
            buf \<leftarrow> memset0 buf 0 msg_sz;
            let (info2, generation) = write_policy w info2;
            let record_ttl = (case w of None \<Rightarrow> 0 | Some w \<Rightarrow> w_record_ttl w);
            let transaction_ttl = (case w of None \<Rightarrow> 0 | Some w \<Rightarrow> w_timeout_ms w);
            (buf, mf) \<leftarrow> cl_write_header buf msg_sz info1 info2 info3 generation record_ttl transaction_ttl
               (n_fields_of ns setn key digest trid scan) (of_nat n_values);
            f \<leftarrow> write_fields rmd buf mf ns setn key digest trid scan;
            case f of Inl _ \<Rightarrow> Some (- 1, if new then None else Some buf, msg_sz, None)
            | Inr (buf, op, d_ret) \<Rightarrow> do {
                buf \<leftarrow> write_ops values operator operations 0 n_values buf op;
                Some (0, Some buf, msg_sz, d_ret) } }) }"

definition compile_digests :: "malloc_env \<Rightarrow> u32 \<Rightarrow> u32 \<Rightarrow> u32 \<Rightarrow> block option \<Rightarrow> block list \<Rightarrow>
    cl_bin list option \<Rightarrow> cl_operator \<Rightarrow> cl_operation list option \<Rightarrow> nat \<Rightarrow>
    block option \<Rightarrow> nat \<Rightarrow> cl_write_parameters option \<Rightarrow> (int \<times> block option \<times> nat) option" where
  "compile_digests env info1 info2 info3 ns0 digests values operator operations n_values buf_r buf_sz_r w = do {
     ns \<leftarrow> opt_c_str ns0;
     r \<leftarrow> ops_size values operations 0 n_values
            (30 + (case ns of None \<Rightarrow> 0 | Some s \<Rightarrow> length s + 5) + (5 + 1 + 20 * length digests));
     case r of Inl _ \<Rightarrow> Some (- 1, buf_r, buf_sz_r)
     | Inr msg_sz \<Rightarrow>
       (case pick_buf env buf_r buf_sz_r msg_sz of None \<Rightarrow> Some (- 1, buf_r, buf_sz_r)
        | Some (p, new) \<Rightarrow> do {
            buf \<leftarrow> p;
            buf \<leftarrow> memset0 buf 0 msg_sz;
            let (info2, generation) = write_policy w info2;
            let record_ttl = (case w of None \<Rightarrow> 0 | Some w \<Rightarrow> w_record_ttl w);
            let transaction_ttl = (case w of None \<Rightarrow> 0 | Some w \<Rightarrow> w_timeout_ms w);
            (buf, mf) \<leftarrow> cl_write_header buf msg_sz info1 info2 info3 generation record_ttl transaction_ttl 2 0;
            (buf, op) \<leftarrow> write_fields_digests buf mf ns digests;
            buf \<leftarrow> write_ops values operator operations 0 n_values buf op;
            Some (0, Some buf, msg_sz) }) }"

text \<open>The message of a request: header, fields, operations, and the padding by the over-count.\<close>

definition msg_size :: "block option \<Rightarrow> block option \<Rightarrow> cl_object option \<Rightarrow> block option \<Rightarrow> u64 \<Rightarrow>
    block option \<Rightarrow> (cl_operator \<times> cl_bin) list \<Rightarrow> nat" where
  "msg_size ns setn key digest trid scan l =
     30 + fields_size ns setn key digest trid scan + length (ops_bytes l)"

definition padding :: "block option \<Rightarrow> block option \<Rightarrow> nat" where
  "padding digest scan = (if digest = None then 0 else 1) + (if scan = None then 0 else 1)"

definition request_bytes :: "u32 \<Rightarrow> u32 \<Rightarrow> u32 \<Rightarrow> block option \<Rightarrow> block option \<Rightarrow>
    cl_object option \<Rightarrow> block option \<Rightarrow> (cl_operator \<times> cl_bin) list \<Rightarrow> cl_write_parameters option \<Rightarrow> u64 \<Rightarrow>
    block option \<Rightarrow> block" where
  "request_bytes info1 info2 info3 ns setn key digest l w trid scan =
     header_bytes (msg_size ns setn key digest trid scan l) info1 (fst (write_policy w info2)) info3
       (snd (write_policy w info2)) (case w of None \<Rightarrow> 0 | Some w \<Rightarrow> w_record_ttl w)
       (case w of None \<Rightarrow> 0 | Some w \<Rightarrow> w_timeout_ms w)
       (n_fields_of ns setn key digest trid scan) (of_nat (length l)) @
     fields_bytes ns setn key digest trid scan @ ops_bytes l @ replicate (padding digest scan) 0"

definition request_ok :: "cl_object option \<Rightarrow> block option \<Rightarrow> block option \<Rightarrow> (cl_operator \<times> cl_bin) list \<Rightarrow> bool" where
  "request_ok key digest scan l \<longleftrightarrow> (\<forall>k. key = Some k \<longrightarrow> key_ok k) \<and> (\<forall>d. digest = Some d \<longrightarrow> length d = 20) \<and>
     (\<forall>s. scan = Some s \<longrightarrow> length s = 2) \<and> (\<forall>a \<in> set l. arg_ok a)"

lemma fields_size_eq:
  assumes "request_ok key digest scan l"
  shows "fields_size ns setn key digest trid scan =
    length (fields_bytes ns setn key digest trid scan) + padding digest scan"
proof -
  have k: "\<And>k. key = Some k \<Longrightarrow> length (key_bytes k) = Suc (o_sz k)"
    using assms length_key_bytes by (auto simp: request_ok_def)
  show ?thesis using assms
    by (cases ns; cases setn; cases key; cases digest; cases scan)
      (auto simp: k fields_size_def fields_bytes_def opt_field_simps padding_def request_ok_def)
qed

lemma length_request_bytes:
  assumes "request_ok key digest scan l"
  shows "length (request_bytes i1 i2 i3 ns setn key digest l w trid scan) = msg_size ns setn key digest trid scan l"
  using fields_size_eq [OF assms] by (simp add: request_bytes_def msg_size_def)

lemma ov_append: "length a = off \<Longrightarrow> length x \<le> length r \<Longrightarrow> ov (a @ r) off x = a @ x @ drop (length x) r"
  by (simp add: ov_def)

lemma pick_buf_ok:
  assumes "n \<le> length b" and "n < m \<longrightarrow> env \<noteq> None"
  shows "\<exists>b' new. pick_buf env (Some b) n m = Some (Some b', new) \<and> m \<le> length b' \<and> (\<not> n < m \<longrightarrow> b' = b)"
  using assms by (cases env) (auto simp: pick_buf_def)

lemma cl_compile_ok:
  assumes ns: "opt_c_str ns0 = Some ns" and st: "opt_c_str set0 = Some setn"
    and l: "l = op_args values operator operations"
    and ok: "request_ok key digest scan l"
    and sz: "msg_size ns setn key digest trid scan l \<le> length b" "length b < 2 ^ 32"
    and p: "pick_buf env buf_r buf_sz_r (msg_size ns setn key digest trid scan l) = Some (Some b, new)"
  shows "cl_compile rmd env i1 i2 i3 ns0 set0 key digest values operator operations (length l) buf_r buf_sz_r w trid scan =
    Some (0, Some (request_bytes i1 i2 i3 ns setn key digest l w trid scan @
        drop (msg_size ns setn key digest trid scan l) b), msg_size ns setn key digest trid scan l,
      d_ret_of rmd setn key digest)"
proof -
  let ?M = "msg_size ns setn key digest trid scan l"
  let ?F = "fields_bytes ns setn key digest trid scan" and ?O = "ops_bytes l"
  let ?H = "header_bytes ?M i1 (fst (write_policy w i2)) i3 (snd (write_policy w i2))
       (case w of None \<Rightarrow> 0 | Some w \<Rightarrow> w_record_ttl w) (case w of None \<Rightarrow> 0 | Some w \<Rightarrow> w_timeout_ms w)
       (n_fields_of ns setn key digest trid scan) (of_nat (length l))"
  let ?R = "replicate (?M - 30) 0 @ drop ?M b" and ?P = "padding digest scan"
  note fs = fields_size_eq [OF ok, of ns setn trid]
  have M: "?M = 30 + length ?F + ?P + length ?O" using fs by (simp add: msg_size_def)
  have os: "ops_size values operations 0 (length l) (30 + fields_size ns setn key digest trid scan) = Some (Inr ?M)"
    using ops_size_ok [of 0 "length l" "values" operator operations] ok l by (simp add: request_ok_def msg_size_def)
  have ms: "memset0 b 0 ?M = Some (replicate 30 0 @ ?R)"
    using sz(1) M by (simp add: memset0_def replicate_add [symmetric])
  have hd: "cl_write_header (replicate 30 0 @ ?R) ?M i1 (fst (write_policy w i2)) i3 (snd (write_policy w i2))
       (case w of None \<Rightarrow> 0 | Some w \<Rightarrow> w_record_ttl w) (case w of None \<Rightarrow> 0 | Some w \<Rightarrow> w_timeout_ms w)
       (n_fields_of ns setn key digest trid scan) (of_nat (length l)) = Some (?H @ ?R, 30)"
    by (rule cl_write_header_at) simp
  have len: "length (?H @ ?R) = length b" using sz(1) M by simp
  have wf: "write_fields rmd (?H @ ?R) 30 ns setn key digest trid scan =
      Some (Inr (ov (?H @ ?R) 30 ?F, 30 + length ?F, d_ret_of rmd setn key digest))"
    by (rule write_fields_ok) (use ok sz M len in \<open>auto simp: request_ok_def\<close>)
  have wo: "write_ops values operator operations 0 (length l) (ov (?H @ ?R) 30 ?F) (30 + length ?F) =
      Some (ov (ov (?H @ ?R) 30 ?F) (30 + length ?F) ?O)"
    using write_ops_ok [of 0 "length l" "values" operator operations "30 + length ?F" "ov (?H @ ?R) 30 ?F"]
      ok l sz M len by (simp add: request_ok_def)
  have "ov (ov (?H @ ?R) 30 ?F) (30 + length ?F) ?O = ov (?H @ ?R) 30 (?F @ ?O)"
    using M sz(1) len by (intro ov_ov) auto
  also have "\<dots> = ?H @ (?F @ ?O) @ drop (length (?F @ ?O)) ?R"
    by (rule ov_append) (use M in auto)
  also have "drop (length (?F @ ?O)) ?R = replicate ?P 0 @ drop ?M b"
    using M by simp
  finally have fin: "ov (ov (?H @ ?R) 30 ?F) (30 + length ?F) ?O =
      request_bytes i1 i2 i3 ns setn key digest l w trid scan @ drop ?M b"
    by (simp add: request_bytes_def)
  show ?thesis unfolding cl_compile_def ns st bind.bind_lunit os sum.case p option.case prod.case ms Let_def
    by (simp add: case_prod_beta hd wf wo fin)
qed

lemma cl_compile_layout:
  assumes "opt_c_str ns0 = Some ns" and "opt_c_str set0 = Some setn"
    and "request_ok key digest scan (op_args values operator operations)"
    and "buf_sz_r \<le> length b" and "length b < 2 ^ 32"
    and "msg_size ns setn key digest trid scan (op_args values operator operations) < 2 ^ 32"
    and "buf_sz_r < msg_size ns setn key digest trid scan (op_args values operator operations) \<longrightarrow> env \<noteq> None"
  shows "\<exists>rest. cl_compile rmd env i1 i2 i3 ns0 set0 key digest values operator operations
      (length (op_args values operator operations)) (Some b) buf_sz_r w trid scan =
    Some (0, Some (request_bytes i1 i2 i3 ns setn key digest (op_args values operator operations) w trid scan @ rest),
      msg_size ns setn key digest trid scan (op_args values operator operations), d_ret_of rmd setn key digest)"
proof -
  let ?l = "op_args values operator operations"
  let ?M = "msg_size ns setn key digest trid scan ?l"
  obtain b' new where p: "pick_buf env (Some b) buf_sz_r ?M = Some (Some b', new)" "?M \<le> length b'"
    and s: "length b' < 2 ^ 32"
  proof (cases "buf_sz_r < ?M")
    case True
    then show ?thesis using assms(6,7) that by (auto simp: pick_buf_def)
  next
    case False
    then show ?thesis using assms(4,5) that by (auto simp: pick_buf_def)
  qed
  show ?thesis using cl_compile_ok [OF assms(1,2) refl assms(3) p(2) s p(1)] by blast
qed

text \<open>C13: A request is the header, the fields, the operations and nothing but zero padding. When
  the buffer is the caller's and is as long as the caller says, or the allocation succeeds,
  \<open>cl_compile\<close> writes the whole message without a store out of the buffer and reports the digest
  that the node is chosen by.\<close>

theorem compile_layout:
  assumes "opt_c_str ns0 = Some ns" and "opt_c_str set0 = Some setn"
    and "request_ok key digest scan (op_args values operator operations)"
    and "buf_sz_r \<le> length b" and "length b < 2 ^ 32"
    and "msg_size ns setn key digest trid scan (op_args values operator operations) < 2 ^ 32"
    and "buf_sz_r < msg_size ns setn key digest trid scan (op_args values operator operations) \<longrightarrow> env \<noteq> None"
  shows "\<exists>rest. cl_compile rmd env i1 i2 i3 ns0 set0 key digest values operator operations
      (length (op_args values operator operations)) (Some b) buf_sz_r w trid scan =
    Some (0, Some (request_bytes i1 i2 i3 ns setn key digest (op_args values operator operations) w trid scan @ rest),
      msg_size ns setn key digest trid scan (op_args values operator operations), d_ret_of rmd setn key digest)"
  using assms by (rule cl_compile_layout)

definition sample_key :: cl_object where
  "sample_key = citrusleaf_object_init_int 7"

definition sample_bin :: cl_bin where
  "sample_bin = \<lparr>bin_name = [97, 98] @ replicate 30 0, bin_object = citrusleaf_object_init_int 5\<rparr>"

lemma sample_bin_wf: "bin_wf sample_bin" "bin_str sample_bin = [97, 98]" "object_len (bin_object sample_bin) = 8"
  "o_type (bin_object sample_bin) = CL_INT"
  by (simp_all add: sample_bin_def bin_wf_def bin_str_def object_wf_def object_len_def citrusleaf_object_init_int_def)

lemma sample_request_ok:
  "request_ok (Some sample_key) None None (op_args (Some [sample_bin]) CL_OP_WRITE None)"
  by (simp add: request_ok_def key_ok_def sample_key_def citrusleaf_object_init_int_def object_wf_def op_args_def
    arg_ok_def op_ok_def sample_bin_wf)

lemma sample_msg_size:
  "msg_size (Some [116]) None (Some sample_key) None 0 None (op_args (Some [sample_bin]) CL_OP_WRITE None) = 68"
  by (simp add: msg_size_def fields_size_def ops_bytes_def op_args_def arg_bytes_def length_op_bytes op_ok_def sample_bin_wf
    sample_key_def citrusleaf_object_init_int_def)

theorem compile_layout_witness:
  "\<exists>rest. cl_compile id (Some (\<lambda>_. 0)) 0 1 0 (Some [116, 0]) None (Some sample_key) None (Some [sample_bin]) CL_OP_WRITE None
      (length (op_args (Some [sample_bin]) CL_OP_WRITE None)) (Some (replicate 16 0)) 16 None 0 None =
    Some (0, Some (request_bytes 0 1 0 (Some [116]) None (Some sample_key) None
        (op_args (Some [sample_bin]) CL_OP_WRITE None) None 0 None @ rest),
      msg_size (Some [116]) None (Some sample_key) None 0 None (op_args (Some [sample_bin]) CL_OP_WRITE None),
      d_ret_of id None (Some sample_key) None)"
  by (rule compile_layout) (simp_all add: opt_c_str_def c_str_def load_def sample_request_ok sample_msg_size)

subsection \<open>The digest of a key\<close>

text \<open>
  \<open>citrusleaf_calculate_digest\<close>; the array \<open>k\<close> on the stack has indeterminate bytes \<open>g\<close>.
\<close>

definition citrusleaf_calculate_digest ::
  "(block \<Rightarrow> block) \<Rightarrow> (nat \<Rightarrow> u8) \<Rightarrow> block option \<Rightarrow> cl_object \<Rightarrow> (int \<times> block option) option" where
  "citrusleaf_calculate_digest rmd g set0 key = do {
     setn \<leftarrow> (case set0 of None \<Rightarrow> Some [] | Some s \<Rightarrow> c_str s);
     let k = map g [0..<o_sz key + 1];
     r \<leftarrow> (if o_type key = CL_STR \<or> is_blob (o_type key) then do {
            k \<leftarrow> store k 0 [ucast (o_type key)];
            p \<leftarrow> u_ptr (o_u key);
            x \<leftarrow> load p 0 (o_sz key);
            k \<leftarrow> store k 1 x;
            Some (Some k) }
          else if o_type key = CL_INT then do {
            k \<leftarrow> store k 0 [ucast (o_type key)];
            i \<leftarrow> u_i64 (o_u key);
            (n, k) \<leftarrow> value_to_op_int i k 1;
            Some (Some k) }
          else Some None);
     case r of None \<Rightarrow> Some (- 1, None)
     | Some k \<Rightarrow> do {
         x \<leftarrow> load k 0 (o_sz key + 1);
         Some (0, Some (cf_digest_compute2 rmd setn x)) } }"

lemma calculate_digest_ok:
  assumes k: "key_ok key" and st: "opt_c_str set0 = Some setn"
  shows "citrusleaf_calculate_digest rmd g set0 key =
    Some (0, Some (cf_digest_compute2 rmd (case setn of None \<Rightarrow> [] | Some s \<Rightarrow> s) (key_bytes key)))"
proof -
  let ?k0 = "map g [0..<o_sz key + 1]" and ?t = "ucast (o_type key) :: u8"
  have s: "(case set0 of None \<Rightarrow> Some [] | Some s \<Rightarrow> c_str s) = Some (case setn of None \<Rightarrow> [] | Some s \<Rightarrow> s)"
    using st by (cases set0) (auto simp: opt_c_str_def)
  have s0: "store ?k0 0 [?t] = Some (?t # map g [1..<o_sz key + 1])"
    by (simp add: store_def upt_conv_Cons del: upt_Suc)
  have s1: "store (?t # map g [1..<o_sz key + 1]) 1 x = Some (?t # x)" if "length x = o_sz key" for x
    using that by (simp add: store_def del: upt_Suc)
  have ld: "load (?t # x) 0 (o_sz key + 1) = Some (?t # x)" if "length x = o_sz key" for x
    using that by (simp add: load_def)
  from k consider (int) i where "o_type key = CL_INT" "o_sz key = 8" "o_u key = U_i64 i"
    | (ptr) b where "o_type key = CL_STR \<or> is_blob (o_type key)" "o_u key = U_ptr b" "o_sz key \<le> length b"
    by (auto simp: key_ok_def object_wf_def)
  then show ?thesis
  proof cases
    case int
    then have "key_bytes key = ?t # word_be 8 i" by (simp add: key_bytes_def)
    moreover have "length (word_be 8 i) = o_sz key" using int by simp
    ultimately show ?thesis unfolding citrusleaf_calculate_digest_def s Let_def s0
      using int(1,3) s1 ld by (simp add: value_to_op_int_def del: length_word_le)
  next
    case ptr
    then have "key_bytes key = ?t # take (o_sz key) b" by (simp add: key_bytes_def object_data_def)
    moreover have "length (take (o_sz key) b) = o_sz key" using ptr by simp
    ultimately show ?thesis unfolding citrusleaf_calculate_digest_def s Let_def s0
      using ptr s1 ld by (simp add: load_def del: length_take)
  qed
qed

text \<open>C30: The two copies of the key layout are in step: the digest that \<open>cl_compile\<close> reports for a
  request by key (and by which the node is chosen) is the one that \<open>citrusleaf_calculate_digest\<close>
  computes for the same set and key.\<close>

theorem compile_digest_in_sync:
  assumes "opt_c_str ns0 = Some ns" and "opt_c_str set0 = Some setn"
    and "request_ok (Some key) None scan (op_args values operator operations)"
    and "buf_sz_r \<le> length b" and "length b < 2 ^ 32"
    and "msg_size ns setn (Some key) None trid scan (op_args values operator operations) < 2 ^ 32"
    and "buf_sz_r < msg_size ns setn (Some key) None trid scan (op_args values operator operations) \<longrightarrow> env \<noteq> None"
  shows "\<exists>buf sz d. cl_compile rmd env i1 i2 i3 ns0 set0 (Some key) None values operator operations
      (length (op_args values operator operations)) (Some b) buf_sz_r w trid scan = Some (0, buf, sz, Some d) \<and>
    citrusleaf_calculate_digest rmd g set0 key = Some (0, Some d)"
proof -
  let ?l = "op_args values operator operations"
  let ?M = "msg_size ns setn (Some key) None trid scan ?l"
  obtain b' new where p: "pick_buf env (Some b) buf_sz_r ?M = Some (Some b', new)" "?M \<le> length b'"
    and s: "length b' < 2 ^ 32"
  proof (cases "buf_sz_r < ?M")
    case True
    then show ?thesis using assms(6,7) that by (auto simp: pick_buf_def)
  next
    case False
    then show ?thesis using assms(4,5) that by (auto simp: pick_buf_def)
  qed
  have k: "key_ok key" using assms(3) by (simp add: request_ok_def)
  show ?thesis
    using cl_compile_ok [OF assms(1,2) refl assms(3) p(2) s p(1), of rmd i1 i2 i3 w]
      calculate_digest_ok [OF k assms(2), of rmd g] by (simp add: d_ret_of_def)
qed

theorem compile_digest_in_sync_witness:
  "\<exists>buf sz d. cl_compile id None 1 0 0 (Some [116, 0]) (Some [115, 0]) (Some sample_key) None (Some []) CL_OP_READ None
      (length (op_args (Some []) CL_OP_READ None)) (Some (replicate 64 0)) 64 None 0 None = Some (0, buf, sz, Some d) \<and>
    citrusleaf_calculate_digest id (\<lambda>_. 0) (Some [115, 0]) sample_key = Some (0, Some d)"
  by (rule compile_digest_in_sync [where ns = "Some [116]" and setn = "Some [115]"])
    (simp_all add: opt_c_str_def c_str_def load_def request_ok_def key_ok_def sample_key_def
      citrusleaf_object_init_int_def object_wf_def op_args_def msg_size_def fields_size_def ops_bytes_def)

subsection \<open>Reading a value\<close>

text \<open>\<open>op_to_value_int\<close>: the code and what is stored in \<open>*value\<close>.\<close>

definition op_to_value_int :: "block \<Rightarrow> nat \<Rightarrow> int \<Rightarrow> (int \<times> u64 option) option" where
  "op_to_value_int buf p sz =
     (if sz > 8 then Some (- 1, None)
      else if sz = 8 then do { x \<leftarrow> load buf p 8; Some (0, Some (le_word (rev x))) }
      else if sz = 0 then Some (0, Some 0)
      else do {
        b0 \<leftarrow> load_u8 buf p;
        if sz = 1 \<and> b0 < 0x7f then Some (0, Some (ucast b0))
        else if b0 AND 0x80 \<noteq> 0 then do {
          lg_buf \<leftarrow> store (replicate 8 0) 0 (replicate (nat (8 - sz)) 0xff);
          x \<leftarrow> load buf p (nat sz);
          lg_buf \<leftarrow> store lg_buf (nat (8 - sz)) x;
          Some (0, Some (push_bit 56 (ucast b0))) }
        else do {
          x \<leftarrow> load buf p (nat sz);
          Some (0, Some (fold (\<lambda>b v. push_bit 8 v OR ucast b) x 0)) } })"

definition set_object :: "malloc_env \<Rightarrow> block \<Rightarrow> nat \<Rightarrow> cl_object \<Rightarrow> (int \<times> cl_object) option" where
  "set_object env buf op obj = do {
     pt \<leftarrow> load_u8 buf (op + 5);
     let obj = obj\<lparr>o_type := ucast pt\<rparr>;
     if o_type obj = CL_NULL then Some (0, obj\<lparr>o_sz := 0, o_free := False\<rparr>)
     else if o_type obj = CL_INT then do {
       p \<leftarrow> cl_msg_op_get_value_p buf op;
       sz \<leftarrow> cl_msg_op_get_value_sz buf op;
       (rv, v) \<leftarrow> op_to_value_int buf p (sint sz);
       let obj = obj\<lparr>o_sz := 8, o_free := False\<rparr>;
       Some (rv, case v of None \<Rightarrow> obj | Some i \<Rightarrow> obj\<lparr>o_u := U_i64 i\<rparr>) }
     else if o_type obj = CL_STR then do {
       sz \<leftarrow> cl_msg_op_get_value_sz buf op;
       let obj = obj\<lparr>o_sz := unat sz\<rparr>;
       case malloc env (unat sz + 1) of None \<Rightarrow> Some (- 1, obj\<lparr>o_u := U_none, o_free := False\<rparr>)
       | Some m \<Rightarrow> do {
           p \<leftarrow> cl_msg_op_get_value_p buf op;
           x \<leftarrow> load buf p (unat sz);
           m \<leftarrow> store m 0 x;
           m \<leftarrow> store m (unat sz) [0];
           Some (0, obj\<lparr>o_u := U_ptr m, o_free := True\<rparr>) } }
     else if is_blob (o_type obj) then do {
       sz \<leftarrow> cl_msg_op_get_value_sz buf op;
       let obj = obj\<lparr>o_sz := unat sz\<rparr>;
       case malloc env (unat sz) of None \<Rightarrow> Some (- 1, obj\<lparr>o_u := U_none, o_free := False\<rparr>)
       | Some m \<Rightarrow> do {
           p \<leftarrow> cl_msg_op_get_value_p buf op;
           x \<leftarrow> load buf p (unat sz);
           m \<leftarrow> store m 0 x;
           Some (0, obj\<lparr>o_u := U_ptr m, o_free := True\<rparr>) } }
     else Some (- 1, obj) }"

text \<open>
  The two ways to deliver an operation of a response: into the bin of that name (compared over
  the length of the name on the wire only), or into a given bin.
\<close>

fun find_value :: "block \<Rightarrow> cl_bin list \<Rightarrow> nat \<Rightarrow> nat option option" where
  "find_value name [] i = Some None"
| "find_value name (v # vs) i = do {
     x \<leftarrow> load (bin_name v) 0 (length name);
     if x = name then Some (Some i) else find_value name vs (Suc i) }"

definition op_name :: "block \<Rightarrow> nat \<Rightarrow> block option" where
  "op_name buf op = do { n \<leftarrow> load_u8 buf (op + 7); load buf (op + 8) (unat n) }"

definition set_value_search :: "malloc_env \<Rightarrow> block \<Rightarrow> nat \<Rightarrow> cl_bin list \<Rightarrow> (int \<times> cl_bin list) option" where
  "set_value_search env buf op values = do {
     name \<leftarrow> op_name buf op;
     r \<leftarrow> find_value name values 0;
     case r of None \<Rightarrow> Some (- 1, values)
     | Some i \<Rightarrow> do {
         (rv, ob) \<leftarrow> set_object env buf op (bin_object (values ! i));
         Some (0, values[i := (values ! i)\<lparr>bin_object := ob\<rparr>]) } }"

definition cl_set_value_particular :: "malloc_env \<Rightarrow> block \<Rightarrow> nat \<Rightarrow> cl_bin \<Rightarrow> cl_bin option" where
  "cl_set_value_particular env buf op value = do {
     n \<leftarrow> load_u8 buf (op + 7);
     if unat n > 32 then Some value
     else do {
       name \<leftarrow> load buf (op + 8) (unat n);
       nm \<leftarrow> store (bin_name value) 0 name;
       nm \<leftarrow> store nm (unat n) [0];
       (rv, ob) \<leftarrow> set_object env buf op (bin_object value);
       Some (value\<lparr>bin_name := nm, bin_object := ob\<rparr>) } }"

subsection \<open>Parsing a response\<close>

text \<open>
  What \<open>cl_parse\<close> reads and writes through its arguments. The number of values and the pointers
  may be null; \<open>*values_r\<close> null is no bins. Allocations: \<open>arr\<close> is the array of bins or
  operations (of indeterminate content), \<open>envs i\<close> the value of operation \<open>i\<close>.
\<close>

record parse_args =
  pa_buf :: block
  pa_values :: "cl_bin list option"
  pa_operations :: "cl_operation list option"
  pa_n_values :: "nat option"
  pa_trid :: "u64 option"
  pa_setname :: "block option"

text \<open>The loop over the fields; the bound tested never moves.\<close>

fun parse_fields :: "nat \<Rightarrow> nat \<Rightarrow> nat \<Rightarrow> parse_args \<Rightarrow> (int \<times> nat \<times> parse_args) option" where
  "parse_fields buf_len 0 mf s = Some (0, mf, s)"
| "parse_fields buf_len (Suc n) mf s =
     (if buf_len < 5 then Some (- 1, mf, s)
      else do {
        buf \<leftarrow> cl_msg_swap_field (pa_buf s) mf;
        let s = s\<lparr>pa_buf := buf\<rparr>;
        t \<leftarrow> load_u8 buf (mf + 4);
        s \<leftarrow> (if t = CL_MSG_FIELD_TYPE_TRID then do {
               x \<leftarrow> load buf (mf + 5) 8;
               Some (s\<lparr>pa_trid := map_option (\<lambda>_. le_word (rev x)) (pa_trid s)\<rparr>) }
             else if t = CL_MSG_FIELD_TYPE_SET then
               (case pa_setname s of None \<Rightarrow> Some s
                | Some nm \<Rightarrow> do {
                    sz \<leftarrow> load_u32 buf mf;
                    x \<leftarrow> load buf (mf + 5) (unat (sz - 1));
                    nm \<leftarrow> store nm 0 x;
                    nm \<leftarrow> store nm (unat (sz - 1)) [0];
                    Some (s\<lparr>pa_setname := Some nm\<rparr>) })
             else Some s);
        mf' \<leftarrow> cl_msg_field_get_next buf mf;
        parse_fields buf_len n mf' s })"

text \<open>
  The loops over the operations, \<open>base\<close> the offset behind the fields: into a new array, or by
  search in the array of the caller.
\<close>

fun parse_new :: "nat \<Rightarrow> nat \<Rightarrow> (nat \<Rightarrow> malloc_env) \<Rightarrow> nat \<Rightarrow> nat \<Rightarrow> block \<Rightarrow> nat \<Rightarrow> cl_bin list \<Rightarrow>
    (int \<times> block \<times> cl_bin list) option" where
  "parse_new buf_len base envs i 0 buf op bins = Some (0, buf, bins)"
| "parse_new buf_len base envs i (Suc n) buf op bins =
     (if buf_len < base + 8 then Some (- 1, buf, bins)
      else do {
        buf \<leftarrow> cl_msg_swap_op buf op;
        v \<leftarrow> (if i < length bins then Some (bins ! i) else None);
        v \<leftarrow> cl_set_value_particular (envs i) buf op v;
        op \<leftarrow> cl_msg_op_get_next buf op;
        parse_new buf_len base envs (Suc i) n buf op (bins[i := v]) })"

fun parse_search :: "nat \<Rightarrow> nat \<Rightarrow> (nat \<Rightarrow> malloc_env) \<Rightarrow> nat \<Rightarrow> nat \<Rightarrow> block \<Rightarrow> nat \<Rightarrow> cl_bin list \<Rightarrow>
    (int \<times> block \<times> cl_bin list) option" where
  "parse_search buf_len base envs i 0 buf op bins = Some (0, buf, bins)"
| "parse_search buf_len base envs i (Suc n) buf op bins =
     (if buf_len < base + 8 then Some (- 1, buf, bins)
      else do {
        buf \<leftarrow> cl_msg_swap_op buf op;
        (rv, bins) \<leftarrow> set_value_search (envs i) buf op bins;
        op \<leftarrow> cl_msg_op_get_next buf op;
        parse_search buf_len base envs (Suc i) n buf op bins })"

text \<open>The bins that both paths work on, and their return to the caller.\<close>

definition bins_of :: "parse_args \<Rightarrow> cl_bin list" where
  "bins_of s = (case pa_values s of Some vs \<Rightarrow> vs
     | None \<Rightarrow> (case pa_operations s of Some os \<Rightarrow> map op_bin os | None \<Rightarrow> []))"

definition put_bins :: "parse_args \<Rightarrow> cl_bin list \<Rightarrow> parse_args" where
  "put_bins s bins = (case pa_values s of Some vs \<Rightarrow> s\<lparr>pa_values := Some bins\<rparr>
     | None \<Rightarrow> s\<lparr>pa_operations := map_option (\<lambda>os. map2 (\<lambda>q b. q\<lparr>op_bin := b\<rparr>) os bins) (pa_operations s)\<rparr>)"

definition alloc_bins :: "(nat \<Rightarrow> cl_operation) option \<Rightarrow> nat \<Rightarrow> parse_args \<Rightarrow> parse_args option" where
  "alloc_bins arr n s = (case arr of None \<Rightarrow> None
     | Some g \<Rightarrow>
         (case pa_values s of
            Some _ \<Rightarrow> Some (s\<lparr>pa_values := Some (map (op_bin \<circ> g) [0..<n]), pa_n_values := Some n\<rparr>)
          | None \<Rightarrow> Some (s\<lparr>pa_operations := Some (map g [0..<n]), pa_n_values := Some n\<rparr>)))"

definition cl_parse :: "(nat \<Rightarrow> malloc_env) \<Rightarrow> (nat \<Rightarrow> cl_operation) option \<Rightarrow> nat \<Rightarrow> nat \<Rightarrow> nat \<Rightarrow> parse_args \<Rightarrow>
    (int \<times> parse_args) option" where
  "cl_parse envs arr n_fields n_ops buf_len s = do {
     (rv, base, s) \<leftarrow> parse_fields buf_len n_fields 0 s;
     if rv \<noteq> 0 then Some (rv, s)
     else (case pa_n_values s of None \<Rightarrow> Some (0, s)
       | Some n_values \<Rightarrow>
           if pa_values s = None \<and> pa_operations s = None then Some (0, s)
           else if n_ops > n_values then
             (case alloc_bins arr n_ops s of None \<Rightarrow> Some (- 1, s)
              | Some s \<Rightarrow> do {
                  (rv, buf, bins) \<leftarrow> parse_new buf_len base envs 0 n_ops (pa_buf s) base (bins_of s);
                  Some (rv, put_bins (s\<lparr>pa_buf := buf\<rparr>) bins) })
           else do {
             (rv, buf, bins) \<leftarrow> parse_search buf_len base envs 0 n_ops (pa_buf s) base (bins_of s);
             Some (rv, put_bins (s\<lparr>pa_buf := buf\<rparr>) bins) }) }"

subsection \<open>Reading back what was written\<close>

lemma le_word_rev_word_be [simp]: "le_word (rev (word_be 8 (i :: u64))) = i"
  by (simp add: word_be_def le_word_word_le)

lemma op_to_value_int_8:
  "length a = p \<Longrightarrow> op_to_value_int (a @ word_be 8 (i :: u64) @ c) p 8 = Some (0, Some i)"
  by (simp add: op_to_value_int_def load_at)

lemma object_type_byte: "object_wf ob \<Longrightarrow> ucast (ucast (o_type ob) :: u8) = o_type ob"
  by (auto simp: object_wf_def is_blob_def cl_types)

text \<open>The fields of an operation in the middle of a buffer, after its size was swapped.\<close>

lemma op_bytes_reads:
  fixes c :: block
  assumes ok: "op_ok code b" and l: "length a = op"
    and sz: "8 + length (bin_str b) + object_len (bin_object b) < 2 ^ 31"
  defines "B \<equiv> a @ op_bytes_of (word_le 4 (op_size b)) code b @ c"
  shows "cl_msg_swap_op (a @ op_bytes code b @ c) op = Some B"
    and "load_u8 B (op + 5) = Some (ucast (o_type (bin_object b)))"
    and "load_u8 B (op + 7) = Some (of_nat (length (bin_str b)))"
    and "load B (op + 8) (length (bin_str b)) = Some (bin_str b)"
    and "cl_msg_op_get_value_p B op = Some (op + 8 + length (bin_str b))"
    and "cl_msg_op_get_value_sz B op = Some (of_nat (object_len (bin_object b)))"
    and "load B (op + 8 + length (bin_str b)) (object_len (bin_object b)) = Some (value_bytes code (bin_object b))"
    and "cl_msg_op_get_next B op = Some (op + length (op_bytes code b))"
    and "unat (of_nat (length (bin_str b)) :: u8) = length (bin_str b)"
    and "unat (of_nat (object_len (bin_object b)) :: u32) = object_len (bin_object b)"
    and "sint (of_nat (object_len (bin_object b)) :: u32) = int (object_len (bin_object b))"
proof -
  let ?s = "word_le 4 (op_size b)" and ?n = "length (bin_str b)" and ?V = "value_bytes code (bin_object b)"
  let ?t = "ucast (o_type (bin_object b)) :: u8" and ?N = "of_nat (length (bin_str b)) :: u8"
  have wf: "bin_wf b" using ok by (simp add: op_ok_def)
  note bs = bin_str_props [OF wf]
  have B: "B = a @ ?s @ [code, ?t, 0, ?N] @ bin_str b @ ?V @ c" by (simp add: B_def op_bytes_of_def)
  note h = op_head_stores [OF l length_word_le(1) [of 4 "op_size b"]]
  show N: "unat ?N = ?n" using bs(3) by (simp add: unat_of_nat)
  show O: "unat (of_nat (object_len (bin_object b)) :: u32) = object_len (bin_object b)"
    unfolding unat_of_nat using sz by (intro mod_less) simp
  show "sint (of_nat (object_len (bin_object b)) :: u32) = int (object_len (bin_object b))"
  proof -
    have u: "uint (of_nat (object_len (bin_object b)) :: u32) = int (object_len (bin_object b))"
      using O by (metis uint_nat)
    show ?thesis unfolding sint_uint u using sz by (intro signed_take_bit_int_eq_self) auto
  qed
  show "cl_msg_swap_op (a @ op_bytes code b @ c) op = Some B"
  proof -
    have "cl_msg_swap_op (a @ word_be 4 (op_size b) @ R) op = Some (a @ ?s @ R)" for R
      unfolding cl_msg_swap_op_def swap_at [OF l length_word_le(2)] by (simp add: word_be_def)
    then show ?thesis by (simp add: B_def op_bytes_def op_bytes_of_def)
  qed
  show "load_u8 B (op + 5) = Some ?t"
    using load_at [of "a @ ?s @ [code]" "op + 5" "[?t]" 1 "[0, ?N] @ bin_str b @ ?V @ c"] l
    by (simp add: load_u8_def B)
  show l7: "load_u8 B (op + 7) = Some ?N" unfolding B by (rule h(7))
  show "load B (op + 8) ?n = Some (bin_str b)"
    using load_at [of "a @ ?s @ [code, ?t, 0, ?N]" "op + 8" "bin_str b" ?n "?V @ c"] l by (simp add: B)
  show "cl_msg_op_get_value_p B op = Some (op + 8 + ?n)"
    using l7 N by (simp add: cl_msg_op_get_value_p_def)
  have l4: "load_u32 B op = Some (op_size b)" unfolding B using h(8) by simp
  show "cl_msg_op_get_value_sz B op = Some (of_nat (object_len (bin_object b)))"
  proof -
    have "ucast ?N = (of_nat ?n :: u32)" using N by (metis of_nat_unat)
    then show ?thesis using l4 l7 by (simp add: cl_msg_op_get_value_sz_def op_size_def)
  qed
  show "load B (op + 8 + ?n) (object_len (bin_object b)) = Some ?V"
    using load_at [of "a @ ?s @ [code, ?t, 0, ?N] @ bin_str b" "op + 8 + ?n" ?V _ c] l length_value_bytes [OF ok]
    by (simp add: B)
  show "cl_msg_op_get_next B op = Some (op + length (op_bytes code b))"
  proof -
    have "unat (op_size b) = 4 + ?n + object_len (bin_object b)"
      unfolding op_size_def unat_of_nat using sz by (intro mod_less) simp
    then show ?thesis using l4 length_op_bytes [OF ok] by (simp add: cl_msg_op_get_next_def)
  qed
qed

text \<open>What a reader gets of an object: type, length, and the integer or the bytes.\<close>

definition decoded :: "cl_object \<Rightarrow> cl_object \<Rightarrow> bool" where
  "decoded d ob \<longleftrightarrow> o_type d = o_type ob \<and> o_sz d = object_len ob \<and> object_wf d \<and>
     (o_type ob = CL_INT \<longrightarrow> o_u d = o_u ob) \<and>
     (o_type ob \<noteq> CL_NULL \<longrightarrow> o_type ob \<noteq> CL_INT \<longrightarrow> object_data d = object_data ob)"

lemma set_object_ok:
  fixes c :: block
  assumes ok: "op_ok code b" and nc: "code \<noteq> CL_MSG_OP_MC_INCR" and l: "length a = op"
    and sz: "8 + length (bin_str b) + object_len (bin_object b) < 2 ^ 31"
  shows "\<exists>d. set_object (Some g) (a @ op_bytes_of (word_le 4 (op_size b)) code b @ c) op obj = Some (0, d) \<and>
    decoded d (bin_object b)"
proof -
  let ?ob = "bin_object b" and ?B = "a @ op_bytes_of (word_le 4 (op_size b)) code b @ c"
  note R = op_bytes_reads [OF ok l sz]
  have wf: "object_wf ?ob" using ok by (simp add: op_ok_def bin_wf_def)
  note ty = object_type_byte [OF wf]
  from wf consider (null) "o_type ?ob = CL_NULL"
    | (int) i where "o_type ?ob = CL_INT" "o_sz ?ob = 8" "o_u ?ob = U_i64 i"
    | (str) p where "o_type ?ob = CL_STR" "o_u ?ob = U_ptr p" "o_sz ?ob \<le> length p"
    | (blob) p where "is_blob (o_type ?ob)" "o_u ?ob = U_ptr p" "o_sz ?ob \<le> length p"
    by (auto simp: object_wf_def)
  then show ?thesis
  proof cases
    case null
    then show ?thesis using R(2) ty by (simp add: set_object_def Let_def decoded_def object_len_def object_wf_def)
  next
    case int
    then have ol: "object_len ?ob = 8" and V: "value_bytes code ?ob = word_be 8 i"
      by (simp_all add: object_len_def value_bytes_def)
    have "op_to_value_int ?B (op + 8 + length (bin_str b)) 8 = Some (0, Some i)"
      using R(7) unfolding ol V by (simp add: op_to_value_int_def)
    moreover have "sint (8 :: u32) = 8" by simp
    ultimately show ?thesis using R(2,5,6) ty int ol
      by (simp add: set_object_def Let_def decoded_def object_wf_def)
  next
    case str
    let ?n = "o_sz ?ob"
    have ol: "object_len ?ob = ?n" and V: "value_bytes code ?ob = take ?n p"
      using str by (simp_all add: object_len_def value_bytes_def object_data_def)
    have u: "unat (of_nat ?n :: u32) = ?n" using R(10) ol by simp
    have ld: "load ?B (op + 8 + length (bin_str b)) ?n = Some (take ?n p)" using R(7) unfolding ol V .
    have "store (map g [0..<?n + 1]) 0 (take ?n p) = Some (take ?n p @ [g ?n])" using str(3) by (simp add: store_def)
    moreover have "store (take ?n p @ [g ?n]) ?n [0] = Some (take ?n p @ [0])" using str(3) by (simp add: store_def)
    ultimately show ?thesis using R(2,5,6) ty str ol ld u
      by (simp add: set_object_def Let_def decoded_def object_wf_def object_data_def)
  next
    case blob
    let ?n = "o_sz ?ob"
    have ol: "object_len ?ob = ?n" and V: "value_bytes code ?ob = take ?n p"
      using blob nc by (simp_all add: object_len_def value_bytes_def object_data_def)
    have u: "unat (of_nat ?n :: u32) = ?n" using R(10) ol by simp
    have ld: "load ?B (op + 8 + length (bin_str b)) ?n = Some (take ?n p)" using R(7) unfolding ol V .
    have "store (map g [0..<?n]) 0 (take ?n p) = Some (take ?n p)" using blob(3) by (simp add: store_def)
    then show ?thesis using R(2,5,6) ty blob ol ld u
      by (simp add: set_object_def Let_def decoded_def object_wf_def object_data_def)
  qed
qed

lemma cl_set_value_particular_ok:
  fixes c :: block
  assumes ok: "op_ok code b" and nc: "code \<noteq> CL_MSG_OP_MC_INCR" and l: "length a = op"
    and sz: "8 + length (bin_str b) + object_len (bin_object b) < 2 ^ 31" and v: "length (bin_name v) = 32"
  shows "\<exists>v'. cl_set_value_particular (Some g) (a @ op_bytes_of (word_le 4 (op_size b)) code b @ c) op v = Some v' \<and>
    bin_wf v' \<and> bin_str v' = bin_str b \<and> decoded (bin_object v') (bin_object b)"
proof -
  let ?B = "a @ op_bytes_of (word_le 4 (op_size b)) code b @ c" and ?n = "length (bin_str b)"
  note R = op_bytes_reads [OF ok l sz]
  have wf: "bin_wf b" using ok by (simp add: op_ok_def)
  note bs = bin_str_props [OF wf]
  obtain d where d: "set_object (Some g) ?B op (bin_object v) = Some (0, d)" "decoded d (bin_object b)"
    using set_object_ok [OF ok nc l sz] by blast
  let ?N = "bin_str b @ 0 # drop (Suc ?n) (bin_name v)"
  have "store (bin_name v) 0 (bin_str b) = Some (bin_str b @ drop ?n (bin_name v))"
    using bs(3) v by (simp add: store_def)
  moreover have "store (bin_str b @ drop ?n (bin_name v)) ?n [0] = Some ?N"
    using bs(3) v by (simp add: store_def)
  moreover have "bin_str \<lparr>bin_name = ?N, bin_object = d\<rparr> = bin_str b"
    using bs(4) by (simp add: bin_str_def takeWhile_append2 takeWhile_tail)
  moreover have "bin_wf \<lparr>bin_name = ?N, bin_object = d\<rparr>"
    using d(2) bs(3) v by (simp add: bin_wf_def decoded_def)
  ultimately show ?thesis using R(3,4,9) bs(3) d
    by (intro exI [of _ "v\<lparr>bin_name := ?N, bin_object := d\<rparr>"])
      (simp add: cl_set_value_particular_def bin_wf_def bin_str_def)
qed

text \<open>The operations of a response: codes and bins.\<close>

definition resp_bytes :: "(u8 \<times> cl_bin) list \<Rightarrow> block" where
  "resp_bytes l = concat (map (\<lambda>(code, b). op_bytes code b) l)"

definition resp_ok :: "(u8 \<times> cl_bin) list \<Rightarrow> bool" where
  "resp_ok l \<longleftrightarrow> (\<forall>(code, b) \<in> set l. op_ok code b \<and> code \<noteq> CL_MSG_OP_MC_INCR)"

lemma resp_bytes_Cons: "resp_bytes ((code, b) # l) = op_bytes code b @ resp_bytes l"
  by (simp add: resp_bytes_def)

definition bin_decoded :: "cl_bin \<Rightarrow> u8 \<times> cl_bin \<Rightarrow> bool" where
  "bin_decoded v x \<longleftrightarrow> bin_wf v \<and> bin_str v = bin_str (snd x) \<and> decoded (bin_object v) (bin_object (snd x))"

lemma parse_new_ok:
  assumes "resp_ok l" and "length a = op" and "length (a @ resp_bytes l @ c) < 2 ^ 31"
    and "base \<le> op" and "op + length (resp_bytes l) \<le> buf_len" and "length vs = i" and "length us = length l"
    and "\<forall>u \<in> set us. length (bin_name u) = 32" and "\<forall>j. envs j \<noteq> None"
  shows "\<exists>buf ws. parse_new buf_len base envs i (length l) (a @ resp_bytes l @ c) op (vs @ us) = Some (0, buf, vs @ ws) \<and>
    list_all2 bin_decoded ws l"
  using assms
proof (induction l arbitrary: a op vs us i)
  case Nil
  then show ?case by simp
next
  case (Cons x l)
  obtain code b where x: "x = (code, b)" by fastforce
  then have ok: "op_ok code b" "code \<noteq> CL_MSG_OP_MC_INCR" using Cons.prems(1) by (auto simp: resp_ok_def)
  obtain u us' where us: "us = u # us'" using Cons.prems(7) by (cases us) auto
  let ?X = "op_bytes code b" and ?c = "resp_bytes l @ c"
  have lx: "length ?X = 8 + length (bin_str b) + object_len (bin_object b)" using length_op_bytes [OF ok(1)] .
  then have sz: "8 + length (bin_str b) + object_len (bin_object b) < 2 ^ 31"
    using Cons.prems(3) by (simp add: x resp_bytes_Cons)
  note R = op_bytes_reads [OF ok(1) Cons.prems(2) sz]
  let ?X' = "op_bytes_of (word_le 4 (op_size b)) code b"
  have lX': "length ?X' = length ?X" by (simp add: op_bytes_def op_bytes_of_def)
  obtain g where g: "envs i = Some g" using Cons.prems(9) by blast
  obtain v where v: "cl_set_value_particular (Some g) (a @ ?X' @ ?c) op u = Some v" "bin_decoded v x"
    using cl_set_value_particular_ok [OF ok Cons.prems(2) sz, of u g ?c] Cons.prems(8) us
    by (auto simp: bin_decoded_def x)
  have "\<exists>buf ws. parse_new buf_len base envs (Suc i) (length l) ((a @ ?X') @ resp_bytes l @ c) (op + length ?X) ((vs @ [v]) @ us') =
      Some (0, buf, (vs @ [v]) @ ws) \<and> list_all2 bin_decoded ws l"
    by (rule Cons.IH) (use Cons.prems x us lX' in \<open>auto simp: resp_ok_def resp_bytes_Cons\<close>)
  then obtain buf ws where IH: "parse_new buf_len base envs (Suc i) (length l) ((a @ ?X') @ resp_bytes l @ c) (op + length ?X) ((vs @ [v]) @ us') =
      Some (0, buf, (vs @ [v]) @ ws)" "list_all2 bin_decoded ws l" by blast
  have bl: "\<not> buf_len < base + 8" using Cons.prems(4,5) lx by (simp add: x resp_bytes_Cons)
  have e: "(vs @ us)[i := v] = (vs @ [v]) @ us'" and n: "(vs @ us) ! i = u" "i < length (vs @ us)"
    using Cons.prems(6) us by auto
  have "parse_new buf_len base envs i (length (x # l)) (a @ resp_bytes (x # l) @ c) op (vs @ us) =
      parse_new buf_len base envs (Suc i) (length l) ((a @ ?X') @ resp_bytes l @ c) (op + length ?X) ((vs @ [v]) @ us')"
    using bl R(1,8) n e g v(1) by (simp add: x resp_bytes_Cons)
  then show ?case using IH v(2) by (intro exI [of _ buf] exI [of _ "v # ws"]) simp
qed

text \<open>The fields of a response, and what the loop over them stores for the caller.\<close>

definition rf_bytes :: "(u8 \<times> block) list \<Rightarrow> block" where
  "rf_bytes fl = concat (map (\<lambda>(t, d). field_bytes t d) fl)"

definition field_effect :: "u8 \<times> block \<Rightarrow> parse_args \<Rightarrow> parse_args" where
  "field_effect f s =
     (if fst f = CL_MSG_FIELD_TYPE_TRID then s\<lparr>pa_trid := map_option (\<lambda>_. le_word (rev (take 8 (snd f)))) (pa_trid s)\<rparr>
      else if fst f = CL_MSG_FIELD_TYPE_SET
        then (case pa_setname s of None \<Rightarrow> s
          | Some nm \<Rightarrow> s\<lparr>pa_setname := Some (snd f @ 0 # drop (Suc (length (snd f))) nm)\<rparr>)
      else s)"

definition field_ok :: "nat \<Rightarrow> u8 \<times> block \<Rightarrow> bool" where
  "field_ok n f \<longleftrightarrow> (fst f = CL_MSG_FIELD_TYPE_TRID \<longrightarrow> 8 \<le> length (snd f)) \<and>
     (fst f = CL_MSG_FIELD_TYPE_SET \<longrightarrow> length (snd f) < n)"

text \<open>The room for a set name; without a place for it, any length.\<close>

definition setname_room :: "parse_args \<Rightarrow> nat \<Rightarrow> bool" where
  "setname_room s n \<longleftrightarrow> (\<forall>nm. pa_setname s = Some nm \<longrightarrow> length nm = n)"

lemma rf_bytes_Cons: "rf_bytes ((t, d) # fl) = field_bytes t d @ rf_bytes fl"
  by (simp add: rf_bytes_def)

lemma setname_room_effect:
  "setname_room s n \<Longrightarrow> field_ok n f \<Longrightarrow> setname_room (field_effect f s) n"
  by (auto simp: setname_room_def field_ok_def field_effect_def split: option.splits)

lemma fold_field_effect_buf:
  "(fold field_effect fl (y\<lparr>pa_buf := p\<rparr>))\<lparr>pa_buf := q\<rparr> = (fold field_effect fl y)\<lparr>pa_buf := q\<rparr>"
proof (induction fl arbitrary: y)
  case (Cons f fl)
  have "field_effect f (y\<lparr>pa_buf := p\<rparr>) = (field_effect f y)\<lparr>pa_buf := p\<rparr>"
    by (simp add: field_effect_def split: option.splits)
  then show ?case using Cons [of "field_effect f y"] by simp
qed simp

lemma parse_fields_ok:
  assumes "length a = mf" and "length (a @ rf_bytes fl @ c) < 2 ^ 32" and "mf + length (rf_bytes fl) \<le> buf_len"
    and "setname_room s n" and "\<forall>f \<in> set fl. field_ok n f" and "pa_buf s = a @ rf_bytes fl @ c"
  shows "\<exists>a'. parse_fields buf_len (length fl) mf s =
      Some (0, mf + length (rf_bytes fl), (fold field_effect fl s)\<lparr>pa_buf := a' @ c\<rparr>) \<and>
    length a' = mf + length (rf_bytes fl)"
  using assms
proof (induction fl arbitrary: a mf s)
  case Nil
  then show ?case by (intro exI [of _ a]) (simp add: rf_bytes_def)
next
  case (Cons x fl)
  obtain t d where x: "x = (t, d)" by fastforce
  let ?c = "rf_bytes fl @ c" and ?z = "of_nat (length d + 1) :: u32"
  have buf: "pa_buf s = a @ word_be 4 ?z @ t # d @ ?c" using Cons.prems(6) by (simp add: x rf_bytes_Cons field_bytes_def)
  let ?B = "a @ word_le 4 ?z @ t # d @ ?c"
  have sw: "cl_msg_swap_field (pa_buf s) mf = Some ?B"
    unfolding buf cl_msg_swap_field_def swap_at [OF Cons.prems(1) length_word_le(2)] by (simp add: word_be_def)
  have z: "unat ?z = length d + 1"
    unfolding unat_of_nat using Cons.prems(2) by (intro mod_less) (simp add: x rf_bytes_Cons)
  have ty: "load_u8 ?B (mf + 4) = Some t"
    using load_at [of "a @ word_le 4 ?z" "mf + 4" "[t]" 1 "d @ ?c"] Cons.prems(1) by (simp add: load_u8_def)
  have sz: "load_u32 ?B mf = Some ?z"
    using load_at [of a mf "word_le 4 ?z" 4 "t # d @ ?c"] Cons.prems(1) by (simp add: load_u32_def)
  have nx: "cl_msg_field_get_next ?B mf = Some (mf + length (field_bytes t d))"
    unfolding cl_msg_field_get_next_def sz bind.bind_lunit z by simp
  have ld: "load ?B (mf + 5) (length d) = Some d"
    using load_at [of "a @ word_le 4 ?z @ [t]" "mf + 5" d "length d" ?c] Cons.prems(1) by simp
  have ld8: "load ?B (mf + 5) 8 = Some (take 8 d)" if "8 \<le> length d"
    using that load_at [of "a @ word_le 4 ?z @ [t]" "mf + 5" "take 8 d" 8 "drop 8 d @ ?c"] Cons.prems(1)
    by (simp add: append_assoc [symmetric] del: append_assoc) (simp add: append_assoc)
  have um: "unat (?z - 1) = length d"
  proof -
    have "?z - 1 = of_nat (length d)" by simp
    moreover have "unat (of_nat (length d) :: u32) = length d"
      unfolding unat_of_nat using Cons.prems(2) by (intro mod_less) (simp add: x rf_bytes_Cons)
    ultimately show ?thesis by simp
  qed
  let ?s = "field_effect x (s\<lparr>pa_buf := ?B\<rparr>)"
  have ok: "field_ok n x" using Cons.prems(5) by simp
  have step: "parse_fields buf_len (Suc (length fl)) mf s = parse_fields buf_len (length fl) (mf + length (field_bytes t d)) ?s"
  proof -
    have bl: "\<not> buf_len < 5" using Cons.prems(3) by (simp add: x rf_bytes_Cons)
    have ne: "CL_MSG_FIELD_TYPE_SET \<noteq> CL_MSG_FIELD_TYPE_TRID"
      by (simp add: CL_MSG_FIELD_TYPE_SET_def CL_MSG_FIELD_TYPE_TRID_def)
    consider (trid) "t = CL_MSG_FIELD_TYPE_TRID" | (nm) nm where "t = CL_MSG_FIELD_TYPE_SET" "pa_setname s = Some nm"
      | (none) "t = CL_MSG_FIELD_TYPE_SET" "pa_setname s = None" | (other) "t \<noteq> CL_MSG_FIELD_TYPE_TRID" "t \<noteq> CL_MSG_FIELD_TYPE_SET"
      by (cases "pa_setname s") auto
    then show ?thesis
    proof cases
      case trid
      then have "8 \<le> length d" using ok by (simp add: field_ok_def x)
      then show ?thesis using bl sw ty trid nx ld8 ne by (simp add: field_effect_def x Let_def)
    next
      case nm
      then have l: "length d < length nm" using ok Cons.prems(4) by (simp add: field_ok_def x setname_room_def)
      have "store nm 0 d = Some (d @ drop (length d) nm)" using l by (simp add: store_def)
      moreover have "store (d @ drop (length d) nm) (length d) [0] = Some (d @ 0 # drop (Suc (length d)) nm)"
        using l by (simp add: store_def)
      ultimately show ?thesis using bl sw ty nm nx ld ne um sz by (simp add: field_effect_def x Let_def)
    next
      case none
      then show ?thesis using bl sw ty nx ne by (simp add: field_effect_def x Let_def)
    next
      case other
      then show ?thesis using bl sw ty nx by (simp add: field_effect_def x Let_def)
    qed
  qed
  let ?a = "a @ word_le 4 ?z @ t # d"
  have "\<exists>a'. parse_fields buf_len (length fl) (mf + length (field_bytes t d)) ?s =
      Some (0, mf + length (field_bytes t d) + length (rf_bytes fl), (fold field_effect fl ?s)\<lparr>pa_buf := a' @ c\<rparr>) \<and>
    length a' = mf + length (field_bytes t d) + length (rf_bytes fl)"
  proof (rule Cons.IH [of ?a])
    show "setname_room ?s n"
      by (rule setname_room_effect [OF _ ok]) (use Cons.prems(4) in \<open>simp add: setname_room_def\<close>)
  qed (use Cons.prems in \<open>auto simp: x rf_bytes_Cons field_effect_def split: option.splits\<close>)
  moreover have "(fold field_effect fl ?s)\<lparr>pa_buf := q\<rparr> = (fold field_effect (x # fl) s)\<lparr>pa_buf := q\<rparr>" for q
    using fold_field_effect_buf [where fl = "x # fl" and y = s and p = ?B and q = q] by simp
  ultimately show ?case using step by (simp add: x rf_bytes_Cons add.assoc)
qed

lemma fold_field_effect_keeps:
  "pa_values (fold field_effect fl s) = pa_values s" "pa_operations (fold field_effect fl s) = pa_operations s"
  "pa_n_values (fold field_effect fl s) = pa_n_values s"
proof -
  have f: "pa_values (field_effect x s) = pa_values s \<and> pa_operations (field_effect x s) = pa_operations s \<and>
      pa_n_values (field_effect x s) = pa_n_values s" for x s
    by (simp add: field_effect_def split: option.splits)
  show "pa_values (fold field_effect fl s) = pa_values s" "pa_operations (fold field_effect fl s) = pa_operations s"
    "pa_n_values (fold field_effect fl s) = pa_n_values s"
    by (induction fl arbitrary: s) (simp_all add: f)
qed

lemma parse_fresh:
  assumes "pa_buf s = rf_bytes fl @ resp_bytes l @ c" and "length (pa_buf s) < 2 ^ 31"
    and "length (rf_bytes fl @ resp_bytes l) \<le> buf_len"
    and "setname_room s room" and "\<forall>f \<in> set fl. field_ok room f" and "resp_ok l"
    and "pa_values s = Some vs" and "pa_n_values s = Some n" and "n < length l"
    and "arr = Some g" and "\<forall>i. length (bin_name (op_bin (g i))) = 32" and "\<forall>i. envs i \<noteq> None"
  shows "\<exists>s' ws. cl_parse envs arr (length fl) (length l) buf_len s = Some (0, s') \<and>
    pa_values s' = Some ws \<and> list_all2 bin_decoded ws l \<and> pa_n_values s' = Some (length l) \<and>
    pa_trid s' = pa_trid (fold field_effect fl s) \<and> pa_setname s' = pa_setname (fold field_effect fl s)"
proof -
  let ?F = "rf_bytes fl" and ?O = "resp_bytes l" and ?e = "fold field_effect fl s"
  obtain a' where pf: "parse_fields buf_len (length fl) 0 s = Some (0, length ?F, ?e\<lparr>pa_buf := a' @ ?O @ c\<rparr>)"
    "length a' = length ?F"
    using parse_fields_ok [of "[]" 0 fl "?O @ c" buf_len s room] assms(1-5) by auto
  let ?us = "map (op_bin \<circ> g) [0..<length l]"
  have "\<exists>buf ws. parse_new buf_len (length ?F) envs 0 (length l) (a' @ ?O @ c) (length ?F) ([] @ ?us) = Some (0, buf, [] @ ws) \<and>
      list_all2 bin_decoded ws l"
    by (rule parse_new_ok) (use assms pf(2) in auto)
  then obtain buf ws where pn: "parse_new buf_len (length ?F) envs 0 (length l) (a' @ ?O @ c) (length ?F) ?us = Some (0, buf, ws)"
    "list_all2 bin_decoded ws l" by auto
  show ?thesis using pf(1) pn assms(7-10)
    by (simp add: cl_parse_def alloc_bins_def bins_of_def put_bins_def fold_field_effect_keeps)
qed

text \<open>C14: What was encoded is what is parsed: from a response of any fields and any operations, more
  than the caller made room for, \<open>cl_parse\<close> makes a new array with exactly these bins, in order,
  with their names, types and values, and stores the transaction id and the set name of the
  fields for the caller.\<close>

theorem parse_round_trip:
  assumes "pa_buf s = rf_bytes fl @ resp_bytes l @ c" and "length (pa_buf s) < 2 ^ 31"
    and "length (rf_bytes fl @ resp_bytes l) \<le> buf_len"
    and "setname_room s room" and "\<forall>f \<in> set fl. field_ok room f" and "resp_ok l"
    and "pa_values s = Some vs" and "pa_n_values s = Some n" and "n < length l"
    and "arr = Some g" and "\<forall>i. length (bin_name (op_bin (g i))) = 32" and "\<forall>i. envs i \<noteq> None"
  shows "\<exists>s' ws. cl_parse envs arr (length fl) (length l) buf_len s = Some (0, s') \<and>
    pa_values s' = Some ws \<and> list_all2 bin_decoded ws l \<and> pa_n_values s' = Some (length l) \<and>
    pa_trid s' = pa_trid (fold field_effect fl s) \<and> pa_setname s' = pa_setname (fold field_effect fl s)"
  using assms by (rule parse_fresh)

definition sample_args :: parse_args where
  "sample_args = \<lparr>pa_buf = rf_bytes [(CL_MSG_FIELD_TYPE_TRID, word_be 8 (9 :: u64)), (CL_MSG_FIELD_TYPE_SET, [115])] @
       resp_bytes [(CL_MSG_OP_READ, sample_bin)] @ [],
     pa_values = Some [], pa_operations = None, pa_n_values = Some 0, pa_trid = Some 0, pa_setname = Some (replicate 4 1)\<rparr>"

lemma sample_resp_ok: "resp_ok [(CL_MSG_OP_READ, sample_bin)]"
  by (simp add: resp_ok_def op_ok_def sample_bin_wf msg_ops)

lemma sample_args_length: "length (pa_buf sample_args) = 13 + 6 + 18"
  using sample_resp_ok by (simp add: sample_args_def rf_bytes_def resp_bytes_def length_op_bytes sample_bin_wf resp_ok_def)

theorem parse_round_trip_witness:
  "\<exists>s' ws. cl_parse (\<lambda>_. Some (\<lambda>_. 0)) (Some (\<lambda>_. \<lparr>op_bin = sample_bin, op_op = CL_OP_READ\<rparr>))
      (length [(CL_MSG_FIELD_TYPE_TRID, word_be 8 (9 :: u64)), (CL_MSG_FIELD_TYPE_SET, [115])])
      (length [(CL_MSG_OP_READ, sample_bin)]) 37 sample_args = Some (0, s') \<and>
    pa_values s' = Some ws \<and> list_all2 bin_decoded ws [(CL_MSG_OP_READ, sample_bin)] \<and>
    pa_n_values s' = Some (length [(CL_MSG_OP_READ, sample_bin)]) \<and>
    pa_trid s' = pa_trid (fold field_effect [(CL_MSG_FIELD_TYPE_TRID, word_be 8 (9 :: u64)), (CL_MSG_FIELD_TYPE_SET, [115])] sample_args) \<and>
    pa_setname s' = pa_setname (fold field_effect [(CL_MSG_FIELD_TYPE_TRID, word_be 8 (9 :: u64)), (CL_MSG_FIELD_TYPE_SET, [115])] sample_args)"
proof (rule parse_round_trip [where room = 4 and c = "[]" and n = 0 and vs = "[]"])
  show "\<forall>i. length (bin_name (op_bin ((\<lambda>_. \<lparr>op_bin = sample_bin, op_op = CL_OP_READ\<rparr>) i))) = 32"
    by (simp add: sample_bin_def)
  show "length (rf_bytes [(CL_MSG_FIELD_TYPE_TRID, word_be 8 (9 :: u64)), (CL_MSG_FIELD_TYPE_SET, [115])] @
      resp_bytes [(CL_MSG_OP_READ, sample_bin)]) \<le> 37"
    using sample_args_length by (simp add: sample_args_def)
qed (simp_all add: sample_resp_ok sample_args_length,
  simp_all add: sample_args_def setname_room_def field_ok_def CL_MSG_FIELD_TYPE_SET_def CL_MSG_FIELD_TYPE_TRID_def)

text \<open>The length tests of the parser do not bound what it reads: on a response that announces one
  operation more than it carries, it passes the test and reads behind the buffer.\<close>

theorem parse_reads_past_end:
  assumes "resp_ok l" and "l \<noteq> []" and "pa_buf s = resp_bytes l" and "length (resp_bytes l) < 2 ^ 31"
    and "buf_len = length (resp_bytes l)" and "pa_values s = Some vs" and "pa_n_values s = Some n" and "n \<le> length l"
    and "arr = Some g" and "\<forall>i. length (bin_name (op_bin (g i))) = 32" and "\<forall>i. envs i \<noteq> None"
  shows "cl_parse envs arr 0 (Suc (length l)) buf_len s = None"
proof -
  have *: "parse_new (length b) 0 envs i (Suc (length l)) (a @ resp_bytes l) (length a) bins = None"
    if "resp_ok l" "length b = length a + length (resp_bytes l)" "length b < 2 ^ 31" "i + Suc (length l) \<le> length bins"
      "8 \<le> length b" "\<forall>u \<in> set bins. length (bin_name u) = 32" for l a b i bins
    using that
  proof (induction l arbitrary: a i bins)
    case Nil
    then show ?case by (simp add: cl_msg_swap_op_def swap_bytes_def load_def resp_bytes_def)
  next
    case (Cons x l)
    obtain code bn where x: "x = (code, bn)" by fastforce
    then have ok: "op_ok code bn" "code \<noteq> CL_MSG_OP_MC_INCR" using Cons.prems(1) by (auto simp: resp_ok_def)
    let ?X = "op_bytes code bn" and ?X' = "op_bytes_of (word_le 4 (op_size bn)) code bn"
    have lx: "length ?X = 8 + length (bin_str bn) + object_len (bin_object bn)" using length_op_bytes [OF ok(1)] .
    then have sz: "8 + length (bin_str bn) + object_len (bin_object bn) < 2 ^ 31"
      using Cons.prems(2,3) by (simp add: x resp_bytes_Cons)
    note R = op_bytes_reads [OF ok(1) refl sz]
    have lX': "length ?X' = length ?X" by (simp add: op_bytes_def op_bytes_of_def)
    obtain g where g: "envs i = Some g" using assms(11) by blast
    have i: "i < length bins" "length (bin_name (bins ! i)) = 32" using Cons.prems(4,6) by auto
    obtain v where v: "cl_set_value_particular (Some g) (a @ ?X' @ resp_bytes l) (length a) (bins ! i) = Some v" "bin_wf v"
      using cl_set_value_particular_ok [OF ok refl sz i(2), of g a "resp_bytes l"] by blast
    have "parse_new (length b) 0 envs (Suc i) (Suc (length l)) ((a @ ?X') @ resp_bytes l) (length (a @ ?X')) (bins[i := v]) = None"
      by (rule Cons.IH) (use Cons.prems v(2) lX' in \<open>auto simp: x resp_bytes_Cons resp_ok_def bin_wf_def dest!: set_update_subset_insert [THEN subsetD]\<close>)
    then show ?case using Cons.prems(5) R(1,8) i(1) g v(1) lX'
      by (subst parse_new.simps) (simp add: x resp_bytes_Cons del: parse_new.simps)
  qed
  obtain x l' where "l = x # l'" using assms(2) by (cases l) auto
  then have "8 \<le> length (resp_bytes l)" using assms(1)
    by (cases x) (auto simp: resp_bytes_Cons resp_ok_def length_op_bytes)
  then have "parse_new (length (resp_bytes l)) 0 envs 0 (Suc (length l)) ([] @ resp_bytes l) (length ([] :: block))
      (map (op_bin \<circ> g) [0..<Suc (length l)]) = None"
    by (intro *) (use assms in auto)
  then show ?thesis using assms(3-9)
    by (simp add: cl_parse_def alloc_bins_def bins_of_def del: parse_new.simps upt_Suc)
qed

lemma find_value_first:
  assumes "\<forall>v \<in> set vs. length (bin_name v) = 32" and "length name \<le> 32"
    and "i < length vs" and "take (length name) (bin_name (vs ! i)) = name"
    and "\<forall>j < i. take (length name) (bin_name (vs ! j)) \<noteq> name"
  shows "find_value name vs k = Some (Some (k + i))"
  using assms
proof (induction vs arbitrary: i k)
  case (Cons v vs)
  have l: "load (bin_name v) 0 (length name) = Some (take (length name) (bin_name v))"
    using Cons.prems(1,2) by (simp add: load_def)
  show ?case
  proof (cases i)
    case 0
    then show ?thesis using l Cons.prems(4) by simp
  next
    case (Suc i')
    have "\<forall>j < i'. take (length name) (bin_name (vs ! j)) \<noteq> name"
      using Cons.prems(5) Suc by (metis Suc_less_eq nth_Cons_Suc)
    then have "find_value name vs (Suc k) = Some (Some (Suc k + i'))"
      using Cons.IH [of i' "Suc k"] Cons.prems Suc by simp
    moreover have "take (length name) (bin_name v) \<noteq> name" using Cons.prems(5) Suc by (metis nth_Cons_0 zero_less_Suc)
    ultimately show ?thesis using l Suc by simp
  qed
qed simp

lemma find_value_none:
  assumes "\<forall>v \<in> set vs. length (bin_name v) = 32" and "length name \<le> 32"
    and "\<forall>v \<in> set vs. take (length name) (bin_name v) \<noteq> name"
  shows "find_value name vs k = Some None"
  using assms by (induction vs arbitrary: k) (auto simp: load_def)

text \<open>A bin is asked for under a name when that is its string.\<close>

lemma bin_name_prefix:
  assumes "bin_wf v"
  shows "take (length name) (bin_name v) = name \<and> 0 \<notin> set name \<longleftrightarrow> name = take (length name) (bin_str v) \<and> 0 \<notin> set name"
proof -
  note p = bin_str_props [OF assms]
  have "bin_name v = bin_str v @ 0 # drop (Suc (length (bin_str v))) (bin_name v)"
    using strlen_Some [OF p(1)] p(5) by (metis load_def drop0 option.inject option.distinct(1))
  then obtain r where s: "bin_name v = bin_str v @ 0 # r" by blast
  show ?thesis
  proof (cases "length name \<le> length (bin_str v)")
    case True
    then show ?thesis by (auto simp: s)
  next
    case False
    then obtain k where k: "length name - length (bin_str v) = Suc k" by (cases "length name - length (bin_str v)") auto
    then have "(0 :: u8) \<in> set (take (length name) (bin_name v))" by (simp add: s)
    moreover have "length (take (length name) (bin_str v)) \<noteq> length name" using False by simp
    ultimately show ?thesis by metis
  qed
qed

text \<open>
  The search of a bin by the code: the first whose name starts with the name on the wire.
\<close>

definition name_starts :: "block \<Rightarrow> cl_bin \<Rightarrow> bool" where
  "name_starts name v \<longleftrightarrow> take (length name) (bin_str v) = name"

lemma name_starts_iff:
  assumes "bin_wf v" and "bin_wf b"
  shows "take (length (bin_str b)) (bin_name v) = bin_str b \<longleftrightarrow> name_starts (bin_str b) v"
  using bin_name_prefix [OF assms(1), of "bin_str b"] bin_str_props(4) [OF assms(2)] by (auto simp: name_starts_def)

lemma set_value_search_at:
  fixes c :: block
  assumes "op_ok code b" and "code \<noteq> CL_MSG_OP_MC_INCR"
    and "8 + length (bin_str b) + object_len (bin_object b) < 2 ^ 31" and "\<forall>v \<in> set vs. bin_wf v"
    and i: "i < length vs" "name_starts (bin_str b) (vs ! i)" "\<forall>j < i. \<not> name_starts (bin_str b) (vs ! j)"
  shows "\<exists>d. decoded d (bin_object b) \<and>
    set_value_search (Some g) (a @ op_bytes_of (word_le 4 (op_size b)) code b @ c) (length a) vs =
      Some (0, vs[i := (vs ! i)\<lparr>bin_object := d\<rparr>])"
proof -
  let ?B = "a @ op_bytes_of (word_le 4 (op_size b)) code b @ c"
  note R = op_bytes_reads [OF assms(1) refl assms(3)]
  have wf: "bin_wf b" using assms(1) by (simp add: op_ok_def)
  have nm: "op_name ?B (length a) = Some (bin_str b)" using R(3,4,9) by (simp add: op_name_def)
  have pre: "take (length (bin_str b)) (bin_name v) = bin_str b \<longleftrightarrow> name_starts (bin_str b) v" if "v \<in> set vs" for v
    using name_starts_iff [OF _ wf] assms(4) that by simp
  have "find_value (bin_str b) vs 0 = Some (Some (0 + i))"
  proof (rule find_value_first)
    show "take (length (bin_str b)) (bin_name (vs ! i)) = bin_str b" using pre i by simp
    show "\<forall>j < i. take (length (bin_str b)) (bin_name (vs ! j)) \<noteq> bin_str b"
      using pre i by (metis nth_mem order.strict_trans)
  qed (use bin_str_props(3) [OF wf] assms(4) i(1) in \<open>simp_all add: bin_wf_def\<close>)
  moreover obtain d where "set_object (Some g) ?B (length a) (bin_object (vs ! i)) = Some (0, d)" "decoded d (bin_object b)"
    using set_object_ok [OF assms(1,2) refl assms(3)] by blast
  ultimately show ?thesis using nm by (auto simp: set_value_search_def)
qed

text \<open>C22: An operation of a response is delivered to the first bin asked for whose name starts with
  the operation's name: that bin gets the value, keeps its name, and no other bin changes. Without
  such a bin nothing changes and the code is -1.\<close>

theorem search_delivers:
  fixes c :: block
  assumes "op_ok code b" and "code \<noteq> CL_MSG_OP_MC_INCR"
    and "8 + length (bin_str b) + object_len (bin_object b) < 2 ^ 31"
    and "\<forall>v \<in> set vs. bin_wf v"
  shows "\<exists>vs' rv. set_value_search (Some g) (a @ op_bytes_of (word_le 4 (op_size b)) code b @ c) (length a) vs = Some (rv, vs') \<and>
    (if \<forall>v \<in> set vs. \<not> name_starts (bin_str b) v then rv = - 1 \<and> vs' = vs
     else rv = 0 \<and> (\<exists>i < length vs. name_starts (bin_str b) (vs ! i) \<and> (\<forall>j < i. \<not> name_starts (bin_str b) (vs ! j)) \<and>
       (\<exists>d. decoded d (bin_object b) \<and> vs' = vs[i := (vs ! i)\<lparr>bin_object := d\<rparr>])))"
proof -
  let ?B = "a @ op_bytes_of (word_le 4 (op_size b)) code b @ c"
  note R = op_bytes_reads [OF assms(1) refl assms(3)]
  have wf: "bin_wf b" using assms(1) by (simp add: op_ok_def)
  show ?thesis
  proof (cases "\<forall>v \<in> set vs. \<not> name_starts (bin_str b) v")
    case True
    have "find_value (bin_str b) vs 0 = Some None"
      by (rule find_value_none)
        (use True bin_str_props(3) [OF wf] name_starts_iff [OF _ wf] assms(4) in \<open>auto simp: bin_wf_def\<close>)
    moreover have "op_name ?B (length a) = Some (bin_str b)" using R(3,4,9) by (simp add: op_name_def)
    ultimately show ?thesis using True by (simp add: set_value_search_def)
  next
    case False
    let ?P = "\<lambda>k. k < length vs \<and> name_starts (bin_str b) (vs ! k)"
    obtain k where k: "?P k" using False by (auto simp: in_set_conv_nth)
    define i where "i = (LEAST k. ?P k)"
    have i: "?P i" unfolding i_def using k by (rule LeastI)
    have j: "\<forall>j < i. \<not> name_starts (bin_str b) (vs ! j)"
    proof (intro allI impI)
      fix j assume "j < i"
      then have "\<not> ?P j" unfolding i_def by (rule not_less_Least)
      then show "\<not> name_starts (bin_str b) (vs ! j)" using \<open>j < i\<close> i by simp
    qed
    obtain d where d: "decoded d (bin_object b)" "set_value_search (Some g) ?B (length a) vs =
        Some (0, vs[i := (vs ! i)\<lparr>bin_object := d\<rparr>])"
      using set_value_search_at [OF assms _ _ j, of g a c] i by blast
    show ?thesis unfolding d(2) using False i j d(1) by auto
  qed
qed

theorem search_delivers_witness:
  "\<exists>vs' rv. set_value_search (Some (\<lambda>_. 0)) ([] @ op_bytes_of (word_le 4 (op_size sample_bin)) CL_MSG_OP_READ sample_bin @ []) (length ([] :: block)) [sample_bin] = Some (rv, vs') \<and>
    (if \<forall>v \<in> set [sample_bin]. \<not> name_starts (bin_str sample_bin) v then rv = - 1 \<and> vs' = [sample_bin]
     else rv = 0 \<and> (\<exists>i < length [sample_bin]. name_starts (bin_str sample_bin) ([sample_bin] ! i) \<and>
       (\<forall>j < i. \<not> name_starts (bin_str sample_bin) ([sample_bin] ! j)) \<and>
       (\<exists>d. decoded d (bin_object sample_bin) \<and> vs' = [sample_bin][i := ([sample_bin] ! i)\<lparr>bin_object := d\<rparr>])))"
  by (rule search_delivers) (simp_all add: op_ok_def sample_bin_wf msg_ops)

text \<open>The name is compared over its length on the wire only, so that the value of a bin can be
  delivered to another one: when an earlier bin's name continues the name of the bin asked for,
  the value goes to that one and the bin asked for is left as it was.\<close>

theorem search_misdelivers:
  fixes c :: block
  assumes "op_ok code b" and "code \<noteq> CL_MSG_OP_MC_INCR"
    and "8 + length (bin_str b) + object_len (bin_object b) < 2 ^ 31" and "\<forall>v \<in> set vs. bin_wf v"
    and "i < j" and "j < length vs" and "bin_str (vs ! j) = bin_str b"
    and "bin_str (vs ! i) = bin_str b @ suffix" and "suffix \<noteq> []" and "\<forall>k < i. \<not> name_starts (bin_str b) (vs ! k)"
  shows "\<exists>vs'. set_value_search (Some g) (a @ op_bytes_of (word_le 4 (op_size b)) code b @ c) (length a) vs = Some (0, vs') \<and>
    vs' ! j = vs ! j \<and> bin_str (vs' ! i) \<noteq> bin_str b \<and> decoded (bin_object (vs' ! i)) (bin_object b)"
proof -
  have "name_starts (bin_str b) (vs ! i)" using assms(8) by (simp add: name_starts_def)
  moreover have i: "i < length vs" using assms(5,6) by simp
  ultimately obtain d where d: "decoded d (bin_object b)"
    "set_value_search (Some g) (a @ op_bytes_of (word_le 4 (op_size b)) code b @ c) (length a) vs =
      Some (0, vs[i := (vs ! i)\<lparr>bin_object := d\<rparr>])"
    using set_value_search_at [OF assms(1-4) _ _ assms(10), of g a c] by blast
  then show ?thesis using i assms(5,8,9) by (simp add: bin_str_def)
qed

definition short_bin :: cl_bin where
  "short_bin = \<lparr>bin_name = 97 # replicate 31 0, bin_object = citrusleaf_object_init_int 1\<rparr>"

lemma short_bin_wf: "bin_wf short_bin" "bin_str short_bin = [97]" "object_len (bin_object short_bin) = 8"
  "o_type (bin_object short_bin) = CL_INT"
  by (simp_all add: short_bin_def bin_wf_def bin_str_def object_wf_def object_len_def citrusleaf_object_init_int_def)

theorem search_misdelivers_witness:
  "\<exists>vs'. set_value_search (Some (\<lambda>_. 0)) ([] @ op_bytes_of (word_le 4 (op_size short_bin)) CL_MSG_OP_READ short_bin @ [])
      (length ([] :: block)) [sample_bin, short_bin] = Some (0, vs') \<and>
    vs' ! 1 = [sample_bin, short_bin] ! 1 \<and> bin_str (vs' ! 0) \<noteq> bin_str short_bin \<and>
    decoded (bin_object (vs' ! 0)) (bin_object short_bin)"
  by (rule search_misdelivers [where suffix = "[98]"]) (simp_all add: op_ok_def sample_bin_wf short_bin_wf msg_ops)

definition past_end_args :: parse_args where
  "past_end_args = \<lparr>pa_buf = resp_bytes [(CL_MSG_OP_READ, sample_bin)], pa_values = Some [], pa_operations = None,
     pa_n_values = Some 0, pa_trid = None, pa_setname = None\<rparr>"

theorem parse_reads_past_end_witness:
  "cl_parse (\<lambda>_. Some (\<lambda>_. 0)) (Some (\<lambda>_. \<lparr>op_bin = sample_bin, op_op = CL_OP_READ\<rparr>)) 0
     (Suc (length [(CL_MSG_OP_READ, sample_bin)])) 18 past_end_args = None"
proof (rule parse_reads_past_end [where g = "\<lambda>_. \<lparr>op_bin = sample_bin, op_op = CL_OP_READ\<rparr>" and n = 0 and vs = "[]"])
  have l: "length (resp_bytes [(CL_MSG_OP_READ, sample_bin)]) = 18"
    using sample_resp_ok by (simp add: resp_bytes_def length_op_bytes sample_bin_wf resp_ok_def)
  show "length (resp_bytes [(CL_MSG_OP_READ, sample_bin)]) < 2 ^ 31"
    "18 = length (resp_bytes [(CL_MSG_OP_READ, sample_bin)])" using l by simp_all
qed (rule sample_resp_ok, simp_all add: past_end_args_def, simp add: sample_bin_def)

subsection \<open>Integers of fewer than eight bytes\<close>

text \<open>The two's complement value of big-endian bytes.\<close>

definition sign_extended :: "block \<Rightarrow> u64" where
  "sign_extended x = le_word (rev x @ replicate (8 - length x) (if hd x AND 0x80 \<noteq> 0 then 0xff else 0))"

lemma le_word_append_zero: "le_word (x @ replicate n 0) = (le_word x :: u64)"
proof (rule bit_word_eqI)
  fix i assume "i < LENGTH(64)"
  show "bit (le_word (x @ replicate n 0) :: u64) i = bit (le_word x :: u64) i"
    by (auto simp: bit_le_word nth_append)
qed

lemma fold_be: "fold (\<lambda>b v. push_bit 8 v OR ucast b) x v = (push_bit (8 * length x) v OR le_word (rev x) :: u64)"
proof (induction x arbitrary: v)
  case (Cons b x)
  have *: "le_word (y @ [b]) = (le_word y OR push_bit (8 * length y) (ucast b) :: u64)" for y
  proof (induction y)
    case (Cons c y)
    show ?case by (simp add: Cons push_bit_or or.assoc push_bit_push_bit add.commute)
  qed simp
  show ?case unfolding fold_simps Cons.IH
    by (simp add: * push_bit_or push_bit_push_bit or.assoc add.commute or.commute)
qed simp

lemma hd_bit: "(b AND 0x80 \<noteq> 0) = bit b 7" for b :: u8
proof -
  have "b AND 0x80 = b AND push_bit 7 1" by simp
  then show ?thesis by (metis and_exp_eq_0_iff_not_bit push_bit_of_1)
qed

text \<open>An integer that the server sends in at most eight bytes is read as its two's complement
  value when it has eight bytes or is not negative.\<close>

theorem op_int_positive:
  assumes "0 < length x" and "length x \<le> 8" and "length x = 8 \<or> hd x AND 0x80 = 0"
  shows "op_to_value_int (a @ x @ c) (length a) (int (length x)) = Some (0, Some (sign_extended x))"
proof (cases "length x = 8")
  case True
  then show ?thesis by (simp add: op_to_value_int_def load_at sign_extended_def)
next
  case False
  then have h: "hd x AND 0x80 = 0" "length x < 8" using assms by auto
  obtain b y where x: "x = b # y" using assms(1) by (cases x) auto
  have b0: "load_u8 (a @ x @ c) (length a) = Some b"
    using load_at [of a "length a" "[b]" 1 "y @ c"] by (simp add: load_u8_def x)
  have ld: "load (a @ x @ c) (length a) (length x) = Some x" by (rule load_at) simp_all
  have e: "sign_extended x = le_word (rev x)" using h(1) by (simp add: sign_extended_def le_word_append_zero)
  have one: "le_word [b] = (ucast b :: u64)" by simp
  show ?thesis
  proof (cases "length x = 1 \<and> b < 0x7f")
    case True
    then have "y = []" by (simp add: x)
    then show ?thesis using True b0 h e one by (simp add: op_to_value_int_def x)
  next
    case c: False
    have "\<not> (int (length x) = 1 \<and> b < 0x7f)" using c by auto
    moreover have "b AND 0x80 = 0" using h(1) by (simp add: x)
    moreover have "int (length x) \<noteq> 0" "int (length x) \<noteq> 8" "\<not> int (length x) > 8" using h(2) assms(1) by auto
    ultimately have "op_to_value_int (a @ x @ c) (length a) (int (length x)) =
        Some (0, Some (fold (\<lambda>b v. push_bit 8 v OR ucast b) x 0))"
      unfolding op_to_value_int_def by (simp only: b0 ld nat_int if_False if_True simp_thms bind.bind_lunit)
    then show ?thesis by (simp add: fold_be e)
  qed
qed

theorem op_int_positive_witness:
  "op_to_value_int ([] @ [1, 2] @ []) (length ([] :: block)) (int (length ([1, 2] :: block))) =
     Some (0, Some (sign_extended [1, 2]))"
  by (rule op_int_positive) simp_all

text \<open>C38: A negative integer of fewer than eight bytes is never read as its value: the sign extended
  copy is made and thrown away, and what is stored is the first byte, shifted to the top.\<close>

theorem op_int_negative:
  assumes "0 < length x" and "length x < 8" and "hd x AND 0x80 \<noteq> 0"
  shows "op_to_value_int (a @ x @ c) (length a) (int (length x)) = Some (0, Some (push_bit 56 (ucast (hd x)))) \<and>
    push_bit 56 (ucast (hd x)) \<noteq> sign_extended x"
proof
  obtain b y where x: "x = b # y" using assms(1) by (cases x) auto
  have b0: "load_u8 (a @ x @ c) (length a) = Some b"
    using load_at [of a "length a" "[b]" 1 "y @ c"] by (simp add: load_u8_def x)
  have ld: "load (a @ x @ c) (length a) (length x) = Some x" by (rule load_at) simp_all
  have b7: "bit b 7" using assms(3) by (simp add: x hd_bit)
  have nb: "\<not> b < 0x7f"
  proof
    assume "b < 0x7f"
    then have "unat b < 127" by (simp add: word_less_nat_alt)
    moreover have "bit (unat b) 7" using b7 by (simp add: bit_unsigned_iff)
    ultimately show False by (simp add: bit_iff_odd)
  qed
  let ?k = "8 - length x"
  have n8: "nat (8 - int (length x)) = ?k" by simp
  have s1: "store (replicate 8 (0 :: u8)) 0 (replicate ?k 0xff) = Some (replicate ?k 0xff @ replicate (length x) 0)"
    using assms(2) by (simp add: store_def)
  have s2: "store (replicate ?k 0xff @ replicate (length x) (0 :: u8)) ?k x = Some (replicate ?k 0xff @ x)"
    using assms(2) by (simp add: store_def)
  have "b AND 0x80 \<noteq> 0" using assms(3) by (simp add: x)
  moreover have "int (length x) \<noteq> 0" "int (length x) \<noteq> 8" "\<not> int (length x) > 8" using assms by auto
  ultimately have "op_to_value_int (a @ x @ c) (length a) (int (length x)) = Some (0, Some (push_bit 56 (ucast b)))"
    unfolding op_to_value_int_def
    by (simp only: b0 ld nat_int if_False if_True simp_thms bind.bind_lunit nb n8 s1 s2)
  then show "op_to_value_int (a @ x @ c) (length a) (int (length x)) = Some (0, Some (push_bit 56 (ucast (hd x))))"
    by (simp add: x)
  let ?i = "8 * length y + 7"
  have l: "?i < 56" "?i < 64" "?i div 8 = length y" "?i mod 8 = 7" using assms(2) by (auto simp: x)
  have "\<not> bit (push_bit 56 (ucast (hd x)) :: u64) ?i" using l by (simp add: bit_simps)
  moreover have "bit (sign_extended x) ?i"
    using l b7 by (simp add: sign_extended_def bit_le_word x nth_append)
  ultimately show "push_bit 56 (ucast (hd x)) \<noteq> sign_extended x" by metis
qed

theorem op_int_negative_witness:
  "op_to_value_int ([] @ [0xff] @ []) (length ([] :: block)) (int (length ([0xff] :: block))) =
     Some (0, Some (push_bit 56 (ucast (hd [0xff :: u8])))) \<and>
   push_bit 56 (ucast (hd [0xff :: u8])) \<noteq> sign_extended [0xff]"
  by (rule op_int_negative) simp_all

end
