(* ===== verification/Cl_Transaction.thy ===== *)
theory Cl_Transaction
  imports Cl_Cluster Cl_Msg
begin

section \<open>A transaction (\<open>do_the_full_monte\<close> in \<open>src/citrusleaf.c\<close>)\<close>

text \<open>
  Every read, write, delete and operate call of the client is one call of
  \<open>do_the_full_monte\<close>: it compiles the request, and then tries nodes of the cluster until one
  gives a response, the deadline has passed, or the policy forbids another try.

  A try takes its environment as an argument: what the kernel answers to the socket calls, the
  result of the allocation of a large buffer, the time on the clock at its end, and what the
  other threads do to the nodes and the cluster before it and while it waits. The process is the
  one that started the background threads.
\<close>

definition STACK_BUF_SZ :: nat where "STACK_BUF_SZ = 16384"
definition DEFAULT_PROGRESS_TIMEOUT :: int where "DEFAULT_PROGRESS_TIMEOUT = 50"
definition CITRUSLEAF_FAIL_TIMEOUT :: int where "CITRUSLEAF_FAIL_TIMEOUT = - 2"
definition CITRUSLEAF_FAIL_UNKNOWN :: int where "CITRUSLEAF_FAIL_UNKNOWN = 1"
definition CL_MSG_INFO1_VERIFY :: u32 where "CL_MSG_INFO1_VERIFY = 8"

lemmas cl_rv_defs = CITRUSLEAF_FAIL_TIMEOUT_def CITRUSLEAF_FAIL_UNKNOWN_def

record try_env =
  te_before :: "mem \<times> cl_cluster \<Rightarrow> mem \<times> cl_cluster"
  te_during :: "mem \<times> cl_cluster \<Rightarrow> mem \<times> cl_cluster"
  te_conn :: conn_env
  te_write :: "nat io_script"
  te_header :: "block io_script"
  te_body :: "block io_script"
  te_malloc :: malloc_env
  te_now :: u64

text \<open>The read buffer: on the stack, on the heap, or a null pointer.\<close>

datatype rd_buf = Rd_Stack block | Rd_Heap block | Rd_Null

fun rd_block :: "rd_buf \<Rightarrow> block option" where
  "rd_block (Rd_Stack b) = Some b"
| "rd_block (Rd_Heap b) = Some b"
| "rd_block Rd_Null = None"

fun rd_put :: "rd_buf \<Rightarrow> block option \<Rightarrow> rd_buf" where
  "rd_put (Rd_Stack _) (Some b) = Rd_Stack b"
| "rd_put (Rd_Heap _) (Some b) = Rd_Heap b"
| "rd_put _ _ = Rd_Null"

text \<open>What stays the same over the tries.\<close>

record request =
  rq_info1 :: u32
  rq_info2 :: u32
  rq_ns :: block
  rq_digest :: block
  rq_write_parameters :: "cl_write_parameters option"
  rq_deadline :: u64
  rq_progress :: int
  rq_size :: nat

definition request_deadline :: "cl_write_parameters option \<Rightarrow> u64 \<Rightarrow> u64 \<times> int" where
  "request_deadline w now =
     (case w of None \<Rightarrow> (0, DEFAULT_PROGRESS_TIMEOUT)
      | Some w \<Rightarrow>
          let timeout_ms = sint (w_timeout_ms w) in
          if timeout_ms = 0 then (0, DEFAULT_PROGRESS_TIMEOUT)
          else if timeout_ms > 700 then (now + word_of_int timeout_ms, timeout_ms div 2)
          else (now + word_of_int timeout_ms, timeout_ms))"

text \<open>
  The sizes in a response header: of the body, modulo \<open>2 ^ 48\<close> as the compiler computes with the
  bit-field, and the parts that \<open>cl_parse\<close> uses.
\<close>

definition body_size :: "block \<Rightarrow> nat option" where
  "body_size msg = do {
     sz \<leftarrow> load msg 2 6;
     h \<leftarrow> load_u8 msg 8;
     Some (unat (take_bit 48 (le_word sz - ucast h :: u64))) }"

definition load_u16 :: "block \<Rightarrow> nat \<Rightarrow> nat option" where
  "load_u16 msg off = do { x \<leftarrow> load msg off 2; Some (unat (le_word x :: u16)) }"

datatype receive_result =
    Received block rd_buf nat
  | Receive_Failed int rd_buf
  | Receive_No_Memory
  | Receive_Waiting

text \<open>Reading the response: the header, then the body.\<close>

definition receive_body :: "try_env \<Rightarrow> request \<Rightarrow> block \<Rightarrow> rd_buf \<Rightarrow> receive_result option" where
  "receive_body env rq msg rd = do {
     sz \<leftarrow> body_size msg;
     if sz = 0 then Some (Received msg rd 0)
     else
       case (if sz > STACK_BUF_SZ then map_option Rd_Heap (malloc (te_malloc env) sz) else Some rd) of
         None \<Rightarrow> Some Receive_No_Memory
       | Some rd \<Rightarrow> do {
           r \<leftarrow> cf_socket_read_timeout (te_body env) (rd_block rd) sz (rq_deadline rq) (rq_progress rq);
           case r of Waiting \<Rightarrow> Some Receive_Waiting
           | Returned (rv, b) \<Rightarrow>
               Some (if rv \<noteq> 0 then Receive_Failed rv Rd_Null else Received msg (rd_put rd b) sz) } }"

definition receive :: "try_env \<Rightarrow> request \<Rightarrow> block \<Rightarrow> rd_buf \<Rightarrow> receive_result option" where
  "receive env rq msg rd = do {
     r \<leftarrow> cf_socket_read_timeout (te_header env) (Some msg) 30 (rq_deadline rq) (rq_progress rq);
     case r of Waiting \<Rightarrow> Some Receive_Waiting
     | Returned (rv, b) \<Rightarrow>
         if rv \<noteq> 0 then Some (Receive_Failed rv rd)
         else do {
           msg \<leftarrow> b;
           msg \<leftarrow> cl_proto_swap msg 0;
           msg \<leftarrow> cl_msg_swap_header msg 8;
           receive_body env rq msg rd } }"

text \<open>Sending, with the verify bit of the compiled request cleared on a delete.\<close>

definition clear_verify :: "request \<Rightarrow> block \<Rightarrow> block option" where
  "clear_verify rq wr_buf =
     (if rq_info2 rq AND CL_MSG_INFO2_DELETE \<noteq> 0 \<and> rq_info1 rq AND CL_MSG_INFO1_VERIFY \<noteq> 0 then do {
        b \<leftarrow> load_u8 wr_buf 9;
        store wr_buf 9 [b AND NOT 8] }
      else Some wr_buf)"

definition exchange_msg :: "try_env \<Rightarrow> request \<Rightarrow> block \<Rightarrow> rd_buf \<Rightarrow> receive_result option" where
  "exchange_msg env rq msg rd =
     (case cf_socket_write_timeout (te_write env) (rq_size rq) (rq_deadline rq) (rq_progress rq) of
        Waiting \<Rightarrow> Some Receive_Waiting
      | Returned (rv, _) \<Rightarrow> if rv \<noteq> 0 then Some (Receive_Failed rv rd) else receive env rq msg rd)"

text \<open>One try. It is over, goes on to the label \<open>Retry\<close>, or ends at the label \<open>Error\<close>.\<close>

datatype try_result =
    Try_Ok mem cl_cluster block rd_buf nat
  | Try_Retry mem cl_cluster int block rd_buf
  | Try_Error mem cl_cluster int
  | Try_Waiting

definition close_fd :: "mem \<Rightarrow> int \<Rightarrow> mem" where
  "close_fd m fd = (if fd \<noteq> - 1 then close_all m [fd] else m)"

text \<open>The label \<open>Retry\<close>, up to the test of the deadline: descriptor and node are given up.\<close>

definition give_up :: "mem \<Rightarrow> int \<Rightarrow> node_ptr option \<Rightarrow> mem option" where
  "give_up m fd node = (case node of None \<Rightarrow> Some (close_fd m fd) | Some p \<Rightarrow> cl_cluster_node_put (close_fd m fd) p)"

text \<open>The label \<open>Ok\<close>, up to the parsing: the node was reachable, and its descriptor goes to the pool.\<close>

definition put_back :: "malloc_env \<Rightarrow> mem \<Rightarrow> node_ptr \<Rightarrow> int \<Rightarrow> mem option" where
  "put_back e m p fd = do {
     cn \<leftarrow> m_nodes m p;
     m \<leftarrow> cl_cluster_node_fd_put e (put_node m p (cn\<lparr>cn_intervals_unreachable := 0\<rparr>)) p fd False;
     cl_cluster_node_put m p }"

definition one_try ::
  "malloc_env \<Rightarrow> try_env \<Rightarrow> request \<Rightarrow> mem \<Rightarrow> cl_cluster \<Rightarrow> int \<Rightarrow> block \<Rightarrow> block \<Rightarrow> rd_buf \<Rightarrow> try_result option" where
  "one_try e env rq m asc rv wr_buf msg rd = do {
     let (m, asc) = te_before env (m, asc);
     (node, m, asc) \<leftarrow> cl_cluster_node_get m asc (rq_ns rq) (rq_digest rq) (rq_info2 rq AND CL_MSG_INFO2_WRITE \<noteq> 0);
     case node of None \<Rightarrow> Some (Try_Retry m asc rv wr_buf rd)
     | Some p \<Rightarrow> do {
         (fd, m) \<leftarrow> cl_cluster_node_fd_get (te_conn env) m p False (cs_nbconnect asc);
         if fd = - 1 then do { m \<leftarrow> give_up m fd node; Some (Try_Retry m asc rv wr_buf rd) }
         else do {
           wr_buf \<leftarrow> clear_verify rq wr_buf;
           r \<leftarrow> exchange_msg env rq msg rd;
           let (m, asc) = te_during env (m, asc);
           case r of
             Receive_Waiting \<Rightarrow> Some Try_Waiting
           | Receive_Failed rv rd \<Rightarrow> do { m \<leftarrow> give_up m fd node; Some (Try_Retry m asc rv wr_buf rd) }
           | Receive_No_Memory \<Rightarrow> Some (Try_Error (close_fd m fd) asc (- 1))
           | Received msg rd sz \<Rightarrow> do { m \<leftarrow> put_back e m p fd; Some (Try_Ok m asc msg rd sz) } } } }"

text \<open>
  The loop over the tries, one for each environment; without another one it is still busy. The
  last component of a response is the number of tries.
\<close>

datatype loop_result =
    Response mem cl_cluster block rd_buf nat nat
  | Failure mem cl_cluster int
  | Busy

definition may_retry :: "cl_write_parameters option \<Rightarrow> bool" where
  "may_retry w \<longleftrightarrow> (case w of None \<Rightarrow> True | Some w \<Rightarrow> w_retry w)"

fun try_loop ::
  "malloc_env \<Rightarrow> request \<Rightarrow> block \<Rightarrow> try_env list \<Rightarrow> nat \<Rightarrow> mem \<Rightarrow> cl_cluster \<Rightarrow> int \<Rightarrow> block \<Rightarrow> rd_buf \<Rightarrow> loop_result option" where
  "try_loop e rq msg [] n m asc rv wr_buf rd = Some Busy"
| "try_loop e rq msg (env # envs) n m asc rv wr_buf rd = do {
     r \<leftarrow> one_try e env rq m asc rv wr_buf msg rd;
     case r of
       Try_Waiting \<Rightarrow> Some Busy
     | Try_Error m asc rv \<Rightarrow> Some (Failure m asc rv)
     | Try_Ok m asc msg rd sz \<Rightarrow> Some (Response m asc msg rd sz (Suc n))
     | Try_Retry m asc rv wr_buf rd \<Rightarrow>
         if rq_deadline rq \<noteq> 0 \<and> rq_deadline rq < te_now env then Some (Failure m asc CITRUSLEAF_FAIL_TIMEOUT)
         else if may_retry (rq_write_parameters rq)
         then try_loop e rq msg envs (Suc n) m asc rv wr_buf rd
         else Some (Failure m asc rv) }"

text \<open>The rest of the label \<open>Ok\<close>: parsing, and the result code.\<close>

definition response_rv :: "request \<Rightarrow> nat \<Rightarrow> int \<Rightarrow> int" where
  "response_rv rq tries rv = (if 1 < tries \<and> rv = 2 \<and> rq_info2 rq AND CL_MSG_INFO2_DELETE \<noteq> 0 then 0 else rv)"

definition finish ::
  "(nat \<Rightarrow> malloc_env) \<Rightarrow> (nat \<Rightarrow> cl_operation) option \<Rightarrow> request \<Rightarrow> block \<Rightarrow> rd_buf \<Rightarrow> nat \<Rightarrow> nat \<Rightarrow> parse_args \<Rightarrow>
   (int \<times> parse_args) option" where
  "finish envs arr rq msg rd sz tries s =
     (case rd_block rd of None \<Rightarrow> Some (CITRUSLEAF_FAIL_UNKNOWN, s)
      | Some b \<Rightarrow> do {
          n_fields \<leftarrow> load_u16 msg 26;
          n_ops \<leftarrow> load_u16 msg 28;
          result_code \<leftarrow> load_u8 msg 13;
          (rv, s) \<leftarrow> cl_parse envs arr n_fields n_ops sz (s\<lparr>pa_buf := b\<rparr>);
          Some (if rv \<noteq> 0 then CITRUSLEAF_FAIL_UNKNOWN else response_rv rq tries (int (unat result_code)), s) })"

datatype answer = Answer int mem cl_cluster parse_args "u32 option" | No_Answer

text \<open>
  The whole call. \<open>g\<close> gives the bytes of the arrays on the stack; without key and digest the
  digest of the request is such bytes. The transaction id must not be a null pointer. The last
  part of an answer is the generation of the record, when there was a response (the code also
  hands over the generation of a header whose body did not arrive).
\<close>

definition do_the_full_monte ::
  "(block \<Rightarrow> block) \<Rightarrow> (nat \<Rightarrow> u8) \<Rightarrow> malloc_env \<Rightarrow> malloc_env \<Rightarrow> (nat \<Rightarrow> malloc_env) \<Rightarrow> (nat \<Rightarrow> cl_operation) option \<Rightarrow>
   try_env list \<Rightarrow> u64 \<Rightarrow> mem \<Rightarrow> cl_cluster \<Rightarrow> u32 \<Rightarrow> u32 \<Rightarrow> u32 \<Rightarrow> block \<Rightarrow> block option \<Rightarrow> cl_object option \<Rightarrow>
   block option \<Rightarrow> cl_operator \<Rightarrow> cl_write_parameters option \<Rightarrow> parse_args \<Rightarrow> answer option" where
  "do_the_full_monte rmd g e_compile e_pool e_parse arr envs now m asc info1 info2 info3 ns set0 key digest operator w s = do {
     trid \<leftarrow> pa_trid s;
     c_ns \<leftarrow> opt_c_str (Some ns);
     ns_name \<leftarrow> c_ns;
     let args = (pa_n_values s \<noteq> None \<and> (pa_values s \<noteq> None \<or> pa_operations s \<noteq> None));
     (rv, wr, wr_sz, d_ret) \<leftarrow>
       (if args then cl_compile rmd e_compile info1 info2 info3 (Some ns) set0 key digest (pa_values s) operator
          (pa_operations s) (the (pa_n_values s)) (Some (map g [0..<STACK_BUF_SZ])) STACK_BUF_SZ w trid None
        else cl_compile rmd e_compile info1 info2 info3 (Some ns) set0 key digest None CL_OP_WRITE None 0
          (Some (map g [0..<STACK_BUF_SZ])) STACK_BUF_SZ w trid None);
     if rv \<noteq> 0 then Some (Answer (- 1) m asc s None)
     else do {
       wr_buf \<leftarrow> wr;
       let (deadline, progress) = request_deadline w now;
       let rq = \<lparr>rq_info1 = info1, rq_info2 = info2, rq_ns = ns_name,
         rq_digest = (case d_ret of Some d \<Rightarrow> d | None \<Rightarrow> map g [0..<20]), rq_write_parameters = w,
         rq_deadline = deadline, rq_progress = progress, rq_size = wr_sz\<rparr>;
       r \<leftarrow> try_loop e_pool rq (map g [0..<30]) envs 0 m asc (- 1) wr_buf (Rd_Stack (map g [0..<STACK_BUF_SZ]));
       case r of Busy \<Rightarrow> Some No_Answer
       | Failure m asc rv \<Rightarrow> Some (Answer rv m asc s None)
       | Response m asc msg rd sz tries \<Rightarrow> do {
           gen \<leftarrow> load_u32 msg 14;
           (rv, s) \<leftarrow> finish e_parse arr rq msg rd sz tries s;
           Some (Answer rv m asc s (Some gen)) } } }"

subsection \<open>References and descriptors over a try\<close>

text \<open>
  A cluster in order, when \<open>r q\<close> references to the node \<open>q\<close> are held by others. Counters are
  32 bits wide, and shares of less than \<open>2 ^ 30\<close> keep them from wrapping around.
\<close>

definition cluster_ok :: "mem \<Rightarrow> cl_cluster \<Rightarrow> (node_ptr \<Rightarrow> nat) \<Rightarrow> bool" where
  "cluster_ok m asc r \<longleftrightarrow> mem_ok m (\<lambda>q. cluster_refs asc q + r q) \<and> cluster_wf asc \<and>
     (\<forall>q. cluster_refs asc q < 2 ^ 30)"

definition keeps_shares :: "(mem \<times> cl_cluster \<Rightarrow> mem \<times> cl_cluster) \<Rightarrow> bool" where
  "keeps_shares f \<longleftrightarrow> (\<forall>m asc r. cluster_ok m asc r \<longrightarrow> cluster_ok (fst (f (m, asc))) (snd (f (m, asc))) r)"

definition script_ok :: "'a io_script \<Rightarrow> bool" where
  "script_ok s \<longleftrightarrow> errno_ok (s_ticks s) \<and> s_prep s \<noteq> Epoll_Error 0"

definition env_ok :: "try_env \<Rightarrow> bool" where
  "env_ok env \<longleftrightarrow> keeps_shares (te_before env) \<and> keeps_shares (te_during env) \<and> script_ok (te_write env) \<and>
     script_ok (te_header env) \<and> script_ok (te_body env) \<and>
     - (2 ^ 31) \<le> ce_socket (te_conn env) \<and> ce_socket (te_conn env) < 2 ^ 31"

definition rd_ok :: "rd_buf \<Rightarrow> bool" where
  "rd_ok rd \<longleftrightarrow> (case rd of Rd_Stack b \<Rightarrow> length b = STACK_BUF_SZ | Rd_Heap b \<Rightarrow> False | Rd_Null \<Rightarrow> True)"

lemma cluster_okI_cong: "m_nodes m' = m_nodes m \<Longrightarrow> cluster_ok m' asc r = cluster_ok m asc r"
  by (simp add: cluster_ok_def mem_ok_def)

lemma cluster_ok_close [simp]: "cluster_ok (close_fd m fd) asc r = cluster_ok m asc r"
  by (rule cluster_okI_cong) (simp add: close_fd_def close_all_def)

lemma cluster_ok_last_node [simp]: "cluster_ok m (asc\<lparr>cs_last_node := l\<rparr>) r = cluster_ok m asc r"
  by (simp add: cluster_ok_def cluster_refs_def cluster_wf_def)

lemma read_null:
  "read_loop deadline n None pos ts = Some Waiting \<or>
     (\<exists>rv. rv \<noteq> 0 \<and> read_loop deadline n None pos ts = Some (Returned (rv, None)))" if "errno_ok ts"
  using that by (induction ts) (auto simp: errno_defs Let_def split: epoll_answer.splits sum.splits)

text \<open>A read that is over either failed or filled the buffer; a null pointer never gets data.\<close>

lemma read_timeout_cases:
  assumes "script_ok s" and "0 < n" and "\<And>b. buf = Some b \<Longrightarrow> n \<le> length b"
  shows "\<exists>r. cf_socket_read_timeout s buf n d a = Some r \<and> (case r of Waiting \<Rightarrow> True
     | Returned (rv, buf') \<Rightarrow> (buf = None \<longrightarrow> rv \<noteq> 0) \<and> (\<forall>b. buf = Some b \<longrightarrow> (\<exists>b'. buf' = Some b' \<and> length b' = length b)))"
proof (cases buf)
  case None
  then show ?thesis using assms(1,2) read_null [of "s_ticks s" "attempt_deadline d a (s_start s)" n 0]
    by (auto simp: cf_socket_read_timeout_def script_ok_def errno_defs split: preparation.splits)
next
  case (Some b)
  show ?thesis
  proof (cases "s_prep s")
    case Prepared
    from read_loop_ok [of "s_ticks s" 0 n b "attempt_deadline d a (s_start s)"] assms Some obtain r where r:
      "read_loop (attempt_deadline d a (s_start s)) n (Some b) 0 (s_ticks s) = Some r"
      "read_result (attempt_deadline d a (s_start s)) n b 0 (s_ticks s) r" by (auto simp: script_ok_def)
    then show ?thesis using Prepared Some assms(2,3)
      by (auto simp: cf_socket_read_timeout_def read_result_def Let_def min_def split: outcome.splits)
  qed (use Some assms(2) in \<open>simp_all add: cf_socket_read_timeout_def\<close>)
qed

definition received_ok :: "receive_result \<Rightarrow> bool" where
  "received_ok r \<longleftrightarrow> (case r of Received msg rd sz \<Rightarrow> length msg = 30 \<and>
       (case rd_block rd of None \<Rightarrow> sz = 0 | Some b \<Rightarrow> sz \<le> length b)
     | Receive_Failed rv rd \<Rightarrow> rd_ok rd | _ \<Rightarrow> True)"

lemma receive_body_ok:
  assumes "script_ok (te_body env)" and "rd_ok rd" and "length msg = 30"
  shows "\<exists>r. receive_body env rq msg rd = Some r \<and> received_ok r \<and> (te_malloc env \<noteq> None \<longrightarrow> r \<noteq> Receive_No_Memory)"
proof -
  obtain sz where sz: "body_size msg = Some sz" using assms(3) by (auto simp: body_size_def load_def load_u8_def)
  show ?thesis
  proof (cases "sz = 0")
    case True
    then show ?thesis using sz assms(2,3)
      by (auto simp: receive_body_def received_ok_def rd_ok_def split: rd_buf.splits)
  next
    case nz: False
    let ?rd = "if sz > STACK_BUF_SZ then map_option Rd_Heap (malloc (te_malloc env) sz) else Some rd"
    show ?thesis
    proof (cases ?rd)
      case None
      then show ?thesis using sz nz by (auto simp: receive_body_def received_ok_def malloc_def split: if_splits)
    next
      case (Some rd')
      have l: "rd_block rd' = Some b \<Longrightarrow> sz \<le> length b" for b
        using Some assms(2) by (auto simp: rd_ok_def malloc_def split: if_splits rd_buf.splits)
      have "sz > 0" using nz by simp
      from read_timeout_cases [OF assms(1) this l, of "rd_block rd'" "rq_deadline rq" "rq_progress rq"] obtain r where r:
        "cf_socket_read_timeout (te_body env) (rd_block rd') sz (rq_deadline rq) (rq_progress rq) = Some r"
        "case r of Waiting \<Rightarrow> True | Returned (rv, buf') \<Rightarrow> (rd_block rd' = None \<longrightarrow> rv \<noteq> 0) \<and>
           (\<forall>b. rd_block rd' = Some b \<longrightarrow> (\<exists>b'. buf' = Some b' \<and> length b' = length b))" by auto
      show ?thesis
      proof (cases r)
        case Waiting
        then show ?thesis using sz nz Some r(1) by (simp add: receive_body_def received_ok_def)
      next
        case (Returned x)
        obtain rv buf' where x: "x = (rv, buf')" by (cases x)
        have e: "receive_body env rq msg rd = Some (if rv \<noteq> 0 then Receive_Failed rv Rd_Null else Received msg (rd_put rd' buf') sz)"
          using sz nz Some r(1) Returned x by (simp add: receive_body_def)
        show ?thesis
        proof (cases "rv = 0")
          case True
          then obtain b where b: "rd_block rd' = Some b" using r(2) Returned x by (cases "rd_block rd'") auto
          then obtain b' where b': "buf' = Some b'" "length b' = length b" using r(2) Returned x by auto
          have "rd_block (rd_put rd' buf') = Some b'" using b b'(1) by (cases rd') auto
          then show ?thesis using e True l [OF b] b'(2) assms(3) by (simp add: received_ok_def)
        next
          case False
          then show ?thesis using e by (simp add: received_ok_def rd_ok_def)
        qed
      qed
    qed
  qed
qed

lemma swap_header_ok: "length b = 30 \<Longrightarrow> \<exists>b1 b2. cl_proto_swap b 0 = Some b1 \<and> cl_msg_swap_header b1 8 = Some b2 \<and> length b2 = 30"
proof -
  assume l: "length b = 30"
  have s: "\<exists>b'. swap_bytes b off n = Some b' \<and> length b' = 30" if "length b = 30" "off + n \<le> 30" for b off n
    using that by (simp add: swap_bytes_def load_def store_def)
  obtain b1 where b1: "cl_proto_swap b 0 = Some b1" "length b1 = 30"
    using l by (simp add: cl_proto_swap_def load_def store_def)
  obtain c1 where c1: "swap_bytes b1 14 4 = Some c1" "length c1 = 30" using s [OF b1(2), of 14 4] by auto
  obtain c2 where c2: "swap_bytes c1 18 4 = Some c2" "length c2 = 30" using s [OF c1(2), of 18 4] by auto
  obtain c3 where c3: "swap_bytes c2 22 4 = Some c3" "length c3 = 30" using s [OF c2(2), of 22 4] by auto
  obtain c4 where c4: "swap_bytes c3 26 2 = Some c4" "length c4 = 30" using s [OF c3(2), of 26 2] by auto
  obtain c5 where c5: "swap_bytes c4 28 2 = Some c5" "length c5 = 30" using s [OF c4(2), of 28 2] by auto
  show ?thesis using b1 c1 c2 c3 c4 c5 by (simp add: cl_msg_swap_header_def)
qed

lemma receive_ok:
  assumes "script_ok (te_header env)" and "script_ok (te_body env)" and "rd_ok rd" and "length msg = 30"
  shows "\<exists>r. receive env rq msg rd = Some r \<and> received_ok r \<and> (te_malloc env \<noteq> None \<longrightarrow> r \<noteq> Receive_No_Memory)"
proof -
  have "30 \<le> length b" if "Some msg = Some b" for b using that assms(4) by simp
  from read_timeout_cases [where n = 30 and buf = "Some msg" and d = "rq_deadline rq" and a = "rq_progress rq", OF assms(1) _ this]
  obtain r where r: "cf_socket_read_timeout (te_header env) (Some msg) 30 (rq_deadline rq) (rq_progress rq) = Some r"
    "case r of Waiting \<Rightarrow> True | Returned (rv, buf') \<Rightarrow> (Some msg = None \<longrightarrow> rv \<noteq> 0) \<and>
       (\<forall>b. Some msg = Some b \<longrightarrow> (\<exists>b'. buf' = Some b' \<and> length b' = length b))" by auto
  show ?thesis
  proof (cases r)
    case Waiting
    then show ?thesis using r(1) by (simp add: receive_def received_ok_def)
  next
    case (Returned x)
    obtain rv buf' where x: "x = (rv, buf')" by (cases x)
    obtain b where b: "buf' = Some b" "length b = 30" using r(2) Returned x assms(4) by auto
    show ?thesis
    proof (cases "rv = 0")
      case True
      from swap_header_ok [OF b(2)] obtain b1 b2 where "cl_proto_swap b 0 = Some b1" "cl_msg_swap_header b1 8 = Some b2" "length b2 = 30" by blast
      then show ?thesis using receive_body_ok [OF assms(2,3), of b2 rq] True r(1) Returned x b(1) by (simp add: receive_def)
    next
      case False
      then show ?thesis using r(1) Returned x assms(3) by (simp add: receive_def received_ok_def)
    qed
  qed
qed

lemma exchange_msg_ok:
  assumes "env_ok env" and "rd_ok rd" and "length msg = 30"
  shows "\<exists>r. exchange_msg env rq msg rd = Some r \<and> received_ok r \<and> (te_malloc env \<noteq> None \<longrightarrow> r \<noteq> Receive_No_Memory)"
proof -
  have s: "script_ok (te_header env)" "script_ok (te_body env)" using assms(1) by (simp_all add: env_ok_def)
  show ?thesis using receive_ok [OF s assms(2,3), of rq] assms(2)
    by (auto simp: exchange_msg_def received_ok_def split: outcome.splits)
qed

text \<open>Giving a node up, and putting it back with its descriptor.\<close>

lemma cluster_ok_split:
  "cluster_ok m asc (\<lambda>q. held [p] q + r q) \<longleftrightarrow>
     mem_ok m (\<lambda>q. held [p] q + (cluster_refs asc q + r q)) \<and> cluster_wf asc \<and> (\<forall>q. cluster_refs asc q < 2 ^ 30)"
  by (simp add: cluster_ok_def add.left_commute)

lemma give_up_ok:
  assumes "cluster_ok m asc (\<lambda>q. held [p] q + r q)"
  shows "\<exists>m'. give_up m fd (Some p) = Some m' \<and> cluster_ok m' asc r"
proof -
  have "cluster_ok (close_fd m fd) asc (\<lambda>q. held [p] q + r q)" using assms by simp
  then have "mem_ok (close_fd m fd) (\<lambda>q. held [p] q + (cluster_refs asc q + r q))" unfolding cluster_ok_split by simp
  from rc.release_one [OF this] show ?thesis using assms
    by (auto simp: give_up_def cl_cluster_node_put_def cluster_ok_def)
qed

lemma put_back_ok:
  assumes "cluster_ok m asc (\<lambda>q. held [p] q + r q)" and "- (2 ^ 31) \<le> fd" and "fd < 2 ^ 31"
  shows "\<exists>m'. put_back (Some g) m p fd = Some m' \<and> cluster_ok m' asc r"
proof -
  have ok: "mem_ok m (\<lambda>q. held [p] q + (cluster_refs asc q + r q))" using assms(1) unfolding cluster_ok_split by simp
  have pos: "0 < (\<lambda>q. held [p] q + (cluster_refs asc q + r q)) p" by simp
  from mem_okD [OF ok pos] obtain n where n: "m_nodes m p = Some n" "node_ok n" by blast
  have ok1: "mem_ok (put_node m p (n\<lparr>cn_intervals_unreachable := 0\<rparr>)) (\<lambda>q. held [p] q + (cluster_refs asc q + r q))"
    by (rule mem_ok_update [OF ok n(1)]) (use n(2) in \<open>simp_all add: node_ok_def\<close>)
  from cl_cluster_node_fd_put_ok [OF ok1 pos assms(2,3), of g] obtain m1 where
    m1: "cl_cluster_node_fd_put (Some g) (put_node m p (n\<lparr>cn_intervals_unreachable := 0\<rparr>)) p fd False = Some m1"
    "mem_ok m1 (\<lambda>q. held [p] q + (cluster_refs asc q + r q))" by blast
  from rc.release_one [OF m1(2)] obtain m2 where m2: "cl_cluster_node_release m1 p = Some m2"
    "mem_ok m2 (\<lambda>q. cluster_refs asc q + r q)" by blast
  show ?thesis using m1(1) m2 n(1) assms(1)
    by (simp add: put_back_def cl_cluster_node_put_def cluster_ok_def)
qed

lemma get_fd_ok:
  assumes "cluster_ok m asc (\<lambda>q. held [p] q + r q)" and "- (2 ^ 31) \<le> ce_socket env" and "ce_socket env < 2 ^ 31"
  shows "\<exists>fd m'. cl_cluster_node_fd_get env m p False nb = Some (fd, m') \<and>
    cluster_ok m' asc (\<lambda>q. held [p] q + r q) \<and> - (2 ^ 31) \<le> fd \<and> fd < 2 ^ 31"
proof -
  have ok: "mem_ok m (\<lambda>q. held [p] q + (cluster_refs asc q + r q))" using assms(1) unfolding cluster_ok_split by simp
  have pos: "0 < (\<lambda>q. held [p] q + (cluster_refs asc q + r q)) p" by simp
  from cl_cluster_node_fd_get_ok [OF ok pos, of env nb] obtain fd m' where f:
    "cl_cluster_node_fd_get env m p False nb = Some (fd, m')" "mem_ok m' (\<lambda>q. held [p] q + (cluster_refs asc q + r q))"
    "case pool m p of x # xs \<Rightarrow> fd = x \<and> pool m' p = xs \<and> m_closed m' = m_closed m
     | [] \<Rightarrow> pool m' p = [] \<and> (fd = ce_socket env \<and> m_closed m' = m_closed m \<or>
          fd = - 1 \<and> m_closed m' = m_closed m @ [ce_socket env])" by blast
  have "- (2 ^ 31) \<le> fd \<and> fd < 2 ^ 31"
  proof (cases "pool m p")
    case Nil
    then show ?thesis using f(3) assms(2,3) by auto
  next
    case (Cons x xs)
    then have "fd \<in> set (pool m p)" using f(3) by simp
    then obtain b where "fd = fd_of b" by (auto simp: pool_def split: option.splits)
    then show ?thesis using sint_greater_eq [of "le_word b :: u32"] sint_less [of "le_word b :: u32"] by (simp add: fd_of_def)
  qed
  then show ?thesis using f(1,2) assms(1) unfolding cluster_ok_split by blast
qed

subsection \<open>One try, and all tries\<close>

text \<open>What a try and a loop of tries leave behind.\<close>

definition try_ok :: "(node_ptr \<Rightarrow> nat) \<Rightarrow> try_env \<Rightarrow> nat \<Rightarrow> try_result \<Rightarrow> bool" where
  "try_ok r env n res \<longleftrightarrow> (case res of
     Try_Ok m asc msg rd sz \<Rightarrow> cluster_ok m asc r \<and> received_ok (Received msg rd sz)
   | Try_Retry m asc rv wr rd \<Rightarrow> cluster_ok m asc r \<and> rd_ok rd \<and> length wr = n
   | Try_Error m asc rv \<Rightarrow> te_malloc env = None \<and> rv = - 1 \<and> (\<exists>p. cluster_ok m asc (\<lambda>q. held [p] q + r q))
   | Try_Waiting \<Rightarrow> True)"

lemma cluster_refs_last_node [simp]: "cluster_refs (asc\<lparr>cs_last_node := l\<rparr>) = cluster_refs asc"
  by (simp add: cluster_refs_def fun_eq_iff)

lemma cluster_wf_last_node [simp]: "cluster_wf (asc\<lparr>cs_last_node := l\<rparr>) = cluster_wf asc"
  by (simp add: cluster_wf_def)

lemma keeps_sharesD:
  "keeps_shares f \<Longrightarrow> cluster_ok m asc r \<Longrightarrow> f (m, asc) = (m', asc') \<Longrightarrow> cluster_ok m' asc' r"
  unfolding keeps_shares_def by (metis fst_conv snd_conv)

lemma clear_verify_ok: "10 \<le> length wr \<Longrightarrow> \<exists>wr'. clear_verify rq wr = Some wr' \<and> length wr' = length wr"
  by (auto simp: clear_verify_def load_u8_def load_def store_def)

lemma one_try_ok:
  assumes ok: "cluster_ok m asc r" and r: "\<And>q. r q < 2 ^ 30" and env: "env_ok env" and rd: "rd_ok rd"
    and l: "length msg = 30" "10 \<le> length wr" "2 \<le> length (rq_digest rq)"
  shows "\<exists>res. one_try (Some g) env rq m asc rv wr msg rd = Some res \<and> try_ok r env (length wr) res"
proof -
  obtain m1 asc1 where b: "te_before env (m, asc) = (m1, asc1)" by fastforce
  have ok1: "cluster_ok m1 asc1 r" using keeps_sharesD [where f = "te_before env", OF _ ok b] env by (simp add: env_ok_def)
  have refs: "cluster_refs asc1 q + r q + 1 < 2 ^ 32" for q
  proof -
    have "cluster_refs asc1 q < 2 ^ 30" using ok1 by (simp add: cluster_ok_def)
    then show ?thesis using r [of q] by simp
  qed
  from ok1 have "mem_ok m1 (\<lambda>q. cluster_refs asc1 q + r q)" "cluster_wf asc1" by (simp_all add: cluster_ok_def)
  from node_get_ok [OF this l(3) refs, of "rq_ns rq" "rq_info2 rq AND CL_MSG_INFO2_WRITE \<noteq> 0"] obtain x m2 last where n:
    "cl_cluster_node_get m1 asc1 (rq_ns rq) (rq_digest rq) (rq_info2 rq AND CL_MSG_INFO2_WRITE \<noteq> 0) = Some (x, m2, asc1\<lparr>cs_last_node := last\<rparr>)"
    "mem_ok m2 (\<lambda>q. held (opt_list x) q + (cluster_refs asc1 q + r q))" by blast
  let ?asc = "asc1\<lparr>cs_last_node := last\<rparr>"
  show ?thesis
  proof (cases x)
    case None
    have "cluster_ok m2 ?asc r" unfolding cluster_ok_last_node using n(2) None ok1 by (simp add: cluster_ok_def)
    then show ?thesis using b n(1) None rd by (simp add: one_try_def try_ok_def)
  next
    case (Some p)
    have ok2: "cluster_ok m2 ?asc (\<lambda>q. held [p] q + r q)"
      unfolding cluster_ok_last_node cluster_ok_split using n(2) Some ok1 by (simp add: cluster_ok_def)
    have ce: "- (2 ^ 31) \<le> ce_socket (te_conn env)" "ce_socket (te_conn env) < 2 ^ 31" using env by (simp_all add: env_ok_def)
    from get_fd_ok [OF ok2 ce, of "cs_nbconnect ?asc"] obtain fd m3 where f:
      "cl_cluster_node_fd_get (te_conn env) m2 p False (cs_nbconnect ?asc) = Some (fd, m3)"
      "cluster_ok m3 ?asc (\<lambda>q. held [p] q + r q)" "- (2 ^ 31) \<le> fd" "fd < 2 ^ 31" by blast
    show ?thesis
    proof (cases "fd = - 1")
      case True
      from give_up_ok [OF f(2), of fd] obtain m4 where "give_up m3 fd (Some p) = Some m4" "cluster_ok m4 ?asc r" by blast
      then show ?thesis using b n(1) Some f(1) True rd by (simp add: one_try_def try_ok_def)
    next
      case fd: False
      from clear_verify_ok [OF l(2), of rq] obtain wr' where w: "clear_verify rq wr = Some wr'" "length wr' = length wr" by blast
      from exchange_msg_ok [OF env rd l(1), of rq] obtain e where e: "exchange_msg env rq msg rd = Some e" "received_ok e"
        "te_malloc env \<noteq> None \<longrightarrow> e \<noteq> Receive_No_Memory" by blast
      obtain m4 asc4 where d: "te_during env (m3, ?asc) = (m4, asc4)" by fastforce
      have ok4: "cluster_ok m4 asc4 (\<lambda>q. held [p] q + r q)" using keeps_sharesD [where f = "te_during env", OF _ f(2) d] env by (simp add: env_ok_def)
      note step = b n(1) Some f(1) fd w e(1) d
      show ?thesis
      proof (cases e)
        case (Received msg' rd' sz)
        from put_back_ok [OF ok4 f(3,4), of g] obtain m5 where "put_back (Some g) m4 p fd = Some m5" "cluster_ok m5 asc4 r" by blast
        then show ?thesis using step Received e(2) by (simp add: one_try_def try_ok_def)
      next
        case (Receive_Failed rv' rd')
        from give_up_ok [OF ok4, of fd] obtain m5 where "give_up m4 fd (Some p) = Some m5" "cluster_ok m5 asc4 r" by blast
        then show ?thesis using step Receive_Failed e(2) by (simp add: one_try_def try_ok_def received_ok_def)
      next
        case Receive_No_Memory
        have "cluster_ok (close_fd m4 fd) asc4 (\<lambda>q. held [p] q + r q)" using ok4 by simp
        then show ?thesis using step Receive_No_Memory e(3) unfolding try_ok_def one_try_def by auto
      next
        case Receive_Waiting
        then show ?thesis using step by (simp add: one_try_def try_ok_def)
      qed
    qed
  qed
qed

definition loop_ok :: "(node_ptr \<Rightarrow> nat) \<Rightarrow> loop_result \<Rightarrow> bool" where
  "loop_ok r res \<longleftrightarrow> (case res of
     Response m asc msg rd sz tries \<Rightarrow> cluster_ok m asc r \<and> received_ok (Received msg rd sz)
   | Failure m asc rv \<Rightarrow> cluster_ok m asc r
   | Busy \<Rightarrow> True)"

lemma try_loop_ok:
  assumes "cluster_ok m asc r" and "\<And>q. r q < 2 ^ 30" and "\<forall>env \<in> set envs. env_ok env \<and> te_malloc env \<noteq> None"
    and "rd_ok rd" and "length msg = 30" and "10 \<le> length wr" and "2 \<le> length (rq_digest rq)"
  shows "\<exists>res. try_loop (Some g) rq msg envs n m asc rv wr rd = Some res \<and> loop_ok r res"
  using assms
proof (induction envs arbitrary: n m asc rv wr rd)
  case Nil
  then show ?case by (simp add: loop_ok_def)
next
  case (Cons env envs)
  have env: "env_ok env" "te_malloc env \<noteq> None" "\<forall>env \<in> set envs. env_ok env \<and> te_malloc env \<noteq> None"
    using Cons.prems(3) by simp_all
  from one_try_ok [OF Cons.prems(1,2) env(1) Cons.prems(4-7), of g rv] obtain res where res:
    "one_try (Some g) env rq m asc rv wr msg rd = Some res" "try_ok r env (length wr) res" by blast
  show ?case
  proof (cases res)
    case (Try_Retry m' asc' rv' wr' rd')
    then have t: "cluster_ok m' asc' r" "rd_ok rd'" "10 \<le> length wr'" using res(2) Cons.prems(6) by (simp_all add: try_ok_def)
    from Cons.IH [OF t(1) Cons.prems(2) env(3) t(2) Cons.prems(5) t(3) Cons.prems(7), of "Suc n" rv']
    show ?thesis using res(1) Try_Retry t(1) by (auto simp: loop_ok_def)
  qed (use res env(2) in \<open>auto simp: try_ok_def loop_ok_def\<close>)
qed

subsection \<open>Time\<close>

text \<open>A script that goes on until the clock has passed the limit of the attempt.\<close>

definition script_ends :: "u64 \<Rightarrow> int \<Rightarrow> 'a io_script \<Rightarrow> bool" where
  "script_ends d a s \<longleftrightarrow> (\<exists>t \<in> set (s_ticks s). attempt_deadline d a (s_start s) < t_now t)"

definition env_ends :: "request \<Rightarrow> try_env \<Rightarrow> bool" where
  "env_ends rq env \<longleftrightarrow> script_ends (rq_deadline rq) (rq_progress rq) (te_write env) \<and>
     script_ends (rq_deadline rq) (rq_progress rq) (te_header env) \<and> script_ends (rq_deadline rq) (rq_progress rq) (te_body env)"

lemma read_loop_ends: "\<exists>t \<in> set ts. deadline < t_now t \<Longrightarrow> read_loop deadline n buf pos ts \<noteq> Some Waiting"
proof (induction ts arbitrary: buf pos)
  case (Cons t ts)
  show ?case
  proof (cases "deadline < t_now t")
    case False
    then have l: "\<exists>t \<in> set ts. deadline < t_now t" using Cons.prems by simp
    show ?thesis using Cons.IH [OF l] False
      by (cases "t_epoll t"; cases "t_io t"; cases buf) (simp_all add: Let_def store_def)
  qed simp
qed simp

lemma write_loop_ends: "\<exists>t \<in> set ts. deadline < t_now t \<Longrightarrow> write_loop deadline n pos ts \<noteq> Waiting"
proof (induction ts arbitrary: pos)
  case (Cons t ts)
  show ?case
  proof (cases "deadline < t_now t")
    case False
    then have l: "\<exists>t \<in> set ts. deadline < t_now t" using Cons.prems by simp
    show ?thesis using Cons.IH [OF l] False
      by (cases "t_epoll t"; cases "t_io t") (simp_all add: Let_def)
  qed simp
qed simp

lemma read_timeout_ends: "script_ends d a s \<Longrightarrow> cf_socket_read_timeout s buf n d a \<noteq> Some Waiting"
  by (auto simp: cf_socket_read_timeout_def script_ends_def read_loop_ends split: preparation.splits)

lemma write_timeout_ends: "script_ends d a s \<Longrightarrow> cf_socket_write_timeout s n d a \<noteq> Waiting"
  by (auto simp: cf_socket_write_timeout_def script_ends_def write_loop_ends split: preparation.splits)

lemma exchange_msg_ends: "env_ends rq env \<Longrightarrow> exchange_msg env rq msg rd \<noteq> Some Receive_Waiting"
  using read_timeout_ends [of "rq_deadline rq" "rq_progress rq" "te_body env"]
    read_timeout_ends [of "rq_deadline rq" "rq_progress rq" "te_header env"]
    write_timeout_ends [of "rq_deadline rq" "rq_progress rq" "te_write env"]
  by (auto simp: env_ends_def exchange_msg_def receive_def receive_body_def bind_eq_Some_conv
    split: outcome.splits if_splits option.splits)

lemma one_try_ends: "env_ends rq env \<Longrightarrow> one_try e env rq m asc rv wr msg rd \<noteq> Some Try_Waiting"
  using exchange_msg_ends [of rq env msg rd]
  by (auto simp: one_try_def bind_eq_Some_conv split: prod.splits option.splits if_splits receive_result.splits)

lemma try_loop_ends:
  assumes "\<forall>env \<in> set envs. env_ends rq env" and "\<exists>env \<in> set envs. rq_deadline rq < te_now env" and "rq_deadline rq \<noteq> 0"
  shows "try_loop e rq msg envs n m asc rv wr rd \<noteq> Some Busy"
  using assms
proof (induction envs arbitrary: n m asc rv wr rd)
  case (Cons env envs)
  from Cons.prems(1) have ends: "env_ends rq env" by simp
  show ?case using one_try_ends [OF ends, of e m asc rv wr msg rd] Cons
    by (cases "rq_deadline rq < te_now env") (auto simp: bind_eq_Some_conv split: try_result.splits)
qed simp

subsection \<open>Properties\<close>

lemma cluster_ok_node:
  assumes "mem_ok m1 (\<lambda>q. cluster_refs asc q + r q)" and "cluster_wf asc" and "\<And>q. cluster_refs asc q < 2 ^ 30"
    and "mem_ok m2 (\<lambda>q. held (opt_list x) q + (cluster_refs asc q + r q))"
  shows "cluster_ok m2 asc (\<lambda>q. held (opt_list x) q + r q)"
  using assms by (simp add: cluster_ok_def add.left_commute)

text \<open>
  The one way to end without giving the node back: the body of the response is over 16 KB and
  cannot be allocated, and the code goes to the label \<open>Error\<close> with the node in its hands.
\<close>

definition unallocated :: "request \<Rightarrow> block \<Rightarrow> try_env \<Rightarrow> bool" where
  "unallocated rq msg env \<longleftrightarrow> te_malloc env = None \<and> (\<exists>rd. exchange_msg env rq msg rd = Some Receive_No_Memory)"

fun out_of_memory ::
  "malloc_env \<Rightarrow> request \<Rightarrow> block \<Rightarrow> try_env list \<Rightarrow> mem \<Rightarrow> cl_cluster \<Rightarrow> int \<Rightarrow> block \<Rightarrow> rd_buf \<Rightarrow> bool" where
  "out_of_memory e rq msg [] m asc rv wr rd = False"
| "out_of_memory e rq msg (env # envs) m asc rv wr rd =
     (case one_try e env rq m asc rv wr msg rd of
        Some (Try_Error m asc rv) \<Rightarrow> unallocated rq msg env
      | Some (Try_Retry m asc rv wr rd) \<Rightarrow>
          \<not> (rq_deadline rq \<noteq> 0 \<and> rq_deadline rq < te_now env) \<and> may_retry (rq_write_parameters rq) \<and>
          out_of_memory e rq msg envs m asc rv wr rd
      | _ \<Rightarrow> False)"

definition loop_left :: "(node_ptr \<Rightarrow> nat) \<Rightarrow> bool \<Rightarrow> loop_result \<Rightarrow> bool" where
  "loop_left r unalloc res \<longleftrightarrow> (case res of
     Response m asc msg rd sz tries \<Rightarrow> \<not> unalloc \<and> cluster_ok m asc r \<and> received_ok (Received msg rd sz)
   | Failure m asc rv \<Rightarrow>
       if unalloc then rv = - 1 \<and> (\<exists>p. cluster_ok m asc (\<lambda>q. held [p] q + r q)) else cluster_ok m asc r
   | Busy \<Rightarrow> \<not> unalloc)"

lemma one_try_error:
  "one_try e env rq m asc rv wr msg rd = Some (Try_Error m' asc' rv') \<Longrightarrow> exchange_msg env rq msg rd = Some Receive_No_Memory"
  by (cases "exchange_msg env rq msg rd"; cases "the (exchange_msg env rq msg rd)")
    (auto simp: one_try_def bind_eq_Some_conv Let_def case_prod_unfold split: option.splits if_splits)

lemma out_of_memory_unallocated:
  "out_of_memory e rq msg envs m asc rv wr rd \<Longrightarrow> \<exists>env \<in> set envs. unallocated rq msg env"
  by (induction e rq msg envs m asc rv wr rd rule: out_of_memory.induct) (auto split: option.splits try_result.splits)

lemma try_loop_left:
  assumes "cluster_ok m asc r" and "\<And>q. r q < 2 ^ 30" and "\<forall>env \<in> set envs. env_ok env"
    and "rd_ok rd" and "length msg = 30" and "10 \<le> length wr" and "2 \<le> length (rq_digest rq)"
  shows "\<exists>res. try_loop (Some g) rq msg envs n m asc rv wr rd = Some res \<and>
    loop_left r (out_of_memory (Some g) rq msg envs m asc rv wr rd) res"
  using assms
proof (induction envs arbitrary: n m asc rv wr rd)
  case Nil
  then show ?case by (simp add: loop_left_def)
next
  case (Cons env envs)
  have env: "env_ok env" "\<forall>env \<in> set envs. env_ok env" using Cons.prems(3) by simp_all
  from one_try_ok [OF Cons.prems(1,2) env(1) Cons.prems(4-7), of g rv] obtain res where res:
    "one_try (Some g) env rq m asc rv wr msg rd = Some res" "try_ok r env (length wr) res" by blast
  show ?case
  proof (cases res)
    case (Try_Retry m' asc' rv' wr' rd')
    then have t: "cluster_ok m' asc' r" "rd_ok rd'" "10 \<le> length wr'" using res(2) Cons.prems(6) by (simp_all add: try_ok_def)
    from Cons.IH [OF t(1) Cons.prems(2) env(2) t(2) Cons.prems(5) t(3) Cons.prems(7), of "Suc n" rv']
    obtain res' where rest: "try_loop (Some g) rq msg envs (Suc n) m' asc' rv' wr' rd' = Some res'"
      "loop_left r (out_of_memory (Some g) rq msg envs m' asc' rv' wr' rd') res'" by blast
    consider "rq_deadline rq \<noteq> 0 \<and> rq_deadline rq < te_now env" | "\<not> may_retry (rq_write_parameters rq)"
      | "\<not> (rq_deadline rq \<noteq> 0 \<and> rq_deadline rq < te_now env)" "may_retry (rq_write_parameters rq)" by blast
    then show ?thesis
    proof cases
      case 3
      then show ?thesis using res(1) Try_Retry rest by auto
    qed (use res(1) Try_Retry t(1) in \<open>simp_all add: loop_left_def\<close>)
  next
    case (Try_Error m' asc' rv')
    with res(1) have "exchange_msg env rq msg rd = Some Receive_No_Memory" by (metis one_try_error)
    then have "unallocated rq msg env" using Try_Error res(2) by (auto simp: unallocated_def try_ok_def)
    then show ?thesis using res Try_Error by (simp add: try_ok_def loop_left_def)
  qed (use res in \<open>simp_all add: try_ok_def loop_left_def\<close>)
qed

text \<open>C2: A transaction gives back every reference that it takes, with one exception. Whatever the kernel
  answers, whatever the other threads do to the nodes between and during the tries (as long as they
  keep the shares of the references in order), and however many tries it takes, no try reads or
  writes outside of a buffer, and afterwards the counter of each node is again the number of the
  references of the cluster and of the others. The exception is a try in which a response with a
  body over 16 KB arrives and the allocation of that body fails: the transaction ends at once with -1, and one
  reference, to the node of that try, is kept for ever.\<close>

theorem transaction_returns_references:
  assumes "cluster_ok m asc r" and "\<And>q. r q < 2 ^ 30" and "\<forall>env \<in> set envs. env_ok env"
    and "rd_ok rd" and "length msg = 30" and "10 \<le> length wr" and "2 \<le> length (rq_digest rq)"
  shows "case try_loop (Some g) rq msg envs n m asc rv wr rd of
      None \<Rightarrow> False
    | Some (Response m' asc' msg' rd' sz tries) \<Rightarrow> mem_ok m' (\<lambda>q. cluster_refs asc' q + r q) \<and>
        (case rd_block rd' of None \<Rightarrow> sz = 0 | Some b \<Rightarrow> sz \<le> length b)
    | Some (Failure m' asc' rv') \<Rightarrow>
        if out_of_memory (Some g) rq msg envs m asc rv wr rd
        then rv' = - 1 \<and> (\<exists>env \<in> set envs. unallocated rq msg env) \<and>
          (\<exists>p. mem_ok m' (\<lambda>q. cluster_refs asc' q + (held [p] q + r q)))
        else mem_ok m' (\<lambda>q. cluster_refs asc' q + r q)
    | Some Busy \<Rightarrow> \<not> out_of_memory (Some g) rq msg envs m asc rv wr rd"
proof -
  from try_loop_left [OF assms, of g n rv] obtain res where
    "try_loop (Some g) rq msg envs n m asc rv wr rd = Some res"
    "loop_left r (out_of_memory (Some g) rq msg envs m asc rv wr rd) res" by blast
  then show ?thesis using out_of_memory_unallocated [of "Some g" rq msg envs m asc rv wr rd]
    by (cases res) (auto simp: loop_left_def cluster_ok_def received_ok_def)
qed

text \<open>The answers of a server that sends a response without records, and of one that says nothing.\<close>

definition sample_ticks :: "'a + int \<Rightarrow> 'a io_script" where
  "sample_ticks x = \<lparr>s_prep = Prepared, s_start = 5, s_ticks = [\<lparr>t_now = 6, t_epoll = Event True, t_io = x\<rparr>,
     \<lparr>t_now = 90, t_epoll = No_Event, t_io = Inr EAGAIN\<rparr>]\<rparr>"

definition sample_conn :: conn_env where
  "sample_conn = \<lparr>ce_socket = 21, ce_nonblock_first = True, ce_nonblock_then = True, ce_connect = (\<lambda>_. None)\<rparr>"

definition sample_header :: block where
  "sample_header = [2, 3, 0, 0, 0, 0, 0, 22, 22, 0, 0, 0, 0, 0] @ replicate 16 0"

definition sample_env :: "(block + int) \<Rightarrow> try_env" where
  "sample_env x = \<lparr>te_before = id, te_during = id, te_conn = sample_conn, te_write = sample_ticks (Inl 44),
     te_header = sample_ticks x, te_body = sample_ticks (Inl []), te_malloc = Some (\<lambda>_. 0), te_now = 95\<rparr>"

definition sample_request :: request where
  "sample_request = \<lparr>rq_info1 = 1, rq_info2 = 0, rq_ns = [97], rq_digest = replicate 20 0, rq_write_parameters = None,
     rq_deadline = 80, rq_progress = 50, rq_size = 44\<rparr>"

lemma sample_cluster_in_order: "cluster_ok sample_mem sample_cluster (\<lambda>_. 0)"
  using sample_cluster_ok sample_cluster_wf by (simp add: cluster_ok_def sample_cluster_refs)

lemma sample_env_ok: "env_ok (sample_env x) \<longleftrightarrow> x \<noteq> Inr 0"
  by (auto simp: env_ok_def sample_env_def keeps_shares_def script_ok_def sample_ticks_def errno_ok_def errno_defs sample_conn_def)

lemma sample_env_ok_malloc: "env_ok (sample_env x\<lparr>te_malloc := e\<rparr>) \<longleftrightarrow> x \<noteq> Inr 0"
  using sample_env_ok [of x] by (simp add: env_ok_def)

lemma sample_rd_ok: "rd_ok (Rd_Stack (replicate STACK_BUF_SZ 0))"
  by (simp add: rd_ok_def)

text \<open>A server that announces a body of 20 KB, and a client without memory for it.\<close>

definition sample_big_header :: block where
  "sample_big_header = [2, 3, 0, 0, 0, 0, 80, 0, 22, 0, 0, 0, 0, 0] @ replicate 16 0"

theorem transaction_returns_references_witness:
  "case try_loop (Some (\<lambda>_. 0)) sample_request (replicate 30 0) [sample_env (Inr 104), sample_env (Inl sample_big_header)\<lparr>te_malloc := None\<rparr>] 0
      sample_mem sample_cluster (- 1) (replicate 44 0) (Rd_Stack (replicate STACK_BUF_SZ 0)) of
      None \<Rightarrow> False
    | Some (Response m' asc' msg' rd' sz tries) \<Rightarrow> mem_ok m' (\<lambda>q. cluster_refs asc' q + 0) \<and>
        (case rd_block rd' of None \<Rightarrow> sz = 0 | Some b \<Rightarrow> sz \<le> length b)
    | Some (Failure m' asc' rv') \<Rightarrow>
        if out_of_memory (Some (\<lambda>_. 0)) sample_request (replicate 30 0) [sample_env (Inr 104), sample_env (Inl sample_big_header)\<lparr>te_malloc := None\<rparr>]
            sample_mem sample_cluster (- 1) (replicate 44 0) (Rd_Stack (replicate STACK_BUF_SZ 0))
        then rv' = - 1 \<and> (\<exists>env \<in> set [sample_env (Inr 104), sample_env (Inl sample_big_header)\<lparr>te_malloc := None\<rparr>].
            unallocated sample_request (replicate 30 0) env) \<and>
          (\<exists>p. mem_ok m' (\<lambda>q. cluster_refs asc' q + (held [p] q + 0)))
        else mem_ok m' (\<lambda>q. cluster_refs asc' q + 0)
    | Some Busy \<Rightarrow> \<not> out_of_memory (Some (\<lambda>_. 0)) sample_request (replicate 30 0) [sample_env (Inr 104), sample_env (Inl sample_big_header)\<lparr>te_malloc := None\<rparr>]
            sample_mem sample_cluster (- 1) (replicate 44 0) (Rd_Stack (replicate STACK_BUF_SZ 0))"
  by (rule transaction_returns_references [OF sample_cluster_in_order])
    (simp_all add: sample_env_ok sample_env_ok_malloc sample_rd_ok sample_request_def)

text \<open>C5: With a time limit a transaction ends: once a try ends after the deadline, and the scripts of the kernel
  reach the limits of their waits, there is an answer, whatever else happens.\<close>

theorem transaction_ends:
  assumes "cluster_ok m asc r" and "\<And>q. r q < 2 ^ 30" and "\<forall>env \<in> set envs. env_ok env"
    and "rd_ok rd" and "length msg = 30" and "10 \<le> length wr" and "2 \<le> length (rq_digest rq)"
    and "\<forall>env \<in> set envs. env_ends rq env" and "\<exists>env \<in> set envs. rq_deadline rq < te_now env" and "rq_deadline rq \<noteq> 0"
  shows "\<exists>m' asc'. (\<exists>rv'. try_loop (Some g) rq msg envs n m asc rv wr rd = Some (Failure m' asc' rv')) \<or>
    (\<exists>msg' rd' sz tries. try_loop (Some g) rq msg envs n m asc rv wr rd = Some (Response m' asc' msg' rd' sz tries))"
proof -
  from try_loop_left [OF assms(1-7), of g n rv] obtain res where
    res: "try_loop (Some g) rq msg envs n m asc rv wr rd = Some res" by blast
  then show ?thesis using try_loop_ends [OF assms(8-10), of "Some g" msg n m asc rv wr rd] by (cases res) auto
qed

theorem transaction_ends_witness:
  "\<exists>m' asc'. (\<exists>rv'. try_loop (Some (\<lambda>_. 0)) sample_request (replicate 30 0) [sample_env (Inr 104)] 0 sample_mem sample_cluster
      (- 1) (replicate 44 0) (Rd_Stack (replicate STACK_BUF_SZ 0)) = Some (Failure m' asc' rv')) \<or>
    (\<exists>msg' rd' sz tries. try_loop (Some (\<lambda>_. 0)) sample_request (replicate 30 0) [sample_env (Inr 104)] 0 sample_mem sample_cluster
      (- 1) (replicate 44 0) (Rd_Stack (replicate STACK_BUF_SZ 0)) = Some (Response m' asc' msg' rd' sz tries))"
  by (rule transaction_ends [OF sample_cluster_in_order])
    (simp_all add: sample_env_ok sample_rd_ok sample_request_def, simp_all add: sample_env_def env_ends_def script_ends_def
      sample_ticks_def attempt_deadline_def)

lemma read_loop_short:
  assumes "errno_ok ts" and "pos < n" and "n \<le> length b" and "pos + length (delivered ts) < n"
  shows "read_loop deadline n (Some b) pos ts \<noteq> Some (Returned (0, b'))"
proof
  assume e: "read_loop deadline n (Some b) pos ts = Some (Returned (0, b'))"
  from read_loop_ok [OF assms(1-3), of deadline] e have "read_result deadline n b pos ts (Returned (0, b'))" by simp
  then obtain k where "n \<le> pos + length (take (n - pos) (delivered (take k ts)))" by (auto simp: read_result_def Let_def)
  then have k: "n - pos \<le> length (delivered (take k ts))" using assms(2) by simp
  have "length (delivered (take k ts)) \<le> length (delivered ts)"
    by (induction ts arbitrary: k) (auto simp: take_Cons' split: epoll_answer.splits bool.splits sum.splits)
  then show False using k assms(4) by simp
qed

lemma short_header_read:
  assumes "env_ok env" and "length msg = 30" and "length (delivered (s_ticks (te_header env))) < 30"
  shows "cf_socket_read_timeout (te_header env) (Some msg) 30 d a \<noteq> Some (Returned (0, b))"
proof -
  have "errno_ok (s_ticks (te_header env))" using assms(1) by (simp add: env_ok_def script_ok_def)
  from read_loop_short [OF this, of 0 30 msg] assms(2,3) show ?thesis
    using assms(1) by (auto simp: cf_socket_read_timeout_def env_ok_def script_ok_def errno_defs split: preparation.splits)
qed

lemma short_header:
  assumes "env_ok env" and "length msg = 30" and "length (delivered (s_ticks (te_header env))) < 30"
  shows "exchange_msg env rq msg rd \<noteq> Some (Received msg' rd' sz)"
  using short_header_read [OF assms] by (auto simp: exchange_msg_def receive_def bind_eq_Some_conv split: outcome.splits if_splits)

lemma short_header_allocates:
  assumes "env_ok env" and "length msg = 30" and "length (delivered (s_ticks (te_header env))) < 30"
  shows "exchange_msg env rq msg rd \<noteq> Some Receive_No_Memory"
  using short_header_read [OF assms] by (auto simp: exchange_msg_def receive_def bind_eq_Some_conv split: outcome.splits if_splits)

lemma one_try_received:
  assumes "\<And>msg' rd' sz. exchange_msg env rq msg rd \<noteq> Some (Received msg' rd' sz)"
  shows "one_try e env rq m asc rv wr msg rd \<noteq> Some (Try_Ok m' asc' msg' rd' sz)"
  using assms
  by (auto simp: one_try_def bind_eq_Some_conv Let_def case_prod_unfold split: option.splits if_splits receive_result.splits)

lemma no_parameters:
  assumes "cluster_ok m asc r" and "\<And>q. r q < 2 ^ 30" and "\<forall>env \<in> set envs. env_ok env"
    and "rd_ok rd" and "length msg = 30" and "10 \<le> length wr" and "2 \<le> length (rq_digest rq)"
    and "rq_write_parameters rq = None" and "rq_deadline rq = 0"
  shows "(\<forall>m' asc' rv'. try_loop (Some g) rq msg envs n m asc rv wr rd = Some (Failure m' asc' rv') \<longrightarrow>
      rv' = - 1 \<and> (\<exists>env \<in> set envs. unallocated rq msg env)) \<and>
    ((\<forall>env \<in> set envs. length (delivered (s_ticks (te_header env))) < 30) \<longrightarrow>
      try_loop (Some g) rq msg envs n m asc rv wr rd = Some Busy)"
  using assms(1-7)
proof (induction envs arbitrary: n m asc rv wr rd)
  case (Cons env envs)
  have env: "env_ok env" "\<forall>env \<in> set envs. env_ok env" using Cons.prems(3) by simp_all
  from one_try_ok [OF Cons.prems(1,2) env(1) Cons.prems(4-7), of g rv] obtain res where res:
    "one_try (Some g) env rq m asc rv wr msg rd = Some res" "try_ok r env (length wr) res" by blast
  show ?case
  proof (cases res)
    case (Try_Retry m' asc' rv' wr' rd')
    then have t: "cluster_ok m' asc' r" "rd_ok rd'" "10 \<le> length wr'" using res(2) Cons.prems(6) by (simp_all add: try_ok_def)
    from Cons.IH [OF t(1) Cons.prems(2) env(2) t(2) Cons.prems(5) t(3) Cons.prems(7), of "Suc n" rv']
    show ?thesis using res(1) Try_Retry assms(8,9) by (auto simp: may_retry_def)
  next
    case (Try_Ok m' asc' msg' rd' sz)
    then have "\<not> length (delivered (s_ticks (te_header env))) < 30"
      using one_try_received [of env rq msg rd, OF short_header [OF env(1) Cons.prems(5)]] res(1) by blast
    then show ?thesis using res Try_Ok by simp
  next
    case (Try_Error m' asc' rv')
    have x: "exchange_msg env rq msg rd = Some Receive_No_Memory" using one_try_error res(1) Try_Error by blast
    then have "\<not> length (delivered (s_ticks (te_header env))) < 30" using short_header_allocates [OF env(1) Cons.prems(5)] by blast
    then show ?thesis using res Try_Error x by (auto simp: try_ok_def unallocated_def)
  qed (use res in \<open>auto simp: try_ok_def\<close>)
qed simp

text \<open>C35: A call without write parameters has no deadline and no one-shot policy. After any number of
  tries it has a response or is still busy, or, in one case only, it has failed with -1: a server announced a body of over
  16 KB that could not be allocated. It never gives up for another reason, however many tries fail;
  and as long as the servers deliver less than a whole header it is busy for ever.\<close>

theorem no_parameters_no_end:
  assumes "cluster_ok m asc r" and "\<And>q. r q < 2 ^ 30" and "\<forall>env \<in> set envs. env_ok env"
    and "rd_ok rd" and "length msg = 30" and "10 \<le> length wr" and "2 \<le> length (rq_digest rq)"
    and "rq_write_parameters rq = None" and "rq_deadline rq = fst (request_deadline (rq_write_parameters rq) now)"
  shows "(\<forall>m' asc' rv'. try_loop (Some g) rq msg envs n m asc rv wr rd = Some (Failure m' asc' rv') \<longrightarrow>
      rv' = - 1 \<and> (\<exists>env \<in> set envs. unallocated rq msg env)) \<and>
    ((\<forall>env \<in> set envs. length (delivered (s_ticks (te_header env))) < 30) \<longrightarrow>
      try_loop (Some g) rq msg envs n m asc rv wr rd = Some Busy)"
  by (rule no_parameters [OF assms(1-8)]) (simp add: assms(8,9) request_deadline_def)

theorem no_parameters_no_end_witness:
  "try_loop (Some (\<lambda>_. 0)) (sample_request\<lparr>rq_deadline := 0\<rparr>) (replicate 30 0) (replicate 1000 (sample_env (Inr 104)\<lparr>te_malloc := None\<rparr>)) 0
     sample_mem sample_cluster (- 1) (replicate 44 0) (Rd_Stack (replicate STACK_BUF_SZ 0)) = Some Busy"
proof -
  let ?es = "replicate 1000 (sample_env (Inr 104)\<lparr>te_malloc := None\<rparr>)" and ?rq = "sample_request\<lparr>rq_deadline := 0\<rparr>"
  have short: "\<forall>env \<in> set ?es. length (delivered (s_ticks (te_header env))) < 30"
    by (simp add: sample_env_def sample_ticks_def)
  have "(\<forall>m' asc' rv'. try_loop (Some (\<lambda>_. 0)) ?rq (replicate 30 0) ?es 0 sample_mem sample_cluster (- 1) (replicate 44 0)
        (Rd_Stack (replicate STACK_BUF_SZ 0)) = Some (Failure m' asc' rv') \<longrightarrow>
        rv' = - 1 \<and> (\<exists>env \<in> set ?es. unallocated ?rq (replicate 30 0) env)) \<and>
    ((\<forall>env \<in> set ?es. length (delivered (s_ticks (te_header env))) < 30) \<longrightarrow>
      try_loop (Some (\<lambda>_. 0)) ?rq (replicate 30 0) ?es 0 sample_mem sample_cluster (- 1) (replicate 44 0)
        (Rd_Stack (replicate STACK_BUF_SZ 0)) = Some Busy)"
    by (rule no_parameters_no_end [OF sample_cluster_in_order])
      (simp_all add: sample_env_ok_malloc sample_rd_ok sample_request_def request_deadline_def)
  with short show ?thesis by blast
qed

lemma receive_body_null:
  assumes "script_ok (te_body env)" and "receive_body env rq msg Rd_Null = Some (Received msg' rd sz)" and "sz \<le> STACK_BUF_SZ"
  shows "sz = 0 \<and> rd = Rd_Null"
proof -
  from assms(2) obtain n where n: "body_size msg = Some n" by (auto simp: receive_body_def bind_eq_Some_conv)
  consider "n = 0" | "0 < n" "n \<le> STACK_BUF_SZ" | "STACK_BUF_SZ < n" by linarith
  then show ?thesis
  proof cases
    case 2
    have nb: "(None :: block option) = Some b \<Longrightarrow> n \<le> length b" for b by simp
    from read_timeout_cases [where buf = None and d = "rq_deadline rq" and a = "rq_progress rq", OF assms(1) 2(1) nb] obtain r where r:
      "cf_socket_read_timeout (te_body env) None n (rq_deadline rq) (rq_progress rq) = Some r"
      "\<forall>rv b. r = Returned (rv, b) \<longrightarrow> rv \<noteq> 0" by fastforce
    then show ?thesis using assms(2) n 2 by (cases r) (auto simp: receive_body_def split: if_splits)
  next
    case 3
    then obtain b r where "map_option Rd_Heap (malloc (te_malloc env) n) = Some b"
      "cf_socket_read_timeout (te_body env) (rd_block b) n (rq_deadline rq) (rq_progress rq) = Some r"
      using assms(2) n by (auto simp: receive_body_def bind_eq_Some_conv split: option.splits)
    then show ?thesis using assms(2,3) n 3 by (cases r) (auto simp: receive_body_def split: if_splits)
  qed (use assms(2) n in \<open>simp add: receive_body_def\<close>)
qed

text \<open>A failed read of a body is not forgotten. The try gives up the buffer, and in the next tries every body
  of at most 16 KB, however complete, is read into a null pointer: it fails again, and an empty body leads to an unknown failure.\<close>

theorem lost_buffer:
  assumes "cf_socket_read_timeout (te_body env) (rd_block rd) sz (rq_deadline rq) (rq_progress rq) = Some (Returned (rv, b))"
    and "rv \<noteq> 0" and "body_size msg = Some sz" and "0 < sz" and "sz \<le> STACK_BUF_SZ"
  shows "\<exists>rd'. receive_body env rq msg rd = Some (Receive_Failed rv rd') \<and>
    (\<forall>env' msg' msg'' rd'' sz'. env_ok env' \<longrightarrow> length msg' = 30 \<longrightarrow> receive env' rq msg' rd' = Some (Received msg'' rd'' sz') \<longrightarrow>
      STACK_BUF_SZ < sz' \<or> sz' = 0 \<and> (\<forall>envs arr tries s. finish envs arr rq msg'' rd'' sz' tries s = Some (CITRUSLEAF_FAIL_UNKNOWN, s)))"
proof -
  have "receive_body env rq msg rd = Some (Receive_Failed rv Rd_Null)" using assms by (simp add: receive_body_def)
  moreover have "STACK_BUF_SZ < sz' \<or> sz' = 0 \<and> (\<forall>envs arr tries s. finish envs arr rq msg'' rd'' sz' tries s = Some (CITRUSLEAF_FAIL_UNKNOWN, s))"
    if ok: "env_ok env'" and rc: "receive env' rq msg' Rd_Null = Some (Received msg'' rd'' sz')" for env' msg' msg'' rd'' sz'
  proof -
    obtain y where y: "cf_socket_read_timeout (te_header env') (Some msg') 30 (rq_deadline rq) (rq_progress rq) = Some y"
      using rc by (auto simp: receive_def bind_eq_Some_conv)
    have "\<exists>msg1. receive_body env' rq msg1 Rd_Null = Some (Received msg'' rd'' sz')"
      using rc by (cases y) (auto simp: receive_def y bind_eq_Some_conv split: if_splits)
    then obtain msg1 where r: "receive_body env' rq msg1 Rd_Null = Some (Received msg'' rd'' sz')" by blast
    have "script_ok (te_body env')" using ok by (simp add: env_ok_def)
    from receive_body_null [OF this r] show ?thesis by (cases "STACK_BUF_SZ < sz'") (simp_all add: finish_def)
  qed
  ultimately show ?thesis by blast
qed

theorem lost_buffer_witness:
  "\<exists>rd'. receive_body (sample_env (Inl [])) sample_request ([2, 3, 44, 0, 0, 0, 0, 0, 22] @ replicate 21 0) (Rd_Stack (replicate STACK_BUF_SZ 0)) = Some (Receive_Failed EBADF rd') \<and>
    (\<forall>env' msg' msg'' rd'' sz'. env_ok env' \<longrightarrow> length msg' = 30 \<longrightarrow> receive env' sample_request msg' rd' = Some (Received msg'' rd'' sz') \<longrightarrow>
      STACK_BUF_SZ < sz' \<or> sz' = 0 \<and> (\<forall>envs arr tries s. finish envs arr sample_request msg'' rd'' sz' tries s = Some (CITRUSLEAF_FAIL_UNKNOWN, s)))"
  by (rule lost_buffer [where sz = 22 and b = "Some (replicate STACK_BUF_SZ 0)"])
    (simp_all add: sample_env_def sample_ticks_def sample_request_def sample_header_def cf_socket_read_timeout_def attempt_deadline_def
      errno_defs body_size_def STACK_BUF_SZ_def load_def load_u8_def)

end
