(* ===== verification/Cl_Api.thy ===== *)
theory Cl_Api
  imports Cl_Transaction
begin

section \<open>The calls of the client (\<open>src/citrusleaf.c\<close>)\<close>

text \<open>
  Each call of the API for one record is \<open>do_the_full_monte\<close> with the bits of its request. The
  environment of a call: whether the client is initialised, the digest function, the bytes on
  the stack, the allocations, the environments of the tries, the clock at the start, and the
  indeterminate write parameters of a local variable.
\<close>

definition CL_MSG_INFO1_READ :: u32 where "CL_MSG_INFO1_READ = 1"
definition CL_MSG_INFO1_GET_ALL :: u32 where "CL_MSG_INFO1_GET_ALL = 2"
definition CL_MSG_INFO1_XDS :: u32 where "CL_MSG_INFO1_XDS = 16"
definition CL_MSG_INFO1_NOBINDATA :: u32 where "CL_MSG_INFO1_NOBINDATA = 32"
definition CL_MSG_INFO3_REPLACE :: u32 where "CL_MSG_INFO3_REPLACE = 8"
definition CITRUSLEAF_FAIL_DC_DOWN :: int where "CITRUSLEAF_FAIL_DC_DOWN = 1"
definition CITRUSLEAF_FAIL_DC_UP :: int where "CITRUSLEAF_FAIL_DC_UP = 2"

record api_env =
  me_initialized :: bool
  me_rmd :: "block \<Rightarrow> block"
  me_stack :: "nat \<Rightarrow> u8"
  me_compile :: malloc_env
  me_pool :: malloc_env
  me_parse :: "nat \<Rightarrow> malloc_env"
  me_arr :: "(nat \<Rightarrow> cl_operation) option"
  me_tries :: "try_env list"
  me_now :: u64
  me_local :: cl_write_parameters

definition cl_write_parameters_set_default :: "cl_write_parameters \<Rightarrow> cl_write_parameters" where
  "cl_write_parameters_set_default w = w\<lparr>w_unique := False, w_unique_bin := False, w_use_generation := False,
     w_use_generation_gt := False, w_use_generation_dup := False, w_timeout_ms := 0, w_record_ttl := 0, w_retry := True\<rparr>"

definition timed :: "api_env \<Rightarrow> u32 \<Rightarrow> cl_write_parameters option" where
  "timed E timeout_ms = Some ((cl_write_parameters_set_default (me_local E))\<lparr>w_timeout_ms := timeout_ms\<rparr>)"

text \<open>The arguments of the parser: the values or operations of the caller, a local transaction id, a set name.\<close>

definition args_of :: "cl_bin list option \<Rightarrow> cl_operation list option \<Rightarrow> nat option \<Rightarrow> block option \<Rightarrow> parse_args" where
  "args_of vs os n setname = \<lparr>pa_buf = [], pa_values = vs, pa_operations = os, pa_n_values = n, pa_trid = Some 0, pa_setname = setname\<rparr>"

type_synonym call = "mem \<Rightarrow> cl_cluster \<Rightarrow> answer option"

definition monte :: "api_env \<Rightarrow> u32 \<Rightarrow> u32 \<Rightarrow> u32 \<Rightarrow> block \<Rightarrow> block option \<Rightarrow> cl_object option \<Rightarrow> block option \<Rightarrow>
    cl_operator \<Rightarrow> cl_write_parameters option \<Rightarrow> parse_args \<Rightarrow> call" where
  "monte E info1 info2 info3 ns setn key digest operator w s m asc =
     (if \<not> me_initialized E then Some (Answer (- 1) m asc s None)
      else do_the_full_monte (me_rmd E) (me_stack E) (me_compile E) (me_pool E) (me_parse E) (me_arr E) (me_tries E)
        (me_now E) m asc info1 info2 info3 ns setn key digest operator w s)"

subsection \<open>Reading\<close>

definition citrusleaf_get :: "api_env \<Rightarrow> block \<Rightarrow> block option \<Rightarrow> cl_object option \<Rightarrow> cl_bin list \<Rightarrow> nat \<Rightarrow> u32 \<Rightarrow> call" where
  "citrusleaf_get E ns setn key vs n timeout_ms =
     monte E CL_MSG_INFO1_READ 0 0 ns setn key None CL_OP_READ (timed E timeout_ms) (args_of (Some vs) None (Some n) None)"

definition citrusleaf_get_digest :: "api_env \<Rightarrow> block \<Rightarrow> block option \<Rightarrow> cl_bin list \<Rightarrow> nat \<Rightarrow> u32 \<Rightarrow> call" where
  "citrusleaf_get_digest E ns digest vs n timeout_ms =
     monte E CL_MSG_INFO1_READ 0 0 ns None None digest CL_OP_READ (timed E timeout_ms) (args_of (Some vs) None (Some n) None)"

definition citrusleaf_exists_key :: "api_env \<Rightarrow> block \<Rightarrow> block option \<Rightarrow> cl_object option \<Rightarrow> cl_bin list \<Rightarrow> nat \<Rightarrow> u32 \<Rightarrow> call" where
  "citrusleaf_exists_key E ns setn key vs n timeout_ms =
     monte E (CL_MSG_INFO1_READ OR CL_MSG_INFO1_NOBINDATA) 0 0 ns setn key None CL_OP_READ (timed E timeout_ms)
       (args_of (Some vs) None (Some n) None)"

definition citrusleaf_exists_digest :: "api_env \<Rightarrow> block \<Rightarrow> block option \<Rightarrow> cl_bin list \<Rightarrow> nat \<Rightarrow> u32 \<Rightarrow> call" where
  "citrusleaf_exists_digest E ns digest vs n timeout_ms =
     monte E (CL_MSG_INFO1_READ OR CL_MSG_INFO1_NOBINDATA) 0 0 ns None None digest CL_OP_READ (timed E timeout_ms)
       (args_of (Some vs) None (Some n) None)"

text \<open>The calls that return all bins; the places for the values and their number may be null pointers.\<close>

definition citrusleaf_get_all :: "api_env \<Rightarrow> block \<Rightarrow> block option \<Rightarrow> cl_object option \<Rightarrow> cl_bin list option \<Rightarrow> nat option \<Rightarrow> u32 \<Rightarrow> call" where
  "citrusleaf_get_all E ns setn key vs n timeout_ms m asc =
     (if vs = None \<or> n = None then Some (Answer (- 1) m asc (args_of vs None n None) None)
      else if \<not> me_initialized E then Some (Answer (- 1) m asc (args_of vs None n None) None)
      else monte E (CL_MSG_INFO1_READ OR CL_MSG_INFO1_GET_ALL) 0 0 ns setn key None CL_OP_READ (timed E timeout_ms)
        (args_of (Some []) None (Some 0) None) m asc)"

definition citrusleaf_get_all_digest_getsetname ::
  "api_env \<Rightarrow> block \<Rightarrow> block option \<Rightarrow> cl_bin list option \<Rightarrow> nat option \<Rightarrow> u32 \<Rightarrow> block option \<Rightarrow> call" where
  "citrusleaf_get_all_digest_getsetname E ns digest vs n timeout_ms setname m asc =
     (if vs = None \<or> n = None then Some (Answer (- 1) m asc (args_of vs None n setname) None)
      else if \<not> me_initialized E then Some (Answer (- 1) m asc (args_of vs None n setname) None)
      else let info1 = CL_MSG_INFO1_READ OR CL_MSG_INFO1_GET_ALL in
        monte E (if setname \<noteq> None then info1 OR CL_MSG_INFO1_XDS else info1) 0 0 ns None None digest CL_OP_READ
          (timed E timeout_ms) (args_of (Some []) None (Some 0) setname) m asc)"

definition citrusleaf_get_all_digest ::
  "api_env \<Rightarrow> block \<Rightarrow> block option \<Rightarrow> cl_bin list option \<Rightarrow> nat option \<Rightarrow> u32 \<Rightarrow> call" where
  "citrusleaf_get_all_digest E ns digest vs n timeout_ms =
     citrusleaf_get_all_digest_getsetname E ns digest vs n timeout_ms None"

definition citrusleaf_verify :: "api_env \<Rightarrow> block \<Rightarrow> block option \<Rightarrow> cl_object option \<Rightarrow> cl_bin list \<Rightarrow> nat \<Rightarrow> u32 \<Rightarrow> call" where
  "citrusleaf_verify E ns setn key vs n timeout_ms =
     monte E (CL_MSG_INFO1_READ OR CL_MSG_INFO1_VERIFY) 0 0 ns setn key None CL_OP_READ (timed E timeout_ms)
       (args_of (Some vs) None (Some n) None)"

subsection \<open>Writing\<close>

definition citrusleaf_put ::
  "api_env \<Rightarrow> block \<Rightarrow> block option \<Rightarrow> cl_object option \<Rightarrow> cl_bin list \<Rightarrow> nat \<Rightarrow> cl_write_parameters option \<Rightarrow> call" where
  "citrusleaf_put E ns setn key vs n w =
     monte E 0 CL_MSG_INFO2_WRITE 0 ns setn key None CL_OP_WRITE w (args_of (Some vs) None (Some n) None)"

definition citrusleaf_put_digest ::
  "api_env \<Rightarrow> block \<Rightarrow> block option \<Rightarrow> cl_bin list \<Rightarrow> nat \<Rightarrow> cl_write_parameters option \<Rightarrow> call" where
  "citrusleaf_put_digest E ns digest vs n w =
     monte E 0 CL_MSG_INFO2_WRITE 0 ns None None digest CL_OP_WRITE w (args_of (Some vs) None (Some n) None)"

definition citrusleaf_put_replace ::
  "api_env \<Rightarrow> block \<Rightarrow> block option \<Rightarrow> cl_object option \<Rightarrow> cl_bin list \<Rightarrow> nat \<Rightarrow> cl_write_parameters option \<Rightarrow> call" where
  "citrusleaf_put_replace E ns setn key vs n w =
     monte E 0 CL_MSG_INFO2_WRITE CL_MSG_INFO3_REPLACE ns setn key None CL_OP_WRITE w (args_of (Some vs) None (Some n) None)"

definition citrusleaf_restore ::
  "api_env \<Rightarrow> block \<Rightarrow> block option \<Rightarrow> block option \<Rightarrow> cl_bin list \<Rightarrow> nat \<Rightarrow> cl_write_parameters option \<Rightarrow> call" where
  "citrusleaf_restore E ns digest setn vs n w =
     monte E 0 CL_MSG_INFO2_WRITE 0 ns setn None digest CL_OP_WRITE w (args_of (Some vs) None (Some n) None)"

definition citrusleaf_delete ::
  "api_env \<Rightarrow> block \<Rightarrow> block option \<Rightarrow> cl_object option \<Rightarrow> cl_write_parameters option \<Rightarrow> call" where
  "citrusleaf_delete E ns setn key w =
     monte E 0 (CL_MSG_INFO2_DELETE OR CL_MSG_INFO2_WRITE) 0 ns setn key None CL_OP_WRITE w (args_of None None None None)"

definition citrusleaf_delete_digest :: "api_env \<Rightarrow> block \<Rightarrow> block option \<Rightarrow> cl_write_parameters option \<Rightarrow> call" where
  "citrusleaf_delete_digest E ns digest w =
     monte E 0 (CL_MSG_INFO2_DELETE OR CL_MSG_INFO2_WRITE) 0 ns None None digest CL_OP_WRITE w (args_of None None None None)"

definition citrusleaf_delete_verify ::
  "api_env \<Rightarrow> block \<Rightarrow> block option \<Rightarrow> cl_object option \<Rightarrow> cl_write_parameters option \<Rightarrow> call" where
  "citrusleaf_delete_verify E ns setn key w =
     monte E CL_MSG_INFO1_VERIFY (CL_MSG_INFO2_DELETE OR CL_MSG_INFO2_WRITE) 0 ns setn key None CL_OP_WRITE w
       (args_of None None None None)"

subsection \<open>Operations\<close>

text \<open>The loop over the operations for the bits of the request; it stops when both are set.\<close>

definition op_bit :: "cl_operator \<Rightarrow> u32 \<times> u32 \<Rightarrow> u32 \<times> u32" where
  "op_bit q x = (case (q, x) of (CL_OP_READ, (info1, info2)) \<Rightarrow> (CL_MSG_INFO1_READ, info2)
     | (CL_OP_other _, x) \<Rightarrow> x
     | (_, (info1, info2)) \<Rightarrow> (info1, CL_MSG_INFO2_WRITE))"

fun op_bits :: "cl_operation list \<Rightarrow> u32 \<times> u32 \<Rightarrow> u32 \<times> u32" where
  "op_bits [] x = x"
| "op_bits (q # qs) x =
     (let (info1, info2) = op_bit (op_op q) x in
      if info1 \<noteq> 0 \<and> info2 \<noteq> 0 then (info1, info2) else op_bits qs (info1, info2))"

definition citrusleaf_operate ::
  "api_env \<Rightarrow> block \<Rightarrow> block option \<Rightarrow> cl_object option \<Rightarrow> cl_operation list \<Rightarrow> cl_write_parameters option \<Rightarrow> bool \<Rightarrow> call" where
  "citrusleaf_operate E ns setn key operations w replace =
     (let (info1, info2) = op_bits operations (0, 0) in
      monte E info1 info2 (if replace then CL_MSG_INFO3_REPLACE else 0) ns setn key None CL_OP_WRITE w
        (args_of None (Some operations) (Some (length operations)) None))"

definition citrusleaf_operate_digest ::
  "api_env \<Rightarrow> block \<Rightarrow> block option \<Rightarrow> cl_operation list \<Rightarrow> cl_write_parameters option \<Rightarrow> bool \<Rightarrow> call" where
  "citrusleaf_operate_digest E ns digest operations w replace =
     (let (info1, info2) = op_bits operations (0, 0) in
      monte E info1 info2 (if replace then CL_MSG_INFO3_REPLACE else 0) ns None None digest CL_OP_WRITE w
        (args_of None (Some operations) (Some (length operations)) None))"

subsection \<open>The health of a cluster\<close>

fun count_alive :: "mem \<Rightarrow> node_ptr list \<Rightarrow> u32 \<Rightarrow> u32 \<Rightarrow> (u32 \<times> u32) option" where
  "count_alive m [] n_alive n_dead = Some (n_alive, n_dead)"
| "count_alive m (p # ps) n_alive n_dead = do {
     cn \<leftarrow> m_nodes m p;
     if cn_intervals_unreachable cn \<ge> 3 then count_alive m ps n_alive (n_dead + 1)
     else count_alive m ps (n_alive + 1) n_dead }"

definition citrusleaf_check_cluster_health :: "mem \<Rightarrow> cl_cluster \<Rightarrow> int option" where
  "citrusleaf_check_cluster_health m asc = do {
     (n_alive, n_dead) \<leftarrow> count_alive m (cs_node_v asc) 0 0;
     Some (if n_alive > 0 then CITRUSLEAF_FAIL_DC_UP else CITRUSLEAF_FAIL_DC_DOWN) }"

subsection \<open>What was sent is what is received\<close>

text \<open>
  The header of a response as a server writes it, and the scripts that deliver it and the body,
  or the beginning of them: everything else is left to the network.
\<close>

definition answer_header :: "u8 \<Rightarrow> u32 \<Rightarrow> u32 \<Rightarrow> nat \<Rightarrow> nat \<Rightarrow> nat \<Rightarrow> block" where
  "answer_header code gen ttl n_fields n_ops sz =
     [2, 3] @ word_be 6 (of_nat (22 + sz) :: u64) @ [22, 0, 0, 0, 0, code] @ word_be 4 gen @ word_be 4 ttl @ word_be 4 (0 :: u32) @
     word_be 2 (of_nat n_fields :: u16) @ word_be 2 (of_nat n_ops :: u16)"

definition swapped_header :: "u8 \<Rightarrow> u32 \<Rightarrow> u32 \<Rightarrow> nat \<Rightarrow> nat \<Rightarrow> nat \<Rightarrow> block" where
  "swapped_header code gen ttl n_fields n_ops sz =
     [2, 3] @ word_le 6 (of_nat (22 + sz) :: u64) @ [22, 0, 0, 0, 0, code] @ word_le 4 gen @ word_le 4 ttl @ word_le 4 (0 :: u32) @
     word_le 2 (of_nat n_fields :: u16) @ word_le 2 (of_nat n_ops :: u16)"

definition delivers :: "block \<Rightarrow> block \<Rightarrow> try_env \<Rightarrow> bool" where
  "delivers header body env \<longleftrightarrow> (\<exists>i. delivered (s_ticks (te_header env)) = take i header) \<and>
     (\<exists>i. delivered (s_ticks (te_body env)) = take i body)"

lemma delivered_prefix: "\<exists>j. delivered (take k ts) = take j (delivered ts)"
proof (induction ts arbitrary: k)
  case (Cons t ts)
  then show ?case
  proof (cases k)
    case (Suc k')
    from Cons obtain j where j: "delivered (take k' ts) = take j (delivered ts)" by blast
    show ?thesis
    proof (cases "t_epoll t = Event True \<and> (\<exists>x. t_io t = Inl x)")
      case True
      then obtain x where "t_epoll t = Event True" "t_io t = Inl x" by blast
      then show ?thesis using Suc j by (intro exI [of _ "length x + j"]) simp
    next
      case False
      then have "delivered (t # xs) = delivered xs" for xs
        by (cases "t_epoll t"; cases "t_io t") (auto split: bool.splits)
      then show ?thesis using Suc j by auto
    qed
  qed (auto intro: exI [of _ 0])
qed simp

lemma read_delivers:
  assumes "script_ok s" and "0 < n" and "n \<le> length b" and "delivered (s_ticks s) = take i D" and "length D \<le> n"
    and "cf_socket_read_timeout s (Some b) n d a = Some (Returned (0, b'))"
  shows "length D = n \<and> b' = Some (D @ drop n b)"
proof -
  let ?d = "attempt_deadline d a (s_start s)"
  have p: "s_prep s = Prepared" using assms(1,2,6) by (cases "s_prep s") (auto simp: cf_socket_read_timeout_def script_ok_def errno_defs)
  then have l: "read_loop ?d n (Some b) 0 (s_ticks s) = Some (Returned (0, b'))"
    using assms(2,6) by (simp add: cf_socket_read_timeout_def)
  have "errno_ok (s_ticks s)" using assms(1) by (simp add: script_ok_def)
  from read_loop_ok [OF this assms(2,3), of ?d] l have "read_result ?d n b 0 (s_ticks s) (Returned (0, b'))" by simp
  then obtain k where k: "b' = Some (take n (delivered (take k (s_ticks s))) @ drop (length (take n (delivered (take k (s_ticks s))))) b)"
    "n \<le> length (take n (delivered (take k (s_ticks s))))"
    by (auto simp: read_result_def Let_def)
  obtain j where j: "delivered (take k (s_ticks s)) = take j (take i D)" using delivered_prefix [of k "s_ticks s"] assms(4) by auto
  have e: "n \<le> length (take j (take i D))" using k(2) j by simp
  have "take j (take i D) = D" using e assms(5) by simp
  then show ?thesis using k(1) j e assms(5) by simp
qed

lemma swap_answer_header:
  "cl_proto_swap (answer_header code gen ttl nf no sz) 0 \<bind> (\<lambda>b. cl_msg_swap_header b 8) = Some (swapped_header code gen ttl nf no sz)"
proof -
  have u: "[0..<2] = [0, 1]" "[0..<4] = [0, 1, 2, 3]" "[0..<6] = [0, 1, 2, 3, 4, 5]" "[0..<(6::nat)] = [0, 1, 2, 3, 4, 5]"
    by (simp_all add: upt_rec)
  show ?thesis
    by (simp add: cl_proto_swap_def cl_msg_swap_header_def swap_bytes_def load_def store_def answer_header_def swapped_header_def
      word_be_def word_le_def u)
qed

lemma le_word_word_le_take: "le_word (word_le n w) = (take_bit (8 * n) w :: 'a::len word)"
  by (rule bit_word_eqI) (auto simp: bit_le_word bit_word_le bit_take_bit_iff less_mult_imp_div_less div_less_iff_less_mult mult.commute)

lemma take_bit_of_nat_small: "n < 2 ^ k \<Longrightarrow> take_bit k (of_nat n :: 'a::len word) = of_nat n"
  by (simp add: take_bit_of_nat take_bit_nat_eq_self flip: of_nat_take_bit)

lemma swapped_header_reads:
  fixes code :: u8 and gen ttl :: u32
  assumes "sz < 2 ^ 40" and "nf < 2 ^ 16" and "no < 2 ^ 16"
  defines "H \<equiv> swapped_header code gen ttl nf no sz"
  shows "body_size H = Some sz" and "load_u16 H 26 = Some nf" and "load_u16 H 28 = Some no"
    and "load_u8 H 13 = Some code" and "load_u32 H 14 = Some gen" and "length H = 30"
proof -
  show "length H = 30" by (simp add: H_def swapped_header_def)
  have ld: "load H 2 6 = Some (word_le 6 (of_nat (22 + sz) :: u64))" "load H 26 2 = Some (word_le 2 (of_nat nf :: u16))"
    "load H 28 2 = Some (word_le 2 (of_nat no :: u16))" "load H 14 4 = Some (word_le 4 gen)" "load H 8 1 = Some [22]" "load H 13 1 = Some [code]"
    by (simp_all add: H_def swapped_header_def load_def)
  show "load_u16 H 26 = Some nf" "load_u16 H 28 = Some no" using assms(2,3)
    by (simp_all add: load_u16_def ld le_word_word_le unat_of_nat)
  show "load_u8 H 13 = Some code" "load_u32 H 14 = Some gen" by (simp_all add: load_u8_def load_u32_def ld [simplified])
  show "body_size H = Some sz"
  proof -
    have "unat (take_bit 48 (take_bit 48 (of_nat (22 + sz)) - 22 :: u64)) = sz"
    proof -
      have "unat (of_nat sz :: u64) = sz" unfolding unat_of_nat using assms(1) by (intro mod_less) simp
      moreover have "take_bit 48 (of_nat (22 + sz) :: u64) = of_nat (22 + sz)"
        by (rule take_bit_of_nat_small) (use assms(1) in simp)
      moreover have "take_bit 48 (of_nat sz :: u64) = of_nat sz"
        by (rule take_bit_of_nat_small) (use assms(1) in simp)
      ultimately show ?thesis by simp
    qed
    then show ?thesis by (simp add: body_size_def load_u8_def ld [simplified] le_word_word_le_take)
  qed
qed


text \<open>A response that comes through is the one that was sent.\<close>

definition got :: "block \<Rightarrow> block \<Rightarrow> block \<Rightarrow> rd_buf \<Rightarrow> nat \<Rightarrow> bool" where
  "got header body msg rd sz \<longleftrightarrow> msg = header \<and> sz = length body \<and>
     (body \<noteq> [] \<longrightarrow> (\<exists>c. rd_block rd = Some (body @ c) \<and> length (body @ c) = max (length body) (if STACK_BUF_SZ < length body then 0 else STACK_BUF_SZ)))"

lemma receive_body_delivers:
  assumes ok: "script_ok (te_body env)" and rd: "rd_ok rd" and sz: "body_size msg = Some (length body)"
    and d: "delivered (s_ticks (te_body env)) = take i body" and r: "receive_body env rq msg rd = Some (Received msg' rd' sz)"
  shows "got msg body msg' rd' sz"
proof (cases "body = []")
  case True
  then show ?thesis using sz r by (simp add: receive_body_def got_def)
next
  case ne: False
  let ?rd = "if length body > STACK_BUF_SZ then map_option Rd_Heap (malloc (te_malloc env) (length body)) else Some rd"
  obtain rd0 where rd0: "?rd = Some rd0" using r sz ne by (cases ?rd) (simp_all add: receive_body_def)
  obtain y where y: "cf_socket_read_timeout (te_body env) (rd_block rd0) (length body) (rq_deadline rq) (rq_progress rq) = Some y"
    using r sz ne rd0 by (auto simp: receive_body_def bind_eq_Some_conv)
  obtain b' where b': "y = Returned (0, b')" "msg' = msg" "rd' = rd_put rd0 b'" "sz = length body"
    using r sz ne rd0 y by (cases y) (auto simp: receive_body_def split: if_splits)
  have "rd_block rd0 \<noteq> None"
  proof
    assume n: "rd_block rd0 = None"
    have nb: "(None :: block option) = Some b \<Longrightarrow> length body \<le> length b" for b by simp
    have "0 < length body" using ne by simp
    from read_timeout_cases [where buf = None and d = "rq_deadline rq" and a = "rq_progress rq", OF ok this nb] y b'(1) n
    show False by auto
  qed
  then obtain b where b: "rd_block rd0 = Some b" by blast
  have lb: "length b = max (length body) (if STACK_BUF_SZ < length body then 0 else STACK_BUF_SZ)"
    using rd0 b rd by (auto simp: rd_ok_def malloc_def max_def split: if_splits rd_buf.splits)
  have "b' = Some (body @ drop (length body) b)"
    using read_delivers [OF ok _ _ d _ y [unfolded b b'(1)]] ne lb by simp
  moreover have "rd_block (rd_put rd0 (Some x)) = Some x" for x using b by (cases rd0) simp_all
  ultimately show ?thesis using b'(2-4) lb by (auto simp: got_def)
qed

lemma receive_delivers:
  assumes ok: "env_ok env" and rd: "rd_ok rd" and l: "length msg = 30"
    and sz: "length body < 2 ^ 40" "nf < 2 ^ 16" "no < 2 ^ 16"
    and d: "delivers (answer_header code gen ttl nf no (length body)) body env"
    and r: "receive env rq msg rd = Some (Received msg' rd' n)"
  shows "got (swapped_header code gen ttl nf no (length body)) body msg' rd' n"
proof -
  let ?H = "answer_header code gen ttl nf no (length body)"
  have s: "script_ok (te_header env)" "script_ok (te_body env)" using ok by (simp_all add: env_ok_def)
  from d obtain i j where ij: "delivered (s_ticks (te_header env)) = take i ?H" "delivered (s_ticks (te_body env)) = take j body"
    by (auto simp: delivers_def)
  have lH: "length ?H = 30" by (simp add: answer_header_def)
  obtain y where y: "cf_socket_read_timeout (te_header env) (Some msg) 30 (rq_deadline rq) (rq_progress rq) = Some y"
    using r by (auto simp: receive_def bind_eq_Some_conv)
  have "\<exists>b. y = Returned (0, b)" using r y by (cases y) (auto simp: receive_def split: if_splits)
  then obtain b where b: "y = Returned (0, b)" by blast
  have b2: "b = Some ?H" using read_delivers [OF s(1) _ _ ij(1) _ y [unfolded b]] l lH by simp
  from swap_answer_header [of code gen ttl nf no "length body"] have
    "receive_body env rq (swapped_header code gen ttl nf no (length body)) rd = Some (Received msg' rd' n)"
    using r y b b2 by (auto simp: receive_def bind_eq_Some_conv)
  from receive_body_delivers [OF s(2) rd swapped_header_reads(1) [OF sz] ij(2) this] show ?thesis .
qed

lemma one_try_delivers:
  assumes "env_ok env" and "rd_ok rd" and "length msg = 30" and "length body < 2 ^ 40" and "nf < 2 ^ 16" and "no < 2 ^ 16"
    and "delivers (answer_header code gen ttl nf no (length body)) body env"
    and "one_try e env rq m asc rv wr msg rd = Some (Try_Ok m' asc' msg' rd' n)"
  shows "got (swapped_header code gen ttl nf no (length body)) body msg' rd' n"
proof -
  have "exchange_msg env rq msg rd = Some (Received msg' rd' n)" using assms(8)
    by (cases "exchange_msg env rq msg rd"; cases "the (exchange_msg env rq msg rd)")
      (auto simp: one_try_def bind_eq_Some_conv Let_def case_prod_unfold split: option.splits if_splits)
  then have "receive env rq msg rd = Some (Received msg' rd' n)"
    by (auto simp: exchange_msg_def split: outcome.splits if_splits)
  from receive_delivers [OF assms(1-7) this] show ?thesis .
qed

lemma try_loop_delivers:
  assumes "cluster_ok m asc r" and "\<And>q. r q < 2 ^ 30" and "\<forall>env \<in> set envs. env_ok env \<and> te_malloc env \<noteq> None"
    and "rd_ok rd" and "length msg = 30" and "10 \<le> length wr" and "2 \<le> length (rq_digest rq)"
    and "length body < 2 ^ 40" and "nf < 2 ^ 16" and "no < 2 ^ 16"
    and "\<forall>env \<in> set envs. delivers (answer_header code gen ttl nf no (length body)) body env"
    and "try_loop (Some g) rq msg envs k m asc rv wr rd = Some (Response m' asc' msg' rd' n tries)"
  shows "got (swapped_header code gen ttl nf no (length body)) body msg' rd' n"
  using assms
proof (induction envs arbitrary: k m asc rv wr rd)
  case (Cons env envs)
  have env: "env_ok env" "te_malloc env \<noteq> None" "\<forall>env \<in> set envs. env_ok env \<and> te_malloc env \<noteq> None"
    "delivers (answer_header code gen ttl nf no (length body)) body env"
    "\<forall>env \<in> set envs. delivers (answer_header code gen ttl nf no (length body)) body env"
    using Cons.prems(3,11) by simp_all
  from one_try_ok [OF Cons.prems(1,2) env(1) Cons.prems(4-7), of g rv] obtain res where res:
    "one_try (Some g) env rq m asc rv wr msg rd = Some res" "try_ok r env (length wr) res" by blast
  show ?case
  proof (cases res)
    case (Try_Retry m1 asc1 rv1 wr1 rd1)
    then have t: "cluster_ok m1 asc1 r" "rd_ok rd1" "10 \<le> length wr1" using res(2) Cons.prems(6) by (simp_all add: try_ok_def)
    have "try_loop (Some g) rq msg envs (Suc k) m1 asc1 rv1 wr1 rd1 = Some (Response m' asc' msg' rd' n tries)"
      using Cons.prems(12) res(1) Try_Retry by (simp split: if_splits)
    from Cons.IH [OF t(1) Cons.prems(2) env(3) t(2) Cons.prems(5) t(3) Cons.prems(7-10) env(5) this] show ?thesis .
  next
    case (Try_Ok m1 asc1 msg1 rd1 sz1)
    then have e: "one_try (Some g) env rq m asc rv wr msg rd = Some (Try_Ok m' asc' msg' rd' n)"
      using Cons.prems(12) res(1) by simp
    from one_try_delivers [OF env(1) Cons.prems(4,5,8-10) env(4) e] show ?thesis .
  qed (use Cons.prems(12) res(1) in simp_all)
qed simp

subsection \<open>Properties\<close>

lemma args_of_sel [simp]:
  "pa_trid (args_of vs os n nm) = Some 0" "pa_values (args_of vs os n nm) = vs" "pa_operations (args_of vs os n nm) = os"
  "pa_n_values (args_of vs os n nm) = n"
  by (simp_all add: args_of_def)

text \<open>A call with the default policy fails in one way only.\<close>

lemma try_loop_timeout:
  assumes "cluster_ok m asc r" and "\<And>q. r q < 2 ^ 30" and "\<forall>env \<in> set envs. env_ok env \<and> te_malloc env \<noteq> None"
    and "rd_ok rd" and "length msg = 30" and "10 \<le> length wr" and "2 \<le> length (rq_digest rq)" and "may_retry (rq_write_parameters rq)"
    and "try_loop (Some g) rq msg envs k m asc rv wr rd = Some (Failure m' asc' rv')"
  shows "rv' = CITRUSLEAF_FAIL_TIMEOUT"
  using assms
proof (induction envs arbitrary: k m asc rv wr rd)
  case (Cons env envs)
  have env: "env_ok env" "te_malloc env \<noteq> None" "\<forall>env \<in> set envs. env_ok env \<and> te_malloc env \<noteq> None"
    using Cons.prems(3) by simp_all
  from one_try_ok [OF Cons.prems(1,2) env(1) Cons.prems(4-7), of g rv] obtain res where res:
    "one_try (Some g) env rq m asc rv wr msg rd = Some res" "try_ok r env (length wr) res" by blast
  show ?case
  proof (cases res)
    case (Try_Retry m1 asc1 rv1 wr1 rd1)
    then have t: "cluster_ok m1 asc1 r" "rd_ok rd1" "10 \<le> length wr1" using res(2) Cons.prems(6) by (simp_all add: try_ok_def)
    show ?thesis using Cons.IH [OF t(1) Cons.prems(2) env(3) t(2) Cons.prems(5) t(3) Cons.prems(7,8), of "Suc k" rv1]
      Cons.prems(8,9) res(1) Try_Retry by (simp split: if_splits)
  qed (use Cons.prems(9) res env(2) in \<open>auto simp: try_ok_def\<close>)
qed simp

text \<open>The end of a call that reads: the record that was sent is parsed.\<close>

lemma finish_delivers:
  assumes g: "got (swapped_header code gen ttl (length fl) (length l) (length body)) body msg rd sz" and b: "body = rf_bytes fl @ resp_bytes l"
    and l: "resp_ok l" "l \<noteq> []" "length l < 2 ^ 16" and f: "\<forall>f \<in> set fl. field_ok 0 f" "length fl < 2 ^ 16" and sz: "length body < 2 ^ 30"
    and a: "\<forall>i. length (bin_name (op_bin (arr i))) = 32" "\<forall>i. envs i \<noteq> None" and r: "rq_info2 rq = 0"
  shows "\<exists>s' ws. finish envs (Some arr) rq msg rd sz tries (args_of (Some []) None (Some 0) None) = Some (int (unat code), s') \<and>
    pa_values s' = Some ws \<and> list_all2 bin_decoded ws l \<and> pa_n_values s' = Some (length l)"
proof -
  have ne: "body \<noteq> []"
  proof -
    from l(2) obtain x l' where "l = x # l'" by (cases l) auto
    then show ?thesis using b by (cases x) (auto simp: resp_bytes_Cons op_bytes_def op_bytes_of_def)
  qed
  from g ne obtain c where c: "msg = swapped_header code gen ttl (length fl) (length l) (length body)" "sz = length body"
    "rd_block rd = Some (body @ c)" "length (body @ c) = max (length body) (if STACK_BUF_SZ < length body then 0 else STACK_BUF_SZ)"
    by (auto simp: got_def)
  let ?s = "(args_of (Some []) None (Some 0) None)\<lparr>pa_buf := body @ c\<rparr>"
  have len: "length (body @ c) < 2 ^ 31" unfolding c(4) using sz by (simp add: STACK_BUF_SZ_def)
  have "\<exists>s' ws. cl_parse envs (Some arr) (length fl) (length l) (length body) ?s = Some (0, s') \<and>
    pa_values s' = Some ws \<and> list_all2 bin_decoded ws l \<and> pa_n_values s' = Some (length l) \<and>
    pa_trid s' = pa_trid (fold field_effect fl ?s) \<and> pa_setname s' = pa_setname (fold field_effect fl ?s)"
    by (rule parse_fresh [where room = 0 and c = c and n = 0 and vs = "[]"])
      (use len l f a b in \<open>auto simp: args_of_def setname_room_def\<close>)
  then obtain s' ws where p: "cl_parse envs (Some arr) (length fl) (length l) (length body) ?s = Some (0, s')"
    "pa_values s' = Some ws" "list_all2 bin_decoded ws l" "pa_n_values s' = Some (length l)" by blast
  have "length body < 2 ^ 40" using sz by simp
  note h = swapped_header_reads [OF this f(2) l(3), of code gen ttl]
  have "finish envs (Some arr) rq msg rd sz tries (args_of (Some []) None (Some 0) None) = Some (int (unat code), s')"
    using p(1) c(1-3) h r by (simp add: finish_def response_rv_def)
  then show ?thesis using p(2-4) by blast
qed

text \<open>C1: What a server holds is what a client gets. Whatever goes wrong on the way -- connections that break or
  stall, partial reads, tries at several nodes, changes of the cluster by other threads -- as long
  as the servers that are asked send the response of one record or a beginning of it, a call for
  all bins of the record that ends either reports a timeout, or it returns the result code, the
  generation and exactly the bins of the record, in order, with their names, types and values.
  In every case it gives back the references that it took.\<close>

theorem get_all_delivers:
  fixes code :: u8 and gen ttl :: u32
  assumes cl: "cluster_ok m asc r" "\<And>q. r q < 2 ^ 30"
    and E: "me_initialized E" "\<forall>env \<in> set (me_tries E). env_ok env \<and> te_malloc env \<noteq> None" "me_compile E \<noteq> None" "me_pool E \<noteq> None"
      "me_arr E = Some arr" "\<forall>i. length (bin_name (op_bin (arr i))) = 32" "\<forall>i. me_parse E i \<noteq> None" "\<forall>x. length (me_rmd E x) = 20"
    and q: "c_str ns = Some nsn" "opt_c_str set0 = Some setn" "request_ok (Some key) None None []"
      "msg_size (Some nsn) setn (Some key) None 0 None [] < 2 ^ 32"
    and l: "resp_ok l" "l \<noteq> []" "length l < 2 ^ 16" and f: "\<forall>f \<in> set fl. field_ok 0 f" "length fl < 2 ^ 16"
    and sz: "length (rf_bytes fl @ resp_bytes l) < 2 ^ 30"
    and d: "\<forall>env \<in> set (me_tries E). delivers
      (answer_header code gen ttl (length fl) (length l) (length (rf_bytes fl @ resp_bytes l))) (rf_bytes fl @ resp_bytes l) env"
  shows "case citrusleaf_get_all E ns set0 (Some key) (Some vs) (Some n) timeout_ms m asc of
      None \<Rightarrow> False
    | Some No_Answer \<Rightarrow> True
    | Some (Answer rv m' asc' s gen') \<Rightarrow> mem_ok m' (\<lambda>q. cluster_refs asc' q + r q) \<and>
        (rv = CITRUSLEAF_FAIL_TIMEOUT \<and> gen' = None \<or>
         rv = int (unat code) \<and> gen' = Some gen \<and> (\<exists>ws. pa_values s = Some ws \<and> list_all2 bin_decoded ws l \<and> pa_n_values s = Some (length l)))"
proof -
  let ?body = "rf_bytes fl @ resp_bytes l" and ?g = "me_stack E" and ?i1 = "CL_MSG_INFO1_READ OR CL_MSG_INFO1_GET_ALL"
  let ?w = "timed E timeout_ms" and ?s = "args_of (Some []) None (Some 0) None"
  have len: "length ?body < 2 ^ 40" using sz by simp
  have ons: "opt_c_str (Some ns) = Some (Some nsn)" using q(1) by (simp add: opt_c_str_def)
  have oa: "op_args (Some []) CL_OP_READ None = []" by (simp add: op_args_def)
  have "\<exists>rest. cl_compile (me_rmd E) (me_compile E) ?i1 0 0 (Some ns) set0 (Some key) None (Some []) CL_OP_READ None
      (length (op_args (Some []) CL_OP_READ None)) (Some (map ?g [0..<STACK_BUF_SZ])) STACK_BUF_SZ ?w 0 None =
    Some (0, Some (request_bytes ?i1 0 0 (Some nsn) setn (Some key) None (op_args (Some []) CL_OP_READ None) ?w 0 None @ rest),
      msg_size (Some nsn) setn (Some key) None 0 None (op_args (Some []) CL_OP_READ None), d_ret_of (me_rmd E) setn (Some key) None)"
    by (rule cl_compile_layout) (use ons q E(3) oa in \<open>simp_all add: STACK_BUF_SZ_def\<close>)
  then obtain rest where comp: "cl_compile (me_rmd E) (me_compile E) ?i1 0 0 (Some ns) set0 (Some key) None (Some []) CL_OP_READ None 0
      (Some (map ?g [0..<STACK_BUF_SZ])) STACK_BUF_SZ ?w 0 None =
    Some (0, Some (request_bytes ?i1 0 0 (Some nsn) setn (Some key) None [] ?w 0 None @ rest),
      msg_size (Some nsn) setn (Some key) None 0 None [], d_ret_of (me_rmd E) setn (Some key) None)"
    unfolding oa by auto
  obtain dg where dg: "d_ret_of (me_rmd E) setn (Some key) None = Some dg" "length dg = 20"
    using E(8) by (simp add: d_ret_of_def cf_digest_compute2_def)
  obtain deadline progress where dl: "request_deadline ?w (me_now E) = (deadline, progress)" by fastforce
  define rq where "rq = \<lparr>rq_info1 = ?i1, rq_info2 = 0, rq_ns = nsn, rq_digest = dg, rq_write_parameters = ?w,
    rq_deadline = deadline, rq_progress = progress, rq_size = msg_size (Some nsn) setn (Some key) None 0 None []\<rparr>"
  define wr where "wr = request_bytes ?i1 0 0 (Some nsn) setn (Some key) None [] ?w 0 None @ rest"
  let ?rd = "Rd_Stack (map ?g [0..<STACK_BUF_SZ])" and ?msg = "map ?g [0..<30]"
  obtain gp where gp: "me_pool E = Some gp" using E(4) by blast
  have pre: "rd_ok ?rd" "length ?msg = 30" "10 \<le> length wr" "2 \<le> length (rq_digest rq)"
    using dg(2) by (simp_all add: rd_ok_def wr_def request_bytes_def rq_def)
  have mr: "may_retry (rq_write_parameters rq)" by (simp add: rq_def may_retry_def timed_def cl_write_parameters_set_default_def)
  from try_loop_ok [OF cl E(2) pre, of gp 0 "- 1"] obtain res where res:
    "try_loop (Some gp) rq ?msg (me_tries E) 0 m asc (- 1) wr ?rd = Some res" "loop_ok r res" by blast
  have all: "citrusleaf_get_all E ns set0 (Some key) (Some vs) (Some n) timeout_ms m asc =
    (case res of Busy \<Rightarrow> Some No_Answer
     | Failure m asc rv \<Rightarrow> Some (Answer rv m asc ?s None)
     | Response m asc msg rd sz tries \<Rightarrow> do {
         gen \<leftarrow> load_u32 msg 14;
         (rv, s) \<leftarrow> finish (me_parse E) (me_arr E) rq msg rd sz tries ?s;
         Some (Answer rv m asc s (Some gen)) })"
    using comp ons dg(1) dl E(1) res(1) gp
    by (simp add: citrusleaf_get_all_def monte_def do_the_full_monte_def rq_def [symmetric] wr_def [symmetric])
  show ?thesis
  proof (cases res)
    case (Failure m' asc' rv')
    then show ?thesis using all res try_loop_timeout [OF cl E(2) pre mr, of gp 0 "- 1" m' asc' rv'] by (simp add: loop_ok_def cluster_ok_def)
  next
    case (Response m' asc' msg' rd' n' tries)
    have g: "got (swapped_header code gen ttl (length fl) (length l) (length ?body)) ?body msg' rd' n'"
      by (rule try_loop_delivers [OF cl E(2) pre len f(2) l(3) d]) (use res(1) Response in simp)
    have "rq_info2 rq = 0" by (simp add: rq_def)
    from finish_delivers [OF g refl l f sz E(6,7) this, of tries] obtain s' ws where
      "finish (me_parse E) (Some arr) rq msg' rd' n' tries ?s = Some (int (unat code), s')"
      "pa_values s' = Some ws" "list_all2 bin_decoded ws l" "pa_n_values s' = Some (length l)" by blast
    moreover have "load_u32 msg' 14 = Some gen" using g swapped_header_reads(5) [OF len f(2) l(3)] by (simp add: got_def)
    ultimately show ?thesis using all res(2) Response E(5) by (simp add: loop_ok_def cluster_ok_def)
  next
    case Busy
    then show ?thesis using all by simp
  qed
qed

definition sample_response :: "(u8 \<times> cl_bin) list" where
  "sample_response = [(CL_MSG_OP_READ, sample_bin)]"

definition sample_api :: api_env where
  "sample_api = \<lparr>me_initialized = True, me_rmd = (\<lambda>_. replicate 20 0), me_stack = (\<lambda>_. 0), me_compile = Some (\<lambda>_. 0),
     me_pool = Some (\<lambda>_. 0), me_parse = (\<lambda>_. Some (\<lambda>_. 0)), me_arr = Some (\<lambda>_. \<lparr>op_bin = sample_bin, op_op = CL_OP_READ\<rparr>),
     me_tries = [sample_env (Inr 104), (sample_env (Inl (answer_header 0 5 0 0 1 (length (resp_bytes sample_response)))))
       \<lparr>te_body := sample_ticks (Inl (resp_bytes sample_response))\<rparr>],
     me_now = 5, me_local = \<lparr>w_unique = False, w_unique_bin = False, w_use_generation = False, w_use_generation_gt = False,
       w_use_generation_dup = False, w_generation = 0, w_timeout_ms = 0, w_record_ttl = 0, w_retry = True\<rparr>\<rparr>"

lemma sample_response_length: "length (resp_bytes sample_response) = 18"
  using sample_resp_ok by (simp add: resp_bytes_def length_op_bytes sample_bin_wf resp_ok_def sample_response_def)

lemma sample_env_body_ok: "env_ok (env\<lparr>te_body := sample_ticks (Inl x)\<rparr>) \<longleftrightarrow> env_ok (env\<lparr>te_body := sample_ticks (Inl [])\<rparr>)"
  by (simp add: env_ok_def script_ok_def sample_ticks_def errno_ok_def)

lemma sample_env_body: "(sample_env x)\<lparr>te_body := sample_ticks (Inl [])\<rparr> = sample_env x"
  by (simp add: sample_env_def)

lemma delivered_sample [simp]: "delivered (s_ticks (sample_ticks (Inl x))) = x" "delivered (s_ticks (sample_ticks (Inr e))) = []"
  by (simp_all add: sample_ticks_def)

theorem get_all_delivers_witness:
  "case citrusleaf_get_all sample_api [97, 0] None (Some sample_key) (Some []) (Some 0) 500 sample_mem sample_cluster of
      None \<Rightarrow> False
    | Some No_Answer \<Rightarrow> True
    | Some (Answer rv m' asc' s gen') \<Rightarrow> mem_ok m' (\<lambda>q. cluster_refs asc' q + 0) \<and>
        (rv = CITRUSLEAF_FAIL_TIMEOUT \<and> gen' = None \<or>
         rv = int (unat (0 :: u8)) \<and> gen' = Some 5 \<and> (\<exists>ws. pa_values s = Some ws \<and> list_all2 bin_decoded ws sample_response \<and>
           pa_n_values s = Some (length sample_response)))"
proof (rule get_all_delivers [where fl = "[]" and nsn = "[97]" and setn = None and ttl = 0
      and arr = "\<lambda>_. \<lparr>op_bin = sample_bin, op_op = CL_OP_READ\<rparr>"])
  show "cluster_ok sample_mem sample_cluster (\<lambda>_. 0)" by (rule sample_cluster_in_order)
  show "\<forall>env \<in> set (me_tries sample_api). env_ok env \<and> te_malloc env \<noteq> None"
    unfolding sample_api_def by (simp add: sample_env_ok sample_env_body_ok sample_env_body) (simp add: sample_env_def)
  show "request_ok (Some sample_key) None None []"
    by (simp add: request_ok_def key_ok_def sample_key_def citrusleaf_object_init_int_def object_wf_def)
  show "msg_size (Some [97]) None (Some sample_key) None 0 None [] < 2 ^ 32"
    by (simp add: msg_size_def fields_size_def ops_bytes_def sample_key_def citrusleaf_object_init_int_def)
  show "\<forall>env \<in> set (me_tries sample_api). delivers (answer_header 0 5 0 (length []) (length sample_response)
      (length (rf_bytes [] @ resp_bytes sample_response))) (rf_bytes [] @ resp_bytes sample_response) env"
    unfolding sample_api_def
    by (simp add: delivers_def sample_env_def rf_bytes_def sample_response_def)
      (intro conjI exI [of _ 0] exI [of _ 30] exI [of _ 18], simp_all add: answer_header_def sample_response_length [unfolded sample_response_def])
  show "length (rf_bytes [] @ resp_bytes sample_response) < 2 ^ 30" by (simp add: rf_bytes_def sample_response_length)
  show "resp_ok sample_response" using sample_resp_ok by (simp add: sample_response_def)
qed (simp_all add: sample_api_def sample_response_def opt_c_str_def c_str_def load_def sample_bin_def)

end
