(* ===== verification/Cl_Lookup.thy ===== *)
theory Cl_Lookup
  imports Cl_Cluster
begin

section \<open>Looking up hosts (\<open>src/cl_lookup.c\<close>)\<close>

text \<open>
  The resolver of the C library is the environment: a lookup is given a script of the answers of
  \<open>gethostbyname2_r\<close>, one for each call. A lookup whose script is used up is still waiting.
\<close>

definition HOST_NOT_FOUND :: int where "HOST_NOT_FOUND = 1"
definition TRY_AGAIN :: int where "TRY_AGAIN = 2"
definition NO_RECOVERY :: int where "NO_RECOVERY = 3"
definition NO_ADDRESS :: int where "NO_ADDRESS = 4"
definition ERANGE :: int where "ERANGE = 34"
definition AF_INET :: int where "AF_INET = 2"

lemmas netdb_defs = HOST_NOT_FOUND_def TRY_AGAIN_def NO_RECOVERY_def NO_ADDRESS_def ERANGE_def AF_INET_def

text \<open>An answer: the result, whether \<open>hp\<close> is set, the error, the type and addresses of the host, and
  whether a larger buffer can be allocated.\<close>

record host_answer =
  ha_rv :: int
  ha_hp :: bool
  ha_herr :: int
  ha_addrtype :: int
  ha_addr_list :: "block list"
  ha_malloc :: bool

text \<open>The host to use in place of another one.\<close>

fun find_addr_map :: "cl_addrmap list \<Rightarrow> block \<Rightarrow> block" where
  "find_addr_map [] hostname = hostname"
| "find_addr_map (a # as) hostname = (if am_orig a = hostname then am_alt a else find_addr_map as hostname)"

text \<open>The loop: the answer that is used, or none when the lookup fails.\<close>

fun lookup_loop :: "nat \<Rightarrow> host_answer list \<Rightarrow> host_answer option outcome" where
  "lookup_loop retry [] = Waiting"
| "lookup_loop retry (a # as) =
     (if retry > 2 then Returned None
      else if \<not> ha_hp a then (if ha_herr a = TRY_AGAIN then lookup_loop (retry + 1) as else Returned None)
      else if ha_rv a \<noteq> 0 then
        (if ha_rv a = ERANGE then (if ha_malloc a then lookup_loop retry as else Returned None)
         else if ha_rv a = EAGAIN \<or> ha_herr a = TRY_AGAIN then lookup_loop (retry + 1) as
         else Returned None)
      else Returned (Some a))"

text \<open>An address: family, port in network order, IPv4 address, eight zeros.\<close>

definition mk_sockaddr :: "int \<Rightarrow> int \<Rightarrow> block \<Rightarrow> sockaddr" where
  "mk_sockaddr family port addr = word_le 2 (word_of_int family :: u16) @ word_be 2 (word_of_int port :: u16) @ addr @ replicate 8 0"

definition append_unique :: "'a \<Rightarrow> 'a list \<Rightarrow> 'a list" where
  "append_unique x xs = (if x \<in> set xs then xs else xs @ [x])"

definition append_addrs :: "int \<Rightarrow> int \<Rightarrow> block list \<Rightarrow> sockaddr list \<Rightarrow> sockaddr list" where
  "append_addrs family port addrs v = fold (\<lambda>x v. append_unique (mk_sockaddr family port x) v) addrs v"

definition cl_lookup :: "(block \<Rightarrow> host_answer list) \<Rightarrow> cl_addrmap list option \<Rightarrow> block \<Rightarrow> int \<Rightarrow> sockaddr list option \<Rightarrow>
    (int \<times> sockaddr list option) outcome" where
  "cl_lookup resolve asc_map hostname port v =
     (let hostname = (case asc_map of None \<Rightarrow> hostname | Some am \<Rightarrow> find_addr_map am hostname) in
      case lookup_loop 0 (resolve hostname) of Waiting \<Rightarrow> Waiting
      | Returned None \<Rightarrow> Returned (- 1, v)
      | Returned (Some a) \<Rightarrow>
          if ha_addrtype a \<noteq> AF_INET then Returned (- 1, v)
          else Returned (0, map_option (append_addrs (ha_addrtype a) port (ha_addr_list a)) v))"

subsection \<open>Properties\<close>

text \<open>A retry that cannot go on for ever: it grows the buffer, or it is one of at most three.\<close>

definition grows :: "host_answer \<Rightarrow> bool" where
  "grows a \<longleftrightarrow> ha_hp a \<and> ha_rv a = ERANGE"

lemma lookup_loop_ends:
  "retry \<le> 3 \<Longrightarrow> lookup_loop retry as = Waiting \<Longrightarrow> length (filter (\<lambda>a. \<not> grows a) as) + retry \<le> 3"
proof (induction as arbitrary: retry)
  case (Cons a as)
  then have r: "retry \<le> 2" "Suc retry \<le> 3" by (auto split: if_splits)
  show ?case using Cons.IH [OF r(2)] Cons.IH [OF Cons.prems(1)] Cons.prems r
    by (auto simp: grows_def ERANGE_def split: if_splits)
qed simp

lemma append_unique_ok:
  "distinct v \<Longrightarrow> distinct (append_unique x v)" "set (append_unique x v) = insert x (set v)" "\<exists>ws. append_unique x v = v @ ws \<and> length ws \<le> 1"
  by (auto simp: append_unique_def)

lemma append_addrs_ok:
  "(distinct v \<longrightarrow> distinct (append_addrs family port as v)) \<and>
    set (append_addrs family port as v) = set v \<union> mk_sockaddr family port ` set as \<and>
    (\<exists>ws. append_addrs family port as v = v @ ws \<and> length ws \<le> length as)"
proof (induction as arbitrary: v)
  case (Cons x as)
  let ?v = "append_unique (mk_sockaddr family port x) v"
  obtain ws ws' where "?v = v @ ws" "length ws \<le> 1" "append_addrs family port as ?v = ?v @ ws'" "length ws' \<le> length as"
    using append_unique_ok(3) [where x = "mk_sockaddr family port x" and v = v] Cons [of ?v] by blast
  then show ?case using Cons [of ?v] append_unique_ok [where x = "mk_sockaddr family port x" and v = v] by (auto simp: append_addrs_def)
qed (simp add: append_addrs_def)

text \<open>C28: A lookup ends after four answers that do not ask for a larger buffer, and so does not loop on a
  resolver that keeps saying \<open>TRY_AGAIN\<close>. When it succeeds, the addresses of the host are in the
  vector, each once, behind those that were there; when it fails, the vector is as it was.\<close>

theorem lookup_spec:
  assumes "distinct v"
  shows "case cl_lookup resolve am hostname port (Some v) of
      Waiting \<Rightarrow> \<exists>h. length (filter (\<lambda>a. \<not> grows a) (resolve h)) \<le> 3
    | Returned (rv, v') \<Rightarrow> rv = - 1 \<and> v' = Some v \<or>
        (rv = 0 \<and> (\<exists>h a ws. a \<in> set (resolve h) \<and> v' = Some (v @ ws) \<and> distinct (v @ ws) \<and>
          set (v @ ws) = set v \<union> mk_sockaddr AF_INET port ` set (ha_addr_list a)))"
proof -
  obtain h where h: "(case am of None \<Rightarrow> hostname | Some am \<Rightarrow> find_addr_map am hostname) = h" by blast
  have mem: "lookup_loop r as = Returned (Some a) \<Longrightarrow> a \<in> set as" for r as a
    by (induction r as rule: lookup_loop.induct) (auto split: if_splits)
  show ?thesis
  proof (cases "lookup_loop 0 (resolve h)")
    case Waiting
    then have "length (filter (\<lambda>a. \<not> grows a) (resolve h)) + 0 \<le> 3" by (intro lookup_loop_ends) simp_all
    then show ?thesis using Waiting h by (auto simp: cl_lookup_def Let_def)
  next
    case (Returned x)
    show ?thesis
    proof (cases x)
      case (Some a)
      obtain ws where ws: "append_addrs AF_INET port (ha_addr_list a) v = v @ ws" using append_addrs_ok by blast
      have "distinct (v @ ws)" "set (v @ ws) = set v \<union> mk_sockaddr AF_INET port ` set (ha_addr_list a)"
        using append_addrs_ok [of v AF_INET port "ha_addr_list a"] assms unfolding ws by blast+
      moreover have "a \<in> set (resolve h)" using mem Returned Some by blast
      ultimately show ?thesis using Returned Some h ws by (auto simp: cl_lookup_def Let_def)
    qed (use Returned h in \<open>simp add: cl_lookup_def Let_def\<close>)
  qed
qed

definition sample_resolve :: "block \<Rightarrow> host_answer list" where
  "sample_resolve h = (if h = [104] then
     [\<lparr>ha_rv = 0, ha_hp = False, ha_herr = TRY_AGAIN, ha_addrtype = 0, ha_addr_list = [], ha_malloc = True\<rparr>,
      \<lparr>ha_rv = 0, ha_hp = True, ha_herr = 0, ha_addrtype = AF_INET, ha_addr_list = [[10, 0, 0, 1], [10, 0, 0, 2]], ha_malloc = True\<rparr>]
    else [\<lparr>ha_rv = 0, ha_hp = False, ha_herr = HOST_NOT_FOUND, ha_addrtype = 0, ha_addr_list = [], ha_malloc = True\<rparr>])"

theorem lookup_spec_witness:
  "case cl_lookup sample_resolve None [104] 3000 (Some [mk_sockaddr AF_INET 3000 [10, 0, 0, 2]]) of
      Waiting \<Rightarrow> \<exists>h. length (filter (\<lambda>a. \<not> grows a) (sample_resolve h)) \<le> 3
    | Returned (rv, v') \<Rightarrow> rv = - 1 \<and> v' = Some [mk_sockaddr AF_INET 3000 [10, 0, 0, 2]] \<or>
        (rv = 0 \<and> (\<exists>h a ws. a \<in> set (sample_resolve h) \<and> v' = Some ([mk_sockaddr AF_INET 3000 [10, 0, 0, 2]] @ ws) \<and>
          distinct ([mk_sockaddr AF_INET 3000 [10, 0, 0, 2]] @ ws) \<and>
          set ([mk_sockaddr AF_INET 3000 [10, 0, 0, 2]] @ ws) =
            set [mk_sockaddr AF_INET 3000 [10, 0, 0, 2]] \<union> mk_sockaddr AF_INET 3000 ` set (ha_addr_list a)))"
  by (rule lookup_spec) simp

end
