(* ===== verification/Cl_Info.thy ===== *)
theory Cl_Info
  imports Cl_Lookup Cl_Msg
begin

section \<open>Info requests (\<open>src/cl_info.c\<close>, \<open>src/cl_request.c\<close>)\<close>

text \<open>
  An info request asks a server for named values in text form, and gets lines of name, tab and
  value. A string of the caller is the list of its characters before the zero; a buffer that was
  read is a block. Calls that wait give an \<open>outcome\<close>; \<open>bind_io\<close> goes on with what they return.
  Shared memory is off (\<open>g_shared_memory\<close> is false).
\<close>

definition bind_io :: "'a outcome option \<Rightarrow> ('a \<Rightarrow> 'b outcome option) \<Rightarrow> 'b outcome option" where
  "bind_io x f = (case x of None \<Rightarrow> None | Some Waiting \<Rightarrow> Some Waiting | Some (Returned y) \<Rightarrow> f y)"

lemma bind_io_simps [simp]:
  "bind_io None f = None" "bind_io (Some Waiting) f = Some Waiting" "bind_io (Some (Returned x)) f = f x"
  by (simp_all add: bind_io_def)

definition CL_PROTO_TYPE_INFO :: u8 where "CL_PROTO_TYPE_INFO = 1"

subsection \<open>One request\<close>

text \<open>The environment of a request: of its connection, its writes and reads with and without a time limit, and its allocation.\<close>

record info_env =
  ie_socket :: int
  ie_getfl :: bool
  ie_setfl :: bool
  ie_connect :: "sockaddr \<Rightarrow> int option"
  ie_write :: "nat io_script"
  ie_header :: "block io_script"
  ie_body :: "block io_script"
  ie_fcntl :: bool
  ie_restore :: bool
  ie_malloc_req :: bool
  ie_write_forever :: "(nat + int) list"
  ie_header_forever :: "(block + int) list"
  ie_body_forever :: "(block + int) list"
  ie_malloc :: malloc_env

text \<open>
  The names that are sent, or an error. With an empty string the code reads the character before
  it: a fault.
\<close>

definition info_names :: "bool \<Rightarrow> block option \<Rightarrow> (int + block) option" where
  "info_names send_asis names =
     (case names of None \<Rightarrow> Some (Inr [])
      | Some s \<Rightarrow>
          let s = (if send_asis then s else map (\<lambda>c. if c = 59 \<or> c = 58 \<or> c = 44 then 10 else c) s) in
          if s = [] then None
          else if last s = 10 then Some (Inr s)
          else if length s + 1 > 1024 then Some (Inl (- 1))
          else Some (Inr (s @ [10])))"

definition info_request :: "block \<Rightarrow> block option" where
  "info_request names =
     cl_proto_swap ([CL_PROTO_VERSION, CL_PROTO_TYPE_INFO] @ word_le 6 (of_nat (length names) :: u64) @ names) 0"

definition info_write :: "info_env \<Rightarrow> int \<Rightarrow> nat \<Rightarrow> int outcome" where
  "info_write e timeout_ms sz =
     (case (if timeout_ms \<noteq> 0 then cf_socket_write_timeout (ie_write e) sz 0 timeout_ms
            else cf_socket_write_forever (ie_fcntl e) (ie_restore e) (ie_write_forever e) sz) of
        Waiting \<Rightarrow> Waiting | Returned (rv, _) \<Rightarrow> Returned rv)"

definition info_read ::
  "bool \<Rightarrow> block io_script \<Rightarrow> (block + int) list \<Rightarrow> int \<Rightarrow> block \<Rightarrow> nat \<Rightarrow> (int \<times> block option) outcome option" where
  "info_read fcntl_ok s ios timeout_ms buf n =
     (if timeout_ms \<noteq> 0 then cf_socket_read_timeout s (Some buf) n 0 timeout_ms
      else bind_io (cf_socket_read_forever fcntl_ok ios buf n) (\<lambda>(rv, b). Some (Returned (rv, Some b))))"

text \<open>The size in a swapped header.\<close>

definition proto_sz :: "block \<Rightarrow> nat option" where
  "proto_sz buf = do { x \<leftarrow> load buf 2 6; Some (unat (le_word x :: u64)) }"

text \<open>
  The whole request: the result, the buffer with the values, which may be a null pointer, and the
  descriptors that were closed.
\<close>

type_synonym info_result = "(int \<times> block option \<times> int list) outcome option"

definition info_response :: "info_env \<Rightarrow> block \<Rightarrow> int \<Rightarrow> nat \<Rightarrow> int \<Rightarrow> info_result" where
  "info_response e buf timeout_ms max_response_length fd =
     bind_io (info_read (ie_fcntl e) (ie_header e) (ie_header_forever e) timeout_ms buf 8) (\<lambda>(rv, b).
       if rv \<noteq> 0 then Some (Returned (- 1, None, [fd]))
       else do {
         buf \<leftarrow> b;
         buf \<leftarrow> cl_proto_swap buf 0;
         sz \<leftarrow> proto_sz buf;
         if sz = 0 then Some (Returned (0, None, [fd]))
         else
           let limit_reached = (0 < max_response_length \<and> max_response_length < sz);
               read_length = (if limit_reached then 100 else sz) in
           case malloc (ie_malloc e) (read_length + 1) of
             None \<Rightarrow> Some (Returned (- 1, None, [fd]))
           | Some v_buf \<Rightarrow>
               bind_io (info_read (ie_fcntl e) (ie_body e) (ie_body_forever e) timeout_ms v_buf read_length) (\<lambda>(rv, v).
                 if rv \<noteq> 0 then Some (Returned (- 1, None, [fd]))
                 else do {
                   v_buf \<leftarrow> v;
                   v_buf \<leftarrow> store v_buf read_length [0];
                   Some (Returned (if limit_reached then (- 1, None, [fd]) else (0, Some v_buf, [fd]))) }) })"

definition citrusleaf_info_host_limit ::
  "info_env \<Rightarrow> sockaddr \<Rightarrow> block option \<Rightarrow> int \<Rightarrow> bool \<Rightarrow> nat \<Rightarrow> info_result" where
  "citrusleaf_info_host_limit e sa_in names timeout_ms send_asis max_response_length = do {
     r \<leftarrow> info_names send_asis names;
     case r of Inl rv \<Rightarrow> Some (Returned (rv, None, []))
     | Inr sent \<Rightarrow>
         let (fd, closed) = cf_socket_create_and_connect_nb (ie_socket e) (ie_getfl e) (ie_setfl e) (\<lambda>_. ie_connect e sa_in) in
         if fd = - 1 then Some (Returned (- 1, None, closed))
         else do {
           req \<leftarrow> info_request sent;
           if names \<noteq> None \<and> \<not> length req < 1024 \<and> \<not> ie_malloc_req e then Some (Returned (- 1, None, [fd]))
           else
             let buf = (if length req < 1024 then req @ replicate (1024 - length req) 0 else replicate 1024 0) in
             case info_write e timeout_ms (length req) of
               Waiting \<Rightarrow> Some Waiting
             | Returned rv \<Rightarrow>
                 if rv \<noteq> 0 then Some (Returned (- 1, None, [fd]))
                 else info_response e buf timeout_ms max_response_length fd } }"

definition citrusleaf_info_host :: "info_env \<Rightarrow> sockaddr \<Rightarrow> block option \<Rightarrow> int \<Rightarrow> bool \<Rightarrow> info_result" where
  "citrusleaf_info_host e sa_in names timeout_ms send_asis = citrusleaf_info_host_limit e sa_in names timeout_ms send_asis 0"

text \<open>\<open>citrusleaf_info\<close>: the addresses of a host are asked in turn.\<close>

fun info_addrs :: "(nat \<Rightarrow> info_env) \<Rightarrow> nat \<Rightarrow> sockaddr list \<Rightarrow> block option \<Rightarrow> int \<Rightarrow> info_result" where
  "info_addrs es i [] names timeout_ms = Some (Returned (- 1, None, []))"
| "info_addrs es i (sa # sas) names timeout_ms =
     bind_io (citrusleaf_info_host (es i) sa names timeout_ms False) (\<lambda>(rv, v, closed).
       if rv = 0 then Some (Returned (0, v, closed))
       else bind_io (info_addrs es (Suc i) sas names timeout_ms) (\<lambda>(rv, v, closed'). Some (Returned (rv, v, closed @ closed'))))"

definition citrusleaf_info ::
  "(block \<Rightarrow> host_answer list) \<Rightarrow> (nat \<Rightarrow> info_env) \<Rightarrow> block \<Rightarrow> int \<Rightarrow> block option \<Rightarrow> int \<Rightarrow> info_result" where
  "citrusleaf_info resolve es hostname port names timeout_ms =
     (case cl_lookup resolve None hostname port (Some []) of
        Waiting \<Rightarrow> Some Waiting
      | Returned (rv, v) \<Rightarrow>
          if rv \<noteq> 0 then Some (Returned (- 1, None, []))
          else do { sas \<leftarrow> v; info_addrs es 0 sas names timeout_ms })"

text \<open>\<open>citrusleaf_info_parse_single\<close>: the value of the first line; it must have an end.\<close>

definition citrusleaf_info_parse_single :: "block \<Rightarrow> int \<times> block option" where
  "citrusleaf_info_parse_single vs =
     (let rest = dropWhile (\<lambda>c. c \<noteq> 9) vs in
      if rest = [] then (- 1, None)
      else let v = tl rest in if 10 \<in> set v then (0, Some (takeWhile (\<lambda>c. c \<noteq> 10) v)) else (- 1, Some v))"

subsection \<open>Names and values\<close>

text \<open>
  \<open>get_name_value\<close> on a string: name, value and the rest, or nothing at the end. It puts a zero
  on every tab of the line, and the value starts behind the last one.
\<close>

definition get_name_value :: "block \<Rightarrow> (block \<times> block \<times> block) option" where
  "get_name_value p =
     (if p = [] then None
      else let line = takeWhile (\<lambda>c. c \<noteq> 10) p; rest = drop 1 (dropWhile (\<lambda>c. c \<noteq> 10) p) in
        Some (takeWhile (\<lambda>c. c \<noteq> 9) line, if 9 \<in> set line then rev (takeWhile (\<lambda>c. c \<noteq> 9) (rev line)) else [], rest))"

text \<open>The loop of the callers.\<close>

function name_values :: "block \<Rightarrow> (block \<times> block) list" where
  "name_values p = (case get_name_value p of None \<Rightarrow> [] | Some (name, v, rest) \<Rightarrow> (name, v) # name_values rest)"
  by pat_completeness auto
termination
proof (relation "measure length")
  fix p x name y v rest
  assume a: "get_name_value p = Some x" "(name, y) = x" "(v, rest) = y"
  then have p: "p \<noteq> []" "rest = drop 1 (dropWhile (\<lambda>c. c \<noteq> 10) p)" by (auto simp: get_name_value_def Let_def split: if_splits)
  have "length (dropWhile (\<lambda>c. c \<noteq> 10) p) \<le> length p" by (rule length_dropWhile_le)
  then show "(rest, p) \<in> measure length" using p by (cases p) auto
qed simp

declare name_values.simps [simp del]

text \<open>\<open>cl_strncpy\<close> into an array; the result says whether the string was cut.\<close>

fun strncpy_loop :: "block \<Rightarrow> nat \<Rightarrow> block \<Rightarrow> nat \<Rightarrow> (block \<times> bool) option" where
  "strncpy_loop trg i [] lim = do { trg \<leftarrow> store trg i [0]; Some (trg, False) }"
| "strncpy_loop trg i (c # src) lim =
     (if lim \<le> i then do { trg \<leftarrow> store trg i [0]; Some (trg, True) }
      else do { trg \<leftarrow> store trg i [c]; strncpy_loop trg (i + 1) src lim })"

definition cl_strncpy :: "block \<Rightarrow> block \<Rightarrow> nat \<Rightarrow> (block \<times> bool) option" where
  "cl_strncpy trg src len = strncpy_loop trg 0 src (len - 1)"

subsection \<open>The requests of the client\<close>

text \<open>A buffer that is a null pointer faults when it is read as a string.\<close>

definition values_str :: "block option \<Rightarrow> block option" where
  "values_str v = do { b \<leftarrow> v; c_str b }"

text \<open>The loops over names and values; the array for the name of the node is part of the state.\<close>

definition node_name_step :: "block \<times> block \<Rightarrow> block \<Rightarrow> block option" where
  "node_name_step nv trg = (if fst nv = str_lit ''node'' then map_option fst (cl_strncpy trg (snd nv) NODE_NAME_SIZE) else Some trg)"

fun fold_opt :: "('a \<Rightarrow> 's \<Rightarrow> 's option) \<Rightarrow> 'a list \<Rightarrow> 's \<Rightarrow> 's option" where
  "fold_opt f [] s = Some s"
| "fold_opt f (x # xs) s = do { s \<leftarrow> f x s; fold_opt f xs s }"

definition cl_request_node_name :: "info_env \<Rightarrow> sockaddr \<Rightarrow> block \<Rightarrow> int \<Rightarrow> (int \<times> block \<times> int list) outcome option" where
  "cl_request_node_name e sa_in node_name timeout_ms = do {
     node_name \<leftarrow> store node_name 0 [0];
     bind_io (citrusleaf_info_host e sa_in (Some (str_lit ''node'')) timeout_ms False) (\<lambda>(rv, v, closed).
       if rv \<noteq> 0 then Some (Returned (- 1, node_name, closed))
       else do {
         s \<leftarrow> values_str v;
         node_name \<leftarrow> fold_opt node_name_step (name_values s) node_name;
         Some (Returned (0, node_name, closed)) }) }"

definition cl_get_node_name :: "info_env \<Rightarrow> sockaddr \<Rightarrow> block \<Rightarrow> int \<Rightarrow> (int \<times> block \<times> int list) outcome option" where
  "cl_get_node_name e sa_in node_name timeout_ms = cl_request_node_name e sa_in node_name timeout_ms"

definition cl_request_n_partitions :: "info_env \<Rightarrow> sockaddr \<Rightarrow> int \<Rightarrow> (int \<times> int \<times> int list) outcome option" where
  "cl_request_n_partitions e sa_in timeout_ms =
     bind_io (citrusleaf_info_host e sa_in (Some (str_lit ''partitions'')) timeout_ms False) (\<lambda>(rv, v, closed).
       if rv \<noteq> 0 then Some (Returned (- 1, 0, closed))
       else do {
         s \<leftarrow> values_str v;
         let n = fold (\<lambda>(name, v) n. if name = str_lit ''partitions'' then atoi v else n) (name_values s) 0;
         Some (Returned (0, n, closed)) })"

definition cl_get_n_partitions :: "info_env \<Rightarrow> sockaddr \<Rightarrow> int \<Rightarrow> (int \<times> int \<times> int list) outcome option" where
  "cl_get_n_partitions e sa_in timeout_ms = cl_request_n_partitions e sa_in timeout_ms"

record cl_node_info =
  ni_values :: "block option"
  ni_node_name :: block
  ni_services :: "block option"
  ni_partition_generation :: u32

definition node_info_step :: "block \<times> block \<Rightarrow> cl_node_info \<Rightarrow> cl_node_info option" where
  "node_info_step nv ni =
     (if fst nv = str_lit ''node'' then
        map_option (\<lambda>(trg, _). ni\<lparr>ni_node_name := trg\<rparr>) (cl_strncpy (ni_node_name ni) (snd nv) NODE_NAME_SIZE)
      else if fst nv = str_lit ''partition-generation'' then Some (ni\<lparr>ni_partition_generation := word_of_int (atoi (snd nv))\<rparr>)
      else if fst nv = str_lit ''services'' then Some (ni\<lparr>ni_services := Some (snd nv)\<rparr>)
      else Some ni)"

definition cl_request_node_info :: "info_env \<Rightarrow> sockaddr \<Rightarrow> cl_node_info \<Rightarrow> int \<Rightarrow> (int \<times> cl_node_info \<times> int list) outcome option" where
  "cl_request_node_info e sa_in ni timeout_ms = do {
     node_name \<leftarrow> store (ni_node_name ni) 0 [0];
     let ni = ni\<lparr>ni_node_name := node_name, ni_partition_generation := 0, ni_services := None\<rparr>;
     bind_io (citrusleaf_info_host_limit e sa_in
         (Some (str_lit ''node'' @ [10] @ str_lit ''partition-generation'' @ [10] @ str_lit ''services'' @ [10])) timeout_ms False 10000)
       (\<lambda>(rv, v, closed).
          let ni = ni\<lparr>ni_values := v\<rparr> in
          if rv \<noteq> 0 then Some (Returned (- 1, ni, closed))
          else do {
            s \<leftarrow> values_str v;
            ni \<leftarrow> fold_opt node_info_step (name_values s) ni;
            Some (Returned (0, ni, closed)) }) }"

definition cl_request_replicas :: "info_env \<Rightarrow> sockaddr \<Rightarrow> int \<Rightarrow> info_result" where
  "cl_request_replicas e sa_in timeout_ms = citrusleaf_info_host_limit e sa_in
     (Some (str_lit ''partition-generation'' @ [10] @ str_lit ''replicas-master'' @ [10] @ str_lit ''replicas-prole'' @ [10]))
     timeout_ms False 2000000"

subsection \<open>What a request promises\<close>

text \<open>The size that a server announces, in the first 8 bytes that it delivers.\<close>

definition announced :: "block \<Rightarrow> nat" where
  "announced d = (if length d < 8 then 0 else unat (le_word (rev (take 6 (drop 2 d))) :: u64))"

text \<open>Timed reads and writes with scripts in order.\<close>

definition script_fine :: "'a io_script \<Rightarrow> bool" where
  "script_fine s \<longleftrightarrow> errno_ok (s_ticks s) \<and> s_prep s \<noteq> Epoll_Error 0"

lemma info_read_ok:
  assumes "script_fine s" and "t \<noteq> 0" and "0 < n" and "n \<le> length b"
  shows "\<exists>r. info_read f s ios t b n = Some r \<and> (case r of Waiting \<Rightarrow> True
     | Returned (rv, b') \<Rightarrow> \<exists>d. b' = Some (d @ drop (length d) b) \<and> length d \<le> n \<and>
         (rv = 0 \<longrightarrow> length d = n \<and> d = take n (delivered (s_ticks s))))"
proof -
  let ?d = "attempt_deadline 0 t (s_start s)"
  have dt: "delivered (take k ts) = take (length (delivered (take k ts))) (delivered ts)" for k and ts :: "block tick list"
  proof (induction ts arbitrary: k)
    case (Cons x ts)
    then show ?case
      by (cases k; cases "t_epoll x"; cases "t_io x") (auto split: bool.splits)
  qed simp
  show ?thesis
  proof (cases "s_prep s")
    case Prepared
    have e: "errno_ok (s_ticks s)" using assms(1) by (simp add: script_fine_def)
    from read_loop_ok [OF e assms(3,4), of ?d] obtain r where r: "read_loop ?d n (Some b) 0 (s_ticks s) = Some r"
      "read_result ?d n b 0 (s_ticks s) r" by blast
    have i: "info_read f s ios t b n = Some r" using Prepared r(1) assms(2,3) by (simp add: info_read_def cf_socket_read_timeout_def)
    show ?thesis
    proof (cases r)
      case (Returned x)
      obtain rv b' where x: "x = (rv, b')" by (cases x)
      from r(2) Returned x obtain k where k: "b' = Some (take n (delivered (take k (s_ticks s))) @ drop (length (take n (delivered (take k (s_ticks s))))) b)"
        "rv = 0 \<longleftrightarrow> n \<le> length (take n (delivered (take k (s_ticks s))))"
        by (auto simp: read_result_def Let_def)
      let ?t = "take n (delivered (take k (s_ticks s)))"
      have "rv = 0 \<longrightarrow> length ?t = n \<and> ?t = take n (delivered (s_ticks s))"
      proof
        assume "rv = 0"
        then have l: "n \<le> length (delivered (take k (s_ticks s)))" using k(2) by simp
        have "?t = take n (take (length (delivered (take k (s_ticks s)))) (delivered (s_ticks s)))" using dt [of k "s_ticks s"] by simp
        moreover have "length ?t = n" using l by simp
        ultimately show "length ?t = n \<and> ?t = take n (delivered (s_ticks s))" using l by (simp add: min_absorb1)
      qed
      moreover have "length ?t \<le> n" by simp
      ultimately have "\<exists>d. b' = Some (d @ drop (length d) b) \<and> length d \<le> n \<and>
         (rv = 0 \<longrightarrow> length d = n \<and> d = take n (delivered (s_ticks s)))"
        using k(1) by (intro exI [of _ ?t] conjI)
      then show ?thesis using i Returned x by simp
    qed (use i in simp)
  qed (use assms in \<open>auto simp: info_read_def cf_socket_read_timeout_def script_fine_def errno_defs intro!: exI [of _ "[]"]\<close>)
qed

lemma swap_proto:
  assumes "8 \<le> length buf"
  shows "\<exists>buf'. cl_proto_swap buf 0 = Some buf' \<and> proto_sz buf' = Some (unat (le_word (rev (take 6 (drop 2 buf))) :: u64)) \<and> length buf' = length buf"
proof -
  obtain a b c d e f g h r where b: "buf = a # b # c # d # e # f # g # h # r"
    using assms by (auto simp: neq_Nil_conv Suc_le_length_iff eval_nat_numeral)
  show ?thesis by (simp add: b cl_proto_swap_def proto_sz_def load_def store_def)
qed

lemma strlen_ends: "strlen (b @ [0]) = Some (length (takeWhile (\<lambda>c. c \<noteq> 0) b))"
  by (induction b) auto

lemma c_str_ends: "c_str (b @ [0]) = Some (takeWhile (\<lambda>c. c \<noteq> 0) b)"
proof -
  have "length (takeWhile (\<lambda>c. c \<noteq> 0) b) \<le> length b" by (rule length_takeWhile_le)
  then show ?thesis by (simp add: c_str_def strlen_ends load_def takeWhile_eq_take [symmetric])
qed

definition values_ok :: "nat \<Rightarrow> block option \<Rightarrow> bool" where
  "values_ok n v \<longleftrightarrow> (case v of None \<Rightarrow> n = 0 | Some b \<Rightarrow> n \<noteq> 0 \<and> length b = n + 1 \<and> last b = 0)"

lemma info_response_ok:
  assumes s: "script_fine (ie_header e)" "script_fine (ie_body e)" and t: "t \<noteq> 0" and b: "8 \<le> length buf"
  shows "\<exists>r. info_response e buf t lim fd = Some r \<and> (case r of Waiting \<Rightarrow> True
     | Returned (rv, v, closed) \<Rightarrow> closed = [fd] \<and> (rv = 0 \<and> values_ok (announced (delivered (s_ticks (ie_header e)))) v \<and>
         (0 < lim \<longrightarrow> announced (delivered (s_ticks (ie_header e))) \<le> lim) \<or> rv = - 1 \<and> v = None))"
proof -
  let ?h = "info_read (ie_fcntl e) (ie_header e) (ie_header_forever e) t buf 8"
  let ?A = "announced (delivered (s_ticks (ie_header e)))"
  have "0 < (8 :: nat)" by simp
  from info_read_ok [OF s(1) t this b, of "ie_fcntl e" "ie_header_forever e"] obtain r where r: "?h = Some r"
    "case r of Waiting \<Rightarrow> True | Returned (rv, b') \<Rightarrow> \<exists>d. b' = Some (d @ drop (length d) buf) \<and> length d \<le> 8 \<and>
       (rv = 0 \<longrightarrow> length d = 8 \<and> d = take 8 (delivered (s_ticks (ie_header e))))" by blast
  show ?thesis
  proof (cases r)
    case Waiting
    then show ?thesis using r(1) by (simp add: info_response_def)
  next
    case (Returned x)
    obtain rv b' where x: "x = (rv, b')" by (cases x)
    show ?thesis
    proof (cases "rv = 0")
      case False
      then show ?thesis using r(1) Returned x by (simp add: info_response_def)
    next
      case True
      from r(2) Returned x True obtain d where d: "b' = Some (d @ drop 8 buf)" "length d = 8" "d = take 8 (delivered (s_ticks (ie_header e)))" by auto
      have "8 \<le> length (d @ drop 8 buf)" using d(2) by simp
      from swap_proto [OF this] obtain buf' where w: "cl_proto_swap (d @ drop 8 buf) 0 = Some buf'"
        "proto_sz buf' = Some (unat (le_word (rev (take 6 (drop 2 d))) :: u64))" using d(2) by auto
      have ld: "8 \<le> length (delivered (s_ticks (ie_header e)))" using d(2,3) by simp
      have "take 6 (drop 2 d) = take 6 (drop 2 (delivered (s_ticks (ie_header e))))" unfolding d(3) by (simp add: drop_take)
      then have sz: "proto_sz buf' = Some ?A" using w(2) ld by (simp add: announced_def)
      show ?thesis
      proof (cases "?A = 0")
        case True
        then show ?thesis using r(1) Returned x \<open>rv = 0\<close> d(1) w(1) sz by (simp add: info_response_def values_ok_def)
      next
        case nz: False
        let ?lim = "0 < lim \<and> lim < ?A"
        let ?n = "if ?lim then 100 else ?A"
        show ?thesis
        proof (cases "ie_malloc e")
          case None
          then show ?thesis using r(1) Returned x \<open>rv = 0\<close> d(1) w(1) sz nz by (simp add: info_response_def malloc_def Let_def)
        next
          case (Some g)
          let ?vb = "map g [0..<?n + 1]"
          have n: "0 < ?n" "?n \<le> length ?vb" using nz by simp_all
          from info_read_ok [OF s(2) t n, of "ie_fcntl e" "ie_body_forever e"] obtain q where q:
            "info_read (ie_fcntl e) (ie_body e) (ie_body_forever e) t ?vb ?n = Some q"
            "case q of Waiting \<Rightarrow> True | Returned (rv, b') \<Rightarrow> \<exists>d. b' = Some (d @ drop (length d) ?vb) \<and> length d \<le> ?n \<and>
              (rv = 0 \<longrightarrow> length d = ?n \<and> d = take ?n (delivered (s_ticks (ie_body e))))" by blast
          have e: "info_response e buf t lim fd = bind_io (Some q) (\<lambda>(rv, v). if rv \<noteq> 0 then Some (Returned (- 1, None, [fd]))
                 else do { v_buf \<leftarrow> v; v_buf \<leftarrow> store v_buf ?n [0];
                   Some (Returned (if ?lim then (- 1, None, [fd]) else (0, Some v_buf, [fd]))) })"
            using r(1) Returned x \<open>rv = 0\<close> d(1) w(1) sz nz Some q(1) by (simp add: info_response_def malloc_def Let_def)
          show ?thesis
          proof (cases q)
            case Waiting
            then show ?thesis using e by simp
          next
            case (Returned y)
            obtain rv' v' where y: "y = (rv', v')" by (cases y)
            show ?thesis
            proof (cases "rv' = 0")
              case False
              then show ?thesis using e Returned y by simp
            next
              case True
              from q(2) Returned y True obtain d' where d': "v' = Some (d' @ drop ?n ?vb)" "length d' = ?n" by auto
              have "store (d' @ drop ?n ?vb) ?n [0] = Some (d' @ [0])" using d'(2) by (auto simp: store_def)
              then show ?thesis using e Returned y True d' nz by (auto simp: values_ok_def)
            qed
          qed
        qed
      qed
    qed
  qed
qed

text \<open>The environments in which timed requests are in order; what the connection attempt gives and leaves closed.\<close>

definition info_fine :: "info_env \<Rightarrow> bool" where
  "info_fine e \<longleftrightarrow> script_fine (ie_write e) \<and> script_fine (ie_header e) \<and> script_fine (ie_body e)"

definition answer_size :: "info_env \<Rightarrow> nat" where
  "answer_size e = announced (delivered (s_ticks (ie_header e)))"

definition opened :: "info_env \<Rightarrow> sockaddr \<Rightarrow> int list" where
  "opened e sa = (let (fd, closed) = cf_socket_create_and_connect_nb (ie_socket e) (ie_getfl e) (ie_setfl e) (\<lambda>_. ie_connect e sa) in
     if fd = - 1 then closed else [fd])"

lemma info_request_ok: "info_request s = Some ([2, 1] @ word_be 6 (of_nat (length s) :: u64) @ s)"
proof -
  have u: "[0..<6] = [0, 1, 2, 3, 4, 5 :: nat]" by (simp add: upt_rec)
  show ?thesis
    by (simp add: info_request_def cl_proto_swap_def load_def store_def word_be_def word_le_def u CL_PROTO_VERSION_def CL_PROTO_TYPE_INFO_def)
qed

definition info_ok :: "info_env \<Rightarrow> sockaddr \<Rightarrow> nat \<Rightarrow> (int \<times> block option \<times> int list) outcome \<Rightarrow> bool" where
  "info_ok e sa lim r \<longleftrightarrow> (case r of Waiting \<Rightarrow> True
     | Returned (rv, v, closed) \<Rightarrow> closed = opened e sa \<and>
         (rv = 0 \<and> values_ok (answer_size e) v \<and> (0 < lim \<longrightarrow> answer_size e \<le> lim) \<or> rv = - 1 \<and> v = None))"

lemma citrusleaf_info_host_limit_ok:
  assumes e: "info_fine e" and t: "t \<noteq> 0" and n: "s \<noteq> []" "last s = 10 \<or> length s < 1024"
  shows "\<exists>r. citrusleaf_info_host_limit e sa (Some s) t asis lim = Some r \<and> info_ok e sa lim r"
proof -
  define x where "x = (if asis then s else map (\<lambda>c. if c = 59 \<or> c = 58 \<or> c = 44 then 10 else c) s)"
  have "x \<noteq> []" "length x = length s" using n(1) by (simp_all add: x_def)
  moreover have "last s = 10 \<Longrightarrow> last x = 10" using n(1) by (simp add: last_map x_def)
  moreover have "info_names asis (Some s) = (if x = [] then None else if last x = 10 then Some (Inr x)
      else if length x + 1 > 1024 then Some (Inl (- 1)) else Some (Inr (x @ [10])))"
    by (simp add: info_names_def x_def)
  ultimately obtain sent where sent: "info_names asis (Some s) = Some (Inr sent)"
    using n(2) by (cases "last x = 10") auto
  obtain fd closed where c: "cf_socket_create_and_connect_nb (ie_socket e) (ie_getfl e) (ie_setfl e) (\<lambda>_. ie_connect e sa) = (fd, closed)"
    by fastforce
  note q = info_request_ok [of sent]
  let ?req = "[2, 1] @ word_be 6 (of_nat (length sent) :: u64) @ sent"
  let ?buf = "if length ?req < 1024 then ?req @ replicate (1024 - length ?req) 0 else replicate 1024 0"
  have f: "script_fine (ie_header e)" "script_fine (ie_body e)" using e by (simp_all add: info_fine_def)
  have b: "8 \<le> length ?buf" by simp
  from info_response_ok [OF f t b, of lim fd] obtain r where r: "info_response e ?buf t lim fd = Some r"
    "case r of Waiting \<Rightarrow> True | Returned (rv, v, closed) \<Rightarrow> closed = [fd] \<and>
       (rv = 0 \<and> values_ok (announced (delivered (s_ticks (ie_header e)))) v \<and>
         (0 < lim \<longrightarrow> announced (delivered (s_ticks (ie_header e))) \<le> lim) \<or> rv = - 1 \<and> v = None)" by blast
  show ?thesis
  proof (cases "fd = - 1 \<or> \<not> length ?req < 1024 \<and> \<not> ie_malloc_req e")
    case True
    then show ?thesis using sent c q by (auto simp: citrusleaf_info_host_limit_def info_ok_def opened_def)
  next
    case False
    then have g: "citrusleaf_info_host_limit e sa (Some s) t asis lim = (case info_write e t (length ?req) of
        Waiting \<Rightarrow> Some Waiting | Returned rv \<Rightarrow> if rv \<noteq> 0 then Some (Returned (- 1, None, [fd])) else Some r)"
      using sent c q r(1) unfolding citrusleaf_info_host_limit_def
      by (cases "length sent < 1016") (auto simp add: Let_def split: outcome.split)
    show ?thesis
    proof (cases "info_write e t (length ?req)")
      case (Returned rv)
      have "info_ok e sa lim r" using r(2) False c by (auto simp: info_ok_def opened_def answer_size_def split: outcome.splits)
      then show ?thesis using g Returned False c by (cases "rv = 0") (auto simp: info_ok_def opened_def)
    qed (use g in \<open>simp add: info_ok_def\<close>)
  qed
qed

lemma values_str_ok: "values_ok n v \<Longrightarrow> n \<noteq> 0 \<Longrightarrow> \<exists>s. values_str v = Some s \<and> length s \<le> n"
proof -
  assume a: "values_ok n v" "n \<noteq> 0"
  then obtain b where b: "v = Some b" "length b = n + 1" "last b = 0" by (cases v) (auto simp: values_ok_def)
  then have s: "b = butlast b @ [0]" by (metis append_butlast_last_id length_0_conv Suc_eq_plus1 nat.simps(3))
  have "c_str b = Some (takeWhile (\<lambda>c. c \<noteq> 0) (butlast b))" using c_str_ends [of "butlast b"] s by simp
  moreover have "length (takeWhile (\<lambda>c. c \<noteq> 0) (butlast b)) \<le> n" using b(2) length_takeWhile_le [of _ "butlast b"] by simp
  ultimately show ?thesis using b(1) by (simp add: values_str_def)
qed

text \<open>Copying a string into an array: what fits, and a zero.\<close>

lemma strncpy_loop_ok:
  assumes "i \<le> lim" and "lim < length trg"
  shows "strncpy_loop trg i src lim = Some (take i trg @ take (lim - i) src @ 0 # drop (Suc (i + min (lim - i) (length src))) trg, lim - i < length src)"
  using assms
proof (induction src arbitrary: i trg)
  case Nil
  then show ?case by (simp add: store_def)
next
  case (Cons c src)
  show ?case
  proof (cases "lim \<le> i")
    case True
    then show ?thesis using Cons.prems by (simp add: store_def)
  next
    case False
    let ?trg = "take i trg @ [c] @ drop (i + 1) trg"
    have s: "store trg i [c] = Some ?trg" using Cons.prems by (simp add: store_def)
    have i: "Suc i \<le> lim" "lim < length ?trg" using False Cons.prems by simp_all
    have t: "take (lim - i) (c # src) = c # take (lim - Suc i) src" using False by (simp add: take_Cons')
    have m: "Suc i + min (lim - Suc i) (length src) = i + min (lim - i) (length (c # src))" using False by auto
    have d: "drop (Suc (i + min (lim - i) (length (c # src)))) ?trg = drop (Suc (i + min (lim - i) (length (c # src)))) trg"
      unfolding m [symmetric] using Cons.prems False by (simp add: drop_Cons' ac_simps)
    have tk: "take (Suc i) ?trg = take i trg @ [c]" using Cons.prems False by simp
    have ln: "(lim - Suc i < length src) = (lim - i < length (c # src))" using False by auto
    show ?thesis using Cons.IH [OF i, unfolded m d tk ln] False s t by simp
  qed
qed

lemma cl_strncpy_ok:
  assumes "0 < len" and "len \<le> length trg"
  shows "cl_strncpy trg src len = Some (take (len - 1) src @ 0 # drop (Suc (min (len - 1) (length src))) trg, len - 1 < length src)"
  using strncpy_loop_ok [of 0 "len - 1" trg src] assms by (simp add: cl_strncpy_def)

lemma c_str_in: "0 \<in> set b \<Longrightarrow> c_str b = Some (takeWhile (\<lambda>c. c \<noteq> 0) b)"
proof -
  assume z: "0 \<in> set b"
  have "strlen b = Some (length (takeWhile (\<lambda>c. c \<noteq> 0) b))" using z by (induction b) auto
  moreover have "length (takeWhile (\<lambda>c. c \<noteq> 0) b) \<le> length b" by (rule length_takeWhile_le)
  ultimately show ?thesis by (simp add: c_str_def load_def takeWhile_eq_take [symmetric])
qed

lemma c_str_short:
  assumes "0 \<in> set (take n b)"
  shows "\<exists>s. c_str b = Some s \<and> length s < n"
proof -
  have b: "b = take n b @ drop n b" by simp
  have z: "0 \<in> set b" using assms by (rule in_set_takeD)
  obtain k where k: "k < length (take n b)" "take n b ! k = 0" using assms by (meson in_set_conv_nth)
  have "takeWhile (\<lambda>c. c \<noteq> 0) b = takeWhile (\<lambda>c. c \<noteq> 0) (take n b)"
    using assms by (subst b, subst takeWhile_append1 [of 0]) auto
  moreover have "length (takeWhile (\<lambda>c. c \<noteq> 0) (take n b)) \<le> k"
  proof (rule ccontr)
    assume "\<not> length (takeWhile (\<lambda>c. c \<noteq> 0) (take n b)) \<le> k"
    then have l: "k < length (takeWhile (\<lambda>c. c \<noteq> 0) (take n b))" by (rule not_le_imp_less)
    have "takeWhile (\<lambda>c. c \<noteq> 0) (take n b) ! k \<noteq> 0" using set_takeWhileD [OF nth_mem [OF l]] by blast
    then show False unfolding takeWhile_nth [OF l] using k(2) by blast
  qed
  moreover have "k < n" using k(1) by simp
  ultimately have "length (takeWhile (\<lambda>c. c \<noteq> 0) b) < n" by simp
  then show ?thesis using c_str_in [OF z] by blast
qed

definition name_array :: "block \<Rightarrow> bool" where
  "name_array b \<longleftrightarrow> length b = NODE_NAME_SIZE \<and> 0 \<in> set b"

lemma name_array_strncpy: "name_array b \<Longrightarrow> \<exists>b' c. cl_strncpy b s NODE_NAME_SIZE = Some (b', c) \<and> name_array b'"
  by (auto simp: name_array_def cl_strncpy_ok NODE_NAME_SIZE_def)

lemma name_array_clear: "length b = NODE_NAME_SIZE \<Longrightarrow> \<exists>b'. store b 0 [0] = Some b' \<and> name_array b'"
  by (auto simp: name_array_def NODE_NAME_SIZE_def store_def)

lemma fold_opt_ok: "I s \<Longrightarrow> (\<And>x s. I s \<Longrightarrow> \<exists>s'. f x s = Some s' \<and> I s') \<Longrightarrow> \<exists>s'. fold_opt f xs s = Some s' \<and> I s'"
proof (induction xs arbitrary: s)
  case (Cons x xs)
  from Cons.prems(2) [OF Cons.prems(1), of x] obtain s' where "f x s = Some s'" "I s'" by blast
  then show ?case using Cons.IH [OF _ Cons.prems(2), of s'] by auto
qed simp

lemma node_lit: "str_lit ''node'' = [110, 111, 100, 101]" "str_lit ''partitions'' = [112, 97, 114, 116, 105, 116, 105, 111, 110, 115]"
  "str_lit ''services'' = [115, 101, 114, 118, 105, 99, 101, 115]"
  by (simp_all add: str_lit_def)

lemma cl_request_node_name_ok:
  assumes e: "info_fine e" "answer_size e \<noteq> 0" and t: "t \<noteq> 0" and b: "length b = NODE_NAME_SIZE"
  shows "\<exists>r. cl_request_node_name e sa b t = Some r \<and> (case r of Waiting \<Rightarrow> True
     | Returned (rv, nm, closed) \<Rightarrow> closed = opened e sa \<and> name_array nm)"
proof -
  obtain b1 where b1: "store b 0 [0] = Some b1" "name_array b1" using name_array_clear [OF b] by blast
  have n: "str_lit ''node'' \<noteq> []" "last (str_lit ''node'') = 10 \<or> length (str_lit ''node'') < 1024" by (simp_all add: node_lit)
  from citrusleaf_info_host_limit_ok [OF e(1) t n, of sa False 0] obtain r where r:
    "citrusleaf_info_host e sa (Some (str_lit ''node'')) t False = Some r" "info_ok e sa 0 r" by (auto simp: citrusleaf_info_host_def)
  show ?thesis
  proof (cases r)
    case Waiting
    then show ?thesis using b1 r(1) by (simp add: cl_request_node_name_def)
  next
    case (Returned x)
    obtain rv v closed where x: "x = (rv, v, closed)" by (cases x)
    show ?thesis
    proof (cases "rv = 0")
      case False
      then show ?thesis using b1 r Returned x by (simp add: cl_request_node_name_def info_ok_def)
    next
      case True
      then have v: "values_ok (answer_size e) v" "closed = opened e sa" using r(2) Returned x by (simp_all add: info_ok_def)
      obtain s where s: "values_str v = Some s" using values_str_ok [OF v(1) e(2)] by blast
      have st: "\<exists>b'. node_name_step x b = Some b' \<and> name_array b'" if "name_array b" for x b
        using name_array_strncpy [OF that, of "snd x"] that by (auto simp: node_name_step_def)
      from fold_opt_ok [of name_array b1 node_name_step, OF b1(2) st, of "name_values s"] obtain nm where
        "fold_opt node_name_step (name_values s) b1 = Some nm" "name_array nm" by auto
      then show ?thesis using b1(1) r(1) Returned x True s v(2) by (simp add: cl_request_node_name_def)
    qed
  qed
qed

lemma cl_request_n_partitions_ok:
  assumes e: "info_fine e" "answer_size e \<noteq> 0" and t: "t \<noteq> 0"
  shows "\<exists>r. cl_request_n_partitions e sa t = Some r \<and> (case r of Waiting \<Rightarrow> True | Returned (rv, n, closed) \<Rightarrow> closed = opened e sa)"
proof -
  have n: "str_lit ''partitions'' \<noteq> []" "last (str_lit ''partitions'') = 10 \<or> length (str_lit ''partitions'') < 1024" by (simp_all add: node_lit)
  from citrusleaf_info_host_limit_ok [OF e(1) t n, of sa False 0] obtain r where r:
    "citrusleaf_info_host e sa (Some (str_lit ''partitions'')) t False = Some r" "info_ok e sa 0 r" by (auto simp: citrusleaf_info_host_def)
  show ?thesis
  proof (cases r)
    case (Returned x)
    obtain rv v closed where x: "x = (rv, v, closed)" by (cases x)
    then have "rv = 0 \<Longrightarrow> \<exists>s. values_str v = Some s" "closed = opened e sa"
      using r(2) Returned values_str_ok [OF _ e(2), of v] by (auto simp: info_ok_def)
    then show ?thesis using r(1) Returned x by (cases "rv = 0") (auto simp: cl_request_n_partitions_def)
  qed (use r(1) in \<open>simp add: cl_request_n_partitions_def\<close>)
qed

subsection \<open>Properties\<close>

text \<open>C27: For every behaviour of the network and every answer of the server a timed info request with names and at most a
  kilobyte of them stays inside its buffers, closes the one descriptor that it opened, and either
  fails without values or returns a zero-terminated buffer of exactly the size that the server
  announced and at most the limit; a server that announces nothing gives a null pointer.\<close>

theorem info_request_spec:
  assumes "script_fine (ie_write e)" and "script_fine (ie_header e)" and "script_fine (ie_body e)" and "timeout_ms \<noteq> 0"
    and "names \<noteq> []" and "last names = 10 \<or> length names < 1024"
  shows "case citrusleaf_info_host_limit e sa (Some names) timeout_ms send_asis limit of
      None \<Rightarrow> False
    | Some Waiting \<Rightarrow> True
    | Some (Returned (rv, v, closed)) \<Rightarrow> closed = opened e sa \<and>
        (rv = - 1 \<and> v = None \<or>
         rv = 0 \<and> (0 < limit \<longrightarrow> answer_size e \<le> limit) \<and>
           (case v of None \<Rightarrow> answer_size e = 0 | Some b \<Rightarrow> answer_size e \<noteq> 0 \<and> length b = answer_size e + 1 \<and> last b = 0))"
proof -
  have "info_fine e" using assms(1-3) by (simp add: info_fine_def)
  from citrusleaf_info_host_limit_ok [OF this assms(4-6), of sa send_asis limit] obtain r where
    "citrusleaf_info_host_limit e sa (Some names) timeout_ms send_asis limit = Some r" "info_ok e sa limit r" by blast
  then show ?thesis by (cases r) (auto simp: info_ok_def values_ok_def split: option.splits)
qed

definition sample_script :: "'a list \<Rightarrow> 'a io_script" where
  "sample_script xs = \<lparr>s_prep = Prepared, s_start = 0, s_ticks = map (\<lambda>x. \<lparr>t_now = 0, t_epoll = Event True, t_io = Inl x\<rparr>) xs\<rparr>"

definition sample_info :: "nat \<Rightarrow> block \<Rightarrow> block \<Rightarrow> info_env" where
  "sample_info n header body = \<lparr>ie_socket = 33, ie_getfl = True, ie_setfl = True, ie_connect = (\<lambda>_. None), ie_write = sample_script [n],
     ie_header = sample_script [header], ie_body = sample_script [body], ie_fcntl = True, ie_restore = True, ie_malloc_req = True,
     ie_write_forever = [], ie_header_forever = [], ie_body_forever = [], ie_malloc = Some (\<lambda>_. 0)\<rparr>"

lemma sample_script_fine: "script_fine (sample_script xs)"
  by (simp add: script_fine_def sample_script_def errno_ok_def)

theorem info_request_spec_witness:
  "case citrusleaf_info_host_limit (sample_info 13 [2, 1, 0, 0, 0, 0, 0, 3] [97, 9, 10]) [] (Some [110, 111]) 100 False 500 of
      None \<Rightarrow> False
    | Some Waiting \<Rightarrow> True
    | Some (Returned (rv, v, closed)) \<Rightarrow> closed = opened (sample_info 13 [2, 1, 0, 0, 0, 0, 0, 3] [97, 9, 10]) [] \<and>
        (rv = - 1 \<and> v = None \<or>
         rv = 0 \<and> (0 < (500 :: nat) \<longrightarrow> answer_size (sample_info 13 [2, 1, 0, 0, 0, 0, 0, 3] [97, 9, 10]) \<le> 500) \<and>
           (case v of None \<Rightarrow> answer_size (sample_info 13 [2, 1, 0, 0, 0, 0, 0, 3] [97, 9, 10]) = 0
            | Some b \<Rightarrow> answer_size (sample_info 13 [2, 1, 0, 0, 0, 0, 0, 3] [97, 9, 10]) \<noteq> 0 \<and>
                length b = answer_size (sample_info 13 [2, 1, 0, 0, 0, 0, 0, 3] [97, 9, 10]) + 1 \<and> last b = 0))"
  by (rule info_request_spec) (simp_all add: sample_info_def sample_script_fine)

text \<open>A server that answers with an empty body crashes the client: the requests for the name of a node and the
  number of partitions read through the null pointer that stands for the missing values.\<close>

theorem empty_answer_faults:
  assumes "info_fine e" and "timeout_ms \<noteq> 0" and "answer_size e = 0" and "length node_name = NODE_NAME_SIZE"
    and "\<And>names. names \<noteq> [] \<Longrightarrow> length names < 1024 \<Longrightarrow> \<exists>v closed.
      citrusleaf_info_host e sa (Some names) timeout_ms False = Some (Returned (0, v, closed))"
  shows "cl_request_node_name e sa node_name timeout_ms = None \<and> cl_request_n_partitions e sa timeout_ms = None"
proof -
  have c: "\<exists>closed. citrusleaf_info_host e sa (Some names) timeout_ms False = Some (Returned (0, None, closed))"
    if n: "names \<noteq> []" "length names < 1024" for names
  proof -
    from assms(5) [OF n] obtain v closed where v: "citrusleaf_info_host e sa (Some names) timeout_ms False = Some (Returned (0, v, closed))" by blast
    from n(2) have "last names = 10 \<or> length names < 1024" by simp
    from citrusleaf_info_host_limit_ok [OF assms(1,2) n(1) this, of sa False 0] v have "info_ok e sa 0 (Returned (0, v, closed))"
      by (auto simp: citrusleaf_info_host_def)
    then have "v = None" using assms(3) by (auto simp: info_ok_def values_ok_def split: option.splits)
    then show ?thesis using v by blast
  qed
  show ?thesis using c [of "str_lit ''node''"] c [of "str_lit ''partitions''"] name_array_clear [OF assms(4)]
    by (auto simp: cl_request_node_name_def cl_request_n_partitions_def values_str_def node_lit)
qed

lemma sample_empty:
  assumes "names \<noteq> []" and "length names < 1024"
  shows "\<exists>v closed. citrusleaf_info_host (sample_info 2000 [2, 1, 0, 0, 0, 0, 0, 0] []) sa (Some names) 100 False = Some (Returned (0, v, closed))"
proof -
  let ?E = "sample_info 2000 [2, 1, 0, 0, 0, 0, 0, 0] []"
  have n: "\<exists>sent. info_names False (Some names) = Some (Inr sent) \<and> length sent \<le> 1024"
    using assms by (auto simp: info_names_def Let_def)
  then obtain sent where s: "info_names False (Some names) = Some (Inr sent)" "length sent \<le> 1024" by blast
  have w: "info_write ?E 100 (8 + length sent) = Returned 0"
    using s(2) by (simp add: info_write_def sample_info_def cf_socket_write_timeout_def sample_script_def attempt_deadline_def)
  have r: "info_response ?E buf 100 0 33 = Some (Returned (0, None, [33]))" if "8 \<le> length buf" for buf
  proof -
    have "store buf 0 [2, 1, 0, 0, 0, 0, 0, 0] = Some ([2, 1, 0, 0, 0, 0, 0, 0] @ drop 8 buf)" using that by (simp add: store_def eval_nat_numeral)
    then show ?thesis
      by (simp add: info_response_def info_read_def sample_info_def cf_socket_read_timeout_def sample_script_def attempt_deadline_def
        cl_proto_swap_def load_def store_def proto_sz_def)
  qed
  have p: "ie_socket ?E = 33" "ie_getfl ?E" "ie_setfl ?E" "ie_connect ?E = (\<lambda>_. None)" "ie_malloc_req ?E"
    by (simp_all add: sample_info_def)
  show ?thesis using s w r
    by (simp add: citrusleaf_info_host_def citrusleaf_info_host_limit_def info_request_ok p
      cf_socket_create_and_connect_nb_def cf_socket_create_nb_def cf_socket_start_connect_nb_def)
qed

theorem empty_answer_faults_witness:
  "cl_request_node_name (sample_info 2000 [2, 1, 0, 0, 0, 0, 0, 0] []) [] (replicate NODE_NAME_SIZE 0) 100 = None \<and>
    cl_request_n_partitions (sample_info 2000 [2, 1, 0, 0, 0, 0, 0, 0] []) [] 100 = None"
  by (rule empty_answer_faults [OF _ _ _ _ sample_empty])
    (simp_all add: info_fine_def sample_info_def sample_script_fine, simp_all add: answer_size_def announced_def sample_script_def)

end
