(* ===== verification/Cl_Tend.thy ===== *)
theory Cl_Tend
  imports Cl_Info
begin

section \<open>Tending a cluster (\<open>src/cl_cluster.c\<close>)\<close>

text \<open>
  A background thread calls \<open>cluster_tend\<close> for every cluster about once a second: it resolves the
  hosts, asks new addresses for the names of their nodes, pings the known nodes, fetches the
  partitions of those whose generation has changed, drops the nodes that are out of the
  partition tables, and explores the addresses that the nodes report.

  The environment is consumed call by call: one resolver for each lookup, one connection for each
  request to an address, one for each request to a node. The allocator gives pointers or fails.
  Other threads run between the steps; here the tender is alone. Shared memory is off.
\<close>

record conn_try =
  ct_socket :: int
  ct_getfl :: bool
  ct_setfl :: bool
  ct_connect :: "int option"

record ping_env =
  pe_conns :: "nat \<Rightarrow> conn_try"
  pe_write :: "nat io_script"
  pe_header :: "block io_script"
  pe_body :: "block io_script"
  pe_malloc :: malloc_env

record net =
  n_resolve :: "(block \<Rightarrow> host_answer list) list"
  n_infos :: "info_env list"
  n_pings :: "ping_env list"
  n_alloc :: "mem \<Rightarrow> node_ptr option"
  n_stack :: "nat \<Rightarrow> u8"

subsection \<open>Requests to a node\<close>

text \<open>The next address to which a connection can be started: the descriptor, and those closed on the way.\<close>

fun prep_loop :: "(nat \<Rightarrow> conn_try) \<Rightarrow> nat \<Rightarrow> sockaddr list \<Rightarrow> int \<times> int list" where
  "prep_loop cs i [] = (- 1, [])"
| "prep_loop cs i (sa # sas) =
     (let (fd, closed) = cf_socket_create_and_connect_nb (ct_socket (cs i)) (ct_getfl (cs i)) (ct_setfl (cs i)) (\<lambda>_. ct_connect (cs i)) in
      if fd \<noteq> - 1 then (fd, closed)
      else let (fd, closed') = prep_loop cs (Suc i) sas in (fd, closed @ closed'))"

definition cl_cluster_node_prep_info_fd :: "ping_env \<Rightarrow> cl_cluster_node \<Rightarrow> bool \<times> cl_cluster_node \<times> int list" where
  "cl_cluster_node_prep_info_fd e cn =
     (if cn_info_fd cn \<noteq> - 1 then (True, cn, [])
      else if cn_sockaddr_in_v cn = [] then (False, cn, [])
      else let (fd, closed) = prep_loop (pe_conns e) 0 (cn_sockaddr_in_v cn) in
        (fd \<noteq> - 1, cn\<lparr>cn_info_fd := fd\<rparr>, closed))"

definition cl_cluster_node_close_info_fd :: "cl_cluster_node \<Rightarrow> cl_cluster_node \<times> int list" where
  "cl_cluster_node_close_info_fd cn = (cn\<lparr>cn_info_fd := - 1\<rparr>, [cn_info_fd cn])"

definition INFO_STACK_BUF_SIZE :: nat where "INFO_STACK_BUF_SIZE = 16 * 1024"

text \<open>
  \<open>cl_cluster_node_get_info\<close>: the response or a null pointer, the node, the descriptors that were
  closed, and the stack buffer. The zero behind the response goes to \<open>rbuf_size\<close>.
\<close>

type_synonym get_info_result = "block option \<times> cl_cluster_node \<times> int list \<times> block"

definition get_info_fail :: "cl_cluster_node \<Rightarrow> int list \<Rightarrow> block \<Rightarrow> get_info_result outcome option" where
  "get_info_fail cn closed stack_buf =
     (let (cn, closed') = cl_cluster_node_close_info_fd cn in Some (Returned (None, cn, closed @ closed', stack_buf)))"

definition get_info_body :: "ping_env \<Rightarrow> cl_cluster_node \<Rightarrow> int list \<Rightarrow> int \<Rightarrow> nat \<Rightarrow> block \<Rightarrow> get_info_result outcome option" where
  "get_info_body e cn closed timeout_ms sz stack_buf =
     (let rbuf_size = sz + 1; on_heap = (rbuf_size > INFO_STACK_BUF_SIZE) in
      case (if on_heap then malloc (pe_malloc e) rbuf_size else Some stack_buf) of
        None \<Rightarrow> get_info_fail cn closed stack_buf
      | Some rbuf \<Rightarrow>
          bind_io (cf_socket_read_timeout (pe_body e) (Some rbuf) sz 0 timeout_ms) (\<lambda>(rv, b). do {
            rbuf \<leftarrow> b;
            if rv \<noteq> 0 then get_info_fail cn closed (if on_heap then stack_buf else rbuf)
            else do {
              rbuf \<leftarrow> store rbuf rbuf_size [0];
              Some (Returned (Some rbuf, cn, closed, if on_heap then stack_buf else rbuf)) } }))"

definition cl_cluster_node_get_info ::
  "ping_env \<Rightarrow> cl_cluster_node \<Rightarrow> block \<Rightarrow> int \<Rightarrow> block \<Rightarrow> get_info_result outcome option" where
  "cl_cluster_node_get_info e cn names timeout_ms stack_buf =
     (let (ok, cn, closed) = cl_cluster_node_prep_info_fd e cn in
      if \<not> ok then Some (Returned (None, cn, closed, stack_buf))
      else do {
        stack_buf \<leftarrow> store stack_buf 0 ([CL_PROTO_VERSION, CL_PROTO_TYPE_INFO] @ word_le 6 (of_nat (length names) :: u64));
        stack_buf \<leftarrow> cl_proto_swap stack_buf 0;
        stack_buf \<leftarrow> store stack_buf 8 names;
        case cf_socket_write_timeout (pe_write e) (8 + length names) 0 timeout_ms of Waiting \<Rightarrow> Some Waiting
        | Returned (rv, _) \<Rightarrow>
            if rv \<noteq> 0 then get_info_fail cn closed stack_buf
            else bind_io (cf_socket_read_timeout (pe_header e) (Some stack_buf) 8 0 timeout_ms) (\<lambda>(rv, b). do {
              stack_buf \<leftarrow> b;
              if rv \<noteq> 0 then get_info_fail cn closed stack_buf
              else do {
                stack_buf \<leftarrow> cl_proto_swap stack_buf 0;
                sz \<leftarrow> proto_sz stack_buf;
                if sz = 0 \<or> sz > 512 * 1024 then get_info_fail cn closed stack_buf
                else get_info_body e cn closed timeout_ms sz stack_buf } }) })"

subsection \<open>Reading the reports\<close>

text \<open>The addresses of \<open>host:port;host:port\<close>, each looked up; one resolver for each lookup.\<close>

definition next_lookup :: "net \<Rightarrow> cl_cluster \<Rightarrow> block \<Rightarrow> int \<Rightarrow> sockaddr list \<Rightarrow> (sockaddr list \<times> net) outcome option" where
  "next_lookup w asc host port v =
     (case n_resolve w of [] \<Rightarrow> Some Waiting
      | resolve # rs \<Rightarrow>
          (case cl_lookup resolve (Some (cs_host_addr_map_v asc)) host port (Some v) of
             Waiting \<Rightarrow> Some Waiting
           | Returned (_, v') \<Rightarrow> do { v' \<leftarrow> v'; Some (Returned (v', w\<lparr>n_resolve := rs\<rparr>)) }))"

fun services_loop :: "net \<Rightarrow> cl_cluster \<Rightarrow> block list \<Rightarrow> sockaddr list \<Rightarrow> (sockaddr list \<times> net) outcome option" where
  "services_loop w asc [] v = Some (Returned (v, w))"
| "services_loop w asc (host_str # hs) v =
     (let host_port = str_split 58 [] host_str in
      if length host_port = 2 then
        bind_io (next_lookup w asc (host_port ! 0) (atoi (host_port ! 1)) v) (\<lambda>(v, w). services_loop w asc hs v)
      else services_loop w asc hs v)"

definition cluster_services_parse :: "net \<Rightarrow> cl_cluster \<Rightarrow> block \<Rightarrow> sockaddr list \<Rightarrow> (sockaddr list \<times> net) outcome option" where
  "cluster_services_parse w asc services v = services_loop w asc (str_split 59 [] services) v"

fun check_lines :: "net \<Rightarrow> cl_cluster \<Rightarrow> cl_cluster_node \<Rightarrow> block list \<Rightarrow> bool \<Rightarrow> sockaddr list \<Rightarrow>
    (bool \<times> sockaddr list \<times> net) outcome option" where
  "check_lines w asc cn [] upd v = Some (Returned (upd, v, w))"
| "check_lines w asc cn (line # ls) upd v =
     (let pair = str_split 9 [] line in
      if length pair \<noteq> 2 then check_lines w asc cn ls upd v
      else let name = pair ! 0; val = pair ! 1 in
        if name = str_lit ''node'' then
          (if val \<noteq> cn_name cn then Some (Returned (False, v, w)) else check_lines w asc cn ls upd v)
        else if name = str_lit ''partition-generation'' then
          check_lines w asc cn ls (upd \<or> cn_partition_generation cn \<noteq> word_of_int (atoi val)) v
        else if name = str_lit ''services'' then
          bind_io (cluster_services_parse w asc val v) (\<lambda>(v, w). check_lines w asc cn ls upd v)
        else check_lines w asc cn ls upd v)"

definition cl_cluster_node_parse_check :: "net \<Rightarrow> cl_cluster \<Rightarrow> cl_cluster_node \<Rightarrow> block \<Rightarrow> sockaddr list \<Rightarrow>
    (bool \<times> sockaddr list \<times> net) outcome option" where
  "cl_cluster_node_parse_check w asc cn rbuf v = check_lines w asc cn (str_split 10 [] rbuf) False v"

subsection \<open>Pings\<close>

definition INFO_STR_CHECK :: block where
  "INFO_STR_CHECK = str_lit ''node'' @ [10] @ str_lit ''partition-generation'' @ [10] @ str_lit ''services'' @ [10]"

definition INFO_STR_GET_REPLICAS :: block where
  "INFO_STR_GET_REPLICAS = str_lit ''partition-generation'' @ [10] @ str_lit ''replicas-master'' @ [10] @ str_lit ''replicas-prole'' @ [10]"

text \<open>One request to a node in the memory: the text of the response, if there is one.\<close>

type_synonym tend_state = "mem \<times> cl_cluster \<times> net"

definition node_request :: "tend_state \<Rightarrow> node_ptr \<Rightarrow> block \<Rightarrow> block \<Rightarrow> (block option \<times> block \<times> tend_state) outcome option" where
  "node_request st p names stack_buf = (let (m, asc, w) = st in
     case n_pings w of [] \<Rightarrow> Some Waiting
     | e # es \<Rightarrow> do {
         cn \<leftarrow> m_nodes m p;
         bind_io (cl_cluster_node_get_info e cn names (cs_info_timeout asc) stack_buf) (\<lambda>(rbuf, cn, closed, stack_buf).
           let st = (close_all (put_node m p cn) closed, asc, w\<lparr>n_pings := es\<rparr>) in
           case rbuf of None \<Rightarrow> Some (Returned (None, stack_buf, st))
           | Some b \<Rightarrow> do { s \<leftarrow> c_str b; Some (Returned (Some s, stack_buf, st)) }) })"

definition set_unreachable :: "mem \<Rightarrow> node_ptr \<Rightarrow> (u32 \<Rightarrow> u32) \<Rightarrow> mem option" where
  "set_unreachable m p f = do {
     cn \<leftarrow> m_nodes m p; Some (put_node m p (cn\<lparr>cn_intervals_unreachable := f (cn_intervals_unreachable cn)\<rparr>)) }"

definition fetch_replicas :: "tend_state \<Rightarrow> node_ptr \<Rightarrow> block \<Rightarrow> tend_state outcome option" where
  "fetch_replicas st p stack_buf =
     bind_io (node_request st p INFO_STR_GET_REPLICAS stack_buf) (\<lambda>(rbuf, stack_buf, m, asc, w).
       case rbuf of None \<Rightarrow> Some (Returned (m, asc, w))
       | Some s \<Rightarrow> do {
           (m, ts) \<leftarrow> cl_cluster_node_parse_replicas (n_stack w) True (unat (cs_n_partitions asc)) m (cs_partition_table_head asc) p s;
           Some (Returned (m, asc\<lparr>cs_partition_table_head := ts\<rparr>, w)) })"

definition cluster_ping_node :: "tend_state \<Rightarrow> node_ptr \<Rightarrow> sockaddr list \<Rightarrow> (sockaddr list \<times> tend_state) outcome option" where
  "cluster_ping_node st p v =
     bind_io (node_request st p INFO_STR_CHECK (map (n_stack (snd (snd st))) [0..<INFO_STACK_BUF_SIZE])) (\<lambda>(rbuf, stack_buf, m, asc, w).
       case rbuf of None \<Rightarrow> do { m \<leftarrow> set_unreachable m p (\<lambda>n. n + 1); Some (Returned (v, m, asc, w)) }
       | Some s \<Rightarrow> do {
           m \<leftarrow> set_unreachable m p (\<lambda>n. 0);
           cn \<leftarrow> m_nodes m p;
           bind_io (cl_cluster_node_parse_check w asc cn s v) (\<lambda>(upd, v, w).
             if \<not> upd then Some (Returned (v, m, asc, w))
             else bind_io (fetch_replicas (m, asc, w) p stack_buf) (\<lambda>st. Some (Returned (v, st)))) })"

definition cluster_ping_address :: "tend_state \<Rightarrow> sockaddr \<Rightarrow> tend_state outcome option" where
  "cluster_ping_address st sa_in = (let (m, asc, w) = st in
     case n_infos w of [] \<Rightarrow> Some Waiting
     | e # es \<Rightarrow>
         bind_io (cl_get_node_name e sa_in (map (n_stack w) [0..<NODE_NAME_SIZE]) (cs_info_timeout asc)) (\<lambda>(rv, node_name, closed).
           let m = close_all m closed; w = w\<lparr>n_infos := es\<rparr> in
           if rv \<noteq> 0 then Some (Returned (m, asc, w))
           else do {
             name \<leftarrow> c_str node_name;
             cn \<leftarrow> cl_cluster_node_get_byname m (cs_node_v asc) name;
             case cn of
               None \<Rightarrow>
                 (case n_alloc w m of None \<Rightarrow> Some (Returned (m, asc, w))
                  | Some p \<Rightarrow> do {
                      m \<leftarrow> cl_cluster_node_create (n_stack w) m p name sa_in;
                      Some (Returned (m, asc\<lparr>cs_node_v := cs_node_v asc @ [p]\<rparr>, w)) })
             | Some p \<Rightarrow> do {
                 n \<leftarrow> m_nodes m p;
                 Some (Returned (put_node m p (n\<lparr>cn_sockaddr_in_v := append_unique sa_in (cn_sockaddr_in_v n)\<rparr>), asc, w)) } }))"

fun n_partitions_loop :: "tend_state \<Rightarrow> sockaddr list \<Rightarrow> tend_state outcome option" where
  "n_partitions_loop st [] = Some (Returned st)"
| "n_partitions_loop (m, asc, w) (sa # sas) =
     (case n_infos w of [] \<Rightarrow> Some Waiting
      | e # es \<Rightarrow>
          bind_io (cl_get_n_partitions e sa (cs_info_timeout asc)) (\<lambda>(rv, n, closed).
            let m = close_all m closed; w = w\<lparr>n_infos := es\<rparr> in
            if rv \<noteq> 0 then n_partitions_loop (m, asc, w) sas
            else Some (Returned (m, asc\<lparr>cs_n_partitions := word_of_int n\<rparr>, w))))"

definition cluster_get_n_partitions :: "tend_state \<Rightarrow> sockaddr list \<Rightarrow> tend_state outcome option" where
  "cluster_get_n_partitions st v = (if cs_n_partitions (fst (snd st)) \<noteq> 0 then Some (Returned st) else n_partitions_loop st v)"

subsection \<open>The whole tend\<close>

definition CLS_TENDER_RUNNING :: u32 where "CLS_TENDER_RUNNING = 1"
definition CLS_FREED :: u32 where "CLS_FREED = 2"
definition MAX_INTERVALS_ABSENT :: u32 where "MAX_INTERVALS_ABSENT = 1"

fun hosts_loop :: "net \<Rightarrow> cl_cluster \<Rightarrow> block list \<Rightarrow> int list \<Rightarrow> sockaddr list \<Rightarrow> (sockaddr list \<times> net) outcome option" where
  "hosts_loop w asc [] ports v = Some (Returned (v, w))"
| "hosts_loop w asc (h # hs) [] v = None"
| "hosts_loop w asc (h # hs) (p # ports) v =
     bind_io (next_lookup w asc h p v) (\<lambda>(v, w). hosts_loop w asc hs ports v)"

text \<open>Asking the addresses that no node has; the result counts them.\<close>

fun explore :: "tend_state \<Rightarrow> sockaddr list \<Rightarrow> nat \<Rightarrow> (nat \<times> tend_state) outcome option" where
  "explore st [] n_new = Some (Returned (n_new, st))"
| "explore (m, asc, w) (sa # sas) n_new = do {
     r \<leftarrow> cl_cluster_node_get_byaddr m (cs_node_v asc) sa;
     if r = None then bind_io (cluster_ping_address (m, asc, w) sa) (\<lambda>st. explore st sas (n_new + 1))
     else explore (m, asc, w) sas n_new }"

text \<open>
  The loop over the nodes: \<open>i\<close> is the index, and the nodes that follow are read from the list as it
  was, which the loop itself changes only behind them.
\<close>

definition is_absent :: "mem \<Rightarrow> cl_cluster \<Rightarrow> node_ptr \<Rightarrow> (bool \<times> mem \<times> cl_cluster) option" where
  "is_absent m asc p = do {
     cn \<leftarrow> m_nodes m p;
     (present, m, ts) \<leftarrow> (if cn_intervals_absent cn = 0 then Some (True, m, cs_partition_table_head asc)
        else cl_partition_table_is_node_present m (cs_partition_table_head asc) p);
     cn \<leftarrow> m_nodes m p;
     let asc = asc\<lparr>cs_partition_table_head := ts\<rparr>;
     if present then Some (False, put_node m p (cn\<lparr>cn_intervals_absent := 1\<rparr>), asc)
     else Some (cn_intervals_absent cn > MAX_INTERVALS_ABSENT,
            put_node m p (cn\<lparr>cn_intervals_absent := cn_intervals_absent cn + 1\<rparr>), asc) }"

fun ping_nodes :: "tend_state \<Rightarrow> nat \<Rightarrow> node_ptr list \<Rightarrow> sockaddr list \<Rightarrow> (sockaddr list \<times> tend_state) outcome option" where
  "ping_nodes st i [] v = Some (Returned (v, st))"
| "ping_nodes (m, asc, w) i (p # ps) v = do {
     (absent, m, asc) \<leftarrow> is_absent m asc p;
     if absent then do {
       let asc = asc\<lparr>cs_node_v := take i (cs_node_v asc) @ drop (i + 1) (cs_node_v asc)\<rparr>;
       m \<leftarrow> cl_cluster_node_release m p;
       ping_nodes (m, asc, w) i ps v }
     else
       bind_io (cluster_ping_node (m, asc, w) p v) (\<lambda>(v, m, asc, w). do {
         cn \<leftarrow> m_nodes m p;
         ping_nodes (m, asc, w) (i + 1) ps (fold append_unique (cn_sockaddr_in_v cn) v) }) }"

definition cluster_tend :: "tend_state \<Rightarrow> tend_state outcome option" where
  "cluster_tend st = (let (m, asc, w) = st in
     if cs_state asc AND CLS_FREED \<noteq> 0 \<or> cs_state asc AND CLS_TENDER_RUNNING \<noteq> 0 then Some (Returned (m, asc, w))
     else let asc = asc\<lparr>cs_state := cs_state asc OR CLS_TENDER_RUNNING\<rparr> in
       bind_io (hosts_loop w asc (cs_host_str_v asc) (cs_host_port_v asc) []) (\<lambda>(v, w).
       bind_io (explore (m, asc, w) v 0) (\<lambda>(_, st).
       bind_io (cluster_get_n_partitions st v) (\<lambda>(m, asc, w).
       bind_io (ping_nodes (m, asc, w) 0 (cs_node_v asc) []) (\<lambda>(v, m, asc, w).
       bind_io (if cs_follow asc
                then bind_io (explore (m, asc, w) v 0) (\<lambda>(n_new, m, asc, w).
                       Some (Returned (m, if n_new = 0 then asc\<lparr>cs_found_all := True\<rparr> else asc, w)))
                else Some (Returned (m, asc, w))) (\<lambda>(m, asc, w).
         Some (Returned (m, asc\<lparr>cs_state := cs_state asc AND NOT CLS_TENDER_RUNNING\<rparr>, w))))))))"

subsection \<open>Any report is parsed\<close>

text \<open>The decoder and the bitmaps on text of the expected length.\<close>

lemma b64_decode_total:
  assumes "4 dvd len - i" and "i \<le> len" and "len \<le> length inp" and "j + (len - i) div 4 * 3 \<le> length out"
  shows "\<exists>out'. b64_decode inp len i j out = Some out' \<and> length out' = length out"
  using assms
proof (induction inp len i j out rule: b64_decode.induct)
  case (1 inp len i j out)
  show ?case
  proof (cases "i < len")
    case True
    then have l: "i + 4 \<le> len" "4 dvd len - (i + 4)" using 1(2,3) by (auto elim!: dvdE) presburger+
    then have d: "(len - i) div 4 = Suc ((len - (i + 4)) div 4)" by (metis add_diff_inverse_nat diff_diff_left div_add_self1 le_diff_conv2 linorder_not_less numeral_eq_iff plus_1_eq_Suc add.commute order_less_imp_le zero_neq_numeral True)
    let ?x = "take 4 (drop i inp)"
    let ?y = "[push_bit 2 (B64DA (?x ! 0)) OR drop_bit 4 (B64DA (?x ! 1)), push_bit 4 (B64DA (?x ! 1)) OR drop_bit 2 (B64DA (?x ! 2)),
      push_bit 6 (B64DA (?x ! 2)) OR B64DA (?x ! 3)]"
    have x: "load inp i 4 = Some ?x" using l(1) 1(4) by (simp add: load_def)
    have j: "j + 3 \<le> length out" using 1(5) d by simp
    then obtain out1 where o: "store out j ?y = Some out1" "length out1 = length out" by (simp add: store_def)
    have "j + 3 + (len - (i + 4)) div 4 * 3 \<le> length out1" using 1(5) d o(2) by simp
    from 1(1) [OF True x o(1) l(2,1) 1(4) this] o(2) show ?thesis
      using True x o(1) by (subst (1) b64_decode.simps) simp
  qed (simp add: b64_decode.simps)
qed

lemma expand_bitmap_total:
  assumes "i + n \<le> 8 * length bitmap" and "i + n \<le> length owns"
  shows "\<exists>owns'. expand_bitmap bitmap i n owns = Some owns' \<and> length owns' = length owns"
  using assms
proof (induction n arbitrary: i owns)
  case (Suc n)
  have "i div 8 < length bitmap" using Suc.prems(1) by (simp add: less_mult_imp_div_less mult.commute)
  then show ?case using Suc.IH [of "Suc i" "owns[i := True]"] Suc.IH [of "Suc i" owns] Suc.prems by auto
qed simp

lemma expected_len_room: "n \<le> 8 * (expected_encoded_len n div 4 * 3)" "4 dvd expected_encoded_len n" "n \<le> 6 * expected_encoded_len n"
  by (simp_all add: expected_encoded_len_def)

definition maps_ok :: "nat \<Rightarrow> ns_partition_map list \<Rightarrow> bool" where
  "maps_ok n maps \<longleftrightarrow> (\<forall>x \<in> set maps. length (pmap_owns x) = n \<and> length (pmap_ns x) < 32) \<and> distinct (map pmap_ns maps)"

lemma ns_partition_map_set_total:
  assumes "length (pmap_owns p) = n" and "length enc = expected_encoded_len n"
  shows "\<exists>p'. ns_partition_map_set g p enc (length enc) n = Some p' \<and> length (pmap_owns p') = n \<and> pmap_ns p' = pmap_ns p"
proof -
  note r = expected_len_room [of n]
  obtain out where o: "b64_decode enc (length enc) 0 0 (map g [0..<length enc div 4 * 3]) = Some out" "length out = length enc div 4 * 3"
    using b64_decode_total [of "length enc" 0 enc 0 "map g [0..<length enc div 4 * 3]"] assms(2) r(2) by auto
  have "0 + n \<le> 8 * length out" "0 + n \<le> length (pmap_owns p)" using o(2) r(1) assms by simp_all
  from expand_bitmap_total [OF this] obtain ow where "expand_bitmap out 0 n (pmap_owns p) = Some ow" "length ow = n" using assms(1) by auto
  then show ?thesis using o(1) by (simp add: ns_partition_map_set_def)
qed

lemma ns_partition_map_get_total:
  assumes "maps_ok n maps" and "length ns < 32"
  shows "\<exists>i maps'. ns_partition_map_get True maps ns n = Some (Some (i, maps')) \<and> maps_ok n maps' \<and> i < length maps' \<and> length maps' \<le> Suc (length maps)"
proof (cases "find_map maps ns")
  case None
  then have "ns \<notin> pmap_ns ` set maps" by (simp add: find_map_None)
  then show ?thesis using None assms by (auto simp: ns_partition_map_get_def maps_ok_def)
next
  case (Some i)
  then show ?thesis using assms find_map_Some [OF Some] by (auto simp: ns_partition_map_get_def)
qed

lemma maps_ok_update:
  assumes "maps_ok n maps" and "i < length maps" and "length (pmap_owns x) = n" and "pmap_ns x = pmap_ns (maps ! i)"
  shows "maps_ok n (maps[i := x])"
proof -
  have "map pmap_ns (maps[i := x]) = map pmap_ns maps" using assms(2,4) by (simp add: map_update list_update_same_conv)
  moreover have "length (pmap_ns x) < 32" using assms(1,2,4) by (simp add: maps_ok_def)
  ultimately show ?thesis using assms(1,3) by (auto simp: maps_ok_def dest!: set_update_subset_insert [THEN subsetD])
qed

lemma parse_replicas_map_total:
  assumes "maps_ok n maps"
  shows "\<exists>maps'. parse_replicas_map g True p n maps = Some maps' \<and> maps_ok n maps' \<and> n * length maps' \<le> n * length maps + 6 * length p"
  using assms
proof (induction p arbitrary: maps rule: length_induct)
  case (1 p)
  let ?rest = "dropWhile (\<lambda>c. c \<noteq> 58) p"
  let ?enc = "takeWhile (\<lambda>c. c \<noteq> 59) (tl ?rest)" and ?next = "drop 1 (dropWhile (\<lambda>c. c \<noteq> 59) (tl ?rest))"
  let ?ns = "trim (takeWhile (\<lambda>c. c \<noteq> 58) p)"
  show ?case
  proof (cases "p = [] \<or> ?rest = []")
    case True
    then show ?thesis using "1.prems" by (auto simp: parse_replicas_map.simps [of g True p])
  next
    case False
    have "length (takeWhile (\<lambda>c. c \<noteq> 59) (tl ?rest)) + length (dropWhile (\<lambda>c. c \<noteq> 59) (tl ?rest)) = length (tl ?rest)"
      by (metis length_append takeWhile_dropWhile_id)
    moreover have "length (tl ?rest) < length p" using False length_dropWhile_le [of "\<lambda>c. c \<noteq> 58" p] by (cases p) auto
    ultimately have l: "length ?enc + length ?next < length p" by simp
    then have ln: "length ?next < length p" by simp
    have skip: ?thesis if "parse_replicas_map g True p n maps = parse_replicas_map g True ?next n maps"
    proof -
      have "\<exists>maps'. parse_replicas_map g True ?next n maps = Some maps' \<and> maps_ok n maps' \<and> n * length maps' \<le> n * length maps + 6 * length ?next"
        using "1.IH" ln "1.prems" by blast
      then obtain maps' where m: "parse_replicas_map g True ?next n maps = Some maps'" "maps_ok n maps'"
        "n * length maps' \<le> n * length maps + 6 * length ?next" by blast
      have "n * length maps' \<le> n * length maps + 6 * length p" using m(3) ln by linarith
      then show ?thesis using that m(1,2) by auto
    qed
    show ?thesis
    proof (cases "length ?ns = 0 \<or> length ?ns > 31 \<or> expected_encoded_len n \<noteq> length ?enc")
      case True
      then show ?thesis using False by (intro skip) (auto simp: parse_replicas_map.simps [of g True p] Let_def)
    next
      case entry: False
      have "length ?ns < 32" using entry by simp
      then obtain i maps1 where g: "ns_partition_map_get True maps ?ns n = Some (Some (i, maps1))" "maps_ok n maps1" "i < length maps1"
        "length maps1 \<le> Suc (length maps)" using ns_partition_map_get_total [OF "1.prems"] by blast
      have "length (pmap_owns (maps1 ! i)) = n" using g(2,3) by (simp add: maps_ok_def)
      moreover have "length ?enc = expected_encoded_len n" using entry by simp
      ultimately obtain m where m: "ns_partition_map_set g (maps1 ! i) ?enc (length ?enc) n = Some m" "length (pmap_owns m) = n"
        "pmap_ns m = pmap_ns (maps1 ! i)" using ns_partition_map_set_total by blast
      have ok2: "maps_ok n (maps1[i := m])" using maps_ok_update [OF g(2,3) m(2,3)] .
      have "\<exists>maps'. parse_replicas_map g True ?next n (maps1[i := m]) = Some maps' \<and> maps_ok n maps' \<and>
          n * length maps' \<le> n * length (maps1[i := m]) + 6 * length ?next"
        using "1.IH" ln ok2 by blast
      then obtain maps' where r: "parse_replicas_map g True ?next n (maps1[i := m]) = Some maps'" "maps_ok n maps'"
        "n * length maps' \<le> n * length maps1 + 6 * length ?next" by auto
      have e: "parse_replicas_map g True p n maps = parse_replicas_map g True ?next n (maps1[i := m])"
        using False entry g(1) m(1) by (auto simp: parse_replicas_map.simps [of g True p] Let_def)
      have "n * length maps1 \<le> n * length maps + n" using g(4) by (metis mult_Suc_right mult_le_mono2 add.commute)
      moreover have "n \<le> 6 * length ?enc" using expected_len_room(3) [of n] entry by simp
      ultimately have "n * length maps' \<le> n * length maps + 6 * length p" using r(3) l by linarith
      then show ?thesis using e r(1,2) by auto
    qed
  qed
qed

lemma length_str_split: "length (concat (str_split c acc xs)) \<le> length acc + length xs"
  by (induction c acc xs rule: str_split.induct) auto

lemma str_split_piece: "x \<in> set (str_split c [] xs) \<Longrightarrow> length x \<le> length xs"
proof -
  assume "x \<in> set (str_split c [] xs)"
  then obtain as bs where "str_split c [] xs = as @ x # bs" by (meson split_list)
  then show ?thesis using length_str_split [of c "[]" xs] by simp
qed

lemma mem_ok_node_update:
  assumes "mem_ok m c" and "0 < c p"
  shows "\<exists>n. m_nodes m p = Some n \<and> (\<forall>n'. node_ok n' \<longrightarrow> cn_rc n' = cn_rc n \<longrightarrow> mem_ok (put_node m p n') c) \<and> node_ok n"
  using mem_okD [OF assms] mem_ok_update [OF assms(1)] by blast

lemma replicas_lines_total:
  assumes "mem_ok m c" and "0 < c cn" and "maps_ok n ma" and "maps_ok n pr"
  shows "\<exists>m' ma' pr'. replicas_lines g True n cn (m, ma, pr) ls = Some (m', ma', pr') \<and> mem_ok m' c \<and>
    maps_ok n ma' \<and> maps_ok n pr' \<and> n * length ma' \<le> n * length ma + 6 * length (concat ls)"
  using assms
proof (induction ls arbitrary: m ma pr)
  case (Cons line ls)
  let ?nv = "str_split 9 [] line"
  have go: ?case if s: "replicas_line g True n cn (m, ma, pr) line = Some (m1, ma1, pr1)" and ok: "mem_ok m1 c" "maps_ok n ma1" "maps_ok n pr1"
    and l: "n * length ma1 \<le> n * length ma + 6 * length line" for m1 ma1 pr1
  proof -
    from Cons.IH [OF ok(1) Cons.prems(2) ok(2,3)] obtain m' ma' pr' where
      "replicas_lines g True n cn (m1, ma1, pr1) ls = Some (m', ma', pr')" "mem_ok m' c" "maps_ok n ma'" "maps_ok n pr'"
      "n * length ma' \<le> n * length ma1 + 6 * length (concat ls)" by blast
    then show ?thesis using s l by (intro exI [of _ m'] exI [of _ ma'] exI [of _ pr']) simp
  qed
  show ?case
  proof (cases "length ?nv = 2")
    case False
    then show ?thesis using Cons.prems by (intro go [of m ma pr]) (simp_all add: replicas_line_def Let_def)
  next
    case two: True
    have v: "length (?nv ! 1) \<le> length line" using two by (intro str_split_piece [of _ 9]) simp
    consider "?nv ! 0 = str_lit ''partition-generation''" | "?nv ! 0 = str_lit ''replicas-master''" | "?nv ! 0 = str_lit ''replicas-prole''"
      | "?nv ! 0 \<noteq> str_lit ''partition-generation''" "?nv ! 0 \<noteq> str_lit ''replicas-master''" "?nv ! 0 \<noteq> str_lit ''replicas-prole''" by blast
    then show ?thesis
    proof cases
      case 1
      from mem_ok_node_update [OF Cons.prems(1,2)] obtain x where x: "m_nodes m cn = Some x" "node_ok x"
        "\<And>x'. node_ok x' \<Longrightarrow> cn_rc x' = cn_rc x \<Longrightarrow> mem_ok (put_node m cn x') c" by blast
      show ?thesis
        by (rule go [of "put_node m cn (x\<lparr>cn_partition_generation := word_of_int (atoi (?nv ! 1))\<rparr>)" ma pr])
          (use 1 two x Cons.prems in \<open>simp_all add: replicas_line_def node_ok_def\<close>)
    next
      case 2
      obtain ma1 where "parse_replicas_map g True (?nv ! 1) n ma = Some ma1" "maps_ok n ma1"
        "n * length ma1 \<le> n * length ma + 6 * length (?nv ! 1)" using parse_replicas_map_total [OF Cons.prems(3)] by blast
      then show ?thesis using 2 two v Cons.prems
        by (intro go [of m ma1 pr]) (simp_all add: replicas_line_def str_lit_tokens)
    next
      case 3
      obtain pr1 where "parse_replicas_map g True (?nv ! 1) n pr = Some pr1" "maps_ok n pr1"
        using parse_replicas_map_total [OF Cons.prems(4)] by blast
      then show ?thesis using 3 two Cons.prems
        by (intro go [of m ma pr1]) (simp_all add: replicas_line_def str_lit_tokens)
    next
      case 4
      then show ?thesis using two Cons.prems by (intro go [of m ma pr]) (simp_all add: replicas_line_def Let_def)
    qed
  qed
qed simp

lemma replicas_update_length:
  "replicas_update True n cn m ts ms pr = Some (m', ts') \<Longrightarrow> length ts' \<le> length ts + length ms"
proof (induction ms arbitrary: m ts pr)
  case (Cons x ms)
  obtain i pr1 where g: "ns_partition_map_get True pr (pmap_ns x) n = Some (Some (i, pr1))"
    using Cons.prems by (auto simp: bind_eq_Some_conv)
  with Cons.prems obtain m1 ts1 where u: "cl_partition_table_update True n m ts cn (pmap_ns x) (pmap_owns x) (pmap_owns (pr1 ! i)) = Some (m1, ts1)"
    "replicas_update True n cn m1 ts1 ms pr1 = Some (m', ts')" by (auto simp: bind_eq_Some_conv)
  show ?case using Cons.IH [OF u(2)] table_update_frame(2) [OF u(1)] by simp
qed simp

lemma parse_replicas_total:
  assumes "mem_ok m (\<lambda>q. held (table_ptrs ts) q + r q)" and "tables_wf n ts" and "0 < r node"
    and "r node + 2 * n * length ts + 12 * length s + 2 * n + 2 < 2 ^ 32"
  shows "\<exists>m' ts'. cl_cluster_node_parse_replicas g True n m ts node s = Some (m', ts') \<and>
    mem_ok m' (\<lambda>q. held (table_ptrs ts') q + r q) \<and> tables_wf n ts' \<and> 2 * n * length ts' \<le> 2 * n * length ts + 12 * length s"
proof -
  have e: "maps_ok n []" by (simp add: maps_ok_def)
  have "0 < held (table_ptrs ts) node + r node" using assms(3) by simp
  from replicas_lines_total [OF assms(1) this e e, of g "str_split 10 [] s"] obtain m1 ma pr where l:
    "replicas_lines g True n node (m, [], []) (str_split 10 [] s) = Some (m1, ma, pr)" "mem_ok m1 (\<lambda>q. held (table_ptrs ts) q + r q)"
    "maps_ok n ma" "maps_ok n pr" "n * length ma \<le> 6 * length (concat (str_split 10 [] s))" by auto
  have b: "n * length ma \<le> 6 * length s" using l(5) length_str_split [of 10 "[]" s] by simp
  let ?ma = "map (\<lambda>x. (pmap_ns x, pmap_owns x)) ma"
  have ma: "map pmap_of ?ma = ma" by (induction ma) (simp_all add: pmap_of_def)
  have len: "\<forall>x \<in> set ?ma. length (snd x) = n" "distinct (map fst ?ma)" "\<forall>x \<in> set ?ma. length (fst x) < 32" using l(3) by (simp_all add: maps_ok_def comp_def)
  have pl: "length (pm_lookup n pr ns) = n" for ns
    using l(4) by (auto simp: pm_lookup_def maps_ok_def dest: find_map_Some split: option.splits)
  have bound: "r node + 2 * n * (length ts + length ?ma) + 2 * n + 2 < 2 ^ 32"
    using assms(4) b by (simp add: algebra_simps)
  from replicas_update_ok [OF l(2) assms(2,3) bound len(1) pl len(2,3)] obtain m' ts' where u:
    "replicas_update True n node m1 ts ma pr = Some (m', ts')" "mem_ok m' (\<lambda>q. held (table_ptrs ts') q + r q)" "tables_wf n ts'"
    unfolding ma by blast
  have "length ts' \<le> length ts + length ma" using replicas_update_length [OF u(1)] .
  then have "2 * n * length ts' \<le> 2 * n * (length ts + length ma)" by (rule mult_le_mono2)
  then have "2 * n * length ts' \<le> 2 * n * length ts + 12 * length s" using b by (simp add: algebra_simps)
  then show ?thesis using l(1) u by (simp add: cl_cluster_node_parse_replicas_def)
qed

subsection \<open>A request to a node\<close>

text \<open>
  The servers with which requests are in order: the scripts are, and a response is not of a size
  from which on the zero behind it falls out of the buffer (\<open>info_zero_misplaced\<close>).
\<close>

definition ping_fine :: "ping_env \<Rightarrow> bool" where
  "ping_fine e \<longleftrightarrow> script_fine (pe_write e) \<and> script_fine (pe_header e) \<and> script_fine (pe_body e) \<and>
     (announced (delivered (s_ticks (pe_header e))) + 1 < INFO_STACK_BUF_SIZE \<or> 512 * 1024 < announced (delivered (s_ticks (pe_header e))))"

lemma read_timeout_ok:
  assumes "script_fine s" and "t \<noteq> 0" and "0 < n" and "n \<le> length b"
  shows "\<exists>r. cf_socket_read_timeout s (Some b) n 0 t = Some r \<and> (case r of Waiting \<Rightarrow> True
     | Returned (rv, b') \<Rightarrow> \<exists>b1. b' = Some b1 \<and> length b1 = length b \<and> (rv = 0 \<longrightarrow> n \<le> length (delivered (s_ticks s)) \<and> take n b1 = take n (delivered (s_ticks s))))"
proof -
  from info_read_ok [OF assms, of True "[]"] assms(2) obtain r where r: "cf_socket_read_timeout s (Some b) n 0 t = Some r"
    "case r of Waiting \<Rightarrow> True | Returned (rv, b') \<Rightarrow> \<exists>d. b' = Some (d @ drop (length d) b) \<and> length d \<le> n \<and>
      (rv = 0 \<longrightarrow> length d = n \<and> d = take n (delivered (s_ticks s)))" by (auto simp: info_read_def)
  show ?thesis
  proof (cases r)
    case (Returned x)
    obtain rv b' where x: "x = (rv, b')" by (cases x)
    from r(2) Returned x obtain d where d: "b' = Some (d @ drop (length d) b)" "length d \<le> n"
      "rv = 0 \<longrightarrow> length d = n \<and> d = take n (delivered (s_ticks s))" by auto
    have "length (d @ drop (length d) b) = length b" using d(2) assms(4) by simp
    moreover have "rv = 0 \<longrightarrow> n \<le> length (delivered (s_ticks s)) \<and> take n (d @ drop (length d) b) = take n (delivered (s_ticks s))"
    proof
      assume "rv = 0"
      then have e: "length d = n" "d = take n (delivered (s_ticks s))" using d(3) by blast+
      have "length (take n (delivered (s_ticks s))) = n" unfolding e(2) [symmetric] by (rule e(1))
      then have "n \<le> length (delivered (s_ticks s))" by simp
      then show "n \<le> length (delivered (s_ticks s)) \<and> take n (d @ drop (length d) b) = take n (delivered (s_ticks s))"
        using e by simp
    qed
    ultimately show ?thesis using r(1) Returned x d(1) by auto
  qed (use r(1) in simp)
qed

definition got_info :: "cl_cluster_node \<Rightarrow> get_info_result outcome \<Rightarrow> bool" where
  "got_info cn r \<longleftrightarrow> (case r of Waiting \<Rightarrow> True
     | Returned (rbuf, cn', closed, stack) \<Rightarrow> length stack = INFO_STACK_BUF_SIZE \<and> (\<exists>fd. cn' = cn\<lparr>cn_info_fd := fd\<rparr>) \<and>
         (\<forall>b. rbuf = Some b \<longrightarrow> length b = INFO_STACK_BUF_SIZE \<and> 0 \<in> set b))"

lemma get_info_fail_ok:
  "length stack = INFO_STACK_BUF_SIZE \<Longrightarrow> \<exists>r. get_info_fail (cn\<lparr>cn_info_fd := fd\<rparr>) closed stack = Some r \<and> got_info cn r"
  by (auto simp: get_info_fail_def cl_cluster_node_close_info_fd_def got_info_def)

lemma get_info_body_ok:
  assumes e: "script_fine (pe_body e)" and t: "t \<noteq> 0" and sz: "0 < sz" "sz + 1 < INFO_STACK_BUF_SIZE" and l: "length stack = INFO_STACK_BUF_SIZE"
  shows "\<exists>r. get_info_body e (cn\<lparr>cn_info_fd := fd\<rparr>) closed t sz stack = Some r \<and> got_info cn r"
proof -
  have "sz \<le> length stack" using sz(2) l by simp
  from read_timeout_ok [OF e t sz(1) this] obtain r where r: "cf_socket_read_timeout (pe_body e) (Some stack) sz 0 t = Some r"
    "case r of Waiting \<Rightarrow> True | Returned (rv, b') \<Rightarrow> \<exists>b1. b' = Some b1 \<and> length b1 = length stack \<and>
      (rv = 0 \<longrightarrow> sz \<le> length (delivered (s_ticks (pe_body e))) \<and> take sz b1 = take sz (delivered (s_ticks (pe_body e))))" by blast
  show ?thesis
  proof (cases r)
    case Waiting
    then show ?thesis using r(1) sz(2) by (simp add: get_info_body_def got_info_def)
  next
    case (Returned x)
    obtain rv b' where x: "x = (rv, b')" by (cases x)
    from r(2) Returned x obtain b1 where b1: "b' = Some b1" "length b1 = length stack" by auto
    show ?thesis
    proof (cases "rv = 0")
      case False
      have "length b1 = INFO_STACK_BUF_SIZE" using b1(2) l by simp
      from get_info_fail_ok [where cn = cn and fd = fd and closed = closed, OF this] show ?thesis using False r(1) Returned x b1(1) sz(2) by (simp add: get_info_body_def)
    next
      case True
      obtain b2 where "store b1 (sz + 1) [0] = Some b2" "length b2 = INFO_STACK_BUF_SIZE" "0 \<in> set b2"
        using b1(2) l sz(2) by (simp add: store_def)
      then show ?thesis using True r(1) Returned x b1 l sz(2) by (auto simp: get_info_body_def got_info_def)
    qed
  qed
qed

lemma cl_cluster_node_get_info_ok:
  assumes e: "ping_fine e" and t: "t \<noteq> 0" and l: "length stack = INFO_STACK_BUF_SIZE" and n: "length names \<le> 1000"
  shows "\<exists>r. cl_cluster_node_get_info e cn names t stack = Some r \<and> got_info cn r"
proof -
  obtain ok cn1 closed where p: "cl_cluster_node_prep_info_fd e cn = (ok, cn1, closed)" by (metis prod.collapse)
  have "\<exists>fd. cn1 = cn\<lparr>cn_info_fd := fd\<rparr>"
    using p by (cases "cn_info_fd cn \<noteq> - 1 \<or> cn_sockaddr_in_v cn = []")
      (auto simp: cl_cluster_node_prep_info_fd_def split: prod.splits if_splits intro: exI [of _ "cn_info_fd cn"])
  then obtain fd where cn1: "cn1 = cn\<lparr>cn_info_fd := fd\<rparr>" by blast
  show ?thesis
  proof (cases ok)
    case False
    then show ?thesis using p cn1 l by (auto simp: cl_cluster_node_get_info_def got_info_def)
  next
    case True
    let ?h = "[CL_PROTO_VERSION, CL_PROTO_TYPE_INFO] @ word_le 6 (of_nat (length names) :: u64)"
    obtain s1 where s1: "store stack 0 ?h = Some s1" "length s1 = INFO_STACK_BUF_SIZE"
      using l by (simp add: store_def INFO_STACK_BUF_SIZE_def)
    then have "8 \<le> length s1" by (simp add: INFO_STACK_BUF_SIZE_def)
    from swap_proto [OF this] obtain s2 where s2: "cl_proto_swap s1 0 = Some s2" "length s2 = INFO_STACK_BUF_SIZE" using s1(2) by auto
    obtain s3 where s3: "store s2 8 names = Some s3" "length s3 = INFO_STACK_BUF_SIZE"
      using s2(2) n by (simp add: store_def INFO_STACK_BUF_SIZE_def)
    note fail = get_info_fail_ok [where cn = cn and fd = fd and closed = closed]
    have h: "script_fine (pe_header e)" "script_fine (pe_body e)" using e by (simp_all add: ping_fine_def)
    have "0 < (8 :: nat)" "8 \<le> length s3" using s3(2) by (simp_all add: INFO_STACK_BUF_SIZE_def)
    from read_timeout_ok [OF h(1) t this] obtain r where r: "cf_socket_read_timeout (pe_header e) (Some s3) 8 0 t = Some r"
      "case r of Waiting \<Rightarrow> True | Returned (rv, b') \<Rightarrow> \<exists>b1. b' = Some b1 \<and> length b1 = length s3 \<and>
        (rv = 0 \<longrightarrow> 8 \<le> length (delivered (s_ticks (pe_header e))) \<and> take 8 b1 = take 8 (delivered (s_ticks (pe_header e))))" by blast
    let ?go = "\<lambda>(rv, b). do {
              stack_buf \<leftarrow> b;
              if rv \<noteq> 0 then get_info_fail cn1 closed stack_buf
              else do {
                stack_buf \<leftarrow> cl_proto_swap stack_buf 0;
                sz \<leftarrow> proto_sz stack_buf;
                if sz = 0 \<or> sz > 512 * 1024 then get_info_fail cn1 closed stack_buf
                else get_info_body e cn1 closed t sz stack_buf } }"
    have g: "cl_cluster_node_get_info e cn names t stack = (case cf_socket_write_timeout (pe_write e) (8 + length names) 0 t of Waiting \<Rightarrow> Some Waiting
        | Returned (rv, _) \<Rightarrow> if rv \<noteq> 0 then get_info_fail cn1 closed s3 else bind_io (Some r) ?go)"
      using p True s1(1) s2(1) s3(1) r(1) by (simp add: cl_cluster_node_get_info_def split: outcome.split)
    have "\<exists>q. bind_io (Some r) ?go = Some q \<and> got_info cn q"
    proof (cases r)
      case Waiting
      then show ?thesis by (simp add: got_info_def)
    next
      case (Returned x)
      obtain rv b' where x: "x = (rv, b')" by (cases x)
      from r(2) Returned x obtain b1 where b1: "b' = Some b1" "length b1 = length s3"
        "rv = 0 \<longrightarrow> 8 \<le> length (delivered (s_ticks (pe_header e))) \<and> take 8 b1 = take 8 (delivered (s_ticks (pe_header e)))" by auto
      show ?thesis
      proof (cases "rv = 0")
        case False
        then show ?thesis using fail [where stack = b1] b1 Returned x s3(2) cn1 by simp
      next
        case True
        have "8 \<le> length b1" using b1(2) s3(2) by (simp add: INFO_STACK_BUF_SIZE_def)
        from swap_proto [OF this] obtain b2 where b2: "cl_proto_swap b1 0 = Some b2"
          "proto_sz b2 = Some (unat (le_word (rev (take 6 (drop 2 b1))) :: u64))" "length b2 = INFO_STACK_BUF_SIZE" using b1(2) s3(2) by auto
        have "take 6 (drop 2 b1) = take 6 (drop 2 (take 8 b1))" by (simp add: drop_take)
        also have "\<dots> = take 6 (drop 2 (delivered (s_ticks (pe_header e))))" using b1(3) True by (simp add: drop_take)
        finally have sz: "proto_sz b2 = Some (announced (delivered (s_ticks (pe_header e))))"
          using b2(2) b1(3) True by (simp add: announced_def)
        let ?A = "announced (delivered (s_ticks (pe_header e)))"
        show ?thesis
        proof (cases "?A = 0 \<or> 512 * 1024 < ?A")
          case True
          then show ?thesis using fail [OF b2(3)] b1(1) \<open>rv = 0\<close> Returned x b2(1) sz cn1 by auto
        next
          case False
          then have a: "0 < ?A" "?A + 1 < INFO_STACK_BUF_SIZE" using e by (auto simp: ping_fine_def)
          from get_info_body_ok [OF h(2) t a b2(3), where cn = cn and fd = fd and closed = closed] show ?thesis
            using False b1(1) \<open>rv = 0\<close> Returned x b2(1) sz cn1 by simp
        qed
      qed
    qed
    then show ?thesis using g fail [OF s3(2)] cn1 by (auto simp: got_info_def split: outcome.splits)
  qed
qed

subsection \<open>A tend is safe\<close>

text \<open>What holds of the result of a call, if it ends; in any case the call does not fault.\<close>

definition runs :: "'a outcome option \<Rightarrow> ('a \<Rightarrow> bool) \<Rightarrow> bool" where
  "runs r P \<longleftrightarrow> (case r of None \<Rightarrow> False | Some Waiting \<Rightarrow> True | Some (Returned x) \<Rightarrow> P x)"

lemma runs_simps [simp]: "runs (Some Waiting) P" "runs (Some (Returned x)) P = P x" "\<not> runs None P"
  by (simp_all add: runs_def)

lemma runs_bind: "runs c P \<Longrightarrow> (\<And>x. P x \<Longrightarrow> runs (f x) Q) \<Longrightarrow> runs (bind_io c f) Q"
proof (cases c)
  case (Some y)
  then show "runs c P \<Longrightarrow> (\<And>x. P x \<Longrightarrow> runs (f x) Q) \<Longrightarrow> ?thesis" by (cases y) simp_all
qed simp

lemma runs_mono: "runs c P \<Longrightarrow> (\<And>x. P x \<Longrightarrow> Q x) \<Longrightarrow> runs c Q"
  by (auto simp: runs_def split: option.splits outcome.splits)

lemma runsI: "\<exists>r. c = Some r \<and> (case r of Waiting \<Rightarrow> True | Returned x \<Rightarrow> P x) \<Longrightarrow> runs c P"
proof -
  assume "\<exists>r. c = Some r \<and> (case r of Waiting \<Rightarrow> True | Returned x \<Rightarrow> P x)"
  then obtain r where "c = Some r" "case r of Waiting \<Rightarrow> True | Returned x \<Rightarrow> P x" by blast
  then show ?thesis by (cases r) simp_all
qed

lemma next_lookup_ok: "runs (next_lookup w asc host port v) (\<lambda>(v', w'). \<exists>rs. w' = w\<lparr>n_resolve := rs\<rparr>)"
  by (auto simp: next_lookup_def cl_lookup_def Let_def split: list.split outcome.split option.split)

lemma services_loop_ok: "runs (services_loop w asc hs v) (\<lambda>(v', w'). \<exists>rs. w' = w\<lparr>n_resolve := rs\<rparr>)"
proof (induction hs arbitrary: w v)
  case Nil
  show ?case by (auto intro: exI [of _ "n_resolve w"])
next
  case (Cons h hs)
  show ?case
  proof (cases "length (str_split 58 [] h) = 2")
    case True
    have "runs (services_loop w' asc hs v') (\<lambda>(v', w'). \<exists>rs. w' = w\<lparr>n_resolve := rs\<rparr>)" if "\<exists>rs. w' = w\<lparr>n_resolve := rs\<rparr>" for v' w'
      using that Cons.IH [of w' v'] by auto
    then show ?thesis using True by (auto simp: Let_def intro!: runs_bind [OF next_lookup_ok])
  qed (use Cons.IH in \<open>simp add: Let_def\<close>)
qed

lemma check_lines_ok: "runs (check_lines w asc cn ls upd v) (\<lambda>(upd', v', w'). \<exists>rs. w' = w\<lparr>n_resolve := rs\<rparr>)"
proof (induction ls arbitrary: w upd v)
  case Nil
  show ?case by (auto intro: exI [of _ "n_resolve w"])
next
  case (Cons l ls)
  let ?P = "\<lambda>(upd', v', w'). \<exists>rs. w' = w\<lparr>n_resolve := rs\<rparr>"
  have rest: "runs (check_lines w' asc cn ls upd' v') ?P" if "\<exists>rs. w' = w\<lparr>n_resolve := rs\<rparr>" for upd' v' w'
    using that Cons.IH [of w' upd' v'] by auto
  have "runs (cluster_services_parse w asc s v) (\<lambda>(v', w'). \<exists>rs. w' = w\<lparr>n_resolve := rs\<rparr>)" for s
    by (simp add: cluster_services_parse_def services_loop_ok)
  then have services: "runs (bind_io (cluster_services_parse w asc s v) (\<lambda>(v, w). check_lines w asc cn ls upd v)) ?P" for s
    by (rule runs_bind) (use rest in auto)
  have here: "runs (check_lines w asc cn ls upd' v) ?P" for upd' using Cons.IH .
  have "\<exists>rs. w = w\<lparr>n_resolve := rs\<rparr>" by (rule exI [of _ "n_resolve w"]) simp
  then show ?case using here services by (simp add: Let_def)
qed

lemma hosts_loop_ok:
  "length hs = length ps \<Longrightarrow> runs (hosts_loop w asc hs ps v) (\<lambda>(v', w'). \<exists>rs. w' = w\<lparr>n_resolve := rs\<rparr>)"
proof (induction hs ps arbitrary: w v rule: list_induct2)
  case Nil
  show ?case by (auto intro: exI [of _ "n_resolve w"])
next
  case (Cons h hs p ps)
  have "runs (hosts_loop w' asc hs ps v') (\<lambda>(v', w'). \<exists>rs. w' = w\<lparr>n_resolve := rs\<rparr>)" if "\<exists>rs. w' = w\<lparr>n_resolve := rs\<rparr>" for v' w'
    using that Cons.IH [of w' v'] by auto
  then show ?case by (auto intro!: runs_bind [OF next_lookup_ok])
qed

text \<open>
  The invariant of a tend: the references of the cluster, those of \<open>r\<close>, which other threads hold,
  and no others; tables of the right size, and few enough for all the reports to come; nodes that
  are in the list once; servers and an allocator that are in order.
\<close>

definition net_fine :: "net \<Rightarrow> bool" where
  "net_fine w \<longleftrightarrow> (\<forall>e \<in> set (n_infos w). info_fine e \<and> answer_size e \<noteq> 0) \<and> (\<forall>e \<in> set (n_pings w). ping_fine e) \<and>
     (\<forall>m p. n_alloc w m = Some p \<longrightarrow> m_nodes m p = None)"

definition tend_room :: "cl_cluster \<Rightarrow> nat \<Rightarrow> bool" where
  "tend_room asc k \<longleftrightarrow> 2 * unat (cs_n_partitions asc) * length (cs_partition_table_head asc) + 12 * INFO_STACK_BUF_SIZE * k \<le> 2 ^ 31"

definition tend_inv :: "(node_ptr \<Rightarrow> nat) \<Rightarrow> tend_state \<Rightarrow> bool" where
  "tend_inv r st \<longleftrightarrow> (case st of (m, asc, w) \<Rightarrow>
     mem_ok m (\<lambda>q. cluster_refs asc q + r q) \<and> tables_wf (unat (cs_n_partitions asc)) (cs_partition_table_head asc) \<and>
     distinct (cs_node_v asc) \<and> tend_room asc (length (n_pings w)) \<and> net_fine w \<and> cs_info_timeout asc \<noteq> 0 \<and> (\<forall>q. r q < 2 ^ 30))"

text \<open>What a tend does not touch.\<close>

definition untouched :: "cl_cluster \<Rightarrow> cl_cluster" where
  "untouched asc = asc\<lparr>cs_node_v := [], cs_partition_table_head := [], cs_n_partitions := 0, cs_found_all := False\<rparr>"

lemma tend_invD:
  assumes "tend_inv r (m, asc, w)"
  shows "mem_ok m (\<lambda>q. cluster_refs asc q + r q)" "tables_wf (unat (cs_n_partitions asc)) (cs_partition_table_head asc)"
    "distinct (cs_node_v asc)" "tend_room asc (length (n_pings w))" "net_fine w" "cs_info_timeout asc \<noteq> 0" "r q < 2 ^ 30"
  using assms by (auto simp: tend_inv_def)

lemma tend_room_mono: "tend_room asc k \<Longrightarrow> j \<le> k \<Longrightarrow> tend_room asc j"
proof -
  assume a: "tend_room asc k" "j \<le> k"
  have "12 * INFO_STACK_BUF_SIZE * j \<le> 12 * INFO_STACK_BUF_SIZE * k" using a(2) by simp
  then show ?thesis using a(1) unfolding tend_room_def by linarith
qed

lemma in_cluster_pos: "p \<in> set (cs_node_v asc) \<Longrightarrow> 0 < cluster_refs asc p + r p"
  using held_pos [of p "cs_node_v asc"] by (simp add: cluster_refs_def)

lemma tend_alive: "tend_inv r (m, asc, w) \<Longrightarrow> alive m (cs_node_v asc)"
  using aliveI [OF tend_invD(1)] in_cluster_pos by blast

lemma node_fd_ok: "node_ok n \<Longrightarrow> node_ok (n\<lparr>cn_info_fd := fd\<rparr>)" "node_ok n \<Longrightarrow> node_ok (n\<lparr>cn_intervals_unreachable := u\<rparr>)"
  "node_ok n \<Longrightarrow> node_ok (n\<lparr>cn_intervals_absent := u\<rparr>)" "node_ok n \<Longrightarrow> node_ok (n\<lparr>cn_sockaddr_in_v := v\<rparr>)"
  by (simp_all add: node_ok_def)

text \<open>The nodes are updated in place.\<close>

lemma tend_inv_node:
  assumes "tend_inv r (m, asc, w)" and "p \<in> set (cs_node_v asc)"
  shows "\<exists>n. m_nodes m p = Some n \<and> node_ok n \<and> (\<forall>n'. node_ok n' \<longrightarrow> cn_rc n' = cn_rc n \<longrightarrow> tend_inv r (put_node m p n', asc, w))"
  using mem_ok_node_update [OF tend_invD(1) [OF assms(1)], of p] in_cluster_pos [OF assms(2), of r] assms(1) by (auto simp: tend_inv_def)

lemma tend_inv_close [simp]: "tend_inv r (close_all m fds, asc, w) = tend_inv r (m, asc, w)"
  by (simp add: tend_inv_def)

lemma node_request_ok:
  assumes inv: "tend_inv r (m, asc, w)" and p: "p \<in> set (cs_node_v asc)"
    and l: "length stack = INFO_STACK_BUF_SIZE" and n: "length names \<le> 1000"
  shows "runs (node_request (m, asc, w) p names stack) (\<lambda>(rbuf, stack', m', asc', w').
    asc' = asc \<and> tend_inv r (m', asc, w') \<and> tend_room asc (length (n_pings w') + 1) \<and> length stack' = INFO_STACK_BUF_SIZE \<and>
    (\<forall>s. rbuf = Some s \<longrightarrow> length s < INFO_STACK_BUF_SIZE))"
proof (cases "n_pings w")
  case (Cons e es)
  from tend_inv_node [OF inv p] obtain cn where cn: "m_nodes m p = Some cn" "node_ok cn"
    "\<And>n'. node_ok n' \<Longrightarrow> cn_rc n' = cn_rc cn \<Longrightarrow> tend_inv r (put_node m p n', asc, w)" by blast
  have e: "ping_fine e" using tend_invD(5) [OF inv] Cons by (simp add: net_fine_def)
  let ?w = "w\<lparr>n_pings := es\<rparr>"
  have room: "tend_room asc (length es + 1)" using tend_invD(4) [OF inv] Cons by simp
  have inv': "tend_inv r (m', asc, ?w)" if "tend_inv r (m', asc, w)" for m'
    using that Cons tend_room_mono [OF room, of "length es"] by (simp add: tend_inv_def net_fine_def)
  from cl_cluster_node_get_info_ok [OF e tend_invD(6) [OF inv] l n] obtain q where
    q: "cl_cluster_node_get_info e cn names (cs_info_timeout asc) stack = Some q" "got_info cn q" by blast
  have "runs (cl_cluster_node_get_info e cn names (cs_info_timeout asc) stack) (\<lambda>(rbuf, cn', closed, stack').
      tend_inv r (put_node m p cn', asc, w) \<and> length stack' = INFO_STACK_BUF_SIZE \<and>
      (\<forall>b. rbuf = Some b \<longrightarrow> (\<exists>s. c_str b = Some s \<and> length s < INFO_STACK_BUF_SIZE)))"
  proof (rule runsI, intro exI conjI, rule q(1))
    show "case q of Waiting \<Rightarrow> True | Returned (rbuf, cn', closed, stack') \<Rightarrow>
      tend_inv r (put_node m p cn', asc, w) \<and> length stack' = INFO_STACK_BUF_SIZE \<and>
      (\<forall>b. rbuf = Some b \<longrightarrow> (\<exists>s. c_str b = Some s \<and> length s < INFO_STACK_BUF_SIZE))"
      using q(2) cn(2) c_str_short [of INFO_STACK_BUF_SIZE] by (auto simp: got_info_def node_fd_ok intro!: cn(3) split: outcome.splits)
  qed
  then show ?thesis unfolding node_request_def using Cons cn(1) inv' room
    by (auto intro!: runs_bind simp: Let_def split: option.split) 
qed (simp add: node_request_def)

text \<open>What a ping may change: the tables of the cluster, and what the tend has consumed of its environment.\<close>

definition pinged :: "(node_ptr \<Rightarrow> nat) \<Rightarrow> cl_cluster \<Rightarrow> tend_state \<Rightarrow> bool" where
  "pinged r asc st \<longleftrightarrow> tend_inv r st \<and> (\<exists>ts. fst (snd st) = asc\<lparr>cs_partition_table_head := ts\<rparr>)"

lemma pinged_same: "tend_inv r (m, asc, w) \<Longrightarrow> pinged r asc (m, asc, w)"
  by (auto simp: pinged_def intro: exI [of _ "cs_partition_table_head asc"])

lemma names_short: "length INFO_STR_CHECK \<le> 1000" "length INFO_STR_GET_REPLICAS \<le> 1000"
  by (simp_all add: INFO_STR_CHECK_def INFO_STR_GET_REPLICAS_def str_lit_def)

lemma held_distinct: "distinct ps \<Longrightarrow> held ps q \<le> 1"
  by (induction ps) (auto simp: held_def filter_empty_conv)

lemma fetch_replicas_ok:
  assumes inv: "tend_inv r (m, asc, w)" and p: "p \<in> set (cs_node_v asc)" and l: "length stack = INFO_STACK_BUF_SIZE"
  shows "runs (fetch_replicas (m, asc, w) p stack) (pinged r asc)"
proof -
  let ?n = "unat (cs_n_partitions asc)" and ?ts = "cs_partition_table_head asc"
  have parse: "\<exists>m2 ts. cl_cluster_node_parse_replicas g True ?n m1 ?ts p s = Some (m2, ts) \<and>
      tend_inv r (m2, asc\<lparr>cs_partition_table_head := ts\<rparr>, w1)"
    if inv1: "tend_inv r (m1, asc, w1)" and room: "tend_room asc (length (n_pings w1) + 1)" and s: "length s < INFO_STACK_BUF_SIZE" for g m1 w1 s
  proof -
    let ?r = "\<lambda>q. held (cs_node_v asc) q + r q"
    have ok: "mem_ok m1 (\<lambda>q. held (table_ptrs ?ts) q + ?r q)" using tend_invD(1) [OF inv1] by (simp add: cluster_refs_def ac_simps)
    have pos: "0 < ?r p" using held_pos [OF p] by simp
    have "2 * ?n * length ?ts + 12 * length s \<le> 2 ^ 31" using room s by (simp add: tend_room_def)
    moreover have "held (cs_node_v asc) p \<le> 1" "r p < 2 ^ 30" using held_distinct [OF tend_invD(3) [OF inv]] tend_invD(7) [OF inv] by blast+
    moreover have "?n < 2 ^ 16" using unat_bound [of "cs_n_partitions asc"] by simp
    ultimately have "?r p + 2 * ?n * length ?ts + 12 * length s + 2 * ?n + 2 < 2 ^ 32" by simp
    from parse_replicas_total [OF ok tend_invD(2) [OF inv] pos this, of g] obtain m2 ts where
      u: "cl_cluster_node_parse_replicas g True ?n m1 ?ts p s = Some (m2, ts)" "mem_ok m2 (\<lambda>q. held (table_ptrs ts) q + ?r q)"
        "tables_wf ?n ts" "2 * ?n * length ts \<le> 2 * ?n * length ?ts + 12 * length s" by blast
    have "12 * length s \<le> 12 * INFO_STACK_BUF_SIZE" using s by simp
    then have "tend_room (asc\<lparr>cs_partition_table_head := ts\<rparr>) (length (n_pings w1))"
      using u(4) room unfolding tend_room_def by (simp add: algebra_simps)
    then show ?thesis using u(1-3) inv1 by (simp add: tend_inv_def cluster_refs_def ac_simps)
  qed
  show ?thesis unfolding fetch_replicas_def
  proof (rule runs_bind [OF node_request_ok [OF inv p l names_short(2)]], clarify)
    fix rbuf :: "block option" and stack' :: block and m1 w1
    assume a: "tend_inv r (m1, asc, w1)" "tend_room asc (length (n_pings w1) + 1)"
      "\<forall>s. rbuf = Some s \<longrightarrow> length s < INFO_STACK_BUF_SIZE"
    show "runs (case rbuf of None \<Rightarrow> Some (Returned (m1, asc, w1))
       | Some s \<Rightarrow> do {
           (m, ts) \<leftarrow> cl_cluster_node_parse_replicas (n_stack w1) True ?n m1 ?ts p s;
           Some (Returned (m, asc\<lparr>cs_partition_table_head := ts\<rparr>, w1)) }) (pinged r asc)"
    proof (cases rbuf)
      case None
      then show ?thesis using pinged_same [OF a(1)] by simp
    next
      case (Some s)
      then have "length s < INFO_STACK_BUF_SIZE" using a(3) by simp
      from parse [OF a(1,2) this, of "n_stack w1"] Some show ?thesis by (auto simp: pinged_def)
    qed
  qed
qed

lemma set_unreachable_ok:
  assumes "tend_inv r (m, asc, w)" and "p \<in> set (cs_node_v asc)"
  shows "\<exists>m'. set_unreachable m p f = Some m' \<and> tend_inv r (m', asc, w)"
  using tend_inv_node [OF assms] by (auto simp: set_unreachable_def node_fd_ok)

lemma tend_inv_resolve [simp]: "tend_inv r (m, asc, w\<lparr>n_resolve := rs\<rparr>) = tend_inv r (m, asc, w)"
  by (simp add: tend_inv_def net_fine_def)

lemma cluster_ping_node_ok:
  assumes inv: "tend_inv r (m, asc, w)" and p: "p \<in> set (cs_node_v asc)"
  shows "runs (cluster_ping_node (m, asc, w) p v) (\<lambda>(v', st). pinged r asc st)"
proof -
  have "length (map (n_stack (snd (snd (m, asc, w)))) [0..<INFO_STACK_BUF_SIZE]) = INFO_STACK_BUF_SIZE" by simp
  note q = node_request_ok [OF inv p this names_short(1)]
  show ?thesis unfolding cluster_ping_node_def
  proof (rule runs_bind [OF q], clarify)
    fix rbuf :: "block option" and stack' :: block and m1 w1
    assume a: "tend_inv r (m1, asc, w1)" "length stack' = INFO_STACK_BUF_SIZE"
    show "runs (case rbuf of None \<Rightarrow> do { m \<leftarrow> set_unreachable m1 p (\<lambda>n. n + 1); Some (Returned (v, m, asc, w1)) }
       | Some s \<Rightarrow> do {
           m \<leftarrow> set_unreachable m1 p (\<lambda>n. 0);
           cn \<leftarrow> m_nodes m p;
           bind_io (cl_cluster_node_parse_check w1 asc cn s v) (\<lambda>(upd, v, w).
             if \<not> upd then Some (Returned (v, m, asc, w))
             else bind_io (fetch_replicas (m, asc, w) p stack') (\<lambda>st. Some (Returned (v, st)))) }) (\<lambda>(v', st). pinged r asc st)"
    proof (cases rbuf)
      case None
      obtain m2 where "set_unreachable m1 p (\<lambda>n. n + 1) = Some m2" "tend_inv r (m2, asc, w1)" using set_unreachable_ok [OF a(1) p] by blast
      then show ?thesis using None pinged_same by simp
    next
      case (Some s)
      obtain m2 where m2: "set_unreachable m1 p (\<lambda>n. 0) = Some m2" "tend_inv r (m2, asc, w1)" using set_unreachable_ok [OF a(1) p] by blast
      obtain cn where cn: "m_nodes m2 p = Some cn" using tend_inv_node [OF m2(2) p] by blast
      have "runs (bind_io (cl_cluster_node_parse_check w1 asc cn s v) (\<lambda>(upd, v, w).
             if \<not> upd then Some (Returned (v, m2, asc, w))
             else bind_io (fetch_replicas (m2, asc, w) p stack') (\<lambda>st. Some (Returned (v, st))))) (\<lambda>(v', st). pinged r asc st)"
        unfolding cl_cluster_node_parse_check_def
      proof (rule runs_bind [OF check_lines_ok], clarify)
        fix upd :: bool and v2 rs
        have i: "tend_inv r (m2, asc, w1\<lparr>n_resolve := rs\<rparr>)" using m2(2) by simp
        show "runs (if \<not> upd then Some (Returned (v2, m2, asc, w1\<lparr>n_resolve := rs\<rparr>))
             else bind_io (fetch_replicas (m2, asc, w1\<lparr>n_resolve := rs\<rparr>) p stack') (\<lambda>st. Some (Returned (v2, st)))) (\<lambda>(v', st). pinged r asc st)"
          using pinged_same [OF i] runs_bind [OF fetch_replicas_ok [OF i p a(2)], of "\<lambda>st. Some (Returned (v2, st))" "\<lambda>(v', st). pinged r asc st"]
          by simp
      qed
      then show ?thesis using Some m2(1) cn by simp
    qed
  qed
qed

text \<open>Exploring adds nodes, under new pointers.\<close>

definition explored :: "(node_ptr \<Rightarrow> nat) \<Rightarrow> cl_cluster \<Rightarrow> tend_state \<Rightarrow> bool" where
  "explored r asc st \<longleftrightarrow> tend_inv r st \<and> (\<exists>ps. fst (snd st) = asc\<lparr>cs_node_v := cs_node_v asc @ ps\<rparr>)"

lemma explored_same: "tend_inv r (m, asc, w) \<Longrightarrow> explored r asc (m, asc, w)"
  by (auto simp: explored_def intro: exI [of _ "[]"])

lemma tend_inv_infos: "tend_inv r (m, asc, w) \<Longrightarrow> n_infos w = e # es \<Longrightarrow> tend_inv r (m, asc, w\<lparr>n_infos := es\<rparr>)"
  by (simp add: tend_inv_def net_fine_def)

lemma tend_inv_new:
  assumes inv: "tend_inv r (m, asc, w)" and p: "n_alloc w m0 = Some p" "m_nodes m0 = m_nodes m" and l: "length name < NODE_NAME_SIZE"
  shows "\<exists>m'. cl_cluster_node_create g m p name sa = Some m' \<and> tend_inv r (m', asc\<lparr>cs_node_v := cs_node_v asc @ [p]\<rparr>, w)"
proof -
  let ?c = "\<lambda>q. cluster_refs asc q + r q"
  have "m_nodes m p = None" using tend_invD(5) [OF inv] p unfolding net_fine_def by metis
  then have z: "?c p = 0" using mem_ok_live [OF tend_invD(1) [OF inv], of p] by simp
  from cl_cluster_node_create_ok [OF tend_invD(1) [OF inv] z l, of g sa] obtain m' where
    m': "cl_cluster_node_create g m p name sa = Some m'" "mem_ok m' (?c(p := 1))" by blast
  have "?c(p := 1) = (\<lambda>q. cluster_refs (asc\<lparr>cs_node_v := cs_node_v asc @ [p]\<rparr>) q + r q)" using z by (auto simp: cluster_refs_def)
  moreover have "p \<notin> set (cs_node_v asc)" using in_cluster_pos [of p asc r] z by auto
  ultimately show ?thesis using m' inv by (simp add: tend_inv_def tend_room_def)
qed

lemma cluster_ping_address_ok:
  assumes inv: "tend_inv r (m, asc, w)"
  shows "runs (cluster_ping_address (m, asc, w) sa) (explored r asc)"
proof (cases "n_infos w")
  case (Cons e es)
  let ?w = "w\<lparr>n_infos := es\<rparr>"
  have e: "info_fine e" "answer_size e \<noteq> 0" using tend_invD(5) [OF inv] Cons by (simp_all add: net_fine_def)
  have "length (map (n_stack w) [0..<NODE_NAME_SIZE]) = NODE_NAME_SIZE" by simp
  note q = runsI [OF cl_request_node_name_ok [OF e tend_invD(6) [OF inv] this, of sa]]
  have inv1: "tend_inv r (close_all m closed, asc, ?w)" for closed using tend_inv_infos [OF inv Cons] by simp
  have step: "runs (let m1 = close_all m closed; w1 = w\<lparr>n_infos := es\<rparr> in
           if rv \<noteq> 0 then Some (Returned (m1, asc, w1))
           else do {
             name \<leftarrow> c_str node_name;
             cn \<leftarrow> cl_cluster_node_get_byname m1 (cs_node_v asc) name;
             case cn of
               None \<Rightarrow>
                 (case n_alloc w1 m1 of None \<Rightarrow> Some (Returned (m1, asc, w1))
                  | Some p \<Rightarrow> do {
                      m2 \<leftarrow> cl_cluster_node_create (n_stack w1) m1 p name sa;
                      Some (Returned (m2, asc\<lparr>cs_node_v := cs_node_v asc @ [p]\<rparr>, w1)) })
             | Some p \<Rightarrow> do {
                 n \<leftarrow> m_nodes m1 p;
                 Some (Returned (put_node m1 p (n\<lparr>cn_sockaddr_in_v := append_unique sa (cn_sockaddr_in_v n)\<rparr>), asc, w1)) } }) (explored r asc)"
    if n: "name_array node_name" for rv :: int and node_name closed
  proof (cases "rv = 0")
    case True
    let ?m = "close_all m closed"
    have "0 \<in> set (take NODE_NAME_SIZE node_name)" using n by (simp add: name_array_def)
    then obtain name where name: "c_str node_name = Some name" "length name < NODE_NAME_SIZE" using c_str_short by blast
    from get_byname_ok [OF tend_alive [OF inv1], of closed name] obtain cn where cn:
      "cl_cluster_node_get_byname ?m (cs_node_v asc) name = Some cn" "\<And>p. cn = Some p \<Longrightarrow> p \<in> set (cs_node_v asc)"
      by (auto split: option.splits)
    show ?thesis
    proof (cases cn)
      case None
      show ?thesis
      proof (cases "n_alloc ?w ?m")
        case (Some p)
        from tend_inv_new [OF inv1 Some refl name(2), where g = "n_stack w" and sa = sa] obtain m2 where
          "cl_cluster_node_create (n_stack w) ?m p name sa = Some m2" "tend_inv r (m2, asc\<lparr>cs_node_v := cs_node_v asc @ [p]\<rparr>, ?w)"
          by blast
        then show ?thesis using True name cn(1) None Some by (auto simp: explored_def)
      qed (use True name cn(1) None explored_same [OF inv1 [of closed]] in simp)
    next
      case (Some p)
      have p: "p \<in> set (cs_node_v asc)" using cn(2) Some by blast
      from tend_inv_node [OF inv1 [of closed] p] obtain n where "m_nodes ?m p = Some n"
        "tend_inv r (put_node ?m p (n\<lparr>cn_sockaddr_in_v := append_unique sa (cn_sockaddr_in_v n)\<rparr>), asc, ?w)"
        by (auto simp: node_fd_ok)
      then show ?thesis using True name cn(1) Some explored_same by simp
    qed
  qed (use explored_same [OF inv1 [of closed]] in simp)
  have "runs (bind_io (cl_request_node_name e sa (map (n_stack w) [0..<NODE_NAME_SIZE]) (cs_info_timeout asc)) f) (explored r asc)"
    if "\<And>rv nm closed. name_array nm \<Longrightarrow> runs (f (rv, nm, closed)) (explored r asc)" for f
    by (rule runs_bind [OF q]) (use that in auto)
  then show ?thesis using Cons step by (simp add: cluster_ping_address_def cl_get_node_name_def)
qed (simp add: cluster_ping_address_def)

lemma explore_ok: "tend_inv r (m, asc, w) \<Longrightarrow> runs (explore (m, asc, w) sas k) (\<lambda>(k', st). explored r asc st)"
proof (induction sas arbitrary: m asc w k)
  case Nil
  then show ?case by (auto simp: explored_def intro: exI [of _ "[]"])
next
  case (Cons sa sas)
  obtain x where x: "cl_cluster_node_get_byaddr m (cs_node_v asc) sa = Some x" using get_byaddr_ok [OF tend_alive [OF Cons.prems]] by blast
  have next_one: "runs (explore st sas (k + 1)) (\<lambda>(k', st). explored r asc st)" if "explored r asc st" for st
  proof -
    obtain m1 asc1 w1 where st: "st = (m1, asc1, w1)" by (cases st)
    have "runs (explore st sas (k + 1)) (\<lambda>(k', st). explored r asc1 st)" using that Cons.IH [of m1 asc1 w1 "k + 1"] st by (simp add: explored_def)
    then show ?thesis by (rule runs_mono) (use that st in \<open>auto simp: explored_def\<close>)
  qed
  show ?case using x Cons.IH [OF Cons.prems, of k] runs_bind [OF cluster_ping_address_ok [OF Cons.prems, of sa] next_one]
    by (cases x) simp_all
qed

lemma n_partitions_loop_ok:
  assumes "tend_inv r (m, asc, w)" and "cs_n_partitions asc = 0 \<longrightarrow> cs_partition_table_head asc = []" and "cs_n_partitions asc = 0"
  shows "runs (n_partitions_loop (m, asc, w) sas) (\<lambda>st. tend_inv r st \<and> (\<exists>n. fst (snd st) = asc\<lparr>cs_n_partitions := n\<rparr>))"
  using assms
proof (induction sas arbitrary: m w)
  case Nil
  then show ?case by (auto intro: exI [of _ "cs_n_partitions asc"])
next
  case (Cons sa sas)
  let ?P = "\<lambda>st. tend_inv r st \<and> (\<exists>n. fst (snd st) = asc\<lparr>cs_n_partitions := n\<rparr>)"
  show ?case
  proof (cases "n_infos w")
    case infos: (Cons e es)
    have e: "info_fine e" "answer_size e \<noteq> 0" using tend_invD(5) [OF Cons.prems(1)] infos by (simp_all add: net_fine_def)
    note q = runsI [OF cl_request_n_partitions_ok [OF e tend_invD(6) [OF Cons.prems(1)], of sa]]
    have inv: "tend_inv r (close_all m closed, asc, w\<lparr>n_infos := es\<rparr>)" for closed using tend_inv_infos [OF Cons.prems(1) infos] by simp
    have found: "tend_inv r (close_all m closed, asc\<lparr>cs_n_partitions := n\<rparr>, w\<lparr>n_infos := es\<rparr>)" for closed n
      using inv [of closed] Cons.prems by (simp add: tend_inv_def cluster_refs_def tables_wf_def tend_room_def)
    have "runs (bind_io (cl_request_n_partitions e sa (cs_info_timeout asc)) f) ?P" if "\<And>rv n closed. runs (f (rv, n, closed)) ?P" for f
      by (rule runs_bind [OF q]) (use that in auto)
    moreover have "runs (let m1 = close_all m closed; w1 = w\<lparr>n_infos := es\<rparr> in
            if rv \<noteq> 0 then n_partitions_loop (m1, asc, w1) sas
            else Some (Returned (m1, asc\<lparr>cs_n_partitions := word_of_int n\<rparr>, w1))) ?P" for rv n :: int and closed
      using Cons.IH [OF inv [of closed] Cons.prems(2,3)] found [of closed "word_of_int n"] by (auto simp: Let_def)
    ultimately show ?thesis using infos by (simp add: cl_get_n_partitions_def)
  qed simp
qed

lemma pt_unproled: "length (pt_partitions (unproled_table p t)) = length (pt_partitions t)"
  by (simp add: unproled_table_def)

lemma is_absent_ok:
  assumes inv: "tend_inv r (m, asc, w)" and p: "p \<in> set (cs_node_v asc)"
  shows "\<exists>b m' ts. is_absent m asc p = Some (b, m', asc\<lparr>cs_partition_table_head := ts\<rparr>) \<and>
    tend_inv r (m', asc\<lparr>cs_partition_table_head := ts\<rparr>, w)"
proof -
  let ?ts = "cs_partition_table_head asc"
  obtain cn where cn: "m_nodes m p = Some cn" using tend_inv_node [OF inv p] by blast
  have ok: "mem_ok m (\<lambda>q. held (table_ptrs ?ts) q + (held (cs_node_v asc) q + r q))"
    using tend_invD(1) [OF inv] by (simp add: cluster_refs_def ac_simps)
  have same: "asc\<lparr>cs_partition_table_head := ?ts\<rparr> = asc" by simp
  obtain present m1 ts where c: "(if cn_intervals_absent cn = 0 then Some (True, m, ?ts)
        else cl_partition_table_is_node_present m ?ts p) = Some (present, m1, ts)"
      "tend_inv r (m1, asc\<lparr>cs_partition_table_head := ts\<rparr>, w)"
  proof (cases "cn_intervals_absent cn = 0")
    case True
    then show ?thesis using that inv same by simp
  next
    case False
    from cl_partition_table_is_node_present_ok [OF ok, of p] obtain m1 ts where
      u: "cl_partition_table_is_node_present m ?ts p = Some (is_master p ?ts, m1, ts)"
        "mem_ok m1 (\<lambda>q. held (table_ptrs ts) q + (held (cs_node_v asc) q + r q))"
        "ts = (if is_master p ?ts then ?ts else map (unproled_table p) ?ts)" by blast
    have "tables_wf (unat (cs_n_partitions asc)) ts" "length ts = length ?ts"
      using tend_invD(2) [OF inv] u(3) by (auto simp: tables_wf_def pt_unproled)
    then have "tend_inv r (m1, asc\<lparr>cs_partition_table_head := ts\<rparr>, w)"
      using inv u(2) by (simp add: tend_inv_def cluster_refs_def tend_room_def ac_simps)
    then show ?thesis using that u(1) False by simp
  qed
  let ?asc = "asc\<lparr>cs_partition_table_head := ts\<rparr>"
  have "p \<in> set (cs_node_v ?asc)" using p by simp
  from tend_inv_node [OF c(2) this] obtain n where n: "m_nodes m1 p = Some n" "node_ok n"
    "\<And>n'. node_ok n' \<Longrightarrow> cn_rc n' = cn_rc n \<Longrightarrow> tend_inv r (put_node m1 p n', ?asc, w)" by blast
  show ?thesis
  proof (cases present)
    case True
    then have "is_absent m asc p = Some (False, put_node m1 p (n\<lparr>cn_intervals_absent := 1\<rparr>), ?asc)"
      using cn c(1) n(1) by (simp add: is_absent_def)
    then show ?thesis using n(3) [OF node_fd_ok(3) [OF n(2)]] by fastforce
  next
    case False
    then have "is_absent m asc p = Some (cn_intervals_absent n > MAX_INTERVALS_ABSENT,
        put_node m1 p (n\<lparr>cn_intervals_absent := cn_intervals_absent n + 1\<rparr>), ?asc)"
      using cn c(1) n(1) by (simp add: is_absent_def)
    then show ?thesis using n(3) [OF node_fd_ok(3) [OF n(2)]] by fastforce
  qed
qed

lemma set_append_unique: "set (append_unique x xs) = insert x (set xs)"
  by (auto simp: append_unique_def)

text \<open>The pings: nodes may leave the list and their tables may change.\<close>

definition tended :: "(node_ptr \<Rightarrow> nat) \<Rightarrow> cl_cluster \<Rightarrow> tend_state \<Rightarrow> bool" where
  "tended r asc st \<longleftrightarrow> tend_inv r st \<and> untouched (fst (snd st)) = untouched asc \<and> cs_n_partitions (fst (snd st)) = cs_n_partitions asc \<and>
     set (cs_node_v (fst (snd st))) \<subseteq> set (cs_node_v asc)"

lemma held_removed: "held (as @ p # bs) q = held [p] q + held (as @ bs) q"
  by (simp add: held_def)

lemma remove_node_ok:
  assumes inv: "tend_inv r (m, asc, w)" and v: "cs_node_v asc = as @ p # bs"
  shows "\<exists>m'. cl_cluster_node_release m p = Some m' \<and> tend_inv r (m', asc\<lparr>cs_node_v := as @ bs\<rparr>, w)"
proof -
  let ?asc = "asc\<lparr>cs_node_v := as @ bs\<rparr>"
  have "mem_ok m (\<lambda>q. held [p] q + (cluster_refs ?asc q + r q))"
    using tend_invD(1) [OF inv] unfolding cluster_refs_def v held_removed by (simp add: ac_simps)
  from rc.release_one [OF this] show ?thesis using inv v by (auto simp: tend_inv_def tend_room_def)
qed

lemma ping_nodes_ok:
  "tend_inv r (m, asc, w) \<Longrightarrow> cs_node_v asc = as @ ps \<Longrightarrow> i = length as \<Longrightarrow>
    runs (ping_nodes (m, asc, w) i ps v) (\<lambda>(v', st). tended r asc st)"
proof (induction ps arbitrary: m asc w as i v)
  case Nil
  then show ?case by (simp add: tended_def)
next
  case (Cons p ps)
  have p: "p \<in> set (cs_node_v asc)" using Cons.prems(2) by simp
  obtain b m1 ts where a: "is_absent m asc p = Some (b, m1, asc\<lparr>cs_partition_table_head := ts\<rparr>)"
    "tend_inv r (m1, asc\<lparr>cs_partition_table_head := ts\<rparr>, w)" using is_absent_ok [OF Cons.prems(1) p] by blast
  let ?asc = "asc\<lparr>cs_partition_table_head := ts\<rparr>"
  have v: "cs_node_v ?asc = as @ p # ps" using Cons.prems(2) by simp
  have pos: "take i (cs_node_v asc) @ drop (i + 1) (cs_node_v asc) = as @ ps" using Cons.prems(2,3) by simp
  show ?case
  proof (cases b)
    case True
    let ?asc2 = "?asc\<lparr>cs_node_v := as @ ps\<rparr>"
    obtain m2 where m2: "cl_cluster_node_release m1 p = Some m2" "tend_inv r (m2, ?asc2, w)"
      using remove_node_ok [OF a(2) v] by blast
    have "runs (ping_nodes (m2, ?asc2, w) i ps v) (\<lambda>(v', st). tended r ?asc2 st)"
      by (rule Cons.IH [OF m2(2), of as]) (simp_all add: Cons.prems(3))
    then have "runs (ping_nodes (m2, ?asc2, w) i ps v) (\<lambda>(v', st). tended r asc st)"
      by (rule runs_mono) (use Cons.prems(2) in \<open>auto simp: tended_def untouched_def\<close>)
    then show ?thesis using a(1) True m2(1) pos by (simp add: Let_def)
  next
    case False
    have p1: "p \<in> set (cs_node_v ?asc)" using p by simp
    have "runs (bind_io (cluster_ping_node (m1, ?asc, w) p v) (\<lambda>(v, m, asc, w). do {
         cn \<leftarrow> m_nodes m p;
         ping_nodes (m, asc, w) (i + 1) ps (fold append_unique (cn_sockaddr_in_v cn) v) })) (\<lambda>(v', st). tended r asc st)"
    proof (rule runs_bind [OF cluster_ping_node_ok [OF a(2) p1]], clarify)
      fix v2 m2 asc2 w2
      assume "pinged r ?asc (m2, asc2, w2)"
      then obtain ts2 where q: "tend_inv r (m2, asc2, w2)" "asc2 = ?asc\<lparr>cs_partition_table_head := ts2\<rparr>" by (auto simp: pinged_def)
      have v2: "cs_node_v asc2 = (as @ [p]) @ ps" using q(2) Cons.prems(2) by simp
      then have "p \<in> set (cs_node_v asc2)" by simp
      from tend_inv_node [OF q(1) this] obtain cn where cn: "m_nodes m2 p = Some cn" by blast
      have "i + 1 = length (as @ [p])" using Cons.prems(3) by simp
      from Cons.IH [OF q(1) v2 this, of "fold append_unique (cn_sockaddr_in_v cn) v2"]
      have "runs (ping_nodes (m2, asc2, w2) (i + 1) ps (fold append_unique (cn_sockaddr_in_v cn) v2)) (\<lambda>(v', st). tended r asc st)"
        by (rule runs_mono) (use q(2) in \<open>auto simp: tended_def untouched_def\<close>)
      then show "runs (do { cn \<leftarrow> m_nodes m2 p;
         ping_nodes (m2, asc2, w2) (i + 1) ps (fold append_unique (cn_sockaddr_in_v cn) v2) }) (\<lambda>(v', st). tended r asc st)" using cn by simp
    qed
    then show ?thesis using a(1) False by simp
  qed
qed

lemma tend_flag: "s AND CLS_TENDER_RUNNING = 0 \<Longrightarrow> (s OR CLS_TENDER_RUNNING) AND NOT CLS_TENDER_RUNNING = s"
proof -
  assume a: "s AND CLS_TENDER_RUNNING = 0"
  have "(s OR CLS_TENDER_RUNNING) AND NOT CLS_TENDER_RUNNING = s AND NOT CLS_TENDER_RUNNING" by (simp add: bit.conj_disj_distrib2)
  also have "\<dots> = s AND CLS_TENDER_RUNNING OR s AND NOT CLS_TENDER_RUNNING" using a by simp
  also have "\<dots> = s" by (simp add: bit.conj_disj_distrib [symmetric])
  finally show ?thesis .
qed

lemma tend_inv_settings [simp]:
  "tend_inv r (m, asc\<lparr>cs_state := s\<rparr>, w) = tend_inv r (m, asc, w)"
  "tend_inv r (m, asc\<lparr>cs_found_all := f\<rparr>, w) = tend_inv r (m, asc, w)"
  by (simp_all add: tend_inv_def cluster_refs_def tend_room_def)

lemma cluster_get_n_partitions_ok:
  assumes "tend_inv r (m, asc, w)" and "cs_n_partitions asc = 0 \<longrightarrow> cs_partition_table_head asc = []"
  shows "runs (cluster_get_n_partitions (m, asc, w) v) (\<lambda>st. tend_inv r st \<and>
    (\<exists>n. fst (snd st) = asc\<lparr>cs_n_partitions := n\<rparr> \<and> (cs_n_partitions asc \<noteq> 0 \<longrightarrow> n = cs_n_partitions asc)))"
proof (cases "cs_n_partitions asc = 0")
  case True
  have "runs (n_partitions_loop (m, asc, w) v) (\<lambda>st. tend_inv r st \<and>
    (\<exists>n. fst (snd st) = asc\<lparr>cs_n_partitions := n\<rparr> \<and> (cs_n_partitions asc \<noteq> 0 \<longrightarrow> n = cs_n_partitions asc)))"
    by (rule runs_mono [OF n_partitions_loop_ok [OF assms True]]) (use True in auto)
  then show ?thesis using True by (simp add: cluster_get_n_partitions_def)
next
  case False
  then show ?thesis using assms(1) by (auto simp: cluster_get_n_partitions_def intro: exI [of _ "cs_n_partitions asc"])
qed

definition tend_done :: "(node_ptr \<Rightarrow> nat) \<Rightarrow> cl_cluster \<Rightarrow> tend_state \<Rightarrow> bool" where
  "tend_done r asc st \<longleftrightarrow> tend_inv r st \<and> untouched (fst (snd st)) = untouched asc \<and>
     (cs_n_partitions asc \<noteq> 0 \<longrightarrow> cs_n_partitions (fst (snd st)) = cs_n_partitions asc)"

lemma tend_done_trans:
  "tend_done r asc (m1, asc1, w1) \<Longrightarrow> tend_done r asc1 st \<Longrightarrow> tend_done r asc st"
  by (auto simp: tend_done_def)

lemma explored_done: "explored r asc st \<Longrightarrow> tend_done r asc st"
  by (auto simp: explored_def tend_done_def untouched_def)

lemma tended_done: "tended r asc st \<Longrightarrow> tend_done r asc st"
  by (auto simp: tended_def tend_done_def)

lemma tend_rounds_ok:
  assumes inv: "tend_inv r (m, asc, w)" and wf: "cs_n_partitions asc = 0 \<longrightarrow> cs_partition_table_head asc = []"
  shows "runs (bind_io (explore (m, asc, w) v 0) (\<lambda>(_, st).
       bind_io (cluster_get_n_partitions st v) (\<lambda>(m, asc, w).
         ping_nodes (m, asc, w) 0 (cs_node_v asc) []))) (\<lambda>(v', st). tend_done r asc st)"
proof (rule runs_bind [OF explore_ok [OF inv]], clarify)
  fix k :: nat and m1 asc1 w1
  assume "explored r asc (m1, asc1, w1)"
  then have e: "tend_inv r (m1, asc1, w1)" "tend_done r asc (m1, asc1, w1)"
    "cs_n_partitions asc1 = 0 \<longrightarrow> cs_partition_table_head asc1 = []" using wf explored_done by (auto simp: explored_def)
  show "runs (bind_io (cluster_get_n_partitions (m1, asc1, w1) v) (\<lambda>(m, asc, w).
         ping_nodes (m, asc, w) 0 (cs_node_v asc) [])) (\<lambda>(v', st). tend_done r asc st)"
  proof (rule runs_bind [OF cluster_get_n_partitions_ok [OF e(1,3)]], clarify)
    fix m2 asc2 w2 n
    assume a: "tend_inv r (m2, asc2, w2)" "fst (snd (m2, asc2, w2)) = asc1\<lparr>cs_n_partitions := n\<rparr>"
      "cs_n_partitions asc1 \<noteq> 0 \<longrightarrow> n = cs_n_partitions asc1"
    then have d: "tend_done r asc (m2, asc2, w2)" by (intro tend_done_trans [OF e(2)]) (auto simp: tend_done_def untouched_def)
    show "runs (ping_nodes (m2, asc2, w2) 0 (cs_node_v asc2) []) (\<lambda>(v', st). tend_done r asc st)"
      by (rule runs_mono [OF ping_nodes_ok [OF a(1), of "[]"]]) (use tend_done_trans [OF d tended_done] in auto)
  qed
qed

lemma bind_io_assoc: "bind_io (bind_io c f) g = bind_io c (\<lambda>x. bind_io (f x) g)"
proof (cases c)
  case (Some y)
  then show ?thesis by (cases y) simp_all
qed simp

lemma rounds_assoc: "bind_io (bind_io c (\<lambda>(k, st). bind_io (g st) (\<lambda>(m, asc, w). h m asc w))) t =
    bind_io c (\<lambda>(k, st). bind_io (g st) (\<lambda>(m, asc, w). bind_io (h m asc w) t))"
  by (simp add: bind_io_assoc split_def)

lemma untouched_state: "untouched (asc\<lparr>cs_state := s\<rparr>) = (untouched asc)\<lparr>cs_state := s\<rparr>"
  by (cases asc) (simp add: untouched_def)

lemma cluster_tend_ok:
  assumes inv: "tend_inv r (m, asc, w)" and wf: "cs_n_partitions asc = 0 \<longrightarrow> cs_partition_table_head asc = []"
    and hosts: "length (cs_host_str_v asc) = length (cs_host_port_v asc)"
  shows "runs (cluster_tend (m, asc, w)) (tend_done r asc)"
proof (cases "cs_state asc AND CLS_FREED \<noteq> 0 \<or> cs_state asc AND CLS_TENDER_RUNNING \<noteq> 0")
  case True
  then show ?thesis using inv by (auto simp: cluster_tend_def tend_done_def)
next
  case False
  let ?asc = "asc\<lparr>cs_state := cs_state asc OR CLS_TENDER_RUNNING\<rparr>"
  have flag: "(cs_state asc OR CLS_TENDER_RUNNING) AND NOT CLS_TENDER_RUNNING = cs_state asc" using False tend_flag by blast
  have last: "tend_done r asc (m3, asc3\<lparr>cs_state := cs_state asc3 AND NOT CLS_TENDER_RUNNING\<rparr>, w3)" if "tend_done r ?asc (m3, asc3, w3)" for m3 asc3 w3
  proof -
    have "untouched asc3 = untouched ?asc" using that by (simp add: tend_done_def)
    then have "cs_state (untouched asc3) = cs_state (untouched ?asc)" "(untouched asc3)\<lparr>cs_state := cs_state asc\<rparr> = (untouched ?asc)\<lparr>cs_state := cs_state asc\<rparr>" by simp_all
    then have "cs_state asc3 = cs_state asc OR CLS_TENDER_RUNNING" "untouched (asc3\<lparr>cs_state := cs_state asc\<rparr>) = untouched asc"
      unfolding untouched_state [symmetric] by (simp_all add: untouched_def)
    then show ?thesis using that flag by (auto simp: tend_done_def)
  qed
  let ?tail = "\<lambda>(v, m, asc, w). bind_io (if cs_follow asc
                then bind_io (explore (m, asc, w) v 0) (\<lambda>(n_new, m, asc, w).
                       Some (Returned (m, if n_new = 0 then asc\<lparr>cs_found_all := True\<rparr> else asc, w)))
                else Some (Returned (m, asc, w))) (\<lambda>(m, asc, w).
         Some (Returned (m, asc\<lparr>cs_state := cs_state asc AND NOT CLS_TENDER_RUNNING\<rparr>, w)))"
  have tail: "runs (?tail (v, m2, asc2, w2)) (tend_done r asc)" if d: "tend_done r ?asc (m2, asc2, w2)" for v m2 asc2 w2
  proof -
    have "runs (if cs_follow asc2
                then bind_io (explore (m2, asc2, w2) v 0) (\<lambda>(n_new, m, asc, w).
                       Some (Returned (m, if n_new = 0 then asc\<lparr>cs_found_all := True\<rparr> else asc, w)))
                else Some (Returned (m2, asc2, w2))) (tend_done r ?asc)"
    proof (cases "cs_follow asc2")
      case True
      have i: "tend_inv r (m2, asc2, w2)" using d by (simp add: tend_done_def)
      have "runs (bind_io (explore (m2, asc2, w2) v 0) (\<lambda>(n_new, m, asc, w).
                       Some (Returned (m, if n_new = 0 then asc\<lparr>cs_found_all := True\<rparr> else asc, w)))) (tend_done r ?asc)"
        by (rule runs_bind [OF explore_ok [OF i]])
          (use tend_done_trans [OF d explored_done] in \<open>auto simp: tend_done_def untouched_def\<close>)
      then show ?thesis using True by simp
    qed (use d in simp)
    then show ?thesis unfolding prod.case by (rule runs_bind) (use last in auto)
  qed
  have inv1: "tend_inv r (m, ?asc, w\<lparr>n_resolve := rs\<rparr>)" for rs using inv by simp
  have rounds: "runs (bind_io (explore (m, ?asc, w\<lparr>n_resolve := rs\<rparr>) v 0) (\<lambda>(_, st).
       bind_io (cluster_get_n_partitions st v) (\<lambda>(m, asc, w).
         bind_io (ping_nodes (m, asc, w) 0 (cs_node_v asc) []) ?tail))) (tend_done r asc)" for rs v
  proof -
    have wf1: "cs_n_partitions ?asc = 0 \<longrightarrow> cs_partition_table_head ?asc = []" using wf by simp
    have t: "runs (?tail x) (tend_done r asc)" if "(\<lambda>(v', st). tend_done r ?asc st) x" for x :: "sockaddr list \<times> tend_state"
      using that tail by (cases x) (auto simp only: prod.case)
    show ?thesis using runs_bind [OF tend_rounds_ok [OF inv1 [of rs] wf1, of v], of ?tail "tend_done r asc"] t
      unfolding rounds_assoc by blast
  qed
  have eq: "cluster_tend (m, asc, w) = bind_io (hosts_loop w ?asc (cs_host_str_v asc) (cs_host_port_v asc) []) (\<lambda>(v, w).
       bind_io (explore (m, ?asc, w) v 0) (\<lambda>(_, st).
       bind_io (cluster_get_n_partitions st v) (\<lambda>(m, asc, w).
         bind_io (ping_nodes (m, asc, w) 0 (cs_node_v asc) []) ?tail)))"
    unfolding cluster_tend_def prod.case Let_def if_not_P [OF False] cl_cluster.simps
    by (intro arg_cong2 [where f = bind_io] refl ext) (auto)
  show ?thesis unfolding eq by (rule runs_bind [OF hosts_loop_ok [OF hosts]]) (use rounds in auto)
qed

subsection \<open>Properties\<close>

text \<open>C3: A tend does not fault, whatever the resolver and the servers answer within the limits below: all reads and
  writes stay inside their buffers and no node is used after it was freed. When it ends, every reference count is
  the number of references (those of other threads included), no node is in the list twice,
  the tables have the size of the cluster, the number of partitions, once known, is the same, and
  the hosts, the settings and the flag of the running tender are as they were. The limits are those of the code: no answer to an info
  request is empty (\<open>empty_answer_faults\<close>), and no answer to the request of a ping announces 16383 bytes to 512 KB
  (\<open>info_zero_misplaced\<close>); failed calls set an error number other than 0, requests have a timeout, \<open>malloc\<close> gives
  memory that is not in use, and the tables, with all that the
  answers to the pings can add to them, have at most \<open>2 ^ 31\<close> places for references, so that no counter of 32 bits wraps around.\<close>

theorem tend_safe:
  assumes "mem_ok m (\<lambda>q. cluster_refs asc q + r q)" and "\<And>q. r q < 2 ^ 30" and "distinct (cs_node_v asc)"
    and "tables_wf (unat (cs_n_partitions asc)) (cs_partition_table_head asc)"
    and "cs_n_partitions asc = 0 \<longrightarrow> cs_partition_table_head asc = []"
    and "length (cs_host_str_v asc) = length (cs_host_port_v asc)"
    and "cs_info_timeout asc \<noteq> 0" and "\<And>m p. n_alloc w m = Some p \<Longrightarrow> m_nodes m p = None"
    and "\<forall>e \<in> set (n_infos w). script_fine (ie_write e) \<and> script_fine (ie_header e) \<and> script_fine (ie_body e)"
    and "\<forall>e \<in> set (n_infos w). announced (delivered (s_ticks (ie_header e))) \<noteq> 0"
    and "\<forall>e \<in> set (n_pings w). script_fine (pe_write e) \<and> script_fine (pe_header e) \<and> script_fine (pe_body e)"
    and "\<forall>e \<in> set (n_pings w). announced (delivered (s_ticks (pe_header e))) < 16383 \<or> 512 * 1024 < announced (delivered (s_ticks (pe_header e)))"
    and "2 * unat (cs_n_partitions asc) * length (cs_partition_table_head asc) + 12 * INFO_STACK_BUF_SIZE * length (n_pings w) \<le> 2 ^ 31"
  shows "case cluster_tend (m, asc, w) of None \<Rightarrow> False | Some Waiting \<Rightarrow> True
    | Some (Returned (m', asc', w')) \<Rightarrow> mem_ok m' (\<lambda>q. cluster_refs asc' q + r q) \<and> distinct (cs_node_v asc') \<and>
        tables_wf (unat (cs_n_partitions asc')) (cs_partition_table_head asc') \<and>
        (cs_n_partitions asc \<noteq> 0 \<longrightarrow> cs_n_partitions asc' = cs_n_partitions asc) \<and> untouched asc' = untouched asc"
proof -
  have "net_fine w" unfolding net_fine_def info_fine_def answer_size_def ping_fine_def
    using assms(8-12) by (simp add: INFO_STACK_BUF_SIZE_def)
  then have inv: "tend_inv r (m, asc, w)" using assms(1-4,7,13) by (simp add: tend_inv_def tend_room_def)
  have "runs (cluster_tend (m, asc, w)) (\<lambda>(m', asc', w'). mem_ok m' (\<lambda>q. cluster_refs asc' q + r q) \<and> distinct (cs_node_v asc') \<and>
        tables_wf (unat (cs_n_partitions asc')) (cs_partition_table_head asc') \<and>
        (cs_n_partitions asc \<noteq> 0 \<longrightarrow> cs_n_partitions asc' = cs_n_partitions asc) \<and> untouched asc' = untouched asc)"
    by (rule runs_mono [OF cluster_tend_ok [OF inv assms(5,6)]]) (auto simp: tend_done_def tend_inv_def)
  then show ?thesis by (simp add: runs_def)
qed

definition sample_ping :: "block \<Rightarrow> block \<Rightarrow> ping_env" where
  "sample_ping header body = \<lparr>pe_conns = (\<lambda>_. \<lparr>ct_socket = 40, ct_getfl = True, ct_setfl = True, ct_connect = None\<rparr>),
     pe_write = sample_script [42], pe_header = sample_script [header], pe_body = sample_script [body], pe_malloc = None\<rparr>"

definition sample_net :: net where
  "sample_net = \<lparr>n_resolve = [sample_resolve], n_infos = [sample_info 13 [2, 1, 0, 0, 0, 0, 0, 7] (str_lit ''node'' @ [9, 66, 10])],
     n_pings = [sample_ping [2, 1, 0, 0, 0, 0, 0, 3] [97, 9, 10]], n_alloc = (\<lambda>m. if m_nodes m 3 = None then Some 3 else None),
     n_stack = (\<lambda>_. 0)\<rparr>"

lemma sample_tend: "tend_inv (\<lambda>_. 0) (sample_mem, sample_cluster, sample_net)"
proof -
  have "net_fine sample_net"
    by (simp add: net_fine_def sample_net_def info_fine_def sample_info_def sample_script_fine ping_fine_def sample_ping_def,
      simp add: answer_size_def announced_def sample_script_def INFO_STACK_BUF_SIZE_def)
  then show ?thesis using sample_cluster_ok sample_cluster_wf
    by (simp add: tend_inv_def cluster_wf_def, simp add: tend_room_def sample_cluster_def sample_tables_def sample_net_def INFO_STACK_BUF_SIZE_def)
qed

theorem tend_safe_witness:
  "case cluster_tend (sample_mem, sample_cluster, sample_net) of None \<Rightarrow> False | Some Waiting \<Rightarrow> True
    | Some (Returned (m', asc', w')) \<Rightarrow> mem_ok m' (\<lambda>q. cluster_refs asc' q + 0) \<and> distinct (cs_node_v asc') \<and>
        tables_wf (unat (cs_n_partitions asc')) (cs_partition_table_head asc') \<and>
        (cs_n_partitions sample_cluster \<noteq> 0 \<longrightarrow> cs_n_partitions asc' = cs_n_partitions sample_cluster) \<and> untouched asc' = untouched sample_cluster"
proof (rule tend_safe)
  from tend_invD [OF sample_tend] show "mem_ok sample_mem (\<lambda>q. cluster_refs sample_cluster q + 0)" "distinct (cs_node_v sample_cluster)"
    "tables_wf (unat (cs_n_partitions sample_cluster)) (cs_partition_table_head sample_cluster)" "cs_info_timeout sample_cluster \<noteq> 0"
    "2 * unat (cs_n_partitions sample_cluster) * length (cs_partition_table_head sample_cluster) +
      12 * INFO_STACK_BUF_SIZE * length (n_pings sample_net) \<le> 2 ^ 31" by (simp_all add: tend_room_def)
qed (auto simp: sample_cluster_def sample_net_def sample_info_def sample_script_fine sample_ping_def,
  auto simp: announced_def sample_script_def split: if_splits)

text \<open>The byte of zero that ends the text of a response is put one place too far. The byte in between is what
  the stack buffer held before, so the text that is parsed may go on after the response; and a response of
  16383 bytes up to 512 KB makes the client write behind its buffer.\<close>

theorem info_zero_misplaced:
  assumes "script_fine (pe_body e)" and "timeout_ms \<noteq> 0" and "0 < sz" and "length stack_buf = INFO_STACK_BUF_SIZE"
    and "pe_malloc e = Some g" and "buf = (if sz + 1 > INFO_STACK_BUF_SIZE then map g [0..<sz + 1] else stack_buf)"
    and "cf_socket_read_timeout (pe_body e) (Some buf) sz 0 timeout_ms = Some (Returned (0, b))"
  shows "get_info_body e cn closed timeout_ms sz stack_buf =
    (if sz + 1 < INFO_STACK_BUF_SIZE
     then (let rbuf = (take sz (delivered (s_ticks (pe_body e))) @ drop sz stack_buf)[sz + 1 := 0] in Some (Returned (Some rbuf, cn, closed, rbuf)))
     else None)"
proof -
  have l: "sz \<le> length buf" using assms(4,6) by (auto split: if_splits)
  from info_read_ok [OF assms(1-3) l, of True "[]"] assms(2,7) obtain d where d: "b = Some (d @ drop (length d) buf)" "length d \<le> sz"
    "length d = sz \<and> d = take sz (delivered (s_ticks (pe_body e)))" by (auto simp: info_read_def)
  let ?d = "take sz (delivered (s_ticks (pe_body e)))"
  have b: "b = Some (?d @ drop sz buf)" "length ?d = sz" using d by metis+
  have m: "malloc (pe_malloc e) (sz + 1) = Some (map g [0..<sz + 1])" using assms(5) by (simp add: malloc_def)
  show ?thesis
  proof (cases "sz + 1 < INFO_STACK_BUF_SIZE")
    case True
    then have "store (?d @ drop sz buf) (sz + 1) [0] = Some ((?d @ drop sz buf)[sz + 1 := 0])"
      using b(2) assms(4,6) by (simp add: store_def upd_conv_take_nth_drop)
    then show ?thesis using True assms(6,7) b(1) by (simp add: get_info_body_def Let_def)
  next
    case False
    have "length (?d @ drop sz buf) \<le> sz + 1" using False b(2) assms(4,6) by simp
    then have "store (?d @ drop sz buf) (sz + 1) [0] = None" by (simp add: store_def)
    then show ?thesis using False assms(6,7) b(1) m by (auto simp: get_info_body_def Let_def)
  qed
qed

lemma sample_body: "script_fine (pe_body (sample_ping h b))" "s_ticks (pe_body (sample_ping h b)) = s_ticks (sample_script [b])"
  by (simp_all add: sample_ping_def sample_script_fine)

theorem info_zero_misplaced_witness:
  "get_info_body (sample_ping [] [97, 9, 10]\<lparr>pe_malloc := Some (\<lambda>_. 0)\<rparr>) (sample_node 1) [] 100 3 (replicate INFO_STACK_BUF_SIZE 65) =
    (if (3 :: nat) + 1 < INFO_STACK_BUF_SIZE
     then (let rbuf = (take 3 (delivered (s_ticks (sample_script [[97, 9, 10 :: u8]]))) @ drop 3 (replicate INFO_STACK_BUF_SIZE 65))[3 + 1 := 0]
           in Some (Returned (Some rbuf, sample_node 1, [], rbuf)))
     else None)"
proof -
  let ?e = "sample_ping [] [97, 9, 10]\<lparr>pe_malloc := Some (\<lambda>_. 0)\<rparr>" and ?b = "replicate INFO_STACK_BUF_SIZE 65 :: block"
  have r: "cf_socket_read_timeout (pe_body ?e) (Some ?b) 3 0 100 = Some (Returned (0, Some ([97, 9, 10] @ drop 3 ?b)))"
    by (simp add: sample_ping_def cf_socket_read_timeout_def sample_script_def attempt_deadline_def store_def INFO_STACK_BUF_SIZE_def)
  have "get_info_body ?e (sample_node 1) [] 100 3 ?b =
    (if 3 + 1 < INFO_STACK_BUF_SIZE
     then (let rbuf = (take 3 (delivered (s_ticks (pe_body ?e))) @ drop 3 ?b)[3 + 1 := 0] in Some (Returned (Some rbuf, sample_node 1, [], rbuf)))
     else None)"
    by (rule info_zero_misplaced [OF _ _ _ _ _ _ r]) (simp_all add: sample_body INFO_STACK_BUF_SIZE_def)
  then show ?thesis by (simp add: sample_body)
qed

text \<open>Giving back references leaves the counters of the nodes that remain.\<close>

definition same_absent :: "mem \<Rightarrow> mem \<Rightarrow> bool" where
  "same_absent m m' \<longleftrightarrow> (\<forall>q n'. m_nodes m' q = Some n' \<longrightarrow> (\<exists>n. m_nodes m q = Some n \<and> cn_intervals_absent n' = cn_intervals_absent n))"

lemma same_absent_trans: "same_absent m1 m2 \<Longrightarrow> same_absent m2 m3 \<Longrightarrow> same_absent m1 m3"
  unfolding same_absent_def by metis

lemma same_absent_refl [simp]: "same_absent m m"
  by (simp add: same_absent_def)

lemma same_absent_release: "cl_cluster_node_release m p = Some m' \<Longrightarrow> same_absent m m'"
  by (auto simp: cl_cluster_node_release_def cf_client_rc_release_def cf_client_rc_free_def put_node_def close_all_def bind_eq_Some_conv
    same_absent_def Let_def split: if_splits)

lemma same_absent_partitions: "unprole_partitions m node ps = Some (m', ps') \<Longrightarrow> same_absent m m'"
proof (induction ps arbitrary: m ps')
  case (Cons p ps)
  then obtain m1 p1 ps1 where u: "unprole m node p = Some (m1, p1)" "unprole_partitions m1 node ps = Some (m', ps1)"
    by (auto simp: bind_eq_Some_conv)
  have "same_absent m m1" using u(1) same_absent_release by (auto simp: unprole_def bind_eq_Some_conv split: if_splits)
  then show ?case using Cons.IH [OF u(2)] same_absent_trans by blast
qed simp

lemma same_absent_tables: "unprole_tables m node ts = Some (m', ts') \<Longrightarrow> same_absent m m'"
proof (induction ts arbitrary: m ts')
  case (Cons t ts)
  then obtain m1 ps1 ts1 where u: "unprole_partitions m node (pt_partitions t) = Some (m1, ps1)" "unprole_tables m1 node ts = Some (m', ts1)"
    by (auto simp: bind_eq_Some_conv)
  show ?case using same_absent_partitions [OF u(1)] Cons.IH [OF u(2)] same_absent_trans by blast
qed simp

lemma unprole_tables_is_present:
  "\<not> is_master p ts \<Longrightarrow> cl_partition_table_is_node_present m ts p = map_option (Pair False) (unprole_tables m p ts)"
  by (cases "unprole_tables m p ts") (auto simp: cl_partition_table_is_node_present_def)

text \<open>C25: A node that is the master of no partition and has been out of the tables for longer than the limit leaves
  the cluster in the next round: the list and the tables do not refer to it any more, and when no other
  thread does, it is freed.\<close>

theorem superseded_node_dropped:
  assumes "tend_inv r (m, asc, w)" and "cs_node_v asc = as @ p # ps" and "m_nodes m p = Some cn"
    and "cn_intervals_absent cn > MAX_INTERVALS_ABSENT" and "\<not> is_master p (cs_partition_table_head asc)"
  shows "\<exists>m' asc'. ping_nodes (m, asc, w) (length as) (p # ps) v = ping_nodes (m', asc', w) (length as) ps v \<and>
    tend_inv r (m', asc', w) \<and> cs_node_v asc' = as @ ps \<and> cluster_refs asc' p = 0 \<and> (r p = 0 \<longrightarrow> m_nodes m' p = None)"
proof -
  let ?ts = "cs_partition_table_head asc"
  let ?ts' = "map (unproled_table p) ?ts"
  let ?asc = "asc\<lparr>cs_partition_table_head := ?ts'\<rparr>"
  let ?asc2 = "?asc\<lparr>cs_node_v := as @ ps\<rparr>"
  have "mem_ok m (\<lambda>q. held (table_ptrs ?ts) q + (held (cs_node_v asc) q + r q))"
    using tend_invD(1) [OF assms(1)] by (simp add: cluster_refs_def ac_simps)
  from unprole_tables_ok [OF this, of p] obtain m0 where m0: "unprole_tables m p ?ts = Some (m0, ?ts')" by blast
  have p: "p \<in> set (cs_node_v asc)" using assms(2) by simp
  have nz: "cn_intervals_absent cn \<noteq> 0" using assms(4) by auto
  obtain b m1 ts where a: "is_absent m asc p = Some (b, m1, asc\<lparr>cs_partition_table_head := ts\<rparr>)"
    "tend_inv r (m1, asc\<lparr>cs_partition_table_head := ts\<rparr>, w)" using is_absent_ok [OF assms(1) p] by blast
  then have e: "asc\<lparr>cs_partition_table_head := ts\<rparr> = ?asc \<and>
      (\<exists>n. m_nodes m0 p = Some n \<and> b = (cn_intervals_absent n > MAX_INTERVALS_ABSENT))"
    using assms(3) nz m0 by (auto simp: is_absent_def unprole_tables_is_present [OF assms(5)] bind_eq_Some_conv)
  then have "cs_partition_table_head (asc\<lparr>cs_partition_table_head := ts\<rparr>) = cs_partition_table_head ?asc" by (simp only:)
  then have ts: "ts = ?ts'" by simp
  have b: "\<exists>n. m_nodes m0 p = Some n \<and> b = (cn_intervals_absent n > MAX_INTERVALS_ABSENT)" using e by blast
  then have b: "b" using same_absent_tables [OF m0] assms(3,4) unfolding same_absent_def by (metis option.inject)
  have inv: "tend_inv r (m1, ?asc, w)" using a(2) ts by simp
  have v: "cs_node_v ?asc = as @ p # ps" using assms(2) by simp
  obtain m2 where m2: "cl_cluster_node_release m1 p = Some m2" "tend_inv r (m2, ?asc2, w)" using remove_node_ok [OF inv v] by blast
  have "p \<notin> set (as @ ps)" using tend_invD(3) [OF assms(1)] assms(2) by auto
  then have "held (as @ ps) p = 0" by (auto simp: held_def filter_empty_conv)
  then have z: "cluster_refs ?asc2 p = 0" using unproled_tables_clean [OF assms(5)] by (simp add: cluster_refs_def)
  have "r p = 0 \<longrightarrow> m_nodes m2 p = None" using mem_ok_live [OF tend_invD(1) [OF m2(2)], of p] z by auto
  moreover have "ping_nodes (m, asc, w) (length as) (p # ps) v = ping_nodes (m2, ?asc2, w) (length as) ps v"
    using a(1) ts b m2(1) assms(2) by (simp add: Let_def)
  ultimately show ?thesis using m2(2) z by (intro exI [of _ m2] exI [of _ ?asc2]) (simp del: ping_nodes.simps)
qed

definition sample_old :: cl_cluster_node where "sample_old = (sample_node 1)\<lparr>cn_intervals_absent := 2\<rparr>"

lemma sample_old_absent: "cn_intervals_absent sample_old > MAX_INTERVALS_ABSENT"
  by (simp add: sample_old_def sample_node_def MAX_INTERVALS_ABSENT_def)

lemma sample_old_inv: "tend_inv (\<lambda>_. 0) (put_node sample_mem 2 sample_old, sample_cluster, sample_net)"
proof -
  have "2 \<in> set (cs_node_v sample_cluster)" by (simp add: sample_cluster_def)
  from tend_inv_node [OF sample_tend this] obtain n where n: "m_nodes sample_mem 2 = Some n" "node_ok n"
    "\<And>n'. node_ok n' \<Longrightarrow> cn_rc n' = cn_rc n \<Longrightarrow> tend_inv (\<lambda>_. 0) (put_node sample_mem 2 n', sample_cluster, sample_net)" by blast
  have "n = sample_node 1" using n(1) by (simp add: sample_mem_def)
  then show ?thesis using n(2) by (intro n(3)) (simp_all add: sample_old_def node_fd_ok)
qed

theorem superseded_node_dropped_witness:
  "\<exists>m' asc'. ping_nodes (put_node sample_mem 2 sample_old, sample_cluster, sample_net) (length [1 :: node_ptr]) [2] [] =
      ping_nodes (m', asc', sample_net) (length [1 :: node_ptr]) [] [] \<and>
    tend_inv (\<lambda>_. 0) (m', asc', sample_net) \<and> cs_node_v asc' = [1] @ [] \<and> cluster_refs asc' 2 = 0 \<and>
    ((\<lambda>_. 0 :: nat) (2 :: node_ptr) = 0 \<longrightarrow> m_nodes m' 2 = None)"
  by (rule superseded_node_dropped [OF sample_old_inv _ _ sample_old_absent])
    (simp_all add: sample_cluster_def put_node_def is_master_def sample_tables_def empty_partition_def)

end
