(* ===== verification/Cl_Registry.thy ===== *)
theory Cl_Registry
  imports Cl_Tend Cl_Transaction
begin

section \<open>The registry of clusters (\<open>src/cl_cluster.c\<close>)\<close>

text \<open>
  The clusters of the process: a list (\<open>Cf_Ll\<close> shows that the linked list behaves as one) of
  pointers to cluster objects, each with a reference count, over the common memory of nodes.
  Here are the calls that make, share, fill and destroy clusters, and those that ask a cluster
  for its nodes. An operation under the lock of the list is one step; \<open>citrusleaf_cluster_destroy\<close>
  waits for a running tender, so it is given what the other threads do while it sleeps.
\<close>

record registry =
  g_clust_initialized :: bool
  cluster_ll :: "nat list"
  clusters :: "nat \<Rightarrow> cl_cluster option"
  rg_mem :: mem

definition put_cluster :: "registry \<Rightarrow> nat \<Rightarrow> cl_cluster \<Rightarrow> registry" where
  "put_cluster rg p asc = rg\<lparr>clusters := (clusters rg)(p \<mapsto> asc)\<rparr>"

subsection \<open>Adding hosts\<close>

definition CITRUSLEAF_OK :: int where "CITRUSLEAF_OK = 0"
definition CITRUSLEAF_FAIL_CLIENT :: int where "CITRUSLEAF_FAIL_CLIENT = - 1"

definition short :: "int \<Rightarrow> int" where "short x = sint (word_of_int x :: u16)"

text \<open>The two vectors of hosts and ports are walked together; \<open>conv\<close> is the type of the port in the comparison.\<close>

fun has_host :: "(int \<Rightarrow> int) \<Rightarrow> block list \<Rightarrow> int list \<Rightarrow> block \<Rightarrow> int \<Rightarrow> bool option" where
  "has_host conv [] ports host port = Some False"
| "has_host conv (h # hs) [] host port = None"
| "has_host conv (h # hs) (p # ports) host port =
     (if host = h \<and> port = conv p then Some True else has_host conv hs ports host port)"

text \<open>The tends of a new host until the cluster is known or the time is over. The clock gives its times one by one.\<close>

definition found_all :: "tend_state \<Rightarrow> bool" where
  "found_all st = cs_found_all (fst (snd st))"

fun tend_until :: "u64 \<Rightarrow> u32 \<Rightarrow> u64 list \<Rightarrow> tend_state \<Rightarrow> tend_state outcome option" where
  "tend_until start timeout_ms [] st = Some Waiting"
| "tend_until start timeout_ms (now # ts) st =
     bind_io (if found_all st then Some (Returned st) else cluster_tend st) (\<lambda>st.
       if \<not> found_all st \<and> now - start < ucast timeout_ms then tend_until start timeout_ms ts st
       else Some (Returned st))"

fun any_known :: "mem \<Rightarrow> node_ptr list \<Rightarrow> sockaddr list \<Rightarrow> bool option" where
  "any_known m ps [] = Some False"
| "any_known m ps (sa # sas) = do {
     r \<leftarrow> cl_cluster_node_get_byaddr m ps sa;
     b \<leftarrow> any_known m ps sas;
     Some (r \<noteq> None \<or> b) }"

text \<open>\<open>clock\<close> starts with the time at which the tends begin.\<close>

definition add_host_tends :: "u64 list \<Rightarrow> int \<Rightarrow> tend_state \<Rightarrow> tend_state outcome option" where
  "add_host_tends clock timeout_ms st =
     bind_io (cluster_tend st) (\<lambda>st.
       let timeout_ms = (if timeout_ms = 0 then 100 else timeout_ms) in
       if timeout_ms > 0 then
         (case clock of [] \<Rightarrow> Some Waiting
          | start # ts \<Rightarrow> tend_until start (word_of_int timeout_ms) ts st)
       else Some (Returned st))"

definition citrusleaf_cluster_add_host :: "u64 list \<Rightarrow> tend_state \<Rightarrow> block \<Rightarrow> int \<Rightarrow> int \<Rightarrow> (int \<times> tend_state) outcome option" where
  "citrusleaf_cluster_add_host clock st host_in port timeout_ms = (let (m, asc, w) = st; port = short port in do {
     found \<leftarrow> has_host id (cs_host_str_v asc) (cs_host_port_v asc) host_in port;
     if found then Some (Returned (CITRUSLEAF_OK, m, asc, w))
     else case n_resolve w of [] \<Rightarrow> Some Waiting
     | resolve # rs \<Rightarrow>
         (case cl_lookup resolve (Some (cs_host_addr_map_v asc)) host_in port (Some []) of
            Waiting \<Rightarrow> Some Waiting
          | Returned (rv, v) \<Rightarrow> do {
              v \<leftarrow> v;
              let w = w\<lparr>n_resolve := rs\<rparr>;
              if rv \<noteq> 0 then Some (Returned (CITRUSLEAF_FAIL_CLIENT, m, asc, w))
              else
                let asc = asc\<lparr>cs_host_str_v := cs_host_str_v asc @ [host_in], cs_host_port_v := cs_host_port_v asc @ [port],
                      cs_found_all := False\<rparr> in
                bind_io (add_host_tends clock timeout_ms (m, asc, w)) (\<lambda>(m, asc, w). do {
                  reacheable \<leftarrow> any_known m (cs_node_v asc) v;
                  Some (Returned (if reacheable then CITRUSLEAF_OK else CITRUSLEAF_FAIL_TIMEOUT, m, asc, w)) }) }) })"

subsection \<open>Making and destroying clusters\<close>

text \<open>The pointer of a new cluster, when the allocation succeeds.\<close>

definition cluster_create :: "nat option \<Rightarrow> registry \<Rightarrow> (nat \<times> registry) option" where
  "cluster_create alloc rg =
     (case (alloc, citrusleaf_cluster_create (g_clust_initialized rg) (alloc \<noteq> None)) of
        (Some p, Some asc) \<Rightarrow> Some (p, put_cluster (rg\<lparr>cluster_ll := cluster_ll rg @ [p]\<rparr>) p asc)
      | _ \<Rightarrow> None)"

text \<open>While a tender runs, the caller sleeps, and the others take a step each time.\<close>

fun destroy_wait :: "(registry \<Rightarrow> registry) list \<Rightarrow> registry \<Rightarrow> nat \<Rightarrow> registry outcome option" where
  "destroy_wait [] rg p = do {
     asc \<leftarrow> clusters rg p;
     Some (if cs_state asc AND CLS_TENDER_RUNNING \<noteq> 0 then Waiting else Returned rg) }"
| "destroy_wait (f # fs) rg p = do {
     asc \<leftarrow> clusters rg p;
     if cs_state asc AND CLS_TENDER_RUNNING \<noteq> 0 then destroy_wait fs (f rg) p else Some (Returned rg) }"

definition citrusleaf_cluster_destroy :: "(registry \<Rightarrow> registry) list \<Rightarrow> registry \<Rightarrow> nat \<Rightarrow> registry outcome option" where
  "citrusleaf_cluster_destroy others rg p =
     bind_io (destroy_wait others (rg\<lparr>cluster_ll := remove1 p (cluster_ll rg)\<rparr>) p) (\<lambda>rg. do {
       asc \<leftarrow> clusters rg p;
       let asc = asc\<lparr>cs_state := cs_state asc OR CLS_FREED\<rparr>;
       m \<leftarrow> release_many cl_cluster_node_release (rg_mem rg) (cs_node_v asc);
       m \<leftarrow> cl_partition_table_destroy_all m (cs_partition_table_head asc);
       Some (Returned (rg\<lparr>rg_mem := m, clusters := (clusters rg)(p := None)\<rparr>)) })"

text \<open>The result has the new value of the pointer of the caller.\<close>

definition citrusleaf_cluster_release_or_destroy ::
  "(registry \<Rightarrow> registry) list \<Rightarrow> registry \<Rightarrow> nat option \<Rightarrow> (nat option \<times> registry) outcome option" where
  "citrusleaf_cluster_release_or_destroy others rg asc_p =
     (case asc_p of None \<Rightarrow> Some (Returned (None, rg))
      | Some p \<Rightarrow> do {
          asc \<leftarrow> clusters rg p;
          if cs_ref_count asc > 0 then
            let rg = put_cluster rg p (asc\<lparr>cs_ref_count := cs_ref_count asc - 1\<rparr>) in
            if cs_ref_count asc - 1 = 0 then
              bind_io (citrusleaf_cluster_destroy others rg p) (\<lambda>rg. Some (Returned (None, rg)))
            else Some (Returned (Some p, rg))
          else Some (Returned (Some p, rg)) })"

fun find_cluster :: "(nat \<Rightarrow> cl_cluster option) \<Rightarrow> (int \<Rightarrow> int) \<Rightarrow> nat list \<Rightarrow> block \<Rightarrow> int \<Rightarrow> nat option option" where
  "find_cluster cs conv [] host port = Some None"
| "find_cluster cs conv (p # ps) host port = do {
     asc \<leftarrow> cs p;
     b \<leftarrow> has_host conv (cs_host_str_v asc) (cs_host_port_v asc) host port;
     if b then Some (Some p) else find_cluster cs conv ps host port }"

definition add_host_to :: "u64 list \<Rightarrow> net \<Rightarrow> registry \<Rightarrow> nat \<Rightarrow> block \<Rightarrow> int \<Rightarrow> int \<Rightarrow> (int \<times> net \<times> registry) outcome option" where
  "add_host_to clock w rg p host port timeout_ms = do {
     asc \<leftarrow> clusters rg p;
     bind_io (citrusleaf_cluster_add_host clock (rg_mem rg, asc, w) host port timeout_ms) (\<lambda>(rv, m, asc, w).
       Some (Returned (rv, w, put_cluster (rg\<lparr>rg_mem := m\<rparr>) p asc))) }"

definition citrusleaf_cluster_get_or_create ::
  "u64 list \<Rightarrow> (registry \<Rightarrow> registry) list \<Rightarrow> nat option \<Rightarrow> net \<Rightarrow> registry \<Rightarrow> block \<Rightarrow> int \<Rightarrow> int \<Rightarrow>
     (nat option \<times> net \<times> registry) outcome option" where
  "citrusleaf_cluster_get_or_create clock others alloc w rg host port timeout_ms =
     (if \<not> g_clust_initialized rg then Some (Returned (None, w, rg))
      else do {
        r \<leftarrow> find_cluster (clusters rg) short (cluster_ll rg) host (short port);
        case r of Some p \<Rightarrow> do {
            asc \<leftarrow> clusters rg p;
            Some (Returned (Some p, w, put_cluster rg p (asc\<lparr>cs_ref_count := cs_ref_count asc + 1\<rparr>))) }
        | None \<Rightarrow>
            (case cluster_create alloc rg of None \<Rightarrow> Some (Returned (None, w, rg))
             | Some (p, rg) \<Rightarrow>
                 bind_io (add_host_to clock w rg p host port timeout_ms) (\<lambda>(rv, w, rg).
                   if rv \<noteq> 0 then
                     bind_io (citrusleaf_cluster_release_or_destroy others rg (Some p)) (\<lambda>(_, rg). Some (Returned (None, w, rg)))
                   else Some (Returned (Some p, w, rg)))) })"

text \<open>Shutting down: one sequence of steps of the others for each cluster that is destroyed.\<close>

fun citrusleaf_cluster_shutdown :: "(registry \<Rightarrow> registry) list list \<Rightarrow> registry \<Rightarrow> registry outcome option" where
  "citrusleaf_cluster_shutdown [] rg = Some (if cluster_ll rg = [] then Returned rg else Waiting)"
| "citrusleaf_cluster_shutdown (fs # fss) rg =
     (case cluster_ll rg of [] \<Rightarrow> Some (Returned rg)
      | p # ps \<Rightarrow> bind_io (citrusleaf_cluster_destroy fs rg p) (citrusleaf_cluster_shutdown fss))"

subsection \<open>Clusters by URL\<close>

text \<open>
  \<open>citrusleaf_cluster_get\<close> cuts the URL at its first colon, and tests the rest, which has just
  become empty, against the name of the scheme. The host begins three characters further on. The
  result is \<open>Some None\<close> when the URL is rejected; a URL that ends before the host is a fault.
\<close>

definition url_host_port :: "block \<Rightarrow> (block \<times> int) option option" where
  "url_host_port url =
     (if 58 \<notin> set url then Some None
      else
        let i = length (takeWhile (\<lambda>c. c \<noteq> 58) url); proto = [] :: block in
        if proto = str_lit ''citrusleaf'' then Some None
        else if i + 3 > length url then None
        else
          let rest = drop (i + 3) url; host = takeWhile (\<lambda>c. c \<noteq> 58) rest in
          if 58 \<in> set rest then
            let port_i = atoi (tl (dropWhile (\<lambda>c. c \<noteq> 58) rest)) in Some (Some (host, if port_i = 0 then 3000 else port_i))
          else Some (Some (takeWhile (\<lambda>c. c \<noteq> 47) rest, 3000)))"

definition citrusleaf_cluster_get ::
  "u64 list \<Rightarrow> (registry \<Rightarrow> registry) list \<Rightarrow> nat option \<Rightarrow> net \<Rightarrow> registry \<Rightarrow> block \<Rightarrow> (nat option \<times> net \<times> registry) outcome option" where
  "citrusleaf_cluster_get clock others alloc w rg url = do {
     hp \<leftarrow> url_host_port url;
     case hp of None \<Rightarrow> Some (Returned (None, w, rg))
     | Some (host, port_i) \<Rightarrow> do {
         r \<leftarrow> find_cluster (clusters rg) id (cluster_ll rg) host port_i;
         case r of Some p \<Rightarrow> Some (Returned (Some p, w, rg))
         | None \<Rightarrow> do {
             (p, rg) \<leftarrow> cluster_create alloc rg;
             bind_io (add_host_to clock w rg p host port_i 0) (\<lambda>(rv, w, rg). do {
               asc \<leftarrow> clusters rg p;
               if cs_node_v asc = [] then
                 bind_io (citrusleaf_cluster_destroy others rg p) (\<lambda>rg. Some (Returned (None, w, rg)))
               else Some (Returned (Some p, w, rg)) }) } } }"

subsection \<open>The names of the nodes\<close>

text \<open>The array of a name: the name, a zero, and what follows in the node, which \<open>g\<close> gives.\<close>

definition name_array_of :: "(node_ptr \<Rightarrow> nat \<Rightarrow> u8) \<Rightarrow> node_ptr \<Rightarrow> cl_cluster_node \<Rightarrow> block" where
  "name_array_of g p cn = take NODE_NAME_SIZE (cn_name cn @ [0] @ map (g p) [0..<NODE_NAME_SIZE])"

fun copy_names :: "(node_ptr \<Rightarrow> nat \<Rightarrow> u8) \<Rightarrow> mem \<Rightarrow> node_ptr list \<Rightarrow> block option" where
  "copy_names g m [] = Some []"
| "copy_names g m (p # ps) = do {
     cn \<leftarrow> m_nodes m p;
     rest \<leftarrow> copy_names g m ps;
     Some (name_array_of g p cn @ rest) }"

definition cl_cluster_get_node_names :: "(node_ptr \<Rightarrow> nat \<Rightarrow> u8) \<Rightarrow> bool \<Rightarrow> mem \<Rightarrow> cl_cluster \<Rightarrow> (nat \<times> block option) option" where
  "cl_cluster_get_node_names g malloc_ok m asc =
     (let size = length (cs_node_v asc) in
      if size = 0 then Some (size, None)
      else if \<not> malloc_ok then Some (size, None)
      else do { b \<leftarrow> copy_names g m (cs_node_v asc); Some (size, Some b) })"

text \<open>
  The names of a list of hosts. The value is where \<open>citrusleaf_info_parse_single\<close> leaves it in the
  buffer of the answer, and 20 bytes are copied from there; without a tab it is indeterminate.
\<close>

definition parse_single_in_place :: "block \<Rightarrow> (nat \<times> block) option" where
  "parse_single_in_place buf = do {
     s \<leftarrow> c_str buf;
     if 9 \<notin> set s then None
     else
       let i = length (takeWhile (\<lambda>c. c \<noteq> 9) s) + 1; n = length (takeWhile (\<lambda>c. c \<noteq> 10) (drop i s)) in
       Some (i, if 10 \<in> set (drop i s) then buf[i + n := 0] else buf) }"

definition host_node_name :: "block \<Rightarrow> block option" where
  "host_node_name buf = do {
     (i, buf) \<leftarrow> parse_single_in_place buf;
     load buf i NODE_NAME_SIZE }"

text \<open>One environment for each host: the resolver and the requests to its addresses.\<close>

type_synonym host_env = "(block \<Rightarrow> host_answer list) \<times> (nat \<Rightarrow> info_env)"

primrec names_by_hosts :: "block list \<Rightarrow> host_env list \<Rightarrow> block \<Rightarrow> (int \<times> block) outcome option" where
  "names_by_hosts [] es acc = Some (Returned (0, acc))"
| "names_by_hosts (h # hs) es acc =
     (let host_port = str_split 58 [] h in
      if length host_port = 2 then
        (case es of [] \<Rightarrow> Some Waiting
         | e # es' \<Rightarrow>
             bind_io (citrusleaf_info (fst e) (snd e) (host_port ! 0) (short (atoi (host_port ! 1))) (Some (str_lit ''node'')) 3000) (\<lambda>(rv, v, closed).
               if rv = 0 then do {
                 buf \<leftarrow> v;
                 name \<leftarrow> host_node_name buf;
                 names_by_hosts hs es' (acc @ name) }
               else Some (Returned (- 2, acc))))
      else Some (Returned (- 1, acc)))"

definition cl_cluster_get_node_names_byhostportlist ::
  "host_env list \<Rightarrow> bool \<Rightarrow> block \<Rightarrow> (int \<times> nat \<times> block option) outcome option" where
  "cl_cluster_get_node_names_byhostportlist es malloc_ok list_nodes =
     (let host_str_v = str_split 59 [] list_nodes; size = length host_str_v in
      if \<not> malloc_ok then Some (Returned (0, size, None))
      else bind_io (names_by_hosts host_str_v es []) (\<lambda>(rv, b). Some (Returned (rv, size, Some b))))"

subsection \<open>The tender thread\<close>

text \<open>
  One round of the loop of the tender over the list: each cluster has its own period or that of the
  process, and a period of zero is a division by zero.
\<close>

fun tender_round :: "u64 \<Rightarrow> int \<Rightarrow> nat list \<Rightarrow> registry \<Rightarrow> net \<Rightarrow> (registry \<times> net) outcome option" where
  "tender_round cnt g_clust_tend_speed [] rg w = Some (Returned (rg, w))"
| "tender_round cnt g_clust_tend_speed (p # ps) rg w = do {
     asc \<leftarrow> clusters rg p;
     let period = (if sint (cs_tend_speed asc) \<noteq> 0 then sint (cs_tend_speed asc) else g_clust_tend_speed);
     if period = 0 then None
     else if cnt mod word_of_int period = 0 then
       bind_io (cluster_tend (rg_mem rg, asc, w)) (\<lambda>(m, asc, w).
         tender_round cnt g_clust_tend_speed ps (put_cluster (rg\<lparr>rg_mem := m\<rparr>) p asc) w)
     else tender_round cnt g_clust_tend_speed ps rg w }"

definition citrusleaf_sleep_for_tender :: "cl_cluster \<Rightarrow> int \<Rightarrow> int" where
  "citrusleaf_sleep_for_tender asc g_clust_tend_speed = (if cs_tend_speed asc > 0 then uint (cs_tend_speed asc) else g_clust_tend_speed)"

subsection \<open>The threshold of compression\<close>

definition compression_version :: "u32 list" where "compression_version = [2, 6, 8]"

definition strtok_r :: "u8 \<Rightarrow> block \<Rightarrow> (block \<times> block) option" where
  "strtok_r c s = (let s = dropWhile (\<lambda>x. x = c) s in
     if s = [] then None else Some (takeWhile (\<lambda>x. x \<noteq> c) s, drop 1 (dropWhile (\<lambda>x. x \<noteq> c) s)))"

fun read_version :: "u8 list \<Rightarrow> block \<Rightarrow> u32 list option" where
  "read_version [] s = Some []"
| "read_version (c # cs) s =
     (case strtok_r c s of None \<Rightarrow> None
      | Some (tok, rest) \<Rightarrow> map_option (Cons (word_of_int (atoi tok))) (read_version cs rest))"

definition build_supports :: "block \<Rightarrow> bool" where
  "build_supports vs =
     (case read_version [46, 46, 45] (case strtok_r 9 vs of None \<Rightarrow> [] | Some (_, rest) \<Rightarrow> rest) of
        None \<Rightarrow> False
      | Some version \<Rightarrow>
          \<not> (version ! 0 < compression_version ! 0 \<or>
             version ! 0 = compression_version ! 0 \<and> version ! 1 < compression_version ! 1 \<or>
             version ! 0 = compression_version ! 0 \<and> version ! 1 = compression_version ! 1 \<and> version ! 2 < compression_version ! 2))"

text \<open>The addresses of one host: whether all can be used, and the servers that are left to be asked.\<close>

fun check_addrs :: "info_env list \<Rightarrow> sockaddr list \<Rightarrow> (bool \<times> info_env list) outcome option" where
  "check_addrs es [] = Some (Returned (True, es))"
| "check_addrs [] (sa # sas) = Some Waiting"
| "check_addrs (e # es) (sa # sas) =
     bind_io (citrusleaf_info_host e sa (Some (str_lit ''build'')) 300 False) (\<lambda>(rv, v, closed).
       if rv \<noteq> 0 then Some (Returned (False, es))
       else do {
         vs \<leftarrow> values_str v;
         if build_supports vs then check_addrs es sas else Some (Returned (False, es)) })"

text \<open>
  The loop over the hosts. The inner loop counts the numbers of the version with the variable of
  the outer one: after a host with addresses it is 3, and the loop goes on with 4.
\<close>

fun compression_hosts :: "(block \<Rightarrow> host_answer list) list \<Rightarrow> info_env list \<Rightarrow> cl_cluster \<Rightarrow> nat \<Rightarrow> sockaddr list \<Rightarrow>
    (bool \<times> info_env list) outcome option" where
  "compression_hosts [] es asc index v =
     Some (if index < length (cs_host_str_v asc) then Waiting else Returned (True, es))"
| "compression_hosts (resolve # rs) es asc index v =
     (if index < length (cs_host_str_v asc) then
        (if index < length (cs_host_port_v asc) then
           (case cl_lookup resolve (Some (cs_host_addr_map_v asc)) (cs_host_str_v asc ! index) (cs_host_port_v asc ! index) (Some v) of
              Waiting \<Rightarrow> Some Waiting
            | Returned (_, v') \<Rightarrow> do {
                v' \<leftarrow> v';
                bind_io (check_addrs es v') (\<lambda>(ok, es).
                  if \<not> ok then Some (Returned (False, es))
                  else compression_hosts rs es asc (if v' = [] then index + 1 else 4) v') })
         else None)
      else Some (Returned (True, es)))"

definition citrusleaf_cluster_change_compression_threshold ::
  "(block \<Rightarrow> host_answer list) list \<Rightarrow> info_env list \<Rightarrow> cl_cluster \<Rightarrow> int \<Rightarrow> (int \<times> info_env list \<times> cl_cluster) outcome option" where
  "citrusleaf_cluster_change_compression_threshold rs es asc size_in_bytes =
     bind_io (if size_in_bytes = DISABLE_COMPRESSION then Some (Returned (True, es)) else compression_hosts rs es asc 0 []) (\<lambda>(ok, es).
       let size = (if ok then size_in_bytes else DISABLE_COMPRESSION) in
       Some (Returned (size, es, asc\<lparr>cs_compression_threshold := size\<rparr>)))"

subsection \<open>Properties\<close>

text \<open>C11: Destroying a cluster takes it off the list and gives back every reference to a node that its list and its
  tables held: what is left are the references of the others, and nodes without any are freed.\<close>

theorem cluster_destroy_releases:
  assumes "clusters rg p = Some asc" and "mem_ok (rg_mem rg) (\<lambda>q. cluster_refs asc q + r q)"
    and "cs_state asc AND CLS_TENDER_RUNNING = 0" and "distinct (cluster_ll rg)"
  shows "\<exists>rg'. citrusleaf_cluster_destroy others rg p = Some (Returned rg') \<and> mem_ok (rg_mem rg') r \<and>
    clusters rg' = (clusters rg)(p := None) \<and> set (cluster_ll rg') = set (cluster_ll rg) - {p} \<and>
    g_clust_initialized rg' = g_clust_initialized rg"
proof -
  have "mem_ok (rg_mem rg) (\<lambda>q. held (cs_node_v asc) q + (held (table_ptrs (cs_partition_table_head asc)) q + r q))"
    using assms(2) by (simp add: cluster_refs_def ac_simps)
  from rc.release_all [OF this] obtain m1 where m1: "release_many cl_cluster_node_release (rg_mem rg) (cs_node_v asc) = Some m1"
    "mem_ok m1 (\<lambda>q. held (table_ptrs (cs_partition_table_head asc)) q + r q)" by blast
  from cl_partition_table_destroy_all_ok [OF m1(2)] obtain m2 where
    m2: "cl_partition_table_destroy_all m1 (cs_partition_table_head asc) = Some m2" "mem_ok m2 r" by blast
  have "destroy_wait others (rg\<lparr>cluster_ll := remove1 p (cluster_ll rg)\<rparr>) p = Some (Returned (rg\<lparr>cluster_ll := remove1 p (cluster_ll rg)\<rparr>))"
    using assms(1,3) by (cases others) simp_all
  then show ?thesis using assms(1,4) m1(1) m2 by (simp add: citrusleaf_cluster_destroy_def)
qed

definition sample_registry :: registry where
  "sample_registry = \<lparr>g_clust_initialized = True, cluster_ll = [7], clusters = [7 \<mapsto> sample_cluster], rg_mem = sample_mem\<rparr>"

theorem cluster_destroy_releases_witness:
  "\<exists>rg'. citrusleaf_cluster_destroy [] sample_registry 7 = Some (Returned rg') \<and> mem_ok (rg_mem rg') (\<lambda>_. 0) \<and>
    clusters rg' = (clusters sample_registry)(7 := None) \<and> set (cluster_ll rg') = set (cluster_ll sample_registry) - {7} \<and>
    g_clust_initialized rg' = g_clust_initialized sample_registry"
proof (rule cluster_destroy_releases)
  show "clusters sample_registry 7 = Some sample_cluster" by (simp add: sample_registry_def)
  show "mem_ok (rg_mem sample_registry) (\<lambda>q. cluster_refs sample_cluster q + 0)" using sample_cluster_ok by (simp add: sample_registry_def)
qed (simp_all add: sample_registry_def sample_cluster_def)

text \<open>C26: A second call for a host gives the cluster that is there and counts the caller; a release by that caller
  puts everything back as it was.\<close>

theorem get_then_release:
  assumes "g_clust_initialized rg" and "find_cluster (clusters rg) short (cluster_ll rg) host (short port) = Some (Some p)"
    and "clusters rg p = Some asc" and "0 < cs_ref_count asc" and "cs_ref_count asc \<noteq> - 1"
  shows "\<exists>rg1. citrusleaf_cluster_get_or_create clock others alloc w rg host port timeout_ms = Some (Returned (Some p, w, rg1)) \<and>
    cluster_ll rg1 = cluster_ll rg \<and> clusters rg1 p = Some (asc\<lparr>cs_ref_count := cs_ref_count asc + 1\<rparr>) \<and>
    citrusleaf_cluster_release_or_destroy others rg1 (Some p) = Some (Returned (Some p, rg))"
proof -
  have n: "cs_ref_count asc + 1 \<noteq> 0" using assms(5) by (metis add_eq_0_iff minus_equation_iff)
  have "(clusters rg)(p \<mapsto> asc) = clusters rg" using assms(3) by auto
  then have "put_cluster rg p asc = rg" by (simp add: put_cluster_def)
  then show ?thesis using assms n
    by (auto simp: citrusleaf_cluster_get_or_create_def citrusleaf_cluster_release_or_destroy_def put_cluster_def word_gt_0)
qed

theorem get_then_release_witness:
  "\<exists>rg1. citrusleaf_cluster_get_or_create [] [] None sample_net sample_registry [104] 3000 0 = Some (Returned (Some 7, sample_net, rg1)) \<and>
    cluster_ll rg1 = cluster_ll sample_registry \<and> clusters rg1 7 = Some (sample_cluster\<lparr>cs_ref_count := cs_ref_count sample_cluster + 1\<rparr>) \<and>
    citrusleaf_cluster_release_or_destroy [] rg1 (Some 7) = Some (Returned (Some 7, sample_registry))"
  by (rule get_then_release) (simp_all add: sample_registry_def sample_cluster_def)

text \<open>When the name of a new host cannot be resolved, no cluster is left behind: the registry, the nodes and the
  other clusters are as before.\<close>

theorem failed_create_undone:
  assumes "g_clust_initialized rg" and "find_cluster (clusters rg) short (cluster_ll rg) host (short port) = Some None"
    and "clusters rg p = None" and "p \<notin> set (cluster_ll rg)" and "n_resolve w = resolve # rs"
    and "lookup_loop 0 (resolve host) = Returned None"
  shows "citrusleaf_cluster_get_or_create clock others (Some p) w rg host port timeout_ms = Some (Returned (None, w\<lparr>n_resolve := rs\<rparr>, rg))"
proof -
  have l: "cl_lookup resolve (Some []) host (short port) (Some []) = Returned (- 1, Some [])"
    using assms(6) by (simp add: cl_lookup_def)
  have c: "(clusters rg)(p := None) = clusters rg" using assms(3) by auto
  have "remove1 p (cluster_ll rg @ [p]) = cluster_ll rg" using assms(4) by (simp add: remove1_append)
  moreover have "destroy_wait others rg1 p = Some (Returned rg1)" if "clusters rg1 p = Some asc1" "cs_state asc1 = 0" for rg1 asc1
    using that by (cases others) simp_all
  ultimately show ?thesis using assms(1,2,5) l c
    by (simp add: citrusleaf_cluster_get_or_create_def cluster_create_def citrusleaf_cluster_create_def add_host_to_def
      citrusleaf_cluster_add_host_def CITRUSLEAF_FAIL_CLIENT_def citrusleaf_cluster_release_or_destroy_def put_cluster_def
      citrusleaf_cluster_destroy_def Let_def)
qed

theorem failed_create_undone_witness:
  "citrusleaf_cluster_get_or_create [] [] (Some 8) sample_net sample_registry [105] 3000 0 =
    Some (Returned (None, sample_net\<lparr>n_resolve := []\<rparr>, sample_registry))"
  by (rule failed_create_undone [where resolve = sample_resolve])
    (simp_all add: sample_registry_def sample_cluster_def sample_net_def sample_resolve_def HOST_NOT_FOUND_def TRY_AGAIN_def)

text \<open>The scheme of a URL is never looked at: any word in front of the colon gives the same host and port.\<close>

theorem url_scheme_ignored:
  assumes "58 \<notin> set scheme" and "58 \<notin> set host" and "47 \<notin> set host" and "58 \<notin> set path"
  shows "url_host_port (scheme @ str_lit ''://'' @ host @ [58] @ dec k) = Some (Some (host, if k = 0 then 3000 else int k)) \<and>
    url_host_port (scheme @ str_lit ''://'' @ host @ [47] @ path) = Some (Some (host, 3000))"
proof -
  have l: "str_lit ''://'' = [58, 47, 47]" "[] \<noteq> str_lit ''citrusleaf''" by (simp_all add: str_lit_def)
  have t: "takeWhile (\<lambda>c. c \<noteq> 58) (scheme @ 58 # xs) = scheme" for xs
    using assms(1) by (induction scheme) auto
  have h: "takeWhile (\<lambda>c. c \<noteq> 58) (host @ 58 # xs) = host" "dropWhile (\<lambda>c. c \<noteq> 58) (host @ 58 # xs) = 58 # xs"
    "takeWhile (\<lambda>c. c \<noteq> 47) (host @ 47 # xs) = host" for xs
    using assms(2,3) by (induction host) auto
  show ?thesis using assms(2,4) l(2) by (simp add: url_host_port_def l(1) t h atoi_dec Let_def)
qed

theorem url_scheme_ignored_witness:
  "url_host_port (str_lit ''http'' @ str_lit ''://'' @ [104] @ [58] @ dec 80) = Some (Some ([104], if (80 :: nat) = 0 then 3000 else int 80)) \<and>
    url_host_port (str_lit ''http'' @ str_lit ''://'' @ [104] @ [47] @ []) = Some (Some ([104], 3000))"
  by (rule url_scheme_ignored) (simp_all add: str_lit_def)

text \<open>The name of a node is shorter than the 20 bytes that are copied from the answer of the server, so with names
  of up to 17 characters the copy reads behind the end of the buffer.\<close>

theorem names_by_host_overread:
  assumes "0 \<notin> set name" and "9 \<notin> set name" and "10 \<notin> set name"
  shows "host_node_name (str_lit ''node'' @ [9] @ name @ [10, 0]) =
    (if length name < 18 then None else Some (take NODE_NAME_SIZE (name @ [0, 0])))"
proof -
  have n: "\<And>c. c \<in> set name \<Longrightarrow> c \<noteq> 0 \<and> c \<noteq> 10" using assms by metis
  have "takeWhile (\<lambda>c. c \<noteq> 0) (name @ [10, 0]) = name @ [10]" using n by (induction name) auto
  then have c: "c_str (str_lit ''node'' @ [9] @ name @ [10, 0]) = Some (str_lit ''node'' @ [9] @ name @ [10])"
    by (subst c_str_in) (simp_all add: node_lit)
  have t: "takeWhile (\<lambda>c. c \<noteq> 10) (name @ [10]) = name" using n by (induction name) auto
  have u: "(name @ [10, 0])[length name := 0] = name @ [0, 0]" by (simp add: list_update_append)
  have p: "parse_single_in_place (str_lit ''node'' @ [9] @ name @ [10, 0]) = Some (5, str_lit ''node'' @ [9] @ name @ [0, 0])"
    unfolding parse_single_in_place_def c by (simp add: node_lit t u Let_def)
  show ?thesis unfolding host_node_name_def p by (simp add: load_def NODE_NAME_SIZE_def node_lit)
qed

theorem names_by_host_overread_witness:
  "host_node_name (str_lit ''node'' @ [9] @ str_lit ''BB9'' @ [10, 0]) =
    (if length (str_lit ''BB9'') < 18 then None else Some (take NODE_NAME_SIZE (str_lit ''BB9'' @ [0, 0])))"
  by (rule names_by_host_overread) (simp_all add: str_lit_def)

lemma lookup_extends: "cl_lookup resolve am host port (Some v) = Returned (rv, v') \<Longrightarrow> \<exists>ws. v' = Some (v @ ws)"
proof -
  assume a: "cl_lookup resolve am host port (Some v) = Returned (rv, v')"
  obtain h where h: "(case am of None \<Rightarrow> host | Some am \<Rightarrow> find_addr_map am host) = h" by blast
  show ?thesis
  proof (cases "lookup_loop 0 (resolve h)")
    case (Returned x)
    then show ?thesis using a h append_addrs_ok [of v AF_INET port "ha_addr_list (the x)"]
      by (cases x) (auto simp: cl_lookup_def Let_def split: if_splits)
  qed (use a h in \<open>simp add: cl_lookup_def Let_def\<close>)
qed

lemma bind_io_Returned: "bind_io c f = Some (Returned y) \<Longrightarrow> \<exists>x. c = Some (Returned x) \<and> f x = Some (Returned y)"
proof (cases c)
  case (Some z)
  then show "bind_io c f = Some (Returned y) \<Longrightarrow> ?thesis" by (cases z) simp_all
qed simp

lemma compression_hosts_unasked:
  assumes "5 \<le> length (cs_host_str_v asc)"
  shows "compression_hosts rs es asc index v = Some (Returned (True, es')) \<Longrightarrow> (v \<noteq> [] \<longrightarrow> index \<le> 4) \<Longrightarrow> v = [] \<and> es' = es"
proof (induction rs arbitrary: es index v)
  case Nil
  then show ?case using assms by (cases "index < length (cs_host_str_v asc)") auto
next
  case (Cons resolve rs)
  show ?case
  proof (cases "index < length (cs_host_str_v asc)")
    case False
    then show ?thesis using Cons.prems assms by auto
  next
    case True
    let ?l = "cl_lookup resolve (Some (cs_host_addr_map_v asc)) (cs_host_str_v asc ! index) (cs_host_port_v asc ! index) (Some v)"
    from Cons.prems(1) True have p: "index < length (cs_host_port_v asc)" by (auto split: if_splits)
    obtain rv v' where l: "?l = Returned (rv, v')" using Cons.prems(1) True p by (cases ?l) auto
    obtain ws where ws: "v' = Some (v @ ws)" using lookup_extends [OF l] by blast
    have "bind_io (check_addrs es (v @ ws)) (\<lambda>(ok, es).
                  if \<not> ok then Some (Returned (False, es))
                  else compression_hosts rs es asc (if v @ ws = [] then index + 1 else 4) (v @ ws)) = Some (Returned (True, es'))"
      using Cons.prems(1) True p l ws by simp
    from bind_io_Returned [OF this] obtain x where x: "check_addrs es (v @ ws) = Some (Returned x)"
      "(case x of (ok, es) \<Rightarrow> if \<not> ok then Some (Returned (False, es))
          else compression_hosts rs es asc (if v @ ws = [] then index + 1 else 4) (v @ ws)) = Some (Returned (True, es'))" by blast
    obtain ok es1 where "x = (ok, es1)" by (cases x)
    with x have c: "check_addrs es (v @ ws) = Some (Returned (ok, es1))"
      "(if \<not> ok then Some (Returned (False, es1)) else compression_hosts rs es1 asc (if v @ ws = [] then index + 1 else 4) (v @ ws)) =
        Some (Returned (True, es'))" by (simp_all only: prod.case)
    then have "compression_hosts rs es1 asc (if v @ ws = [] then index + 1 else 4) (v @ ws) = Some (Returned (True, es'))"
      by (metis (no_types, lifting) option.inject outcome.inject prod.inject)
    moreover have "v @ ws \<noteq> [] \<longrightarrow> (if v @ ws = [] then index + 1 else 4) \<le> 4" by simp
    ultimately have "v @ ws = [] \<and> es' = es1" by (rule Cons.IH)
    then show ?thesis using c(1) by simp
  qed
qed

text \<open>With five hosts or more a threshold is only ever set when the version of no server was asked for: a call
  that asks one ends without compression, or it never ends.\<close>

theorem compression_unchecked:
  assumes "5 \<le> length (cs_host_str_v asc)" and "size_in_bytes \<noteq> DISABLE_COMPRESSION"
    and "citrusleaf_cluster_change_compression_threshold rs es asc size_in_bytes = Some (Returned (sz, es', asc'))"
  shows "(sz = DISABLE_COMPRESSION \<or> es' = es) \<and> asc' = asc\<lparr>cs_compression_threshold := sz\<rparr>"
proof -
  have "bind_io (compression_hosts rs es asc 0 []) (\<lambda>(ok, es).
       let size = (if ok then size_in_bytes else DISABLE_COMPRESSION) in
       Some (Returned (size, es, asc\<lparr>cs_compression_threshold := size\<rparr>))) = Some (Returned (sz, es', asc'))"
    using assms(2,3) by (simp add: citrusleaf_cluster_change_compression_threshold_def)
  from bind_io_Returned [OF this] obtain x where x: "compression_hosts rs es asc 0 [] = Some (Returned x)"
    "(case x of (ok, es) \<Rightarrow> let size = (if ok then size_in_bytes else DISABLE_COMPRESSION) in
       Some (Returned (size, es, asc\<lparr>cs_compression_threshold := size\<rparr>))) = Some (Returned (sz, es', asc'))" by blast
  then show ?thesis using compression_hosts_unasked [OF assms(1), of rs es 0 "[]"] by (cases x) (auto simp: Let_def)
qed

definition no_host :: "block \<Rightarrow> host_answer list" where
  "no_host h = [\<lparr>ha_rv = 0, ha_hp = False, ha_herr = HOST_NOT_FOUND, ha_addrtype = 0, ha_addr_list = [], ha_malloc = True\<rparr>]"

definition five_hosts :: cl_cluster where
  "five_hosts = sample_cluster\<lparr>cs_host_str_v := replicate 5 [104], cs_host_port_v := replicate 5 3000\<rparr>"

lemma no_host_lookup: "cl_lookup no_host am h port v = Returned (- 1, v)"
  by (simp add: cl_lookup_def no_host_def TRY_AGAIN_def HOST_NOT_FOUND_def)

theorem compression_unchecked_witness:
  "((100 :: int) = DISABLE_COMPRESSION \<or> ([] :: info_env list) = []) \<and>
    five_hosts\<lparr>cs_compression_threshold := 100\<rparr> = five_hosts\<lparr>cs_compression_threshold := 100\<rparr>"
proof (rule compression_unchecked)
  have "compression_hosts (replicate 5 no_host) [] five_hosts 0 [] = Some (Returned (True, []))"
    by (simp add: five_hosts_def no_host_lookup eval_nat_numeral)
  then show "citrusleaf_cluster_change_compression_threshold (replicate 5 no_host) [] five_hosts 100 =
      Some (Returned (100, [], five_hosts\<lparr>cs_compression_threshold := 100\<rparr>))"
    by (simp add: citrusleaf_cluster_change_compression_threshold_def DISABLE_COMPRESSION_def)
qed (simp_all add: five_hosts_def DISABLE_COMPRESSION_def)

end
