(* ===== verification/Cl_Stream.thy ===== *)
theory Cl_Stream
  imports Cl_Api
begin

section \<open>Responses of many records (\<open>src/cl_batch.c\<close> and \<open>src/cl_scan.c\<close>)\<close>

text \<open>
  A batch request and a scan are answered by a stream: any number of protos, each with any number
  of messages, each message a header, fields and operations, until a message says that it is the
  last or that something failed. The two functions that read such a stream,
  \<open>do_batch_monte\<close> and \<open>do_scan_monte\<close>, hold the same loops; they differ in what they do after
  a message, and in that a batch response may be compressed. The loops are modelled here, with
  these differences as arguments.

  Everything the kernel and the allocator answer is an argument: one record for a proto, and in
  it one for each of its messages. The call of the application's callback is a value that tells
  what is handed over; a stream yields the list of these calls.
\<close>

definition CL_PROTO_TYPE_CL_MSG_COMPRESSED :: u8 where "CL_PROTO_TYPE_CL_MSG_COMPRESSED = 4"
definition CL_RESULT_OK :: u8 where "CL_RESULT_OK = 0"
definition CL_RESULT_NOTFOUND :: u8 where "CL_RESULT_NOTFOUND = 2"
definition CL_MSG_INFO3_LAST :: u8 where "CL_MSG_INFO3_LAST = 1"
definition STACK_BINS :: nat where "STACK_BINS = 100"

text \<open>
  A call of the callback: the name of the namespace in its array of 33 bytes, the digest as an
  offset in the read buffer (or no digest), the set name in a block of its own, the bins, and
  the read buffer itself.
\<close>

record delivery =
  d_ns :: block
  d_keyd :: "nat option"
  d_set :: "block option"
  d_generation :: u32
  d_ttl :: u32
  d_bins :: "cl_bin list"
  d_buf :: block

text \<open>The allocations for one message: set names, the array of bins (of any content), values.\<close>

record msg_env =
  me_sets :: "nat \<Rightarrow> malloc_env"
  me_bins :: "(nat \<Rightarrow> cl_bin) option"
  me_values :: "nat \<Rightarrow> malloc_env"

record msg_head =
  mh_keyd :: "nat option"
  mh_ns :: block
  mh_set :: "block option"

text \<open>The loop over the fields: no bound is tested, and the name of a namespace has 32 bytes of room.\<close>

definition take_field :: "malloc_env \<Rightarrow> block \<Rightarrow> nat \<Rightarrow> u8 \<Rightarrow> msg_head \<Rightarrow> msg_head option" where
  "take_field e buf mf t h =
     (if t = CL_MSG_FIELD_TYPE_KEY then Some h
      else if t = CL_MSG_FIELD_TYPE_DIGEST_RIPE then Some (h\<lparr>mh_keyd := Some (mf + 5)\<rparr>)
      else if t = CL_MSG_FIELD_TYPE_NAMESPACE then do {
        sz \<leftarrow> cl_msg_field_get_value_sz buf mf;
        x \<leftarrow> load buf (mf + 5) (unat sz);
        ns \<leftarrow> store (mh_ns h) 0 x;
        ns \<leftarrow> store ns (unat sz) [0];
        Some (h\<lparr>mh_ns := ns\<rparr>) }
      else if t = CL_MSG_FIELD_TYPE_SET then do {
        sz \<leftarrow> cl_msg_field_get_value_sz buf mf;
        m \<leftarrow> malloc e (unat (sz + 1));
        x \<leftarrow> load buf (mf + 5) (unat sz);
        m \<leftarrow> store m 0 x;
        m \<leftarrow> store m (unat sz) [0];
        Some (h\<lparr>mh_set := Some m\<rparr>) }
      else Some h)"

fun stream_fields :: "(nat \<Rightarrow> malloc_env) \<Rightarrow> nat \<Rightarrow> nat \<Rightarrow> block \<Rightarrow> nat \<Rightarrow> msg_head \<Rightarrow> (block \<times> nat \<times> msg_head) option" where
  "stream_fields envs i 0 buf mf h = Some (buf, mf, h)"
| "stream_fields envs i (Suc n) buf mf h = do {
     buf \<leftarrow> cl_msg_swap_field buf mf;
     t \<leftarrow> load_u8 buf (mf + 4);
     h \<leftarrow> take_field (envs i) buf mf t h;
     mf \<leftarrow> cl_msg_field_get_next buf mf;
     stream_fields envs (Suc i) n buf mf h }"

text \<open>The loop over the operations.\<close>

fun stream_ops :: "(nat \<Rightarrow> malloc_env) \<Rightarrow> nat \<Rightarrow> nat \<Rightarrow> block \<Rightarrow> nat \<Rightarrow> cl_bin list \<Rightarrow> (block \<times> nat \<times> cl_bin list) option" where
  "stream_ops envs i 0 buf op bins = Some (buf, op, bins)"
| "stream_ops envs i (Suc n) buf op bins = do {
     buf \<leftarrow> cl_msg_swap_op buf op;
     v \<leftarrow> (if i < length bins then Some (bins ! i) else None);
     v \<leftarrow> cl_set_value_particular (envs i) buf op v;
     op \<leftarrow> cl_msg_op_get_next buf op;
     stream_ops envs (Suc i) n buf op (bins[i := v]) }"

text \<open>
  One message, from an offset on. Of its header the loops use the info bytes and the result code;
  the rest goes to the callback. The bins are in the array on the stack, which lives as long as
  the buffer, or for more than 100 operations in a new one.
\<close>

record stream_msg =
  sm_info1 :: u8
  sm_info3 :: u8
  sm_result_code :: u8
  sm_n_ops :: nat
  sm_call :: delivery

datatype msg_result =
    Msg_Unexpected
  | Msg_No_Memory
  | Msg stream_msg block nat "cl_bin list"

definition local_bins :: "msg_env \<Rightarrow> cl_bin list \<Rightarrow> nat \<Rightarrow> cl_bin list option" where
  "local_bins e stack n_ops =
     (if n_ops > STACK_BINS then map_option (\<lambda>g. map g [0..<n_ops]) (me_bins e) else Some stack)"

definition read_message :: "msg_env \<Rightarrow> cl_bin list \<Rightarrow> block \<Rightarrow> nat \<Rightarrow> msg_result option" where
  "read_message e stack buf off = do {
     buf \<leftarrow> cl_msg_swap_header buf off;
     header_sz \<leftarrow> load_u8 buf off;
     if header_sz \<noteq> 22 then Some Msg_Unexpected
     else do {
       n_fields \<leftarrow> load_u16 buf (off + 18);
       n_ops \<leftarrow> load_u16 buf (off + 20);
       (buf, op, h) \<leftarrow> stream_fields (me_sets e) 0 n_fields buf (off + 22)
          \<lparr>mh_keyd = None, mh_ns = replicate 33 0, mh_set = None\<rparr>;
       case local_bins e stack n_ops of None \<Rightarrow> Some Msg_No_Memory
       | Some bins \<Rightarrow> do {
           (buf, op, bins) \<leftarrow> stream_ops (me_values e) 0 n_ops buf op bins;
           info1 \<leftarrow> load_u8 buf (off + 1);
           info3 \<leftarrow> load_u8 buf (off + 3);
           result_code \<leftarrow> load_u8 buf (off + 5);
           generation \<leftarrow> load_u32 buf (off + 6);
           record_ttl \<leftarrow> load_u32 buf (off + 10);
           Some (Msg \<lparr>sm_info1 = info1, sm_info3 = info3, sm_result_code = result_code, sm_n_ops = n_ops,
               sm_call = \<lparr>d_ns = mh_ns h, d_keyd = mh_keyd h, d_set = mh_set h, d_generation = generation,
                 d_ttl = record_ttl, d_bins = take n_ops bins, d_buf = buf\<rparr>\<rparr>
             buf op (if n_ops > STACK_BINS then stack else bins)) } } }"

text \<open>
  What the loops have come to: the result so far, whether the stream is over, and the calls of
  the callback.
\<close>

record progress =
  pg_rv :: int
  pg_done :: bool
  pg_calls :: "delivery list"

datatype msgs_result = Msgs_Failed "delivery list" | Msgs_Done block progress

lemma swap_bytes_length: "swap_bytes buf off n = Some b \<Longrightarrow> length b = length buf \<and> off + n \<le> length buf"
  by (auto simp: swap_bytes_def load_def store_def bind_eq_Some_conv split: if_splits)

lemma swap_header_length: "cl_msg_swap_header buf off = Some b \<Longrightarrow> length b = length buf \<and> off + 22 \<le> length buf"
  by (auto simp: cl_msg_swap_header_def bind_eq_Some_conv dest!: swap_bytes_length)

lemma stream_fields_length:
  "stream_fields envs i n buf mf h = Some (b, op, h') \<Longrightarrow> length b = length buf \<and> mf \<le> op"
proof (induction n arbitrary: i buf mf h)
  case (Suc n)
  then obtain b1 mf1 h1 where s: "cl_msg_swap_field buf mf = Some b1" "cl_msg_field_get_next b1 mf = Some mf1"
    "stream_fields envs (Suc i) n b1 mf1 h1 = Some (b, op, h')"
    by (auto simp: bind_eq_Some_conv)
  show ?case using Suc.IH [OF s(3)] s(1,2)
    by (auto simp: cl_msg_swap_field_def cl_msg_field_get_next_def bind_eq_Some_conv dest!: swap_bytes_length)
qed simp

lemma stream_ops_length:
  "stream_ops envs i n buf op bins = Some (b, op', bins') \<Longrightarrow> length b = length buf \<and> op \<le> op' \<and> length bins' = length bins"
proof (induction n arbitrary: i buf op bins)
  case (Suc n)
  then obtain b1 op1 v where s: "cl_msg_swap_op buf op = Some b1" "cl_msg_op_get_next b1 op = Some op1"
    "stream_ops envs (Suc i) n b1 op1 (bins[i := v]) = Some (b, op', bins')"
    by (auto simp: bind_eq_Some_conv)
  show ?case using Suc.IH [OF s(3)] s(1,2)
    by (auto simp: cl_msg_swap_op_def cl_msg_op_get_next_def bind_eq_Some_conv dest!: swap_bytes_length)
qed simp

lemma read_message_length:
  assumes "read_message e stack buf off = Some (Msg x b off' stack')"
  shows "length b = length buf \<and> off + 22 \<le> off' \<and> off + 22 \<le> length buf"
proof -
  show ?thesis using assms
    by (fastforce simp: read_message_def bind_eq_Some_conv split: if_splits option.splits
      dest: swap_header_length stream_fields_length stream_ops_length)
qed

text \<open>
  The loop over a buffer. The position that ends it is a 32-bit number and may wrap around; the
  offset that the messages are read from does not, so the loop ends, or leaves the buffer.
\<close>

function read_msgs ::
  "(stream_msg \<Rightarrow> progress \<Rightarrow> progress) \<Rightarrow> (nat \<Rightarrow> msg_env) \<Rightarrow> nat \<Rightarrow> nat \<Rightarrow> u32 \<Rightarrow> nat \<Rightarrow> cl_bin list \<Rightarrow> block \<Rightarrow>
   progress \<Rightarrow> msgs_result option" where
  "read_msgs step envs i sz pos off stack buf p =
     (if sz \<le> unat pos then Some (Msgs_Done buf p)
      else do {
        r \<leftarrow> read_message (envs i) stack buf off;
        case r of
          Msg x buf' off' stack' \<Rightarrow>
            read_msgs step envs (Suc i) sz (pos + of_nat (off' - off)) off' stack' buf' (step x p)
        | _ \<Rightarrow> Some (Msgs_Failed (pg_calls p)) })"
  by pat_completeness auto
termination
  by (relation "measure (\<lambda>(step, envs, i, sz, pos, off, stack, buf, p). length buf - off)")
    (auto dest!: read_message_length)

declare read_msgs.simps [simp del]

text \<open>
  The answers for one proto. The memory that the read buffer points to: nothing, the array on the
  stack, which keeps the bytes of earlier protos, or a block on the heap.
\<close>

record proto_env =
  pe_head_ok :: bool
  pe_head :: "(block + int) list"
  pe_body_ok :: bool
  pe_body :: "(block + int) list"
  pe_malloc :: malloc_env
  pe_inflate_init :: bool
  pe_inflate_malloc :: malloc_env
  pe_stack_bins :: "nat \<Rightarrow> cl_bin"
  pe_msgs :: "nat \<Rightarrow> msg_env"

datatype rd_ptr = At_Null | At_Stack | At_Heap block

fun rd_at :: "block \<Rightarrow> rd_ptr \<Rightarrow> block option" where
  "rd_at stack At_Null = None"
| "rd_at stack At_Stack = Some stack"
| "rd_at stack (At_Heap b) = Some b"

text \<open>Writing through the pointer: the array on the stack and the pointer afterwards.\<close>

fun rd_set :: "block \<Rightarrow> rd_ptr \<Rightarrow> block \<Rightarrow> block \<times> rd_ptr" where
  "rd_set stack At_Null b = (stack, At_Null)"
| "rd_set stack At_Stack b = (b, At_Stack)"
| "rd_set stack (At_Heap _) b = (stack, At_Heap b)"

datatype proto_result =
    Proto_Failed
  | Proto_Waiting
  | Proto u8 nat block block rd_ptr

text \<open>
  Reading a proto: its eight bytes, the tests of version and type (a compressed one only where
  that is allowed), and its body, which an empty proto does not have.
\<close>

definition read_body :: "proto_env \<Rightarrow> u8 \<Rightarrow> nat \<Rightarrow> block \<Rightarrow> block \<Rightarrow> rd_ptr \<Rightarrow> proto_result option" where
  "read_body env type sz proto stack p =
     (if sz = 0 then Some (Proto type sz proto stack p)
      else
        case (if sz > STACK_BUF_SZ then map_option At_Heap (malloc (pe_malloc env) sz) else Some At_Stack) of
          None \<Rightarrow> Some Proto_Failed
        | Some p \<Rightarrow> do {
            b \<leftarrow> rd_at stack p;
            r \<leftarrow> cf_socket_read_forever (pe_body_ok env) (pe_body env) b sz;
            case r of Waiting \<Rightarrow> Some Proto_Waiting
            | Returned (rv, b) \<Rightarrow>
                let (stack, p) = rd_set stack p b in
                Some (if rv \<noteq> 0 then Proto_Failed else Proto type sz proto stack p) })"

definition read_proto :: "bool \<Rightarrow> proto_env \<Rightarrow> block \<Rightarrow> block \<Rightarrow> rd_ptr \<Rightarrow> proto_result option" where
  "read_proto compressed env proto stack p = do {
     r \<leftarrow> cf_socket_read_forever (pe_head_ok env) (pe_head env) proto 8;
     case r of Waiting \<Rightarrow> Some Proto_Waiting
     | Returned (rv, proto) \<Rightarrow>
         if rv \<noteq> 0 then Some Proto_Failed
         else do {
           proto \<leftarrow> cl_proto_swap proto 0;
           version \<leftarrow> load_u8 proto 0;
           type \<leftarrow> load_u8 proto 1;
           sz \<leftarrow> load proto 2 6;
           if version \<noteq> CL_PROTO_VERSION then Some Proto_Failed
           else if type \<noteq> CL_PROTO_TYPE_CL_MSG \<and> \<not> (compressed \<and> type = CL_PROTO_TYPE_CL_MSG_COMPRESSED)
           then Some Proto_Failed
           else read_body env type (unat (le_word sz :: u64)) proto stack p } }"

text \<open>
  The whole stream, one environment for each proto; without another one it is still being read.
  The argument \<open>unzip\<close>, where there is one, uncompresses a body: the block and its size, or
  nothing. Reading a proto sets the result to 0 again. Whatever fails closes the descriptor, and
  the result is - 1.
\<close>

type_synonym unzip = "proto_env \<Rightarrow> block option \<Rightarrow> nat \<Rightarrow> (block \<times> nat) option option"

datatype stream_result =
    Stream_Busy "delivery list"
  | Stream_Failed "delivery list"
  | Stream_Done int "delivery list"

definition uncompressed ::
  "unzip option \<Rightarrow> proto_env \<Rightarrow> u8 \<Rightarrow> nat \<Rightarrow> block \<Rightarrow> rd_ptr \<Rightarrow> (nat \<times> rd_ptr) option option" where
  "uncompressed unzip env type sz stack p =
     (case unzip of Some f \<Rightarrow>
        if type = CL_PROTO_TYPE_CL_MSG_COMPRESSED
        then map_option (map_option (\<lambda>(b, n). (n, At_Heap b))) (f env (rd_at stack p) sz)
        else Some (Some (sz, p))
      | None \<Rightarrow> Some (Some (sz, p)))"

definition body_msgs ::
  "(stream_msg \<Rightarrow> progress \<Rightarrow> progress) \<Rightarrow> proto_env \<Rightarrow> nat \<Rightarrow> block option \<Rightarrow> delivery list \<Rightarrow> msgs_result option" where
  "body_msgs step env sz b calls =
     (let start = \<lparr>pg_rv = 0, pg_done = False, pg_calls = calls\<rparr> in
      if sz = 0 then Some (Msgs_Done [] start)
      else do {
        b \<leftarrow> b;
        read_msgs step (pe_msgs env) 0 sz 0 0 (map (pe_stack_bins env) [0..<STACK_BINS]) b start })"

text \<open>After the messages a block on the heap is freed; the array keeps its bytes.\<close>

fun rd_free :: "block \<Rightarrow> rd_ptr \<Rightarrow> nat \<Rightarrow> block \<Rightarrow> block \<times> rd_ptr" where
  "rd_free stack At_Null sz b = (stack, At_Null)"
| "rd_free stack At_Stack sz b = (if sz = 0 then stack else b, At_Stack)"
| "rd_free stack (At_Heap _) sz b = (stack, At_Null)"

fun read_stream ::
  "(stream_msg \<Rightarrow> progress \<Rightarrow> progress) \<Rightarrow> unzip option \<Rightarrow> proto_env list \<Rightarrow> block \<Rightarrow> block \<Rightarrow> rd_ptr \<Rightarrow> delivery list \<Rightarrow>
   stream_result option" where
  "read_stream step unzip [] proto stack p calls = Some (Stream_Busy calls)"
| "read_stream step unzip (env # envs) proto stack p calls = do {
     r \<leftarrow> read_proto (unzip \<noteq> None) env proto stack p;
     case r of
       Proto_Waiting \<Rightarrow> Some (Stream_Busy calls)
     | Proto_Failed \<Rightarrow> Some (Stream_Failed calls)
     | Proto type sz proto stack p \<Rightarrow> do {
         u \<leftarrow> uncompressed unzip env type sz stack p;
         case u of None \<Rightarrow> Some (Stream_Failed calls)
         | Some (sz, p) \<Rightarrow> do {
             r \<leftarrow> body_msgs step env sz (rd_at stack p) calls;
             case r of
               Msgs_Failed calls \<Rightarrow> Some (Stream_Failed calls)
             | Msgs_Done b pg \<Rightarrow>
                 if pg_done pg then Some (Stream_Done (pg_rv pg) (pg_calls pg))
                 else let (stack, p) = rd_free stack p sz b in
                      read_stream step unzip envs proto stack p (pg_calls pg) } } }"

subsection \<open>What a server sends, and what is handed over\<close>

text \<open>A message as a server writes it.\<close>

record response_msg =
  rm_info1 :: u8
  rm_info3 :: u8
  rm_code :: u8
  rm_generation :: u32
  rm_ttl :: u32
  rm_fields :: "(u8 \<times> block) list"
  rm_ops :: "(u8 \<times> cl_bin) list"

definition msg_bytes :: "response_msg \<Rightarrow> block" where
  "msg_bytes r =
     [22, rm_info1 r, 0, rm_info3 r, 0, rm_code r] @ word_be 4 (rm_generation r) @ word_be 4 (rm_ttl r) @
     word_be 4 (0 :: u32) @ word_be 2 (of_nat (length (rm_fields r)) :: u16) @
     word_be 2 (of_nat (length (rm_ops r)) :: u16) @ rf_bytes (rm_fields r) @ resp_bytes (rm_ops r)"

text \<open>The last field of a type is the one that counts.\<close>

definition field_of :: "u8 \<Rightarrow> (u8 \<times> block) list \<Rightarrow> block option" where
  "field_of t fl = map_of (rev fl) t"

lemma field_of_simps [simp]:
  "field_of t [] = None"
  "field_of t (fl @ [(t', d)]) = (if t = t' then Some d else field_of t fl)"
  by (simp_all add: field_of_def)

definition field_fits :: "u8 \<times> block \<Rightarrow> bool" where
  "field_fits f \<longleftrightarrow> (fst f = CL_MSG_FIELD_TYPE_NAMESPACE \<longrightarrow> length (snd f) \<le> 32)"

definition ns_holds :: "block option \<Rightarrow> block \<Rightarrow> bool" where
  "ns_holds d ns \<longleftrightarrow> length ns = 33 \<and>
     (case d of None \<Rightarrow> ns = replicate 33 0 | Some d \<Rightarrow> take (Suc (length d)) ns = d @ [0])"

definition keyd_holds :: "block option \<Rightarrow> nat option \<Rightarrow> block \<Rightarrow> bool" where
  "keyd_holds d off b \<longleftrightarrow> (case d of None \<Rightarrow> off = None
     | Some d \<Rightarrow> \<exists>o'. off = Some o' \<and> load b o' (length d) = Some d)"

definition head_holds :: "(u8 \<times> block) list \<Rightarrow> block \<Rightarrow> msg_head \<Rightarrow> bool" where
  "head_holds fl b h \<longleftrightarrow> ns_holds (field_of CL_MSG_FIELD_TYPE_NAMESPACE fl) (mh_ns h) \<and>
     keyd_holds (field_of CL_MSG_FIELD_TYPE_DIGEST_RIPE fl) (mh_keyd h) b \<and>
     mh_set h = map_option (\<lambda>s. s @ [0]) (field_of CL_MSG_FIELD_TYPE_SET fl)"

definition call_holds :: "response_msg \<Rightarrow> delivery \<Rightarrow> bool" where
  "call_holds r d \<longleftrightarrow> ns_holds (field_of CL_MSG_FIELD_TYPE_NAMESPACE (rm_fields r)) (d_ns d) \<and>
     keyd_holds (field_of CL_MSG_FIELD_TYPE_DIGEST_RIPE (rm_fields r)) (d_keyd d) (d_buf d) \<and>
     d_set d = map_option (\<lambda>s. s @ [0]) (field_of CL_MSG_FIELD_TYPE_SET (rm_fields r)) \<and>
     d_generation d = rm_generation r \<and> d_ttl d = rm_ttl r \<and> list_all2 bin_decoded (d_bins d) (rm_ops r)"

definition msg_holds :: "response_msg \<Rightarrow> stream_msg \<Rightarrow> bool" where
  "msg_holds r x \<longleftrightarrow> sm_info1 x = rm_info1 r \<and> sm_info3 x = rm_info3 r \<and> sm_result_code x = rm_code r \<and>
     sm_n_ops x = length (rm_ops r) \<and> call_holds r (sm_call x)"

definition msg_ok :: "response_msg \<Rightarrow> bool" where
  "msg_ok r \<longleftrightarrow> (\<forall>f \<in> set (rm_fields r). field_fits f) \<and> resp_ok (rm_ops r) \<and>
     length (rm_fields r) < 2 ^ 16 \<and> length (rm_ops r) < 2 ^ 16"

definition msg_env_ok :: "msg_env \<Rightarrow> bool" where
  "msg_env_ok e \<longleftrightarrow> (\<forall>i. me_sets e i \<noteq> None) \<and> (\<forall>i. me_values e i \<noteq> None) \<and>
     (\<exists>g. me_bins e = Some g \<and> (\<forall>i. length (bin_name (g i)) = 32))"

lemma load_append: "off + n \<le> length a \<Longrightarrow> load (a @ c) off n = load a off n"
  by (simp add: load_def)

lemma load_Some_append: "load a off n = Some x \<Longrightarrow> load (a @ c) off n = Some x"
  by (auto simp: load_def split: if_splits)

lemma keyd_holds_append: "keyd_holds d off a \<Longrightarrow> keyd_holds d off (a @ c)"
  by (auto simp: keyd_holds_def load_Some_append split: option.splits)

lemma head_holds_append: "head_holds fl a h \<Longrightarrow> head_holds fl (a @ c) h"
  by (simp add: head_holds_def keyd_holds_append)

lemma field_reads:
  fixes c :: block and t :: u8
  assumes l: "length a = mf" and n: "length d < 2 ^ 32 - 1"
  defines "B \<equiv> a @ word_le 4 (of_nat (length d + 1) :: u32) @ t # d @ c"
  shows "cl_msg_swap_field (a @ field_bytes t d @ c) mf = Some B" and "load_u8 B (mf + 4) = Some t"
    and "cl_msg_field_get_value_sz B mf = Some (of_nat (length d))" and "unat (of_nat (length d) :: u32) = length d"
    and "unat (of_nat (length d) + 1 :: u32) = length d + 1"
    and "load B (mf + 5) (length d) = Some d" and "cl_msg_field_get_next B mf = Some (mf + length (field_bytes t d))"
proof -
  let ?z = "of_nat (length d + 1) :: u32"
  show "cl_msg_swap_field (a @ field_bytes t d @ c) mf = Some B"
  proof -
    have "cl_msg_swap_field (a @ word_be 4 ?z @ t # d @ c) mf = Some B"
      unfolding cl_msg_swap_field_def swap_at [OF l length_word_le(2)] by (simp add: word_be_def B_def)
    then show ?thesis by (simp add: field_bytes_def)
  qed
  have z: "unat ?z = length d + 1" unfolding unat_of_nat using n by (intro mod_less) simp
  show "unat (of_nat (length d) :: u32) = length d" unfolding unat_of_nat using n by (intro mod_less) simp
  show "unat (of_nat (length d) + 1 :: u32) = length d + 1" using z by (simp add: add.commute)
  show "load_u8 B (mf + 4) = Some t"
    using load_at [of "a @ word_le 4 ?z" "mf + 4" "[t]" 1 "d @ c"] l by (simp add: load_u8_def B_def)
  have sz: "load_u32 B mf = Some ?z"
    using load_at [of a mf "word_le 4 ?z" 4 "t # d @ c"] l by (simp add: load_u32_def B_def)
  then show "cl_msg_field_get_value_sz B mf = Some (of_nat (length d))"
    by (simp add: cl_msg_field_get_value_sz_def)
  show "load B (mf + 5) (length d) = Some d"
    using load_at [of "a @ word_le 4 ?z @ [t]" "mf + 5" d "length d" c] l by (simp add: B_def)
  show "cl_msg_field_get_next B mf = Some (mf + length (field_bytes t d))"
    unfolding cl_msg_field_get_next_def sz bind.bind_lunit z by simp
qed

lemma head_step:
  assumes h: "head_holds fl a h" and l: "length a = mf" and n: "length d < 2 ^ 32 - 1" and f: "field_fits (t, d)"
    and e: "e \<noteq> None"
  shows "\<exists>h'. take_field e (a @ word_le 4 (of_nat (length d + 1) :: u32) @ t # d @ c) mf t h = Some h' \<and>
    head_holds (fl @ [(t, d)]) (a @ word_le 4 (of_nat (length d + 1) :: u32) @ t # d) h'"
proof -
  let ?a = "a @ word_le 4 (of_nat (length d + 1) :: u32) @ t # d"
  note R = field_reads [OF l n]
  note ty = CL_MSG_FIELD_TYPE_KEY_def CL_MSG_FIELD_TYPE_DIGEST_RIPE_def CL_MSG_FIELD_TYPE_NAMESPACE_def
    CL_MSG_FIELD_TYPE_SET_def take_field_def
  have h': "head_holds fl ?a h" using h by (rule head_holds_append)
  have ns: "length (mh_ns h) = 33" using h by (simp add: head_holds_def ns_holds_def)
  have ld: "load ?a (mf + 5) (length d) = Some d"
    using load_at [of "a @ word_le 4 (of_nat (length d + 1) :: u32) @ [t]" "mf + 5" d "length d" "[]"] l by simp
  consider (dg) "t = CL_MSG_FIELD_TYPE_DIGEST_RIPE" | (nm) "t = CL_MSG_FIELD_TYPE_NAMESPACE" | (st) "t = CL_MSG_FIELD_TYPE_SET"
    | (other) "t \<noteq> CL_MSG_FIELD_TYPE_DIGEST_RIPE" "t \<noteq> CL_MSG_FIELD_TYPE_NAMESPACE" "t \<noteq> CL_MSG_FIELD_TYPE_SET" by blast
  then show ?thesis
  proof cases
    case dg
    then show ?thesis using h' ld by (simp add: head_holds_def keyd_holds_def ty)
  next
    case nm
    then have d: "length d \<le> 32" using f by (simp add: field_fits_def)
    have "store (mh_ns h) 0 d = Some (d @ drop (length d) (mh_ns h))" using ns d by (simp add: store_def)
    moreover have "store (d @ drop (length d) (mh_ns h)) (length d) [0] = Some (d @ 0 # drop (Suc (length d)) (mh_ns h))"
      using ns d by (simp add: store_def)
    moreover have "head_holds (fl @ [(t, d)]) ?a (h\<lparr>mh_ns := d @ 0 # drop (Suc (length d)) (mh_ns h)\<rparr>)"
      using h' ns d nm by (simp add: head_holds_def ns_holds_def ty)
    ultimately show ?thesis using nm R by (simp add: ty)
  next
    case st
    obtain g where g: "e = Some g" using e by blast
    have "store (map g [0..<length d + 1]) 0 d = Some (d @ [g (length d)])" by (simp add: store_def)
    moreover have "store (d @ [g (length d)]) (length d) [0] = Some (d @ [0])" by (simp add: store_def)
    moreover have "head_holds (fl @ [(t, d)]) ?a (h\<lparr>mh_set := Some (d @ [0])\<rparr>)"
      using h' st by (simp add: head_holds_def ty)
    ultimately show ?thesis using st R g by (simp add: ty)
  next
    case other
    then show ?thesis using h' by (auto simp: head_holds_def take_field_def)
  qed
qed

lemma stream_fields_ok:
  assumes "length a = mf" and "length (a @ rf_bytes fl @ c) < 2 ^ 31" and "head_holds prev a h"
    and "\<forall>f \<in> set fl. field_fits f" and "\<forall>i. envs i \<noteq> None"
  shows "\<exists>a' h'. stream_fields envs i (length fl) (a @ rf_bytes fl @ c) mf h = Some (a @ a' @ c, mf + length (rf_bytes fl), h') \<and>
    length a' = length (rf_bytes fl) \<and> head_holds (prev @ fl) (a @ a') h'"
  using assms
proof (induction fl arbitrary: a mf h prev i)
  case Nil
  then show ?case by (intro exI [of _ "[]"]) (simp add: rf_bytes_def)
next
  case (Cons x fl)
  obtain t d where x: "x = (t, d)" by fastforce
  have n: "length d < 2 ^ 32 - 1" using Cons.prems(2) by (simp add: x rf_bytes_Cons)
  have e: "envs i \<noteq> None" using Cons.prems(5) by simp
  have f: "field_fits (t, d)" using Cons.prems(4) x by simp
  let ?w = "word_le 4 (of_nat (length d + 1) :: u32)"
  note R = field_reads [OF Cons.prems(1) n]
  from head_step [OF Cons.prems(3,1) n f e, of "rf_bytes fl @ c"] obtain h1 where h1:
    "take_field (envs i) (a @ ?w @ t # d @ rf_bytes fl @ c) mf t h = Some h1" "head_holds (prev @ [x]) (a @ ?w @ t # d) h1" unfolding x by blast
  have "\<exists>a' h'. stream_fields envs (Suc i) (length fl) ((a @ ?w @ t # d) @ rf_bytes fl @ c) (mf + length (field_bytes t d)) h1 =
      Some ((a @ ?w @ t # d) @ a' @ c, mf + length (field_bytes t d) + length (rf_bytes fl), h') \<and>
    length a' = length (rf_bytes fl) \<and> head_holds ((prev @ [x]) @ fl) ((a @ ?w @ t # d) @ a') h'"
    by (rule Cons.IH) (use Cons.prems h1(2) in \<open>auto simp: x rf_bytes_Cons\<close>)
  then obtain a' h' where IH: "stream_fields envs (Suc i) (length fl) ((a @ ?w @ t # d) @ rf_bytes fl @ c) (mf + length (field_bytes t d)) h1 =
      Some ((a @ ?w @ t # d) @ a' @ c, mf + length (field_bytes t d) + length (rf_bytes fl), h')"
    "length a' = length (rf_bytes fl)" "head_holds ((prev @ [x]) @ fl) ((a @ ?w @ t # d) @ a') h'" by blast
  have "stream_fields envs i (Suc (length fl)) (a @ rf_bytes (x # fl) @ c) mf h =
      stream_fields envs (Suc i) (length fl) ((a @ ?w @ t # d) @ rf_bytes fl @ c) (mf + length (field_bytes t d)) h1"
    unfolding stream_fields.simps x rf_bytes_Cons append_assoc append_Cons R(1) bind.bind_lunit R(2) h1(1) R(7)
    by simp
  then show ?case using IH by (intro exI [of _ "?w @ t # d @ a'"] exI [of _ h']) (simp add: x rf_bytes_Cons)
qed

lemma op_step:
  fixes c :: block
  assumes ok: "op_ok code b" "code \<noteq> CL_MSG_OP_MC_INCR" and l: "length a = op"
    and sz: "8 + length (bin_str b) + object_len (bin_object b) < 2 ^ 31" and v: "length (bin_name u) = 32" and e: "e \<noteq> None"
  shows "\<exists>x v. length x = length (op_bytes code b) \<and> cl_msg_swap_op (a @ op_bytes code b @ c) op = Some (a @ x @ c) \<and>
    cl_set_value_particular e (a @ x @ c) op u = Some v \<and> bin_decoded v (code, b) \<and>
    cl_msg_op_get_next (a @ x @ c) op = Some (op + length (op_bytes code b))"
proof -
  let ?x = "op_bytes_of (word_le 4 (op_size b)) code b"
  obtain g where g: "e = Some g" using e by blast
  note R = op_bytes_reads [OF ok(1) l sz]
  have "length ?x = length (op_bytes code b)" by (simp add: op_bytes_def op_bytes_of_def)
  moreover obtain v where "cl_set_value_particular (Some g) (a @ ?x @ c) op u = Some v" "bin_decoded v (code, b)"
    using cl_set_value_particular_ok [OF ok l sz v, of g c] by (auto simp: bin_decoded_def)
  ultimately show ?thesis using R(1,8) g by blast
qed

lemma stream_ops_ok:
  assumes "resp_ok l" and "length a = op" and "length (a @ resp_bytes l @ c) < 2 ^ 31"
    and "length vs = i" and "length us = length l"
    and "\<forall>u \<in> set us. length (bin_name u) = 32" and "\<forall>j. envs j \<noteq> None"
  shows "\<exists>a' ws. stream_ops envs i (length l) (a @ resp_bytes l @ c) op (vs @ us @ zs) =
      Some (a @ a' @ c, op + length (resp_bytes l), vs @ ws @ zs) \<and> length a' = length (resp_bytes l) \<and> list_all2 bin_decoded ws l"
  using assms
proof (induction l arbitrary: a op vs us i)
  case Nil
  then show ?case by (intro exI [of _ "[]"]) (simp add: resp_bytes_def)
next
  case (Cons x l)
  obtain code b where x: "x = (code, b)" by fastforce
  then have ok: "op_ok code b" "code \<noteq> CL_MSG_OP_MC_INCR" using Cons.prems(1) by (auto simp: resp_ok_def)
  obtain u us' where us: "us = u # us'" using Cons.prems(5) by (cases us) auto
  let ?c = "resp_bytes l @ c"
  have sz: "8 + length (bin_str b) + object_len (bin_object b) < 2 ^ 31"
    using Cons.prems(3) length_op_bytes [OF ok(1)] by (simp add: x resp_bytes_Cons)
  from op_step [OF ok Cons.prems(2) sz, of u "envs i" ?c] Cons.prems(6,7) us
  obtain y v where y: "length y = length (op_bytes code b)" "cl_msg_swap_op (a @ op_bytes code b @ ?c) op = Some (a @ y @ ?c)"
    "cl_set_value_particular (envs i) (a @ y @ ?c) op u = Some v" "bin_decoded v x"
    "cl_msg_op_get_next (a @ y @ ?c) op = Some (op + length (op_bytes code b))" by (auto simp: x)
  have "\<exists>a' ws. stream_ops envs (Suc i) (length l) ((a @ y) @ resp_bytes l @ c) (op + length (op_bytes code b)) ((vs @ [v]) @ us' @ zs) =
      Some ((a @ y) @ a' @ c, op + length (op_bytes code b) + length (resp_bytes l), (vs @ [v]) @ ws @ zs) \<and>
      length a' = length (resp_bytes l) \<and> list_all2 bin_decoded ws l"
    by (rule Cons.IH) (use Cons.prems x us y(1) in \<open>auto simp: resp_ok_def resp_bytes_Cons\<close>)
  then obtain a' ws where IH: "stream_ops envs (Suc i) (length l) ((a @ y) @ resp_bytes l @ c) (op + length (op_bytes code b)) ((vs @ [v]) @ us' @ zs) =
      Some ((a @ y) @ a' @ c, op + length (op_bytes code b) + length (resp_bytes l), (vs @ [v]) @ ws @ zs)"
      "length a' = length (resp_bytes l)" "list_all2 bin_decoded ws l" by blast
  have e: "(vs @ us @ zs)[i := v] = (vs @ [v]) @ us' @ zs" and n: "(vs @ us @ zs) ! i = u" "i < length (vs @ us @ zs)"
    using Cons.prems(4) us by (auto simp: list_update_append)
  have "stream_ops envs i (length (x # l)) (a @ resp_bytes (x # l) @ c) op (vs @ us @ zs) =
      stream_ops envs (Suc i) (length l) ((a @ y) @ resp_bytes l @ c) (op + length (op_bytes code b)) ((vs @ [v]) @ us' @ zs)"
    using y(2,3,5) n e by (simp add: x resp_bytes_Cons)
  then show ?case using IH y(1,4) by (intro exI [of _ "y @ a'"] exI [of _ "v # ws"]) (simp add: x resp_bytes_Cons)
qed

definition msg_header :: "response_msg \<Rightarrow> block" where
  "msg_header r =
     [22, rm_info1 r, 0, rm_info3 r, 0, rm_code r] @ word_le 4 (rm_generation r) @ word_le 4 (rm_ttl r) @
     word_le 4 (0 :: u32) @ word_le 2 (of_nat (length (rm_fields r)) :: u16) @ word_le 2 (of_nat (length (rm_ops r)) :: u16)"

lemma length_msg_header [simp]: "length (msg_header r) = 22"
  by (simp add: msg_header_def)

lemma length_msg_bytes: "length (msg_bytes r) = 22 + length (rf_bytes (rm_fields r)) + length (resp_bytes (rm_ops r))"
  by (simp add: msg_bytes_def)

lemma swap_msg_header:
  assumes "length a = off"
  shows "cl_msg_swap_header (a @ msg_bytes r @ c) off =
    Some (a @ msg_header r @ rf_bytes (rm_fields r) @ resp_bytes (rm_ops r) @ c)"
proof -
  let ?h = "[22, rm_info1 r, 0, rm_info3 r, 0, rm_code r]"
  let ?g = "rm_generation r" and ?t = "rm_ttl r" and ?f = "of_nat (length (rm_fields r)) :: u16"
  let ?o = "of_nat (length (rm_ops r)) :: u16" and ?c = "rf_bytes (rm_fields r) @ resp_bytes (rm_ops r) @ c"
  let ?z = "0 :: u32"
  have "swap_bytes (a @ ?h @ word_be 4 ?g @ R) (off + 6) 4 = Some (a @ ?h @ word_le 4 ?g @ R)" for R
    using swap_at [of "a @ ?h" "off + 6" "word_be 4 ?g" 4 R] assms by (simp add: word_be_def)
  moreover have "swap_bytes (a @ ?h @ word_le 4 ?g @ word_be 4 ?t @ R) (off + 10) 4 = Some (a @ ?h @ word_le 4 ?g @ word_le 4 ?t @ R)" for R
    using swap_at [of "a @ ?h @ word_le 4 ?g" "off + 10" "word_be 4 ?t" 4 R] assms by (simp add: word_be_def)
  moreover have "swap_bytes (a @ ?h @ word_le 4 ?g @ word_le 4 ?t @ word_be 4 ?z @ R) (off + 14) 4 =
      Some (a @ ?h @ word_le 4 ?g @ word_le 4 ?t @ word_le 4 ?z @ R)" for R
    using swap_at [of "a @ ?h @ word_le 4 ?g @ word_le 4 ?t" "off + 14" "word_be 4 ?z" 4 R] assms by (simp add: word_be_def)
  moreover have "swap_bytes (a @ ?h @ word_le 4 ?g @ word_le 4 ?t @ word_le 4 ?z @ word_be 2 ?f @ R) (off + 18) 2 =
      Some (a @ ?h @ word_le 4 ?g @ word_le 4 ?t @ word_le 4 ?z @ word_le 2 ?f @ R)" for R
    using swap_at [of "a @ ?h @ word_le 4 ?g @ word_le 4 ?t @ word_le 4 ?z" "off + 18" "word_be 2 ?f" 2 R] assms by (simp add: word_be_def)
  moreover have "swap_bytes (a @ ?h @ word_le 4 ?g @ word_le 4 ?t @ word_le 4 ?z @ word_le 2 ?f @ word_be 2 ?o @ R) (off + 20) 2 =
      Some (a @ ?h @ word_le 4 ?g @ word_le 4 ?t @ word_le 4 ?z @ word_le 2 ?f @ word_le 2 ?o @ R)" for R
    using swap_at [of "a @ ?h @ word_le 4 ?g @ word_le 4 ?t @ word_le 4 ?z @ word_le 2 ?f" "off + 20" "word_be 2 ?o" 2 R] assms
    by (simp add: word_be_def)
  ultimately show ?thesis
    unfolding cl_msg_swap_header_def msg_bytes_def msg_header_def append_assoc bind.bind_lunit by simp
qed

lemma msg_header_reads:
  assumes l: "length a = off" and n: "length (rm_fields r) < 2 ^ 16" "length (rm_ops r) < 2 ^ 16"
  shows "load_u8 (a @ msg_header r @ c) off = Some 22" and "load_u16 (a @ msg_header r @ c) (off + 18) = Some (length (rm_fields r))"
    and "load_u16 (a @ msg_header r @ c) (off + 20) = Some (length (rm_ops r))"
    and "load_u8 (a @ msg_header r @ c) (off + 1) = Some (rm_info1 r)" and "load_u8 (a @ msg_header r @ c) (off + 3) = Some (rm_info3 r)"
    and "load_u8 (a @ msg_header r @ c) (off + 5) = Some (rm_code r)" and "load_u32 (a @ msg_header r @ c) (off + 6) = Some (rm_generation r)"
    and "load_u32 (a @ msg_header r @ c) (off + 10) = Some (rm_ttl r)"
  using assms by (simp_all add: msg_header_def load_u8_def load_u16_def load_u32_def load_def le_word_word_le unat_of_nat)

definition stack_ok :: "cl_bin list \<Rightarrow> bool" where
  "stack_ok st \<longleftrightarrow> length st = STACK_BINS \<and> (\<forall>u \<in> set st. length (bin_name u) = 32)"

lemma bin_decoded_name: "list_all2 bin_decoded ws l \<Longrightarrow> \<forall>u \<in> set ws. length (bin_name u) = 32"
  by (auto simp: list_all2_conv_all_nth bin_decoded_def bin_wf_def in_set_conv_nth)

lemma read_message_ok:
  assumes r: "msg_ok r" and l: "length a = off" and sz: "length (a @ msg_bytes r @ c) < 2 ^ 31"
    and e: "msg_env_ok e" and st: "stack_ok st"
  shows "\<exists>x y st'. read_message e st (a @ msg_bytes r @ c) off = Some (Msg x (a @ y @ c) (off + length (msg_bytes r)) st') \<and>
    length y = length (msg_bytes r) \<and> msg_holds r x \<and> stack_ok st'"
proof -
  let ?H = "msg_header r" and ?O = "resp_bytes (rm_ops r)" and ?n = "length (rm_ops r)"
  let ?h0 = "\<lparr>mh_keyd = None, mh_ns = replicate 33 0, mh_set = None\<rparr>"
  have n: "length (rm_fields r) < 2 ^ 16" "?n < 2 ^ 16" using r by (simp_all add: msg_ok_def)
  have lr: "length (msg_bytes r) = 22 + length (rf_bytes (rm_fields r)) + length ?O" by (rule length_msg_bytes)
  note R = msg_header_reads [OF l n]
  have "\<exists>f h. stream_fields (me_sets e) 0 (length (rm_fields r)) ((a @ ?H) @ rf_bytes (rm_fields r) @ ?O @ c) (off + 22) ?h0 =
      Some ((a @ ?H) @ f @ ?O @ c, off + 22 + length (rf_bytes (rm_fields r)), h) \<and>
      length f = length (rf_bytes (rm_fields r)) \<and> head_holds ([] @ rm_fields r) ((a @ ?H) @ f) h"
    by (rule stream_fields_ok) (use r l sz e lr in \<open>auto simp: msg_ok_def msg_env_ok_def head_holds_def ns_holds_def keyd_holds_def\<close>)
  then obtain f h where f: "stream_fields (me_sets e) 0 (length (rm_fields r)) (a @ ?H @ rf_bytes (rm_fields r) @ ?O @ c) (off + 22) ?h0 =
      Some (a @ ?H @ f @ ?O @ c, off + 22 + length (rf_bytes (rm_fields r)), h)"
      "length f = length (rf_bytes (rm_fields r))" "head_holds (rm_fields r) (a @ ?H @ f) h" by auto
  obtain us zs where b: "local_bins e st ?n = Some (us @ zs)" "length us = ?n" "\<forall>u \<in> set (us @ zs). length (bin_name u) = 32"
    "?n > STACK_BINS \<or> st = us @ zs"
  proof (cases "?n > STACK_BINS")
    case True
    obtain g where g: "me_bins e = Some g" "\<forall>i. length (bin_name (g i)) = 32" using e by (auto simp: msg_env_ok_def)
    then show ?thesis using True that [of "map g [0..<?n]" "[]"] by (auto simp: local_bins_def)
  next
    case False
    then show ?thesis using st that [of "take ?n st" "drop ?n st"] by (simp add: local_bins_def stack_ok_def)
  qed
  have "\<exists>y ws. stream_ops (me_values e) 0 ?n ((a @ ?H @ f) @ ?O @ c) (off + 22 + length f) ([] @ us @ zs) =
      Some ((a @ ?H @ f) @ y @ c, off + 22 + length f + length ?O, [] @ ws @ zs) \<and> length y = length ?O \<and> list_all2 bin_decoded ws (rm_ops r)"
    by (rule stream_ops_ok) (use r l sz e lr f(2) b(2,3) in \<open>auto simp: msg_ok_def msg_env_ok_def\<close>)
  then obtain y ws where y: "stream_ops (me_values e) 0 ?n (a @ ?H @ f @ ?O @ c) (off + 22 + length f) (us @ zs) =
      Some (a @ ?H @ f @ y @ c, off + 22 + length f + length ?O, ws @ zs)" "length y = length ?O" "list_all2 bin_decoded ws (rm_ops r)" by auto
  let ?x = "\<lparr>sm_info1 = rm_info1 r, sm_info3 = rm_info3 r, sm_result_code = rm_code r, sm_n_ops = ?n,
      sm_call = \<lparr>d_ns = mh_ns h, d_keyd = mh_keyd h, d_set = mh_set h, d_generation = rm_generation r,
        d_ttl = rm_ttl r, d_bins = ws, d_buf = a @ ?H @ f @ y @ c\<rparr>\<rparr>"
  have lw: "length ws = ?n" using y(3) by (rule list_all2_lengthD)
  have "read_message e st (a @ msg_bytes r @ c) off =
      Some (Msg ?x (a @ (?H @ f @ y) @ c) (off + length (msg_bytes r)) (if ?n > STACK_BINS then st else ws @ zs))"
    unfolding read_message_def swap_msg_header [OF l] bind.bind_lunit R f(1) b(1) prod.case option.case
      f(2) [symmetric] y(1) using lr f(2) lw by simp
  moreover have "length (?H @ f @ y) = length (msg_bytes r)" using lr f(2) y(2) by simp
  moreover have "keyd_holds d o' (a @ ?H @ f @ y @ c)" if "keyd_holds d o' (a @ ?H @ f)" for d o'
    using keyd_holds_append [OF that, of "y @ c"] by simp
  then have "msg_holds r ?x" using f(3) y(3) by (simp add: msg_holds_def call_holds_def head_holds_def)
  moreover have "stack_ok (if ?n > STACK_BINS then st else ws @ zs)"
    using st b(2-4) lw bin_decoded_name [OF y(3)] by (auto simp: stack_ok_def)
  ultimately show ?thesis by blast
qed

lemma read_msgs_ok:
  assumes "\<forall>r \<in> set rs. msg_ok r" and "length a = off" and "length (a @ concat (map msg_bytes rs) @ c) < 2 ^ 31"
    and "sz = length (a @ concat (map msg_bytes rs))" and "unat pos = off" and "\<forall>i. msg_env_ok (envs i)" and "stack_ok st"
  shows "\<exists>xs b. list_all2 msg_holds rs xs \<and> length b = length (a @ concat (map msg_bytes rs) @ c) \<and>
    read_msgs step envs i sz pos off st (a @ concat (map msg_bytes rs) @ c) p = Some (Msgs_Done b (fold step xs p))"
  using assms
proof (induction rs arbitrary: a off pos i st p)
  case Nil
  then show ?case by (simp add: read_msgs.simps)
next
  case (Cons r rs)
  let ?c = "concat (map msg_bytes rs) @ c" and ?l = "length (msg_bytes r)"
  have r: "msg_ok r" and e: "msg_env_ok (envs i)" using Cons.prems by auto
  have s: "length (a @ msg_bytes r @ ?c) < 2 ^ 31" using Cons.prems(3) by simp
  from read_message_ok [OF r Cons.prems(2) s e Cons.prems(7)] obtain x y st' where
    x: "read_message (envs i) st (a @ msg_bytes r @ ?c) off = Some (Msg x (a @ y @ ?c) (off + ?l) st')"
    "length y = ?l" "msg_holds r x" "stack_ok st'" by blast
  have pos: "unat (pos + of_nat ?l) = off + ?l"
  proof -
    have "unat (of_nat ?l :: u32) = ?l" unfolding unat_of_nat using s by (intro mod_less) simp
    then show ?thesis using Cons.prems(2,5) s by (subst unat_plus_small) auto
  qed
  have "\<exists>xs b. list_all2 msg_holds rs xs \<and> length b = length ((a @ y) @ ?c) \<and>
    read_msgs step envs (Suc i) sz (pos + of_nat ?l) (off + ?l) st' ((a @ y) @ ?c) (step x p) =
      Some (Msgs_Done b (fold step xs (step x p)))"
    by (rule Cons.IH) (use Cons.prems x pos in auto)
  then obtain xs b where IH: "list_all2 msg_holds rs xs" "length b = length ((a @ y) @ ?c)"
    "read_msgs step envs (Suc i) sz (pos + of_nat ?l) (off + ?l) st' ((a @ y) @ ?c) (step x p) =
      Some (Msgs_Done b (fold step xs (step x p)))" by blast
  have "\<not> sz \<le> unat pos" using Cons.prems(2,4,5) by (simp add: length_msg_bytes)
  then have "read_msgs step envs i sz pos off st (a @ msg_bytes r @ ?c) p =
      read_msgs step envs (Suc i) sz (pos + of_nat ?l) (off + ?l) st' ((a @ y) @ ?c) (step x p)"
    by (subst read_msgs.simps) (simp add: x(1))
  then show ?case using IH x(2,3) by (intro exI [of _ "x # xs"] exI [of _ b]) simp
qed

text \<open>
  A blocking read that gets its bytes: no error but a timeout of a slow peer, and the pieces put
  together are the bytes.
\<close>

fun pieces :: "(block + int) list \<Rightarrow> block" where
  "pieces [] = []"
| "pieces (Inl x # ios) = x @ pieces ios"
| "pieces (Inr e # ios) = pieces ios"

definition feeds :: "bool \<Rightarrow> (block + int) list \<Rightarrow> block \<Rightarrow> bool" where
  "feeds ok ios x \<longleftrightarrow> ok \<and> pieces ios = x \<and> Inl [] \<notin> set ios \<and> (\<forall>e. Inr e \<in> set ios \<longrightarrow> e = ETIMEDOUT)"

lemma read_forever_loop_feeds:
  assumes "pieces ios \<noteq> []" and "Inl [] \<notin> set ios" and "\<forall>e. Inr e \<in> set ios \<longrightarrow> e = ETIMEDOUT"
    and "pos + length (pieces ios) = n" and "n \<le> length b"
  shows "read_forever_loop n b pos ios = Some (Returned (0, take pos b @ pieces ios @ drop n b))"
  using assms
proof (induction ios arbitrary: b pos)
  case (Cons io ios)
  show ?case
  proof (cases io)
    case (Inr e)
    then show ?thesis using Cons by auto
  next
    case (Inl x)
    have x: "x \<noteq> []" "take (n - pos) x = x" using Cons.prems(2,4) Inl by auto
    have s: "store b pos x = Some (take pos b @ x @ drop (pos + length x) b)"
      using Cons.prems(4,5) Inl by (intro store_ok) simp
    show ?thesis
    proof (cases "pieces ios = []")
      case True
      then show ?thesis using Inl x s Cons.prems(4) by (simp add: Let_def)
    next
      case False
      let ?b = "take pos b @ x @ drop (pos + length x) b"
      have m: "pos + length x < n" using Cons.prems(4) Inl False by (cases "pieces ios") auto
      have "read_forever_loop n ?b (pos + length x) ios =
          Some (Returned (0, take (pos + length x) ?b @ pieces ios @ drop n ?b))"
        by (rule Cons.IH) (use False Cons.prems Inl in auto)
      moreover have "take (pos + length x) ?b = take pos b @ x" "drop n ?b = drop n b"
        using m Cons.prems(5) by (auto simp: min_def)
      ultimately show ?thesis using Inl x s m by (simp add: Let_def)
    qed
  qed
qed simp

lemma read_forever_feeds:
  assumes "feeds ok ios x" and "x \<noteq> []" and "length x \<le> length b"
  shows "cf_socket_read_forever ok ios b (length x) = Some (Returned (0, x @ drop (length x) b))"
  using read_forever_loop_feeds [of ios 0 "length x" b] assms
  by (auto simp: cf_socket_read_forever_def feeds_def)

definition proto_bytes :: "nat \<Rightarrow> block" where
  "proto_bytes sz = [CL_PROTO_VERSION, CL_PROTO_TYPE_CL_MSG] @ word_be 6 (of_nat sz :: u64)"

lemma length_proto_bytes [simp]: "length (proto_bytes sz) = 8"
  by (simp add: proto_bytes_def)

lemma swap_proto_bytes:
  "cl_proto_swap (proto_bytes sz) 0 = Some ([CL_PROTO_VERSION, CL_PROTO_TYPE_CL_MSG] @ word_le 6 (of_nat sz :: u64))"
proof -
  have u: "[0..<6] = [0, 1, 2, 3, 4, 5]" by (simp add: upt_rec)
  show ?thesis
    by (simp add: cl_proto_swap_def load_def store_def proto_bytes_def word_be_def word_le_def u)
qed

definition proto_env_ok :: "proto_env \<Rightarrow> response_msg list \<Rightarrow> bool" where
  "proto_env_ok env rs \<longleftrightarrow> feeds (pe_head_ok env) (pe_head env) (proto_bytes (length (concat (map msg_bytes rs)))) \<and>
     (rs \<noteq> [] \<longrightarrow> feeds (pe_body_ok env) (pe_body env) (concat (map msg_bytes rs))) \<and> pe_malloc env \<noteq> None \<and>
     (\<forall>i. length (bin_name (pe_stack_bins env i)) = 32) \<and> (\<forall>i. msg_env_ok (pe_msgs env i)) \<and>
     (\<forall>r \<in> set rs. msg_ok r) \<and> length (concat (map msg_bytes rs)) < 2 ^ 30"

definition rd_fine :: "block \<Rightarrow> rd_ptr \<Rightarrow> bool" where
  "rd_fine stack p \<longleftrightarrow> length stack = STACK_BUF_SZ \<and> p \<in> {At_Null, At_Stack}"

lemma msg_bytes_not_Nil [simp]: "msg_bytes r \<noteq> []"
  by (simp add: msg_bytes_def)

lemma concat_msg_bytes_Nil: "concat (map msg_bytes rs) = [] \<longleftrightarrow> rs = []"
  by (cases rs) auto

lemma read_proto_ok:
  assumes e: "proto_env_ok env rs" and rd: "rd_fine stack p" and pr: "length proto = 8"
  shows "\<exists>proto' stack' p'. read_proto compressed env proto stack p =
      Some (Proto CL_PROTO_TYPE_CL_MSG (length (concat (map msg_bytes rs))) proto' stack' p') \<and>
    length proto' = 8 \<and> length stack' = STACK_BUF_SZ \<and>
    (if rs = [] then stack' = stack \<and> p' = p
     else \<exists>c. rd_at stack' p' = Some (concat (map msg_bytes rs) @ c) \<and> length (concat (map msg_bytes rs) @ c) < 2 ^ 31)"
proof -
  let ?B = "concat (map msg_bytes rs)" and ?q = "[CL_PROTO_VERSION, CL_PROTO_TYPE_CL_MSG] @ word_le 6 (of_nat (length (concat (map msg_bytes rs))) :: u64)"
  have "cf_socket_read_forever (pe_head_ok env) (pe_head env) proto (length (proto_bytes (length ?B))) = Some (Returned (0, proto_bytes (length ?B)))"
    using read_forever_feeds [of "pe_head_ok env" "pe_head env" "proto_bytes (length ?B)" proto] e pr
    by (simp add: proto_env_ok_def) (simp add: proto_bytes_def)
  then have 1: "cf_socket_read_forever (pe_head_ok env) (pe_head env) proto 8 = Some (Returned (0, proto_bytes (length ?B)))"
    by simp
  have sz: "length ?B < 2 ^ 30" using e by (simp add: proto_env_ok_def)
  have "unat (le_word (word_le 6 (of_nat (length ?B) :: u64)) :: u64) = length ?B"
  proof -
    have "take_bit 48 (of_nat (length ?B) :: u64) = of_nat (length ?B)" by (rule take_bit_of_nat_small) (use sz in simp)
    moreover have "unat (of_nat (length ?B) :: u64) = length ?B" unfolding unat_of_nat using sz by (intro mod_less) simp
    ultimately show ?thesis by (simp add: le_word_word_le_take)
  qed
  then have 2: "read_proto compressed env proto stack p = read_body env CL_PROTO_TYPE_CL_MSG (length ?B) ?q stack p"
    unfolding read_proto_def 1 using swap_proto_bytes by (simp add: load_u8_def load_def)
  show ?thesis
  proof (cases "rs = []")
    case True
    then show ?thesis unfolding 2 using rd by (simp add: read_body_def rd_fine_def)
  next
    case False
    then have B: "?B \<noteq> []" by (simp add: concat_msg_bytes_Nil)
    have f: "feeds (pe_body_ok env) (pe_body env) ?B" using e False by (simp add: proto_env_ok_def)
    obtain q b where q: "(if length ?B > STACK_BUF_SZ then map_option At_Heap (malloc (pe_malloc env) (length ?B)) else Some At_Stack) = Some q"
      "rd_at stack q = Some b" "length ?B \<le> length b" "length b < 2 ^ 31" "q = At_Stack \<or> (\<exists>b. q = At_Heap b)"
    proof (cases "length ?B > STACK_BUF_SZ")
      case True
      then show ?thesis using e sz that by (auto simp: proto_env_ok_def)
    next
      case False
      then show ?thesis using rd that [of At_Stack stack] by (simp add: rd_fine_def STACK_BUF_SZ_def)
    qed
    have rf: "cf_socket_read_forever (pe_body_ok env) (pe_body env) b (length ?B) = Some (Returned (0, ?B @ drop (length ?B) b))"
      using read_forever_feeds [OF f B q(3)] .
    obtain stack' p' where rs: "rd_set stack q (?B @ drop (length ?B) b) = (stack', p')" "length stack' = STACK_BUF_SZ"
      "rd_at stack' p' = Some (?B @ drop (length ?B) b)"
      using q(2,3,5) rd by (auto simp: rd_fine_def)
    have "read_body env CL_PROTO_TYPE_CL_MSG (length ?B) ?q stack p = Some (Proto CL_PROTO_TYPE_CL_MSG (length ?B) ?q stack' p')"
      unfolding read_body_def q(1) option.case q(2) bind.bind_lunit rf using False rs(1) by simp
    then show ?thesis unfolding 2 using False rs(2,3) q(3,4) by auto
  qed
qed

text \<open>
  What the two readers of a stream have in common: whether a message ends the stream, whether it
  is handed to the callback, and how it changes the result, is decided by four values of its header.
\<close>

type_synonym msg_key = "u8 \<times> u8 \<times> u8 \<times> nat"

definition sm_key :: "stream_msg \<Rightarrow> msg_key" where
  "sm_key x = (sm_info1 x, sm_info3 x, sm_result_code x, sm_n_ops x)"

definition rm_key :: "response_msg \<Rightarrow> msg_key" where
  "rm_key r = (rm_info1 r, rm_info3 r, rm_code r, length (rm_ops r))"

lemma msg_holds_key: "msg_holds r x \<Longrightarrow> sm_key x = rm_key r"
  by (simp add: msg_holds_def sm_key_def rm_key_def)

lemma msgs_hold_keys: "list_all2 msg_holds rs xs \<Longrightarrow> map sm_key xs = map rm_key rs"
  by (induction rule: list_all2_induct) (simp_all add: msg_holds_key)

locale stream_reader =
  fixes step :: "stream_msg \<Rightarrow> progress \<Rightarrow> progress"
    and ends :: "msg_key \<Rightarrow> bool"
    and gives :: "msg_key \<Rightarrow> bool"
    and res :: "msg_key \<Rightarrow> int \<Rightarrow> int"
  assumes step_done: "pg_done (step x p) \<longleftrightarrow> pg_done p \<or> ends (sm_key x)"
    and step_calls: "pg_calls (step x p) = pg_calls p @ (if gives (sm_key x) then [sm_call x] else [])"
    and step_rv: "pg_rv (step x p) = res (sm_key x) (pg_rv p)"
begin

lemma fold_done: "pg_done (fold step xs p) \<longleftrightarrow> pg_done p \<or> (\<exists>x \<in> set xs. ends (sm_key x))"
  by (induction xs arbitrary: p) (auto simp: step_done)

lemma fold_calls: "pg_calls (fold step xs p) = pg_calls p @ map sm_call (filter (\<lambda>x. gives (sm_key x)) xs)"
  by (induction xs arbitrary: p) (simp_all add: step_calls)

lemma fold_rv: "pg_rv (fold step xs p) = fold res (map sm_key xs) (pg_rv p)"
  by (induction xs arbitrary: p) (simp_all add: step_rv)

lemma ends_keys: "list_all2 msg_holds rs xs \<Longrightarrow> (\<exists>x \<in> set xs. ends (sm_key x)) \<longleftrightarrow> (\<exists>r \<in> set rs. ends (rm_key r))"
  using msgs_hold_keys [of rs xs] by (metis (no_types, lifting) image_iff list.set_map)

lemma calls_hold:
  "list_all2 msg_holds rs xs \<Longrightarrow>
     list_all2 call_holds (filter (\<lambda>r. gives (rm_key r)) rs) (map sm_call (filter (\<lambda>x. gives (sm_key x)) xs))"
proof (induction rule: list_all2_induct)
  case (Cons r rs x xs)
  then show ?case using msg_holds_key [OF Cons(1)] by (simp add: msg_holds_def)
qed simp

lemma body_msgs_ok:
  assumes "proto_env_ok env rs"
    and "rs \<noteq> [] \<longrightarrow> (\<exists>c. b = Some (concat (map msg_bytes rs) @ c) \<and> length (concat (map msg_bytes rs) @ c) < 2 ^ 31)"
  shows "\<exists>calls b' pg. body_msgs step env (length (concat (map msg_bytes rs))) b cs = Some (Msgs_Done b' pg) \<and>
    pg_calls pg = cs @ calls \<and> list_all2 call_holds (filter (\<lambda>r. gives (rm_key r)) rs) calls \<and>
    pg_rv pg = fold res (map rm_key rs) 0 \<and> (pg_done pg \<longleftrightarrow> (\<exists>r \<in> set rs. ends (rm_key r))) \<and>
    (\<forall>bs. b = Some bs \<longrightarrow> rs \<noteq> [] \<longrightarrow> length b' = length bs)"
proof (cases "rs = []")
  case True
  then show ?thesis by (simp add: body_msgs_def Let_def)
next
  case False
  let ?B = "concat (map msg_bytes rs)" and ?p = "\<lparr>pg_rv = 0, pg_done = False, pg_calls = cs\<rparr>"
  let ?st = "map (pe_stack_bins env) [0..<STACK_BINS]"
  obtain c where c: "b = Some (?B @ c)" "length (?B @ c) < 2 ^ 31" using assms(2) False by blast
  have "\<exists>xs b'. list_all2 msg_holds rs xs \<and> length b' = length ([] @ ?B @ c) \<and>
    read_msgs step (pe_msgs env) 0 (length ([] @ ?B)) 0 0 ?st ([] @ ?B @ c) ?p = Some (Msgs_Done b' (fold step xs ?p))"
    by (rule read_msgs_ok) (use assms(1) c in \<open>auto simp: proto_env_ok_def stack_ok_def\<close>)
  then obtain xs b' where x: "list_all2 msg_holds rs xs" "length b' = length (?B @ c)"
    "read_msgs step (pe_msgs env) 0 (length ?B) 0 0 ?st (?B @ c) ?p = Some (Msgs_Done b' (fold step xs ?p))" by auto
  have "length ?B \<noteq> 0" using False by simp
  then have "body_msgs step env (length ?B) b cs = Some (Msgs_Done b' (fold step xs ?p))"
    unfolding body_msgs_def Let_def c(1) bind.bind_lunit x(3) by (simp only: if_False)
  moreover have "map sm_key xs = map rm_key rs" using x(1) by (rule msgs_hold_keys)
  ultimately show ?thesis using x(2) c(1) calls_hold [OF x(1)] ends_keys [OF x(1)]
    by (intro exI [of _ "map sm_call (filter (\<lambda>x. gives (sm_key x)) xs)"] exI [of _ b'] exI [of _ "fold step xs ?p"])
      (simp add: fold_calls fold_rv fold_done)
qed

lemma read_stream_ok:
  assumes "list_all2 proto_env_ok envs (rss @ [rs])" and "rd_fine stack p" and "length proto = 8"
    and "\<forall>r \<in> set (concat rss). \<not> ends (rm_key r)" and "\<exists>r \<in> set rs. ends (rm_key r)"
  shows "\<exists>calls. read_stream step unzip (envs @ later) proto stack p cs =
      Some (Stream_Done (fold res (map rm_key rs) 0) (cs @ calls)) \<and>
    list_all2 call_holds (filter (\<lambda>r. gives (rm_key r)) (concat rss @ rs)) calls"
  using assms
proof (induction rss arbitrary: envs stack p proto cs)
  case Nil
  then obtain env where env: "envs = [env]" "proto_env_ok env rs" by (auto simp: list_all2_Cons2)
  from read_proto_ok [OF env(2) Nil.prems(2,3), of "unzip \<noteq> None"] obtain proto' stack' p' where r:
    "read_proto (unzip \<noteq> None) env proto stack p = Some (Proto CL_PROTO_TYPE_CL_MSG (length (concat (map msg_bytes rs))) proto' stack' p')"
    "rs \<noteq> [] \<longrightarrow> (\<exists>c. rd_at stack' p' = Some (concat (map msg_bytes rs) @ c) \<and> length (concat (map msg_bytes rs) @ c) < 2 ^ 31)"
    by (auto split: if_splits)
  have u: "uncompressed unzip env CL_PROTO_TYPE_CL_MSG sz stack' p' = Some (Some (sz, p'))" for sz
    by (simp add: uncompressed_def CL_PROTO_TYPE_CL_MSG_def CL_PROTO_TYPE_CL_MSG_COMPRESSED_def split: option.split)
  from body_msgs_ok [OF env(2) r(2), of cs] obtain calls b' pg where b:
    "body_msgs step env (length (concat (map msg_bytes rs))) (rd_at stack' p') cs = Some (Msgs_Done b' pg)"
    "pg_calls pg = cs @ calls" "list_all2 call_holds (filter (\<lambda>r. gives (rm_key r)) rs) calls"
    "pg_rv pg = fold res (map rm_key rs) 0" "pg_done pg" using Nil.prems(5) by blast
  then show ?case by (simp add: env(1) r(1) u b del: not_None_eq)
next
  case (Cons qs rss)
  then obtain env envs' where env: "envs = env # envs'" "proto_env_ok env qs" "list_all2 proto_env_ok envs' (rss @ [rs])"
    by (auto simp: list_all2_Cons2)
  from read_proto_ok [OF env(2) Cons.prems(2,3), of "unzip \<noteq> None"] obtain proto' stack' p' where r:
    "read_proto (unzip \<noteq> None) env proto stack p = Some (Proto CL_PROTO_TYPE_CL_MSG (length (concat (map msg_bytes qs))) proto' stack' p')"
    "length proto' = 8" "length stack' = STACK_BUF_SZ" "qs = [] \<longrightarrow> stack' = stack \<and> p' = p"
    "qs \<noteq> [] \<longrightarrow> (\<exists>c. rd_at stack' p' = Some (concat (map msg_bytes qs) @ c) \<and> length (concat (map msg_bytes qs) @ c) < 2 ^ 31)"
    by (auto split: if_splits)
  have u: "uncompressed unzip env CL_PROTO_TYPE_CL_MSG sz stack' p' = Some (Some (sz, p'))" for sz
    by (simp add: uncompressed_def CL_PROTO_TYPE_CL_MSG_def CL_PROTO_TYPE_CL_MSG_COMPRESSED_def split: option.split)
  have nd: "\<not> (\<exists>r \<in> set qs. ends (rm_key r))" using Cons.prems(4) by simp
  from body_msgs_ok [OF env(2) r(5), of cs] obtain calls b' pg where b:
    "body_msgs step env (length (concat (map msg_bytes qs))) (rd_at stack' p') cs = Some (Msgs_Done b' pg)"
    "pg_calls pg = cs @ calls" "list_all2 call_holds (filter (\<lambda>r. gives (rm_key r)) qs) calls"
    "\<not> pg_done pg" "\<forall>bs. rd_at stack' p' = Some bs \<longrightarrow> qs \<noteq> [] \<longrightarrow> length b' = length bs" using nd by blast
  obtain stack2 p2 where f: "rd_free stack' p' (length (concat (map msg_bytes qs))) b' = (stack2, p2)" by fastforce
  have fine: "rd_fine stack2 p2"
    using f r(3-5) b(5) Cons.prems(2) by (cases p'; cases "qs = []") (auto simp: rd_fine_def)
  have "\<exists>calls'. read_stream step unzip (envs' @ later) proto' stack2 p2 (cs @ calls) =
      Some (Stream_Done (fold res (map rm_key rs) 0) ((cs @ calls) @ calls')) \<and>
    list_all2 call_holds (filter (\<lambda>r. gives (rm_key r)) (concat rss @ rs)) calls'"
    by (rule Cons.IH) (use env(3) fine r(2) Cons.prems(4,5) in auto)
  then obtain calls' where IH: "read_stream step unzip (envs' @ later) proto' stack2 p2 (cs @ calls) =
      Some (Stream_Done (fold res (map rm_key rs) 0) ((cs @ calls) @ calls'))"
    "list_all2 call_holds (filter (\<lambda>r. gives (rm_key r)) (concat rss @ rs)) calls'" by blast
  have "list_all2 call_holds (filter (\<lambda>r. gives (rm_key r)) (concat (qs # rss) @ rs)) (calls @ calls')"
    using list_all2_appendI [OF b(3) IH(2)] by simp
  moreover have "read_stream step unzip (envs @ later) proto stack p cs =
      Some (Stream_Done (fold res (map rm_key rs) 0) (cs @ calls @ calls'))"
    using IH(1) by (simp add: env(1) r(1) u b(1,2,4) f del: not_None_eq)
  ultimately show ?case by blast
qed

end

text \<open>A result that starts at 0 and that no step makes negative is not negative at the end.\<close>

lemma read_msgs_rv:
  "read_msgs step envs i sz pos off st buf p = Some (Msgs_Done b pg) \<Longrightarrow> 0 \<le> pg_rv p \<Longrightarrow>
     (\<forall>x p. 0 \<le> pg_rv p \<longrightarrow> 0 \<le> pg_rv (step x p)) \<Longrightarrow> 0 \<le> pg_rv pg"
proof (induction step envs i sz pos off st buf p rule: read_msgs.induct)
  case (1 step envs i sz pos off st buf p)
  note eq = 1(2) [unfolded read_msgs.simps [of step envs i sz pos]]
  show ?case
  proof (cases "sz \<le> unat pos")
    case True
    then show ?thesis using eq 1(3) by simp
  next
    case False
    obtain r where r: "read_message (envs i) st buf off = Some r"
      using eq False by (cases "read_message (envs i) st buf off") simp_all
    show ?thesis
    proof (cases r)
      case (Msg x b' o' s')
      have "read_msgs step envs (Suc i) sz (pos + of_nat (o' - off)) o' s' b' (step x p) = Some (Msgs_Done b pg)"
        using eq False r Msg by simp
      then show ?thesis by (rule 1(1) [OF False r Msg]) (use 1(3,4) in simp_all)
    qed (use eq False r in simp_all)
  qed
qed

lemma read_stream_rv:
  assumes "\<forall>x p. 0 \<le> pg_rv p \<longrightarrow> 0 \<le> pg_rv (step x p)"
  shows "read_stream step unzip envs proto stack p cs = Some (Stream_Done rv calls) \<Longrightarrow> 0 \<le> rv"
proof (induction envs arbitrary: proto stack p cs)
  case (Cons env envs)
  from Cons.prems obtain r where r: "read_proto (unzip \<noteq> None) env proto stack p = Some r"
    by (auto simp: bind_eq_Some_conv simp del: not_None_eq)
  then obtain type sz proto' stack' p' where r': "r = Proto type sz proto' stack' p'"
    using Cons.prems by (cases r) (simp_all del: not_None_eq)
  from Cons.prems r r' obtain sz' p2 where u: "uncompressed unzip env type sz stack' p' = Some (Some (sz', p2))"
    by (auto simp: bind_eq_Some_conv simp del: not_None_eq split: option.splits)
  from Cons.prems r r' u obtain ms where ms: "body_msgs step env sz' (rd_at stack' p2) cs = Some ms"
    by (auto simp: bind_eq_Some_conv simp del: not_None_eq)
  then obtain b pg where m: "ms = Msgs_Done b pg" using Cons.prems r r' u by (cases ms) (simp_all del: not_None_eq)
  have pos: "0 \<le> pg_rv pg"
    using ms m read_msgs_rv [OF _ _ assms]
    by (fastforce simp: body_msgs_def Let_def bind_eq_Some_conv split: if_splits)
  obtain stack3 p3 where f: "rd_free stack' p2 sz' b = (stack3, p3)" by fastforce
  show ?case
  proof (cases "pg_done pg")
    case True
    then show ?thesis using Cons.prems r r' u ms m pos by (simp del: not_None_eq)
  next
    case False
    then have "read_stream step unzip envs proto' stack3 p3 (pg_calls pg) = Some (Stream_Done rv calls)"
      using Cons.prems r r' u ms m f by (simp del: not_None_eq)
    then show ?thesis by (rule Cons.IH)
  qed
qed simp

end
