(* ===== verification/Cl_Batch.thy ===== *)
theory Cl_Batch
  imports Cl_Stream Cl_Registry "HOL-Library.Multiset"
begin

section \<open>Batch requests (\<open>src/cl_batch.c\<close>)\<close>

text \<open>
  A batch request asks for many digests at once. Every digest is assigned to a node; each node
  gets one request with the digests that are its own, worked on by a pool of threads, and answers
  with a stream of records that the callback of the application receives.

  The threads of the pool work on different nodes; what they do to the memory of the nodes can be
  put in the order in which they finish, which is an argument, and the calls of the callback of
  different threads are interleaved in an order that is another one.
\<close>

subsection \<open>Uncompressing a body\<close>

text \<open>
  \<open>inflate\<close> is a parameter: from the compressed bytes and the room for the output it yields its
  return code and the bytes it wrote. Sizes that go through zlib's interface are 32 bits wide.
\<close>

type_synonym zlib = "block \<Rightarrow> nat \<Rightarrow> int \<times> block"

definition Z_STREAM_END :: int where "Z_STREAM_END = 1"

definition batch_decompress :: "zlib \<Rightarrow> bool \<Rightarrow> malloc_env \<Rightarrow> block option \<Rightarrow> nat \<Rightarrow> (block \<times> nat) option option" where
  "batch_decompress inflate init_ok e in_buf in_sz =
     (if \<not> init_ok then Some None
      else do {
        p \<leftarrow> in_buf;
        w \<leftarrow> load p 0 8;
        let b_sz_alloc = unat (le_word w :: u64);
        case malloc e b_sz_alloc of None \<Rightarrow> Some None
        | Some b \<Rightarrow> do {
            let avail_in = unat (of_nat in_sz - 8 :: u32);
            let avail_out = unat (of_nat b_sz_alloc :: u32);
            src \<leftarrow> load p 8 avail_in;
            let (rv, x) = inflate src avail_out;
            b \<leftarrow> store b 0 x;
            if rv \<noteq> Z_STREAM_END then Some None
            else Some (Some (b, b_sz_alloc - (avail_out - length x))) } })"

definition unzip_body :: "zlib \<Rightarrow> unzip" where
  "unzip_body inflate env b sz = batch_decompress inflate (pe_inflate_init env) (pe_inflate_malloc env) b sz"

subsection \<open>The request to a node\<close>

definition my_digests :: "block list \<Rightarrow> node_ptr list \<Rightarrow> node_ptr \<Rightarrow> block list" where
  "my_digests digests nodes my_node = map fst (filter (\<lambda>(d, p). p = my_node) (zip digests nodes))"

definition write_fields_batch_digests ::
  "block \<Rightarrow> nat \<Rightarrow> block option \<Rightarrow> block list \<Rightarrow> node_ptr list \<Rightarrow> nat \<Rightarrow> node_ptr \<Rightarrow> (block \<times> nat) option" where
  "write_fields_batch_digests buf mf ns digests nodes n_my_digests my_node = do {
     (buf, mf) \<leftarrow> (case ns of None \<Rightarrow> Some (buf, mf)
        | Some s \<Rightarrow> write_field buf mf CL_MSG_FIELD_TYPE_NAMESPACE (of_nat (length s) + 1) s);
     write_field buf mf CL_MSG_FIELD_TYPE_DIGEST_RIPE_ARRAY (of_nat (20 * n_my_digests) + 1)
       (concat (my_digests digests nodes my_node)) }"

text \<open>The bits of the write policy; unlike \<open>cl_compile\<close>, without the one for unique bins.\<close>

definition batch_policy :: "cl_write_parameters option \<Rightarrow> u32 \<Rightarrow> u32 \<times> u32" where
  "batch_policy w info2 = (case w of None \<Rightarrow> (info2, 0)
     | Some w \<Rightarrow>
         if w_unique w then (info2 OR CL_MSG_INFO2_WRITE_UNIQUE, 0)
         else if w_use_generation w then (info2 OR CL_MSG_INFO2_GENERATION, w_generation w)
         else if w_use_generation_gt w then (info2 OR CL_MSG_INFO2_GENERATION_GT, w_generation w)
         else if w_use_generation_dup w then (info2 OR CL_MSG_INFO2_GENERATION_DUP, w_generation w)
         else (info2, 0))"

text \<open>
  \<open>batch_compile\<close>: one byte too many is counted for the digests, and the header announces two
  fields, with or without a namespace. The sizing loop reads \<open>values\<close> even when operations are given.
\<close>

definition batch_compile :: "malloc_env \<Rightarrow> u32 \<Rightarrow> u32 \<Rightarrow> block option \<Rightarrow> block list \<Rightarrow> node_ptr list \<Rightarrow> node_ptr \<Rightarrow> nat \<Rightarrow>
    cl_bin list option \<Rightarrow> cl_operator \<Rightarrow> cl_operation list option \<Rightarrow> nat \<Rightarrow> block option \<Rightarrow> nat \<Rightarrow>
    cl_write_parameters option \<Rightarrow> (int \<times> block option \<times> nat) option" where
  "batch_compile env info1 info2 ns0 digests nodes my_node n_my_digests values operator operations n_values buf_r buf_sz_r w = do {
     ns \<leftarrow> opt_c_str ns0;
     r \<leftarrow> ops_size values None 0 n_values
            (30 + (case ns of None \<Rightarrow> 0 | Some s \<Rightarrow> length s + 5) + (5 + 1 + 20 * n_my_digests));
     case r of Inl _ \<Rightarrow> Some (- 1, buf_r, buf_sz_r)
     | Inr msg_sz \<Rightarrow>
       (case pick_buf env buf_r buf_sz_r msg_sz of None \<Rightarrow> Some (- 1, buf_r, buf_sz_r)
        | Some (p, new) \<Rightarrow> do {
            buf \<leftarrow> p;
            buf \<leftarrow> memset0 buf 0 msg_sz;
            let (info2, generation) = batch_policy w info2;
            let record_ttl = (case w of None \<Rightarrow> 0 | Some w \<Rightarrow> w_record_ttl w);
            let transaction_ttl = (case w of None \<Rightarrow> 0 | Some w \<Rightarrow> w_timeout_ms w);
            (buf, mf) \<leftarrow> cl_write_header buf msg_sz info1 info2 0 generation record_ttl transaction_ttl 2 (of_nat n_values);
            (buf, op) \<leftarrow> write_fields_batch_digests buf mf ns digests nodes n_my_digests my_node;
            buf \<leftarrow> write_ops values operator operations 0 n_values buf op;
            Some (0, Some buf, msg_sz) }) }"

subsection \<open>One request and its answer\<close>

text \<open>
  After a message: an error of the batch ends it and is the result, the last message ends it, and
  a record is handed to the callback, which makes the result 0.
\<close>

definition batch_fails :: "u8 \<Rightarrow> bool" where
  "batch_fails code \<longleftrightarrow> code \<noteq> CL_RESULT_OK \<and> code \<noteq> CL_RESULT_NOTFOUND"

definition batch_gives :: "bool \<Rightarrow> u8 \<Rightarrow> nat \<Rightarrow> bool" where
  "batch_gives cb info1 n_ops \<longleftrightarrow> cb \<and> (n_ops \<noteq> 0 \<or> ucast info1 AND CL_MSG_INFO1_NOBINDATA \<noteq> 0)"

definition batch_step :: "bool \<Rightarrow> stream_msg \<Rightarrow> progress \<Rightarrow> progress" where
  "batch_step cb x p =
     (let p = (if batch_fails (sm_result_code x) then p\<lparr>pg_rv := int (unat (sm_result_code x)), pg_done := True\<rparr> else p);
          p = (if sm_info3 x AND CL_MSG_INFO3_LAST \<noteq> 0 then p\<lparr>pg_done := True\<rparr> else p) in
      if batch_gives cb (sm_info1 x) (sm_n_ops x) then p\<lparr>pg_calls := pg_calls p @ [sm_call x], pg_rv := 0\<rparr> else p)"

record batch_env =
  be_compile :: malloc_env
  be_conn :: conn_env
  be_write_ok :: bool
  be_restore_ok :: bool
  be_write :: "(nat + int) list"
  be_stack :: "nat \<Rightarrow> u8"
  be_protos :: "proto_env list"
  be_during :: "mem \<times> cl_cluster \<Rightarrow> mem \<times> cl_cluster"
  be_pool :: malloc_env

datatype batch_result = Batch_Ret int mem cl_cluster "delivery list" | Batch_Busy "delivery list"

text \<open>
  One of the works in the queue; \<open>dw_cb\<close> tells whether there is a callback. A thread without an
  answer stays busy.
\<close>

record digest_work =
  dw_info1 :: u32
  dw_info2 :: u32
  dw_ns :: block
  dw_digests :: "block list"
  dw_nodes :: "node_ptr list"
  dw_bins :: "cl_bin list option"
  dw_operator :: cl_operator
  dw_operations :: "cl_operation list option"
  dw_n_ops :: nat
  dw_cb :: bool
  dw_my_node :: node_ptr
  dw_my_node_digest_count :: nat

definition do_batch_monte :: "zlib \<Rightarrow> batch_env \<Rightarrow> mem \<Rightarrow> cl_cluster \<Rightarrow> digest_work \<Rightarrow> batch_result option" where
  "do_batch_monte inflate e m asc w = do {
     (rv, wr, wr_sz) \<leftarrow> batch_compile (be_compile e) (dw_info1 w) (dw_info2 w) (Some (dw_ns w)) (dw_digests w) (dw_nodes w)
        (dw_my_node w) (dw_my_node_digest_count w) (dw_bins w) (dw_operator w) (dw_operations w) (dw_n_ops w)
        (Some (map (be_stack e) [0..<STACK_BUF_SZ])) STACK_BUF_SZ None;
     if rv \<noteq> 0 then Some (Batch_Ret rv m asc [])
     else do {
       (fd, m) \<leftarrow> cl_cluster_node_fd_get (be_conn e) m (dw_my_node w) False (cs_nbconnect asc);
       if fd = - 1 then Some (Batch_Ret (- 1) m asc [])
       else
         case cf_socket_write_forever (be_write_ok e) (be_restore_ok e) (be_write e) wr_sz of
           Waiting \<Rightarrow> Some (Batch_Busy [])
         | Returned (rv, _) \<Rightarrow>
             if rv \<noteq> 0 then Some (Batch_Ret (- 1) (close_fd m fd) asc [])
             else do {
               r \<leftarrow> read_stream (batch_step (dw_cb w)) (Some (unzip_body inflate)) (be_protos e)
                      (map (be_stack e) [0..<8]) (map (be_stack e) [0..<STACK_BUF_SZ]) At_Null [];
               let (m, asc) = be_during e (m, asc);
               case r of
                 Stream_Busy calls \<Rightarrow> Some (Batch_Busy calls)
               | Stream_Failed calls \<Rightarrow> Some (Batch_Ret (- 1) (close_fd m fd) asc calls)
               | Stream_Done rv calls \<Rightarrow>
                   if rv = 0 then do {
                     cn \<leftarrow> m_nodes m (dw_my_node w);
                     m \<leftarrow> cl_cluster_node_fd_put (be_pool e)
                            (put_node m (dw_my_node w) (cn\<lparr>cn_intervals_unreachable := 0\<rparr>)) (dw_my_node w) fd False;
                     Some (Batch_Ret 0 m asc calls) }
                   else Some (Batch_Ret rv (close_fd m fd) asc calls) } } }"

subsection \<open>A call: the works and the threads\<close>

definition MAX_BATCH_THREADS :: int where "MAX_BATCH_THREADS = 6"
definition MAX_NODES :: nat where "MAX_NODES = 32"

text \<open>
  The pool: how often it was asked for, whether its queue exists, and the number of threads. A
  pool is made once; the shutdown removes the queue and leaves the other two as they are.
\<close>

record batch_pool =
  bp_initialized :: u32
  bp_queue :: bool
  bp_threads :: int

definition citrusleaf_batch_init :: "bool \<Rightarrow> batch_pool \<Rightarrow> int \<Rightarrow> batch_pool" where
  "citrusleaf_batch_init alloc_ok bp n_threads =
     (let bp = bp\<lparr>bp_initialized := bp_initialized bp + 1\<rparr> in
      if bp_initialized bp \<noteq> 1 then bp
      else bp\<lparr>bp_queue := alloc_ok, bp_threads :=
        (if n_threads \<le> 0 then 1 else if n_threads > MAX_BATCH_THREADS then MAX_BATCH_THREADS else n_threads)\<rparr>)"

definition citrusleaf_batch_shutdown :: "bool \<Rightarrow> batch_pool \<Rightarrow> batch_pool option" where
  "citrusleaf_batch_shutdown same_process bp =
     (if bp_threads bp \<le> 0 \<or> \<not> same_process then Some bp
      else if \<not> bp_queue bp then None
      else Some (bp\<lparr>bp_queue := False\<rparr>))"

text \<open>
  The loop that assigns a node to every digest. Other threads may act before every turn. When
  there is no node at all the nodes found so far are lost, and with them their references.
\<close>

fun digest_nodes ::
  "(nat \<Rightarrow> mem \<times> cl_cluster \<Rightarrow> mem \<times> cl_cluster) \<Rightarrow> nat \<Rightarrow> mem \<Rightarrow> cl_cluster \<Rightarrow> block \<Rightarrow> block list \<Rightarrow> node_ptr list \<Rightarrow>
   (node_ptr list option \<times> mem \<times> cl_cluster) option" where
  "digest_nodes others i m asc ns [] acc = Some (Some acc, m, asc)"
| "digest_nodes others i m asc ns (d # ds) acc = do {
     let (m, asc) = others i (m, asc);
     (x, m, asc) \<leftarrow> cl_cluster_node_get m asc ns d True;
     (x, m, asc) \<leftarrow> (case x of Some p \<Rightarrow> Some (Some p, m, asc) | None \<Rightarrow> cl_cluster_node_get_random m asc);
     case x of None \<Rightarrow> Some (None, m, asc)
     | Some p \<Rightarrow> digest_nodes others (Suc i) m asc ns ds (acc @ [p]) }"

text \<open>
  The set of these nodes, and how many digests each has: two arrays on the stack with room for
  32 nodes.
\<close>

fun count_node :: "node_ptr \<Rightarrow> (node_ptr \<times> nat) list \<Rightarrow> (node_ptr \<times> nat) list option" where
  "count_node p [] = None"
| "count_node p ((q, n) # us) = (if q = p then Some ((q, Suc n) # us) else map_option (Cons (q, n)) (count_node p us))"

fun unique_nodes :: "(node_ptr \<times> nat) list \<Rightarrow> node_ptr list \<Rightarrow> (node_ptr \<times> nat) list option" where
  "unique_nodes us [] = Some us"
| "unique_nodes us (p # ps) =
     (case count_node p us of Some us \<Rightarrow> unique_nodes us ps
      | None \<Rightarrow> if length us < MAX_NODES then unique_nodes (us @ [(p, 1)]) ps else None)"

text \<open>
  The threads at work, in the order in which they finish; an order that leaves one out is that
  of a call that still waits. The completion queue brings their
  results to the caller, and the last one that is not 0 is the result.
\<close>

fun run_works ::
  "zlib \<Rightarrow> (nat \<Rightarrow> batch_env) \<Rightarrow> digest_work list \<Rightarrow> nat list \<Rightarrow> mem \<Rightarrow> cl_cluster \<Rightarrow>
   (int list \<times> mem \<times> cl_cluster \<times> delivery list list) outcome option" where
  "run_works inflate envs works [] m asc = Some (Returned ([], m, asc, []))"
| "run_works inflate envs works (i # order) m asc = do {
     w \<leftarrow> (if i < length works then Some (works ! i) else None);
     r \<leftarrow> do_batch_monte inflate (envs i) m asc w;
     case r of Batch_Busy _ \<Rightarrow> Some Waiting
     | Batch_Ret z m asc calls \<Rightarrow> do {
         r \<leftarrow> run_works inflate envs works order m asc;
         case r of Waiting \<Rightarrow> Some Waiting
         | Returned (zs, m, asc, css) \<Rightarrow> Some (Returned (z # zs, m, asc, calls # css)) } }"

definition batch_retval :: "int list \<Rightarrow> int" where
  "batch_retval zs = fold (\<lambda>z retval. if z \<noteq> 0 then z else retval) zs 0"

text \<open>An interleaving of the calls of several threads, by the numbers of those that are to be next.\<close>

fun interleave :: "nat list \<Rightarrow> 'a list list \<Rightarrow> 'a list" where
  "interleave [] css = concat css"
| "interleave (i # s) css =
     (if i < length css \<and> css ! i \<noteq> [] then hd (css ! i) # interleave s (css[i := tl (css ! i)]) else interleave s css)"

record call_env =
  co_pool_ok :: bool
  co_nodes_ok :: bool
  co_complete_ok :: bool
  co_others :: "nat \<Rightarrow> mem \<times> cl_cluster \<Rightarrow> mem \<times> cl_cluster"
  co_works :: "nat \<Rightarrow> batch_env"
  co_order :: "nat list"
  co_schedule :: "nat list"

fun put_all :: "mem \<Rightarrow> node_ptr list \<Rightarrow> mem option" where
  "put_all m [] = Some m"
| "put_all m (p # ps) = do { m \<leftarrow> cl_cluster_node_put m p; put_all m ps }"

definition works_for ::
  "block \<Rightarrow> block list \<Rightarrow> node_ptr list \<Rightarrow> cl_bin list option \<Rightarrow> nat \<Rightarrow> bool \<Rightarrow> bool \<Rightarrow> (node_ptr \<times> nat) list \<Rightarrow> digest_work list" where
  "works_for ns digests nodes bins n_bins get_bin_data cb us =
     map (\<lambda>(p, n). \<lparr>dw_info1 = CL_MSG_INFO1_READ OR (if get_bin_data then 0 else CL_MSG_INFO1_NOBINDATA), dw_info2 = 0,
       dw_ns = ns, dw_digests = digests, dw_nodes = nodes, dw_bins = bins, dw_operator = CL_OP_READ, dw_operations = None,
       dw_n_ops = n_bins, dw_cb = cb, dw_my_node = p, dw_my_node_digest_count = n\<rparr>) us"

definition do_get_exists_many_digest ::
  "zlib \<Rightarrow> call_env \<Rightarrow> batch_pool \<Rightarrow> mem \<Rightarrow> cl_cluster \<Rightarrow> block \<Rightarrow> block list \<Rightarrow> cl_bin list option \<Rightarrow> nat \<Rightarrow> bool \<Rightarrow> bool \<Rightarrow>
   (int \<times> batch_pool \<times> mem \<times> cl_cluster \<times> delivery list) outcome option" where
  "do_get_exists_many_digest inflate co bp m asc ns digests bins n_bins get_bin_data cb = do {
     let bp = (if bp_initialized bp = 0 then citrusleaf_batch_init (co_pool_ok co) bp MAX_BATCH_THREADS else bp);
     if \<not> co_nodes_ok co then Some (Returned (- 1, bp, m, asc, []))
     else do {
       name \<leftarrow> c_str ns;
       (nodes, m, asc) \<leftarrow> digest_nodes (co_others co) 0 m asc name digests [];
       case nodes of None \<Rightarrow> Some (Returned (- 1, bp, m, asc, []))
       | Some nodes \<Rightarrow> do {
           us \<leftarrow> unique_nodes [] nodes;
           let works = works_for ns digests nodes bins n_bins get_bin_data cb us;
           if \<not> co_complete_ok co \<or> works \<noteq> [] \<and> \<not> bp_queue bp then None
           else do {
             r \<leftarrow> run_works inflate (co_works co) works
                    (filter (\<lambda>i. i < length works) (remdups (co_order co))) m asc;
             case r of Waiting \<Rightarrow> Some Waiting
             | Returned (zs, m, asc, css) \<Rightarrow>
                 if length zs < length works then Some Waiting
                 else do {
                   m \<leftarrow> put_all m nodes;
                   Some (Returned (batch_retval zs, bp, m, asc, interleave (co_schedule co) css)) } } } } }"

definition citrusleaf_get_many_digest ::
  "zlib \<Rightarrow> call_env \<Rightarrow> batch_pool \<Rightarrow> mem \<Rightarrow> cl_cluster \<Rightarrow> block \<Rightarrow> block list \<Rightarrow> cl_bin list option \<Rightarrow> nat \<Rightarrow> bool \<Rightarrow>
   (int \<times> batch_pool \<times> mem \<times> cl_cluster \<times> delivery list) outcome option" where
  "citrusleaf_get_many_digest inflate co bp m asc ns digests bins n_bins cb =
     do_get_exists_many_digest inflate co bp m asc ns digests bins n_bins True cb"

definition citrusleaf_exists_many_digest ::
  "zlib \<Rightarrow> call_env \<Rightarrow> batch_pool \<Rightarrow> mem \<Rightarrow> cl_cluster \<Rightarrow> block \<Rightarrow> block list \<Rightarrow> cl_bin list option \<Rightarrow> nat \<Rightarrow> bool \<Rightarrow>
   (int \<times> batch_pool \<times> mem \<times> cl_cluster \<times> delivery list) outcome option" where
  "citrusleaf_exists_many_digest inflate co bp m asc ns digests bins n_bins cb =
     do_get_exists_many_digest inflate co bp m asc ns digests bins n_bins False cb"

subsection \<open>Collecting the records\<close>

record cl_rec =
  r_digest :: block
  r_generation :: u32
  r_record_voidtime :: u32
  r_bins :: "cl_bin list"

text \<open>
  The array of a batch result has room for one record per digest; \<open>br_records\<close> is its used part.
  A record whose bins cannot be copied is left out, with a message that prints its digest.
\<close>

record cl_batchresult =
  br_room :: nat
  br_records :: "cl_rec list"

definition direct_batchget_cb :: "malloc_env \<Rightarrow> malloc_env list \<Rightarrow> delivery \<Rightarrow> cl_batchresult \<Rightarrow> cl_batchresult option" where
  "direct_batchget_cb e envs d br = do {
     (rv, targetBins) \<leftarrow> citrusleaf_copy_bins e envs (d_bins d);
     off \<leftarrow> d_keyd d;
     digest \<leftarrow> load (d_buf d) off 20;
     if rv \<noteq> 0 then Some br
     else if length (br_records br) < br_room br then do {
       bs \<leftarrow> targetBins;
       Some (br\<lparr>br_records := br_records br @ [\<lparr>r_digest = digest, r_generation = d_generation d,
         r_record_voidtime = d_ttl d, r_bins = bs\<rparr>]\<rparr>) }
     else None }"

fun direct_calls :: "(nat \<Rightarrow> malloc_env \<times> malloc_env list) \<Rightarrow> nat \<Rightarrow> delivery list \<Rightarrow> cl_batchresult \<Rightarrow> cl_batchresult option" where
  "direct_calls copies i [] br = Some br"
| "direct_calls copies i (d # ds) br = do {
     br \<leftarrow> direct_batchget_cb (fst (copies i)) (snd (copies i)) d br;
     direct_calls copies (Suc i) ds br }"

text \<open>\<open>citrusleaf_get_many_digest_direct\<close>: only a failure of the client is handed on; then there is no result.\<close>

definition citrusleaf_get_many_digest_direct ::
  "zlib \<Rightarrow> call_env \<Rightarrow> bool \<Rightarrow> bool \<Rightarrow> (nat \<Rightarrow> malloc_env \<times> malloc_env list) \<Rightarrow> batch_pool \<Rightarrow> mem \<Rightarrow> cl_cluster \<Rightarrow> block \<Rightarrow> block list \<Rightarrow>
   (int \<times> cl_batchresult option \<times> batch_pool \<times> mem \<times> cl_cluster) outcome option" where
  "citrusleaf_get_many_digest_direct inflate co br_ok records_ok copies bp m asc ns digests =
     (if \<not> (br_ok \<and> records_ok) then Some (Returned (CITRUSLEAF_FAIL_CLIENT, None, bp, m, asc))
      else do {
        r \<leftarrow> citrusleaf_get_many_digest inflate co bp m asc ns digests None 0 True;
        case r of Waiting \<Rightarrow> Some Waiting
        | Returned (rv, bp, m, asc, calls) \<Rightarrow> do {
            br \<leftarrow> direct_calls copies 0 calls \<lparr>br_room = length digests, br_records = []\<rparr>;
            if rv = CITRUSLEAF_FAIL_CLIENT then Some (Returned (CITRUSLEAF_FAIL_CLIENT, None, bp, m, asc))
            else Some (Returned (CITRUSLEAF_OK, Some br, bp, m, asc)) } })"

subsection \<open>What is sent\<close>

definition batch_fields :: "block option \<Rightarrow> block list \<Rightarrow> block" where
  "batch_fields ns my =
     opt_field CL_MSG_FIELD_TYPE_NAMESPACE ns @ field_bytes CL_MSG_FIELD_TYPE_DIGEST_RIPE_ARRAY (concat my)"

lemma batch_fields_ok:
  assumes "mf + length (batch_fields ns my) \<le> length buf" and "length buf < 2 ^ 32" and "my = my_digests digests nodes p" and "length my = n" and "\<forall>d \<in> set my. length d = 20"
  shows "write_fields_batch_digests buf mf ns digests nodes n p =
    Some (ov buf mf (batch_fields ns my), mf + length (batch_fields ns my))"
  using write_fields_digests_ok [of mf ns my buf] assms unfolding batch_fields_def
  by (simp add: write_fields_batch_digests_def write_fields_digests_def)

definition batch_size :: "block option \<Rightarrow> nat \<Rightarrow> (cl_operator \<times> cl_bin) list \<Rightarrow> nat" where
  "batch_size ns n l = 30 + (case ns of None \<Rightarrow> 0 | Some s \<Rightarrow> length s + 5) + (5 + 1 + 20 * n) + length (ops_bytes l)"

definition batch_bytes :: "u32 \<Rightarrow> u32 \<Rightarrow> block option \<Rightarrow> block list \<Rightarrow> (cl_operator \<times> cl_bin) list \<Rightarrow>
    cl_write_parameters option \<Rightarrow> block" where
  "batch_bytes info1 info2 ns my l w =
     header_bytes (batch_size ns (length my) l) info1 (fst (batch_policy w info2)) 0 (snd (batch_policy w info2))
       (case w of None \<Rightarrow> 0 | Some w \<Rightarrow> w_record_ttl w) (case w of None \<Rightarrow> 0 | Some w \<Rightarrow> w_timeout_ms w) 2 (of_nat (length l)) @
     batch_fields ns my @ ops_bytes l @ [0]"

lemma batch_compile_ok:
  assumes ns: "opt_c_str ns0 = Some ns" and l: "l = op_args values operator None" and ok: "\<forall>a \<in> set l. arg_ok a"
    and my: "my = my_digests digests nodes p" "length my = n" "\<forall>d \<in> set my. length d = 20"
    and sz: "batch_size ns n l \<le> length b" "length b < 2 ^ 32"
    and p: "pick_buf env buf_r buf_sz_r (batch_size ns n l) = Some (Some b, new)"
  shows "batch_compile env i1 i2 ns0 digests nodes p n values operator None (length l) buf_r buf_sz_r w =
    Some (0, Some (batch_bytes i1 i2 ns my l w @ drop (batch_size ns n l) b), batch_size ns n l)"
proof -
  let ?M = "batch_size ns n l" and ?O = "ops_bytes l"
  let ?F = "batch_fields ns my"
  let ?H = "header_bytes ?M i1 (fst (batch_policy w i2)) 0 (snd (batch_policy w i2))
       (case w of None \<Rightarrow> 0 | Some w \<Rightarrow> w_record_ttl w) (case w of None \<Rightarrow> 0 | Some w \<Rightarrow> w_timeout_ms w) 2 (of_nat (length l))"
  let ?R = "replicate (?M - 30) 0 @ drop ?M b"
  have c: "length (concat my) = 20 * n" using my(2,3) by (induction my arbitrary: n) auto
  have M: "?M = 30 + length ?F + 1 + length ?O"
    by (cases ns) (simp_all add: batch_size_def batch_fields_def opt_field_simps c)
  have os: "ops_size values None 0 (length l) (30 + (case ns of None \<Rightarrow> 0 | Some s \<Rightarrow> length s + 5) + (5 + 1 + 20 * n)) = Some (Inr ?M)"
    using ops_size_ok [of 0 "length l" "values" operator None] ok l by (simp add: batch_size_def)
  have "?M = 30 + (?M - 30)" using M by simp
  then have "replicate ?M (0 :: u8) = replicate 30 0 @ replicate (?M - 30) 0" by (metis replicate_add)
  then have ms: "memset0 b 0 ?M = Some (replicate 30 0 @ ?R)" using sz(1) by (simp add: memset0_def)
  have hd: "cl_write_header (replicate 30 0 @ ?R) ?M i1 (fst (batch_policy w i2)) 0 (snd (batch_policy w i2))
       (case w of None \<Rightarrow> 0 | Some w \<Rightarrow> w_record_ttl w) (case w of None \<Rightarrow> 0 | Some w \<Rightarrow> w_timeout_ms w)
       2 (of_nat (length l)) = Some (?H @ ?R, 30)"
    by (rule cl_write_header_at) simp
  have len: "length (?H @ ?R) = length b" using sz(1) M by simp
  have wf: "write_fields_batch_digests (?H @ ?R) 30 ns digests nodes n p = Some (ov (?H @ ?R) 30 ?F, 30 + length ?F)"
    by (rule batch_fields_ok) (use my sz M len in auto)
  have wo: "write_ops values operator None 0 (length l) (ov (?H @ ?R) 30 ?F) (30 + length ?F) =
      Some (ov (ov (?H @ ?R) 30 ?F) (30 + length ?F) ?O)"
    using write_ops_ok [of 0 "length l" "values" operator None "30 + length ?F" "ov (?H @ ?R) 30 ?F"]
      ok l sz M len by simp
  have "ov (ov (?H @ ?R) 30 ?F) (30 + length ?F) ?O = ov (?H @ ?R) 30 (?F @ ?O)"
    using M sz(1) len by (intro ov_ov) auto
  also have "\<dots> = ?H @ (?F @ ?O) @ drop (length (?F @ ?O)) ?R"
    by (rule ov_append) (use M in auto)
  also have "drop (length (?F @ ?O)) ?R = [0] @ drop ?M b"
  proof -
    have "?M - 30 = length (?F @ ?O) + 1" using M by simp
    then show ?thesis by (simp only: replicate_add append_assoc) simp
  qed
  finally have fin: "ov (ov (?H @ ?R) 30 ?F) (30 + length ?F) ?O = batch_bytes i1 i2 ns my l w @ drop ?M b"
    using my(2) by (simp add: batch_bytes_def)
  show ?thesis unfolding batch_compile_def ns bind.bind_lunit os sum.case p option.case prod.case ms Let_def
    by (simp add: case_prod_beta hd wf wo fin)
qed

lemma batch_compile_layout:
  assumes "opt_c_str ns0 = Some ns" and "\<forall>a \<in> set (op_args values operator None). arg_ok a"
    and "length (my_digests digests nodes p) = n" and "\<forall>d \<in> set (my_digests digests nodes p). length d = 20"
    and "buf_sz_r \<le> length b" and "length b < 2 ^ 32" and "batch_size ns n (op_args values operator None) < 2 ^ 32"
    and "buf_sz_r < batch_size ns n (op_args values operator None) \<longrightarrow> env \<noteq> None"
  shows "\<exists>tail. batch_compile env i1 i2 ns0 digests nodes p n values operator None (length (op_args values operator None))
      (Some b) buf_sz_r w =
    Some (0, Some (batch_bytes i1 i2 ns (my_digests digests nodes p) (op_args values operator None) w @ tail),
      batch_size ns n (op_args values operator None))"
proof -
  let ?M = "batch_size ns n (op_args values operator None)"
  obtain b' new where p: "pick_buf env (Some b) buf_sz_r ?M = Some (Some b', new)" "?M \<le> length b'" "length b' < 2 ^ 32"
  proof (cases "buf_sz_r < ?M")
    case True
    then show ?thesis using assms(7,8) that by (auto simp: pick_buf_def)
  next
    case False
    then show ?thesis using assms(5,6) that by (auto simp: pick_buf_def)
  qed
  show ?thesis using batch_compile_ok [OF assms(1) refl assms(2) refl assms(3,4) p(2,3,1)] by blast
qed

subsection \<open>Every digest is asked for once\<close>

lemma count_node_None: "count_node p us = None \<longleftrightarrow> p \<notin> fst ` set us"
  by (induction us) (auto simp: image_iff split: if_splits)

definition digests_of :: "node_ptr list \<Rightarrow> (node_ptr \<times> nat) list \<Rightarrow> bool" where
  "digests_of ps us \<longleftrightarrow> distinct (map fst us) \<and> fst ` set us = set ps \<and>
     (\<forall>(p, n) \<in> set us. length (filter (\<lambda>q. q = p) ps) = n)"

lemma count_node_Some:
  "count_node p us = Some vs \<Longrightarrow> map fst vs = map fst us \<and> distinct (map fst us) \<longrightarrow>
     (\<forall>q n. (q, n) \<in> set vs \<longleftrightarrow> (if q = p then 0 < n \<and> (p, n - 1) \<in> set us else (q, n) \<in> set us))"
proof (induction us arbitrary: vs)
  case (Cons u us)
  obtain q n where u: "u = (q, n)" by fastforce
  show ?case
  proof (cases "q = p")
    case True
    then have v: "vs = (p, Suc n) # us" using Cons.prems u by simp
    have "(p, k) \<notin> set us" if "distinct (map fst (u # us))" for k
      using that u True by force
    then show ?thesis using u True v by (auto simp: gr0_conv_Suc)
  next
    case False
    then obtain ws where w: "count_node p us = Some ws" "vs = (q, n) # ws" using Cons.prems u by auto
    from Cons.IH [OF w(1)] show ?thesis using u False w(2) by auto
  qed
qed simp

lemma count_node_keys: "count_node p us = Some vs \<Longrightarrow> map fst vs = map fst us"
  by (induction us arbitrary: vs) (auto split: if_splits)

lemma unique_nodes_ok:
  assumes "unique_nodes us ps = Some vs" and "digests_of qs us" and "length us \<le> MAX_NODES"
  shows "digests_of (qs @ ps) vs \<and> length vs \<le> MAX_NODES"
  using assms
proof (induction ps arbitrary: us qs)
  case (Cons p ps)
  show ?case
  proof (cases "count_node p us")
    case None
    then have l: "length us < MAX_NODES" and u: "unique_nodes (us @ [(p, 1)]) ps = Some vs"
      using Cons.prems(1) by (auto split: if_splits)
    have p: "p \<notin> fst ` set us" using None by (simp add: count_node_None)
    then have "p \<notin> set qs" using Cons.prems(2) by (simp add: digests_of_def)
    then have "filter (\<lambda>q. q = p) qs = []" by (auto simp: filter_empty_conv)
    moreover have "q \<noteq> p" if "(q, n) \<in> set us" for q n using p that by force
    ultimately have "digests_of (qs @ [p]) (us @ [(p, 1)])"
      using Cons.prems(2) p by (fastforce simp: digests_of_def)
    from Cons.IH [OF u this] l show ?thesis by simp
  next
    case (Some ws)
    then have u: "unique_nodes ws ps = Some vs" using Cons.prems(1) by simp
    have k: "map fst ws = map fst us" using Some by (rule count_node_keys)
    have d: "distinct (map fst us)" using Cons.prems(2) by (simp add: digests_of_def)
    have m: "\<forall>q n. (q, n) \<in> set ws \<longleftrightarrow> (if q = p then 0 < n \<and> (p, n - 1) \<in> set us else (q, n) \<in> set us)"
      using count_node_Some [OF Some] k d by simp
    have "p \<in> fst ` set us" using Some count_node_None [of p us] by auto
    moreover have "fst ` set ws = fst ` set us" using k by (metis list.set_map)
    moreover have "length (filter (\<lambda>q. q = r) (qs @ [p])) = n" if "(r, n) \<in> set ws" for r n
    proof (cases "r = p")
      case True
      then have "0 < n" "(p, n - 1) \<in> set us" using m that by auto
      then show ?thesis using Cons.prems(2) True by (fastforce simp: digests_of_def)
    next
      case False
      then have "(r, n) \<in> set us" using m that by auto
      then show ?thesis using Cons.prems(2) False by (fastforce simp: digests_of_def)
    qed
    ultimately have "digests_of (qs @ [p]) ws" using Cons.prems(2) k d by (auto simp: digests_of_def)
    moreover have "length ws \<le> MAX_NODES" using k Cons.prems(3) by (metis length_map)
    ultimately show ?thesis using Cons.IH [OF u, of "qs @ [p]"] by simp
  qed
qed simp

lemma unique_nodes_fault:
  assumes "digests_of qs us" and "length us \<le> MAX_NODES"
  shows "unique_nodes us ps = None \<longleftrightarrow> MAX_NODES < card (set (qs @ ps))"
  using assms
proof (induction ps arbitrary: us qs)
  case Nil
  have "card (set qs) = length us"
    using Nil.prems(1) distinct_card [of "map fst us"] by (simp add: digests_of_def)
  then show ?case using Nil.prems(2) by simp
next
  case (Cons p ps)
  have one: "unique_nodes us [p] = None \<longleftrightarrow> count_node p us = None \<and> length us = MAX_NODES"
    using Cons.prems(2) by (auto split: option.splits)
  show ?case
  proof (cases "unique_nodes us [p]")
    case None
    then have c: "count_node p us = None" "length us = MAX_NODES" using one by auto
    have "card (set qs) = length us"
      using Cons.prems(1) distinct_card [of "map fst us"] by (simp add: digests_of_def)
    moreover have "p \<notin> set qs" using c(1) Cons.prems(1) by (simp add: count_node_None digests_of_def)
    ultimately have "card (insert p (set qs)) = Suc MAX_NODES" using c(2) by simp
    moreover have "card (insert p (set qs)) \<le> card (set (qs @ p # ps))" by (rule card_mono) auto
    ultimately show ?thesis using c by simp
  next
    case (Some vs)
    then have "unique_nodes us (p # ps) = unique_nodes vs ps" by (auto split: option.splits if_splits)
    moreover have "digests_of (qs @ [p]) vs \<and> length vs \<le> MAX_NODES"
      using unique_nodes_ok [OF Some Cons.prems] .
    ultimately show ?thesis using Cons.IH [of "qs @ [p]" vs] by simp
  qed
qed

lemma my_digests_count: "length ds = length ps \<Longrightarrow> length (my_digests ds ps p) = length (filter (\<lambda>q. q = p) ps)"
  by (induction ds ps rule: list_induct2) (auto simp: my_digests_def)

lemma my_digests_mset:
  assumes "length ds = length ps" and "distinct us" and "set ps \<subseteq> set us"
  shows "mset (concat (map (my_digests ds ps) us)) = mset ds"
  using assms
proof (induction ds ps rule: list_induct2)
  case Nil
  then show ?case by (induction us) (auto simp: my_digests_def)
next
  case (Cons d ds p ps)
  have "mset (concat (map (my_digests (d # ds) (p # ps)) us)) = mset (concat (map (my_digests ds ps) us)) + (if p \<in> set us then {#d#} else {#})"
    using Cons.prems(1) by (induction us) (auto simp: my_digests_def)
  then show ?case using Cons by simp
qed

text \<open>
  C12: The works of a batch divide its digests: each node is asked once, in the count of its
  request and in the digests themselves for exactly its own, and together the requests ask for
  every digest once. But there is room for 32 nodes only: with more than 32 different ones the
  call writes beyond its arrays on the stack, and with at most 32 it does not.
\<close>

theorem batch_divides_digests:
  assumes "length nodes = length digests"
  shows "case unique_nodes [] nodes of
      None \<Rightarrow> 32 < card (set nodes)
    | Some us \<Rightarrow> card (set nodes) \<le> 32 \<and>
        (let works = works_for ns digests nodes bins n_bins get_bin_data cb us in
         distinct (map dw_my_node works) \<and> dw_my_node ` set works = set nodes \<and>
         (\<forall>w \<in> set works. dw_my_node_digest_count w = length (my_digests (dw_digests w) (dw_nodes w) (dw_my_node w))) \<and>
         mset (concat (map (\<lambda>w. my_digests (dw_digests w) (dw_nodes w) (dw_my_node w)) works)) = mset digests)"
proof -
  have e: "digests_of [] []" by (simp add: digests_of_def)
  note f = unique_nodes_fault [OF e, of nodes]
  show ?thesis
  proof (cases "unique_nodes [] nodes")
    case None
    then show ?thesis using f by (simp add: MAX_NODES_def)
  next
    case (Some us)
    let ?W = "works_for ns digests nodes bins n_bins get_bin_data cb us"
    have d: "digests_of nodes us" using unique_nodes_ok [OF Some e] by simp
    have m: "map dw_my_node ?W = map fst us" "\<And>w. w \<in> set ?W \<Longrightarrow> dw_digests w = digests \<and> dw_nodes w = nodes"
      by (auto simp: works_for_def)
    have c: "\<forall>w \<in> set ?W. dw_my_node_digest_count w = length (my_digests (dw_digests w) (dw_nodes w) (dw_my_node w))"
      using d my_digests_count [of digests nodes] assms by (fastforce simp: works_for_def digests_of_def)
    have "map (\<lambda>w. my_digests (dw_digests w) (dw_nodes w) (dw_my_node w)) ?W = map (my_digests digests nodes) (map dw_my_node ?W)"
      unfolding map_map by (rule map_cong) (use m(2) in auto)
    then have "mset (concat (map (\<lambda>w. my_digests (dw_digests w) (dw_nodes w) (dw_my_node w)) ?W)) = mset digests"
      unfolding m(1) using my_digests_mset [of digests nodes "map fst us"] assms d by (simp add: digests_of_def)
    moreover have "dw_my_node ` set ?W = set nodes" using m(1) d by (metis digests_of_def list.set_map)
    moreover have "card (set nodes) \<le> 32" using f Some by (simp add: MAX_NODES_def)
    ultimately show ?thesis using Some m(1) c d by (simp add: digests_of_def Let_def)
  qed
qed

theorem batch_divides_digests_witness:
  "case unique_nodes [] [7, 9, 7] of
      None \<Rightarrow> 32 < card (set [7, 9, 7 :: nat])
    | Some us \<Rightarrow> card (set [7, 9, 7 :: nat]) \<le> 32 \<and>
        (let works = works_for [97, 0] [replicate 20 1, replicate 20 2, replicate 20 3] [7, 9, 7] None 0 True True us in
         distinct (map dw_my_node works) \<and> dw_my_node ` set works = set [7, 9, 7] \<and>
         (\<forall>w \<in> set works. dw_my_node_digest_count w = length (my_digests (dw_digests w) (dw_nodes w) (dw_my_node w))) \<and>
         mset (concat (map (\<lambda>w. my_digests (dw_digests w) (dw_nodes w) (dw_my_node w)) works)) =
           mset [replicate 20 1, replicate 20 2, replicate 20 3])"
  by (rule batch_divides_digests) simp

subsection \<open>What is received\<close>

fun batch_ends :: "msg_key \<Rightarrow> bool" where
  "batch_ends (info1, info3, code, n_ops) \<longleftrightarrow> batch_fails code \<or> info3 AND CL_MSG_INFO3_LAST \<noteq> 0"

fun batch_hands :: "bool \<Rightarrow> msg_key \<Rightarrow> bool" where
  "batch_hands cb (info1, info3, code, n_ops) \<longleftrightarrow> batch_gives cb info1 n_ops"

fun batch_res :: "bool \<Rightarrow> msg_key \<Rightarrow> int \<Rightarrow> int" where
  "batch_res cb (info1, info3, code, n_ops) rv =
     (if batch_gives cb info1 n_ops then 0 else if batch_fails code then int (unat code) else rv)"

interpretation batch: stream_reader "batch_step cb" batch_ends "batch_hands cb" "batch_res cb" for cb
  by unfold_locales (auto simp: batch_step_def sm_key_def Let_def)

text \<open>The conditions for a work that reaches its node and sends its request.\<close>

definition work_ok :: "digest_work \<Rightarrow> bool" where
  "work_ok w \<longleftrightarrow> 0 \<in> set (dw_ns w) \<and> (\<forall>a \<in> set (op_args (dw_bins w) (dw_operator w) None). arg_ok a) \<and>
     dw_operations w = None \<and> dw_n_ops w = length (op_args (dw_bins w) (dw_operator w) None) \<and>
     length (my_digests (dw_digests w) (dw_nodes w) (dw_my_node w)) = dw_my_node_digest_count w \<and>
     (\<forall>d \<in> set (dw_digests w). length d = 20) \<and>
     length (dw_ns w) + 20 * dw_my_node_digest_count w +
       length (ops_bytes (op_args (dw_bins w) (dw_operator w) None)) < 2 ^ 31"

definition work_size :: "digest_work \<Rightarrow> nat" where
  "work_size w = batch_size (c_str (dw_ns w)) (dw_my_node_digest_count w) (op_args (dw_bins w) (dw_operator w) None)"

lemma c_str_ex: "0 \<in> set s \<Longrightarrow> \<exists>x. c_str s = Some x \<and> length x \<le> length s"
  using c_str_takeWhile [of s] length_takeWhile_le [of "\<lambda>x. x \<noteq> 0" s] by blast

lemma length_concat_20: "\<forall>d \<in> set l. length d = 20 \<Longrightarrow> length (concat l) = 20 * length l"
  by (induction l) auto

lemma my_digests_subset: "set (my_digests ds ps p) \<subseteq> set ds"
  by (auto simp: my_digests_def dest: set_zip_leftD)

lemma work_compiles:
  assumes w: "work_ok w" and e: "be_compile e = Some g"
  shows "\<exists>buf. batch_compile (be_compile e) (dw_info1 w) (dw_info2 w) (Some (dw_ns w)) (dw_digests w) (dw_nodes w)
        (dw_my_node w) (dw_my_node_digest_count w) (dw_bins w) (dw_operator w) (dw_operations w) (dw_n_ops w)
        (Some (map (be_stack e) [0..<STACK_BUF_SZ])) STACK_BUF_SZ None = Some (0, Some buf, work_size w) \<and>
      take (work_size w) buf = batch_bytes (dw_info1 w) (dw_info2 w) (c_str (dw_ns w))
        (my_digests (dw_digests w) (dw_nodes w) (dw_my_node w)) (op_args (dw_bins w) (dw_operator w) None) None"
proof -
  let ?l = "op_args (dw_bins w) (dw_operator w) None" and ?my = "my_digests (dw_digests w) (dw_nodes w) (dw_my_node w)"
  obtain x where x: "c_str (dw_ns w) = Some x" "length x \<le> length (dw_ns w)" using w c_str_ex [of "dw_ns w"] by (auto simp: work_ok_def)
  have "\<exists>tail. batch_compile (be_compile e) (dw_info1 w) (dw_info2 w) (Some (dw_ns w)) (dw_digests w) (dw_nodes w)
        (dw_my_node w) (dw_my_node_digest_count w) (dw_bins w) (dw_operator w) None (length ?l)
        (Some (map (be_stack e) [0..<STACK_BUF_SZ])) STACK_BUF_SZ None =
      Some (0, Some (batch_bytes (dw_info1 w) (dw_info2 w) (Some x) ?my ?l None @ tail), batch_size (Some x) (dw_my_node_digest_count w) ?l)"
    by (rule batch_compile_layout)
      (use w x e my_digests_subset [of "dw_digests w" "dw_nodes w" "dw_my_node w"]
        in \<open>auto simp: work_ok_def opt_c_str_def batch_size_def STACK_BUF_SZ_def\<close>)
  moreover have "length (batch_bytes (dw_info1 w) (dw_info2 w) (Some x) ?my ?l None) = batch_size (Some x) (dw_my_node_digest_count w) ?l"
  proof -
    have "\<forall>d \<in> set ?my. length d = 20" using w my_digests_subset by (fastforce simp: work_ok_def)
    then have "length (concat ?my) = 20 * length ?my" by (rule length_concat_20)
    then show ?thesis using w by (simp add: batch_bytes_def batch_fields_def opt_field_simps batch_size_def work_ok_def)
  qed
  ultimately show ?thesis using w x by (fastforce simp: work_ok_def work_size_def)
qed

subsection \<open>References over a batch\<close>

lemma fd_back_ok:
  assumes "cluster_ok m asc (\<lambda>q. held [p] q + r q)" and "- (2 ^ 31) \<le> fd" and "fd < 2 ^ 31"
  shows "\<exists>cn m'. m_nodes m p = Some cn \<and>
    cl_cluster_node_fd_put (Some g) (put_node m p (cn\<lparr>cn_intervals_unreachable := 0\<rparr>)) p fd False = Some m' \<and>
    cluster_ok m' asc (\<lambda>q. held [p] q + r q) \<and> fd \<in> set (pool m' p @ m_closed m')"
proof -
  have ok: "mem_ok m (\<lambda>q. held [p] q + (cluster_refs asc q + r q))" using assms(1) unfolding cluster_ok_split by simp
  have pos: "0 < (\<lambda>q. held [p] q + (cluster_refs asc q + r q)) p" by simp
  from mem_okD [OF ok pos] obtain n where n: "m_nodes m p = Some n" "node_ok n" by blast
  have ok1: "mem_ok (put_node m p (n\<lparr>cn_intervals_unreachable := 0\<rparr>)) (\<lambda>q. held [p] q + (cluster_refs asc q + r q))"
    by (rule mem_ok_update [OF ok n(1)]) (use n(2) in \<open>simp_all add: node_ok_def\<close>)
  from cl_cluster_node_fd_put_ok [OF ok1 pos assms(2,3), of g] obtain m1 where
    m1: "cl_cluster_node_fd_put (Some g) (put_node m p (n\<lparr>cn_intervals_unreachable := 0\<rparr>)) p fd False = Some m1"
    "mem_ok m1 (\<lambda>q. held [p] q + (cluster_refs asc q + r q))"
    "if length (pool (put_node m p (n\<lparr>cn_intervals_unreachable := 0\<rparr>)) p) < 300
     then pool m1 p = pool (put_node m p (n\<lparr>cn_intervals_unreachable := 0\<rparr>)) p @ [fd] \<and>
       m_closed m1 = m_closed (put_node m p (n\<lparr>cn_intervals_unreachable := 0\<rparr>))
     else pool m1 p = pool (put_node m p (n\<lparr>cn_intervals_unreachable := 0\<rparr>)) p \<and>
       m_closed m1 = m_closed (put_node m p (n\<lparr>cn_intervals_unreachable := 0\<rparr>)) @ [fd]" by blast
  have "fd \<in> set (pool m1 p @ m_closed m1)" using m1(3) by (auto split: if_splits)
  moreover have "cluster_ok m1 asc (\<lambda>q. held [p] q + r q)" using m1(2) assms(1) unfolding cluster_ok_split by blast
  ultimately show ?thesis using n(1) m1(1) by blast
qed

definition batch_env_ok :: "batch_env \<Rightarrow> bool" where
  "batch_env_ok e \<longleftrightarrow> - (2 ^ 31) \<le> ce_socket (be_conn e) \<and> ce_socket (be_conn e) < 2 ^ 31 \<and>
     keeps_shares (be_during e) \<and> be_pool e \<noteq> None"


lemma held_le: "held ps q \<le> length ps"
  by (simp add: held_def)

lemma cluster_ok_cong: "cluster_ok m asc r \<Longrightarrow> (\<And>q. r q = r' q) \<Longrightarrow> cluster_ok m asc r'"
  using ext [of r r'] by simp

text \<open>
  The nodes that are lost when the assignment of nodes to digests ends without one: those of the
  digests before it, as the same loop over these digests alone finds them.
\<close>

definition lost_nodes ::
  "(nat \<Rightarrow> mem \<times> cl_cluster \<Rightarrow> mem \<times> cl_cluster) \<Rightarrow> nat \<Rightarrow> mem \<Rightarrow> cl_cluster \<Rightarrow> block \<Rightarrow> block list \<Rightarrow> node_ptr list \<Rightarrow>
   node_ptr list \<Rightarrow> bool" where
  "lost_nodes others i m asc ns ds acc ps \<longleftrightarrow> (\<exists>j < length ds. length ps = length acc + j \<and>
     (\<exists>m2 asc2. digest_nodes others i m asc ns (take j ds) acc = Some (Some ps, m2, asc2)))"

lemma lost_nodes_here: "lost_nodes others i m asc ns (d # ds) acc acc"
  unfolding lost_nodes_def by (rule exI [of _ 0]) simp

lemma lost_nodes_later:
  assumes "others i (m, asc) = (m1, asc1)" and "cl_cluster_node_get m1 asc1 ns d True = Some (Some p, m2, asc2)"
    and "lost_nodes others (Suc i) m2 asc2 ns ds (acc @ [p]) ps"
  shows "lost_nodes others i m asc ns (d # ds) acc ps"
proof -
  from assms(3) obtain j where j: "j < length ds" "length ps = length (acc @ [p]) + j"
    "\<exists>m3 asc3. digest_nodes others (Suc i) m2 asc2 ns (take j ds) (acc @ [p]) = Some (Some ps, m3, asc3)"
    by (auto simp: lost_nodes_def)
  then show ?thesis unfolding lost_nodes_def using assms(1,2) by (intro exI [of _ "Suc j"]) simp
qed

lemma digest_nodes_ok:
  assumes "cluster_ok m asc (\<lambda>q. held acc q + r q)" and "\<And>q. r q + length acc + length ds < 2 ^ 30"
    and "\<forall>d \<in> set ds. 2 \<le> length d" and "\<forall>i. keeps_shares (others i)"
  shows "\<exists>x m' asc'. digest_nodes others i m asc ns ds acc = Some (x, m', asc') \<and>
    (case x of Some ps \<Rightarrow> length ps = length acc + length ds \<and> cluster_ok m' asc' (\<lambda>q. held ps q + r q)
     | None \<Rightarrow> \<exists>ps. lost_nodes others i m asc ns ds acc ps \<and> cluster_ok m' asc' (\<lambda>q. held ps q + r q))"
  using assms
proof (induction ds arbitrary: i m asc acc)
  case (Cons d ds)
  let ?r = "\<lambda>q. held acc q + r q"
  obtain m1 asc1 where b: "others i (m, asc) = (m1, asc1)" by fastforce
  have ok1: "cluster_ok m1 asc1 ?r" using keeps_sharesD [where f = "others i", OF _ Cons.prems(1) b] Cons.prems(4) by simp
  have refs: "cluster_refs asc1 q + ?r q + 1 < 2 ^ 32" for q
  proof -
    have "cluster_refs asc1 q < 2 ^ 30" using ok1 by (simp add: cluster_ok_def)
    then show ?thesis using Cons.prems(2) [of q] held_le [of acc q] by simp
  qed
  from ok1 have "mem_ok m1 (\<lambda>q. cluster_refs asc1 q + ?r q)" "cluster_wf asc1" by (simp_all add: cluster_ok_def)
  moreover have "2 \<le> length d" using Cons.prems(3) by simp
  ultimately obtain x m2 last where n: "cl_cluster_node_get m1 asc1 ns d True = Some (x, m2, asc1\<lparr>cs_last_node := last\<rparr>)"
    "mem_ok m2 (\<lambda>q. held (opt_list x) q + (cluster_refs asc1 q + ?r q))" "x = None \<longrightarrow> cs_node_v asc1 = []"
    using node_get_ok [of m1 asc1 ?r d ns True] refs by blast
  let ?asc = "asc1\<lparr>cs_last_node := last\<rparr>"
  show ?case
  proof (cases x)
    case None
    have "cl_cluster_node_get_random m2 ?asc = Some (None, m2, ?asc)" using n(3) None by (simp add: cl_cluster_node_get_random_def)
    moreover have "cluster_ok m2 ?asc ?r" unfolding cluster_ok_last_node using n(2) None ok1 by (simp add: cluster_ok_def)
    ultimately show ?thesis using b n(1) None lost_nodes_here [of others i m asc ns d ds acc] by auto
  next
    case (Some p)
    have "cluster_ok m2 ?asc (\<lambda>q. held [p] q + ?r q)"
      unfolding cluster_ok_last_node cluster_ok_split using n(2) Some ok1 by (simp add: cluster_ok_def)
    then have ok2: "cluster_ok m2 ?asc (\<lambda>q. held (acc @ [p]) q + r q)" by (rule cluster_ok_cong) simp
    have l: "r q + length (acc @ [p]) + length ds < 2 ^ 30" for q using Cons.prems(2) [of q] by simp
    from Cons.IH [OF ok2 l, of "Suc i"] Cons.prems(3,4) obtain y m3 asc3 where
      "digest_nodes others (Suc i) m2 ?asc ns ds (acc @ [p]) = Some (y, m3, asc3)"
      "case y of Some ps \<Rightarrow> length ps = length (acc @ [p]) + length ds \<and> cluster_ok m3 asc3 (\<lambda>q. held ps q + r q)
     | None \<Rightarrow> \<exists>ps. lost_nodes others (Suc i) m2 ?asc ns ds (acc @ [p]) ps \<and> cluster_ok m3 asc3 (\<lambda>q. held ps q + r q)" by auto
    then show ?thesis using b n(1) Some lost_nodes_later [of others i m asc m1 asc1 ns d p m2 ?asc ds acc]
      by (cases y) auto
  qed
qed simp





definition sample_batch_env :: "bool \<Rightarrow> proto_env list \<Rightarrow> batch_env" where
  "sample_batch_env write_ok protos = \<lparr>be_compile = Some (\<lambda>_. 0), be_conn = sample_conn, be_write_ok = write_ok, be_restore_ok = True,
     be_write = [Inl 20000], be_stack = (\<lambda>_. 0), be_protos = protos, be_during = id, be_pool = Some (\<lambda>_. 0)\<rparr>"

definition sample_call :: call_env where
  "sample_call = \<lparr>co_pool_ok = True, co_nodes_ok = True, co_complete_ok = True, co_others = (\<lambda>_. id),
     co_works = (\<lambda>_. sample_batch_env False []), co_order = [0], co_schedule = []\<rparr>"


lemma sample_get:
  "\<exists>m. cl_cluster_node_get sample_mem sample_cluster [97] (replicate 20 0) True = Some (Some 1, m, sample_cluster)"
proof -
  have p: "cl_partition_getid (ucast (cs_n_partitions sample_cluster)) (replicate 20 0) = Some 0"
    by (simp add: cl_partition_getid_def load_def sample_cluster_def numeral_eq_Suc)
  have "\<exists>m. cl_partition_table_get sample_mem (cs_partition_table_head sample_cluster) [97] 0 True = Some (Some 1, m)"
    by (simp add: cl_partition_table_get_def sample_cluster_def sample_tables_def pick_node_def cl_cluster_node_reserve_def
      cf_client_rc_reserve_def sample_mem_def)
  then show ?thesis by (auto simp: cl_cluster_node_get_def p)
qed

lemma sample_digest_nodes:
  "\<exists>m. digest_nodes (\<lambda>_. id) 0 sample_mem sample_cluster [97] [replicate 20 0] [] = Some (Some [1], m, sample_cluster) \<and>
     cluster_ok m sample_cluster (\<lambda>q. held [1] q + 0)"
proof -
  obtain m where m: "cl_cluster_node_get sample_mem sample_cluster [97] (replicate 20 0) True = Some (Some 1, m, sample_cluster)"
    using sample_get by blast
  have d: "digest_nodes (\<lambda>_. id) 0 sample_mem sample_cluster [97] [replicate 20 0] [] = Some (Some [1], m, sample_cluster)"
    by (simp add: m)
  have "cluster_ok sample_mem sample_cluster (\<lambda>q. held [] q + 0)" using sample_cluster_in_order by simp
  from digest_nodes_ok [OF this, of "[replicate 20 0]" "\<lambda>_. id" 0 "[97]"] d show ?thesis
    by (auto simp: keeps_shares_def)
qed





subsection \<open>A work that gets its answer\<close>

text \<open>A network that takes the request of a work and brings the answer of the node.\<close>

definition answered :: "batch_env \<Rightarrow> digest_work \<Rightarrow> response_msg list list \<Rightarrow> response_msg list \<Rightarrow> bool" where
  "answered e w rss rs \<longleftrightarrow> be_compile e \<noteq> None \<and>
     (\<exists>n. cf_socket_write_forever (be_write_ok e) (be_restore_ok e) (be_write e) (work_size w) = Returned (0, n)) \<and>
     (\<exists>envs later. be_protos e = envs @ later \<and> list_all2 proto_env_ok envs (rss @ [rs])) \<and>
     (\<forall>r \<in> set (concat rss). \<not> batch_ends (rm_key r)) \<and> (\<exists>r \<in> set rs. batch_ends (rm_key r))"

lemma do_batch_monte_answered:
  assumes ok: "cluster_ok m asc (\<lambda>q. held [dw_my_node w] q + r q)" and env: "batch_env_ok e" and w: "work_ok w"
    and a: "answered e w rss rs"
    and fd: "cl_cluster_node_fd_get (be_conn e) m (dw_my_node w) False (cs_nbconnect asc) = Some (fd, m1)" "fd \<noteq> - 1"
  shows "\<exists>m' asc' calls. do_batch_monte inflate e m asc w =
      Some (Batch_Ret (fold (batch_res (dw_cb w)) (map rm_key rs) 0) m' asc' calls) \<and>
    list_all2 call_holds (filter (\<lambda>r. batch_hands (dw_cb w) (rm_key r)) (concat rss @ rs)) calls \<and>
    fd \<in> set (pool m' (dw_my_node w) @ m_closed m')"
proof -
  let ?p = "dw_my_node w" and ?rv = "fold (batch_res (dw_cb w)) (map rm_key rs) 0"
  obtain g where g: "be_compile e = Some g" using a by (auto simp: answered_def)
  from work_compiles [OF w g] obtain buf where
    c: "batch_compile (be_compile e) (dw_info1 w) (dw_info2 w) (Some (dw_ns w)) (dw_digests w) (dw_nodes w)
        (dw_my_node w) (dw_my_node_digest_count w) (dw_bins w) (dw_operator w) (dw_operations w) (dw_n_ops w)
        (Some (map (be_stack e) [0..<STACK_BUF_SZ])) STACK_BUF_SZ None = Some (0, Some buf, work_size w)"
    by blast
  have ce: "- (2 ^ 31) \<le> ce_socket (be_conn e)" "ce_socket (be_conn e) < 2 ^ 31" using env by (simp_all add: batch_env_ok_def)
  from get_fd_ok [OF ok ce, of "cs_nbconnect asc"] fd(1) have
    f: "cluster_ok m1 asc (\<lambda>q. held [?p] q + r q)" "- (2 ^ 31) \<le> fd" "fd < 2 ^ 31" by auto
  obtain n where n: "cf_socket_write_forever (be_write_ok e) (be_restore_ok e) (be_write e) (work_size w) = Returned (0, n)"
    using a by (auto simp: answered_def)
  obtain envs later where p: "be_protos e = envs @ later" "list_all2 proto_env_ok envs (rss @ [rs])"
    using a by (auto simp: answered_def)
  have rd: "rd_fine (map (be_stack e) [0..<STACK_BUF_SZ]) At_Null" and l: "length (map (be_stack e) [0..<8]) = 8"
    by (simp_all add: rd_fine_def)
  from batch.read_stream_ok [OF p(2) rd l, where unzip = "Some (unzip_body inflate)" and cb = "dw_cb w" and later = later and cs = "[]"] a obtain calls where
    s: "read_stream (batch_step (dw_cb w)) (Some (unzip_body inflate)) (envs @ later) (map (be_stack e) [0..<8])
        (map (be_stack e) [0..<STACK_BUF_SZ]) At_Null [] = Some (Stream_Done ?rv calls)"
      "list_all2 call_holds (filter (\<lambda>r. batch_hands (dw_cb w) (rm_key r)) (concat rss @ rs)) calls"
    by (auto simp: answered_def)
  obtain m2 asc2 where du: "be_during e (m1, asc) = (m2, asc2)" by fastforce
  have ok2: "cluster_ok m2 asc2 (\<lambda>q. held [?p] q + r q)"
    using keeps_sharesD [where f = "be_during e", OF _ f(1) du] env by (simp add: batch_env_ok_def)
  obtain h where h: "be_pool e = Some h" using env by (auto simp: batch_env_ok_def)
  from fd_back_ok [OF ok2 f(2,3), of h] obtain cn m3 where b: "m_nodes m2 ?p = Some cn"
    "cl_cluster_node_fd_put (Some h) (put_node m2 ?p (cn\<lparr>cn_intervals_unreachable := 0\<rparr>)) ?p fd False = Some m3"
    "fd \<in> set (pool m3 ?p @ m_closed m3)" by blast
  note step = c fd n p(1) s(1) du
  show ?thesis
  proof (cases "?rv = 0")
    case True
    then have "do_batch_monte inflate e m asc w = Some (Batch_Ret ?rv m3 asc2 calls)"
      using step h b(1,2) by (simp add: do_batch_monte_def)
    then show ?thesis using s(2) b(3) by blast
  next
    case False
    then have "do_batch_monte inflate e m asc w = Some (Batch_Ret ?rv (close_fd m2 fd) asc2 calls)"
      using step by (simp add: do_batch_monte_def)
    moreover have "fd \<in> set (m_closed (close_fd m2 fd))" using fd(2) by (simp add: close_fd_def close_all_def)
    ultimately show ?thesis using s(2) by auto
  qed
qed

lemma batch_res_zero:
  "\<forall>k \<in> set ks. \<not> batch_fails (fst (snd (snd k))) \<Longrightarrow> fold (batch_res cb) ks 0 = 0"
  by (induction ks) auto

text \<open>
  C4: A batch delivers what the node sent. When the request goes out and the answer arrives, in
  any number of protos, each with any number of messages and in pieces of any size, then every
  record with bins is handed to the callback, in order, with its namespace, digest, set, generation,
  time to live and its bins; without an error of the batch the result is 0, and the descriptor is
  in the pool again or closed.
\<close>

theorem batch_delivers:
  assumes "cluster_ok m asc (\<lambda>q. held [dw_my_node w] q + r q)" and "batch_env_ok e" and "work_ok w" and "dw_cb w"
    and "answered e w rss rs" and "\<forall>r \<in> set rs. \<not> batch_fails (rm_code r)"
    and "cl_cluster_node_fd_get (be_conn e) m (dw_my_node w) False (cs_nbconnect asc) = Some (fd, m1)" and "fd \<noteq> - 1"
  shows "\<exists>m' asc' calls. do_batch_monte inflate e m asc w = Some (Batch_Ret 0 m' asc' calls) \<and>
    list_all2 call_holds (filter (\<lambda>r. rm_ops r \<noteq> [] \<or> ucast (rm_info1 r) AND CL_MSG_INFO1_NOBINDATA \<noteq> 0) (concat rss @ rs)) calls \<and>
    fd \<in> set (pool m' (dw_my_node w) @ m_closed m')"
proof -
  have "fold (batch_res (dw_cb w)) (map rm_key rs) 0 = 0"
    by (rule batch_res_zero) (use assms(6) in \<open>auto simp: rm_key_def\<close>)
  moreover have "batch_hands (dw_cb w) (rm_key r) \<longleftrightarrow> rm_ops r \<noteq> [] \<or> ucast (rm_info1 r) AND CL_MSG_INFO1_NOBINDATA \<noteq> 0" for r
    using assms(4) by (simp add: rm_key_def batch_gives_def)
  ultimately show ?thesis using do_batch_monte_answered [OF assms(1-3,5,7,8), of inflate] by simp
qed

text \<open>An error of a batch is lost when a record follows it in the same proto: the record sets the
  result to 0, and the connection with its unread data goes back to the pool.
\<close>

theorem batch_error_lost:
  assumes "cluster_ok m asc (\<lambda>q. held [dw_my_node w] q + r q)" and "batch_env_ok e" and "work_ok w" and "dw_cb w"
    and "answered e w rss (before @ [bad, good])" and "batch_fails (rm_code bad)" and "rm_ops good \<noteq> []"
    and "cl_cluster_node_fd_get (be_conn e) m (dw_my_node w) False (cs_nbconnect asc) = Some (fd, m1)" and "fd \<noteq> - 1"
  shows "\<exists>m' asc' calls. do_batch_monte inflate e m asc w = Some (Batch_Ret 0 m' asc' calls)"
proof -
  have "fold (batch_res (dw_cb w)) (map rm_key (before @ [bad, good])) 0 = 0"
    using assms(4,7) by (simp add: rm_key_def batch_gives_def)
  then show ?thesis using do_batch_monte_answered [OF assms(1-3,5,8,9), of inflate] by auto
qed

subsection \<open>A sample answer\<close>

definition sample_taken :: mem where
  "sample_taken = sample_mem\<lparr>m_nodes := (m_nodes sample_mem)(1 \<mapsto> sample_node 3)\<rparr>"

lemma sample_taken_ok: "cluster_ok sample_taken sample_cluster (\<lambda>q. held [1] q + 0)"
  using sample_cluster_wf
  by (simp add: cluster_ok_def sample_cluster_refs mem_ok_def sample_taken_def sample_mem_def sample_node_def node_ok_def
    fd_queue_inv fd_queue_elems)

definition sample_work :: digest_work where
  "sample_work = \<lparr>dw_info1 = CL_MSG_INFO1_READ, dw_info2 = 0, dw_ns = [97, 0], dw_digests = [replicate 20 0], dw_nodes = [1],
     dw_bins = None, dw_operator = CL_OP_READ, dw_operations = None, dw_n_ops = 0, dw_cb = True, dw_my_node = 1,
     dw_my_node_digest_count = 1\<rparr>"

lemma sample_work_ok: "work_ok sample_work"
  by (simp add: sample_work_def work_ok_def op_args_def my_digests_def ops_bytes_def)

lemma sample_work_held: "cluster_ok sample_taken sample_cluster (\<lambda>q. held [dw_my_node sample_work] q + 0)"
  using sample_taken_ok by (simp add: sample_work_def)

definition sample_record :: "u8 \<Rightarrow> response_msg" where
  "sample_record code = \<lparr>rm_info1 = 1, rm_info3 = 0, rm_code = code, rm_generation = 4, rm_ttl = 9,
     rm_fields = [(CL_MSG_FIELD_TYPE_NAMESPACE, [97]), (CL_MSG_FIELD_TYPE_DIGEST_RIPE, replicate 20 0)],
     rm_ops = [(CL_MSG_OP_READ, sample_bin)]\<rparr>"

definition sample_last :: "u8 \<Rightarrow> response_msg" where
  "sample_last code = \<lparr>rm_info1 = 1, rm_info3 = 1, rm_code = code, rm_generation = 0, rm_ttl = 0, rm_fields = [], rm_ops = []\<rparr>"

definition sample_proto :: "response_msg list \<Rightarrow> proto_env" where
  "sample_proto rs = \<lparr>pe_head_ok = True, pe_head = [Inl (proto_bytes (length (concat (map msg_bytes rs))))], pe_body_ok = True,
     pe_body = [Inr ETIMEDOUT, Inl (concat (map msg_bytes rs))], pe_malloc = Some (\<lambda>_. 0), pe_inflate_init = True, pe_inflate_malloc = None,
     pe_stack_bins = (\<lambda>_. sample_bin),
     pe_msgs = (\<lambda>_. \<lparr>me_sets = (\<lambda>_. Some (\<lambda>_. 0)), me_bins = Some (\<lambda>_. sample_bin), me_values = (\<lambda>_. Some (\<lambda>_. 0))\<rparr>)\<rparr>"

lemma sample_proto_ok:
  assumes "\<forall>r \<in> set rs. msg_ok r" and "length (concat (map msg_bytes rs)) < 2 ^ 30" and "rs \<noteq> []"
  shows "proto_env_ok (sample_proto rs) rs"
proof -
  have "proto_bytes n \<noteq> []" "[] \<noteq> proto_bytes n" for n by (simp_all add: proto_bytes_def)
  moreover have "concat (map msg_bytes rs) \<noteq> []" using assms(3) by (simp only: concat_msg_bytes_Nil not_False_eq_True)
  moreover have "length (bin_name sample_bin) = 32" by (simp add: sample_bin_def)
  ultimately show ?thesis using assms by (auto simp: proto_env_ok_def sample_proto_def feeds_def msg_env_ok_def)
qed

lemma sample_msgs_ok: "msg_ok (sample_record c)" "msg_ok (sample_last c)"
  "length (msg_bytes (sample_record c)) = 71" "length (msg_bytes (sample_last c)) = 22"
  using sample_resp_ok
  by (simp_all add: msg_ok_def sample_record_def sample_last_def field_fits_def CL_MSG_FIELD_TYPE_DIGEST_RIPE_def
    CL_MSG_FIELD_TYPE_NAMESPACE_def length_msg_bytes rf_bytes_def resp_bytes_def resp_ok_def length_op_bytes sample_bin_wf)

lemma sample_fd:
  "\<exists>m1. cl_cluster_node_fd_get sample_conn sample_taken 1 False (cs_nbconnect sample_cluster) = Some (5, m1)"
proof -
  have ok: "mem_ok sample_taken (\<lambda>q. held [1] q + (cluster_refs sample_cluster q + 0))"
    using sample_taken_ok unfolding cluster_ok_split by simp
  have "pool sample_taken 1 = [5, 9]"
    by (simp add: pool_def sample_taken_def sample_node_def cf_queue_elems_def cf_queue_elem_def fd_queue_def fd_of_fd_bytes slot_def upt_rec)
  then show ?thesis using cl_cluster_node_fd_get_ok [OF ok, of 1 sample_conn "cs_nbconnect sample_cluster"] by auto
qed


theorem batch_delivers_witness:
  "\<exists>m' asc' calls. do_batch_monte (\<lambda>_ _. (0, [])) (sample_batch_env True [sample_proto [sample_record 0, sample_record 2],
        sample_proto [sample_record 0, sample_last 0]]) sample_taken sample_cluster sample_work = Some (Batch_Ret 0 m' asc' calls) \<and>
    list_all2 call_holds (filter (\<lambda>r. rm_ops r \<noteq> [] \<or> ucast (rm_info1 r) AND CL_MSG_INFO1_NOBINDATA \<noteq> 0)
      (concat [[sample_record 0, sample_record 2]] @ [sample_record 0, sample_last 0])) calls \<and>
    5 \<in> set (pool m' (dw_my_node sample_work) @ m_closed m')"
proof -
  let ?e = "sample_batch_env True [sample_proto [sample_record 0, sample_record 2], sample_proto [sample_record 0, sample_last 0]]"
  obtain m1 where fd: "cl_cluster_node_fd_get (be_conn ?e) sample_taken (dw_my_node sample_work) False (cs_nbconnect sample_cluster) = Some (5, m1)"
    using sample_fd by (auto simp: sample_batch_env_def sample_work_def)
  have p: "list_all2 proto_env_ok (be_protos ?e) ([[sample_record 0, sample_record 2]] @ [[sample_record 0, sample_last 0]])"
    by (simp add: sample_batch_env_def sample_proto_ok sample_msgs_ok)
  have a: "answered ?e sample_work [[sample_record 0, sample_record 2]] [sample_record 0, sample_last 0]"
    unfolding answered_def
  proof (intro conjI exI)
    show "be_protos ?e = be_protos ?e @ []" by simp
  qed (use p in \<open>simp_all add: sample_batch_env_def sample_record_def sample_last_def rm_key_def batch_fails_def CL_RESULT_OK_def
      CL_RESULT_NOTFOUND_def CL_MSG_INFO3_LAST_def cf_socket_write_forever_def work_size_def batch_size_def sample_work_def ops_bytes_def
      op_args_def c_str_def load_def\<close>)
  show ?thesis
    by (rule batch_delivers [OF sample_work_held _ sample_work_ok _ a _ fd])
      (simp_all add: batch_env_ok_def sample_batch_env_def sample_conn_def keeps_shares_def sample_work_def
        sample_record_def sample_last_def batch_fails_def CL_RESULT_OK_def)
qed

theorem batch_error_lost_witness:
  "\<exists>m' asc' calls. do_batch_monte (\<lambda>_ _. (0, [])) (sample_batch_env True [sample_proto [sample_last 4, sample_record 0]])
      sample_taken sample_cluster sample_work = Some (Batch_Ret 0 m' asc' calls)"
proof -
  let ?e = "sample_batch_env True [sample_proto [sample_last 4, sample_record 0]]"
  obtain m1 where fd: "cl_cluster_node_fd_get (be_conn ?e) sample_taken (dw_my_node sample_work) False (cs_nbconnect sample_cluster) = Some (5, m1)"
    using sample_fd by (auto simp: sample_batch_env_def sample_work_def)
  have p: "list_all2 proto_env_ok (be_protos ?e) ([] @ [[] @ [sample_last 4, sample_record 0]])"
    by (simp add: sample_batch_env_def sample_proto_ok sample_msgs_ok)
  have a: "answered ?e sample_work [] ([] @ [sample_last 4, sample_record 0])"
    unfolding answered_def
  proof (intro conjI exI)
    show "be_protos ?e = be_protos ?e @ []" by simp
  qed (use p in \<open>simp_all add: sample_batch_env_def sample_record_def sample_last_def rm_key_def batch_fails_def CL_RESULT_OK_def
      CL_RESULT_NOTFOUND_def CL_MSG_INFO3_LAST_def cf_socket_write_forever_def work_size_def batch_size_def sample_work_def ops_bytes_def
      op_args_def c_str_def load_def\<close>)
  show ?thesis
    by (rule batch_error_lost [OF sample_work_held _ sample_work_ok _ a _ _ fd])
      (simp_all add: batch_env_ok_def sample_batch_env_def sample_conn_def keeps_shares_def sample_work_def
        sample_record_def sample_last_def batch_fails_def CL_RESULT_OK_def CL_RESULT_NOTFOUND_def)
qed

subsection \<open>The request of a work\<close>

text \<open>The request of a work is the header of a message with two fields, the namespace, one array
  of the digests of exactly this node in the order of the call, the operations, and one byte of
  padding; it is written without a store out of its buffer, on the stack or, when it is longer
  than 16 kB, in a new one.
\<close>

theorem batch_request_layout:
  assumes "work_ok w" and "be_compile e = Some g"
  shows "\<exists>buf. batch_compile (be_compile e) (dw_info1 w) (dw_info2 w) (Some (dw_ns w)) (dw_digests w) (dw_nodes w)
        (dw_my_node w) (dw_my_node_digest_count w) (dw_bins w) (dw_operator w) (dw_operations w) (dw_n_ops w)
        (Some (map (be_stack e) [0..<STACK_BUF_SZ])) STACK_BUF_SZ None = Some (0, Some buf, work_size w) \<and>
      take (work_size w) buf = batch_bytes (dw_info1 w) (dw_info2 w) (c_str (dw_ns w))
        (my_digests (dw_digests w) (dw_nodes w) (dw_my_node w)) (op_args (dw_bins w) (dw_operator w) None) None"
  using assms by (rule work_compiles)

theorem batch_request_layout_witness:
  "\<exists>buf. batch_compile (be_compile (sample_batch_env True [])) (dw_info1 sample_work) (dw_info2 sample_work) (Some (dw_ns sample_work))
        (dw_digests sample_work) (dw_nodes sample_work) (dw_my_node sample_work) (dw_my_node_digest_count sample_work)
        (dw_bins sample_work) (dw_operator sample_work) (dw_operations sample_work) (dw_n_ops sample_work)
        (Some (map (be_stack (sample_batch_env True [])) [0..<STACK_BUF_SZ])) STACK_BUF_SZ None = Some (0, Some buf, work_size sample_work) \<and>
      take (work_size sample_work) buf = batch_bytes (dw_info1 sample_work) (dw_info2 sample_work) (c_str (dw_ns sample_work))
        (my_digests (dw_digests sample_work) (dw_nodes sample_work) (dw_my_node sample_work))
        (op_args (dw_bins sample_work) (dw_operator sample_work) None) None"
  by (rule batch_request_layout [OF sample_work_ok, where g = "\<lambda>_. 0"]) (simp add: sample_batch_env_def)

subsection \<open>The collected records\<close>

definition bin_kept :: "cl_bin \<Rightarrow> u8 \<times> cl_bin \<Rightarrow> bool" where
  "bin_kept v x \<longleftrightarrow> bin_str v = bin_str (snd x) \<and> decoded (bin_object v) (bin_object (snd x))"

definition rec_holds :: "response_msg \<Rightarrow> cl_rec \<Rightarrow> bool" where
  "rec_holds r c \<longleftrightarrow> field_of CL_MSG_FIELD_TYPE_DIGEST_RIPE (rm_fields r) = Some (r_digest c) \<and>
     r_generation c = rm_generation r \<and> r_record_voidtime c = rm_ttl r \<and> list_all2 bin_kept (r_bins c) (rm_ops r)"

lemma decoded_copy: "decoded d ob \<Longrightarrow> same_object d' d \<Longrightarrow> object_wf d' \<Longrightarrow> decoded d' ob"
  by (auto simp: decoded_def same_object_def)

lemma copies_kept:
  assumes "list_all2 bin_decoded bs l"
    and "list_all2 (\<lambda>b' b. bin_wf b' \<and> bin_str b' = bin_str b \<and> same_object (bin_object b') (bin_object b)) ts bs"
  shows "list_all2 bin_kept ts l"
proof -
  have "list_all2 bin_kept ts l" if
    "list_all2 (\<lambda>b' b. bin_wf b' \<and> bin_str b' = bin_str b \<and> same_object (bin_object b') (bin_object b)) ts bs" "list_all2 bin_decoded bs l"
    using that by (rule list_all2_trans [rotated])
      (auto simp: bin_kept_def bin_decoded_def bin_wf_def intro: decoded_copy)
  then show ?thesis using assms by blast
qed

text \<open>Enough memory for the copies, of which each record has as many as it has bins.\<close>

definition copies_ok :: "malloc_env \<times> malloc_env list \<Rightarrow> nat \<Rightarrow> bool" where
  "copies_ok c n \<longleftrightarrow> fst c \<noteq> None \<and> (\<exists>gs. snd c = map Some gs \<and> n \<le> length gs)"

lemma direct_cb_ok:
  assumes "call_holds r d" and "field_of CL_MSG_FIELD_TYPE_DIGEST_RIPE (rm_fields r) = Some dg" and "length dg = 20"
    and "copies_ok (e, envs) (length (rm_ops r))"
  shows "if length (br_records br) < br_room br
    then \<exists>c. direct_batchget_cb e envs d br = Some (br\<lparr>br_records := br_records br @ [c]\<rparr>) \<and> rec_holds r c
    else direct_batchget_cb e envs d br = None"
proof -
  have bs: "list_all2 bin_decoded (d_bins d) (rm_ops r)" using assms(1) by (simp add: call_holds_def)
  then have wf: "\<forall>b \<in> set (d_bins d). bin_wf b" by (auto simp: list_all2_conv_all_nth bin_decoded_def in_set_conv_nth)
  have n: "length (d_bins d) = length (rm_ops r)" using bs by (rule list_all2_lengthD)
  obtain gs where gs: "envs = map Some gs" "length (d_bins d) \<le> length gs" and e: "e \<noteq> None"
    using assms(4) n by (auto simp: copies_ok_def)
  from copy_bins_loop_ok [OF wf gs(2), of "[]"] obtain ts where t: "copy_bins_loop (map Some gs) (d_bins d) [] = Some (Some ts)"
    "list_all2 (\<lambda>b' b. bin_wf b' \<and> bin_str b' = bin_str b \<and> same_object (bin_object b') (bin_object b)) ts (d_bins d)" by auto
  have c: "citrusleaf_copy_bins e envs (d_bins d) = Some (0, Some ts)" using e gs(1) t(1) by (simp add: citrusleaf_copy_bins_def)
  obtain off where o: "d_keyd d = Some off" "load (d_buf d) off 20 = Some dg"
    using assms(1-3) by (auto simp: call_holds_def keyd_holds_def)
  have "rec_holds r \<lparr>r_digest = dg, r_generation = d_generation d, r_record_voidtime = d_ttl d, r_bins = ts\<rparr>"
    using assms(1,2) copies_kept [OF bs t(2)] by (simp add: rec_holds_def call_holds_def)
  then show ?thesis using c o
    by (cases "length (br_records br) < br_room br") (auto simp: direct_batchget_cb_def)
qed

lemma direct_calls_ok:
  assumes "list_all2 call_holds rs calls"
    and "\<forall>r \<in> set rs. \<exists>dg. field_of CL_MSG_FIELD_TYPE_DIGEST_RIPE (rm_fields r) = Some dg \<and> length dg = 20"
    and "\<forall>j < length rs. copies_ok (copies (i + j)) (length (rm_ops (rs ! j)))" and "length (br_records br) \<le> br_room br"
  shows "if length (br_records br) + length rs \<le> br_room br
    then \<exists>cs. direct_calls copies i calls br = Some (br\<lparr>br_records := br_records br @ cs\<rparr>) \<and> list_all2 rec_holds rs cs
    else direct_calls copies i calls br = None"
  using assms
proof (induction rs arbitrary: calls i br)
  case Nil
  then show ?case by simp
next
  case (Cons r rs)
  then obtain d ds where d: "calls = d # ds" "call_holds r d" "list_all2 call_holds rs ds" by (auto simp: list_all2_Cons1)
  obtain dg where dg: "field_of CL_MSG_FIELD_TYPE_DIGEST_RIPE (rm_fields r) = Some dg" "length dg = 20" using Cons.prems(2) by auto
  have "copies_ok (fst (copies i), snd (copies i)) (length (rm_ops r))" using Cons.prems(3) by force
  note cb = direct_cb_ok [OF d(2) dg this, of br]
  show ?case
  proof (cases "length (br_records br) < br_room br")
    case False
    then show ?thesis using cb Cons.prems(4) by (simp add: d(1))
  next
    case True
    then obtain c where c: "direct_batchget_cb (fst (copies i)) (snd (copies i)) d br = Some (br\<lparr>br_records := br_records br @ [c]\<rparr>)"
      "rec_holds r c" using cb by auto
    let ?br = "br\<lparr>br_records := br_records br @ [c]\<rparr>"
    have p: "\<forall>j < length rs. copies_ok (copies (Suc i + j)) (length (rm_ops (rs ! j)))"
      using Cons.prems(3) by (metis Suc_less_eq add_Suc add_Suc_right length_Cons nth_Cons_Suc)
    have l: "length (br_records ?br) \<le> br_room ?br" using True by simp
    have q: "\<forall>r \<in> set rs. \<exists>dg. field_of CL_MSG_FIELD_TYPE_DIGEST_RIPE (rm_fields r) = Some dg \<and> length dg = 20"
      using Cons.prems(2) by simp
    show ?thesis
    proof (cases "length (br_records ?br) + length rs \<le> br_room ?br")
      case fits: True
      then obtain cs where "direct_calls copies (Suc i) ds ?br = Some (?br\<lparr>br_records := br_records ?br @ cs\<rparr>)" "list_all2 rec_holds rs cs"
        using Cons.IH [OF d(3) q p l] by auto
      then have "direct_calls copies i calls br = Some (br\<lparr>br_records := br_records br @ c # cs\<rparr>)" "list_all2 rec_holds (r # rs) (c # cs)"
        using c by (simp_all add: d(1))
      then show ?thesis using fits by auto
    next
      case False
      then show ?thesis using Cons.IH [OF d(3) q p l] c by (auto simp: d(1))
    qed
  qed
qed

text \<open>
  C29: The direct call makes an array of exactly the records that came, in the order in which the
  threads took the slots, with their digests, generations, times and copies of their bins. The
  array has room for one record per digest, and nothing checks it: when the servers send more
  records than digests were asked for, the callback writes behind the array.
\<close>

theorem direct_collects:
  assumes "list_all2 call_holds rs calls"
    and "\<forall>r \<in> set rs. \<exists>dg. field_of CL_MSG_FIELD_TYPE_DIGEST_RIPE (rm_fields r) = Some dg \<and> length dg = 20"
    and "\<forall>j < length rs. copies_ok (copies j) (length (rm_ops (rs ! j)))"
  shows "case direct_calls copies 0 calls \<lparr>br_room = n, br_records = []\<rparr> of
      Some br \<Rightarrow> length rs \<le> n \<and> list_all2 rec_holds rs (br_records br)
    | None \<Rightarrow> n < length rs"
  using direct_calls_ok [OF assms(1,2), of copies 0 "\<lparr>br_room = n, br_records = []\<rparr>"] assms(3)
  by (auto split: if_splits)

subsection \<open>The pool after a shutdown\<close>

text \<open>A shutdown is for good: it takes the queue away but leaves the mark that the pool was made
  and the number of threads, so the next batch that finds nodes, and the next shutdown, use
  the queue that is not there.
\<close>

theorem batch_after_shutdown:
  assumes "citrusleaf_batch_shutdown True bp = Some bp'" and "0 < bp_threads bp" and "bp_initialized bp \<noteq> 0"
    and "co_nodes_ok co" and "c_str ns = Some name" and "digests \<noteq> []"
    and "digest_nodes (co_others co) 0 m asc name digests [] = Some (Some ps, m1, asc1)" and "ps \<noteq> []"
  shows "do_get_exists_many_digest inflate co bp' m asc ns digests bins n_bins get_bin_data cb = None \<and>
    citrusleaf_batch_shutdown True bp' = None"
proof -
  have bp: "\<not> bp_queue bp'" "bp_initialized bp' \<noteq> 0" "0 < bp_threads bp'"
    using assms(1-3) by (auto simp: citrusleaf_batch_shutdown_def split: if_splits)
  have "us \<noteq> []" if "unique_nodes [] ps = Some us" for us
    using unique_nodes_ok [OF that, of "[]"] assms(8) by (auto simp: digests_of_def)
  then have "works_for ns digests ps bins n_bins get_bin_data cb us \<noteq> []" if "unique_nodes [] ps = Some us" for us
    using that by (auto simp: works_for_def)
  then show ?thesis using assms(4,5,7) bp
    by (cases "unique_nodes [] ps") (auto simp: do_get_exists_many_digest_def citrusleaf_batch_shutdown_def Let_def)
qed

theorem batch_after_shutdown_witness:
  "\<exists>m1. do_get_exists_many_digest (\<lambda>_ _. (0, [])) sample_call \<lparr>bp_initialized = 1, bp_queue = False, bp_threads = 6\<rparr> m1 sample_cluster [97, 0]
      [replicate 20 0] None 0 True True = None \<and>
    citrusleaf_batch_shutdown True \<lparr>bp_initialized = 1, bp_queue = False, bp_threads = 6\<rparr> = None"
proof -
  obtain m where m: "digest_nodes (co_others sample_call) 0 sample_mem sample_cluster [97] [replicate 20 0] [] = Some (Some [1], m, sample_cluster)"
    using sample_digest_nodes by (auto simp: sample_call_def simp del: digest_nodes.simps)
  have "do_get_exists_many_digest (\<lambda>_ _. (0, [])) sample_call \<lparr>bp_initialized = 1, bp_queue = False, bp_threads = 6\<rparr> sample_mem sample_cluster
      [97, 0] [replicate 20 0] None 0 True True = None \<and>
    citrusleaf_batch_shutdown True \<lparr>bp_initialized = 1, bp_queue = False, bp_threads = 6\<rparr> = None"
    by (rule batch_after_shutdown [where bp = "\<lparr>bp_initialized = 1, bp_queue = True, bp_threads = 6\<rparr>", OF _ _ _ _ _ _ m])
      (simp_all add: citrusleaf_batch_shutdown_def sample_call_def c_str_def load_def)
  then show ?thesis by blast
qed

definition sample_delivery :: delivery where
  "sample_delivery = \<lparr>d_ns = 97 # replicate 32 0, d_keyd = Some 0, d_set = None, d_generation = 4, d_ttl = 9, d_bins = [sample_bin],
     d_buf = replicate 20 0\<rparr>"

theorem direct_collects_witness:
  "case direct_calls (\<lambda>_. (Some (\<lambda>_. 0), [Some (\<lambda>_. 0)])) 0 [sample_delivery] \<lparr>br_room = 1, br_records = []\<rparr> of
      Some br \<Rightarrow> length [sample_record 0] \<le> 1 \<and> list_all2 rec_holds [sample_record 0] (br_records br)
    | None \<Rightarrow> 1 < length [sample_record 0]"
proof (rule direct_collects)
  have "decoded (bin_object sample_bin) (bin_object sample_bin)"
    by (simp add: decoded_def sample_bin_def citrusleaf_object_init_int_def object_len_def object_wf_def)
  then show "list_all2 call_holds [sample_record 0] [sample_delivery]"
    by (simp add: call_holds_def sample_record_def sample_delivery_def ns_holds_def keyd_holds_def load_def bin_decoded_def sample_bin_wf
      field_of_def CL_MSG_FIELD_TYPE_NAMESPACE_def CL_MSG_FIELD_TYPE_DIGEST_RIPE_def CL_MSG_FIELD_TYPE_SET_def)
  have "[Some (\<lambda>_. 0)] = map Some [\<lambda>_. 0 :: u8]" by simp
  then have "copies_ok (Some (\<lambda>_. 0), [Some (\<lambda>_. 0)]) 1" unfolding copies_ok_def by (metis One_nat_def fst_conv le_refl length_Cons list.size(3) option.distinct(1) snd_conv)
  then show "\<forall>j < length [sample_record 0]. copies_ok (Some (\<lambda>_. 0), [Some (\<lambda>_. 0)]) (length (rm_ops ([sample_record 0] ! j)))"
    by (simp add: sample_record_def)
qed (simp add: sample_record_def field_of_def CL_MSG_FIELD_TYPE_NAMESPACE_def CL_MSG_FIELD_TYPE_DIGEST_RIPE_def)

end
