(* ===== verification/Cl_Scan.thy ===== *)
theory Cl_Scan
  imports Cl_Batch
begin

section \<open>Scans (\<open>src/cl_scan.c\<close>)\<close>

text \<open>
  A scan asks one node, a given one or the next of the round robin, for all records of a namespace
  or set, and hands them to the callback as the stream of the answer brings them; a scan of all
  nodes does so for one node after the other and collects the results.
\<close>

record cl_scan_parameters =
  sp_fail_on_cluster_change :: bool
  sp_priority :: u8
  sp_concurrent_nodes :: bool
  sp_threads_per_node :: u8

definition cl_scan_parameters_set_default :: cl_scan_parameters where
  "cl_scan_parameters_set_default =
     \<lparr>sp_fail_on_cluster_change = False, sp_priority = 0, sp_concurrent_nodes = False, sp_threads_per_node = 1\<rparr>"

text \<open>The two bytes of the field of scan options.\<close>

definition scan_param_field :: "u8 \<Rightarrow> cl_scan_parameters \<Rightarrow> block" where
  "scan_param_field scan_pct opt =
     [push_bit 4 (sp_priority opt) OR push_bit 3 (if sp_fail_on_cluster_change opt then 1 else 0),
      if scan_pct > 100 then 100 else scan_pct]"

text \<open>
  After a message: an error is the result and ends the scan, where \<open>not found\<close> counts as no error;
  the last message ends it, and only a message that does neither is handed to the callback.
\<close>

definition scan_hands :: "u32 \<Rightarrow> nat \<Rightarrow> bool" where
  "scan_hands operation_info n_ops \<longleftrightarrow> n_ops \<noteq> 0 \<or> operation_info AND CL_MSG_INFO1_NOBINDATA \<noteq> 0"

definition scan_step :: "u32 \<Rightarrow> stream_msg \<Rightarrow> progress \<Rightarrow> progress" where
  "scan_step operation_info x p =
     (if sm_result_code x \<noteq> CL_RESULT_OK
      then p\<lparr>pg_rv := (if sm_result_code x = CL_RESULT_NOTFOUND then 0 else int (unat (sm_result_code x))), pg_done := True\<rparr>
      else if sm_info3 x AND CL_MSG_INFO3_LAST \<noteq> 0 then p\<lparr>pg_done := True\<rparr>
      else if scan_hands operation_info (sm_n_ops x) then p\<lparr>pg_calls := pg_calls p @ [sm_call x], pg_rv := 0\<rparr>
      else p)"

record scan_env =
  se_compile :: malloc_env
  se_before :: "mem \<times> cl_cluster \<Rightarrow> mem \<times> cl_cluster"
  se_conn :: conn_env
  se_write_ok :: bool
  se_restore_ok :: bool
  se_write :: "(nat + int) list"
  se_stack :: "nat \<Rightarrow> u8"
  se_protos :: "proto_env list"
  se_during :: "mem \<times> cl_cluster \<Rightarrow> mem \<times> cl_cluster"
  se_pool :: malloc_env

datatype scan_result = Scan_Ret int mem cl_cluster "delivery list" | Scan_Busy "delivery list"

text \<open>
  The node of a scan, with a reference. Finding it by name and reserving it are two steps, and the
  lock of the cluster is not held between them; here nothing happens in between.
\<close>

definition scan_node :: "block option \<Rightarrow> mem \<Rightarrow> cl_cluster \<Rightarrow> (node_ptr option \<times> mem \<times> cl_cluster) option" where
  "scan_node name m asc =
     (case name of
        Some nm \<Rightarrow> do {
          x \<leftarrow> cl_cluster_node_get_byname m (cs_node_v asc) nm;
          case x of None \<Rightarrow> Some (None, m, asc)
          | Some p \<Rightarrow> do { m \<leftarrow> cl_cluster_node_reserve m p; Some (Some p, m, asc) } }
      | None \<Rightarrow> cl_cluster_node_get_random m asc)"

definition scan_exchange :: "scan_env \<Rightarrow> u32 \<Rightarrow> node_ptr \<Rightarrow> int \<Rightarrow> nat \<Rightarrow> mem \<Rightarrow> cl_cluster \<Rightarrow> scan_result option" where
  "scan_exchange e operation_info p fd wr_sz m asc =
     (case cf_socket_write_forever (se_write_ok e) (se_restore_ok e) (se_write e) wr_sz of
        Waiting \<Rightarrow> Some (Scan_Busy [])
      | Returned (rv, _) \<Rightarrow>
          if rv \<noteq> 0 then Some (Scan_Ret (- 1) (close_fd m fd) asc [])
          else do {
            r \<leftarrow> read_stream (scan_step operation_info) None (se_protos e) (map (se_stack e) [0..<8])
                   (map (se_stack e) [0..<STACK_BUF_SZ]) At_Null [];
            let (m, asc) = se_during e (m, asc);
            case r of
              Stream_Busy calls \<Rightarrow> Some (Scan_Busy calls)
            | Stream_Failed calls \<Rightarrow> Some (Scan_Ret (- 1) (close_fd m fd) asc calls)
            | Stream_Done rv calls \<Rightarrow> do {
                m \<leftarrow> put_back (se_pool e) m p fd;
                Some (Scan_Ret rv m asc calls) } })"

definition do_scan_monte ::
  "(block \<Rightarrow> block) \<Rightarrow> scan_env \<Rightarrow> mem \<Rightarrow> cl_cluster \<Rightarrow> block option \<Rightarrow> u32 \<Rightarrow> u32 \<Rightarrow> block \<Rightarrow> block option \<Rightarrow> u8 \<Rightarrow>
   cl_scan_parameters option \<Rightarrow> scan_result option" where
  "do_scan_monte rmd e m asc node_name operation_info operation_info2 ns set0 scan_pct scan_opt = do {
     (rv, wr, wr_sz, d) \<leftarrow> cl_compile rmd (se_compile e) operation_info operation_info2 0 (Some ns) set0 None None None CL_OP_WRITE None 0
        (Some (map (se_stack e) [0..<STACK_BUF_SZ])) STACK_BUF_SZ None 0 (map_option (scan_param_field scan_pct) scan_opt);
     if rv \<noteq> 0 then Some (Scan_Ret (- 1) m asc [])
     else do {
       let (m, asc) = se_before e (m, asc);
       (node, m, asc) \<leftarrow> scan_node node_name m asc;
       case node of None \<Rightarrow> Some (Scan_Ret (- 1) m asc [])
       | Some p \<Rightarrow> do {
           (fd, m) \<leftarrow> cl_cluster_node_fd_get (se_conn e) m p False (cs_nbconnect asc);
           if fd = - 1 then Some (Scan_Ret (- 1) m asc [])
           else scan_exchange e operation_info p fd wr_sz m asc } } }"

subsection \<open>The calls\<close>

definition scan_info :: "bool \<Rightarrow> u32" where
  "scan_info nobindata = (if nobindata then CL_MSG_INFO1_READ OR CL_MSG_INFO1_NOBINDATA else CL_MSG_INFO1_READ)"

definition citrusleaf_scan ::
  "(block \<Rightarrow> block) \<Rightarrow> scan_env \<Rightarrow> mem \<Rightarrow> cl_cluster \<Rightarrow> block \<Rightarrow> block option \<Rightarrow> bool \<Rightarrow> scan_result option" where
  "citrusleaf_scan rmd e m asc ns set0 nobindata = do_scan_monte rmd e m asc None (scan_info nobindata) 0 ns set0 100 None"

definition citrusleaf_scan_node ::
  "(block \<Rightarrow> block) \<Rightarrow> scan_env \<Rightarrow> mem \<Rightarrow> cl_cluster \<Rightarrow> block \<Rightarrow> block \<Rightarrow> block option \<Rightarrow> bool \<Rightarrow> u8 \<Rightarrow>
   cl_scan_parameters option \<Rightarrow> scan_result option" where
  "citrusleaf_scan_node rmd e m asc node_name ns set0 nobindata scan_pct scan_param =
     do_scan_monte rmd e m asc (Some node_name) (scan_info nobindata) 0 ns set0 scan_pct
       (Some (case scan_param of None \<Rightarrow> cl_scan_parameters_set_default | Some sp \<Rightarrow> sp))"

text \<open>
  The loop over the names: one response for each node, the name in its 20 bytes and the result, and the calls
  of the callback. The names are strings in slots of the copied block.
\<close>

fun scan_names ::
  "(block \<Rightarrow> block) \<Rightarrow> (nat \<Rightarrow> scan_env) \<Rightarrow> nat \<Rightarrow> nat \<Rightarrow> block \<Rightarrow> mem \<Rightarrow> cl_cluster \<Rightarrow> block \<Rightarrow> block option \<Rightarrow> bool \<Rightarrow> u8 \<Rightarrow>
   cl_scan_parameters option \<Rightarrow> (block \<times> int) list \<Rightarrow> delivery list \<Rightarrow>
   ((block \<times> int) list \<times> mem \<times> cl_cluster \<times> delivery list) outcome option" where
  "scan_names rmd envs i 0 names m asc ns set0 nobindata scan_pct scan_param rsp_v calls = Some (Returned (rsp_v, m, asc, calls))"
| "scan_names rmd envs i (Suc n) names m asc ns set0 nobindata scan_pct scan_param rsp_v calls = do {
     nm \<leftarrow> load names (i * NODE_NAME_SIZE) NODE_NAME_SIZE;
     s \<leftarrow> c_str (drop (i * NODE_NAME_SIZE) names);
     r \<leftarrow> citrusleaf_scan_node rmd (envs i) m asc s ns set0 nobindata scan_pct scan_param;
     case r of Scan_Busy _ \<Rightarrow> Some Waiting
     | Scan_Ret rv m asc cs \<Rightarrow>
         scan_names rmd envs (Suc i) n names m asc ns set0 nobindata scan_pct scan_param (rsp_v @ [(nm, rv)]) (calls @ cs) }"

text \<open>
  A null array of names after a failed allocation is used all the same: the first call scans
  any node, and then the name is copied from the null pointer.
\<close>

definition citrusleaf_scan_all_nodes ::
  "(block \<Rightarrow> block) \<Rightarrow> (node_ptr \<Rightarrow> nat \<Rightarrow> u8) \<Rightarrow> bool \<Rightarrow> bool \<Rightarrow> (nat \<Rightarrow> scan_env) \<Rightarrow> mem \<Rightarrow> cl_cluster \<Rightarrow> block \<Rightarrow> block option \<Rightarrow>
   bool \<Rightarrow> u8 \<Rightarrow> cl_scan_parameters option \<Rightarrow>
   ((block \<times> int) list option \<times> mem \<times> cl_cluster \<times> delivery list) outcome option" where
  "citrusleaf_scan_all_nodes rmd g names_ok vector_ok envs m asc ns set0 nobindata scan_pct scan_param = do {
     (n_nodes, node_names) \<leftarrow> cl_cluster_get_node_names g names_ok m asc;
     if n_nodes = 0 \<or> \<not> vector_ok then Some (Returned (None, m, asc, []))
     else if (case scan_param of None \<Rightarrow> False | Some sp \<Rightarrow> sp_concurrent_nodes sp) then Some (Returned (Some [], m, asc, []))
     else do {
       names \<leftarrow> node_names;
       r \<leftarrow> scan_names rmd envs 0 n_nodes names m asc ns set0 nobindata scan_pct scan_param [] [];
       case r of Waiting \<Rightarrow> Some Waiting
       | Returned (rsp_v, m, asc, calls) \<Rightarrow> Some (Returned (Some rsp_v, m, asc, calls)) } }"

subsection \<open>What a scan delivers\<close>

fun scan_ends :: "msg_key \<Rightarrow> bool" where
  "scan_ends (info1, info3, code, n_ops) \<longleftrightarrow> code \<noteq> CL_RESULT_OK \<or> info3 AND CL_MSG_INFO3_LAST \<noteq> 0"

fun scan_gives :: "u32 \<Rightarrow> msg_key \<Rightarrow> bool" where
  "scan_gives info (info1, info3, code, n_ops) \<longleftrightarrow> \<not> scan_ends (info1, info3, code, n_ops) \<and> scan_hands info n_ops"

fun scan_res :: "u32 \<Rightarrow> msg_key \<Rightarrow> int \<Rightarrow> int" where
  "scan_res info (info1, info3, code, n_ops) rv =
     (if code = CL_RESULT_NOTFOUND then 0 else if code \<noteq> CL_RESULT_OK then int (unat code)
      else if scan_gives info (info1, info3, code, n_ops) then 0 else rv)"

interpretation scan: stream_reader "scan_step info" scan_ends "scan_gives info" "scan_res info" for info
  by unfold_locales (auto simp: scan_step_def sm_key_def CL_RESULT_NOTFOUND_def CL_RESULT_OK_def)

lemma scan_step_rv: "0 \<le> pg_rv p \<Longrightarrow> 0 \<le> pg_rv (scan_step info x p)"
  by (simp add: scan_step_def)

definition scan_env_ok :: "scan_env \<Rightarrow> bool" where
  "scan_env_ok e \<longleftrightarrow> - (2 ^ 31) \<le> ce_socket (se_conn e) \<and> ce_socket (se_conn e) < 2 ^ 31 \<and>
     keeps_shares (se_before e) \<and> keeps_shares (se_during e) \<and> se_pool e \<noteq> None"

text \<open>Finding the node: it is held once more.\<close>

lemma get_byname_mem: "cl_cluster_node_get_byname m ps nm = Some (Some p) \<Longrightarrow> p \<in> set ps"
  by (induction ps) (auto simp: bind_eq_Some_conv split: if_splits)

lemma scan_node_ok:
  assumes "cluster_ok m asc r" and "\<And>q. r q < 2 ^ 30"
    and "scan_node name m asc = Some (Some p, m', asc')"
  shows "cluster_ok m' asc' (\<lambda>q. held [p] q + r q)"
proof -
  have ok: "mem_ok m (\<lambda>q. cluster_refs asc q + r q)" using assms(1) by (simp add: cluster_ok_def)
  have b: "cluster_refs asc q + r q + 1 < 2 ^ 32" for q
  proof -
    have "cluster_refs asc q < 2 ^ 30" using assms(1) by (simp add: cluster_ok_def)
    then show ?thesis using assms(2) [of q] by simp
  qed
  show ?thesis
  proof (cases name)
    case (Some nm)
    then have p: "p \<in> set (cs_node_v asc)" and rs: "cl_cluster_node_reserve m p = Some m'" and a: "asc' = asc"
      using assms(3) get_byname_mem [of m "cs_node_v asc" nm p]
      by (auto simp: scan_node_def bind_eq_Some_conv split: option.splits)
    have "0 < cluster_refs asc p + r p" using held_pos [OF p] by (simp add: cluster_refs_def)
    from rc.reserve_one [OF ok this b] rs have "mem_ok m' (\<lambda>q. held [p] q + (cluster_refs asc q + r q))" by auto
    then show ?thesis using assms(1) a unfolding cluster_ok_split by (simp add: cluster_ok_def)
  next
    case None
    let ?r = "\<lambda>q. held (table_ptrs (cs_partition_table_head asc)) q + r q"
    have ok': "mem_ok m (\<lambda>q. held (cs_node_v asc) q + ?r q)" using ok by (simp add: cluster_refs_def add.assoc)
    have b': "\<And>q. held (cs_node_v asc) q + ?r q + 1 < 2 ^ 32" using b by (simp add: cluster_refs_def add.assoc)
    from get_random_ok [OF ok' b'] assms(3) None have
      "mem_ok m' (\<lambda>q. held [p] q + (held (cs_node_v asc) q + ?r q))" "\<exists>l. asc' = asc\<lparr>cs_last_node := l\<rparr>"
      by (auto simp: scan_node_def split: if_splits)
    then show ?thesis using assms(1) by (auto simp: cluster_ok_def cluster_refs_def add.assoc add.left_commute)
  qed
qed

text \<open>The exchange with the node: an answer that was read to its end gives the reference back.\<close>

lemma scan_exchange_ok:
  assumes ok: "cluster_ok m asc (\<lambda>q. held [p] q + r q)" and env: "scan_env_ok e" and fd: "- (2 ^ 31) \<le> fd" "fd < 2 ^ 31"
    and res: "scan_exchange e info p fd sz m asc = Some (Scan_Ret rv m' asc' calls)"
  shows "if rv = - 1 then cluster_ok m' asc' (\<lambda>q. held [p] q + r q) else cluster_ok m' asc' r"
proof -
  obtain m2 asc2 where du: "se_during e (m, asc) = (m2, asc2)" by fastforce
  have ok2: "cluster_ok m2 asc2 (\<lambda>q. held [p] q + r q)"
    using keeps_sharesD [where f = "se_during e", OF _ ok du] env by (simp add: scan_env_ok_def)
  have okc: "cluster_ok (close_fd m fd) asc (\<lambda>q. held [p] q + r q)" "cluster_ok (close_fd m2 fd) asc2 (\<lambda>q. held [p] q + r q)"
    using ok ok2 by (simp_all del: held_simps)
  obtain g where g: "se_pool e = Some g" using env by (auto simp: scan_env_ok_def)
  from put_back_ok [OF ok2 fd, of g] obtain m3 where b: "put_back (Some g) m2 p fd = Some m3" "cluster_ok m3 asc2 r" by blast
  obtain wo where w: "cf_socket_write_forever (se_write_ok e) (se_restore_ok e) (se_write e) sz = wo" by blast
  show ?thesis
  proof (cases "\<exists>k. wo = Returned (0, k)")
    case False
    then have "rv = - 1 \<and> m' = close_fd m fd \<and> asc' = asc"
      using res w by (cases wo) (auto simp: scan_exchange_def split: if_splits)
    then show ?thesis using okc(1) by (simp del: held_simps)
  next
    case True
    obtain sr where sr: "read_stream (scan_step info) None (se_protos e) (map (se_stack e) [0..<8])
                   (map (se_stack e) [0..<STACK_BUF_SZ]) At_Null [] = Some sr"
      using res True w by (auto simp: scan_exchange_def bind_eq_Some_conv)
    show ?thesis
    proof (cases sr)
      case (Stream_Done rv' cs)
      have "0 \<le> rv'" using read_stream_rv [OF _ sr [unfolded Stream_Done]] scan_step_rv by blast
      then show ?thesis using res True w sr Stream_Done du g b by (auto simp: scan_exchange_def)
    qed (use res True w sr du okc in \<open>auto simp: scan_exchange_def simp del: held_simps\<close>)
  qed
qed

text \<open>
  C39: A scan keeps its node when it fails: once a node was found, a result of - 1 (no connection, a
  request that does not go out, a stream that breaks off or is not understood) leaves the count of
  the node one too high for ever, so that the node is never freed. Any other result, errors of
  the server included, gives the reference back. This holds whatever the kernel, the server and
  the other threads do.
\<close>

theorem scan_failure_leaks:
  assumes "cluster_ok m asc r" and "\<And>q. r q < 2 ^ 30" and "scan_env_ok e"
    and "scan_node name (fst (se_before e (m, asc))) (snd (se_before e (m, asc))) = Some (Some p, m1, asc1)"
    and "cl_compile rmd (se_compile e) info1 info2 0 (Some ns) set0 None None None CL_OP_WRITE None 0
        (Some (map (se_stack e) [0..<STACK_BUF_SZ])) STACK_BUF_SZ None 0 (map_option (scan_param_field pct) opt) = Some (0, wr, sz, d)"
    and "do_scan_monte rmd e m asc name info1 info2 ns set0 pct opt = Some (Scan_Ret rv m' asc' calls)"
  shows "mem_ok m' (\<lambda>q. cluster_refs asc' q + ((if rv = - 1 \<and> q = p then 1 else 0) + r q))"
proof -
  obtain m0 asc0 where b: "se_before e (m, asc) = (m0, asc0)" by fastforce
  have ok0: "cluster_ok m0 asc0 r" using keeps_sharesD [where f = "se_before e", OF _ assms(1) b] assms(3) by (simp add: scan_env_ok_def)
  have n: "scan_node name m0 asc0 = Some (Some p, m1, asc1)" using assms(4) b by simp
  have ok1: "cluster_ok m1 asc1 (\<lambda>q. held [p] q + r q)" using scan_node_ok [OF ok0 assms(2) n] .
  have ce: "- (2 ^ 31) \<le> ce_socket (se_conn e)" "ce_socket (se_conn e) < 2 ^ 31" using assms(3) by (simp_all add: scan_env_ok_def)
  from get_fd_ok [OF ok1 ce, of "cs_nbconnect asc1"] obtain fd m2 where f:
    "cl_cluster_node_fd_get (se_conn e) m1 p False (cs_nbconnect asc1) = Some (fd, m2)"
    "cluster_ok m2 asc1 (\<lambda>q. held [p] q + r q)" "- (2 ^ 31) \<le> fd" "fd < 2 ^ 31" by blast
  have "if rv = - 1 then cluster_ok m' asc' (\<lambda>q. held [p] q + r q) else cluster_ok m' asc' r"
  proof (cases "fd = - 1")
    case True
    then show ?thesis using assms(5,6) b n f(1,2) by (auto simp: do_scan_monte_def simp del: held_simps)
  next
    case False
    then have "scan_exchange e info1 p fd sz m2 asc1 = Some (Scan_Ret rv m' asc' calls)"
      using assms(5,6) b n f(1) by (simp add: do_scan_monte_def)
    from scan_exchange_ok [OF f(2) assms(3) f(3,4) this] show ?thesis .
  qed
  then have "mem_ok m' (\<lambda>q. cluster_refs asc' q + ((if rv = - 1 then held [p] q else 0) + r q))"
    by (auto simp: cluster_ok_def split: if_splits)
  moreover have "(\<lambda>q. cluster_refs asc' q + ((if rv = - 1 then held [p] q else 0) + r q)) =
      (\<lambda>q. cluster_refs asc' q + ((if rv = - 1 \<and> q = p then 1 else 0) + r q))" by (rule ext) simp
  ultimately show ?thesis by simp
qed

text \<open>A network that takes the request of a scan and brings the answer of the node.\<close>

definition scan_answered :: "scan_env \<Rightarrow> nat \<Rightarrow> response_msg list list \<Rightarrow> response_msg list \<Rightarrow> bool" where
  "scan_answered e sz rss rs \<longleftrightarrow>
     (\<exists>n. cf_socket_write_forever (se_write_ok e) (se_restore_ok e) (se_write e) sz = Returned (0, n)) \<and>
     (\<exists>envs later. se_protos e = envs @ later \<and> list_all2 proto_env_ok envs (rss @ [rs])) \<and>
     (\<forall>r \<in> set (concat rss). \<not> scan_ends (rm_key r)) \<and> (\<exists>r \<in> set rs. scan_ends (rm_key r))"

lemma scan_exchange_answered:
  assumes ok: "cluster_ok m asc (\<lambda>q. held [p] q + r q)" and env: "scan_env_ok e" and fd: "- (2 ^ 31) \<le> fd" "fd < 2 ^ 31"
    and a: "scan_answered e sz rss rs"
  shows "\<exists>m' asc' calls. scan_exchange e info p fd sz m asc = Some (Scan_Ret (fold (scan_res info) (map rm_key rs) 0) m' asc' calls) \<and>
    list_all2 call_holds (filter (\<lambda>r. scan_gives info (rm_key r)) (concat rss @ rs)) calls \<and> cluster_ok m' asc' r"
proof -
  obtain m2 asc2 where du: "se_during e (m, asc) = (m2, asc2)" by fastforce
  have ok2: "cluster_ok m2 asc2 (\<lambda>q. held [p] q + r q)"
    using keeps_sharesD [where f = "se_during e", OF _ ok du] env by (simp add: scan_env_ok_def)
  obtain g where g: "se_pool e = Some g" using env by (auto simp: scan_env_ok_def)
  from put_back_ok [OF ok2 fd, of g] obtain m3 where b: "put_back (Some g) m2 p fd = Some m3" "cluster_ok m3 asc2 r" by blast
  obtain n where n: "cf_socket_write_forever (se_write_ok e) (se_restore_ok e) (se_write e) sz = Returned (0, n)"
    using a by (auto simp: scan_answered_def)
  obtain envs later where p: "se_protos e = envs @ later" "list_all2 proto_env_ok envs (rss @ [rs])"
    using a by (auto simp: scan_answered_def)
  have rd: "rd_fine (map (se_stack e) [0..<STACK_BUF_SZ]) At_Null" and l: "length (map (se_stack e) [0..<8]) = 8"
    by (simp_all add: rd_fine_def)
  from scan.read_stream_ok [OF p(2) rd l, where unzip = None and info = info and later = later and cs = "[]"] a obtain calls where
    "read_stream (scan_step info) None (envs @ later) (map (se_stack e) [0..<8])
        (map (se_stack e) [0..<STACK_BUF_SZ]) At_Null [] = Some (Stream_Done (fold (scan_res info) (map rm_key rs) 0) calls)"
    "list_all2 call_holds (filter (\<lambda>r. scan_gives info (rm_key r)) (concat rss @ rs)) calls"
    by (auto simp: scan_answered_def)
  then show ?thesis using n p(1) du g b by (simp add: scan_exchange_def)
qed

text \<open>
  The records of an answer: messages without an error that are not the last one and have bins, or no bins asked for.
  The result is told by the last message of the last proto that is an error or a record.
\<close>

definition scan_record :: "u32 \<Rightarrow> response_msg \<Rightarrow> bool" where
  "scan_record info r \<longleftrightarrow> rm_code r = CL_RESULT_OK \<and> rm_info3 r AND CL_MSG_INFO3_LAST = 0 \<and>
     (rm_ops r \<noteq> [] \<or> info AND CL_MSG_INFO1_NOBINDATA \<noteq> 0)"

definition scan_outcome :: "u32 \<Rightarrow> response_msg list \<Rightarrow> int" where
  "scan_outcome info rs =
     (let xs = filter (\<lambda>r. rm_code r \<noteq> CL_RESULT_OK \<or> scan_record info r) rs
      in if xs = [] \<or> rm_code (last xs) = CL_RESULT_NOTFOUND then 0 else int (unat (rm_code (last xs))))"

lemma scan_gives_record: "scan_gives info (rm_key r) \<longleftrightarrow> scan_record info r"
  by (simp add: rm_key_def scan_record_def scan_hands_def)

lemma scan_res_outcome: "fold (scan_res info) (map rm_key rs) 0 = scan_outcome info rs"
proof (induction rs rule: rev_induct)
  case (snoc r rs)
  have "scan_res info (rm_key r) z = (if rm_code r = CL_RESULT_NOTFOUND then 0 else if rm_code r \<noteq> CL_RESULT_OK
      then int (unat (rm_code r)) else if scan_record info r then 0 else z)" for z
    unfolding scan_gives_record [symmetric] by (simp add: rm_key_def)
  then show ?case using snoc by (simp add: scan_outcome_def Let_def CL_RESULT_OK_def CL_RESULT_NOTFOUND_def)
qed (simp add: scan_outcome_def)

lemma scan_outcome_end:
  assumes "\<forall>r \<in> set rs. \<not> scan_ends (rm_key r)" and "scan_ends (rm_key fin)"
  shows "scan_outcome info (rs @ [fin]) = (if rm_code fin = CL_RESULT_NOTFOUND then 0 else int (unat (rm_code fin)))"
proof -
  have "\<forall>r \<in> set rs. rm_code r = CL_RESULT_OK" using assms(1) by (simp add: rm_key_def)
  then have "scan_outcome info rs = 0"
    using last_in_set [of "filter (\<lambda>r. rm_code r \<noteq> CL_RESULT_OK \<or> scan_record info r) rs"]
    by (auto simp: scan_outcome_def Let_def CL_RESULT_OK_def)
  then show ?thesis using assms(2) unfolding scan_res_outcome [symmetric] by (simp add: rm_key_def CL_RESULT_OK_def)
qed

text \<open>
  C8: A scan delivers what the node sent. Every record in the protos up to that with the message that ends the stream is handed to
  the callback, in order, with its namespace, digest, set, generation, time to live and bins, and
  nothing else is; and the reference to the node is given back. This includes records behind
  the ending message in its proto: the code goes on to the end of the proto, hands them over and sets the result to 0, so that they
  hide an error of the server. The result is that of the last error or record of this proto (0 for a record and for \<open>not found\<close>);
  when nothing follows the ending message, that is the code of this message, or 0 when it is the last message or \<open>not found\<close>.
\<close>

theorem scan_delivers:
  assumes "cluster_ok m asc r" and "\<And>q. r q < 2 ^ 30" and "scan_env_ok e"
    and "scan_node name (fst (se_before e (m, asc))) (snd (se_before e (m, asc))) = Some (Some p, m1, asc1)"
    and "cl_compile rmd (se_compile e) info1 info2 0 (Some ns) set0 None None None CL_OP_WRITE None 0
        (Some (map (se_stack e) [0..<STACK_BUF_SZ])) STACK_BUF_SZ None 0 (map_option (scan_param_field pct) opt) = Some (0, wr, sz, d)"
    and "cl_cluster_node_fd_get (se_conn e) m1 p False (cs_nbconnect asc1) = Some (fd, m2)" and "fd \<noteq> - 1"
    and "scan_answered e sz rss rs"
  shows "\<exists>rv m' asc' calls. do_scan_monte rmd e m asc name info1 info2 ns set0 pct opt = Some (Scan_Ret rv m' asc' calls) \<and>
    list_all2 call_holds (filter (scan_record info1) (concat rss @ rs)) calls \<and>
    mem_ok m' (\<lambda>q. cluster_refs asc' q + r q) \<and> rv = scan_outcome info1 rs \<and>
    (\<forall>rs' fin. rs = rs' @ [fin] \<and> (\<forall>r \<in> set rs'. \<not> scan_ends (rm_key r)) \<longrightarrow>
      rv = (if rm_code fin = CL_RESULT_NOTFOUND then 0 else int (unat (rm_code fin))))"
proof -
  obtain m0 asc0 where b: "se_before e (m, asc) = (m0, asc0)" by fastforce
  have ok0: "cluster_ok m0 asc0 r" using keeps_sharesD [where f = "se_before e", OF _ assms(1) b] assms(3) by (simp add: scan_env_ok_def)
  have n: "scan_node name m0 asc0 = Some (Some p, m1, asc1)" using assms(4) b by simp
  have ok1: "cluster_ok m1 asc1 (\<lambda>q. held [p] q + r q)" using scan_node_ok [OF ok0 assms(2) n] .
  have ce: "- (2 ^ 31) \<le> ce_socket (se_conn e)" "ce_socket (se_conn e) < 2 ^ 31" using assms(3) by (simp_all add: scan_env_ok_def)
  from get_fd_ok [OF ok1 ce, of "cs_nbconnect asc1"] assms(6) have
    f: "cluster_ok m2 asc1 (\<lambda>q. held [p] q + r q)" "- (2 ^ 31) \<le> fd" "fd < 2 ^ 31" by auto
  from scan_exchange_answered [OF f(1) assms(3) f(2,3) assms(8), of info1] obtain m' asc' calls where
    x: "scan_exchange e info1 p fd sz m2 asc1 = Some (Scan_Ret (scan_outcome info1 rs) m' asc' calls)"
      "list_all2 call_holds (filter (scan_record info1) (concat rss @ rs)) calls" "cluster_ok m' asc' r"
    unfolding scan_res_outcome scan_gives_record by blast
  have d: "do_scan_monte rmd e m asc name info1 info2 ns set0 pct opt = Some (Scan_Ret (scan_outcome info1 rs) m' asc' calls)"
    using assms(5-7) b n x(1) by (simp add: do_scan_monte_def)
  have "scan_outcome info1 rs = (if rm_code fin = CL_RESULT_NOTFOUND then 0 else int (unat (rm_code fin)))"
    if t: "rs = rs' @ [fin]" "\<forall>r \<in> set rs'. \<not> scan_ends (rm_key r)" for rs' fin
  proof -
    have "scan_ends (rm_key fin)" using assms(8) t by (auto simp: scan_answered_def)
    then show ?thesis using scan_outcome_end [OF t(2)] t(1) by simp
  qed
  then show ?thesis using d x(2,3) by (auto simp: cluster_ok_def)
qed

subsection \<open>A sample scan\<close>

definition sample_scan_env :: "(nat + int) list \<Rightarrow> proto_env list \<Rightarrow> scan_env" where
  "sample_scan_env w protos = \<lparr>se_compile = None, se_before = id, se_conn = sample_conn, se_write_ok = True, se_restore_ok = True,
     se_write = w, se_stack = (\<lambda>_. 0), se_protos = protos, se_during = id, se_pool = Some (\<lambda>_. 0)\<rparr>"

lemma sample_scan_env_ok: "scan_env_ok (sample_scan_env w protos)"
  by (simp add: sample_scan_env_def scan_env_ok_def sample_conn_def keeps_shares_def)

lemma sample_scan_node: "scan_node (Some [66]) sample_mem sample_cluster = Some (Some 1, sample_taken, sample_cluster)"
  by (simp add: scan_node_def sample_cluster_def sample_mem_def sample_taken_def sample_node_def cl_cluster_node_reserve_def
    cf_client_rc_reserve_def put_node_def fun_upd_twist)

lemma sample_scan_compile:
  "\<exists>wr d. cl_compile rmd (se_compile (sample_scan_env w protos)) i1 i2 0 (Some [97, 0]) None None None None CL_OP_WRITE None 0
     (Some (map (se_stack (sample_scan_env w protos)) [0..<STACK_BUF_SZ])) STACK_BUF_SZ None 0
     (map_option (scan_param_field 100) None) = Some (0, wr, 36, d)"
proof -
  have s: "msg_size (Some [97]) None None None 0 None (op_args None CL_OP_WRITE None) = 36"
    by (simp add: msg_size_def fields_size_def op_args_def ops_bytes_def)
  have o: "op_args None CL_OP_WRITE None = []" by (simp add: op_args_def)
  have "\<exists>rest. cl_compile rmd (se_compile (sample_scan_env w protos)) i1 i2 0 (Some [97, 0]) None None None None CL_OP_WRITE None
      (length (op_args None CL_OP_WRITE None)) (Some (map (se_stack (sample_scan_env w protos)) [0..<STACK_BUF_SZ])) STACK_BUF_SZ None 0 None =
    Some (0, Some (request_bytes i1 i2 0 (Some [97]) None None None (op_args None CL_OP_WRITE None) None 0 None @ rest),
      msg_size (Some [97]) None None None 0 None (op_args None CL_OP_WRITE None), d_ret_of rmd None None None)"
    by (rule cl_compile_layout) (simp_all add: s [unfolded o] opt_c_str_def c_str_def load_def request_ok_def op_args_def STACK_BUF_SZ_def)
  then show ?thesis by (auto simp: s [unfolded o] o)
qed


lemma sample_scan_fd:
  "\<exists>m1. cl_cluster_node_fd_get (se_conn (sample_scan_env w protos)) sample_taken 1 False (cs_nbconnect sample_cluster) = Some (5, m1)"
  using sample_fd by (auto simp: sample_scan_env_def)

lemma sample_scan_node_env:
  "scan_node (Some [66]) (fst (se_before (sample_scan_env w protos) (sample_mem, sample_cluster)))
     (snd (se_before (sample_scan_env w protos) (sample_mem, sample_cluster))) = Some (Some 1, sample_taken, sample_cluster)"
  by (simp add: sample_scan_env_def sample_scan_node)

theorem scan_failure_leaks_witness:
  "\<exists>m' asc' calls. do_scan_monte (\<lambda>_. replicate 20 0) (sample_scan_env [Inr ENOENT] []) sample_mem sample_cluster (Some [66]) 1 0 [97, 0]
      None 100 None = Some (Scan_Ret (- 1) m' asc' calls) \<and>
    mem_ok m' (\<lambda>q. cluster_refs asc' q + ((if (- 1 :: int) = - 1 \<and> q = 1 then 1 else 0) + 0))"
proof -
  let ?e = "sample_scan_env [Inr ENOENT] []"
  obtain m1 where fd: "cl_cluster_node_fd_get (se_conn ?e) sample_taken 1 False (cs_nbconnect sample_cluster) = Some (5, m1)"
    using sample_scan_fd by blast
  obtain wr d where c: "cl_compile (\<lambda>_. replicate 20 0) (se_compile ?e) 1 0 0 (Some [97, 0]) None None None None CL_OP_WRITE None 0
     (Some (map (se_stack ?e) [0..<STACK_BUF_SZ])) STACK_BUF_SZ None 0 (map_option (scan_param_field 100) None) = Some (0, wr, 36, d)"
    using sample_scan_compile by blast
  have "cf_socket_write_forever (se_write_ok ?e) (se_restore_ok ?e) (se_write ?e) 36 = Returned (ENOENT, 0)"
    by (simp add: cf_socket_write_forever_def sample_scan_env_def errno_defs)
  then have "scan_exchange ?e 1 1 5 36 m1 sample_cluster = Some (Scan_Ret (- 1) (close_fd m1 5) sample_cluster [])"
    by (simp add: scan_exchange_def errno_defs)
  moreover have "se_before ?e (sample_mem, sample_cluster) = (sample_mem, sample_cluster)" by (simp add: sample_scan_env_def)
  ultimately have r: "do_scan_monte (\<lambda>_. replicate 20 0) ?e sample_mem sample_cluster (Some [66]) 1 0 [97, 0] None 100 None =
      Some (Scan_Ret (- 1) (close_fd m1 5) sample_cluster [])"
    using c fd by (simp add: do_scan_monte_def sample_scan_node)
  show ?thesis
    using r scan_failure_leaks [OF sample_cluster_in_order _ sample_scan_env_ok sample_scan_node_env c r] by auto
qed

text \<open>The witness has an answer in which a record follows an error of the server in the same proto.\<close>

theorem scan_delivers_witness:
  "\<exists>rv m' asc' calls. do_scan_monte (\<lambda>_. replicate 20 0) (sample_scan_env [Inl 20, Inl 20]
        [sample_proto [sample_record 0, sample_record 0], sample_proto [sample_last 5, sample_record 0]])
      sample_mem sample_cluster (Some [66]) 1 0 [97, 0] None 100 None = Some (Scan_Ret rv m' asc' calls) \<and>
    list_all2 call_holds [sample_record 0, sample_record 0, sample_record 0] calls \<and>
    mem_ok m' (\<lambda>q. cluster_refs asc' q + 0) \<and> rv = 0 \<and> scan_outcome 1 [sample_last 5] = 5"
proof -
  let ?e = "sample_scan_env [Inl 20, Inl 20] [sample_proto [sample_record 0, sample_record 0], sample_proto [sample_last 5, sample_record 0]]"
  obtain m1 where fd: "cl_cluster_node_fd_get (se_conn ?e) sample_taken 1 False (cs_nbconnect sample_cluster) = Some (5, m1)"
    using sample_scan_fd by blast
  obtain wr d where c: "cl_compile (\<lambda>_. replicate 20 0) (se_compile ?e) 1 0 0 (Some [97, 0]) None None None None CL_OP_WRITE None 0
     (Some (map (se_stack ?e) [0..<STACK_BUF_SZ])) STACK_BUF_SZ None 0 (map_option (scan_param_field 100) None) = Some (0, wr, 36, d)"
    using sample_scan_compile by blast
  have p: "list_all2 proto_env_ok (se_protos ?e) ([[sample_record 0, sample_record 0]] @ [[sample_last 5, sample_record 0]])"
    by (simp add: sample_scan_env_def sample_proto_ok sample_msgs_ok)
  have a: "scan_answered ?e 36 [[sample_record 0, sample_record 0]] [sample_last 5, sample_record 0]"
    unfolding scan_answered_def
  proof (intro conjI exI)
    show "se_protos ?e = se_protos ?e @ []" by simp
  qed (use p in \<open>simp_all add: sample_scan_env_def sample_record_def sample_last_def rm_key_def CL_RESULT_OK_def
      CL_MSG_INFO3_LAST_def cf_socket_write_forever_def\<close>)
  have o: "scan_record 1 (sample_record 0)" "\<not> scan_record 1 (sample_last 5)" "rm_code (sample_record 0) = 0" "rm_code (sample_last 5) = 5"
    by (simp_all add: scan_record_def sample_record_def sample_last_def CL_RESULT_OK_def CL_MSG_INFO3_LAST_def)
  have "scan_outcome 1 [sample_last 5, sample_record 0] = 0" "scan_outcome 1 [sample_last 5] = 5"
    using o by (simp_all add: scan_outcome_def CL_RESULT_NOTFOUND_def CL_RESULT_OK_def)
  then show ?thesis
    using scan_delivers [OF sample_cluster_in_order _ sample_scan_env_ok sample_scan_node_env c fd _ a] o by auto
qed

end
