(* ===== verification/Cl_Base64.thy ===== *)
theory Cl_Base64
  imports Cl_Replicas
begin

section \<open>Base 64 (\<open>src/php_cl_utils.c\<close>)\<close>

text \<open>
  The encoder and the decoders that the PHP extension has beside those of the client. A buffer
  is a block. Lengths and counters are of type \<open>int\<close>, and no length given is negative: a sum or a
  shift that does not fit is undefined in C, and here a fault, as every access outside of a block is.
\<close>

definition c_int :: "nat \<Rightarrow> nat option" where
  "c_int n = (if n < 2 ^ 31 then Some n else None)"

definition base64_bytes :: block where
  "base64_bytes = map of_nat ([65..<91] @ [97..<123] @ [48..<58] @ [43, 47])"

definition base64_valid_a :: "bool list" where
  "base64_valid_a = replicate 43 False @ [True, False, False, False, True] @ replicate 10 True @ replicate 7 False @
     replicate 26 True @ replicate 6 False @ replicate 26 True @ replicate 133 False"

definition base64_decode_a :: block where
  "base64_decode_a = replicate 43 0 @ [62, 0, 0, 0, 63] @ map of_nat [52..<62] @ replicate 7 0 @
     map of_nat [0..<26] @ replicate 6 0 @ map of_nat [26..<52] @ replicate 133 0"

definition base64_valid_char :: "u8 \<Rightarrow> bool" where
  "base64_valid_char c = base64_valid_a ! unat c"

text \<open>
  \<open>base64_validate_input\<close>: the last two characters are meant by the tests after the loop, but
  the first two are tested.
\<close>

definition base64_validate_input :: "block \<Rightarrow> nat \<Rightarrow> bool option" where
  "base64_validate_input b len =
     (if len mod 4 \<noteq> 0 then Some False
      else do {
        x \<leftarrow> load b 0 (len - 2);
        if \<not> (\<forall>c \<in> set x. base64_valid_char c) then Some False
        else do {
          y \<leftarrow> load b 0 2;
          Some (y ! 1 = 61 \<and> y ! 0 = 61 \<or> base64_valid_char (y ! 0) \<and> base64_valid_char (y ! 1)) } })"

definition base64_encode_maxlen :: "nat \<Rightarrow> nat option" where
  "base64_encode_maxlen len = do {
     n \<leftarrow> c_int (len + 2);
     len \<leftarrow> c_int (push_bit 2 (n div 3));
     c_int (len + 1) }"

definition sextet :: "u8 \<Rightarrow> u8" where
  "sextet x = base64_bytes ! unat x"

fun encode_loop :: "block \<Rightarrow> nat \<Rightarrow> nat \<Rightarrow> nat \<Rightarrow> block \<Rightarrow> (nat \<times> nat \<times> nat \<times> block) option" where
  "encode_loop inp (Suc (Suc (Suc len))) i j out = do {
     x \<leftarrow> load inp i 3;
     out \<leftarrow> store out j [sextet (drop_bit 2 (x ! 0 AND 0xfc)),
                       sextet (push_bit 4 (x ! 0 AND 0x03) + drop_bit 4 (x ! 1 AND 0xf0)),
                       sextet (push_bit 2 (x ! 1 AND 0x0f) + drop_bit 6 (x ! 2 AND 0xc0)),
                       sextet (x ! 2 AND 0x3f)];
     i \<leftarrow> c_int (i + 3);
     j \<leftarrow> c_int (j + 4);
     encode_loop inp len i j out }"
| "encode_loop inp len i j out = Some (len, i, j, out)"

definition base64_encode :: "block \<Rightarrow> block \<Rightarrow> nat \<Rightarrow> (block \<times> nat) option" where
  "base64_encode inp out len = do {
     (len, i, j, out) \<leftarrow> encode_loop inp len 0 0 out;
     if len = 1 then do {
       x \<leftarrow> load inp i 1;
       out \<leftarrow> store out j [sextet (drop_bit 2 (x ! 0 AND 0xfc)), sextet (push_bit 4 (x ! 0 AND 0x03)), 61, 61];
       j \<leftarrow> c_int (j + 4);
       Some (out, j) }
     else if len = 2 then do {
       x \<leftarrow> load inp i 2;
       out \<leftarrow> store out j [sextet (drop_bit 2 (x ! 0 AND 0xfc)),
                         sextet (push_bit 4 (x ! 0 AND 0x03) + drop_bit 4 (x ! 1 AND 0xf0)),
                         sextet (push_bit 2 (x ! 1 AND 0x0f)), 61];
       j \<leftarrow> c_int (j + 4);
       Some (out, j) }
     else Some (out, j) }"

text \<open>\<open>base64_tostring\<close> is the same with a zero at the end, which the length counts.\<close>

definition base64_tostring :: "block \<Rightarrow> block \<Rightarrow> nat \<Rightarrow> (block \<times> nat) option" where
  "base64_tostring inp out len = do {
     (out, j) \<leftarrow> base64_encode inp out len;
     out \<leftarrow> store out j [0];
     j \<leftarrow> c_int (j + 1);
     Some (out, j) }"

definition base64_da :: "u8 \<Rightarrow> u8" where
  "base64_da c = base64_decode_a ! unat c"

definition decode_quad :: "block \<Rightarrow> block" where
  "decode_quad x =
     [push_bit 2 (base64_da (x ! 0)) OR drop_bit 4 (base64_da (x ! 1)), push_bit 4 (base64_da (x ! 1)) OR drop_bit 2 (base64_da (x ! 2)),
      push_bit 6 (base64_da (x ! 2)) OR base64_da (x ! 3)]"

function inplace_loop :: "nat \<Rightarrow> nat \<Rightarrow> nat \<Rightarrow> block \<Rightarrow> (nat \<times> block) option" where
  "inplace_loop len i j bytes =
     (if i < len then do {
        x \<leftarrow> load bytes i 4;
        bytes \<leftarrow> store bytes j (decode_quad x);
        i' \<leftarrow> c_int (i + 4);
        j' \<leftarrow> c_int (j + 3);
        inplace_loop len i' j' bytes }
      else Some (j, bytes))"
  by pat_completeness auto
termination by (relation "measure (\<lambda>(len, i, j, bytes). len - i)") (auto simp: c_int_def split: if_splits)

declare inplace_loop.simps [simp del]

text \<open>The code, and then the bytes and the length (which the code counts as signed).\<close>

definition base64_decode_inplace :: "block \<Rightarrow> nat \<Rightarrow> bool \<Rightarrow> (int \<times> block \<times> int) option" where
  "base64_decode_inplace bytes len validate = do {
     ok \<leftarrow> (if validate then base64_validate_input bytes len else Some True);
     if \<not> ok then Some (- 1, bytes, int len)
     else do {
       last1 \<leftarrow> (if len = 0 then None else load_u8 bytes (len - 1));
       len_cor \<leftarrow> (if last1 = 61
          then do { last2 \<leftarrow> (if len = 1 then None else load_u8 bytes (len - 2)); Some (if last2 = 61 then 2 else 1) }
          else Some 0);
       (j, bytes) \<leftarrow> inplace_loop len 0 0 bytes;
       Some (0, bytes, int j - len_cor) } }"

function decode_loop :: "block \<Rightarrow> nat \<Rightarrow> nat \<Rightarrow> nat \<Rightarrow> block \<Rightarrow> (nat \<times> nat \<times> block) option" where
  "decode_loop inp len i j out =
     (if i < len then do {
        x \<leftarrow> load inp i 4;
        out \<leftarrow> store out j (decode_quad x);
        i' \<leftarrow> c_int (i + 4);
        j' \<leftarrow> c_int (j + 3);
        decode_loop inp len i' j' out }
      else Some (i, j, out))"
  by pat_completeness auto
termination by (relation "measure (\<lambda>(inp, len, i, j, out). len - i)") (auto simp: c_int_def split: if_splits)

declare decode_loop.simps [simp del]

definition base64_decode :: "block \<Rightarrow> block \<Rightarrow> nat \<Rightarrow> bool \<Rightarrow> (int \<times> block \<times> int) option" where
  "base64_decode inp out len validate = do {
     ok \<leftarrow> (if validate then base64_validate_input inp len else Some True);
     if \<not> ok then Some (- 1, out, int len)
     else do {
       (i, j, out) \<leftarrow> decode_loop inp len 0 0 out;
       last1 \<leftarrow> (if i = 0 then None else load_u8 inp (i - 1));
       last2 \<leftarrow> load_u8 inp (i - 2);
       Some (0, out, int j - (if last1 = 61 then 1 else 0) - (if last2 = 61 then 1 else 0)) } }"

subsection \<open>The reference encoder\<close>

lemma high_bits: "(0xfc :: u8) = NOT (mask 2)" "(0xf0 :: u8) = NOT (mask 4)" "(0xc0 :: u8) = NOT (mask 6)"
  by code_simp+

lemma drop_bit_high: "drop_bit n (a AND NOT (mask n)) = drop_bit n a" for a :: u8
  by (rule bit_eqI) (auto simp: bit_simps dest: bit_imp_le_length)

lemma masked: "drop_bit 2 (a AND 0xfc) = drop_bit 2 a" "drop_bit 4 (a AND 0xf0) = drop_bit 4 a" "drop_bit 6 (a AND 0xc0) = drop_bit 6 a"
  "a AND 0x03 = take_bit 2 a" "a AND 0x0f = take_bit 4 a" "a AND 0x3f = take_bit 6 a" for a :: u8
proof -
  show "drop_bit 2 (a AND 0xfc) = drop_bit 2 a" "drop_bit 4 (a AND 0xf0) = drop_bit 4 a" "drop_bit 6 (a AND 0xc0) = drop_bit 6 a"
    unfolding high_bits by (rule drop_bit_high)+
qed (simp_all add: take_bit_eq_mask mask_eq_exp_minus_1)

lemma joined: "push_bit 4 (take_bit 2 a) + drop_bit 4 b = push_bit 4 (take_bit 2 a) OR drop_bit 4 b"
  "push_bit 2 (take_bit 4 a) + drop_bit 6 b = push_bit 2 (take_bit 4 a) OR drop_bit 6 b" for a b :: u8
  by (rule disjunctive_add, auto simp: bit_simps dest: bit_imp_le_length)+

lemma sextet_table: "\<forall>k \<in> set [0..<64]. sextet (of_nat k) = b64_char (of_nat k)"
  by code_simp

lemma sextet_char: "x < 64 \<Longrightarrow> sextet x = b64_char x"
proof -
  assume "x < 64"
  then have "unat x \<in> set [0..<64]" by (simp add: word_less_nat_alt)
  then have "sextet (of_nat (unat x)) = b64_char (of_nat (unat x))" using sextet_table by blast
  then show ?thesis by simp
qed

lemma sextet_chars: "sextet (push_bit 4 (take_bit 2 a)) = b64_char (push_bit 4 (take_bit 2 a))"
  "sextet (push_bit 2 (take_bit 4 a)) = b64_char (push_bit 2 (take_bit 4 a))" for a :: u8
  using sextets(2) [of a 0] sextets(3) [of a 0] by (simp_all add: sextet_char)

lemmas sextet_simps = masked joined sextet_char [OF sextets(1)] sextet_char [OF sextets(2)] sextet_char [OF sextets(3)]
  sextet_char [OF sextets(4)] sextet_chars

lemma groups_of: "[sextet (drop_bit 2 (a AND 0xfc)), sextet (push_bit 4 (a AND 0x03) + drop_bit 4 (b AND 0xf0)),
      sextet (push_bit 2 (b AND 0x0f) + drop_bit 6 (c AND 0xc0)), sextet (c AND 0x3f)] = b64_encode [a, b, c]"
  "[sextet (drop_bit 2 (a AND 0xfc)), sextet (push_bit 4 (a AND 0x03) + drop_bit 4 (b AND 0xf0)),
      sextet (push_bit 2 (b AND 0x0f)), 61] = b64_encode [a, b]"
  "[sextet (drop_bit 2 (a AND 0xfc)), sextet (push_bit 4 (a AND 0x03)), 61, 61] = b64_encode [a]"
  by (simp_all only: sextet_simps b64_encode.simps)

lemma nth_small: "[a, b, c] ! 0 = a" "[a, b, c] ! 1 = b" "[a, b, c] ! 2 = c" "[a, b] ! 0 = a" "[a, b] ! 1 = b" "[a] ! 0 = a"
  by simp_all

text \<open>The whole groups first, from any position on.\<close>

fun b64_groups :: "block \<Rightarrow> block \<times> block" where
  "b64_groups (a # b # c # xs) = apfst (append (b64_encode [a, b, c])) (b64_groups xs)"
| "b64_groups xs = ([], xs)"

lemma b64_groups_encode: "b64_encode xs = fst (b64_groups xs) @ b64_encode (snd (b64_groups xs))"
  by (induction xs rule: b64_groups.induct) simp_all

lemma encode_loop_groups:
  assumes "length pre = i" and "length opre = j" and "length (fst (b64_groups xs)) \<le> length rest"
    and "i + length xs < 2 ^ 31" and "j + length (fst (b64_groups xs)) < 2 ^ 31"
  shows "encode_loop (pre @ xs) (length xs) i j (opre @ rest) =
    Some (length (snd (b64_groups xs)), i + (length xs - length (snd (b64_groups xs))), j + length (fst (b64_groups xs)),
      opre @ fst (b64_groups xs) @ drop (length (fst (b64_groups xs))) rest)"
  using assms
proof (induction xs arbitrary: pre opre i j rest rule: b64_groups.induct)
  case (1 a b c xs)
  let ?g = "b64_encode [a, b, c]"
  have l: "4 + length (fst (b64_groups xs)) \<le> length rest" using 1(4) by simp
  have ld: "load (pre @ a # b # c # xs) i 3 = Some [a, b, c]" using 1(2) by (simp add: load_def)
  have st: "store (opre @ rest) j ?g = Some ((opre @ ?g) @ drop 4 rest)" using 1(3) l by (simp add: store_def)
  have c: "c_int (i + 3) = Some (i + 3)" "c_int (j + 4) = Some (j + 4)" using 1(5,6) by (simp_all add: c_int_def)
  have "encode_loop ((pre @ [a, b, c]) @ xs) (length xs) (i + 3) (j + 4) ((opre @ ?g) @ drop 4 rest) =
    Some (length (snd (b64_groups xs)), i + 3 + (length xs - length (snd (b64_groups xs))), j + 4 + length (fst (b64_groups xs)),
      (opre @ ?g) @ fst (b64_groups xs) @ drop (length (fst (b64_groups xs))) (drop 4 rest))"
    by (rule 1(1)) (use 1(2,3,5,6) l in auto)
  moreover have "length (snd (b64_groups xs)) \<le> length xs" by (induction xs rule: b64_groups.induct) auto
  moreover have "encode_loop (pre @ a # b # c # xs) (length (a # b # c # xs)) i j (opre @ rest) =
      encode_loop ((pre @ [a, b, c]) @ xs) (length xs) (i + 3) (j + 4) ((opre @ ?g) @ drop 4 rest)"
    using ld st c by (simp only: list.size add_0_right add_Suc_right encode_loop.simps nth_small
      bind.bind_lunit groups_of append.assoc append_Cons append_Nil)
  ultimately show ?case by (simp del: encode_loop.simps add: add4 Suc_diff_le eval_nat_numeral)
qed simp_all

lemma b64_groups_shape: "snd (b64_groups xs) = [] \<or> (\<exists>a. snd (b64_groups xs) = [a]) \<or> (\<exists>a b. snd (b64_groups xs) = [a, b])"
  "\<exists>ys. xs = ys @ snd (b64_groups xs) \<and> length ys = length xs - length (snd (b64_groups xs))"
proof -
  show "snd (b64_groups xs) = [] \<or> (\<exists>a. snd (b64_groups xs) = [a]) \<or> (\<exists>a b. snd (b64_groups xs) = [a, b])"
    by (induction xs rule: b64_groups.induct) auto
  have "\<exists>ys. xs = ys @ snd (b64_groups xs)"
  proof (induction xs rule: b64_groups.induct)
    case (1 a b c xs)
    then obtain ys where "xs = ys @ snd (b64_groups xs)" by blast
    then have "a # b # c # xs = (a # b # c # ys) @ snd (b64_groups (a # b # c # xs))" by simp
    then show ?case by blast
  qed simp_all
  then obtain ys where "xs = ys @ snd (b64_groups xs)" by blast
  then show "\<exists>ys. xs = ys @ snd (b64_groups xs) \<and> length ys = length xs - length (snd (b64_groups xs))"
    by (metis add_diff_cancel_right' length_append)
qed

lemma base64_encode_ok:
  assumes "length (b64_encode xs) \<le> length out" and "length (b64_encode xs) < 2 ^ 31"
  shows "base64_encode xs out (length xs) = Some (b64_encode xs @ drop (length (b64_encode xs)) out, length (b64_encode xs))"
proof -
  let ?g = "fst (b64_groups xs)" and ?t = "snd (b64_groups xs)"
  note e = b64_groups_encode [of xs]
  have l: "length ?g + length (b64_encode ?t) \<le> length out" "length ?g + length (b64_encode ?t) < 2 ^ 31" using assms e by simp_all
  have "length xs \<le> length (b64_encode xs)" by (induction xs rule: b64_encode.induct) simp_all
  then have n: "length xs < 2 ^ 31" using assms(2) by simp
  have s: "encode_loop xs (length xs) 0 0 out =
      Some (length ?t, length xs - length ?t, length ?g, ?g @ drop (length ?g) out)"
    using encode_loop_groups [of "[]" 0 "[]" 0 xs out] l n by simp
  obtain ys where ys: "xs = ys @ ?t" "length ys = length xs - length ?t" using b64_groups_shape(2) by blast
  have ld: "load xs (length xs - length ?t) (length ?t) = Some ?t" by (subst ys(1), subst ys(2) [symmetric]) (simp add: load_def)
  have st: "store (?g @ drop (length ?g) out) (length ?g) x = Some (?g @ x @ drop (length ?g + length x) out)"
    if "length ?g + length x \<le> length out" for x using that by (simp add: store_def add.commute)
  consider "?t = []" | a where "?t = [a]" | a b where "?t = [a, b]" using b64_groups_shape(1) by blast
  then show ?thesis
  proof cases
    case 1
    then show ?thesis using s e by (simp add: base64_encode_def)
  next
    case 2
    have "store (?g @ drop (length ?g) out) (length ?g) (b64_encode [a]) = Some (?g @ b64_encode [a] @ drop (length ?g + 4) out)"
      using st [of "b64_encode [a]"] l 2 by (simp add: add4)
    moreover have "c_int (length ?g + 4) = Some (length ?g + 4)" using l(2) 2 by (simp add: c_int_def)
    ultimately have "base64_encode xs out (length xs) = Some (?g @ b64_encode [a] @ drop (length ?g + 4) out, length ?g + 4)"
      using s ld 2 unfolding base64_encode_def
      by (simp only: bind.bind_lunit prod.case list.size add_0_right add_0 One_nat_def [symmetric] add_Suc_right nth_small groups_of if_True simp_thms)
    then show ?thesis using e 2 by (simp add: add4)
  next
    case 3
    have "store (?g @ drop (length ?g) out) (length ?g) (b64_encode [a, b]) = Some (?g @ b64_encode [a, b] @ drop (length ?g + 4) out)"
      using st [of "b64_encode [a, b]"] l 3 by (simp add: add4)
    moreover have "length ?t = 2" using 3 by simp
    moreover have "c_int (length ?g + 4) = Some (length ?g + 4)" using l(2) 3 by (simp add: c_int_def)
    ultimately have "base64_encode xs out (length xs) = Some (?g @ b64_encode [a, b] @ drop (length ?g + 4) out, length ?g + 4)"
      using s ld 3 unfolding base64_encode_def
      by (simp only: bind.bind_lunit prod.case nth_small groups_of) simp
    then show ?thesis using e 3 by (simp add: add4)
  qed
qed

subsection \<open>Decoding\<close>

lemma base64_da_eq: "base64_da = B64DA"
  by (rule ext) (simp add: base64_da_def B64DA_def base64_decode_a_def CF_BASE64_DECODE_ARRAY_def)

lemma decode_quads: "decode_quad [b64_char (drop_bit 2 a), b64_char (push_bit 4 (take_bit 2 a) OR drop_bit 4 b),
     b64_char (push_bit 2 (take_bit 4 b) OR drop_bit 6 c), b64_char (take_bit 6 c)] = [a, b, c]"
  "decode_quad [b64_char (drop_bit 2 a), b64_char (push_bit 4 (take_bit 2 a) OR drop_bit 4 b),
     b64_char (push_bit 2 (take_bit 4 b)), 61] = [a, b, 0]"
  "decode_quad [b64_char (drop_bit 2 a), b64_char (push_bit 4 (take_bit 2 a)), 61, 61] = [a, 0, 0]"
  using sextets(3) [of b 0] octet_2 [of a b 0] sextets(2) [of a 0] octet_1 [of a 0] octet_2 [of a 0 0]
  by (simp_all add: decode_quad_def base64_da_eq B64DA_char B64DA_pad sextets octets)

lemma length_b64_padded: "length (b64_padded bs) = (2 + length bs) div 3 * 3"
proof -
  have "(2 + length bs) mod 3 < 3" by simp
  then have "length bs + (2 - (2 + length bs) mod 3) = (2 + length bs) - (2 + length bs) mod 3" by linarith
  also have "\<dots> = (2 + length bs) div 3 * 3" by (rule minus_mod_eq_div_mult)
  finally have "length bs + (2 - (length bs + 2) mod 3) = (2 + length bs) div 3 * 3" by (simp only: add.commute)
  then show ?thesis by (simp add: b64_padded_def)
qed

lemma b64_padded_cons: "b64_padded (a # b # c # xs) = a # b # c # b64_padded xs"
  by (simp add: b64_padded_def mod_add_self1 [of 3 "2 + length xs", simplified])

lemma inplace_step:
  assumes "length pre = j" and "i = j + length mid" and "length q = 4" and "decode_quad q = d" and "length d = 3" and "i + 4 < 2 ^ 31"
  shows "inplace_loop (i + (4 + n)) i j (pre @ mid @ q @ rest) =
    inplace_loop ((i + 4) + n) (i + 4) (j + 3) ((pre @ d) @ drop 3 (mid @ q) @ rest)"
proof -
  have "load (pre @ mid @ q @ rest) i 4 = Some q" using assms by (simp add: load_def)
  moreover have "store (pre @ mid @ q @ rest) j d = Some ((pre @ d) @ drop 3 (mid @ q) @ rest)"
    using assms by (simp add: store_def)
  moreover have "c_int (i + 4) = Some (i + 4)" "c_int (j + 3) = Some (j + 3)" using assms(2,6) by (simp_all add: c_int_def)
  ultimately show ?thesis using assms(4) by (subst inplace_loop.simps) (simp add: add.assoc)
qed

lemma inplace_end: "inplace_loop i i j bytes = Some (j, bytes)"
  by (simp add: inplace_loop.simps)

lemma inplace_ok:
  assumes "length pre = j" and "i = j + length mid" and "i + length (b64_encode bs) < 2 ^ 31"
  shows "\<exists>buf. inplace_loop (i + length (b64_encode bs)) i j (pre @ mid @ b64_encode bs @ rest) =
      Some (j + length (b64_padded bs), buf) \<and> take (j + length (b64_padded bs)) buf = pre @ b64_padded bs"
  using assms
proof (induction bs arbitrary: pre mid i j rule: b64_encode.induct)
  case (1 a b c xs)
  let ?q = "b64_encode [a, b, c]"
  have q: "length ?q = 4" "decode_quad ?q = [a, b, c]" by (simp_all add: decode_quads)
  have "\<exists>buf. inplace_loop ((i + 4) + length (b64_encode xs)) (i + 4) (j + 3)
      ((pre @ [a, b, c]) @ drop 3 (mid @ ?q) @ b64_encode xs @ rest) = Some (j + 3 + length (b64_padded xs), buf) \<and>
      take (j + 3 + length (b64_padded xs)) buf = (pre @ [a, b, c]) @ b64_padded xs"
    by (rule 1(1)) (use 1(2-4) in auto)
  moreover have "inplace_loop (i + length (b64_encode (a # b # c # xs))) i j (pre @ mid @ b64_encode (a # b # c # xs) @ rest) =
      inplace_loop ((i + 4) + length (b64_encode xs)) (i + 4) (j + 3)
        ((pre @ [a, b, c]) @ drop 3 (mid @ ?q) @ b64_encode xs @ rest)"
  proof -
    have e: "b64_encode (a # b # c # xs) @ rest = ?q @ b64_encode xs @ rest"
      "length (b64_encode (a # b # c # xs)) = 4 + length (b64_encode xs)" by simp_all
    show ?thesis unfolding e by (rule inplace_step [OF 1(2,3) q]) (use 1(4) in simp_all)
  qed
  ultimately show ?case by (simp add: b64_padded_cons eval_nat_numeral)
next
  case (2 a b)
  have q: "length (b64_encode [a, b]) = 4" "decode_quad (b64_encode [a, b]) = [a, b, 0]" by (simp_all add: decode_quads)
  have p: "b64_padded [a, b] = [a, b, 0]" by (simp add: b64_padded_def)
  have b: "i + 4 < 2 ^ 31" using 2(3) by simp
  show ?case using p inplace_step [OF 2(1,2) q _ b, of 0 rest] 2(1) by (simp add: inplace_end eval_nat_numeral)
next
  case (3 a)
  have q: "length (b64_encode [a]) = 4" "decode_quad (b64_encode [a]) = [a, 0, 0]" by (simp_all add: decode_quads)
  have p: "b64_padded [a] = [a, 0, 0]" by (simp add: b64_padded_def numeral_2_eq_2)
  have b: "i + 4 < 2 ^ 31" using 3(3) by simp
  show ?case using p inplace_step [OF 3(1,2) q _ b, of 0 rest] 3(1) by (simp add: inplace_end eval_nat_numeral)
qed (simp add: inplace_end b64_padded_def)

lemma decode_step:
  assumes "length pre = i" and "length opre = j" and "length q = 4" and "decode_quad q = d" and "length d = 3" and "3 \<le> length room"
    and "i + 4 < 2 ^ 31" and "j + 3 < 2 ^ 31"
  shows "decode_loop (pre @ q @ rest) (i + (4 + n)) i j (opre @ room) =
    decode_loop ((pre @ q) @ rest) ((i + 4) + n) (i + 4) (j + 3) ((opre @ d) @ drop 3 room)"
proof -
  have "load (pre @ q @ rest) i 4 = Some q" using assms by (simp add: load_def)
  moreover have "store (opre @ room) j d = Some ((opre @ d) @ drop 3 room)" using assms by (simp add: store_def)
  moreover have "c_int (i + 4) = Some (i + 4)" "c_int (j + 3) = Some (j + 3)" using assms(7,8) by (simp_all add: c_int_def)
  ultimately show ?thesis using assms(4) by (subst decode_loop.simps) (simp add: add.assoc)
qed

lemma decode_end: "decode_loop inp i i j out = Some (i, j, out)"
  by (simp add: decode_loop.simps)

lemma decode_loop_ok:
  assumes "length pre = i" and "length opre = j" and "length (b64_padded bs) \<le> length room"
    and "i + length (b64_encode bs) < 2 ^ 31" and "j + length (b64_padded bs) < 2 ^ 31"
  shows "decode_loop (pre @ b64_encode bs @ rest) (i + length (b64_encode bs)) i j (opre @ room) =
      Some (i + length (b64_encode bs), j + length (b64_padded bs), opre @ b64_padded bs @ drop (length (b64_padded bs)) room)"
  using assms
proof (induction bs arbitrary: pre opre room i j rule: b64_encode.induct)
  case (1 a b c xs)
  let ?q = "b64_encode [a, b, c]"
  have q: "length ?q = 4" "decode_quad ?q = [a, b, c]" by (simp_all add: decode_quads)
  have r: "3 \<le> length room" "length (b64_padded xs) \<le> length (drop 3 room)" using 1(4) by (simp_all add: b64_padded_cons)
  have e: "b64_encode (a # b # c # xs) @ rest = ?q @ b64_encode xs @ rest"
    "length (b64_encode (a # b # c # xs)) = 4 + length (b64_encode xs)" by simp_all
  have "decode_loop ((pre @ ?q) @ b64_encode xs @ rest) ((i + 4) + length (b64_encode xs)) (i + 4) (j + 3) ((opre @ [a, b, c]) @ drop 3 room) =
      Some (i + 4 + length (b64_encode xs), j + 3 + length (b64_padded xs),
        (opre @ [a, b, c]) @ b64_padded xs @ drop (length (b64_padded xs)) (drop 3 room))"
    by (rule 1(1)) (use 1(2,3,5,6) r in \<open>auto simp: b64_padded_cons\<close>)
  moreover have "decode_loop (pre @ b64_encode (a # b # c # xs) @ rest) (i + length (b64_encode (a # b # c # xs))) i j (opre @ room) =
      decode_loop ((pre @ ?q) @ b64_encode xs @ rest) ((i + 4) + length (b64_encode xs)) (i + 4) (j + 3) ((opre @ [a, b, c]) @ drop 3 room)"
    unfolding e by (rule decode_step [OF 1(2,3) q _ r(1)]) (use 1(5,6) in \<open>simp_all add: b64_padded_cons\<close>)
  moreover have "drop (length (b64_padded xs)) (drop 3 room) = drop (length (b64_padded (a # b # c # xs))) room"
    by (simp add: b64_padded_cons eval_nat_numeral)
  ultimately show ?case unfolding e(2) by (simp add: b64_padded_cons add.assoc)
next
  case (2 a b)
  have q: "length (b64_encode [a, b]) = 4" "decode_quad (b64_encode [a, b]) = [a, b, 0]" by (simp_all add: decode_quads)
  have p: "b64_padded [a, b] = [a, b, 0]" by (simp add: b64_padded_def)
  have b: "i + 4 < 2 ^ 31" "j + 3 < 2 ^ 31" using 2(4,5) p by simp_all
  show ?case using decode_step [OF 2(1,2) q _ _ b, of room rest 0] 2(3) p by (simp add: decode_end eval_nat_numeral)
next
  case (3 a)
  have q: "length (b64_encode [a]) = 4" "decode_quad (b64_encode [a]) = [a, 0, 0]" by (simp_all add: decode_quads)
  have p: "b64_padded [a] = [a, 0, 0]" by (simp add: b64_padded_def numeral_2_eq_2)
  have b: "i + 4 < 2 ^ 31" "j + 3 < 2 ^ 31" using 3(4,5) p by simp_all
  show ?case using decode_step [OF 3(1,2) q _ _ b, of room rest 0] 3(3) p by (simp add: decode_end eval_nat_numeral)
qed (simp add: decode_end b64_padded_def)

text \<open>What the encoder writes is valid.\<close>

lemma valid_table: "\<forall>k \<in> set [0..<64]. base64_valid_char (b64_char (of_nat k))"
  by code_simp

lemma valid_char: "x < 64 \<Longrightarrow> base64_valid_char (b64_char x)"
proof -
  assume "x < 64"
  then have "unat x \<in> set [0..<64]" by (simp add: word_less_nat_alt)
  then have "base64_valid_char (b64_char (of_nat (unat x)))" using valid_table by blast
  then show ?thesis by simp
qed

lemmas valid_chars = valid_char [OF sextets(1)] valid_char [OF sextets(2)] valid_char [OF sextets(3)] valid_char [OF sextets(4)]

lemma valid_pad: "base64_valid_char (b64_char (push_bit 4 (take_bit 2 a)))" "base64_valid_char (b64_char (push_bit 2 (take_bit 4 a)))"
  using valid_chars(2) [of a 0] valid_chars(3) [of a 0] by simp_all

lemma encode_front:
  "bs \<noteq> [] \<Longrightarrow> \<exists>f x y. b64_encode bs = f @ [x, y] \<and> 2 \<le> length f \<and> (\<forall>c \<in> set f. base64_valid_char c)"
proof (induction bs rule: b64_encode.induct)
  case (1 a b c xs)
  show ?case
  proof (cases "xs = []")
    case True
    show ?thesis
      by (rule exI [of _ "take 2 (b64_encode (a # b # c # xs))"]) (simp add: True valid_chars)
  next
    case False
    with 1 obtain f x y where f: "b64_encode xs = f @ [x, y]" "\<forall>c \<in> set f. base64_valid_char c" by blast
    show ?thesis
      by (rule exI [of _ "b64_encode [a, b, c] @ f"]) (simp add: f valid_chars)
  qed
next
  case (2 a b)
  show ?case by (rule exI [of _ "take 2 (b64_encode [a, b])"]) (simp add: valid_chars)
next
  case (3 a)
  show ?case by (rule exI [of _ "take 2 (b64_encode [a])"]) (simp add: valid_chars valid_pad)
qed simp

lemma encoded_valid:
  assumes "bs \<noteq> []"
  shows "base64_validate_input (b64_encode bs @ rest) (length (b64_encode bs)) = Some True"
proof -
  from encode_front [OF assms] obtain f x y where f: "b64_encode bs = f @ [x, y]" "2 \<le> length f" "\<forall>c \<in> set f. base64_valid_char c"
    by blast
  have "load (b64_encode bs @ rest) 0 (length (b64_encode bs) - 2) = Some f" using f(1) by (simp add: load_def)
  moreover obtain p q g where g: "f = p # q # g" using f(2) by (cases f; cases "tl f") auto
  moreover have "load (b64_encode bs @ rest) 0 2 = Some [p, q]" using f(1) g by (simp add: load_def)
  moreover have "length (b64_encode bs) mod 4 = 0" by (simp add: length_b64_encode)
  ultimately show ?thesis using f(3) by (auto simp: base64_validate_input_def)
qed

lemma pad_not_valid: "\<not> base64_valid_char 61"
  by code_simp

text \<open>The padding at the end says how long the data was.\<close>

lemma encode_end:
  assumes "bs \<noteq> []"
  shows "\<exists>f x y. b64_encode bs = f @ [x, y] \<and>
    int (length (b64_padded bs)) - (if y = 61 then if x = 61 then 2 else 1 else 0) = int (length bs) \<and> (x = 61 \<longrightarrow> y = 61)"
  using assms
proof (induction bs rule: b64_encode.induct)
  case (1 a b c xs)
  show ?case
  proof (cases "xs = []")
    case True
    have "b64_encode [a, b, c] = take 2 (b64_encode [a, b, c]) @ [b64_char (push_bit 2 (take_bit 4 b) OR drop_bit 6 c), b64_char (take_bit 6 c)]"
      by simp
    moreover have "base64_valid_char z \<Longrightarrow> z \<noteq> 61" for z using pad_not_valid by auto
    ultimately show ?thesis unfolding True using valid_chars(3) [of b c] valid_chars(4) [of c]
      by (intro exI [of _ "take 2 (b64_encode [a, b, c])"] exI [of _ "b64_char (push_bit 2 (take_bit 4 b) OR drop_bit 6 c)"]
          exI [of _ "b64_char (take_bit 6 c)"]) (auto simp: b64_padded_def)
  next
    case False
    with 1 obtain f x y where f: "b64_encode xs = f @ [x, y]"
      "int (length (b64_padded xs)) - (if y = 61 then if x = 61 then 2 else 1 else 0) = int (length xs) \<and> (x = 61 \<longrightarrow> y = 61)" by blast
    have "b64_encode (a # b # c # xs) = (b64_encode [a, b, c] @ f) @ [x, y]" using f(1) by simp
    then show ?thesis using f(2) by (intro exI conjI) (auto simp: b64_padded_cons)
  qed
next
  case (2 a b)
  have "b64_encode [a, b] = take 2 (b64_encode [a, b]) @ [b64_char (push_bit 2 (take_bit 4 b)), 61]" by simp
  moreover have "base64_valid_char z \<Longrightarrow> z \<noteq> 61" for z using pad_not_valid by auto
  ultimately show ?case using valid_pad(2) [of b] by (intro exI [of _ "take 2 (b64_encode [a, b])"] exI [of _ "b64_char (push_bit 2 (take_bit 4 b))"] exI [of _ 61])
      (auto simp: b64_padded_def)
next
  case (3 a)
  have "b64_encode [a] = take 2 (b64_encode [a]) @ [61, 61]" by simp
  then show ?case by (intro exI [of _ "take 2 (b64_encode [a])"] exI [of _ 61]) (auto simp: b64_padded_def numeral_2_eq_2)
qed simp

lemma base64_encode_maxlen_some:
  "base64_encode_maxlen (length bs) = (if length bs \<le> 1610612733 then Some (length (b64_encode bs) + 1) else None)"
proof -
  have "(length bs + 2) div 3 * 4 + 1 < 2147483648 \<longleftrightarrow> (length bs + 2) div 3 < 536870912" by arith
  also have "\<dots> \<longleftrightarrow> length bs + 2 < 536870912 * 3" by (rule div_less_iff_less_mult) simp
  finally have "(length bs + 2) div 3 * 4 + 1 < 2147483648 \<longleftrightarrow> length bs \<le> 1610612733" by arith
  then show ?thesis
    by (auto simp: base64_encode_maxlen_def c_int_def length_b64_encode push_bit_eq_mult add.commute)
qed

lemma encoded_bound: "length bs \<le> 1610612733 \<Longrightarrow> length (b64_encode bs) < 2 ^ 31"
  using base64_encode_maxlen_some [of bs] by (auto simp: base64_encode_maxlen_def c_int_def bind_eq_Some_conv split: if_splits)

lemma decode_inplace_ok:
  assumes "bs \<noteq> []" and "length (b64_encode bs) < 2 ^ 31"
  shows "\<exists>buf. base64_decode_inplace (b64_encode bs @ rest) (length (b64_encode bs)) True = Some (0, buf, int (length bs)) \<and>
    take (length bs) buf = bs"
proof -
  from encode_end [OF assms(1)] obtain f x y where f: "b64_encode bs = f @ [x, y]"
    "int (length (b64_padded bs)) - (if y = 61 then if x = 61 then 2 else 1 else 0) = int (length bs)" by blast
  from inplace_ok [of "[]" 0 0 "[]" bs rest] assms(2) obtain buf where b:
    "inplace_loop (length (b64_encode bs)) 0 0 (b64_encode bs @ rest) = Some (length (b64_padded bs), buf)"
    "take (length (b64_padded bs)) buf = b64_padded bs" by auto
  have "take (length bs) buf = take (length bs) (take (length (b64_padded bs)) buf)"
    by (simp add: b64_padded_def min_def)
  also have "\<dots> = bs" unfolding b(2) by (simp add: b64_padded_def)
  finally have t: "take (length bs) buf = bs" .
  have "load_u8 (b64_encode bs @ rest) (length (b64_encode bs) - 1) = Some y"
    "load_u8 (b64_encode bs @ rest) (length (b64_encode bs) - 2) = Some x"
    by (simp_all add: f(1) load_u8_def load_def)
  moreover have "length (b64_encode bs) \<noteq> 0" "length (b64_encode bs) \<noteq> 1" using f(1) by simp_all
  ultimately show ?thesis using encoded_valid [OF assms(1), of rest] b(1) t f(2)
    by (auto simp: base64_decode_inplace_def)
qed

lemma decode_ok:
  assumes "bs \<noteq> []" and "length (b64_padded bs) \<le> length out" and "length (b64_encode bs) < 2 ^ 31"
  shows "\<exists>buf. base64_decode (b64_encode bs @ rest) out (length (b64_encode bs)) True = Some (0, buf, int (length bs)) \<and>
    take (length bs) buf = bs"
proof -
  from encode_end [OF assms(1)] obtain f x y where f: "b64_encode bs = f @ [x, y]"
    "int (length (b64_padded bs)) - (if y = 61 then if x = 61 then 2 else 1 else 0) = int (length bs)" "x = 61 \<longrightarrow> y = 61" by blast
  have p: "length (b64_padded bs) < 2 ^ 31" using assms(3) by (simp add: length_b64_encode length_b64_padded)
  have "decode_loop (b64_encode bs @ rest) (length (b64_encode bs)) 0 0 out =
      Some (length (b64_encode bs), length (b64_padded bs), b64_padded bs @ drop (length (b64_padded bs)) out)"
    using decode_loop_ok [of "[]" 0 "[]" 0 bs out rest] assms(2,3) p by simp
  moreover have "load_u8 (b64_encode bs @ rest) (length (b64_encode bs) - 1) = Some y"
    "load_u8 (b64_encode bs @ rest) (length (b64_encode bs) - 2) = Some x"
    by (simp_all add: f(1) load_u8_def load_def)
  moreover have "take (length bs) (b64_padded bs @ r) = bs" for r by (simp add: b64_padded_def)
  moreover have "length (b64_encode bs) \<noteq> 0" using f(1) by simp
  ultimately show ?thesis using encoded_valid [OF assms(1), of rest] f(2,3)
    by (auto simp: base64_decode_def)
qed

text \<open>
  C33: Encoding and decoding are inverse, for data of up to 1610612733 bytes (1.6 GB); for more the size
  overflows the \<open>int\<close> of \<open>base64_encode_maxlen\<close>. With the room that \<open>base64_encode_maxlen\<close> says, the encoder writes
  the base 64 text inside its buffer and leaves room for a zero; the text is valid,
  and both decoders, the one that works in place and the one with an output of its own, give
  back exactly the bytes and their number. No counter overflows.
\<close>

theorem base64_round_trip:
  assumes "bs \<noteq> []" and "length bs \<le> 1610612733"
    and "the (base64_encode_maxlen (length bs)) \<le> length buf" and "length buf \<le> length out"
  shows "\<exists>enc n. base64_encode bs buf (length bs) = Some (enc, n) \<and> base64_encode_maxlen (length bs) = Some (n + 1) \<and>
    take n enc = b64_encode bs \<and> drop n enc = drop n buf \<and>
    (\<exists>dec. base64_decode_inplace enc n True = Some (0, dec, int (length bs)) \<and> take (length bs) dec = bs) \<and>
    (\<exists>dec. base64_decode enc out n True = Some (0, dec, int (length bs)) \<and> take (length bs) dec = bs)"
proof -
  let ?n = "length (b64_encode bs)"
  have m: "base64_encode_maxlen (length bs) = Some (?n + 1)" using assms(2) by (simp add: base64_encode_maxlen_some)
  have "length (b64_padded bs) \<le> ?n" by (simp add: length_b64_encode length_b64_padded)
  then have "length (b64_padded bs) \<le> length out" using assms(3,4) m by simp
  then show ?thesis
    using assms m base64_encode_ok [of bs buf] encoded_bound [OF assms(2)] decode_inplace_ok [OF assms(1), of "drop ?n buf"]
      decode_ok [OF assms(1), of out "drop ?n buf"]
    by simp
qed

theorem base64_round_trip_witness:
  "\<exists>enc n. base64_encode [1, 255, 7, 9] (replicate 12 0) (length [1, 255, 7, 9 :: u8]) = Some (enc, n) \<and>
    base64_encode_maxlen (length [1, 255, 7, 9 :: u8]) = Some (n + 1) \<and>
    take n enc = b64_encode [1, 255, 7, 9] \<and> drop n enc = drop n (replicate 12 0) \<and>
    (\<exists>dec. base64_decode_inplace enc n True = Some (0, dec, int (length [1, 255, 7, 9 :: u8])) \<and>
      take (length [1, 255, 7, 9 :: u8]) dec = [1, 255, 7, 9]) \<and>
    (\<exists>dec. base64_decode enc (replicate 12 0) n True = Some (0, dec, int (length [1, 255, 7, 9 :: u8])) \<and>
      take (length [1, 255, 7, 9 :: u8]) dec = [1, 255, 7, 9])"
  by (rule base64_round_trip) (simp_all add: base64_encode_maxlen_def c_int_def)

end
