(* ===== verification/Cl_Index.thy ===== *)
theory Cl_Index
  imports Cl_Api Cl_Registry Cl_Base64
begin

section \<open>The index of an application (\<open>src/php_cl_query.c\<close>, \<open>src/php_cl_utils.c\<close>)\<close>

text \<open>
  The PHP extension keeps an index of records by account and hour. The entry of an hour is one
  blob, a count and as many digests; \<open>put_index\<close> adds a digest to it, by reading it and writing
  it back on the condition that its generation has not changed, and then writes the record
  itself. Strings of the caller are blocks with a zero.
\<close>

subsection \<open>Dates\<close>

text \<open>
  The conversions of \<open>sscanf\<close> that are used: a number of at most so many characters, a given
  character, and white space. The result is the numbers that were assigned.
\<close>

datatype scan_item = Scan_Int nat | Scan_Char u8 | Scan_Space

definition scan_int :: "nat \<Rightarrow> block \<Rightarrow> (int \<times> block) option" where
  "scan_int w s =
     (let s = dropWhile isspace s;
          signed = (s \<noteq> [] \<and> 0 < w \<and> (hd s = 45 \<or> hd s = 43));
          s' = (if signed then tl s else s);
          ds = takeWhile isdigit (take (if signed then w - 1 else w) s');
          v = foldl (\<lambda>a c. a * 10 + (int (unat c) - 48)) 0 ds
      in if ds = [] then None else Some (if signed \<and> hd s = 45 then - v else v, drop (length ds) s'))"

fun sscanf :: "scan_item list \<Rightarrow> block \<Rightarrow> int list" where
  "sscanf [] s = []"
| "sscanf (Scan_Int w # fmt) s = (case scan_int w s of None \<Rightarrow> [] | Some (v, s) \<Rightarrow> v # sscanf fmt s)"
| "sscanf (Scan_Char c # fmt) s = (if s \<noteq> [] \<and> hd s = c then sscanf fmt (tl s) else [])"
| "sscanf (Scan_Space # fmt) s = sscanf fmt (dropWhile isspace s)"

text \<open>Year, month, day and hour; those that are not assigned stay 0.\<close>

definition date_parts :: "scan_item list \<Rightarrow> block \<Rightarrow> int \<times> int \<times> int \<times> int" where
  "date_parts fmt s = (let vs = sscanf fmt s @ [0, 0, 0, 0] in (vs ! 0, vs ! 1, vs ! 2, vs ! 3))"

definition plain_date :: "scan_item list" where
  "plain_date = [Scan_Int 4, Scan_Int 2, Scan_Int 2, Scan_Int 2]"

definition dashed_date :: "scan_item list" where
  "dashed_date = [Scan_Int 4, Scan_Char 45, Scan_Int 2, Scan_Char 45, Scan_Int 2, Scan_Space, Scan_Int 2]"

text \<open>
  \<open>mktime\<close> in UTC, the zone that the callers set: the proleptic Gregorian calendar, where months
  and days out of range count on from the beginning of the year and of the month.
\<close>

definition leap_year :: "int \<Rightarrow> bool" where
  "leap_year y \<longleftrightarrow> y mod 4 = 0 \<and> (y mod 100 \<noteq> 0 \<or> y mod 400 = 0)"

definition days_before_year :: "int \<Rightarrow> int" where
  "days_before_year y = 365 * (y - 1970) + ((y - 1) div 4 - (y - 1) div 100 + (y - 1) div 400 - 477)"

definition days_before_month :: "int \<Rightarrow> nat \<Rightarrow> int" where
  "days_before_month y m = sum_list (take m [31, if leap_year y then 29 else 28, 31, 30, 31, 30, 31, 31, 30, 31, 30, 31])"

definition mktime_utc :: "int \<Rightarrow> int \<Rightarrow> int \<Rightarrow> int \<Rightarrow> int" where
  "mktime_utc year month day hour =
     (let y = year + (month - 1) div 12; m = nat ((month - 1) mod 12) in
      (days_before_year y + days_before_month y m + (day - 1)) * 86400 + hour * 3600)"

text \<open>
  \<open>make_date_hour\<close>: the hours since 1970 as an unsigned number of 64 bits, into the buffer of
  the caller. A time of - 1 counts as bad, and the buffer is left as it is.
\<close>

definition make_date_hour :: "block \<Rightarrow> int \<Rightarrow> int \<Rightarrow> int \<Rightarrow> int \<Rightarrow> block option" where
  "make_date_hour c_date_hour_s year month day hour =
     (let t = mktime_utc year month day hour in
      if t = - 1 then Some c_date_hour_s
      else store c_date_hour_s 0 (dec (unat (of_int (t div 3600) :: u64)) @ [0]))"

definition DATE_HOUR_SIZE :: nat where "DATE_HOUR_SIZE = 10"
definition MAX_KEY_SIZE :: nat where "MAX_KEY_SIZE = 160"

definition date_hour :: "scan_item list \<Rightarrow> block \<Rightarrow> block option" where
  "date_hour fmt s = do {
     x \<leftarrow> c_str s;
     let (year, month, day, hour) = date_parts fmt x;
     b \<leftarrow> make_date_hour (replicate (DATE_HOUR_SIZE + 1) 0) year month day hour;
     c_str b }"

subsection \<open>Keys\<close>

text \<open>The keys are built in cleared arrays of one byte more than the longest key; nothing when they are too long.\<close>

definition joined_key :: "block \<Rightarrow> block \<Rightarrow> block option option" where
  "joined_key a b =
     (if length a + length b + 1 > MAX_KEY_SIZE then Some None
      else do {
        k \<leftarrow> store (replicate (MAX_KEY_SIZE + 1) 0) 0 a;
        k \<leftarrow> store k (length a) [58];
        k \<leftarrow> store k (length a + 1) b;
        Some (Some k) })"

text \<open>The index key of an account and an hour, and the key of the record under it.\<close>

definition index_keys :: "block \<Rightarrow> block \<Rightarrow> block \<Rightarrow> (block \<times> block) option option" where
  "index_keys account hour redirection = do {
     r \<leftarrow> joined_key account hour;
     case r of None \<Rightarrow> Some None
     | Some index_key \<Rightarrow> do {
         r \<leftarrow> joined_key (account @ 58 # hour) redirection;
         Some (map_option (Pair index_key) r) } }"

subsection \<open>Index records\<close>

text \<open>An index record: the count in 8 bytes, and the digests.\<close>

definition index_count :: "block \<Rightarrow> u64 option" where
  "index_count b = map_option le_word (load b 0 8)"

text \<open>
  \<open>create_record\<close>: a new record with the digests of the old one and one more. Its size is counted
  in 32 bits, and the allocation is not tested.
\<close>

definition create_record :: "malloc_env \<Rightarrow> block option \<Rightarrow> block \<Rightarrow> (block \<times> nat) option" where
  "create_record e current new = do {
     old_count \<leftarrow> (case current of None \<Rightarrow> Some 0 | Some b \<Rightarrow> index_count b);
     let new_count = old_count + 1;
     let size = unat (8 + ucast new_count * 20 :: u32);
     p \<leftarrow> malloc e size;
     p \<leftarrow> store p 0 (word_le 8 new_count);
     p \<leftarrow> (if old_count > 0 then do { b \<leftarrow> current; x \<leftarrow> load b 8 (unat old_count * 20); store p 8 x } else Some p);
     p \<leftarrow> store p (8 + unat (new_count - 1) * 20) new;
     Some (p, size) }"

fun record_is_new_loop :: "block \<Rightarrow> block \<Rightarrow> nat \<Rightarrow> nat \<Rightarrow> bool option" where
  "record_is_new_loop new b i 0 = Some True"
| "record_is_new_loop new b i (Suc n) = do {
     x \<leftarrow> load b (8 + i * 20) 20;
     if x = new then Some False else record_is_new_loop new b (Suc i) n }"

definition record_is_new :: "block \<Rightarrow> block option \<Rightarrow> bool option" where
  "record_is_new new old_records =
     (case old_records of None \<Rightarrow> Some True
      | Some b \<Rightarrow> do { n \<leftarrow> index_count b; record_is_new_loop new b 0 (unat n) })"

subsection \<open>Adding to the index\<close>

record iconfig =
  ic_ns :: block
  ic_set :: block
  ic_iset :: block
  ic_timeout :: u32
  ic_account_id :: "block option"
  ic_domain_id :: "block option"
  ic_campaign_id :: "block option"
  ic_original_url_id :: "block option"
  ic_share_type :: "block option"
  ic_create_type :: "block option"
  ic_sharer_id :: "block option"
  ic_parent_id :: "block option"
  ic_user_id :: "block option"
  ic_notes :: "block option"
  ic_redirection_id :: "block option"
  ic_hour :: "block option"
  ic_clicks :: "block option"

definition CITRUSLEAF_FAIL_NOTFOUND :: int where "CITRUSLEAF_FAIL_NOTFOUND = 2"
definition CITRUSLEAF_FAIL_GENERATION :: int where "CITRUSLEAF_FAIL_GENERATION = 3"
definition CITRUSLEAF_FAIL_KEY_EXISTS :: int where "CITRUSLEAF_FAIL_KEY_EXISTS = 5"

definition cl_write_parameters_set_generation :: "u32 \<Rightarrow> cl_write_parameters \<Rightarrow> cl_write_parameters" where
  "cl_write_parameters_set_generation generation w = w\<lparr>w_generation := generation, w_use_generation := True\<rparr>"

text \<open>A bin on the stack, with its name copied into 32 indeterminate bytes.\<close>

definition named_bin :: "(nat \<Rightarrow> u8) \<Rightarrow> block \<Rightarrow> cl_object \<Rightarrow> cl_bin option" where
  "named_bin g name ob = do {
     nm \<leftarrow> store (map g [0..<32]) 0 (name @ [0]);
     Some \<lparr>bin_name = nm, bin_object = ob\<rparr> }"

definition IR :: block where "IR = str_lit ''ir''"

text \<open>The environments of one turn: the calls that read and write, and the allocation of a record.\<close>

record index_env =
  ix_get :: api_env
  ix_put :: api_env
  ix_record :: malloc_env

datatype index_result =
    Index_Return mem cl_cluster
  | Index_Updated bool mem cl_cluster
  | Index_Retry mem cl_cluster
  | Index_Waiting

text \<open>Writing the index record; a code tells that somebody else has written it meanwhile.\<close>

definition index_put ::
  "api_env \<Rightarrow> iconfig \<Rightarrow> cl_object \<Rightarrow> (block \<times> nat) \<Rightarrow> cl_write_parameters \<Rightarrow> int \<Rightarrow> mem \<Rightarrow> cl_cluster \<Rightarrow> index_result option" where
  "index_put E c key rec w retry m asc = do {
     bin \<leftarrow> named_bin (me_stack E) IR (citrusleaf_object_init_blob (fst rec) (snd rec));
     a \<leftarrow> citrusleaf_put E (ic_ns c) (Some (ic_iset c)) (Some key) [bin] 1 (Some w) m asc;
     case a of No_Answer \<Rightarrow> Some Index_Waiting
     | Answer rv m asc _ _ \<Rightarrow>
         Some (if rv = retry then Index_Retry m asc else Index_Updated (rv = CITRUSLEAF_OK) m asc) }"

definition index_old :: "iconfig \<Rightarrow> index_env \<Rightarrow> cl_object \<Rightarrow> block \<Rightarrow> u32 \<Rightarrow> parse_args \<Rightarrow> mem \<Rightarrow> cl_cluster \<Rightarrow> index_result option" where
  "index_old c e key new gen s m asc =
     (if gen = 0 then Some (Index_Return m asc)
      else if pa_n_values s \<noteq> Some 1 then Some (Index_Return m asc)
      else do {
        bins \<leftarrow> pa_values s;
        bin \<leftarrow> (case bins of [] \<Rightarrow> None | b # _ \<Rightarrow> Some b);
        nm \<leftarrow> c_str (bin_name bin);
        if nm \<noteq> IR then Some (Index_Return m asc)
        else if o_type (bin_object bin) \<noteq> CL_BLOB then Some (Index_Return m asc)
        else do {
          let old_record = u_ptr (o_u (bin_object bin));
          is_new \<leftarrow> record_is_new new old_record;
          if is_new then do {
            rec \<leftarrow> create_record (ix_record e) old_record new;
            index_put (ix_put e) c key rec
              (cl_write_parameters_set_generation gen (cl_write_parameters_set_default (me_local (ix_put e))))
              CITRUSLEAF_FAIL_GENERATION m asc }
          else Some (Index_Updated True m asc) } })"

text \<open>What one turn does with the answer of the call that reads, and the turn.\<close>

definition index_answered :: "iconfig \<Rightarrow> cl_object \<Rightarrow> block \<Rightarrow> index_env \<Rightarrow> answer \<Rightarrow> index_result option" where
  "index_answered c key new e a =
     (case a of No_Answer \<Rightarrow> Some Index_Waiting
      | Answer rv m asc s gen \<Rightarrow>
          if rv = CITRUSLEAF_OK then index_old c e key new (case gen of None \<Rightarrow> 0 | Some g \<Rightarrow> g) s m asc
          else if rv = CITRUSLEAF_FAIL_TIMEOUT then Some (Index_Updated False m asc)
          else if rv = CITRUSLEAF_FAIL_NOTFOUND then do {
            rec \<leftarrow> create_record (ix_record e) None new;
            index_put (ix_put e) c key rec ((cl_write_parameters_set_default (me_local (ix_put e)))\<lparr>w_unique := True\<rparr>)
              CITRUSLEAF_FAIL_KEY_EXISTS m asc }
          else Some (Index_Updated False m asc))"

definition index_try :: "iconfig \<Rightarrow> cl_object \<Rightarrow> block \<Rightarrow> index_env \<Rightarrow> mem \<Rightarrow> cl_cluster \<Rightarrow> index_result option" where
  "index_try c key new e m asc = do {
     a \<leftarrow> citrusleaf_get_all (ix_get e) (ic_ns c) (Some (ic_iset c)) (Some key) (Some []) (Some 0) (ic_timeout c) m asc;
     index_answered c key new e a }"

text \<open>The turns, until one does not say that it has to be done again.\<close>

fun index_loop :: "iconfig \<Rightarrow> cl_object \<Rightarrow> block \<Rightarrow> index_env list \<Rightarrow> mem \<Rightarrow> cl_cluster \<Rightarrow> index_result option" where
  "index_loop c key new [] m asc = Some Index_Waiting"
| "index_loop c key new (e # es) m asc = do {
     r \<leftarrow> index_try c key new e m asc;
     case r of Index_Retry m asc \<Rightarrow> index_loop c key new es m asc
     | _ \<Rightarrow> Some r }"

definition is_non_null_string :: "block option \<Rightarrow> bool option" where
  "is_non_null_string str =
     (case str of None \<Rightarrow> Some False
      | Some s \<Rightarrow> do { c \<leftarrow> load_u8 s 0; Some (c \<noteq> 0) })"

definition add_string :: "(nat \<Rightarrow> u8) \<Rightarrow> string \<Rightarrow> block option \<Rightarrow> cl_bin list \<Rightarrow> cl_bin list option" where
  "add_string g name str bins = do {
     ok \<leftarrow> is_non_null_string str;
     if \<not> ok then Some bins
     else do {
       s \<leftarrow> str;
       ob \<leftarrow> citrusleaf_object_init_str s;
       bin \<leftarrow> named_bin g (str_lit name) ob;
       Some (bins @ [bin]) } }"

text \<open>The bins of the record; two of them have the same name.\<close>

definition record_bins :: "(nat \<Rightarrow> u8) \<Rightarrow> iconfig \<Rightarrow> cl_bin list option" where
  "record_bins g c = do {
     bins \<leftarrow> add_string g ''ai'' (ic_account_id c) [];
     bins \<leftarrow> add_string g ''di'' (ic_domain_id c) bins;
     bins \<leftarrow> add_string g ''ci'' (ic_campaign_id c) bins;
     bins \<leftarrow> add_string g ''ui'' (ic_original_url_id c) bins;
     bins \<leftarrow> add_string g ''st'' (ic_share_type c) bins;
     bins \<leftarrow> add_string g ''ct'' (ic_create_type c) bins;
     bins \<leftarrow> add_string g ''si'' (ic_sharer_id c) bins;
     bins \<leftarrow> add_string g ''pi'' (ic_parent_id c) bins;
     bins \<leftarrow> add_string g ''ui'' (ic_user_id c) bins;
     bins \<leftarrow> add_string g ''ns'' (ic_notes c) bins;
     bins \<leftarrow> add_string g ''ri'' (ic_redirection_id c) bins;
     bins \<leftarrow> add_string g ''dh'' (ic_hour c) bins;
     ok \<leftarrow> is_non_null_string (ic_clicks c);
     if \<not> ok then Some bins
     else do {
       s \<leftarrow> ic_clicks c;
       x \<leftarrow> c_str s;
       bin \<leftarrow> named_bin g (str_lit ''cl'') (citrusleaf_object_init_int (of_int (atoi x)));
       Some (bins @ [bin]) } }"

text \<open>
  \<open>put_index\<close>: first the index and then the record. The digest in the index is computed for the
  set \<open>dr\<close>, whatever the set of the record is.
\<close>

definition put_index ::
  "(block \<Rightarrow> block) \<Rightarrow> (nat \<Rightarrow> u8) \<Rightarrow> index_env list \<Rightarrow> api_env \<Rightarrow> iconfig \<Rightarrow> mem \<Rightarrow> cl_cluster \<Rightarrow> (int \<times> mem \<times> cl_cluster) outcome option" where
  "put_index rmd g envs E c m asc = do {
     h \<leftarrow> ic_hour c;
     hour \<leftarrow> date_hour dashed_date h;
     a \<leftarrow> ic_account_id c;
     account \<leftarrow> c_str a;
     r \<leftarrow> ic_redirection_id c;
     redirection \<leftarrow> c_str r;
     keys \<leftarrow> index_keys account hour redirection;
     case keys of None \<Rightarrow> Some (Returned (- 1, m, asc))
     | Some (index_key, rollup_key) \<Rightarrow> do {
         key \<leftarrow> citrusleaf_object_init_str rollup_key;
         (_, new) \<leftarrow> citrusleaf_calculate_digest rmd g (Some (str_lit ''dr'' @ [0])) key;
         new \<leftarrow> new;
         index_key_o \<leftarrow> citrusleaf_object_init_str index_key;
         r \<leftarrow> index_loop c index_key_o new envs m asc;
         case r of
           Index_Updated True m asc \<Rightarrow> do {
             bins \<leftarrow> record_bins g c;
             a \<leftarrow> citrusleaf_put E (ic_ns c) (Some (ic_set c)) (Some key) bins (length bins)
               (Some (cl_write_parameters_set_default (me_local E))) m asc;
             case a of No_Answer \<Rightarrow> Some Waiting
             | Answer rv m asc _ _ \<Rightarrow> Some (Returned (if rv \<noteq> CITRUSLEAF_OK then - 1 else 0, m, asc)) }
         | Index_Updated False m asc \<Rightarrow> Some (Returned (- 1, m, asc))
         | Index_Return m asc \<Rightarrow> Some (Returned (- 1, m, asc))
         | _ \<Rightarrow> Some Waiting } }"

subsection \<open>Updating the clicks\<close>

record uconfig =
  uc_ns :: block
  uc_set :: block
  uc_timeout :: u32
  uc_account_id :: "block option"
  uc_hour :: "block option"
  uc_redirection_id :: "block option"
  uc_clicks :: u64
  uc_clicks_attr :: block

definition update_clicks :: "api_env \<Rightarrow> uconfig \<Rightarrow> mem \<Rightarrow> cl_cluster \<Rightarrow> (int \<times> mem \<times> cl_cluster) outcome option" where
  "update_clicks E c m asc = do {
     h \<leftarrow> uc_hour c;
     hour \<leftarrow> date_hour dashed_date h;
     a \<leftarrow> uc_account_id c;
     account \<leftarrow> c_str a;
     r \<leftarrow> uc_redirection_id c;
     redirection \<leftarrow> c_str r;
     keys \<leftarrow> index_keys account hour redirection;
     case keys of None \<Rightarrow> Some (Returned (- 1, m, asc))
     | Some (index_key, rollup_key) \<Rightarrow> do {
         key \<leftarrow> citrusleaf_object_init_str rollup_key;
         name \<leftarrow> c_str (uc_clicks_attr c);
         bin \<leftarrow> named_bin (me_stack E) name (citrusleaf_object_init_int (uc_clicks c));
         a \<leftarrow> citrusleaf_operate E (uc_ns c) (Some (uc_set c)) (Some key) [\<lparr>op_bin = bin, op_op = CL_OP_INCR\<rparr>]
           (Some ((cl_write_parameters_set_default (me_local E))\<lparr>w_timeout_ms := uc_timeout c\<rparr>)) False m asc;
         case a of No_Answer \<Rightarrow> Some Waiting
         | Answer rv m asc _ _ \<Rightarrow> Some (Returned (if rv \<noteq> CITRUSLEAF_OK then - 1 else 0, m, asc)) } }"

subsection \<open>What a date becomes\<close>

lemma length_dec: "10 ^ k \<le> n \<Longrightarrow> k < length (dec n)"
proof (induction k arbitrary: n)
  case 0
  then show ?case by (subst dec.simps) simp
next
  case (Suc k)
  have "(10 :: nat) \<le> 10 ^ Suc k" by simp
  then have "10 \<le> n" using Suc.prems by (rule order.trans)
  then have "10 ^ k \<le> n div 10" "\<not> n < 10" using Suc.prems by (simp_all add: less_eq_div_iff_mult_less_eq mult.commute)
  then show ?case using Suc.IH [of "n div 10"] by (subst dec.simps) simp
qed

lemma length_dec_le: "n < 10 ^ Suc k \<Longrightarrow> length (dec n) \<le> Suc k"
proof (induction k arbitrary: n)
  case 0
  then show ?case by (subst dec.simps) simp
next
  case (Suc k)
  then have "n div 10 < 10 ^ Suc k" by (simp add: div_less_iff_less_mult mult.commute)
  then show ?case using Suc.IH [of "n div 10"] by (subst dec.simps) simp
qed

lemma dec_no_zero: "0 \<notin> set (dec n)"
  using dec_digits [of 0 n] by (auto simp: isdigit_def)

lemma mktime_whole_hours: "mktime_utc y mo d h = mktime_utc y mo d h div 3600 * 3600"
proof -
  have "(3600 :: int) dvd mktime_utc y mo d h"
    unfolding mktime_utc_def Let_def by (intro dvd_add dvd_mult) simp_all
  then show ?thesis by simp
qed

text \<open>
  C40: A date from 1970 on becomes the decimal number of the hours since then. An earlier date, and
  any text that is no date, is a negative time; it is printed as an unsigned number of 20
  digits, behind the end of the array on the stack.
\<close>

theorem date_hour_spec:
  assumes "c_str s = Some x" and "date_parts fmt x = (y, mo, d, h)" and "t = mktime_utc y mo d h"
    and "- (2 ^ 62) \<le> t" and "t < 3600 * 10 ^ 10"
  shows "date_hour fmt s = (if 0 \<le> t then Some (dec (nat (t div 3600))) else None)"
proof -
  have t: "t = t div 3600 * 3600" using mktime_whole_hours [of y mo d h] assms(3) by simp
  have n1: "t \<noteq> - 1" using t by auto
  have d: "date_hour fmt s = do { b \<leftarrow> store (replicate 11 0) 0 (dec (unat (of_int (t div 3600) :: u64)) @ [0]); c_str b }"
    using assms(1-3) n1 by (simp add: date_hour_def make_date_hour_def DATE_HOUR_SIZE_def Let_def)
  show ?thesis
  proof (cases "0 \<le> t")
    case True
    let ?n = "nat (t div 3600)"
    have n: "?n < 10 ^ 10" using assms(5) t by simp
    then have "unat (of_int (t div 3600) :: u64) = ?n" using True by (simp add: unsigned_of_int take_bit_int_eq_self nat_less_iff)
    moreover have l: "length (dec ?n) \<le> 10" using length_dec_le [of ?n 9] n by simp
    then have "store (replicate 11 0) 0 (dec ?n @ [0]) = Some (dec ?n @ 0 # replicate (10 - length (dec ?n)) 0)"
      by (simp add: store_def)
    ultimately show ?thesis using d True dec_no_zero [of ?n] by simp
  next
    case False
    let ?n = "unat (of_int (t div 3600) :: u64)"
    have neg: "t div 3600 < 0" "- (2 ^ 62) \<le> t div 3600" using False assms(4) t by linarith+
    have "int ?n = 2 ^ 64 + t div 3600"
    proof -
      have "take_bit 64 (t div 3600) = 2 ^ 64 + t div 3600" using neg
        unfolding take_bit_eq_mod by (intro int_mod_pos_eq [of _ _ "- 1"]) (auto simp: algebra_simps)
      moreover have "0 \<le> 2 ^ 64 + t div 3600" using neg(2) by simp
      ultimately show ?thesis by (simp add: unsigned_of_int)
    qed
    then have "int (10 ^ 12) \<le> int ?n" using neg by simp
    then have "10 ^ 12 \<le> ?n" by (simp only: of_nat_le_iff)
    then have "12 < length (dec ?n)" by (rule length_dec)
    then have "store (replicate 11 0) 0 (dec ?n @ [0]) = None" by (simp add: store_def)
    then show ?thesis using d False by simp
  qed
qed

theorem date_hour_spec_witness: "date_hour dashed_date (str_lit ''1969-12-31 23'' @ [0]) = None"
proof -
  have s: "c_str (str_lit ''1969-12-31 23'' @ [0]) = Some (str_lit ''1969-12-31 23'')" by code_simp
  have d: "date_parts dashed_date (str_lit ''1969-12-31 23'') = (1969, 12, 31, 23)" by code_simp
  have t: "- 3600 = mktime_utc 1969 12 31 23" by code_simp
  show ?thesis using date_hour_spec [OF s d t] by simp
qed

subsection \<open>Index records and their digests\<close>

text \<open>The record of a list of digests.\<close>

definition index_rep :: "block \<Rightarrow> block list \<Rightarrow> bool" where
  "index_rep b ds \<longleftrightarrow> b = word_le 8 (of_nat (length ds) :: u64) @ concat ds \<and> (\<forall>d \<in> set ds. length d = 20) \<and> length ds < 2 ^ 59"

lemma length_concat_digests: "\<forall>d \<in> set ds. length d = 20 \<Longrightarrow> length (concat ds) = length ds * 20"
  by (induction ds) auto

lemma load_digest:
  assumes "\<forall>d \<in> set ds. length d = 20" and "i < length ds" and "length a = n"
  shows "load (a @ concat ds) (n + i * 20) 20 = Some (ds ! i)"
proof -
  have "ds = take i ds @ ds ! i # drop (Suc i) ds" using assms(2) by (rule id_take_nth_drop)
  then have "concat ds = concat (take i ds) @ ds ! i @ concat (drop (Suc i) ds)" by (metis concat.simps(2) concat_append)
  moreover have "length (concat (take i ds)) = i * 20" using assms(1,2) by (subst length_concat_digests) (auto dest: in_set_takeD)
  moreover have "length (ds ! i) = 20" using assms(1,2) by simp
  ultimately show ?thesis using assms(3) by (simp add: load_def)
qed

lemma index_rep_count: "index_rep b ds \<Longrightarrow> index_count b = Some (of_nat (length ds)) \<and> unat (of_nat (length ds) :: u64) = length ds"
  by (auto simp: index_rep_def index_count_def load_def le_word_word_le unat_of_nat)

lemma record_is_new_loop_ok:
  assumes "\<forall>d \<in> set ds. length d = 20" and "length a = 8" and "i + n = length ds"
  shows "record_is_new_loop new (a @ concat ds) i n = Some (new \<notin> set (drop i ds))"
  using assms(3)
proof (induction n arbitrary: i)
  case (Suc n)
  then have "i < length ds" by simp
  then have "drop i ds = ds ! i # drop (Suc i) ds" by (rule Cons_nth_drop_Suc [symmetric])
  then show ?case using load_digest [OF assms(1) \<open>i < length ds\<close> assms(2)] Suc by auto
qed simp

lemma record_is_new_ok: "index_rep b ds \<Longrightarrow> record_is_new new (Some b) = Some (new \<notin> set ds)"
  using record_is_new_loop_ok [of ds "word_le 8 (of_nat (length ds) :: u64)" 0 "length ds" new] index_rep_count [of b ds]
  by (simp add: record_is_new_def index_rep_def)

text \<open>The digests of the entry of an hour, which may not be there.\<close>

definition index_holds :: "block option \<Rightarrow> block list \<Rightarrow> bool" where
  "index_holds current ds \<longleftrightarrow> (case current of None \<Rightarrow> ds = [] | Some b \<Rightarrow> index_rep b ds)"

lemma index_holds_simps [simp]:
  "index_holds None ds \<longleftrightarrow> ds = []"
  "index_holds (Some b) ds \<longleftrightarrow> index_rep b ds"
  by (simp_all add: index_holds_def)

lemma record_size: "unat (8 + ucast (of_nat n :: u64) * 20 :: u32) = (8 + n * 20) mod 2 ^ 32"
proof -
  have "(ucast (of_nat n :: u64) :: u32) = of_nat n" by (simp add: unsigned_of_nat word_of_nat_eq_iff)
  then have "(8 + ucast (of_nat n :: u64) * 20 :: u32) = of_nat (8 + n * 20)" by simp
  then show ?thesis by (simp only: unat_of_nat) simp
qed

lemma create_record_steps:
  assumes "index_holds cur ds"
  shows "create_record e cur new = do {
     p \<leftarrow> malloc e ((8 + Suc (length ds) * 20) mod 2 ^ 32);
     p \<leftarrow> store p 0 (word_le 8 (of_nat (Suc (length ds)) :: u64));
     p \<leftarrow> store p 8 (concat ds);
     p \<leftarrow> store p (8 + length ds * 20) new;
     Some (p, (8 + Suc (length ds) * 20) mod 2 ^ 32) }"
proof -
  have n: "length ds < 2 ^ 64" using assms by (cases cur) (auto simp: index_rep_def)
  then have u: "unat (of_nat (length ds) :: u64) = length ds" by (simp add: unat_of_nat)
  have c: "(case cur of None \<Rightarrow> Some 0 | Some b \<Rightarrow> index_count b) = Some (of_nat (length ds))"
    using assms index_rep_count by (cases cur) auto
  have z: "(of_nat (length ds) :: u64) > 0 \<longleftrightarrow> ds \<noteq> []" using u by (metis length_greater_0_conv unat_gt_0 word_gt_0)
  have l: "(if (of_nat (length ds) :: u64) > 0 then do { b \<leftarrow> cur; x \<leftarrow> load b 8 (unat (of_nat (length ds) :: u64) * 20); store p 8 x } else Some p)
      = store p 8 (concat ds)" if "8 \<le> length p" for p
  proof (cases ds)
    case Nil
    then show ?thesis using that by (simp add: store_def)
  next
    case (Cons d ds')
    then obtain b where b: "cur = Some b" "index_rep b ds" using assms by (cases cur) auto
    then have "load b 8 (length ds * 20) = Some (concat ds)"
      by (simp add: index_rep_def load_def length_concat_digests)
    then show ?thesis using b z u Cons by simp
  qed
  have s: "unat (8 + ucast (of_nat (length ds) + 1 :: u64) * 20 :: u32) = (8 + Suc (length ds) * 20) mod 2 ^ 32"
    using record_size [of "Suc (length ds)"] by (simp add: add.commute)
  let ?w = "word_le 8 (of_nat (Suc (length ds)) :: u64)" and ?m = "(8 + Suc (length ds) * 20) mod 2 ^ 32"
  have "create_record e cur new = do {
     p \<leftarrow> malloc e ?m;
     p \<leftarrow> store p 0 ?w;
     p \<leftarrow> (if (of_nat (length ds) :: u64) > 0 then do { b \<leftarrow> cur; x \<leftarrow> load b 8 (unat (of_nat (length ds) :: u64) * 20); store p 8 x } else Some p);
     p \<leftarrow> store p (8 + length ds * 20) new;
     Some (p, ?m) }"
    unfolding create_record_def c Let_def bind.bind_lunit s by (simp add: u add.commute)
  moreover have "8 \<le> length p" if "store q 0 ?w = Some p" for p q using that by (auto simp: store_def split: if_splits)
  ultimately show ?thesis using l by (auto cong: Option.bind_cong)
qed

text \<open>The only record that can be built is the one of the digests and the new one.\<close>

lemma create_record_iff:
  assumes "index_holds cur ds" and "length new = 20"
  shows "create_record e cur new = Some (b, n) \<longleftrightarrow>
    e \<noteq> None \<and> 8 + Suc (length ds) * 20 < 2 ^ 32 \<and> b = word_le 8 (of_nat (Suc (length ds)) :: u64) @ concat (ds @ [new]) \<and> n = length b"
proof -
  let ?n = "8 + Suc (length ds) * 20"
  have l: "length (concat ds) = length ds * 20"
    using assms(1) by (cases cur) (auto simp: index_rep_def length_concat_digests)
  show ?thesis
  proof (cases "?n < 2 ^ 32")
    case True
    then have "?n mod 2 ^ 32 = ?n" by (rule mod_less)
    then show ?thesis using True l assms(2)
      by (cases e) (auto simp: create_record_steps [OF assms(1)] malloc_def store_def)
  next
    case False
    then have "?n mod 2 ^ 32 < ?n" proof -
      have "?n mod 2 ^ 32 < 2 ^ 32" by (rule mod_less_divisor) simp
      then show ?thesis using False by linarith
    qed
    then have "create_record e cur new = None" using l assms(2)
      by (cases e) (auto simp: create_record_steps [OF assms(1)] malloc_def store_def split: Option.bind_split)
    then show ?thesis using False by simp
  qed
qed

lemma index_rep_append:
  assumes "index_holds cur ds" and "length new = 20" and "create_record e cur new = Some (b, n)"
  shows "index_rep b (ds @ [new])"
  using create_record_iff [OF assms(1,2)] assms by (cases cur) (auto simp: index_rep_def)

text \<open>
  C18: Adding a digest that \<open>record_is_new\<close> calls new to the record of a list of different digests gives
  the record of the longer list, whose digests are different too and which is as long as is said. It
  is given exactly when there is memory and the size fits 32 bits: whenever it is given both hold, and
  whenever both hold it is given.
\<close>

theorem index_append:
  assumes "index_rep b ds" and "distinct ds" and "length new = 20" and "record_is_new new (Some b) = Some True"
  shows "(case create_record e (Some b) new of
       Some (b', n) \<Rightarrow> e \<noteq> None \<and> 8 + Suc (length ds) * 20 < 2 ^ 32 \<and> index_rep b' (ds @ [new]) \<and> distinct (ds @ [new]) \<and>
         n = length b' \<and> n = 8 + Suc (length ds) * 20
     | None \<Rightarrow> e = None \<or> 2 ^ 32 \<le> 8 + Suc (length ds) * 20)"
proof -
  have h: "index_holds (Some b) ds" using assms(1) by simp
  have d: "distinct (ds @ [new])" using assms by (simp add: record_is_new_ok)
  have l: "length (concat ds) = length ds * 20" using assms(1) by (auto simp: index_rep_def length_concat_digests)
  show ?thesis
  proof (cases "create_record e (Some b) new")
    case None
    then show ?thesis using create_record_iff [OF h assms(3), of e] by fastforce
  next
    case (Some r)
    then obtain b' n where r: "create_record e (Some b) new = Some (b', n)" by (cases r) auto
    then show ?thesis using create_record_iff [OF h assms(3), of e b' n] index_rep_append [OF h assms(3) r] d l assms(3)
      by simp
  qed
qed

theorem index_append_witness:
  "create_record (Some (\<lambda>_. 255)) (Some (word_le 8 (1 :: u64) @ replicate 20 7)) (replicate 20 9)
    = Some (word_le 8 (2 :: u64) @ replicate 20 7 @ replicate 20 9, 48)
   \<and> index_rep (word_le 8 (2 :: u64) @ replicate 20 7 @ replicate 20 9) [replicate 20 7, replicate 20 9]"
proof -
  let ?b = "word_le 8 (1 :: u64) @ replicate 20 7"
  let ?d = "replicate 20 7 :: block" and ?n = "replicate 20 9 :: block"
  have r: "index_rep ?b [?d]" by (simp add: index_rep_def)
  have n: "record_is_new ?n (Some ?b) = Some True" by code_simp
  have c: "create_record (Some (\<lambda>_. 255)) (Some ?b) ?n = Some (word_le 8 (2 :: u64) @ ?d @ ?n, 48)" by code_simp
  show ?thesis using index_append [OF r _ _ n, of "Some (\<lambda>_. 255)"] c by simp
qed

subsection \<open>Writers at the same time\<close>

text \<open>
  Any number of processes that add to the entry of one hour, each its own digest. The entry is
  what the server holds, with its generation; between the turn's two calls anybody may write. A
  write happens when the entry still has the generation that was read, or is still missing;
  its answer may get lost.
\<close>

datatype writer = To_Read | To_Write "(u32 \<times> block) option" | Written | Failed

record index_world =
  iw_entry :: "(u32 \<times> block) option"
  iw_writer :: "nat \<Rightarrow> writer"

definition index_look :: "block \<Rightarrow> (u32 \<times> block) option \<Rightarrow> writer option" where
  "index_look new entry =
     (case entry of None \<Rightarrow> Some (To_Write None)
      | Some (g, b) \<Rightarrow> map_option (\<lambda>is_new. if is_new then To_Write entry else Written) (record_is_new new (Some b)))"

definition next_generation :: "(u32 \<times> block) option \<Rightarrow> u32" where
  "next_generation entry = (case entry of None \<Rightarrow> 1 | Some (g, _) \<Rightarrow> g + 1)"

inductive index_step :: "(nat \<Rightarrow> block) \<Rightarrow> index_world \<Rightarrow> index_world \<Rightarrow> bool" for digs where
  look: "iw_writer w i = To_Read \<Longrightarrow> index_look (digs i) (iw_entry w) = Some wr \<Longrightarrow>
    index_step digs w (w\<lparr>iw_writer := (iw_writer w)(i := wr)\<rparr>)"
| writes: "iw_writer w i = To_Write seen \<Longrightarrow> map_option fst (iw_entry w) = map_option fst seen \<Longrightarrow>
    create_record e (map_option snd seen) (digs i) = Some (b, n) \<Longrightarrow> next_generation seen \<noteq> 0 \<Longrightarrow> wr \<in> {Written, Failed} \<Longrightarrow>
    index_step digs w (w\<lparr>iw_entry := Some (next_generation seen, b), iw_writer := (iw_writer w)(i := wr)\<rparr>)"
| conflict: "iw_writer w i = To_Write seen \<Longrightarrow> map_option fst (iw_entry w) \<noteq> map_option fst seen \<Longrightarrow>
    index_step digs w (w\<lparr>iw_writer := (iw_writer w)(i := To_Read)\<rparr>)"
| give_up: "iw_writer w i \<noteq> Written \<Longrightarrow> index_step digs w (w\<lparr>iw_writer := (iw_writer w)(i := Failed)\<rparr>)"

text \<open>The digests of the entry, and what a writer knows of it.\<close>

definition writer_ok :: "block \<Rightarrow> (u32 \<times> block) option \<Rightarrow> block list \<Rightarrow> writer \<Rightarrow> bool" where
  "writer_ok d entry ds wr \<longleftrightarrow>
     (case wr of Written \<Rightarrow> d \<in> set ds
      | To_Write (Some (g, b)) \<Rightarrow> (\<exists>g' b'. entry = Some (g', b') \<and> g \<le> g' \<and> (g = g' \<longrightarrow> b = b' \<and> d \<notin> set ds))
      | _ \<Rightarrow> True)"

definition index_inv :: "(nat \<Rightarrow> block) \<Rightarrow> index_world \<Rightarrow> bool" where
  "index_inv digs w \<longleftrightarrow> (\<exists>ds. index_holds (map_option snd (iw_entry w)) ds \<and> distinct ds \<and> set ds \<subseteq> range digs \<and>
     (\<forall>i. writer_ok (digs i) (iw_entry w) ds (iw_writer w i)))"

lemma writer_ok_simps [simp]:
  "writer_ok d entry ds Written \<longleftrightarrow> d \<in> set ds"
  "writer_ok d entry ds To_Read" "writer_ok d entry ds Failed" "writer_ok d entry ds (To_Write None)"
  by (simp_all add: writer_ok_def)

lemma writer_ok_later:
  assumes "writer_ok d entry ds wr" and "g = next_generation entry" and "g \<noteq> 0"
  shows "writer_ok d (Some (g, b)) (ds @ [new]) wr"
proof (cases wr)
  case (To_Write seen)
  show ?thesis
  proof (cases seen)
    case (Some r)
    obtain g0 b0 where r: "r = (g0, b0)" by fastforce
    with assms To_Write Some obtain g1 b1 where e: "entry = Some (g1, b1)" "g0 \<le> g1" by (auto simp: writer_ok_def)
    then have g: "g = g1 + 1" using assms(2) by (simp add: next_generation_def)
    then have "g1 < g" using assms(3) by (metis add.commute lessI unatSuc word_less_nat_alt)
    then show ?thesis using e To_Write Some r by (auto simp: writer_ok_def)
  qed (simp add: To_Write)
qed (use assms in auto)

lemma index_look_ok:
  assumes "index_holds (map_option snd entry) ds" and "index_look d entry = Some wr"
  shows "writer_ok d entry ds wr"
  using assms by (cases entry) (auto simp: index_look_def record_is_new_ok writer_ok_def split: if_splits)

lemma index_inv_writer:
  assumes "index_inv digs w" and "\<And>ds. index_holds (map_option snd (iw_entry w)) ds \<Longrightarrow> writer_ok (digs i) (iw_entry w) ds wr"
  shows "index_inv digs (w\<lparr>iw_writer := (iw_writer w)(i := wr)\<rparr>)"
proof -
  from assms(1) obtain ds where ds: "index_holds (map_option snd (iw_entry w)) ds" "distinct ds" "set ds \<subseteq> range digs"
    "\<forall>j. writer_ok (digs j) (iw_entry w) ds (iw_writer w j)" unfolding index_inv_def by blast
  then show ?thesis using assms(2) [OF ds(1)] unfolding index_inv_def by (intro exI [of _ ds]) simp
qed

lemma index_inv_step:
  assumes "index_step digs w w'" and "index_inv digs w" and "\<forall>i. length (digs i) = 20"
  shows "index_inv digs w'"
  using assms(1,2)
proof (cases rule: index_step.cases)
  case (look i wr)
  show ?thesis unfolding look(1) by (rule index_inv_writer [OF assms(2) index_look_ok [OF _ look(3)]])
next
  case (writes i seen e b n wr)
  from assms(2) obtain ds where ds: "index_holds (map_option snd (iw_entry w)) ds" "distinct ds" "set ds \<subseteq> range digs"
    "\<forall>j. writer_ok (digs j) (iw_entry w) ds (iw_writer w j)" by (auto simp: index_inv_def)
  have ok: "writer_ok (digs i) (iw_entry w) ds (To_Write seen)" using ds(4) writes(2) by metis
  have eq: "iw_entry w = seen" "digs i \<notin> set ds"
  proof -
    show "iw_entry w = seen" using ok writes(3) by (cases seen) (auto simp: writer_ok_def)
    show "digs i \<notin> set ds" using ok writes(3) ds(1) by (cases seen) (auto simp: writer_ok_def)
  qed
  have "index_rep b (ds @ [digs i])"
    using index_rep_append [OF _ _ writes(4)] ds(1) eq(1) assms(3) by simp
  moreover have "writer_ok (digs j) (Some (next_generation seen, b)) (ds @ [digs i]) (iw_writer w j)" for j
    using writer_ok_later ds(4) writes(5) eq(1) by blast
  ultimately show ?thesis using ds(2,3) eq(2) writes(1,6)
    by (auto simp: index_inv_def intro!: exI [of _ "ds @ [digs i]"])
next
  case (conflict i seen)
  show ?thesis unfolding conflict(1) by (rule index_inv_writer [OF assms(2)]) simp
next
  case (give_up i)
  show ?thesis unfolding give_up(1) by (rule index_inv_writer [OF assms(2)]) simp
qed

text \<open>
  C9: Processes that add to the entry of an hour at the same time do not lose each other's work.
  Whatever the order of their calls, the entry holds different digests, only such as have been
  added, and the digest of every process that has been told that it is done.
\<close>

theorem index_no_lost_update:
  assumes "\<forall>i. length (digs i) = 20"
    and "(index_step digs)\<^sup>*\<^sup>* \<lparr>iw_entry = None, iw_writer = (\<lambda>_. To_Read)\<rparr> w"
  shows "\<exists>ds. index_holds (map_option snd (iw_entry w)) ds \<and> distinct ds \<and> set ds \<subseteq> range digs \<and>
    {i. iw_writer w i = Written} \<subseteq> {i. digs i \<in> set ds}"
proof -
  have "index_inv digs w" using assms(2)
    by (induction rule: rtranclp_induct) (use assms(1) index_inv_step in \<open>auto simp: index_inv_def\<close>)
  then obtain ds where ds: "index_holds (map_option snd (iw_entry w)) ds" "distinct ds" "set ds \<subseteq> range digs"
    "\<forall>i. writer_ok (digs i) (iw_entry w) ds (iw_writer w i)" by (auto simp: index_inv_def)
  have "digs i \<in> set ds" if "iw_writer w i = Written" for i using ds(4) that by (metis writer_ok_simps(1))
  then show ?thesis using ds(1-3) by auto
qed

definition sample_digests :: "nat \<Rightarrow> block" where
  "sample_digests i = replicate 20 (of_nat i)"

definition sample_world :: index_world where
  "sample_world = \<lparr>iw_entry = Some (1, word_le 8 (1 :: u64) @ replicate 20 0), iw_writer = (\<lambda>_. To_Read)(0 := Written, 1 := To_Write None)\<rparr>"

theorem index_no_lost_update_witness:
  "(index_step sample_digests)\<^sup>*\<^sup>* \<lparr>iw_entry = None, iw_writer = (\<lambda>_. To_Read)\<rparr> sample_world
   \<and> (\<exists>ds. index_holds (map_option snd (iw_entry sample_world)) ds \<and> distinct ds \<and> set ds \<subseteq> range sample_digests \<and>
     {i. iw_writer sample_world i = Written} \<subseteq> {i. sample_digests i \<in> set ds})"
proof -
  let ?w0 = "\<lparr>iw_entry = None, iw_writer = (\<lambda>_. To_Read)\<rparr>"
  let ?w1 = "?w0\<lparr>iw_writer := (iw_writer ?w0)(0 := To_Write None)\<rparr>"
  let ?w2 = "?w1\<lparr>iw_writer := (iw_writer ?w1)(1 := To_Write None)\<rparr>"
  have 1: "index_step sample_digests ?w0 ?w1" by (rule look) (simp_all add: index_look_def)
  have 2: "index_step sample_digests ?w1 ?w2" by (rule look) (simp_all add: index_look_def)
  have c: "create_record (Some (\<lambda>_. 255)) None (sample_digests 0) = Some (word_le 8 (1 :: u64) @ replicate 20 0, 28)" by code_simp
  have "index_step sample_digests ?w2
      (?w2\<lparr>iw_entry := Some (next_generation None, word_le 8 (1 :: u64) @ replicate 20 0), iw_writer := (iw_writer ?w2)(0 := Written)\<rparr>)"
    by (rule writes) (use c in \<open>simp_all add: next_generation_def\<close>)
  moreover have "?w2\<lparr>iw_entry := Some (next_generation None, word_le 8 (1 :: u64) @ replicate 20 0), iw_writer := (iw_writer ?w2)(0 := Written)\<rparr>
      = sample_world"
    by (simp add: sample_world_def next_generation_def fun_upd_twist)
  ultimately have 3: "index_step sample_digests ?w2 sample_world" by (simp only:)
  have s: "(index_step sample_digests)\<^sup>*\<^sup>* ?w0 sample_world"
    by (rule converse_rtranclp_into_rtranclp [where r = "index_step sample_digests", OF 1],
        rule converse_rtranclp_into_rtranclp [where r = "index_step sample_digests", OF 2],
        rule r_into_rtranclp [where r = "index_step sample_digests", OF 3])
  show ?thesis using index_no_lost_update [OF _ s] s by (simp add: sample_digests_def)
qed

subsection \<open>What a turn of the code is\<close>

text \<open>The answer of a server that holds this entry, and the condition under which a turn writes.\<close>

definition index_answers :: "(u32 \<times> block) option \<Rightarrow> int \<Rightarrow> parse_args \<Rightarrow> u32 option \<Rightarrow> bool" where
  "index_answers entry rv s gen \<longleftrightarrow>
     (case entry of None \<Rightarrow> rv = CITRUSLEAF_FAIL_NOTFOUND
      | Some (g, b) \<Rightarrow> rv = CITRUSLEAF_OK \<and> gen = Some g \<and> g \<noteq> 0 \<and> pa_n_values s = Some 1 \<and>
          (case pa_values s of Some [bin] \<Rightarrow> c_str (bin_name bin) = Some IR \<and> o_type (bin_object bin) = CL_BLOB \<and>
             u_ptr (o_u (bin_object bin)) = Some b
           | _ \<Rightarrow> False))"

definition write_condition :: "(u32 \<times> block) option \<Rightarrow> cl_write_parameters \<Rightarrow> cl_write_parameters" where
  "write_condition seen w =
     (case seen of None \<Rightarrow> w\<lparr>w_unique := True\<rparr> | Some (g, _) \<Rightarrow> w\<lparr>w_generation := g, w_use_generation := True\<rparr>)"

definition conflict_code :: "(u32 \<times> block) option \<Rightarrow> int" where
  "conflict_code seen = (case seen of None \<Rightarrow> CITRUSLEAF_FAIL_KEY_EXISTS | Some _ \<Rightarrow> CITRUSLEAF_FAIL_GENERATION)"

text \<open>
  C19: A turn of \<open>put_index\<close> is a turn of such a process. With the answer of a server that holds the
  entry it does what the process does that looks at the entry: nothing, when the digest is
  there, or it writes the record that the process writes, on the condition that the generation is still
  the one that was read, or the entry is still missing, and looks again when told that it is not.
\<close>

theorem index_turn_refines:
  assumes "index_answers entry rv s gen"
  shows "index_answered c key new e (Answer rv m asc s gen) = do {
     wr \<leftarrow> index_look new entry;
     case wr of
       To_Write seen \<Rightarrow> do {
         rec \<leftarrow> create_record (ix_record e) (map_option snd seen) new;
         index_put (ix_put e) c key rec (write_condition seen (cl_write_parameters_set_default (me_local (ix_put e))))
           (conflict_code seen) m asc }
     | Written \<Rightarrow> Some (Index_Updated True m asc)
     | _ \<Rightarrow> None }"
proof (cases entry)
  case None
  then show ?thesis using assms
    by (simp add: index_answers_def index_answered_def index_look_def write_condition_def conflict_code_def
      CITRUSLEAF_FAIL_NOTFOUND_def CITRUSLEAF_OK_def CITRUSLEAF_FAIL_TIMEOUT_def)
next
  case (Some r)
  then obtain g b where r: "entry = Some (g, b)" by (cases r) auto
  with assms obtain bin where bin: "pa_values s = Some [bin]" "c_str (bin_name bin) = Some IR" "o_type (bin_object bin) = CL_BLOB"
    "u_ptr (o_u (bin_object bin)) = Some b"
    by (auto simp: index_answers_def split: option.splits list.splits)
  show ?thesis
  proof (cases "record_is_new new (Some b)")
    case None
    then show ?thesis using assms r bin by (simp add: index_answers_def index_answered_def index_old_def index_look_def)
  next
    case (Some is_new)
    then show ?thesis using assms r bin
      by (simp add: index_answers_def index_answered_def index_old_def index_look_def write_condition_def conflict_code_def
        cl_write_parameters_set_generation_def)
  qed
qed

definition sample_entry :: block where
  "sample_entry = word_le 8 (1 :: u64) @ replicate 20 7"

definition sample_answer :: parse_args where
  "sample_answer = (args_of None None (Some 1) None)\<lparr>pa_values := Some [\<lparr>bin_name = [105, 114, 0] @ replicate 29 0,
     bin_object = \<lparr>o_type = CL_BLOB, o_sz = 28, o_u = U_ptr sample_entry, o_free = False\<rparr>\<rparr>]\<rparr>"

theorem index_turn_refines_witness:
  "\<forall>c key e m asc. index_answered c key (replicate 20 7) e (Answer 0 m asc sample_answer (Some 4)) = Some (Index_Updated True m asc)"
proof (intro allI)
  fix c key e m asc
  have "c_str ([105, 114, 0] @ replicate 29 0) = Some IR" by code_simp
  then have a: "index_answers (Some (4, sample_entry)) 0 sample_answer (Some 4)"
    by (simp add: index_answers_def sample_answer_def args_of_def CITRUSLEAF_OK_def)
  have n: "record_is_new (replicate 20 7) (Some sample_entry) = Some False" by code_simp
  show "index_answered c key (replicate 20 7) e (Answer 0 m asc sample_answer (Some 4)) = Some (Index_Updated True m asc)"
    using index_turn_refines [OF a] n by (simp add: index_look_def)
qed

end
