(* ===== verification/Cl_Groups.thy ===== *)
theory Cl_Groups
  imports Cl_Index Cl_Scan Cf_Shash
begin

section \<open>Grouped queries (\<open>src/php_cl_query.c\<close>)\<close>

text \<open>
  A query of the PHP extension: it reads the entries of the index for the hours of an interval,
  fetches all the records that they name, and adds them up by groups: the clicks of a group and
  its distinct values. Callbacks run one at a time here. Many threads call them in the code, and
  take no lock for a group that is there already.
\<close>

subsection \<open>Groups\<close>

definition MAX_FIELD_SIZE :: nat where "MAX_FIELD_SIZE = 80"

text \<open>\<open>strncpy\<close> into a cleared key of one byte more than it copies.\<close>

definition stats_key :: "block \<Rightarrow> block option" where
  "stats_key s =
     (let x = takeWhile (\<lambda>c. c \<noteq> 0) s in
      if length x = length s \<and> length s < MAX_FIELD_SIZE then None
      else let y = take MAX_FIELD_SIZE x in Some (y @ replicate (MAX_FIELD_SIZE + 1 - length y) 0))"

fun fnv32_loop :: "u32 \<Rightarrow> block \<Rightarrow> u32" where
  "fnv32_loop hash [] = hash"
| "fnv32_loop hash (c # cs) = fnv32_loop ((hash XOR ucast c) * 16777619) cs"

definition FNV32 :: "block \<Rightarrow> u32" where
  "FNV32 k = fnv32_loop 2166136261 (takeWhile (\<lambda>c. c \<noteq> 0) k)"

text \<open>
  The table of the groups, and the tables of their distinct values; a pointer to one of these is
  its number in the order of creation. A value of the first is such a pointer and the clicks.
\<close>

record groups =
  gr_hash :: shash
  gr_tables :: "shash list"

definition stats_count :: "u64 \<Rightarrow> u64 \<Rightarrow> block" where
  "stats_count distinct_hash click_count = word_le 8 distinct_hash @ word_le 8 click_count"

definition stats_table :: "block \<Rightarrow> nat option" where
  "stats_table value = map_option (\<lambda>x. unat (le_word x :: u64)) (load value 0 8)"

record stats_env =
  st_others :: "groups \<Rightarrow> groups"
  st_struct :: malloc_env
  st_table :: malloc_env
  st_distinct :: malloc_env
  st_group :: malloc_env

definition dummy :: block where "dummy = word_le 4 (1 :: u32)"

text \<open>The item of the distinct value, if it is not there yet.\<close>

definition add_distinct :: "stats_env \<Rightarrow> groups \<Rightarrow> block \<Rightarrow> block \<Rightarrow> groups option" where
  "add_distinct e g value key2 = do {
     i \<leftarrow> stats_table value;
     if i < length (gr_tables g) then do {
       (rv, _, t) \<leftarrow> shash_get (gr_tables g ! i) key2 True;
       if rv \<noteq> SHASH_OK then do {
         (_, t) \<leftarrow> shash_put (st_distinct e) t key2 dummy;
         Some (g\<lparr>gr_tables := (gr_tables g)[i := t]\<rparr>) }
       else Some (g\<lparr>gr_tables := (gr_tables g)[i := t]\<rparr>) }
     else None }"

text \<open>
  \<open>add_stats\<close>: the clicks are added to the copy of the value that \<open>shash_get\<close> has made, which is
  dropped. Under the lock the group is looked for again; others may have made it meanwhile.
\<close>

definition add_stats :: "stats_env \<Rightarrow> groups \<Rightarrow> block option \<Rightarrow> u64 \<Rightarrow> block option \<Rightarrow> groups option" where
  "add_stats e g distinct_attr clicks group_attr = do {
     group_attr \<leftarrow> group_attr;
     key1 \<leftarrow> stats_key group_attr;
     distinct_attr \<leftarrow> distinct_attr;
     key2 \<leftarrow> stats_key distinct_attr;
     (rv, value, h) \<leftarrow> shash_get (gr_hash g) key1 True;
     let g = g\<lparr>gr_hash := h\<rparr>;
     if rv = SHASH_OK then do { v \<leftarrow> value; add_distinct e g v key2 }
     else do {
       let g = st_others e g;
       (rv, value, h) \<leftarrow> shash_get (gr_hash g) key1 True;
       let g = g\<lparr>gr_hash := h\<rparr>;
       if rv = SHASH_OK then do { v \<leftarrow> value; add_distinct e g v key2 }
       else do {
         t \<leftarrow> snd (shash_create (st_struct e) (st_table e) True None FNV32 81 4 200000 0);
         (_, t) \<leftarrow> shash_put (st_distinct e) t key2 dummy;
         (_, h) \<leftarrow> shash_put (st_group e) (gr_hash g) key1 (stats_count (of_nat (length (gr_tables g))) clicks);
         Some \<lparr>gr_hash = h, gr_tables = gr_tables g @ [t]\<rparr> } } }"

text \<open>
  The callback of the records: it stops at the third bin of interest. The types of the values are
  not looked at; a number that is taken for a string, or the other way round, is undefined.
\<close>

definition bin_named :: "cl_bin \<Rightarrow> block option \<Rightarrow> bool option" where
  "bin_named b name = do { x \<leftarrow> c_str (bin_name b); s \<leftarrow> name; y \<leftarrow> c_str s; Some (x = y) }"

record attrs =
  at_group :: "block option"
  at_distinct :: "block option"
  at_count :: "block option"

fun pick_attrs ::
  "attrs \<Rightarrow> cl_bin list \<Rightarrow> nat \<Rightarrow> cl_union option \<Rightarrow> cl_union option \<Rightarrow> cl_union option \<Rightarrow>
   (nat \<times> cl_union option \<times> cl_union option \<times> cl_union option) option" where
  "pick_attrs c [] n grp dis clicks = Some (n, grp, dis, clicks)"
| "pick_attrs c (b # bs) n grp dis clicks = do {
     is_group \<leftarrow> bin_named b (at_group c);
     (n, grp, dis, clicks) \<leftarrow>
       (if is_group then Some (Suc n, Some (o_u (bin_object b)), dis, clicks)
        else do {
          is_distinct \<leftarrow> bin_named b (at_distinct c);
          if is_distinct then Some (Suc n, grp, Some (o_u (bin_object b)), clicks)
          else do {
            is_count \<leftarrow> bin_named b (at_count c);
            if is_count then Some (Suc n, grp, dis, Some (o_u (bin_object b))) else Some (n, grp, dis, clicks) } });
     if n = 3 then Some (n, grp, dis, clicks) else pick_attrs c bs n grp dis clicks }"

record gathered =
  ga_groups :: groups
  ga_records_counter :: u64

definition fast_groupby_getmany_cb :: "stats_env \<Rightarrow> attrs \<Rightarrow> delivery \<Rightarrow> gathered \<Rightarrow> gathered option" where
  "fast_groupby_getmany_cb e c d u = do {
     (n, grp, dis, clicks) \<leftarrow> pick_attrs c (d_bins d) 0 None None None;
     if n = 3 then do {
       clicks_i \<leftarrow> (case clicks of None \<Rightarrow> Some 0 | Some x \<Rightarrow> u_i64 x);
       g \<leftarrow> add_stats e (ga_groups u) (Option.bind dis u_ptr) clicks_i (Option.bind grp u_ptr);
       Some (u\<lparr>ga_groups := g, ga_records_counter := ga_records_counter u + 1\<rparr>) }
     else Some u }"

fun groupby_calls :: "(nat \<Rightarrow> stats_env) \<Rightarrow> nat \<Rightarrow> attrs \<Rightarrow> delivery list \<Rightarrow> gathered \<Rightarrow> gathered option" where
  "groupby_calls envs i c [] u = Some u"
| "groupby_calls envs i c (d # ds) u = do { u \<leftarrow> fast_groupby_getmany_cb (envs i) c d u; groupby_calls envs (Suc i) c ds u }"

subsection \<open>The entries of the index\<close>

text \<open>The array of the entries, with room for one per hour, and the number of its next element.\<close>

record digest_table =
  dt_irs :: "block option list"
  dt_curr :: u64

text \<open>The count in the entry is trusted: so much is copied.\<close>

definition add_keys_to_digest_table :: "malloc_env \<Rightarrow> block \<Rightarrow> digest_table \<Rightarrow> digest_table option" where
  "add_keys_to_digest_table e irec t = do {
     count \<leftarrow> index_count irec;
     if count = 0 then Some t
     else do {
       let index = unat (dt_curr t);
       let t = t\<lparr>dt_curr := dt_curr t + 1\<rparr>;
       if index < length (dt_irs t) \<and> dt_irs t ! index = None then do {
         let record_size = unat (8 + count * 20);
         case malloc e record_size of None \<Rightarrow> Some t
         | Some p \<Rightarrow> do {
             x \<leftarrow> load irec 0 record_size;
             p \<leftarrow> store p 0 x;
             Some (t\<lparr>dt_irs := (dt_irs t)[index := Some p]\<rparr>) } }
       else Some t } }"

text \<open>The callback of the entries: anything but one blob is left out.\<close>

definition index_getmany_cb :: "malloc_env \<Rightarrow> delivery \<Rightarrow> digest_table \<Rightarrow> digest_table option" where
  "index_getmany_cb e d t =
     (case d_bins d of
        [bin] \<Rightarrow>
          if o_type (bin_object bin) \<noteq> CL_BLOB then Some t
          else (case u_ptr (o_u (bin_object bin)) of None \<Rightarrow> Some t
            | Some irec \<Rightarrow> add_keys_to_digest_table e irec t)
      | _ \<Rightarrow> Some t)"

fun index_calls :: "(nat \<Rightarrow> malloc_env) \<Rightarrow> nat \<Rightarrow> delivery list \<Rightarrow> digest_table \<Rightarrow> digest_table option" where
  "index_calls envs i [] t = Some t"
| "index_calls envs i (d # ds) t = do { t \<leftarrow> index_getmany_cb (envs i) d t; index_calls envs (Suc i) ds t }"

text \<open>The number of the digests, and the digests one after the other; their offset is an \<open>int\<close>.\<close>

fun count_digests :: "block option list \<Rightarrow> u64 \<Rightarrow> u64 option" where
  "count_digests [] n = Some n"
| "count_digests (None # irs) n = count_digests irs n"
| "count_digests (Some b # irs) n = do { k \<leftarrow> index_count b; count_digests irs (n + k) }"

fun copy_digests :: "block option list \<Rightarrow> block \<Rightarrow> nat \<Rightarrow> block option" where
  "copy_digests [] p offset = Some p"
| "copy_digests (None # irs) p offset = copy_digests irs p offset"
| "copy_digests (Some b # irs) p offset = do {
     k \<leftarrow> index_count b;
     if k = 0 then copy_digests irs p offset
     else do {
       x \<leftarrow> load b 8 (20 * unat k);
       p \<leftarrow> store p (offset * 20) x;
       if 2 ^ 31 \<le> offset + unat k then None else copy_digests irs p (offset + unat k) } }"

text \<open>Two dates of ten digits; the test for an empty result looks at the first twice.\<close>

definition query_hours :: "block \<Rightarrow> block \<Rightarrow> (u32 \<times> u32) option option" where
  "query_hours begin_date end_date = do {
     x \<leftarrow> c_str begin_date;
     y \<leftarrow> c_str end_date;
     if length x \<noteq> DATE_HOUR_SIZE \<or> length y \<noteq> DATE_HOUR_SIZE then Some None
     else do {
       h1 \<leftarrow> date_hour plain_date begin_date;
       h2 \<leftarrow> date_hour plain_date end_date;
       if h1 = [] then Some None
       else do {
         let b = of_int (atoi h1);
         let e = of_int (atoi h2);
         if e \<le> b then Some None else Some (Some (b, e)) } } }"

text \<open>The number is printed as a signed one.\<close>

definition print_int :: "u32 \<Rightarrow> block" where
  "print_int w = (if sint w < 0 then 45 # dec (nat (- sint w)) else dec (nat (sint w)))"

definition hour_key :: "block \<Rightarrow> u32 \<Rightarrow> block option option" where
  "hour_key account hour =
     (if length account + DATE_HOUR_SIZE + 1 > MAX_KEY_SIZE then Some None
      else do {
        k \<leftarrow> store (replicate (MAX_KEY_SIZE + 1) 0) 0 account;
        k \<leftarrow> store k (length account) [58];
        k \<leftarrow> store k (length account + 1) (print_int hour @ [0]);
        Some (Some k) })"

fun hour_digests ::
  "(block \<Rightarrow> block) \<Rightarrow> (nat \<Rightarrow> u8) \<Rightarrow> block option \<Rightarrow> block \<Rightarrow> u32 \<Rightarrow> nat \<Rightarrow> block list \<Rightarrow> block list option option" where
  "hour_digests rmd g iset account hour 0 acc = Some (Some acc)"
| "hour_digests rmd g iset account hour (Suc n) acc = do {
     k \<leftarrow> hour_key account hour;
     case k of None \<Rightarrow> Some None
     | Some k \<Rightarrow> do {
         key \<leftarrow> citrusleaf_object_init_str k;
         (_, d) \<leftarrow> citrusleaf_calculate_digest rmd g iset key;
         d \<leftarrow> d;
         hour_digests rmd g iset account (hour + 1) n (acc @ [d]) } }"

subsection \<open>The query\<close>

record sconfig =
  sc_ns :: "block option"
  sc_set :: "block option"
  sc_iset :: "block option"
  sc_index :: bool
  sc_account_id :: "block option"
  sc_begin_date :: "block option"
  sc_end_date :: "block option"
  sc_group_attr :: "block option"
  sc_distinct_attr :: "block option"
  sc_count_attr :: "block option"
  sc_date_hour_attr :: "block option"
  sc_account_id_attr :: "block option"
  sc_begin_date_hour :: u32
  sc_end_date_hour :: u32
  sc_records_counter :: u64
  sc_elapsed_time :: u64
  sc_irs :: "digest_table option"
  sc_digests :: "block option"
  sc_n_digests :: u64
  sc_group_hash :: "groups option"

text \<open>What the query needs of the world: memory, the two calls, the allocations of the callbacks, the clock.\<close>

record query_env =
  qe_stack :: "nat \<Rightarrow> u8"
  qe_group_struct :: malloc_env
  qe_group_table :: malloc_env
  qe_digests :: malloc_env
  qe_irs :: malloc_env
  qe_index_call :: call_env
  qe_index_envs :: "nat \<Rightarrow> malloc_env"
  qe_all_digests :: malloc_env
  qe_batch_call :: call_env
  qe_scan :: scan_env
  qe_stats :: "nat \<Rightarrow> stats_env"
  qe_start :: u64
  qe_end :: u64

type_synonym query_state = "sconfig \<times> batch_pool \<times> mem \<times> cl_cluster"

definition sc_attrs :: "sconfig \<Rightarrow> attrs" where
  "sc_attrs c = \<lparr>at_group = sc_group_attr c, at_distinct = sc_distinct_attr c, at_count = sc_count_attr c\<rparr>"

definition do_indexquery :: "(block \<Rightarrow> block) \<Rightarrow> zlib \<Rightarrow> query_env \<Rightarrow> query_state \<Rightarrow> (int \<times> query_state) outcome option" where
  "do_indexquery rmd inflate e = (\<lambda>(c, bp, m, asc). do {
     begin_date \<leftarrow> sc_begin_date c;
     end_date \<leftarrow> sc_end_date c;
     hours \<leftarrow> query_hours begin_date end_date;
     case hours of None \<Rightarrow> Some (Returned (- 1, c, bp, m, asc))
     | Some (begin_date_hour, end_date_hour) \<Rightarrow> do {
         let c = c\<lparr>sc_begin_date_hour := begin_date_hour, sc_end_date_hour := end_date_hour\<rparr>;
         if \<not> sc_index c then Some (Returned (0, c, bp, m, asc))
         else do {
           a \<leftarrow> sc_account_id c;
           account \<leftarrow> c_str a;
           let n = unat (end_date_hour - begin_date_hour);
           if 2 ^ 31 \<le> n then None
           else do {
             ds \<leftarrow> hour_digests rmd (qe_stack e) (sc_iset c) account begin_date_hour n [];
             case ds of None \<Rightarrow> Some (Returned (- 1, c, bp, m, asc))
             | Some digests \<Rightarrow>
                 if qe_digests e = None \<or> qe_irs e = None then None
                 else do {
                   let t = \<lparr>dt_irs = replicate n None, dt_curr = 0\<rparr>;
                   ns \<leftarrow> sc_ns c;
                   r \<leftarrow> citrusleaf_get_many_digest inflate (qe_index_call e) bp m asc ns digests None 0 True;
                   case r of Waiting \<Rightarrow> Some Waiting
                   | Returned (rv, bp, m, asc, calls) \<Rightarrow> do {
                       t \<leftarrow> index_calls (qe_index_envs e) 0 calls t;
                       Some (Returned (if rv = CITRUSLEAF_OK then 0 else - 1, c\<lparr>sc_irs := Some t\<rparr>, bp, m, asc)) } } } } } })"

text \<open>The bins that are asked for; of a scan only the set is handed on.\<close>

definition query_bins :: "(nat \<Rightarrow> u8) \<Rightarrow> sconfig \<Rightarrow> cl_bin list option" where
  "query_bins g c = do {
     let null = citrusleaf_object_init_null \<lparr>o_type = CL_NULL, o_sz = 0, o_u = U_none, o_free = False\<rparr>;
     a \<leftarrow> Option.bind (sc_group_attr c) c_str;
     b1 \<leftarrow> named_bin g a null;
     a \<leftarrow> Option.bind (sc_distinct_attr c) c_str;
     b2 \<leftarrow> named_bin g a null;
     a \<leftarrow> Option.bind (sc_count_attr c) c_str;
     b3 \<leftarrow> named_bin g a null;
     Some [b1, b2, b3] }"

fun digest_blocks :: "nat \<Rightarrow> block \<Rightarrow> block list" where
  "digest_blocks 0 b = []"
| "digest_blocks (Suc n) b = take 20 b # digest_blocks n (drop 20 b)"

definition do_batchquery :: "(block \<Rightarrow> block) \<Rightarrow> zlib \<Rightarrow> query_env \<Rightarrow> query_state \<Rightarrow> (int \<times> query_state) outcome option" where
  "do_batchquery rmd inflate e = (\<lambda>(c, bp, m, asc). do {
     bins \<leftarrow> query_bins (qe_stack e) c;
     ns \<leftarrow> sc_ns c;
     r \<leftarrow> (if sc_index c then do {
             ds \<leftarrow> sc_digests c;
             citrusleaf_get_many_digest inflate (qe_batch_call e) bp m asc ns (digest_blocks (unat (sc_n_digests c)) ds) (Some bins) 3 True }
           else do {
             r \<leftarrow> citrusleaf_scan rmd (qe_scan e) m asc ns (sc_set c) False;
             case r of Scan_Busy _ \<Rightarrow> Some Waiting
             | Scan_Ret rv m asc calls \<Rightarrow> Some (Returned (rv, bp, m, asc, calls)) });
     case r of Waiting \<Rightarrow> Some Waiting
     | Returned (rv, bp, m, asc, calls) \<Rightarrow> do {
         g \<leftarrow> sc_group_hash c;
         u \<leftarrow> groupby_calls (qe_stats e) 0 (sc_attrs c) calls \<lparr>ga_groups = g, ga_records_counter = sc_records_counter c\<rparr>;
         Some (Returned (if rv = CITRUSLEAF_OK then 0 else - 1,
           c\<lparr>sc_group_hash := Some (ga_groups u), sc_records_counter := ga_records_counter u\<rparr>, bp, m, asc)) } })"

text \<open>The rows of the table that is printed: the group, the clicks, and the number of distinct values.\<close>

type_synonym row = "block \<times> u64 \<times> u32"

definition print_stats_fn :: "shash list \<Rightarrow> row option list shash_reduce_fn" where
  "print_stats_fn tables key data rows =
     (SHASH_OK, data, rows @ [do {
        skey \<leftarrow> c_str key;
        clicks \<leftarrow> load data 8 8;
        i \<leftarrow> stats_table data;
        n \<leftarrow> (if i < length tables then shash_get_size (tables ! i) else None);
        Some (skey, le_word clicks, n) }])"

definition print_groups :: "groups \<Rightarrow> row list option" where
  "print_groups g = do {
     (_, _, rows) \<leftarrow> shash_reduce (gr_hash g) (print_stats_fn (gr_tables g)) [];
     those rows }"

definition query_config :: "sconfig \<Rightarrow> bool" where
  "query_config c \<longleftrightarrow> None \<notin> {sc_ns c, sc_set c, sc_iset c, sc_account_id c, sc_begin_date c, sc_end_date c, sc_group_attr c,
     sc_distinct_attr c, sc_date_hour_attr c, sc_account_id_attr c, sc_count_attr c}"

text \<open>The digests of all entries in one array; no digest at all ends the query.\<close>

definition gather_digests :: "query_env \<Rightarrow> sconfig \<Rightarrow> sconfig option option" where
  "gather_digests e c = do {
     t \<leftarrow> sc_irs c;
     n \<leftarrow> count_digests (dt_irs t) 0;
     if n = 0 then Some None
     else (case malloc (qe_all_digests e) (unat (n * 20)) of None \<Rightarrow> Some None
       | Some p \<Rightarrow> do {
           p \<leftarrow> copy_digests (dt_irs t) p 0;
           Some (Some (c\<lparr>sc_n_digests := n, sc_digests := Some p\<rparr>)) }) }"

text \<open>
  \<open>group_query\<close>, with what it prints when it succeeds: the rows and the records per second. An error
  of a part ends it. A query that took less than a millisecond divides by zero.
\<close>

definition group_query ::
  "(block \<Rightarrow> block) \<Rightarrow> zlib \<Rightarrow> query_env \<Rightarrow> query_state \<Rightarrow> (int \<times> (row list \<times> u64) option \<times> query_state) outcome option" where
  "group_query rmd inflate e = (\<lambda>(c, bp, m, asc).
     if \<not> sc_index c \<or> \<not> query_config c then Some (Returned (- 1, None, c, bp, m, asc))
     else do {
       h \<leftarrow> snd (shash_create (qe_group_struct e) (qe_group_table e) True None FNV32 81 16 1024 0);
       let c = c\<lparr>sc_group_hash := Some \<lparr>gr_hash = h, gr_tables = []\<rparr>, sc_records_counter := 0, sc_irs := None,
         sc_digests := None, sc_n_digests := 0\<rparr>;
       r \<leftarrow> do_indexquery rmd inflate e (c, bp, m, asc);
       case r of Waiting \<Rightarrow> Some Waiting
       | Returned (rv, c, bp, m, asc) \<Rightarrow>
           if rv \<noteq> 0 then Some (Returned (- 1, None, c, bp, m, asc))
           else do {
             x \<leftarrow> gather_digests e c;
             case x of None \<Rightarrow> Some (Returned (- 1, None, c, bp, m, asc))
             | Some c \<Rightarrow> do {
                 r \<leftarrow> do_batchquery rmd inflate e (c, bp, m, asc);
                 case r of Waiting \<Rightarrow> Some Waiting
                 | Returned (rv, c, bp, m, asc) \<Rightarrow>
                     if rv \<noteq> 0 then Some (Returned (- 1, None, c, bp, m, asc))
                     else do {
                       let c = c\<lparr>sc_digests := None, sc_elapsed_time := qe_end e - qe_start e\<rparr>;
                       g \<leftarrow> sc_group_hash c;
                       rows \<leftarrow> print_groups g;
                       if sc_elapsed_time c = 0 then None
                       else Some (Returned (0, Some (rows, sc_records_counter c * 1000 div sc_elapsed_time c), c, bp, m, asc)) } } } })"

subsection \<open>Tables without locks\<close>

definition tab :: "u32 \<Rightarrow> u32 \<Rightarrow> shash \<Rightarrow> bool" where
  "tab kl vl h \<longleftrightarrow> shash_inv h \<and> sh_key_len h = kl \<and> sh_value_len h = vl \<and> sh_flags h = 0"

lemma tab_get:
  "tab kl vl h \<Longrightarrow> length k = unat kl \<Longrightarrow>
     shash_get h k True = Some (if shash_map h k = None then SHASH_ERR_NOTFOUND else SHASH_OK, shash_map h k, h)"
  by (rule shash_get_ok) (auto simp: tab_def shash_fits_key_def)

lemma tab_put:
  assumes "tab kl vl h" and "length k = unat kl" and "length v = unat vl"
  shows "\<exists>h'. shash_put (Some g) h k v = Some (SHASH_OK, h') \<and> tab kl vl h' \<and> shash_map h' = (shash_map h)(k \<mapsto> v)"
proof -
  have m: "\<not> many h" using assms(1) by (simp add: tab_def many_def)
  from assms m show ?thesis using shash_put_ok [of h k v g]
    by (auto simp: tab_def shash_fits_key_def shash_fits_value_def)
qed

lemma tab_create:
  assumes "sz \<noteq> 0"
  shows "\<exists>h. snd (shash_create (Some g1) (Some g2) True None h_fn kl vl sz 0) = Some h \<and> tab kl vl h \<and> shash_map h = Map.empty"
proof -
  have "shash_create (Some g1) (Some g2) True None h_fn kl vl sz 0 = shash_create (Some g1) (Some g2) True (Some g1) h_fn kl vl sz 0"
    by (simp add: shash_create_def)
  then show ?thesis using shash_create_ok [OF assms, of 0 g1 g2 g1 h_fn kl vl] by (auto simp: tab_def)
qed

lemma tab_size: "tab kl vl h \<Longrightarrow> shash_get_size h = Some (of_nat (card (dom (shash_map h))))"
  using shash_size_card [of h] by (auto simp: shash_get_size_def tab_def shash_inv_def shash_free_def many_def)

lemma length_stats_key: "stats_key s = Some k \<Longrightarrow> length k = 81"
  by (auto simp: stats_key_def Let_def MAX_FIELD_SIZE_def split: if_splits)

lemma stats_key_string: "0 \<notin> set x \<Longrightarrow> stats_key (x @ 0 # s) = Some (take 80 x @ replicate (81 - length (take 80 x)) 0)"
  by (simp add: stats_key_def Let_def MAX_FIELD_SIZE_def takeWhile_append)

lemma length_dummy [simp]: "length dummy = 4"
  by (simp add: dummy_def)

lemma stats_table_count: "n < 2 ^ 64 \<Longrightarrow> stats_table (stats_count (of_nat n) c) = Some n"
  by (simp add: stats_table_def stats_count_def load_def le_word_word_le unat_of_nat)

lemma length_stats_count [simp]: "length (stats_count p c) = 16"
  by (simp add: stats_count_def)

subsection \<open>What the tables hold\<close>

text \<open>For every group the clicks and the set of its distinct values, by their keys.\<close>

type_synonym tally = "block \<rightharpoonup> u64 \<times> block set"

definition groups_ok :: "nat \<Rightarrow> groups \<Rightarrow> tally \<Rightarrow> bool" where
  "groups_ok n g M \<longleftrightarrow> tab 81 16 (gr_hash g) \<and> length (gr_tables g) \<le> n \<and>
     (\<exists>P. inj_on P (dom M) \<and>
        (\<forall>k. shash_map (gr_hash g) k = map_option (\<lambda>(c, D). stats_count (of_nat (P k)) c) (M k)) \<and>
        (\<forall>k c D. M k = Some (c, D) \<longrightarrow> P k < length (gr_tables g) \<and> tab 81 4 (gr_tables g ! P k) \<and>
           dom (shash_map (gr_tables g ! P k)) = D))"

definition tally :: "block \<times> block \<times> u64 \<Rightarrow> tally \<Rightarrow> tally" where
  "tally x M = (case x of (k, d, c) \<Rightarrow> (case M k of None \<Rightarrow> M(k \<mapsto> (c, {d})) | Some (c0, D) \<Rightarrow> M(k \<mapsto> (c0, insert d D))))"

definition stats_env_ok :: "stats_env \<Rightarrow> bool" where
  "stats_env_ok e \<longleftrightarrow> st_others e = id \<and> st_struct e \<noteq> None \<and> st_table e \<noteq> None \<and> st_distinct e \<noteq> None \<and> st_group e \<noteq> None"

lemma add_distinct_ok:
  assumes "groups_ok n g M" and "n < 2 ^ 64" and "st_distinct e \<noteq> None" and "M k = Some (c, D)" and "length d = 81"
    and "shash_map (gr_hash g) k = Some v"
  shows "\<exists>g'. add_distinct e g v d = Some g' \<and> groups_ok n g' (M(k \<mapsto> (c, insert d D)))"
proof -
  from assms(1) obtain P where P: "inj_on P (dom M)"
    "\<forall>k. shash_map (gr_hash g) k = map_option (\<lambda>(c, D). stats_count (of_nat (P k)) c) (M k)"
    "\<forall>k c D. M k = Some (c, D) \<longrightarrow> P k < length (gr_tables g) \<and> tab 81 4 (gr_tables g ! P k) \<and> dom (shash_map (gr_tables g ! P k)) = D"
    and g: "tab 81 16 (gr_hash g)" "length (gr_tables g) \<le> n" unfolding groups_ok_def by blast
  let ?t = "gr_tables g ! P k"
  have t: "P k < length (gr_tables g)" "tab 81 4 ?t" "dom (shash_map ?t) = D" using P(3) assms(4) by blast+
  have "P k < 2 ^ 64" using t(1) g(2) assms(2) by simp
  then have v: "stats_table v = Some (P k)" using P(2) assms(4,6) stats_table_count by auto
  obtain gd where gd: "st_distinct e = Some gd" using assms(3) by blast
  have "\<exists>t'. add_distinct e g v d = Some (g\<lparr>gr_tables := (gr_tables g)[P k := t']\<rparr>) \<and> tab 81 4 t' \<and> dom (shash_map t') = insert d D"
  proof (cases "shash_map ?t d")
    case None
    from tab_put [OF t(2), of d dummy gd] assms(5) obtain t' where
      "shash_put (Some gd) ?t d dummy = Some (SHASH_OK, t')" "tab 81 4 t'" "shash_map t' = (shash_map ?t)(d \<mapsto> dummy)" by auto
    then show ?thesis using v t None gd tab_get [OF t(2), of d] assms(5)
      by (auto simp: add_distinct_def SHASH_ERR_NOTFOUND_def SHASH_OK_def)
  next
    case (Some w)
    then have "d \<in> D" using t(3) by blast
    then show ?thesis using v t Some tab_get [OF t(2), of d] assms(5) by (intro exI [of _ ?t]) (auto simp: add_distinct_def insert_absorb)
  qed
  then obtain t' where t': "add_distinct e g v d = Some (g\<lparr>gr_tables := (gr_tables g)[P k := t']\<rparr>)" "tab 81 4 t'" "dom (shash_map t') = insert d D"
    by blast
  have other: "P j \<noteq> P k" if "j \<noteq> k" "M j \<noteq> None" for j using inj_onD [OF P(1), of j k] that assms(4) by blast
  have "groups_ok n (g\<lparr>gr_tables := (gr_tables g)[P k := t']\<rparr>) (M(k \<mapsto> (c, insert d D)))"
    unfolding groups_ok_def
  proof (intro conjI exI [of _ P])
    show "inj_on P (dom (M(k \<mapsto> (c, insert d D))))" using P(1) assms(4) by (simp add: insert_absorb domI)
    show "\<forall>j. shash_map (gr_hash (g\<lparr>gr_tables := (gr_tables g)[P k := t']\<rparr>)) j =
        map_option (\<lambda>(c, D). stats_count (of_nat (P j)) c) ((M(k \<mapsto> (c, insert d D))) j)"
      using P(2) assms(4) by simp
    have "P j < length (gr_tables g) \<and> tab 81 4 ((gr_tables g)[P k := t'] ! P j) \<and> dom (shash_map ((gr_tables g)[P k := t'] ! P j)) = D'"
      if "(M(k \<mapsto> (c, insert d D))) j = Some (c', D')" for j c' D'
    proof (cases "j = k")
      case True
      then show ?thesis using that t(1) t'(2,3) by auto
    next
      case False
      then have j: "M j = Some (c', D')" using that by simp
      then have "P j \<noteq> P k" using other False by simp
      then show ?thesis using P(3) [rule_format, OF j] by simp
    qed
    then show "\<forall>j c' D'. (M(k \<mapsto> (c, insert d D))) j = Some (c', D') \<longrightarrow>
        P j < length (gr_tables (g\<lparr>gr_tables := (gr_tables g)[P k := t']\<rparr>)) \<and>
        tab 81 4 (gr_tables (g\<lparr>gr_tables := (gr_tables g)[P k := t']\<rparr>) ! P j) \<and>
        dom (shash_map (gr_tables (g\<lparr>gr_tables := (gr_tables g)[P k := t']\<rparr>) ! P j)) = D'" by simp
  qed (use g in auto)
  then show ?thesis using t'(1) by blast
qed

lemma add_stats_ok:
  assumes "groups_ok n g M" and "Suc n < 2 ^ 64" and "stats_env_ok e" and "stats_key grp = Some k" and "stats_key dis = Some d"
  shows "\<exists>g'. add_stats e g (Some dis) c (Some grp) = Some g' \<and> groups_ok (Suc n) g' (tally (k, d, c) M)"
proof -
  from assms(1) obtain P where P: "inj_on P (dom M)"
    "\<forall>k. shash_map (gr_hash g) k = map_option (\<lambda>(c, D). stats_count (of_nat (P k)) c) (M k)"
    "\<forall>k c D. M k = Some (c, D) \<longrightarrow> P k < length (gr_tables g) \<and> tab 81 4 (gr_tables g ! P k) \<and> dom (shash_map (gr_tables g ! P k)) = D"
    and g: "tab 81 16 (gr_hash g)" "length (gr_tables g) \<le> n" unfolding groups_ok_def by blast
  have kl: "length k = 81" "length d = 81" using assms(4,5) length_stats_key by blast+
  have get: "shash_get (gr_hash g) k True =
      Some (if shash_map (gr_hash g) k = None then SHASH_ERR_NOTFOUND else SHASH_OK, shash_map (gr_hash g) k, gr_hash g)"
    using tab_get [OF g(1), of k] kl by simp
  obtain ga gb gc gd where e: "st_others e = id" "st_struct e = Some ga" "st_table e = Some gb" "st_distinct e = Some gc" "st_group e = Some gd"
    using assms(3) by (auto simp: stats_env_ok_def)
  show ?thesis
  proof (cases "M k")
    case (Some r)
    obtain c0 D where r: "r = (c0, D)" by fastforce
    from Some r P(2) have v: "shash_map (gr_hash g) k = Some (stats_count (of_nat (P k)) c0)" by simp
    from add_distinct_ok [OF assms(1) _ _ _ kl(2) v, of e c0 D] obtain g' where
      "add_distinct e g (stats_count (of_nat (P k)) c0) d = Some g'" "groups_ok n g' (M(k \<mapsto> (c0, insert d D)))"
      using assms(2) e(4) Some r by auto
    then show ?thesis using get v assms(4,5) Some r
      by (auto simp: add_stats_def tally_def groups_ok_def)
  next
    case None
    then have v: "shash_map (gr_hash g) k = None" using P(2) by simp
    from tab_create [of 200000 ga gb FNV32 81 4] obtain t where
      t: "snd (shash_create (Some ga) (Some gb) True None FNV32 81 4 200000 0) = Some t" "tab 81 4 t" "shash_map t = Map.empty" by auto
    from tab_put [OF t(2), of d dummy gc] kl(2) obtain t' where
      t': "shash_put (Some gc) t d dummy = Some (SHASH_OK, t')" "tab 81 4 t'" "shash_map t' = [d \<mapsto> dummy]" using t(3) by auto
    let ?v = "stats_count (of_nat (length (gr_tables g))) c" and ?P = "P(k := length (gr_tables g))"
    from tab_put [OF g(1), of k ?v gd] kl(1) obtain h' where
      h': "shash_put (Some gd) (gr_hash g) k ?v = Some (SHASH_OK, h')" "tab 81 16 h'" "shash_map h' = (shash_map (gr_hash g))(k \<mapsto> ?v)" by auto
    let ?g = "\<lparr>gr_hash = h', gr_tables = gr_tables g @ [t']\<rparr>"
    have "add_stats e g (Some dis) c (Some grp) = Some ?g"
      using get v assms(4,5) e t(1) t'(1) h'(1) by (simp add: add_stats_def SHASH_ERR_NOTFOUND_def SHASH_OK_def)
    moreover have "groups_ok (Suc n) ?g (M(k \<mapsto> (c, {d})))"
      unfolding groups_ok_def
    proof (intro conjI exI [of _ ?P])
      have "P j \<noteq> length (gr_tables g)" if "M j \<noteq> None" for j using P(3) that by fastforce
      then show "inj_on ?P (dom (M(k \<mapsto> (c, {d}))))" using P(1) None unfolding inj_on_def dom_def by simp metis
      show "\<forall>j. shash_map (gr_hash ?g) j = map_option (\<lambda>(c, D). stats_count (of_nat (?P j)) c) ((M(k \<mapsto> (c, {d}))) j)"
        using P(2) h'(3) by simp
      have "?P j < length (gr_tables ?g) \<and> tab 81 4 (gr_tables ?g ! ?P j) \<and> dom (shash_map (gr_tables ?g ! ?P j)) = D'"
        if "(M(k \<mapsto> (c, {d}))) j = Some (c', D')" for j c' D'
      proof (cases "j = k")
        case True
        then show ?thesis using that t'(2,3) by simp
      next
        case False
        then have "M j = Some (c', D')" using that by simp
        from P(3) [rule_format, OF this] show ?thesis using False by (simp add: nth_append)
      qed
      then show "\<forall>j c' D'. (M(k \<mapsto> (c, {d}))) j = Some (c', D') \<longrightarrow> ?P j < length (gr_tables ?g) \<and>
          tab 81 4 (gr_tables ?g ! ?P j) \<and> dom (shash_map (gr_tables ?g ! ?P j)) = D'" by blast
    qed (use g h' in auto)
    ultimately show ?thesis using None by (simp add: tally_def)
  qed
qed

subsection \<open>The rows of a query\<close>

definition padded :: "block \<Rightarrow> block" where
  "padded x = take 80 x @ replicate (81 - length (take 80 x)) 0"

lemma padded_string:
  assumes "0 \<notin> set x"
  shows "c_str (padded x) = Some (take 80 x)" and "takeWhile (\<lambda>c. c \<noteq> 0) (padded x) = take 80 x"
proof -
  have z: "0 \<notin> set (take 80 x)" using assms by (auto dest: in_set_takeD)
  have "81 - length (take 80 x) = Suc (80 - length (take 80 x))" by simp
  then have p: "padded x = take 80 x @ 0 # replicate (80 - length (take 80 x)) 0" by (simp add: padded_def)
  show "c_str (padded x) = Some (take 80 x)" unfolding p using z by simp
  show "takeWhile (\<lambda>c. c \<noteq> 0) (padded x) = take 80 x" unfolding p using z by (subst takeWhile_append2) auto
qed

lemma padded_inj: "0 \<notin> set x \<Longrightarrow> 0 \<notin> set y \<Longrightarrow> padded x = padded y \<longleftrightarrow> take 80 x = take 80 y"
  
  by (metis padded_def padded_string(2))

lemma stats_key_padded: "0 \<notin> set x \<Longrightarrow> stats_key (x @ 0 # s) = Some (padded x)"
  by (simp add: stats_key_string padded_def)

lemma tally_fold:
  "fold tally xs Map.empty k = (case find (\<lambda>x. fst x = k) xs of None \<Rightarrow> None
     | Some (_, _, c) \<Rightarrow> Some (c, {d. \<exists>c. (k, d, c) \<in> set xs}))"
proof (induction xs rule: rev_induct)
  case (snoc x xs)
  obtain k' d c where x: "x = (k', d, c)" by (cases x) auto
  have f: "find (\<lambda>x. fst x = k) (xs @ [x]) = (case find (\<lambda>x. fst x = k) xs of None \<Rightarrow> if k' = k then Some x else None | r \<Rightarrow> r)"
    using x by (induction xs) auto
  have n: "find (\<lambda>x. fst x = k) xs = None \<Longrightarrow> (k, d', c') \<notin> set xs" for d' c' by (auto simp: find_None_iff)
  show ?case
  proof (cases "k' = k")
    case True
    then show ?thesis using snoc x f n by (auto simp: tally_def split: option.splits)
  next
    case False
    then have "tally x M k = M k" for M using x by (auto simp: tally_def split: option.splits)
    then show ?thesis using snoc x f False by (auto split: option.splits)
  qed
qed simp

text \<open>What the records say: the group, the value that is counted once, the clicks.\<close>

type_synonym click = "block \<times> block \<times> u64"

definition brings :: "attrs \<Rightarrow> delivery \<Rightarrow> click \<Rightarrow> bool" where
  "brings c d = (\<lambda>(g, dis, clicks). 0 \<notin> set g \<and> 0 \<notin> set dis \<and>
     (\<exists>r1 r2. pick_attrs c (d_bins d) 0 None None None =
        Some (3, Some (U_ptr (g @ 0 # r1)), Some (U_ptr (dis @ 0 # r2)), Some (U_i64 clicks))))"

definition group_names :: "click list \<Rightarrow> block set" where
  "group_names rs = (\<lambda>(g, _, _). take 80 g) ` set rs"

definition first_clicks :: "click list \<Rightarrow> block \<Rightarrow> u64" where
  "first_clicks rs g = (case find (\<lambda>(g', _, _). take 80 g' = g) rs of Some (_, _, c) \<Rightarrow> c | None \<Rightarrow> 0)"

definition group_values :: "click list \<Rightarrow> block \<Rightarrow> block set" where
  "group_values rs g = (\<lambda>(_, d, _). take 80 d) ` {r \<in> set rs. take 80 (fst r) = g}"

definition keys_of :: "click \<Rightarrow> block \<times> block \<times> u64" where
  "keys_of = (\<lambda>(g, d, c). (padded g, padded d, c))"

lemma groupby_calls_ok:
  assumes "list_all2 (brings c) ds rs" and "\<forall>i. stats_env_ok (envs i)" and "groups_ok n (ga_groups u) M" and "n + length ds < 2 ^ 64"
  shows "\<exists>u'. groupby_calls envs i c ds u = Some u' \<and> groups_ok (n + length ds) (ga_groups u') (fold tally (map keys_of rs) M) \<and>
    ga_records_counter u' = ga_records_counter u + of_nat (length ds)"
  using assms(1,3,4)
proof (induction arbitrary: i n u M rule: list_all2_induct)
  case (Cons d ds r rs)
  obtain g dis clicks where r: "r = (g, dis, clicks)" by (cases r) auto
  with Cons.hyps(1) obtain r1 r2 where z: "0 \<notin> set g" "0 \<notin> set dis" and p: "pick_attrs c (d_bins d) 0 None None None =
      Some (3, Some (U_ptr (g @ 0 # r1)), Some (U_ptr (dis @ 0 # r2)), Some (U_i64 clicks))" by (auto simp: brings_def)
  from add_stats_ok [OF Cons.prems(1) _ _ stats_key_padded [OF z(1)] stats_key_padded [OF z(2)], of "envs i" r2 clicks r1] obtain g' where
    g': "add_stats (envs i) (ga_groups u) (Some (dis @ 0 # r2)) clicks (Some (g @ 0 # r1)) = Some g'"
    "groups_ok (Suc n) g' (tally (keys_of r) M)" using assms(2) Cons.prems(2) r by (auto simp: keys_of_def)
  let ?u = "u\<lparr>ga_groups := g', ga_records_counter := ga_records_counter u + 1\<rparr>"
  have "fast_groupby_getmany_cb (envs i) c d u = Some ?u" using p g'(1) by (simp add: fast_groupby_getmany_cb_def)
  moreover have "groups_ok (Suc n) (ga_groups ?u) (tally (keys_of r) M)" "Suc n + length ds < 2 ^ 64" using g'(2) Cons.prems(2) by simp_all
  from Cons.IH [OF this, of "Suc i"] obtain u' where "groupby_calls envs (Suc i) c ds ?u = Some u'"
    "groups_ok (Suc n + length ds) (ga_groups u') (fold tally (map keys_of rs) (tally (keys_of r) M))"
    "ga_records_counter u' = ga_records_counter ?u + of_nat (length ds)" by blast
  ultimately show ?case by (auto simp: algebra_simps)
qed simp

lemma fold_append: "fold (\<lambda>x ys. ys @ [f x]) xs ys = ys @ map f xs"
  by (induction xs arbitrary: ys) auto

lemma those_map_Some: "\<forall>x \<in> set xs. f x = Some (g x) \<Longrightarrow> those (map f xs) = Some (map g xs)"
  by (induction xs) auto

lemma in_set_map_fst: "k \<in> set (map fst xs) \<longleftrightarrow> (\<exists>v. (k, v) \<in> set xs)"
  by force

lemma print_groups_ok:
  assumes "groups_ok n g M" and "n < 2 ^ 64" and "\<forall>k \<in> dom M. c_str k = Some (nm k)"
  shows "\<exists>rows ks. print_groups g = Some rows \<and> distinct ks \<and> set ks = dom M \<and>
    rows = map (\<lambda>k. (nm k, fst (the (M k)), of_nat (card (snd (the (M k)))))) ks"
proof -
  from assms(1) obtain P where P: "\<forall>k. shash_map (gr_hash g) k = map_option (\<lambda>(c, D). stats_count (of_nat (P k)) c) (M k)"
    "\<forall>k c D. M k = Some (c, D) \<longrightarrow> P k < length (gr_tables g) \<and> tab 81 4 (gr_tables g ! P k) \<and> dom (shash_map (gr_tables g ! P k)) = D"
    and g: "shash_inv (gr_hash g)" "length (gr_tables g) \<le> n" unfolding groups_ok_def tab_def by blast
  have wf: "shash_wf (gr_hash g)" using g(1) by (simp add: shash_inv_def)
  let ?E = "shash_entries (gr_hash g)" and ?T = "gr_tables g"
  let ?row = "\<lambda>(key, data). do {
        skey \<leftarrow> c_str key;
        clicks \<leftarrow> load data 8 8;
        i \<leftarrow> stats_table data;
        n \<leftarrow> (if i < length ?T then shash_get_size (?T ! i) else None);
        Some (skey, le_word clicks :: u64, n) }"
  let ?res = "\<lambda>k. (nm k, fst (the (M k)), of_nat (card (snd (the (M k)))) :: u32)"
  have f: "print_stats_fn ?T k v rows = (0, v, rows @ [?row (k, v)])" for k v rows
    unfolding print_stats_fn_def SHASH_OK_def prod.case by (rule refl)
  have "shash_reduce (gr_hash g) (print_stats_fn ?T) [] = Some (0, gr_hash g, fold (\<lambda>x rows. rows @ [?row x]) ?E [])"
    using shash_reduce_reads [OF g(1) f] .
  then have pr: "print_groups g = those (map ?row ?E)" by (simp add: print_groups_def fold_append)
  have "?row x = Some (?res (fst x))" if "x \<in> set ?E" for x
  proof -
    obtain k v where x: "x = (k, v)" by fastforce
    then have "shash_map (gr_hash g) k = Some v" using that shash_entries_map [OF wf] by simp
    then obtain c D where M: "M k = Some (c, D)" and v: "v = stats_count (of_nat (P k)) c" using P(1) by auto
    note t = P(2) [rule_format, OF M]
    have "P k < 2 ^ 64" using t g(2) assms(2) by simp
    then have s: "stats_table v = Some (P k)" unfolding v by (rule stats_table_count)
    have l: "load v 8 8 = Some (word_le 8 c)" unfolding v by (simp add: stats_count_def load_def)
    have k: "c_str k = Some (nm k)" using assms(3) M by auto
    show ?thesis using x k l s t tab_size [of 81 4 "?T ! P k"] M by (simp add: le_word_word_le)
  qed
  then have "those (map ?row ?E) = Some (map (\<lambda>x. ?res (fst x)) ?E)" by (intro those_map_Some) blast
  moreover have "set (map fst ?E) = dom M"
  proof -
    have "k \<in> set (map fst ?E) \<longleftrightarrow> (\<exists>v. shash_map (gr_hash g) k = Some v)" for k
      using shash_entries_map [OF wf, of k] in_set_map_fst [of k ?E] by blast
    then show ?thesis using P(1) by (auto simp: dom_def simp del: set_map)
  qed
  ultimately show ?thesis using pr distinct_shash_entries [OF wf]
    by (intro exI [of _ "map ?res (map fst ?E)"] exI [of _ "map fst ?E"]) (simp add: comp_def)
qed

lemma padded_take [simp]: "padded (take 80 x) = padded x"
  by (simp add: padded_def)

lemma brings_no_zero: "list_all2 (brings c) ds rs \<Longrightarrow> \<forall>r \<in> set rs. 0 \<notin> set (fst r) \<and> 0 \<notin> set (fst (snd r))"
  by (induction rule: list_all2_induct) (auto simp: brings_def)

lemma find_keys:
  assumes "\<forall>r \<in> set rs. 0 \<notin> set (fst r)" and "0 \<notin> set g"
  shows "find (\<lambda>x. fst x = padded g) (map keys_of rs) = map_option keys_of (find (\<lambda>(g', _, _). take 80 g' = take 80 g) rs)"
  using assms(1) by (induction rs) (auto simp: keys_of_def padded_inj assms(2) split: prod.splits)

lemma values_keys:
  assumes "\<forall>r \<in> set rs. 0 \<notin> set (fst r)" and "0 \<notin> set g"
  shows "{d. \<exists>c. (padded g, d, c) \<in> set (map keys_of rs)} = padded ` group_values rs (take 80 g)"
proof (rule set_eqI)
  fix d
  have e: "keys_of r = (padded g, d, c) \<longleftrightarrow> take 80 (fst r) = take 80 g \<and> d = padded (fst (snd r)) \<and> c = snd (snd r)" if "r \<in> set rs" for r c
  proof -
    have "0 \<notin> set (fst r)" using that assms(1) by blast
    then show ?thesis using padded_inj [OF _ assms(2), of "fst r"] by (auto simp: keys_of_def case_prod_beta)
  qed
  have "d \<in> {d. \<exists>c. (padded g, d, c) \<in> set (map keys_of rs)} \<longleftrightarrow> (\<exists>c. \<exists>r \<in> set rs. keys_of r = (padded g, d, c))"
    unfolding mem_Collect_eq set_map image_iff by metis
  also have "\<dots> \<longleftrightarrow> (\<exists>r \<in> set rs. take 80 (fst r) = take 80 g \<and> d = padded (fst (snd r)))" using e by blast
  also have "\<dots> \<longleftrightarrow> d \<in> padded ` group_values rs (take 80 g)"
    by (force simp: group_values_def image_iff case_prod_beta)
  finally show "d \<in> {d. \<exists>c. (padded g, d, c) \<in> set (map keys_of rs)} \<longleftrightarrow> d \<in> padded ` group_values rs (take 80 g)" .
qed

lemma tally_keys:
  assumes "\<forall>r \<in> set rs. 0 \<notin> set (fst r)" and "g \<in> group_names rs"
  shows "fold tally (map keys_of rs) Map.empty (padded g) = Some (first_clicks rs g, padded ` group_values rs g)"
proof -
  from assms(2) obtain g0 d0 c0 where g: "(g0, d0, c0) \<in> set rs" "g = take 80 g0" by (auto simp: group_names_def)
  then have z: "0 \<notin> set g0" using assms(1) by fastforce
  have "find (\<lambda>(g', _, _). take 80 g' = take 80 g0) rs \<noteq> None" using g(1) unfolding find_None_iff by auto
  then obtain r where r: "find (\<lambda>(g', _, _). take 80 g' = take 80 g0) rs = Some r" by blast
  have "fold tally (map keys_of rs) Map.empty (padded g0) =
      Some (first_clicks rs (take 80 g0), padded ` group_values rs (take 80 g0))"
    unfolding tally_fold find_keys [OF assms(1) z] values_keys [OF assms(1) z] using r
    by (cases r) (simp add: keys_of_def first_clicks_def)
  then show ?thesis using g(2) by simp
qed

lemma tally_keys_dom: "dom (fold tally (map keys_of rs) Map.empty) = padded ` group_names rs"
proof -
  have "k \<in> dom (fold tally (map keys_of rs) Map.empty) \<longleftrightarrow> (\<exists>x \<in> set (map keys_of rs). fst x = k)" for k
    unfolding dom_def mem_Collect_eq tally_fold using find_None_iff [of "\<lambda>x. fst x = k" "map keys_of rs"]
    by (cases "find (\<lambda>x. fst x = k) (map keys_of rs)") auto
  then have "dom (fold tally (map keys_of rs) Map.empty) = fst ` set (map keys_of rs)" by (intro set_eqI) (simp only: image_iff eq_commute [of _ "fst _"])
  also have "\<dots> = fst ` keys_of ` set rs" by simp
  also have "\<dots> = padded ` group_names rs" unfolding group_names_def image_image
    by (rule image_cong) (auto simp: keys_of_def)
  finally show ?thesis .
qed

lemma card_group_values:
  assumes "\<forall>r \<in> set rs. 0 \<notin> set (fst (snd r))"
  shows "card (padded ` group_values rs g) = card (group_values rs g)"
proof (rule card_image, rule inj_onI)
  have v: "0 \<notin> set x \<and> take 80 x = x" if "x \<in> group_values rs g" for x
    using that assms by (force simp: group_values_def dest: in_set_takeD)
  fix x y assume "x \<in> group_values rs g" "y \<in> group_values rs g" "padded x = padded y"
  then show "x = y" using v padded_inj by metis
qed

text \<open>
  C10: What a grouped query counts. The rows that are printed are one for each group of the records that
  were read, a group being the first 80 characters of its name; its last column is the number
  of distinct values, by their first 80 characters. The clicks of a group are those of
  the first of its records alone, not the sum that the heading of the table announces.
\<close>

theorem group_rows:
  assumes "list_all2 (brings c) ds rs" and "\<forall>i. stats_env_ok (envs i)" and "length ds < 2 ^ 64"
    and "snd (shash_create (Some g1) (Some g2) True None FNV32 81 16 1024 0) = Some h"
  shows "\<exists>u rows. groupby_calls envs 0 c ds \<lparr>ga_groups = \<lparr>gr_hash = h, gr_tables = []\<rparr>, ga_records_counter = 0\<rparr> = Some u \<and>
    ga_records_counter u = of_nat (length ds) \<and> print_groups (ga_groups u) = Some rows \<and> distinct (map fst rows) \<and>
    set rows = (\<lambda>g. (g, first_clicks rs g, of_nat (card (group_values rs g)))) ` group_names rs"
proof -
  let ?u0 = "\<lparr>ga_groups = \<lparr>gr_hash = h, gr_tables = []\<rparr>, ga_records_counter = 0\<rparr>" and ?M = "fold tally (map keys_of rs) Map.empty"
  have z: "\<forall>r \<in> set rs. 0 \<notin> set (fst r)" "\<forall>r \<in> set rs. 0 \<notin> set (fst (snd r))"
    using brings_no_zero [OF assms(1)] by blast+
  have "tab 81 16 h" "shash_map h = Map.empty" using tab_create [of 1024 g1 g2 FNV32 81 16] assms(4) by auto
  then have "groups_ok 0 (ga_groups ?u0) Map.empty" by (simp add: groups_ok_def)
  from groupby_calls_ok [OF assms(1,2) this, of 0] assms(3) obtain u where
    u: "groupby_calls envs 0 c ds ?u0 = Some u" "groups_ok (length ds) (ga_groups u) ?M" "ga_records_counter u = of_nat (length ds)" by auto
  let ?nm = "takeWhile (\<lambda>c. c \<noteq> 0)" and ?row = "\<lambda>g. (g, first_clicks rs g, of_nat (card (group_values rs g)) :: u32)"
  have nm: "c_str (padded g) = Some g \<and> ?nm (padded g) = g" if "g \<in> group_names rs" for g
  proof -
    from that obtain g0 where g: "g = take 80 g0" "0 \<notin> set g0" using z(1) by (force simp: group_names_def)
    then show ?thesis using padded_string [OF g(2)] by simp
  qed
  have c: "\<forall>k \<in> dom ?M. c_str k = Some (?nm k)" unfolding tally_keys_dom using nm by auto
  obtain rows ks where rows: "print_groups (ga_groups u) = Some rows" "distinct ks" "set ks = dom ?M"
    "rows = map (\<lambda>k. (?nm k, fst (the (?M k)), of_nat (card (snd (the (?M k)))))) ks"
    using print_groups_ok [OF u(2) assms(3) c] by blast
  have "inj_on ?nm (set ks)" unfolding rows(3) tally_keys_dom using nm by (auto simp: inj_on_def)
  then have d: "distinct (map fst rows)" using rows(2,4) by (simp add: comp_def distinct_map)
  have "set rows = (\<lambda>g. (?nm (padded g), fst (the (?M (padded g))), of_nat (card (snd (the (?M (padded g))))))) ` group_names rs"
    unfolding rows(4) set_map rows(3) tally_keys_dom image_image ..
  also have "\<dots> = ?row ` group_names rs"
    by (rule image_cong) (simp_all add: nm tally_keys [OF z(1)] card_group_values [OF z(2)])
  finally show ?thesis using u(1,3) rows(1) d by blast
qed

definition sample_attrs :: attrs where
  "sample_attrs = \<lparr>at_group = Some [103, 0], at_distinct = Some [100, 0], at_count = Some [99, 0]\<rparr>"

definition sample_click_bin :: "u8 \<Rightarrow> cl_union \<Rightarrow> cl_bin" where
  "sample_click_bin c u = \<lparr>bin_name = [c, 0], bin_object = \<lparr>o_type = 0, o_sz = 0, o_u = u, o_free = False\<rparr>\<rparr>"

definition sample_click :: "u8 \<Rightarrow> u64 \<Rightarrow> delivery" where
  "sample_click d n = \<lparr>d_ns = [], d_keyd = None, d_set = None, d_generation = 0, d_ttl = 0,
     d_bins = [sample_click_bin 103 (U_ptr [97, 0]), sample_click_bin 99 (U_i64 n), sample_click_bin 100 (U_ptr [d, 0])], d_buf = []\<rparr>"

definition sample_stats :: stats_env where
  "sample_stats = \<lparr>st_others = id, st_struct = Some (\<lambda>_. 0), st_table = Some (\<lambda>_. 0), st_distinct = Some (\<lambda>_. 0), st_group = Some (\<lambda>_. 0)\<rparr>"

theorem group_rows_witness:
  "\<exists>h u rows. snd (shash_create (Some (\<lambda>_. 0)) (Some (\<lambda>_. 0)) True None FNV32 81 16 1024 0) = Some h \<and>
    groupby_calls (\<lambda>_. sample_stats) 0 sample_attrs [sample_click 120 5, sample_click 121 7]
      \<lparr>ga_groups = \<lparr>gr_hash = h, gr_tables = []\<rparr>, ga_records_counter = 0\<rparr> = Some u \<and>
    ga_records_counter u = 2 \<and> print_groups (ga_groups u) = Some rows \<and> set rows = {([97], 5, 2)}"
proof -
  let ?rs = "[([97], [120], 5), ([97], [121], 7)] :: click list"
  have "pick_attrs sample_attrs (d_bins (sample_click 120 5)) 0 None None None =
      Some (3, Some (U_ptr ([97] @ 0 # [])), Some (U_ptr ([120] @ 0 # [])), Some (U_i64 5))"
    "pick_attrs sample_attrs (d_bins (sample_click 121 7)) 0 None None None =
      Some (3, Some (U_ptr ([97] @ 0 # [])), Some (U_ptr ([121] @ 0 # [])), Some (U_i64 7))" by code_simp+
  then have "brings sample_attrs (sample_click 120 5) ([97], [120], 5)" "brings sample_attrs (sample_click 121 7) ([97], [121], 7)"
    unfolding brings_def prod.case by auto
  then have b: "list_all2 (brings sample_attrs) [sample_click 120 5, sample_click 121 7] ?rs" by simp
  obtain h where h: "snd (shash_create (Some (\<lambda>_. 0)) (Some (\<lambda>_. 0)) True None FNV32 81 16 1024 0) = Some h"
    using tab_create [of 1024 "\<lambda>_. 0" "\<lambda>_. 0" FNV32 81 16] by auto
  have n: "group_names ?rs = {[97]}" by (simp add: group_names_def)
  have v: "group_values ?rs [97] = {[120], [121]}" 
  proof -
    have "{r \<in> set ?rs. take 80 (fst r) = [97]} = set ?rs" by auto
    then show ?thesis by (simp add: group_values_def)
  qed
  have f: "first_clicks ?rs [97] = 5" by (simp add: first_clicks_def)
  show ?thesis using group_rows [OF b _ _ h, of "\<lambda>_. sample_stats"] h
    by (auto simp: n v f sample_stats_def stats_env_ok_def)
qed

subsection \<open>The digests of the entries\<close>

text \<open>A delivery of the entry of an hour, as it is kept: one blob.\<close>

definition brings_entry :: "delivery \<Rightarrow> block list \<Rightarrow> bool" where
  "brings_entry d ds \<longleftrightarrow> (\<exists>bin b. d_bins d = [bin] \<and> o_type (bin_object bin) = CL_BLOB \<and>
     u_ptr (o_u (bin_object bin)) = Some b \<and> index_rep b ds)"

definition entries_of :: "block list list \<Rightarrow> nat \<Rightarrow> block option list \<Rightarrow> bool" where
  "entries_of dss n irs \<longleftrightarrow> length irs = n \<and>
     (\<exists>bs. list_all2 index_rep bs dss \<and> irs = map Some bs @ replicate (n - length dss) None)"

lemma index_rep_length: "index_rep b ds \<Longrightarrow> length b = 8 + length ds * 20"
  by (auto simp: index_rep_def length_concat_digests)

lemma index_rep_size:
  assumes "index_rep b ds"
  shows "unat (8 + of_nat (length ds) * 20 :: u64) = length b"
proof -
  have "(8 + of_nat (length ds) * 20 :: u64) = of_nat (length b)" using index_rep_length [OF assms] by simp
  moreover have "length b < 2 ^ 64" using index_rep_length [OF assms] assms by (simp add: index_rep_def)
  ultimately show ?thesis by (simp add: unat_of_nat)
qed

lemma add_keys_ok:
  assumes "index_rep b ds" and "ds \<noteq> []" and "e = Some g" and "entries_of dss n (dt_irs t)" and "dt_curr t = of_nat (length dss)"
    and "length dss < n" and "n < 2 ^ 31"
  shows "\<exists>t'. add_keys_to_digest_table e b t = Some t' \<and> entries_of (dss @ [ds]) n (dt_irs t') \<and> dt_curr t' = of_nat (length (dss @ [ds]))"
proof -
  obtain bs where bs: "list_all2 index_rep bs dss" "dt_irs t = map Some bs @ replicate (n - length dss) None" "length (dt_irs t) = n"
    using assms(4) unfolding entries_of_def by blast
  have lb: "length bs = length dss" using bs(1) by (rule list_all2_lengthD)
  obtain k where k: "n - length dss = Suc k" using assms(6) by (metis Suc_diff_Suc)
  have u: "unat (dt_curr t) = length bs" using assms(5-7) lb by (simp add: unat_of_nat)
  have c: "index_count b = Some (of_nat (length ds))" "(of_nat (length ds) :: u64) \<noteq> 0"
    using index_rep_count [OF assms(1)] assms(2) by (auto simp: unat_eq_zero [symmetric])
  let ?t = "t\<lparr>dt_curr := dt_curr t + 1, dt_irs := (dt_irs t)[length bs := Some b]\<rparr>"
  have "add_keys_to_digest_table e b t = Some ?t"
    using c u lb k bs(2) assms(3) index_rep_size [OF assms(1)]
    by (simp add: add_keys_to_digest_table_def Let_def malloc_def load_def store_def nth_append)
  moreover have "entries_of (dss @ [ds]) n (dt_irs ?t)"
    using bs k lb assms(1) by (auto simp: entries_of_def list_update_append intro!: exI [of _ "bs @ [b]"] list_all2_appendI)
  ultimately show ?thesis using assms(5) by auto
qed

lemma index_calls_ok:
  assumes "list_all2 brings_entry calls dss" and "[] \<notin> set dss" and "\<forall>i. envs i \<noteq> None" and "entries_of dss0 n (dt_irs t)"
    and "dt_curr t = of_nat (length dss0)" and "length dss0 + length dss \<le> n" and "n < 2 ^ 31"
  shows "\<exists>t'. index_calls envs i calls t = Some t' \<and> entries_of (dss0 @ dss) n (dt_irs t')"
  using assms(1,2,4,5,6)
proof (induction arbitrary: i t dss0 rule: list_all2_induct)
  case (Cons d calls ds dss)
  from Cons.hyps(1) obtain bin b where b: "d_bins d = [bin]" "o_type (bin_object bin) = CL_BLOB" "u_ptr (o_u (bin_object bin)) = Some b"
    "index_rep b ds" by (auto simp: brings_entry_def)
  obtain g where g: "envs i = Some g" using assms(3) by blast
  from add_keys_ok [OF b(4) _ g Cons.prems(2,3) _ assms(7)] Cons.prems(1,4) obtain t' where
    t': "add_keys_to_digest_table (envs i) b t = Some t'" "entries_of (dss0 @ [ds]) n (dt_irs t')" "dt_curr t' = of_nat (length (dss0 @ [ds]))" by auto
  from Cons.IH [OF _ t'(2,3), of "Suc i"] Cons.prems(1,4) obtain t'' where
    "index_calls envs (Suc i) calls t' = Some t''" "entries_of ((dss0 @ [ds]) @ dss) n (dt_irs t'')" by auto
  then show ?case using b(1-3) t'(1) by (simp add: index_getmany_cb_def)
qed simp

lemma count_digests_ok:
  "list_all2 index_rep bs dss \<Longrightarrow> count_digests (map Some bs @ replicate k None) n = Some (n + of_nat (length (concat dss)))"
proof (induction arbitrary: n rule: list_all2_induct)
  case Nil
  show ?case by (induction k) auto
next
  case (Cons b bs ds dss)
  then show ?case using index_rep_count [OF Cons.hyps(1)] by (simp add: algebra_simps)
qed

lemma copy_digests_ok:
  assumes "list_all2 index_rep bs dss" and "length q = length a + length (concat dss) * 20" and "length a = off * 20"
    and "take (length a) q = a" and "off + length (concat dss) < 2 ^ 31"
  shows "copy_digests (map Some bs @ replicate k None) q off = Some (a @ concat (concat dss))"
  using assms
proof (induction arbitrary: q a off rule: list_all2_induct)
  case Nil
  then have "q = a" by simp
  then show ?case by (induction k) auto
next
  case (Cons b bs ds dss)
  have cnt: "index_count b = Some (of_nat (length ds))" "unat (of_nat (length ds) :: u64) = length ds"
    using index_rep_count [OF Cons.hyps(1)] by auto
  show ?case
  proof (cases "ds = []")
    case True
    then show ?thesis using Cons.IH [of q a off] Cons.prems cnt by simp
  next
    case False
    then have nz: "(of_nat (length ds) :: u64) \<noteq> 0" using cnt(2) by (metis length_0_conv unat_0)
    have l: "length (concat ds) = length ds * 20" using Cons.hyps(1) by (auto simp: index_rep_def length_concat_digests)
    have ld: "load b 8 (20 * length ds) = Some (concat ds)" using Cons.hyps(1) l by (auto simp: index_rep_def load_def mult.commute)
    let ?q = "a @ concat ds @ drop (length a + length (concat ds)) q"
    have st: "store q (off * 20) (concat ds) = Some ?q"
      using Cons.prems(1-3) l by (simp add: store_def algebra_simps)
    have "copy_digests (map Some bs @ replicate k None) ?q (off + length ds) = Some ((a @ concat ds) @ concat (concat dss))"
      by (rule Cons.IH) (use Cons.prems l in \<open>simp_all add: algebra_simps\<close>)
    then show ?thesis using cnt nz ld st Cons.prems(4) by simp
  qed
qed

lemma digest_blocks_concat: "\<forall>d \<in> set ds. length d = 20 \<Longrightarrow> digest_blocks (length ds) (concat ds @ r) = ds"
  by (induction ds) auto

text \<open>
  C20: The query asks for exactly the records that the index names: with entries of the index that are
  in order, not more of them than hours, the array of the digests holds the digests of the entries, in the order in which
  the entries were delivered.
\<close>

theorem digests_gathered:
  assumes "list_all2 brings_entry calls dss" and "[] \<notin> set dss" and "dss \<noteq> []" and "\<forall>i. envs i \<noteq> None" and "qe_all_digests e = Some g"
    and "length dss \<le> n" and "n < 2 ^ 31" and "length (concat dss) < 2 ^ 31"
  shows "\<exists>t c'. index_calls envs 0 calls \<lparr>dt_irs = replicate n None, dt_curr = 0\<rparr> = Some t \<and>
    gather_digests e (c\<lparr>sc_irs := Some t\<rparr>) = Some (Some c') \<and> sc_n_digests c' = of_nat (length (concat dss)) \<and>
    map_option (digest_blocks (unat (sc_n_digests c'))) (sc_digests c') = Some (concat dss)"
proof -
  let ?t0 = "\<lparr>dt_irs = replicate n None, dt_curr = 0\<rparr>" and ?n = "length (concat dss)"
  have "entries_of [] n (dt_irs ?t0)" by (simp add: entries_of_def)
  from index_calls_ok [OF assms(1,2,4) this, of 0] assms(6,7) obtain t where
    t: "index_calls envs 0 calls ?t0 = Some t" "entries_of dss n (dt_irs t)" by auto
  obtain bs where bs: "list_all2 index_rep bs dss" "dt_irs t = map Some bs @ replicate (n - length dss) None"
    using t(2) unfolding entries_of_def by blast
  have c: "count_digests (dt_irs t) 0 = Some (of_nat ?n)" unfolding bs(2) using count_digests_ok [OF bs(1)] by simp
  have n: "unat (of_nat ?n :: u64) = ?n" using assms(8) by (simp add: unat_of_nat)
  have "0 < ?n" using assms(2,3) by (cases dss) auto
  then have nz: "(of_nat ?n :: u64) \<noteq> 0" using n by (metis less_numeral_extra(3) unat_0)
  have sz: "unat (of_nat ?n * 20 :: u64) = ?n * 20"
  proof -
    have "(of_nat ?n * 20 :: u64) = of_nat (?n * 20)" by simp
    moreover have "?n * 20 < 2 ^ 64" using assms(8) by simp
    ultimately show ?thesis by (simp only: unat_of_nat) simp
  qed
  let ?p = "map g [0..<?n * 20]" and ?q = "concat (concat dss)"
  have p: "copy_digests (dt_irs t) ?p 0 = Some ?q"
    unfolding bs(2) using copy_digests_ok [OF bs(1), of ?p "[]" 0] assms(8) by simp
  let ?c = "c\<lparr>sc_irs := Some t, sc_n_digests := of_nat ?n, sc_digests := Some ?q\<rparr>"
  have "gather_digests e (c\<lparr>sc_irs := Some t\<rparr>) = Some (Some ?c)"
    using c nz sz p assms(5) by (simp add: gather_digests_def malloc_def)
  moreover have "\<forall>d \<in> set (concat dss). length d = 20"
    using bs(1) by (fastforce simp: list_all2_conv_all_nth index_rep_def in_set_conv_nth)
  then have "digest_blocks ?n ?q = concat dss" using digest_blocks_concat [of "concat dss" "[]"] by simp
  ultimately show ?thesis using t(1) n by (intro exI [of _ t] exI [of _ ?c]) simp
qed

definition sample_entry_call :: delivery where
  "sample_entry_call = \<lparr>d_ns = [], d_keyd = None, d_set = None, d_generation = 0, d_ttl = 0,
     d_bins = [\<lparr>bin_name = [105, 114, 0], bin_object = \<lparr>o_type = CL_BLOB, o_sz = 28, o_u = U_ptr sample_entry, o_free = False\<rparr>\<rparr>], d_buf = []\<rparr>"

definition sample_query :: query_env where
  "sample_query = \<lparr>qe_stack = (\<lambda>_. 0), qe_group_struct = Some (\<lambda>_. 0), qe_group_table = Some (\<lambda>_. 0), qe_digests = Some (\<lambda>_. 0),
     qe_irs = Some (\<lambda>_. 0), qe_index_call = sample_call, qe_index_envs = (\<lambda>_. Some (\<lambda>_. 0)), qe_all_digests = Some (\<lambda>_. 255),
     qe_batch_call = sample_call, qe_scan = sample_scan_env [] [], qe_stats = (\<lambda>_. sample_stats), qe_start = 0, qe_end = 5\<rparr>"

definition sample_sconfig :: sconfig where
  "sample_sconfig = \<lparr>sc_ns = Some [110, 0], sc_set = Some [115, 0], sc_iset = Some [105, 0], sc_index = True, sc_account_id = Some [97, 0],
     sc_begin_date = None, sc_end_date = None, sc_group_attr = Some [103, 0], sc_distinct_attr = Some [100, 0], sc_count_attr = Some [99, 0],
     sc_date_hour_attr = None, sc_account_id_attr = None, sc_begin_date_hour = 0, sc_end_date_hour = 2, sc_records_counter = 0,
     sc_elapsed_time = 0, sc_irs = None, sc_digests = None, sc_n_digests = 0, sc_group_hash = None\<rparr>"

theorem digests_gathered_witness:
  "\<exists>t c'. index_calls (\<lambda>_. Some (\<lambda>_. 255)) 0 [sample_entry_call] \<lparr>dt_irs = replicate 2 None, dt_curr = 0\<rparr> = Some t \<and>
    gather_digests sample_query (sample_sconfig\<lparr>sc_irs := Some t\<rparr>) = Some (Some c') \<and> sc_n_digests c' = 1 \<and>
    map_option (digest_blocks 1) (sc_digests c') = Some [replicate 20 7]"
proof -
  have "index_rep sample_entry [replicate 20 7]" by (simp add: index_rep_def sample_entry_def)
  then have b: "list_all2 brings_entry [sample_entry_call] [[replicate 20 7]]" by (simp add: brings_entry_def sample_entry_call_def)
  show ?thesis
    using digests_gathered [OF b, of "\<lambda>_. Some (\<lambda>_. 255)" sample_query "\<lambda>_. 255" 2 sample_sconfig] by (auto simp: sample_query_def)
qed

subsection \<open>The keys of a query\<close>

text \<open>
  C34: A query looks where \<open>put_index\<close> has written: for an hour of at most ten digits it builds the same key
  as an entry is stored under, of the account and the decimal number of the hour. But it reserves ten
  digits whatever the hour is, so that the entries of an account name that just fits cannot be asked for.
\<close>

theorem query_key:
  assumes "0 \<notin> set account" and "n < 2 ^ 31"
  shows "hour_key account (of_nat n) = (if length account + 11 \<le> MAX_KEY_SIZE then joined_key account (dec n) else Some None)"
proof (cases "length account + 11 \<le> MAX_KEY_SIZE")
  case True
  let ?a = "length account" and ?d = "dec n"
  have l: "length ?d \<le> 10" using length_dec_le [of n 9] assms(2) by simp
  have "sint (of_nat n :: u32) = int n" using assms(2) by (simp add: signed_of_nat signed_take_bit_int_eq_self)
  then have p: "print_int (of_nat n) = ?d" by (simp add: print_int_def)
  obtain k where k: "MAX_KEY_SIZE + 1 = ?a + (1 + (length ?d + (1 + k)))"
    using True l by (auto simp: MAX_KEY_SIZE_def le_iff_add intro: that [of "159 - ?a - length ?d"])
  have r: "replicate (MAX_KEY_SIZE + 1) (0 :: u8) = replicate ?a 0 @ [0] @ replicate (length ?d) 0 @ [0] @ replicate k 0"
    unfolding k replicate_add by simp
  show ?thesis using True l p r by (simp add: hour_key_def joined_key_def DATE_HOUR_SIZE_def MAX_KEY_SIZE_def store_def)
next
  case False
  then show ?thesis by (simp add: hour_key_def DATE_HOUR_SIZE_def)
qed

theorem query_key_witness:
  "hour_key (replicate 150 97) 392688 = Some None \<and>
   hour_key [97] 392688 = Some (Some (str_lit ''a:392688'' @ replicate 153 0)) \<and>
   (\<exists>k. joined_key (replicate 150 97) (dec 392688) = Some (Some k))"
proof -
  have d: "dec 392688 = [51, 57, 50, 54, 56, 56]" by (simp add: dec.simps)
  have "joined_key [97] (dec 392688) = Some (Some (str_lit ''a:392688'' @ replicate 153 0))" unfolding d by code_simp
  moreover have "\<exists>k. joined_key (replicate 150 97) (dec 392688) = Some (Some k)"
    unfolding d by (simp add: joined_key_def store_def MAX_KEY_SIZE_def)
  ultimately show ?thesis using query_key [of "replicate 150 97" 392688] query_key [of "[97]" 392688]
    by (simp add: MAX_KEY_SIZE_def)
qed

end
